(* ===== verification/Rlink_Prelude.thy ===== *)
theory Rlink_Prelude
  imports Main "HOL-Library.Word" "HOL-Library.Multiset" "HOL-Library.AList"
begin

text \<open>
  Shared vocabulary of the development: the widths of Rust's unsigned integers, the
  panics of the code as values, the two's complement view of \<open>u64\<close> the window code uses
  (\<open>as i64\<close>), the big-endian conversions of the standard library, hash maps as
  association lists with an explicit iteration order, and the generic lemmas the
  component theories use.  Everything here is about the language and its standard
  library; the components start in the other theories.
\<close>

section \<open>Automation collections\<close>

named_theorems res_simps \<open>equations of the panic monad\<close>
named_theorems codec_simps \<open>round-trip equations of the binary encoders\<close>

section \<open>Integers\<close>

text \<open>
  \<open>u8\<close> to \<open>u64\<close> keep their width: addition and subtraction on them wrap, as the release
  profile of the compiler does.  \<open>usize\<close> values (lengths, indices, counters) are
  \<open>nat\<close>; an \<open>i64\<close> is an \<open>int\<close> and every operation on it that can leave the range
  goes through \<open>wrap_i64\<close>.
\<close>

type_synonym u8 = "8 word"
type_synonym u16 = "16 word"
type_synonym u32 = "32 word"
type_synonym u64 = "64 word"

definition as_i64 :: "u64 \<Rightarrow> int" where
  "as_i64 x = sint x"

definition wrap_i64 :: "int \<Rightarrow> int" where
  "wrap_i64 x = sint (word_of_int x :: u64)"

definition as_u64 :: "int \<Rightarrow> u64" where
  "as_u64 x = word_of_int x"

text \<open>Rust's \<open>%\<close> truncates towards zero: the remainder has the sign of the dividend.\<close>

definition rem_i64 :: "int \<Rightarrow> int \<Rightarrow> int" where
  "rem_i64 a b = sgn a * (\<bar>a\<bar> mod \<bar>b\<bar>)"

lemma wrap_i64_id: "- (2 ^ 63) \<le> x \<Longrightarrow> x < 2 ^ 63 \<Longrightarrow> wrap_i64 x = x"
  by (simp add: wrap_i64_def sint_sbintrunc' signed_take_bit_int_eq_self)

lemma wrap_i64_small:
  "- 9223372036854775808 \<le> x \<Longrightarrow> x < 9223372036854775808 \<Longrightarrow> wrap_i64 x = x"
  by (rule wrap_i64_id) simp_all

lemma as_i64_small: "uint x < 2 ^ 63 \<Longrightarrow> as_i64 x = uint x"
proof -
  assume b: "uint x < 2 ^ 63"
  have "as_i64 x = signed_take_bit 63 (uint x)"
    by (simp add: as_i64_def sint_uint)
  also have "\<dots> = uint x"
    using b by (intro signed_take_bit_int_eq_self) (simp_all add: order_trans[of _ 0])
  finally show ?thesis .
qed

lemma uint_as_u64: "0 \<le> x \<Longrightarrow> x < 2 ^ 64 \<Longrightarrow> uint (as_u64 x) = x"
  by (simp add: as_u64_def uint_word_of_int)

lemma rem_i64_pos: "0 \<le> a \<Longrightarrow> 0 < b \<Longrightarrow> rem_i64 a b = a mod b"
  by (cases "a = 0") (auto simp: rem_i64_def sgn_if)

section \<open>Panics and results\<close>

text \<open>
  A panic of the code is a value: \<open>Inl\<close> with what the failing expression was, \<open>Inr\<close>
  with the returned value.
\<close>

datatype panic =
    Unwrap_none
  | Assert_failed
  | Unreachable
  | Unimplemented
  | Explicit_panic
  | Index_out_of_bounds
  | Buffer_underflow
  | Division_by_zero

type_synonym 'a res = "panic + 'a"

definition rbind :: "'e + 'a \<Rightarrow> ('a \<Rightarrow> 'e + 'b) \<Rightarrow> 'e + 'b" where
  "rbind m f = (case m of Inl e \<Rightarrow> Inl e | Inr x \<Rightarrow> f x)"

lemma rbind_simps [simp, res_simps]:
  "rbind (Inl e) f = Inl e"
  "rbind (Inr x) f = f x"
  by (simp_all add: rbind_def)

lemma rbind_eq_Inr: "rbind m f = Inr y \<longleftrightarrow> (\<exists>x. m = Inr x \<and> f x = Inr y)"
  by (cases m) auto

lemma rbind_assoc: "rbind (rbind m f) g = rbind m (\<lambda>x. rbind (f x) g)"
  by (cases m) auto

text \<open>
  A function that returns a \<open>Result\<close> can fail in two ways: it panics, or it returns its
  error.
\<close>

datatype 'e failure = Panicked panic | Failed 'e

definition lift_panic :: "'a res \<Rightarrow> 'e failure + 'a" where
  "lift_panic m = (case m of Inl p \<Rightarrow> Inl (Panicked p) | Inr x \<Rightarrow> Inr x)"

lemma lift_panic_simps [simp, res_simps]:
  "lift_panic (Inl p) = Inl (Panicked p)" "lift_panic (Inr x) = Inr x"
  by (simp_all add: lift_panic_def)

definition unwrap :: "'a option \<Rightarrow> 'a res" where
  "unwrap x = (case x of None \<Rightarrow> Inl Unwrap_none | Some v \<Rightarrow> Inr v)"

definition index_res :: "'a list \<Rightarrow> nat \<Rightarrow> 'a res" where
  "index_res xs i = (if i < length xs then Inr (xs ! i) else Inl Index_out_of_bounds)"

definition assert_res :: "bool \<Rightarrow> unit res" where
  "assert_res b = (if b then Inr () else Inl Assert_failed)"

lemma unwrap_simps [simp, res_simps]:
  "unwrap (Some v) = Inr v" "unwrap None = Inl Unwrap_none"
  by (simp_all add: unwrap_def)

lemma unwrap_eq_Inr [simp]: "unwrap x = Inr v \<longleftrightarrow> x = Some v"
  by (cases x) auto

lemma index_res_in [simp]: "i < length xs \<Longrightarrow> index_res xs i = Inr (xs ! i)"
  by (simp add: index_res_def)

lemma index_res_eq_Inr: "index_res xs i = Inr v \<longleftrightarrow> i < length xs \<and> v = xs ! i"
  by (auto simp: index_res_def)

lemma assert_res_simps [simp, res_simps]:
  "assert_res True = Inr ()" "assert_res False = Inl Assert_failed"
  by (simp_all add: assert_res_def)

text \<open>A loop whose body may panic: left to right, stopping at the first panic.\<close>

fun fold_res :: "('a \<Rightarrow> 's \<Rightarrow> 'e + 's) \<Rightarrow> 'a list \<Rightarrow> 's \<Rightarrow> 'e + 's" where
  "fold_res f [] s = Inr s"
| "fold_res f (x # xs) s = rbind (f x s) (fold_res f xs)"

lemma fold_res_append: "fold_res f (xs @ ys) s = rbind (fold_res f xs s) (fold_res f ys)"
  by (induction xs arbitrary: s) (simp_all add: rbind_assoc rbind_def split: sum.splits)

lemma fold_res_inv:
  assumes "fold_res f xs s = Inr s'" and "P s"
    and "\<And>x s s'. x \<in> set xs \<Longrightarrow> P s \<Longrightarrow> f x s = Inr s' \<Longrightarrow> P s'"
  shows "P s'"
  using assms
proof (induction xs arbitrary: s)
  case Nil
  then show ?case by simp
next
  case (Cons x xs)
  from Cons.prems(1) obtain t where t: "f x s = Inr t" "fold_res f xs t = Inr s'"
    by (auto simp: rbind_eq_Inr)
  have "P t" using Cons.prems(2) Cons.prems(3)[of x s t] t(1) by simp
  then show ?case by (rule Cons.IH[OF t(2)]) (rule Cons.prems(3), auto)
qed

section \<open>Big-endian conversions of the standard library\<close>

text \<open>
  \<open>to_be n x\<close> is the \<open>n\<close>-byte big-endian form of \<open>x\<close> (\<open>to_be_bytes\<close>),
  \<open>of_be\<close> reads such a form back (\<open>from_be_bytes\<close>).
\<close>

primrec to_be :: "nat \<Rightarrow> nat \<Rightarrow> u8 list" where
  "to_be 0 x = []"
| "to_be (Suc n) x = to_be n (x div 256) @ [of_nat (x mod 256)]"

fun of_be :: "nat \<Rightarrow> u8 list \<Rightarrow> nat" where
  "of_be acc [] = acc"
| "of_be acc (b # bs) = of_be (acc * 256 + unat b) bs"

lemma length_to_be [simp]: "length (to_be n x) = n"
  by (induction n arbitrary: x) auto

lemma of_be_append: "of_be acc (xs @ ys) = of_be (of_be acc xs) ys"
  by (induction xs arbitrary: acc) auto

lemma unat_of_byte: "unat (of_nat (x mod 256) :: u8) = x mod 256"
  by (simp add: unat_of_nat)

lemma of_be_to_be: "of_be 0 (to_be n x) = x mod 256 ^ n"
proof (induction n arbitrary: x)
  case 0
  then show ?case by simp
next
  case (Suc n)
  have "of_be 0 (to_be (Suc n) x) = (x div 256) mod 256 ^ n * 256 + x mod 256"
    by (simp add: of_be_append Suc.IH unat_of_byte)
  also have "\<dots> = x mod (256 * 256 ^ n)"
    by (simp add: mod_mult2_eq)
  finally show ?case by simp
qed

section \<open>Decimal numbers\<close>

text \<open>
  \<open>to_string\<close> of an unsigned integer, and \<open>from_str\<close>, which accepts one leading plus sign,
  refuses the empty string and anything but digits; a number too large for its type is
  refused by the caller of \<open>parse_nat\<close>.
\<close>

definition digit_char :: "nat \<Rightarrow> char" where
  "digit_char d = char_of (48 + d)"

fun show_nat :: "nat \<Rightarrow> string" where
  "show_nat n = (if n < 10 then [digit_char n] else show_nat (n div 10) @ [digit_char (n mod 10)])"

declare show_nat.simps [simp del]

definition char_digit :: "char \<Rightarrow> nat option" where
  "char_digit c = (let n = of_char c in if 48 \<le> n \<and> n \<le> 57 then Some (n - 48) else None)"

fun parse_digits :: "nat \<Rightarrow> string \<Rightarrow> nat option" where
  "parse_digits acc [] = Some acc"
| "parse_digits acc (c # cs) = (case char_digit c of
     None \<Rightarrow> None | Some d \<Rightarrow> parse_digits (acc * 10 + d) cs)"

definition parse_nat :: "string \<Rightarrow> nat option" where
  "parse_nat s = (case s of
     [] \<Rightarrow> None
   | c # cs \<Rightarrow> if c = CHR ''+'' then (if cs = [] then None else parse_digits 0 cs)
       else parse_digits 0 s)"

lemma char_digit_char [simp]: "d < 10 \<Longrightarrow> char_digit (digit_char d) = Some d"
  by (simp add: char_digit_def digit_char_def Let_def of_char_of)

lemma parse_digits_append:
  "parse_digits acc (xs @ ys) = (case parse_digits acc xs of None \<Rightarrow> None | Some a \<Rightarrow> parse_digits a ys)"
  by (induction xs arbitrary: acc) (auto split: option.splits)

lemma parse_digits_show: "parse_digits 0 (show_nat n) = Some n"
proof (induction n rule: show_nat.induct)
  case (1 n)
  show ?case
  proof (cases "n < 10")
    case True
    then show ?thesis by (simp add: show_nat.simps)
  next
    case False
    then show ?thesis using 1 by (simp add: show_nat.simps[of n] parse_digits_append)
  qed
qed

lemma show_nat_digits: "c \<in> set (show_nat n) \<Longrightarrow> \<exists>d<10. c = digit_char d"
proof (induction n rule: show_nat.induct)
  case (1 n)
  show ?case
  proof (cases "n < 10")
    case True
    then show ?thesis using 1(2) by (auto simp: show_nat.simps[of n])
  next
    case False
    then have "c \<in> set (show_nat (n div 10)) \<or> c = digit_char (n mod 10)"
      using 1(2) by (auto simp: show_nat.simps[of n])
    moreover have "n mod 10 < 10" by simp
    ultimately show ?thesis using 1(1)[OF False] by blast
  qed
qed

lemma show_nat_nonempty [simp]: "show_nat n \<noteq> []"
  by (subst show_nat.simps) simp

lemma parse_show_nat [simp]: "parse_nat (show_nat n) = Some n"
proof (cases "show_nat n")
  case Nil
  then show ?thesis by simp
next
  case (Cons c cs)
  have "c \<noteq> CHR ''+''"
  proof
    assume c: "c = CHR ''+''"
    obtain d where "d < 10" "c = digit_char d" using show_nat_digits[of c n] Cons by auto
    then have "char_digit c = Some d" by simp
    then show False using c by (simp add: char_digit_def)
  qed
  then show ?thesis using Cons parse_digits_show[of n] by (simp add: parse_nat_def)
qed

lemma show_nat_inject [simp]: "show_nat m = show_nat n \<longleftrightarrow> m = n"
  by (metis option.inject parse_show_nat)

section \<open>Hash maps\<close>

text \<open>
  A \<open>HashMap\<close> is an association list with distinct keys: \<open>map_of\<close> looks up,
  \<open>AList.update\<close> inserts, \<open>AList.delete\<close> removes.  The order in which a \<open>HashMap\<close>
  iterates is unspecified, so an operation that iterates takes the order as an argument,
  a function that lists the same elements in some order.
\<close>

type_synonym ('k, 'v) hmap = "('k \<times> 'v) list"

definition hm_keys :: "('k, 'v) hmap \<Rightarrow> 'k list" where
  "hm_keys m = map fst m"

definition hm_ok :: "('k, 'v) hmap \<Rightarrow> bool" where
  "hm_ok m \<longleftrightarrow> distinct (map fst m)"

locale iteration_order =
  fixes it :: "'x list \<Rightarrow> 'x list"
  assumes mset_it: "mset (it xs) = mset xs"
begin

lemma set_it: "set (it xs) = set xs"
  by (metis mset_it set_mset_mset)

lemma length_it: "length (it xs) = length xs"
  by (metis mset_it size_mset)

lemma distinct_it: "distinct (it xs) = distinct xs"
  by (metis mset_it mset_eq_imp_distinct_iff)

lemma it_Nil: "it [] = []"
  using mset_it[of "[]"] by simp

end

text \<open>The order of insertion and its reverse are two of the orders a map can iterate in.\<close>

interpretation insertion_order: iteration_order "\<lambda>xs. xs"
  by unfold_locales simp

interpretation reverse_order: iteration_order rev
  by unfold_locales simp

lemma hm_ok_Nil [simp]: "hm_ok []"
  by (simp add: hm_ok_def)

lemma hm_ok_update [simp]: "hm_ok m \<Longrightarrow> hm_ok (AList.update k v m)"
  by (simp add: hm_ok_def distinct_update)

lemma hm_ok_delete [simp]: "hm_ok m \<Longrightarrow> hm_ok (AList.delete k m)"
  by (simp add: hm_ok_def distinct_delete)

lemma map_of_update_hm [simp]: "map_of (AList.update k v m) = (map_of m)(k \<mapsto> v)"
  by (rule update_conv')

lemma map_of_delete_hm [simp]: "map_of (AList.delete k m) = (map_of m)(k := None)"
  by (rule delete_conv')

lemma map_of_it: "iteration_order it \<Longrightarrow> hm_ok m \<Longrightarrow> map_of (it m) = map_of m"
proof -
  assume it: "iteration_order it" and m: "hm_ok m"
  have "mset (map fst (it m)) = mset (map fst m)" by (simp add: iteration_order.mset_it[OF it])
  then have "distinct (map fst (it m))" using m unfolding hm_ok_def
    using mset_eq_imp_distinct_iff by blast
  then show ?thesis using m iteration_order.set_it[OF it] map_of_inject_set unfolding hm_ok_def by blast
qed

text \<open>Selecting one key from the concatenation of what each entry of a map holds.\<close>

lemma filter_concat_keyed:
  assumes "distinct (map fst xs)" "\<And>k v c. (k, v) \<in> set xs \<Longrightarrow> c \<in> set (f v) \<Longrightarrow> key c = k"
  shows "filter (\<lambda>c. key c = o') (concat (map (\<lambda>(_, v). f v) xs)) =
    (case map_of xs o' of None \<Rightarrow> [] | Some v \<Rightarrow> f v)"
  using assms
proof (induction xs)
  case Nil
  then show ?case by simp
next
  case (Cons x xs)
  obtain k v where x: "x = (k, v)" by force
  have IH: "filter (\<lambda>c. key c = o') (concat (map (\<lambda>(_, v). f v) xs)) =
      (case map_of xs o' of None \<Rightarrow> [] | Some v \<Rightarrow> f v)"
    by (rule Cons.IH) (use Cons.prems in auto)
  have v: "\<forall>c\<in>set (f v). key c = k" using Cons.prems(2)[of k v] x by simp
  show ?case
  proof (cases "k = o'")
    case True
    then have "map_of xs o' = None" using Cons.prems(1) x by (simp add: map_of_eq_None_iff)
    then show ?thesis using True v x IH by (simp add: filter_id_conv)
  next
    case False
    then have "filter (\<lambda>c. key c = o') (f v) = []" using v by (simp add: filter_empty_conv)
    then show ?thesis using False x IH by simp
  qed
qed

section \<open>Lists\<close>

lemma find_SomeD: "List.find P xs = Some x \<Longrightarrow> x \<in> set xs \<and> P x"
  by (metis find_Some_iff nth_mem)

lemma find_None_all: "List.find P xs = None \<longleftrightarrow> (\<forall>x\<in>set xs. \<not> P x)"
  by (auto simp: find_None_iff)

text \<open>How many elements of a list satisfy a predicate, and how an update changes it.\<close>

definition countP :: "('a \<Rightarrow> bool) \<Rightarrow> 'a list \<Rightarrow> int" where
  "countP P xs = int (length (filter P xs))"

lemma countP_simps [simp]:
  "countP P [] = 0" "countP P (x # xs) = (if P x then 1 else 0) + countP P xs"
  by (simp_all add: countP_def)

lemma countP_bounds: "0 \<le> countP P xs" "countP P xs \<le> int (length xs)"
  by (simp_all add: countP_def)

lemma countP_update:
  "i < length xs \<Longrightarrow> countP P (xs[i := x]) =
     countP P xs + (if P x then 1 else 0) - (if P (xs ! i) then 1 else 0)"
proof (induction xs arbitrary: i)
  case Nil
  then show ?case by simp
next
  case (Cons y ys)
  then show ?case by (cases i) auto
qed

lemma countP_replicate: "countP P (replicate n x) = (if P x then int n else 0)"
  by (induction n) auto

lemma countP_disjoint:
  assumes "\<And>x. \<not> (P x \<and> Q x)"
  shows "countP P xs + countP Q xs \<le> int (length xs)"
proof (induction xs)
  case Nil
  then show ?case by simp
next
  case (Cons x xs)
  then show ?case using assms[of x] by auto
qed

text \<open>A list of distinct words below \<open>p\<close> has \<open>p\<close> entries just when all of them are in it.\<close>

lemma word_card_less: "card {n::'a::len word. n < p} = unat p"
proof -
  have "unat ` {n::'a word. n < p} = {..<unat p}"
  proof (intro equalityI subsetI)
    fix k
    assume "k \<in> {..<unat p}"
    then have k: "k < unat p" by simp
    then have "k < 2 ^ LENGTH('a)" by (rule less_trans) (rule unsigned_less)
    then have "unat (of_nat k :: 'a word) = k" by (simp add: unat_of_nat)
    then show "k \<in> unat ` {n::'a word. n < p}"
      using k by (intro image_eqI[of _ _ "of_nat k"]) (auto simp: word_less_nat_alt)
  qed (auto simp: word_less_nat_alt)
  moreover have "card (unat ` {n::'a word. n < p}) = card {n::'a word. n < p}"
    by (rule card_image) (auto intro: inj_onI word_unat_eq_iff[THEN iffD2])
  ultimately show ?thesis by simp
qed

lemma distinct_words_below:
  fixes p :: "'a::len word"
  assumes "distinct ks" "set ks \<subseteq> {n. n < p}"
  shows "length ks = unat p \<longleftrightarrow> set ks = {n. n < p}"
proof -
  have len: "length ks = card (set ks)" using assms(1) by (simp add: distinct_card)
  show ?thesis
  proof
    assume "length ks = unat p"
    then have "card (set ks) = card {n. n < p}" using len word_card_less[of p] by simp
    then show "set ks = {n. n < p}" by (intro card_subset_eq assms(2)) simp_all
  next
    assume "set ks = {n. n < p}"
    then show "length ks = unat p" using len word_card_less[of p] by simp
  qed
qed

lemma wrap_i64_add: "wrap_i64 (wrap_i64 x + y) = wrap_i64 (x + y)"
  by (simp add: wrap_i64_def)

lemma wrap_i64_add_right: "wrap_i64 (y + wrap_i64 x) = wrap_i64 (y + x)"
  by (simp add: wrap_i64_def)

lemma wrap_i64_diff: "wrap_i64 (wrap_i64 x - y) = wrap_i64 (x - y)"
  by (simp add: wrap_i64_def)

end
