(* ===== verification/Runtime_Ids.thy ===== *)
theory Runtime_Ids
  imports Rlink_Prelude
begin

text \<open>
  The identifiers of \<open>rlink/src/core/runtime.rs\<close>: operator, job and checkpoint numbers,
  \<open>TaskId\<close>, \<open>ChannelKey\<close>, and their binary form (trait \<open>Serde\<close>).  The \<open>bytes\<close> crate the
  encoders call is a parameter: a record of its \<open>put\<close> and \<open>get\<close> functions, whose
  documented behaviour (fixed widths, a read gives back what was written, a read past the
  end panics) is the locale \<open>bytes_codec\<close>.
\<close>

section \<open>Identifiers\<close>

datatype operator_id = OperatorId (op_num: u32)

datatype job_id = JobId (job_num: u32)

datatype checkpoint_id = CheckpointId (ck_num: u64)

text \<open>The derived \<open>Ord\<close> of the three newtypes compares the wrapped number.\<close>

instantiation operator_id :: linorder
begin

definition less_eq_operator_id :: "operator_id \<Rightarrow> operator_id \<Rightarrow> bool" where
  "less_eq_operator_id a b \<longleftrightarrow> op_num a \<le> op_num b"

definition less_operator_id :: "operator_id \<Rightarrow> operator_id \<Rightarrow> bool" where
  "less_operator_id a b \<longleftrightarrow> op_num a < op_num b"

instance
  by standard
    (auto simp: less_eq_operator_id_def less_operator_id_def operator_id.expand)

end

instantiation job_id :: linorder
begin

definition less_eq_job_id :: "job_id \<Rightarrow> job_id \<Rightarrow> bool" where
  "less_eq_job_id a b \<longleftrightarrow> job_num a \<le> job_num b"

definition less_job_id :: "job_id \<Rightarrow> job_id \<Rightarrow> bool" where
  "less_job_id a b \<longleftrightarrow> job_num a < job_num b"

instance
  by standard (auto simp: less_eq_job_id_def less_job_id_def job_id.expand)

end

instantiation checkpoint_id :: linorder
begin

definition less_eq_checkpoint_id :: "checkpoint_id \<Rightarrow> checkpoint_id \<Rightarrow> bool" where
  "less_eq_checkpoint_id a b \<longleftrightarrow> ck_num a \<le> ck_num b"

definition less_checkpoint_id :: "checkpoint_id \<Rightarrow> checkpoint_id \<Rightarrow> bool" where
  "less_checkpoint_id a b \<longleftrightarrow> ck_num a < ck_num b"

instance
  by standard
    (auto simp: less_eq_checkpoint_id_def less_checkpoint_id_def checkpoint_id.expand)

end

lemmas id_order_defs =
  less_eq_operator_id_def less_operator_id_def less_eq_job_id_def less_job_id_def
  less_eq_checkpoint_id_def less_checkpoint_id_def

definition job_id_from :: "operator_id \<Rightarrow> job_id" where
  "job_id_from operator_id = JobId (op_num operator_id)"

definition checkpoint_id_default :: checkpoint_id where
  "checkpoint_id_default = CheckpointId 0"

definition ck_is_default :: "checkpoint_id \<Rightarrow> bool" where
  "ck_is_default c \<longleftrightarrow> ck_num c = 0"

lemma ck_is_default_iff [simp]: "ck_is_default c \<longleftrightarrow> c = checkpoint_id_default"
  by (cases c) (simp add: ck_is_default_def checkpoint_id_default_def)

lemma checkpoint_id_default_least [simp]: "checkpoint_id_default \<le> c"
  by (simp add: less_eq_checkpoint_id_def checkpoint_id_default_def)

record task_id =
  t_job_id :: job_id
  t_task_number :: u16
  t_num_tasks :: u16

definition task_id_default :: task_id where
  "task_id_default = \<lparr>t_job_id = JobId 0, t_task_number = 0, t_num_tasks = 0\<rparr>"

definition task_is_default :: "task_id \<Rightarrow> bool" where
  "task_is_default t \<longleftrightarrow>
     job_num (t_job_id t) = 0 \<and> t_task_number t = 0 \<and> t_num_tasks t = 0"

record channel_key =
  source_task_id :: task_id
  target_task_id :: task_id

definition channel_key_default :: channel_key where
  "channel_key_default =
     \<lparr>source_task_id = task_id_default, target_task_id = task_id_default\<rparr>"

lemma task_is_default_iff: "task_is_default t \<longleftrightarrow> t = task_id_default"
  by (cases t) (auto simp: task_is_default_def task_id_default_def job_id.expand)

text \<open>How two jobs are connected (\<open>JobEdge\<close> of the job graph).\<close>

datatype job_edge = Forward | ReBalance

datatype function_creator = System | User

section \<open>The byte buffer functions\<close>

text \<open>
  \<open>bytes_put_uN x\<close> are the bytes \<open>BufMut::put_uN\<close> appends; \<open>bytes_get_uN\<close> is
  \<open>Buf::get_uN\<close>: the value and the bytes that remain, \<open>None\<close> where it panics because
  fewer than the needed bytes remain.
\<close>

record bytes_ops =
  put_u8 :: "u8 \<Rightarrow> u8 list"
  put_u16 :: "u16 \<Rightarrow> u8 list"
  put_u32 :: "u32 \<Rightarrow> u8 list"
  put_u64 :: "u64 \<Rightarrow> u8 list"
  get_u8 :: "u8 list \<Rightarrow> (u8 \<times> u8 list) option"
  get_u16 :: "u8 list \<Rightarrow> (u16 \<times> u8 list) option"
  get_u32 :: "u8 list \<Rightarrow> (u32 \<times> u8 list) option"
  get_u64 :: "u8 list \<Rightarrow> (u64 \<times> u8 list) option"

definition buf_read :: "('v \<times> u8 list) option \<Rightarrow> ('v \<times> u8 list) res" where
  "buf_read x = (case x of None \<Rightarrow> Inl Buffer_underflow | Some y \<Rightarrow> Inr y)"

lemma buf_read_simps [simp, res_simps]:
  "buf_read None = Inl Buffer_underflow" "buf_read (Some y) = Inr y"
  by (simp_all add: buf_read_def)

section \<open>Binary form of the identifiers\<close>

definition task_id_capacity :: nat where
  "task_id_capacity = 4 + 2 + 2"

definition serialize_task_id :: "bytes_ops \<Rightarrow> task_id \<Rightarrow> u8 list" where
  "serialize_task_id B t =
     put_u32 B (job_num (t_job_id t)) @ put_u16 B (t_task_number t) @ put_u16 B (t_num_tasks t)"

definition deserialize_task_id :: "bytes_ops \<Rightarrow> u8 list \<Rightarrow> (task_id \<times> u8 list) res" where
  "deserialize_task_id B bytes =
     rbind (buf_read (get_u32 B bytes)) (\<lambda>(job_id, bytes).
     rbind (buf_read (get_u16 B bytes)) (\<lambda>(task_number, bytes).
     rbind (buf_read (get_u16 B bytes)) (\<lambda>(num_tasks, bytes).
       Inr (\<lparr>t_job_id = JobId job_id, t_task_number = task_number, t_num_tasks = num_tasks\<rparr>,
            bytes))))"

definition channel_key_capacity :: nat where
  "channel_key_capacity = 8 + 8"

definition serialize_channel_key :: "bytes_ops \<Rightarrow> channel_key \<Rightarrow> u8 list" where
  "serialize_channel_key B k =
     serialize_task_id B (source_task_id k) @ serialize_task_id B (target_task_id k)"

definition deserialize_channel_key ::
    "bytes_ops \<Rightarrow> u8 list \<Rightarrow> (channel_key \<times> u8 list) res" where
  "deserialize_channel_key B bytes =
     rbind (deserialize_task_id B bytes) (\<lambda>(source, bytes).
     rbind (deserialize_task_id B bytes) (\<lambda>(target, bytes).
       Inr (\<lparr>source_task_id = source, target_task_id = target\<rparr>, bytes)))"

section \<open>The contract of the byte buffers\<close>

locale bytes_codec =
  fixes B :: bytes_ops
  assumes len_u8: "length (put_u8 B a) = 1"
    and len_u16: "length (put_u16 B b) = 2"
    and len_u32: "length (put_u32 B c) = 4"
    and len_u64: "length (put_u64 B d) = 8"
    and get_put_u8: "get_u8 B (put_u8 B a @ rest) = Some (a, rest)"
    and get_put_u16: "get_u16 B (put_u16 B b @ rest) = Some (b, rest)"
    and get_put_u32: "get_u32 B (put_u32 B c @ rest) = Some (c, rest)"
    and get_put_u64: "get_u64 B (put_u64 B d @ rest) = Some (d, rest)"
    and put_u8_byte: "put_u8 B a = [a]"
    and short_u8: "get_u8 B [] = None"
    and short_u16: "length bs < 2 \<Longrightarrow> get_u16 B bs = None"
    and short_u32: "length bs < 4 \<Longrightarrow> get_u32 B bs = None"
    and short_u64: "length bs < 8 \<Longrightarrow> get_u64 B bs = None"
begin

lemmas codec_lens = len_u8 len_u16 len_u32 len_u64
lemmas codec_reads = get_put_u8 get_put_u16 get_put_u32 get_put_u64

lemma put_get_nil:
  "get_u8 B (put_u8 B a) = Some (a, [])" "get_u16 B (put_u16 B b) = Some (b, [])"
  "get_u32 B (put_u32 B c) = Some (c, [])" "get_u64 B (put_u64 B d) = Some (d, [])"
  using codec_reads[where rest = "[]"] by simp_all

lemma length_serialize_task_id: "length (serialize_task_id B t) = task_id_capacity"
  by (simp add: serialize_task_id_def task_id_capacity_def codec_lens)

lemma task_id_roundtrip:
  "deserialize_task_id B (serialize_task_id B t @ rest) = Inr (t, rest)"
  by (simp add: serialize_task_id_def deserialize_task_id_def codec_reads)

lemma length_serialize_channel_key: "length (serialize_channel_key B k) = channel_key_capacity"
  by (simp add: serialize_channel_key_def channel_key_capacity_def length_serialize_task_id
      task_id_capacity_def)

lemma channel_key_roundtrip:
  "deserialize_channel_key B (serialize_channel_key B k @ rest) = Inr (k, rest)"
  by (simp add: serialize_channel_key_def deserialize_channel_key_def task_id_roundtrip)

end

text \<open>
  The documented byte order of the crate is big-endian: the functions of the standard
  library with that order satisfy the contract.
\<close>

definition be_get :: "nat \<Rightarrow> u8 list \<Rightarrow> ('w::len word \<times> u8 list) option" where
  "be_get n bs = (if length bs < n then None
     else Some (of_nat (of_be 0 (take n bs)), drop n bs))"

definition be_ops :: bytes_ops where
  "be_ops = \<lparr>put_u8 = (\<lambda>x. [x]), put_u16 = (\<lambda>x. to_be 2 (unat x)),
     put_u32 = (\<lambda>x. to_be 4 (unat x)), put_u64 = (\<lambda>x. to_be 8 (unat x)),
     get_u8 = (\<lambda>bs. case bs of [] \<Rightarrow> None | b # bs \<Rightarrow> Some (b, bs)),
     get_u16 = be_get 2, get_u32 = be_get 4, get_u64 = be_get 8\<rparr>"

lemma be_get_put:
  "LENGTH('w::len) = 8 * n \<Longrightarrow>
   be_get n (to_be n (unat (x :: 'w word)) @ rest) = Some (x, rest)"
proof -
  assume n: "LENGTH('w) = 8 * n"
  have "unat x < 2 ^ LENGTH('w)"
    by (rule unsigned_less)
  then have "unat x < 256 ^ n"
    by (simp add: n power_mult)
  then show ?thesis
    by (simp add: be_get_def of_be_to_be)
qed

interpretation be: bytes_codec be_ops
  by unfold_locales (simp_all add: be_ops_def be_get_put, simp_all add: be_get_def)

end
