(* ===== verification/Windows.thy ===== *)
theory Windows
  imports Rlink_Prelude
begin

text \<open>
  Time windows (\<open>rlink/src/core/window.rs\<close>) and the sliding event-time window assigner
  (\<open>rlink/src/functions/window/mod.rs\<close>).  Timestamps stay 64-bit words; the signed
  arithmetic of the assigner is done on \<open>int\<close> through \<open>wrap_i64\<close>.  The loop of
  \<open>assign_windows\<close> is a \<open>partial_function\<close>: \<open>None\<close> is a loop that does not end.  The
  lemmas characterise the assigned windows exactly and show that the loop ends for every
  assigner the constructor accepts, within 60-bit times.
\<close>

section \<open>Windows\<close>

record time_window =
  tw_start :: u64
  tw_end :: u64

definition intersects :: "time_window \<Rightarrow> time_window \<Rightarrow> bool" where
  "intersects w other \<longleftrightarrow> tw_start w \<le> tw_end other \<and> tw_end w \<ge> tw_start other"

definition cover :: "time_window \<Rightarrow> time_window \<Rightarrow> time_window" where
  "cover w other =
     \<lparr>tw_start = min (tw_start w) (tw_start other), tw_end = max (tw_end w) (tw_end other)\<rparr>"

definition get_window_start_with_offset :: "u64 \<Rightarrow> int \<Rightarrow> u64 \<Rightarrow> int res" where
  "get_window_start_with_offset timestamp offset window_size =
     (let timestamp = as_i64 timestamp; window_size = as_i64 window_size
      in if window_size = 0 then Inl Division_by_zero
         else Inr (wrap_i64 (timestamp
                - rem_i64 (wrap_i64 (wrap_i64 (timestamp - offset) + window_size)) window_size)))"

datatype window = TimeWindow time_window

fun max_timestamp :: "window \<Rightarrow> u64" where
  "max_timestamp (TimeWindow w) = tw_end w"

fun min_timestamp :: "window \<Rightarrow> u64" where
  "min_timestamp (TimeWindow w) = tw_start w"

definition window_default :: window where
  "window_default = TimeWindow \<lparr>tw_start = 0, tw_end = 0\<rparr>"

section \<open>The sliding window assigner\<close>

text \<open>A \<open>Duration\<close> is its number of milliseconds; \<open>as_millis() as i64\<close> truncates it.\<close>

definition offset_forward :: "nat \<Rightarrow> int" where
  "offset_forward millis = wrap_i64 (int millis)"

definition offset_back :: "nat \<Rightarrow> int" where
  "offset_back millis = wrap_i64 (wrap_i64 (int millis) * -1)"

record sliding_windows =
  sw_size :: u64
  sw_slide :: u64
  sw_offset :: int

definition sliding_new :: "nat \<Rightarrow> nat \<Rightarrow> int option \<Rightarrow> sliding_windows res" where
  "sliding_new size_ms slide_ms offset =
     (let sz = (of_nat size_ms :: u64); slide = (of_nat slide_ms :: u64);
          offset = (case offset of None \<Rightarrow> 0 | Some x \<Rightarrow> x)
      in if as_u64 (wrap_i64 \<bar>offset\<bar>) \<ge> slide \<or> sz \<le> 0 then Inl Explicit_panic
         else Inr \<lparr>sw_size = sz, sw_slide = slide, sw_offset = offset\<rparr>)"

partial_function (option) assign_loop ::
    "int \<Rightarrow> int \<Rightarrow> u64 \<Rightarrow> int \<Rightarrow> window list \<Rightarrow> window list option" where
  "assign_loop limit slide win_size start windows =
     (if start > limit
      then assign_loop limit slide win_size (wrap_i64 (start - slide))
             (if start \<ge> 0
              then windows @ [TimeWindow \<lparr>tw_start = as_u64 start, tw_end = as_u64 start + win_size\<rparr>]
              else windows)
      else Some windows)"

declare assign_loop.simps [code]

definition assign_windows :: "sliding_windows \<Rightarrow> u64 \<Rightarrow> window list res option" where
  "assign_windows w timestamp =
     (case get_window_start_with_offset timestamp (sw_offset w) (sw_slide w) of
        Inl e \<Rightarrow> Some (Inl e)
      | Inr last_start \<Rightarrow>
          map_option (\<lambda>windows. Inr (sort_key min_timestamp windows))
            (assign_loop (wrap_i64 (as_i64 timestamp - as_i64 (sw_size w))) (as_i64 (sw_slide w))
               (sw_size w) (if last_start < 0 then 0 else last_start) []))"

section \<open>What the constructor guarantees\<close>

lemma sliding_new_slide_pos:
  "sliding_new sz slide offset = Inr w \<Longrightarrow> 0 < sw_slide w \<and> 0 < sw_size w"
  by (auto simp: sliding_new_def Let_def not_le word_neq_0_conv split: if_splits
      intro: le_less_trans[of 0])

text \<open>
  The configurations the lemmas below are about: built by the constructor, with size,
  slide and times below \<open>2 ^ 60\<close> milliseconds (36 million years).
\<close>

definition sliding_ok :: "sliding_windows \<Rightarrow> bool" where
  "sliding_ok w \<longleftrightarrow> 0 < uint (sw_slide w) \<and> 0 < uint (sw_size w)
     \<and> uint (sw_slide w) < 2 ^ 60 \<and> uint (sw_size w) < 2 ^ 60
     \<and> \<bar>sw_offset w\<bar> < uint (sw_slide w)"

lemma sliding_new_ok:
  assumes "sliding_new sz slide offset = Inr w"
    and "sz < 2 ^ 60" "slide < 2 ^ 60" "\<bar>case offset of None \<Rightarrow> 0 | Some x \<Rightarrow> x\<bar> < 2 ^ 60"
  shows "sliding_ok w"
proof -
  let ?o = "case offset of None \<Rightarrow> 0 | Some x \<Rightarrow> x"
  have w: "w = \<lparr>sw_size = of_nat sz, sw_slide = of_nat slide, sw_offset = ?o\<rparr>"
    and lt: "as_u64 (wrap_i64 \<bar>?o\<bar>) < (of_nat slide :: u64)" and pos: "(0::u64) < of_nat sz"
    using assms(1)
    by (auto simp: sliding_new_def Let_def not_le word_neq_0_conv split: if_splits)
  have sl: "uint (of_nat slide :: u64) = int slide" and sz: "uint (of_nat sz :: u64) = int sz"
    using assms(2,3) by (simp_all add: unsigned_of_nat take_bit_nat_eq_self)
  have o_small: "wrap_i64 \<bar>?o\<bar> = \<bar>?o\<bar>"
    using assms(4) by (intro wrap_i64_id) auto
  have "uint (as_u64 \<bar>?o\<bar>) = \<bar>?o\<bar>"
    using assms(4) by (intro uint_as_u64) auto
  then have "\<bar>?o\<bar> < int slide"
    using lt o_small sl by (simp add: word_less_def)
  moreover have "0 < sz"
    using pos sz by (simp add: word_less_def)
  ultimately show ?thesis
    using assms(2,3) sl sz by (simp add: sliding_ok_def w)
qed

section \<open>The reference enumeration\<close>

text \<open>The starts the loop visits, as a terminating recursion on unbounded integers.\<close>

function starts_down :: "int \<Rightarrow> int \<Rightarrow> int \<Rightarrow> int list" where
  "starts_down limit slide start =
     (if limit < start \<and> 0 < slide
      then (if 0 \<le> start then [start] else []) @ starts_down limit slide (start - slide)
      else [])"
  by pat_completeness auto
termination
  by (relation "measure (\<lambda>(limit, slide, start). nat (start - limit))") auto

declare starts_down.simps [simp del]

definition win_at :: "u64 \<Rightarrow> int \<Rightarrow> window" where
  "win_at sz start = TimeWindow \<lparr>tw_start = as_u64 start, tw_end = as_u64 start + sz\<rparr>"

lemma starts_down_iff:
  "0 < slide \<Longrightarrow> s \<in> set (starts_down limit slide start) \<longleftrightarrow>
     (\<exists>k::nat. s = start - int k * slide) \<and> limit < s \<and> 0 \<le> s"
proof (induction limit slide start rule: starts_down.induct)
  case (1 limit slide start)
  show ?case
  proof (cases "limit < start")
    case False
    then have "s = start - int k * slide \<Longrightarrow> \<not> limit < s" for k
      using 1(2) by (smt (verit) mult_nonneg_nonneg of_nat_0_le_iff)
    with False show ?thesis
      by (subst starts_down.simps) auto
  next
    case True
    have shift: "(\<exists>k::nat. s = start - int k * slide) \<longleftrightarrow>
        s = start \<or> (\<exists>k::nat. s = start - slide - int k * slide)" (is "?L = ?R")
    proof
      assume ?L
      then obtain k where k: "s = start - int k * slide" by blast
      then show ?R
        by (cases k) (auto simp: algebra_simps)
    next
      assume ?R
      then show ?L
      proof
        assume "s = start" then show ?L by (intro exI[of _ 0]) simp
      next
        assume "\<exists>k::nat. s = start - slide - int k * slide"
        then obtain k :: nat where "s = start - slide - int k * slide" by blast
        then show ?L by (intro exI[of _ "Suc k"]) (simp add: algebra_simps)
      qed
    qed
    show ?thesis
      using 1(1)[OF conjI[OF True 1(2)] 1(2)] True 1(2)
      by (subst starts_down.simps) (auto simp: shift)
  qed
qed

lemma starts_down_sorted:
  "sorted_wrt (>) (starts_down limit slide start) \<and> (\<forall>s \<in> set (starts_down limit slide start). s \<le> start)"
proof (induction limit slide start rule: starts_down.induct)
  case (1 limit slide start)
  show ?case
  proof (cases "limit < start \<and> 0 < slide")
    case False
    then show ?thesis by (auto simp: starts_down.simps[of limit slide start])
  next
    case True
    with 1 have "sorted_wrt (>) (starts_down limit slide (start - slide))"
      "\<forall>s\<in>set (starts_down limit slide (start - slide)). s \<le> start - slide"
      by auto
    with True show ?thesis
      by (force simp: starts_down.simps[of limit slide start] sorted_wrt_append)
  qed
qed

text \<open>The loop of the code returns, and visits exactly these starts.\<close>

lemma assign_loop_starts:
  assumes "0 < slide" "slide < 2 ^ 60" "- (2 ^ 60) \<le> limit" "start < 2 ^ 60"
  shows "assign_loop limit slide sz start windows
       = Some (windows @ map (win_at sz) (starts_down limit slide start))"
  using assms
proof (induction limit slide start arbitrary: windows rule: starts_down.induct)
  case (1 limit slide start)
  show ?case
  proof (cases "limit < start")
    case False
    then show ?thesis
      by (subst assign_loop.simps, subst starts_down.simps) simp
  next
    case True
    have w: "wrap_i64 (start - slide) = start - slide"
      using 1(2-5) True by (intro wrap_i64_id) auto
    have "start - slide < 2 ^ 60" using 1(2,5) by simp
    note IH = 1(1)[OF conjI[OF True 1(2)] 1(2,3,4) this]
    show ?thesis
      using True 1(2)
      by (subst assign_loop.simps, subst starts_down.simps) (simp add: w IH win_at_def)
  qed
qed

lemma sort_descending:
  assumes "sorted_wrt (\<lambda>a b. f b < f a) xs"
  shows "sort_key f xs = rev (xs :: 'a list)"
proof -
  have "sorted_wrt (<) (map f (rev xs))"
    using assms by (simp add: sorted_wrt_map rev_map sorted_wrt_rev)
  then have "sorted (map f (rev xs))" and "distinct (map f (rev xs))"
    by (simp_all only: strict_sorted_iff)
  then have "inj_on f (set xs)"
    by (simp add: distinct_map)
  then show ?thesis
    using \<open>sorted (map f (rev xs))\<close> by (intro sort_key_inj_key_eq) auto
qed

section \<open>Exactness of the assigner\<close>

text \<open>The last start: aligned to the offset, or \<open>0\<close> where that would be negative.\<close>

definition last_start :: "sliding_windows \<Rightarrow> u64 \<Rightarrow> int" where
  "last_start w ts =
     max 0 (uint ts - (uint ts - sw_offset w) mod uint (sw_slide w))"

lemma get_window_start_eq:
  assumes "sliding_ok w" "uint ts < 2 ^ 60"
  shows "get_window_start_with_offset ts (sw_offset w) (sw_slide w)
       = Inr (uint ts - (uint ts - sw_offset w) mod uint (sw_slide w))"
proof -
  let ?d = "uint (sw_slide w)" and ?t = "uint ts" and ?o = "sw_offset w"
  have d: "0 < ?d" "?d < 1152921504606846976" and o: "\<bar>?o\<bar> < ?d"
    and t: "?t < 1152921504606846976" "0 \<le> ?t"
    using assms by (auto simp: sliding_ok_def)
  have i: "as_i64 ts = ?t" "as_i64 (sw_slide w) = ?d"
    using assms by (auto simp: sliding_ok_def intro!: as_i64_small)
  have w1: "wrap_i64 (?t - ?o) = ?t - ?o" and w2: "wrap_i64 (?t - ?o + ?d) = ?t - ?o + ?d"
    using d o t by (intro wrap_i64_small, linarith, linarith)+
  have r: "rem_i64 (?t - ?o + ?d) ?d = (?t - ?o) mod ?d"
    using d o t by (subst rem_i64_pos) (linarith, simp_all)
  have m: "0 \<le> (?t - ?o) mod ?d" "(?t - ?o) mod ?d < ?d"
    using d by auto
  have w3: "wrap_i64 (?t - (?t - ?o) mod ?d) = ?t - (?t - ?o) mod ?d"
    using d t m by (intro wrap_i64_small) linarith+
  show ?thesis
    using d by (simp add: get_window_start_with_offset_def Let_def i w1 w2 r w3)
qed

lemma last_start_bounds:
  assumes "sliding_ok w"
  shows "0 \<le> last_start w ts" "last_start w ts \<le> uint ts"
    "uint ts < last_start w ts + uint (sw_slide w)"
proof -
  let ?d = "uint (sw_slide w)"
  have "0 < ?d" using assms by (simp add: sliding_ok_def)
  then have "0 \<le> (uint ts - sw_offset w) mod ?d" "(uint ts - sw_offset w) mod ?d < ?d"
    by auto
  then show "0 \<le> last_start w ts" "last_start w ts \<le> uint ts"
    "uint ts < last_start w ts + ?d"
    by (auto simp: last_start_def)
qed

lemma starts_down_range:
  assumes "sliding_ok w" "uint ts < 2 ^ 60"
    and "x \<in> set (starts_down limit (uint (sw_slide w)) (last_start w ts))"
  shows "0 \<le> x \<and> x < 2 ^ 60"
proof -
  have d: "0 < uint (sw_slide w)" using assms(1) by (simp add: sliding_ok_def)
  have "0 \<le> x" using assms(3) starts_down_iff[OF d] by blast
  moreover have "x \<le> last_start w ts" using assms(3) starts_down_sorted by blast
  ultimately show ?thesis using last_start_bounds(2)[OF assms(1), of ts] assms(2) by linarith
qed

lemma starts_windows_desc:
  assumes "sliding_ok w" "uint ts < 2 ^ 60"
  shows "sorted_wrt (\<lambda>a b. min_timestamp (win_at sz b) < min_timestamp (win_at sz a))
           (starts_down limit (uint (sw_slide w)) (last_start w ts))"
proof (rule sorted_wrt_mono_rel[of _ "(>)"])
  show "sorted_wrt (>) (starts_down limit (uint (sw_slide w)) (last_start w ts))"
    using starts_down_sorted by blast
  fix a b
  assume a: "a \<in> set (starts_down limit (uint (sw_slide w)) (last_start w ts))"
    and b: "b \<in> set (starts_down limit (uint (sw_slide w)) (last_start w ts))" and "b < a"
  then show "min_timestamp (win_at sz b) < min_timestamp (win_at sz a)"
    using starts_down_range[OF assms a] starts_down_range[OF assms b]
    by (simp add: win_at_def word_less_def uint_as_u64)
qed

lemma assign_windows_eq:
  assumes "sliding_ok w" "uint ts < 2 ^ 60"
  shows "assign_windows w ts = Some (Inr (map (win_at (sw_size w))
     (rev (starts_down (uint ts - uint (sw_size w)) (uint (sw_slide w))
             (last_start w ts)))))"
proof -
  let ?d = "uint (sw_slide w)" and ?t = "uint ts" and ?s = "uint (sw_size w)"
  let ?L = "starts_down (?t - ?s) ?d (last_start w ts)"
  have d: "0 < ?d" "?d < 1152921504606846976" and s: "?s < 1152921504606846976" "0 < ?s"
    and t: "?t < 1152921504606846976" "0 \<le> ?t"
    using assms by (auto simp: sliding_ok_def)
  have i: "as_i64 ts = ?t" "as_i64 (sw_slide w) = ?d" "as_i64 (sw_size w) = ?s"
    using assms by (auto simp: sliding_ok_def intro!: as_i64_small)
  have lim: "wrap_i64 (?t - ?s) = ?t - ?s"
    using s t by (intro wrap_i64_small) linarith+
  have ls: "last_start w ts < 2 ^ 60"
    using last_start_bounds(2)[OF assms(1), of ts] t by simp
  have loop: "assign_loop (?t - ?s) ?d (sw_size w) (last_start w ts) []
      = Some (map (win_at (sw_size w)) ?L)"
    using assign_loop_starts[of ?d "?t - ?s" "last_start w ts" "sw_size w" "[]"] d s t ls by simp
  from starts_windows_desc[OF assms, of "sw_size w" "?t - ?s"]
  have "sort_key min_timestamp (map (win_at (sw_size w)) ?L) = map (win_at (sw_size w)) (rev ?L)"
    by (subst sort_descending) (simp_all add: sorted_wrt_map rev_map)
  moreover have "(if ?t - (?t - sw_offset w) mod ?d < 0 then 0 else ?t - (?t - sw_offset w) mod ?d)
      = last_start w ts"
    by (simp add: last_start_def)
  ultimately show ?thesis
    using loop by (simp add: assign_windows_def get_window_start_eq[OF assms] i lim)
qed

text \<open>Membership, in terms of the window's own bounds.\<close>

lemma assign_windows_mem:
  assumes "sliding_ok w" "uint ts < 2 ^ 60" "assign_windows w ts = Some (Inr ws)"
  shows "v \<in> set ws \<longleftrightarrow> (\<exists>s. v = win_at (sw_size w) s
     \<and> (\<exists>k::nat. s = last_start w ts - int k * uint (sw_slide w))
     \<and> 0 \<le> s \<and> uint ts < s + uint (sw_size w))"
proof -
  have "0 < uint (sw_slide w)" using assms(1) by (simp add: sliding_ok_def)
  then show ?thesis
    using assign_windows_eq[OF assms(1,2)] assms(3)
    by (auto simp: starts_down_iff)
qed

lemma win_at_bounds:
  assumes "0 \<le> s" "s < 2 ^ 60" "uint sz < 2 ^ 60"
  shows "uint (min_timestamp (win_at sz s)) = s"
    "uint (max_timestamp (win_at sz s)) = s + uint sz"
proof -
  have s: "uint (as_u64 s) = s"
    using assms by (intro uint_as_u64) auto
  then show "uint (min_timestamp (win_at sz s)) = s"
    by (simp add: win_at_def)
  have "s + uint sz < 2 ^ 64" using assms by simp
  then show "uint (max_timestamp (win_at sz s)) = s + uint sz"
    using assms(1) by (simp add: win_at_def uint_word_ariths s)
qed

section \<open>Properties\<close>

lemma aligned_starts:
  assumes "0 < d" "0 \<le> l" "l \<le> t" "t < l + d" "(l - off) mod d = 0"
  shows "(\<exists>k::nat. s = l - int k * d) \<longleftrightarrow> s \<le> t \<and> (s - off) mod d = 0" (is "?L = ?R")
proof
  assume ?L
  then obtain k :: nat where k: "s = l - int k * d" by blast
  have "(s - off) mod d = ((l - off) + (- int k) * d) mod d"
    by (simp add: k algebra_simps)
  also have "\<dots> = 0" using assms(5) by (simp only: mod_mult_self1)
  moreover have "0 \<le> int k * d" using assms(1) by simp
  ultimately show ?R using k assms(3) by auto
next
  assume R: ?R
  then obtain a where a: "s - off = d * a" by auto
  obtain b where b: "l - off = d * b" using assms(5) by auto
  have "d * a < d * (b + 1)" using a b R assms(4) by (simp add: algebra_simps)
  then have "a \<le> b" using assms(1) by (simp add: mult_less_cancel_left)
  then have "s = l - int (nat (b - a)) * d" using a b by (simp add: algebra_simps)
  then show ?L by blast
qed

lemma last_start_aligned:
  assumes "sliding_ok w" "uint (sw_slide w) \<le> uint ts"
  shows "(last_start w ts - sw_offset w) mod uint (sw_slide w) = 0"
proof -
  let ?d = "uint (sw_slide w)" and ?x = "uint ts - sw_offset w"
  have "0 < ?d" using assms(1) by (simp add: sliding_ok_def)
  then have "?x mod ?d < ?d" by simp
  then have "last_start w ts - sw_offset w = ?x - ?x mod ?d"
    using assms(2) by (simp add: last_start_def)
  then show ?thesis by (simp add: minus_mod_eq_mult_div)
qed

lemma win_at_eq_iff:
  assumes "0 \<le> x" "x < 2 ^ 60"
  shows "TimeWindow \<lparr>tw_start = s, tw_end = e\<rparr> = win_at sz x \<longleftrightarrow> uint s = x \<and> e = s + sz"
  using assms uint_as_u64[of x] by (auto simp: win_at_def as_u64_def)



text \<open>
  Near the epoch, where the aligned window would start before time 0, the assigner
  replaces it by the unaligned window that starts at 0 and is as long as any other, and
  assigns nothing when even that one is over.
\<close>

lemma assign_windows_clamped:
  assumes "sliding_new size_ms slide_ms offset = Inr w"
    and "size_ms < 2 ^ 60" "slide_ms < 2 ^ 60"
    and "\<bar>case offset of None \<Rightarrow> 0 | Some x \<Rightarrow> x\<bar> < 2 ^ 60"
    and "uint ts < 2 ^ 60"
    and "uint ts < (uint ts - sw_offset w) mod uint (sw_slide w)"
  shows "assign_windows w ts = Some (Inr (if ts < sw_size w
           then [TimeWindow \<lparr>tw_start = 0, tw_end = sw_size w\<rparr>] else []))"
proof -
  have ok: "sliding_ok w" using sliding_new_ok[OF assms(1-4)] .
  have d: "0 < uint (sw_slide w)" using ok by (simp add: sliding_ok_def)
  have l: "last_start w ts = 0" using assms(6) by (simp add: last_start_def)
  have neg: "starts_down L (uint (sw_slide w)) x = []" if "x < 0" for L x
    using starts_down_iff[OF d, of _ L x] that d
    by (metis (no_types, opaque_lifting) diff_gt_0_iff_gt equals0I le_less_trans less_irrefl
        list.set_sel(1) mult_nonneg_nonneg less_imp_le of_nat_0_le_iff diff_ge_0_iff_ge
        order_trans)
  have "starts_down (uint ts - uint (sw_size w)) (uint (sw_slide w)) 0
      = (if ts < sw_size w then [0] else [])"
    using d by (subst starts_down.simps) (simp add: neg word_less_def)
  then show ?thesis
    using assign_windows_eq[OF ok assms(5)] l by (simp add: win_at_def as_u64_def)
qed

end
