(* ===== verification/Element.thy ===== *)
theory Element
  imports Runtime_Ids Windows
begin

text \<open>
  The elements that flow through a job (\<open>rlink/src/core/element.rs\<close>): records,
  watermarks, stream status events and barriers, and their binary form.  The payload of a
  record (the \<open>Buffer\<close> of the \<open>serbuffer\<close> crate) is the byte list its \<open>as_slice\<close> shows.
  The lemmas show that every element is written in exactly the number of bytes that
  \<open>capacity\<close> announces and that reading it back gives the part of it that travels.
\<close>

section \<open>The four kinds of element\<close>

record rlink_record =
  rec_partition_num :: u16
  rec_timestamp :: u64
  rec_channel_key :: channel_key
  rec_location_windows :: "window list option"
  rec_trigger_window :: "window option"
  rec_values :: "u8 list"

definition record_new :: rlink_record where
  "record_new = \<lparr>rec_partition_num = 0, rec_timestamp = 0, rec_channel_key = channel_key_default,
     rec_location_windows = None, rec_trigger_window = None, rec_values = []\<rparr>"

definition record_eq :: "rlink_record \<Rightarrow> rlink_record \<Rightarrow> bool" where
  "record_eq r other \<longleftrightarrow> rec_values r = rec_values other"

definition location_windows :: "rlink_record \<Rightarrow> window list" where
  "location_windows r = (case rec_location_windows r of None \<Rightarrow> [] | Some ws \<Rightarrow> ws)"

definition min_location_window :: "rlink_record \<Rightarrow> window option" where
  "min_location_window r = (case rec_location_windows r of
     Some windows \<Rightarrow> (case windows of [] \<Rightarrow> None | w # _ \<Rightarrow> Some w) | None \<Rightarrow> None)"

definition max_location_window :: "rlink_record \<Rightarrow> window option" where
  "max_location_window r = (case rec_location_windows r of
     Some windows \<Rightarrow> (if length windows > 0 then Some (last windows) else None) | None \<Rightarrow> None)"

record watermark =
  wm_partition_num :: u16
  wm_timestamp :: u64
  wm_channel_key :: channel_key
  wm_location_windows :: "window list option"
  wm_downstream :: bool
  wm_drop_windows :: "window list option"

definition watermark_new :: "u64 \<Rightarrow> watermark" where
  "watermark_new timestamp = \<lparr>wm_partition_num = 0, wm_timestamp = timestamp,
     wm_channel_key = channel_key_default, wm_location_windows = None, wm_downstream = False,
     wm_drop_windows = None\<rparr>"

definition wm_min_location_windows :: "watermark \<Rightarrow> window option" where
  "wm_min_location_windows w = (case wm_location_windows w of
     Some windows \<Rightarrow> (case windows of [] \<Rightarrow> None | x # _ \<Rightarrow> Some x) | None \<Rightarrow> None)"

text \<open>The constants of \<open>rlink/src/core/watermark.rs\<close>.\<close>

definition MAX_WATERMARK :: u64 where
  "MAX_WATERMARK = 253402185600000"

definition MIN_WATERMARK :: u64 where
  "MIN_WATERMARK = 0"

definition IDLE_WATERMARK :: u64 where
  "IDLE_WATERMARK = MAX_WATERMARK + 1"

definition wm_is_min :: "watermark \<Rightarrow> bool" where
  "wm_is_min w \<longleftrightarrow> wm_timestamp w = MIN_WATERMARK"

definition wm_is_max :: "watermark \<Rightarrow> bool" where
  "wm_is_max w \<longleftrightarrow> wm_timestamp w = MAX_WATERMARK"

record stream_status =
  ss_partition_num :: u16
  ss_timestamp :: u64
  ss_channel_key :: channel_key
  ss_end :: bool

definition stream_status_new :: "u64 \<Rightarrow> bool \<Rightarrow> stream_status" where
  "stream_status_new timestamp end_flag = \<lparr>ss_partition_num = 0, ss_timestamp = timestamp,
     ss_channel_key = channel_key_default, ss_end = end_flag\<rparr>"

record barrier =
  b_partition_num :: u16
  b_checkpoint_id :: checkpoint_id
  b_completed_checkpoint_id :: checkpoint_id

definition barrier_new :: "checkpoint_id \<Rightarrow> barrier" where
  "barrier_new checkpoint_id = \<lparr>b_partition_num = 0, b_checkpoint_id = checkpoint_id,
     b_completed_checkpoint_id = checkpoint_id_default\<rparr>"

definition set_completed_checkpoint_id :: "barrier \<Rightarrow> checkpoint_id \<Rightarrow> barrier" where
  "set_completed_checkpoint_id b c =
     (if ck_num c > ck_num (b_completed_checkpoint_id b)
      then b\<lparr>b_completed_checkpoint_id := c\<rparr> else b)"

definition barrier_completed :: "barrier \<Rightarrow> checkpoint_id option" where
  "barrier_completed b = (if ck_is_default (b_completed_checkpoint_id b) then None
     else Some (b_completed_checkpoint_id b))"

datatype element =
    ERecord rlink_record
  | EWatermark watermark
  | EStreamStatus stream_status
  | EBarrier barrier

definition new_watermark :: "u64 \<Rightarrow> element" where
  "new_watermark timestamp = EWatermark (watermark_new timestamp)"

definition max_watermark :: element where
  "max_watermark = new_watermark MAX_WATERMARK"

definition new_stream_status :: "u64 \<Rightarrow> bool \<Rightarrow> element" where
  "new_stream_status timestamp end_flag = EStreamStatus (stream_status_new timestamp end_flag)"

definition new_barrier :: "checkpoint_id \<Rightarrow> element" where
  "new_barrier checkpoint_id = EBarrier (barrier_new checkpoint_id)"

fun is_record :: "element \<Rightarrow> bool" where
  "is_record (ERecord _) = True"
| "is_record _ = False"

fun is_stream_status :: "element \<Rightarrow> bool" where
  "is_stream_status (EStreamStatus _) = True"
| "is_stream_status _ = False"

fun is_barrier :: "element \<Rightarrow> bool" where
  "is_barrier (EBarrier _) = True"
| "is_barrier _ = False"

fun into_record :: "element \<Rightarrow> rlink_record res" where
  "into_record (ERecord r) = Inr r"
| "into_record _ = Inl Explicit_panic"

fun set_channel_key :: "channel_key \<Rightarrow> element \<Rightarrow> element" where
  "set_channel_key k (ERecord r) = ERecord (r\<lparr>rec_channel_key := k\<rparr>)"
| "set_channel_key k (EWatermark w) = EWatermark (w\<lparr>wm_channel_key := k\<rparr>)"
| "set_channel_key k (EStreamStatus s) = EStreamStatus (s\<lparr>ss_channel_key := k\<rparr>)"
| "set_channel_key k (EBarrier b) = EBarrier b"

fun partition :: "element \<Rightarrow> u16" where
  "partition (ERecord r) = rec_partition_num r"
| "partition (EStreamStatus s) = ss_partition_num s"
| "partition (EWatermark w) = wm_partition_num w"
| "partition (EBarrier b) = b_partition_num b"

fun set_partition :: "u16 \<Rightarrow> element \<Rightarrow> element" where
  "set_partition p (ERecord r) = ERecord (r\<lparr>rec_partition_num := p\<rparr>)"
| "set_partition p (EStreamStatus s) = EStreamStatus (s\<lparr>ss_partition_num := p\<rparr>)"
| "set_partition p (EWatermark w) = EWatermark (w\<lparr>wm_partition_num := p\<rparr>)"
| "set_partition p (EBarrier b) = EBarrier (b\<lparr>b_partition_num := p\<rparr>)"

section \<open>Binary form\<close>

definition SER_DE_RECORD :: u8 where "SER_DE_RECORD = 1"
definition SER_DE_WATERMARK :: u8 where "SER_DE_WATERMARK = 2"
definition SER_DE_STREAM_STATUS :: u8 where "SER_DE_STREAM_STATUS = 3"
definition SER_DE_BARRIER :: u8 where "SER_DE_BARRIER = 4"

lemmas tag_defs =
  SER_DE_RECORD_def SER_DE_WATERMARK_def SER_DE_STREAM_STATUS_def SER_DE_BARRIER_def

definition record_capacity :: "rlink_record \<Rightarrow> nat" where
  "record_capacity r = 15 + length (rec_values r)"

definition serialize_record :: "bytes_ops \<Rightarrow> rlink_record \<Rightarrow> u8 list" where
  "serialize_record B r =
     put_u8 B SER_DE_RECORD @ put_u16 B (rec_partition_num r) @ put_u64 B (rec_timestamp r)
     @ put_u32 B (of_nat (length (rec_values r))) @ rec_values r"

definition deserialize_record :: "bytes_ops \<Rightarrow> u8 list \<Rightarrow> (rlink_record \<times> u8 list) res" where
  "deserialize_record B bytes =
     rbind (buf_read (get_u8 B bytes)) (\<lambda>(flag, bytes).
     rbind (assert_res (flag = SER_DE_RECORD)) (\<lambda>_.
     rbind (buf_read (get_u16 B bytes)) (\<lambda>(partition_num, bytes).
     rbind (buf_read (get_u64 B bytes)) (\<lambda>(timestamp, bytes).
     rbind (buf_read (get_u32 B bytes)) (\<lambda>(value_len, bytes).
     rbind (assert_res (length bytes = unat value_len)) (\<lambda>_.
       Inr (\<lparr>rec_partition_num = partition_num, rec_timestamp = timestamp,
             rec_channel_key = channel_key_default, rec_location_windows = None,
             rec_trigger_window = None, rec_values = take (unat value_len) bytes\<rparr>,
            drop (unat value_len) bytes)))))))"

definition watermark_capacity :: nat where
  "watermark_capacity = 11"

definition serialize_watermark :: "bytes_ops \<Rightarrow> watermark \<Rightarrow> u8 list" where
  "serialize_watermark B w =
     put_u8 B SER_DE_WATERMARK @ put_u16 B (wm_partition_num w) @ put_u64 B (wm_timestamp w)"

definition deserialize_watermark :: "bytes_ops \<Rightarrow> u8 list \<Rightarrow> (watermark \<times> u8 list) res" where
  "deserialize_watermark B bytes =
     rbind (buf_read (get_u8 B bytes)) (\<lambda>(flag, bytes).
     rbind (assert_res (flag = SER_DE_WATERMARK)) (\<lambda>_.
     rbind (buf_read (get_u16 B bytes)) (\<lambda>(partition_num, bytes).
     rbind (buf_read (get_u64 B bytes)) (\<lambda>(timestamp, bytes).
       Inr (\<lparr>wm_partition_num = partition_num, wm_timestamp = timestamp,
             wm_channel_key = channel_key_default, wm_location_windows = None,
             wm_downstream = False, wm_drop_windows = None\<rparr>, bytes)))))"

definition stream_status_capacity :: nat where
  "stream_status_capacity = 10"

definition serialize_stream_status :: "bytes_ops \<Rightarrow> stream_status \<Rightarrow> u8 list" where
  "serialize_stream_status B s =
     put_u8 B SER_DE_STREAM_STATUS @ put_u8 B (if ss_end s then 1 else 0)
     @ put_u64 B (ss_timestamp s)"

definition deserialize_stream_status ::
    "bytes_ops \<Rightarrow> u8 list \<Rightarrow> (stream_status \<times> u8 list) res" where
  "deserialize_stream_status B bytes =
     rbind (buf_read (get_u8 B bytes)) (\<lambda>(flag, bytes).
     rbind (assert_res (flag = SER_DE_STREAM_STATUS)) (\<lambda>_.
     rbind (buf_read (get_u8 B bytes)) (\<lambda>(end_flag, bytes).
     rbind (buf_read (get_u64 B bytes)) (\<lambda>(timestamp, bytes).
       Inr (\<lparr>ss_partition_num = 0, ss_timestamp = timestamp,
             ss_channel_key = channel_key_default, ss_end = (end_flag = 1)\<rparr>, bytes)))))"

definition barrier_capacity :: nat where
  "barrier_capacity = 19"

definition serialize_barrier :: "bytes_ops \<Rightarrow> barrier \<Rightarrow> u8 list" where
  "serialize_barrier B b =
     put_u8 B SER_DE_BARRIER @ put_u16 B (b_partition_num b)
     @ put_u64 B (ck_num (b_checkpoint_id b)) @ put_u64 B (ck_num (b_completed_checkpoint_id b))"

definition deserialize_barrier :: "bytes_ops \<Rightarrow> u8 list \<Rightarrow> (barrier \<times> u8 list) res" where
  "deserialize_barrier B bytes =
     rbind (buf_read (get_u8 B bytes)) (\<lambda>(flag, bytes).
     rbind (assert_res (flag = SER_DE_BARRIER)) (\<lambda>_.
     rbind (buf_read (get_u16 B bytes)) (\<lambda>(partition_num, bytes).
     rbind (buf_read (get_u64 B bytes)) (\<lambda>(checkpoint_id, bytes).
     rbind (buf_read (get_u64 B bytes)) (\<lambda>(completed_checkpoint_id, bytes).
       Inr (\<lparr>b_partition_num = partition_num, b_checkpoint_id = CheckpointId checkpoint_id,
             b_completed_checkpoint_id = CheckpointId completed_checkpoint_id\<rparr>, bytes))))))"

fun capacity :: "element \<Rightarrow> nat" where
  "capacity (ERecord r) = record_capacity r"
| "capacity (EWatermark w) = watermark_capacity"
| "capacity (EStreamStatus s) = stream_status_capacity"
| "capacity (EBarrier b) = barrier_capacity"

fun serialize :: "bytes_ops \<Rightarrow> element \<Rightarrow> u8 list" where
  "serialize B (ERecord r) = serialize_record B r"
| "serialize B (EWatermark w) = serialize_watermark B w"
| "serialize B (EStreamStatus s) = serialize_stream_status B s"
| "serialize B (EBarrier b) = serialize_barrier B b"

definition deserialize :: "bytes_ops \<Rightarrow> u8 list \<Rightarrow> (element \<times> u8 list) res" where
  "deserialize B bytes =
     rbind (index_res bytes 0) (\<lambda>tag.
       if tag = SER_DE_RECORD
       then rbind (deserialize_record B bytes) (\<lambda>(r, bytes). Inr (ERecord r, bytes))
       else if tag = SER_DE_WATERMARK
       then rbind (deserialize_watermark B bytes) (\<lambda>(w, bytes). Inr (EWatermark w, bytes))
       else if tag = SER_DE_STREAM_STATUS
       then rbind (deserialize_stream_status B bytes) (\<lambda>(s, bytes). Inr (EStreamStatus s, bytes))
       else if tag = SER_DE_BARRIER
       then rbind (deserialize_barrier B bytes) (\<lambda>(b, bytes). Inr (EBarrier b, bytes))
       else Inl Explicit_panic)"

section \<open>What travels\<close>

text \<open>
  The abstract content of an element on the wire: a record keeps partition, timestamp and
  payload, a watermark partition and timestamp, a stream status its time and end flag (its
  partition is not written), a barrier everything.
\<close>

fun wire :: "element \<Rightarrow> element" where
  "wire (ERecord r) = ERecord (record_new\<lparr>rec_partition_num := rec_partition_num r,
     rec_timestamp := rec_timestamp r, rec_values := rec_values r\<rparr>)"
| "wire (EWatermark w) = EWatermark ((watermark_new (wm_timestamp w))
     \<lparr>wm_partition_num := wm_partition_num w\<rparr>)"
| "wire (EStreamStatus s) = EStreamStatus (stream_status_new (ss_timestamp s) (ss_end s))"
| "wire (EBarrier b) = EBarrier b"

fun fits :: "element \<Rightarrow> bool" where
  "fits (ERecord r) \<longleftrightarrow> length (rec_values r) < 2 ^ 32"
| "fits _ \<longleftrightarrow> True"

context bytes_codec
begin

lemma length_serialize: "length (serialize B e) = capacity e"
  by (cases e)
    (simp_all add: serialize_record_def serialize_watermark_def serialize_stream_status_def
      serialize_barrier_def codec_lens record_capacity_def watermark_capacity_def
      stream_status_capacity_def barrier_capacity_def)

lemma capacity_pos: "0 < capacity e"
  by (cases e) (simp_all add: record_capacity_def watermark_capacity_def
      stream_status_capacity_def barrier_capacity_def)

lemma record_roundtrip:
  "length (rec_values r) < 2 ^ 32 \<Longrightarrow> deserialize_record B (serialize_record B r) =
     Inr (record_new\<lparr>rec_partition_num := rec_partition_num r,
       rec_timestamp := rec_timestamp r, rec_values := rec_values r\<rparr>, [])"
  by (simp add: serialize_record_def deserialize_record_def codec_reads record_new_def
      unat_of_nat)

lemma watermark_roundtrip:
  "deserialize_watermark B (serialize_watermark B w) =
     Inr ((watermark_new (wm_timestamp w))\<lparr>wm_partition_num := wm_partition_num w\<rparr>, [])"
  by (simp add: serialize_watermark_def deserialize_watermark_def codec_reads put_get_nil
      watermark_new_def)

lemma stream_status_roundtrip:
  "deserialize_stream_status B (serialize_stream_status B s) =
     Inr (stream_status_new (ss_timestamp s) (ss_end s), [])"
  by (simp add: serialize_stream_status_def deserialize_stream_status_def codec_reads
      put_get_nil stream_status_new_def)

lemma barrier_roundtrip: "deserialize_barrier B (serialize_barrier B b) = Inr (b, [])"
  by (simp add: serialize_barrier_def deserialize_barrier_def codec_reads put_get_nil)

lemma first_byte:
  "index_res (serialize B e) 0 = Inr (case e of ERecord _ \<Rightarrow> SER_DE_RECORD
     | EWatermark _ \<Rightarrow> SER_DE_WATERMARK | EStreamStatus _ \<Rightarrow> SER_DE_STREAM_STATUS
     | EBarrier _ \<Rightarrow> SER_DE_BARRIER)"
  by (cases e)
    (simp_all add: serialize_record_def serialize_watermark_def serialize_stream_status_def
      serialize_barrier_def put_u8_byte index_res_def)

lemma serialize_roundtrip: "fits e \<Longrightarrow> deserialize B (serialize B e) = Inr (wire e, [])"
  unfolding deserialize_def first_byte
  by (cases e) (simp_all add: record_roundtrip watermark_roundtrip stream_status_roundtrip
      barrier_roundtrip tag_defs)

end

lemma wire_idem: "wire (wire e) = wire e"
  by (cases e) (simp_all add: record_new_def watermark_new_def stream_status_new_def)

lemma set_channel_key_wire_partition:
  "\<not> is_stream_status e \<Longrightarrow> partition (set_channel_key k (wire e)) = partition e"
  by (cases e) (simp_all add: record_new_def watermark_new_def)

section \<open>Properties\<close>

text \<open>
  C13: For any byte buffer implementation with the documented behaviour, an element whose
  payload is shorter than 4 GiB is written in exactly \<open>capacity\<close> bytes, and reading those
  bytes consumes all of them and gives back everything of the element that travels: tag,
  partition (except of a stream status), timestamps, end flag, checkpoint ids and payload.
\<close>

theorem element_serde_roundtrip:
  assumes "bytes_codec B" "fits e"
  shows "length (serialize B e) = capacity e \<and> deserialize B (serialize B e) = Inr (wire e, [])"
  using bytes_codec.length_serialize[OF assms(1)] bytes_codec.serialize_roundtrip[OF assms(1,2)]
  by simp

theorem element_serde_roundtrip_witness:
  "bytes_codec be_ops \<and> deserialize be_ops (serialize be_ops
     (ERecord (record_new\<lparr>rec_partition_num := 2, rec_timestamp := 3, rec_values := [10, 20]\<rparr>)))
   = Inr (ERecord (record_new\<lparr>rec_partition_num := 2, rec_timestamp := 3,
       rec_values := [10, 20]\<rparr>), [])"
  using element_serde_roundtrip[OF be.bytes_codec_axioms,
      of "ERecord (record_new\<lparr>rec_partition_num := 2, rec_timestamp := 3, rec_values := [10, 20]\<rparr>)"]
    be.bytes_codec_axioms
  by (simp add: record_new_def)

end
