(* ===== verification/Runnables.thy ===== *)
theory Runnables
  imports Element
begin

text \<open>
  The operators of a task (\<open>rlink/src/runtime/worker/runnable\<close>): each is a state and a
  \<open>run\<close> that answers one element with actions, in the order the code performs them, a
  checkpoint reported or an element handed to the next operator.  \<open>chain\<close> is the call of
  \<open>next_runnable.run\<close> inside \<open>run\<close>.  This theory has the stateless operators (filter, flat
  map, key by, window assigner, co-process, sink); user functions are parameters.  The
  locale \<open>pass_through\<close> is the contract the stateless operators share.
\<close>

section \<open>Context, checkpoints and actions\<close>

text \<open>The part of \<open>RunnableContext\<close> the operators read: the task and the child jobs.\<close>

record runnable_context =
  rc_task_id :: task_id
  rc_child_jobs :: "(u16 \<times> job_edge) list"

record snapshot_context =
  sc_operator_id :: operator_id
  sc_task_id :: task_id
  sc_checkpoint_id :: checkpoint_id
  sc_completed_checkpoint_id :: "checkpoint_id option"

definition checkpoint_context ::
    "runnable_context \<Rightarrow> operator_id \<Rightarrow> checkpoint_id \<Rightarrow> checkpoint_id option \<Rightarrow>
     snapshot_context" where
  "checkpoint_context ctx operator_id checkpoint_id completed_checkpoint_id =
     \<lparr>sc_operator_id = operator_id, sc_task_id = rc_task_id ctx,
      sc_checkpoint_id = checkpoint_id, sc_completed_checkpoint_id = completed_checkpoint_id\<rparr>"

definition child_parallelism :: "runnable_context \<Rightarrow> u16 res" where
  "child_parallelism ctx = unwrap (case map fst (rc_child_jobs ctx) of [] \<Rightarrow> None | p # _ \<Rightarrow> Some p)"

type_synonym handle = string

record checkpoint =
  ck_operator_id :: operator_id
  ck_task_id :: task_id
  ck_checkpoint_id :: checkpoint_id
  ck_completed_checkpoint_id :: "checkpoint_id option"
  ck_handle :: handle

text \<open>\<open>CheckpointHandle::default()\<close> is the empty string.\<close>

definition handle_default :: handle where
  "handle_default = []"

datatype action = Submit checkpoint | Emit element

type_synonym 's run = "'s \<Rightarrow> element \<Rightarrow> ('s \<times> action list) res"

text \<open>What the functions of an operator share: \<open>open\<close>, \<open>close\<close> and \<open>snapshot_state\<close>.\<close>

record 'f checkpoint_fn =
  fn_open :: "'f \<Rightarrow> runnable_context \<Rightarrow> string + 'f"
  fn_snapshot :: "'f \<Rightarrow> snapshot_context \<Rightarrow> handle option \<times> 'f"

record 'f operator =
  o_operator_id :: operator_id
  o_fn :: 'f
  o_context :: "runnable_context option"

text \<open>The checkpoint every stateless operator reports.\<close>

definition report :: "snapshot_context \<Rightarrow> handle option \<Rightarrow> checkpoint" where
  "report sc h = \<lparr>ck_operator_id = sc_operator_id sc, ck_task_id = sc_task_id sc,
     ck_checkpoint_id = sc_checkpoint_id sc,
     ck_completed_checkpoint_id = sc_completed_checkpoint_id sc,
     ck_handle = (case h of None \<Rightarrow> handle_default | Some h \<Rightarrow> h)\<rparr>"

section \<open>Filter\<close>

record 'f filter_fn = "'f checkpoint_fn" +
  fn_filter :: "'f \<Rightarrow> rlink_record \<Rightarrow> bool \<times> rlink_record \<times> 'f"

definition filter_new :: "operator_id \<Rightarrow> 'f \<Rightarrow> 'f operator" where
  "filter_new operator_id f = \<lparr>o_operator_id = operator_id, o_fn = f, o_context = None\<rparr>"

definition filter_open ::
    "'f filter_fn \<Rightarrow> 'f operator \<Rightarrow> runnable_context \<Rightarrow> string + 'f operator" where
  "filter_open F s ctx =
     rbind (fn_open F (o_fn s) ctx) (\<lambda>f. Inr (s\<lparr>o_context := Some ctx, o_fn := f\<rparr>))"

definition filter_checkpoint ::
    "'f filter_fn \<Rightarrow> 'f operator \<Rightarrow> snapshot_context \<Rightarrow> checkpoint \<times> 'f operator" where
  "filter_checkpoint F s sc =
     (let (h, f) = fn_snapshot F (o_fn s) sc in (report sc h, s\<lparr>o_fn := f\<rparr>))"

fun filter_run :: "'f filter_fn \<Rightarrow> 'f operator run" where
  "filter_run F s (ERecord record) =
     (let (keep, record, f) = fn_filter F (o_fn s) record in
      Inr (s\<lparr>o_fn := f\<rparr>, if keep then [Emit (ERecord record)] else []))"
| "filter_run F s (EBarrier barrier) =
     rbind (unwrap (o_context s)) (\<lambda>context.
     let (ck, s) = filter_checkpoint F s
           (checkpoint_context context (o_operator_id s) (b_checkpoint_id barrier) None) in
     Inr (s, [Submit ck, Emit (EBarrier barrier)]))"
| "filter_run F s element = Inr (s, [Emit element])"

section \<open>Flat map\<close>

record 'f flat_map_fn = "'f checkpoint_fn" +
  fn_flat_map_element :: "'f \<Rightarrow> element \<Rightarrow> element list \<times> 'f"

record 'f flat_map_operator = "'f operator" +
  fm_counter :: u64

definition flat_map_new :: "operator_id \<Rightarrow> 'f \<Rightarrow> 'f flat_map_operator" where
  "flat_map_new operator_id f =
     \<lparr>o_operator_id = operator_id, o_fn = f, o_context = None, fm_counter = 0\<rparr>"

definition flat_map_checkpoint ::
    "'f flat_map_fn \<Rightarrow> 'f flat_map_operator \<Rightarrow> snapshot_context \<Rightarrow>
     checkpoint \<times> 'f flat_map_operator" where
  "flat_map_checkpoint F s sc =
     (let (h, f) = fn_snapshot F (o_fn s) sc in (report sc h, s\<lparr>o_fn := f\<rparr>))"

fun flat_map_run :: "'f flat_map_fn \<Rightarrow> 'f flat_map_operator run" where
  "flat_map_run F s (ERecord record) =
     (let (elements, f) = fn_flat_map_element F (o_fn s) (ERecord record) in
      Inr (s\<lparr>o_fn := f, fm_counter := fm_counter s + of_nat (length elements)\<rparr>,
           map Emit elements))"
| "flat_map_run F s (EBarrier barrier) =
     rbind (unwrap (o_context s)) (\<lambda>context.
     let (ck, s) = flat_map_checkpoint F s
           (checkpoint_context context (o_operator_id s) (b_checkpoint_id barrier) None) in
     Inr (s, [Submit ck, Emit (EBarrier barrier)]))"
| "flat_map_run F s element = Inr (s, [Emit element])"

definition flat_map_open ::
    "'f flat_map_fn \<Rightarrow> 'f flat_map_operator \<Rightarrow> runnable_context \<Rightarrow>
     string + 'f flat_map_operator" where
  "flat_map_open F s ctx =
     rbind (fn_open F (o_fn s) ctx) (\<lambda>f. Inr (s\<lparr>o_context := Some ctx, o_fn := f, fm_counter := 0\<rparr>))"

section \<open>Key by\<close>

text \<open>The hash of the \<open>murmur3\<close> crate is a parameter; it fails by \<open>None\<close>.\<close>

record 'f key_by_fn = "'f checkpoint_fn" +
  fn_get_key :: "'f \<Rightarrow> rlink_record \<Rightarrow> rlink_record \<times> rlink_record \<times> 'f"

record 'f key_by_operator = "'f operator" +
  kb_partition_size :: u16
  kb_counter :: u64

definition key_by_new :: "operator_id \<Rightarrow> 'f \<Rightarrow> 'f key_by_operator" where
  "key_by_new operator_id f = \<lparr>o_operator_id = operator_id, o_fn = f, o_context = None,
     kb_partition_size = 0, kb_counter = 0\<rparr>"

definition key_by_open ::
    "'f key_by_fn \<Rightarrow> 'f key_by_operator \<Rightarrow> runnable_context \<Rightarrow>
     string failure + 'f key_by_operator" where
  "key_by_open F s ctx =
     rbind (case fn_open F (o_fn s) ctx of Inl e \<Rightarrow> Inl (Failed e) | Inr f \<Rightarrow> Inr f) (\<lambda>f.
     rbind (lift_panic (child_parallelism ctx)) (\<lambda>p.
       Inr (s\<lparr>o_context := Some ctx, o_fn := f, kb_partition_size := p, kb_counter := 0\<rparr>)))"

definition key_by_checkpoint ::
    "'f key_by_fn \<Rightarrow> 'f key_by_operator \<Rightarrow> snapshot_context \<Rightarrow> checkpoint \<times> 'f key_by_operator" where
  "key_by_checkpoint F s sc =
     (let (h, f) = fn_snapshot F (o_fn s) sc in (report sc h, s\<lparr>o_fn := f\<rparr>))"

fun key_by_run :: "(u8 list \<Rightarrow> u32 option) \<Rightarrow> 'f key_by_fn \<Rightarrow> 'f key_by_operator run" where
  "key_by_run hash_code F s (ERecord record) =
     (let (key_row, record, f) = fn_get_key F (o_fn s) record;
          hash = (case hash_code (rec_values key_row) of None \<Rightarrow> 0 | Some h \<Rightarrow> h) in
      if kb_partition_size s = 0 then Inl Division_by_zero
      else let partition_num = hash mod ucast (kb_partition_size s) in
        Inr (s\<lparr>o_fn := f, kb_counter := kb_counter s + 1\<rparr>,
             [Emit (ERecord (record\<lparr>rec_partition_num := ucast partition_num\<rparr>))]))"
| "key_by_run hash_code F s (EBarrier barrier) =
     rbind (unwrap (o_context s)) (\<lambda>context.
     let (ck, s) = key_by_checkpoint F s
           (checkpoint_context context (o_operator_id s) (b_checkpoint_id barrier) None) in
     Inr (s, [Submit ck, Emit (EBarrier barrier)]))"
| "key_by_run hash_code F s element = Inr (s, [Emit element])"

section \<open>Co-process\<close>

text \<open>The position of a parent job among the parents of the connected stream.\<close>

record 'f co_process_fn = "'f checkpoint_fn" +
  fn_process_left :: "'f \<Rightarrow> rlink_record \<Rightarrow> rlink_record list \<times> 'f"
  fn_process_right :: "'f \<Rightarrow> nat \<Rightarrow> rlink_record \<Rightarrow> rlink_record list \<times> 'f"

record 'f co_process_operator = "'f operator" +
  cp_parent_jobs :: "(job_id, nat) hmap"

text \<open>
  \<open>open\<close> looks up, for each parent stream node of the job's first node, the parent job that
  contains it; \<open>job_parents\<close> are the parent jobs with the ids of their stream nodes.
\<close>

fun co_process_parents ::
    "(job_id \<times> operator_id list) list \<Rightarrow> nat \<Rightarrow> operator_id list \<Rightarrow> (job_id, nat) hmap \<Rightarrow>
     string + (job_id, nat) hmap" where
  "co_process_parents job_parents index [] m = Inr m"
| "co_process_parents job_parents index (parent_id # parent_ids) m =
     (case List.find (\<lambda>(job_id, nodes). parent_id \<in> set nodes) job_parents of
        None \<Rightarrow> Inl ''co_process_function parent not found''
      | Some (job_id, _) \<Rightarrow>
          co_process_parents job_parents (Suc index) parent_ids (AList.update job_id index m))"

definition co_process_new :: "operator_id \<Rightarrow> 'f \<Rightarrow> 'f co_process_operator" where
  "co_process_new operator_id f =
     \<lparr>o_operator_id = operator_id, o_fn = f, o_context = None, cp_parent_jobs = []\<rparr>"

definition co_process_open ::
    "'f co_process_fn \<Rightarrow> (job_id \<times> operator_id list) list \<Rightarrow> operator_id list \<Rightarrow>
     'f co_process_operator \<Rightarrow> runnable_context \<Rightarrow> string + 'f co_process_operator" where
  "co_process_open F job_parents parent_ids s ctx =
     rbind (co_process_parents job_parents 0 parent_ids (cp_parent_jobs s)) (\<lambda>m.
     rbind (fn_open F (o_fn s) ctx) (\<lambda>f.
       Inr (s\<lparr>o_context := Some ctx, cp_parent_jobs := m, o_fn := f\<rparr>)))"

definition co_process_checkpoint ::
    "'f co_process_fn \<Rightarrow> 'f co_process_operator \<Rightarrow> snapshot_context \<Rightarrow>
     checkpoint \<times> 'f co_process_operator" where
  "co_process_checkpoint F s sc =
     (let (h, f) = fn_snapshot F (o_fn s) sc in (report sc h, s\<lparr>o_fn := f\<rparr>))"

fun co_process_run :: "'f co_process_fn \<Rightarrow> 'f co_process_operator run" where
  "co_process_run F s (ERecord record) =
     rbind (unwrap (map_of (cp_parent_jobs s) (t_job_id (source_task_id (rec_channel_key record)))))
       (\<lambda>stream_seq.
     let (records, f) = (if stream_seq = length (cp_parent_jobs s) - 1
           then fn_process_left F (o_fn s) record
           else fn_process_right F (o_fn s) stream_seq record) in
     Inr (s\<lparr>o_fn := f\<rparr>, map (\<lambda>r. Emit (ERecord r)) records))"
| "co_process_run F s (EBarrier barrier) =
     rbind (unwrap (o_context s)) (\<lambda>context.
     let (ck, s) = co_process_checkpoint F s
           (checkpoint_context context (o_operator_id s) (b_checkpoint_id barrier) None) in
     Inr (s, [Submit ck, Emit (EBarrier barrier)]))"
| "co_process_run F s element = Inr (s, [Emit element])"

section \<open>Window assigner\<close>

text \<open>
  The sliding assigner is the one the code ships; a run that does not end is \<open>None\<close> in the
  model of \<open>assign_windows\<close>, which the lemmas there rule out for the assigners \<open>new\<close>
  accepts.
\<close>

record window_operator =
  wo_operator_id :: operator_id
  wo_context :: "runnable_context option"
  wo_assigner :: sliding_windows

definition window_assigner_new :: "operator_id \<Rightarrow> sliding_windows \<Rightarrow> window_operator" where
  "window_assigner_new operator_id a =
     \<lparr>wo_operator_id = operator_id, wo_context = None, wo_assigner = a\<rparr>"

definition window_assigner_open :: "window_operator \<Rightarrow> runnable_context \<Rightarrow> window_operator" where
  "window_assigner_open s ctx = s\<lparr>wo_context := Some ctx\<rparr>"

definition window_assigner_checkpoint :: "snapshot_context \<Rightarrow> checkpoint" where
  "window_assigner_checkpoint sc = report sc None"

fun window_assigner_run ::
    "window_operator \<Rightarrow> element \<Rightarrow> (window_operator \<times> action list) res option" where
  "window_assigner_run s (ERecord record) =
     (case assign_windows (wo_assigner s) (rec_timestamp record) of
        None \<Rightarrow> None
      | Some (Inl p) \<Rightarrow> Some (Inl p)
      | Some (Inr windows) \<Rightarrow>
          Some (Inr (s, [Emit (ERecord (record\<lparr>rec_location_windows := Some windows\<rparr>))])))"
| "window_assigner_run s (EWatermark watermark) =
     (case assign_windows (wo_assigner s) (wm_timestamp watermark) of
        None \<Rightarrow> None
      | Some (Inl p) \<Rightarrow> Some (Inl p)
      | Some (Inr windows) \<Rightarrow>
          Some (Inr (s, [Emit (EWatermark (watermark\<lparr>wm_location_windows := Some windows\<rparr>))])))"
| "window_assigner_run s (EBarrier barrier) =
     Some (rbind (unwrap (wo_context s)) (\<lambda>context.
       Inr (s, [Submit (window_assigner_checkpoint
           (checkpoint_context context (wo_operator_id s) (b_checkpoint_id barrier) None)),
         Emit (EBarrier barrier)])))"
| "window_assigner_run s (EStreamStatus stream_status) = Some (Inr (s, [Emit (EStreamStatus stream_status)]))"

section \<open>Sink\<close>

record 'f sink_fn = "'f checkpoint_fn" +
  fn_write_element :: "'f \<Rightarrow> element \<Rightarrow> 'f res"

record 'f sink_operator = "'f operator" +
  sk_child_parallelism :: u16
  sk_creator :: function_creator
  sk_counter :: u64

definition sink_new :: "operator_id \<Rightarrow> function_creator \<Rightarrow> 'f \<Rightarrow> 'f sink_operator" where
  "sink_new operator_id creator f = \<lparr>o_operator_id = operator_id, o_fn = f, o_context = None,
     sk_child_parallelism = 0, sk_creator = creator, sk_counter = 0\<rparr>"

definition sink_open ::
    "'f sink_fn \<Rightarrow> 'f sink_operator \<Rightarrow> runnable_context \<Rightarrow> string failure + 'f sink_operator" where
  "sink_open F s ctx =
     rbind (case rc_child_jobs ctx of
         [] \<Rightarrow> Inr 0
       | [(p, edge)] \<Rightarrow> Inr (case edge of Forward \<Rightarrow> 0 | ReBalance \<Rightarrow> p)
       | _ \<Rightarrow> Inl (Panicked Unimplemented)) (\<lambda>p.
     rbind (case fn_open F (o_fn s) ctx of Inl e \<Rightarrow> Inl (Failed e) | Inr f \<Rightarrow> Inr f) (\<lambda>f.
       Inr (s\<lparr>o_context := Some ctx, o_fn := f, sk_child_parallelism := p, sk_counter := 0\<rparr>)))"

definition sink_checkpoint ::
    "'f sink_fn \<Rightarrow> 'f sink_operator \<Rightarrow> snapshot_context \<Rightarrow> checkpoint \<times> 'f sink_operator" where
  "sink_checkpoint F s sc =
     (let (h, f) = fn_snapshot F (o_fn s) sc in (report sc h, s\<lparr>o_fn := f\<rparr>))"

text \<open>
  A control element goes to every downstream partition of a rebalanced child, once
  otherwise; a sink of the user only takes the checkpoint.
\<close>

definition sink_copies :: "'f sink_operator \<Rightarrow> element \<Rightarrow> element list" where
  "sink_copies s element = (case sk_creator s of
     System \<Rightarrow> (if sk_child_parallelism s > 0
       then map (\<lambda>index. set_partition (of_nat index) element)
              [0..<unat (sk_child_parallelism s)]
       else [element])
   | User \<Rightarrow> [])"

fun sink_run :: "'f sink_fn \<Rightarrow> 'f sink_operator run" where
  "sink_run F s (ERecord record) =
     rbind (fn_write_element F (o_fn s) (ERecord record)) (\<lambda>f.
       Inr (s\<lparr>o_fn := f, sk_counter := sk_counter s + 1\<rparr>, []))"
| "sink_run F s element =
     rbind (case element of
         EBarrier barrier \<Rightarrow>
           rbind (unwrap (o_context s)) (\<lambda>context.
           let (ck, s) = sink_checkpoint F s (checkpoint_context context (o_operator_id s)
                 (b_checkpoint_id barrier) (barrier_completed barrier)) in
           Inr (s, [Submit ck]))
       | _ \<Rightarrow> Inr (s, [])) (\<lambda>(s, acts).
     rbind (fold_res (\<lambda>e f. fn_write_element F f e) (sink_copies s element) (o_fn s)) (\<lambda>f.
       Inr (s\<lparr>o_fn := f\<rparr>, acts)))"

section \<open>Operators in sequence\<close>

text \<open>
  \<open>feed\<close> hands the elements an operator emits to the next one, in order; reported
  checkpoints keep their place.
\<close>

fun feed :: "'t run \<Rightarrow> 't \<Rightarrow> action list \<Rightarrow> ('t \<times> action list) res" where
  "feed g t [] = Inr (t, [])"
| "feed g t (Submit ck # acts) = rbind (feed g t acts) (\<lambda>(t, out). Inr (t, Submit ck # out))"
| "feed g t (Emit e # acts) =
     rbind (g t e) (\<lambda>(t, out). rbind (feed g t acts) (\<lambda>(t, out'). Inr (t, out @ out')))"

definition chain :: "'s run \<Rightarrow> 't run \<Rightarrow> ('s \<times> 't) run" where
  "chain f g = (\<lambda>(s, t) e.
     rbind (f s e) (\<lambda>(s, acts). rbind (feed g t acts) (\<lambda>(t, out). Inr ((s, t), out))))"

fun run_all :: "'s run \<Rightarrow> 's \<Rightarrow> element list \<Rightarrow> ('s \<times> action list) res" where
  "run_all f s [] = Inr (s, [])"
| "run_all f s (e # es) =
     rbind (f s e) (\<lambda>(s, out). rbind (run_all f s es) (\<lambda>(s, out'). Inr (s, out @ out')))"

fun emitted :: "action list \<Rightarrow> element list" where
  "emitted [] = []"
| "emitted (Emit e # acts) = e # emitted acts"
| "emitted (Submit ck # acts) = emitted acts"

fun submitted :: "action list \<Rightarrow> checkpoint list" where
  "submitted [] = []"
| "submitted (Emit e # acts) = submitted acts"
| "submitted (Submit ck # acts) = ck # submitted acts"

lemma emitted_append [simp]: "emitted (xs @ ys) = emitted xs @ emitted ys"
  by (induction xs rule: emitted.induct) auto

lemma submitted_append [simp]: "submitted (xs @ ys) = submitted xs @ submitted ys"
  by (induction xs rule: submitted.induct) auto

lemma emitted_map [simp]: "emitted (map Emit es) = es" "submitted (map Emit es) = []"
  by (induction es) auto

lemma emitted_map_comp [simp]:
  "emitted (map (\<lambda>x. Emit (f x)) xs) = map f xs" "submitted (map (\<lambda>x. Emit (f x)) xs) = []"
  by (induction xs) auto

abbreviation control :: "element \<Rightarrow> bool" where
  "control e \<equiv> \<not> is_record e"

definition controls :: "element list \<Rightarrow> element list" where
  "controls es = filter control es"

text \<open>The checkpoint an operator has to report for an element.\<close>

fun due :: "operator_id list \<Rightarrow> element \<Rightarrow> (operator_id \<times> checkpoint_id) list" where
  "due ops (EBarrier b) = map (\<lambda>opid. (opid, b_checkpoint_id b)) ops"
| "due ops _ = []"

definition reported :: "checkpoint list \<Rightarrow> (operator_id \<times> checkpoint_id) list" where
  "reported cks = map (\<lambda>ck. (ck_operator_id ck, ck_checkpoint_id ck)) cks"

lemma reported_append [simp]: "reported (xs @ ys) = reported xs @ reported ys"
  by (simp add: reported_def)

lemma controls_append [simp]: "controls (xs @ ys) = controls xs @ controls ys"
  by (simp add: controls_def)

text \<open>
  The contract of a stateless operator (or chain of them), with the operators \<open>ops\<close> it
  consists of: in a good state it answers every element; a record is answered by records
  only; a control element is passed on unchanged after every operator has reported the
  checkpoint it asks for.
\<close>

locale pass_through =
  fixes run :: "'s run" and ok :: "'s \<Rightarrow> bool" and ops :: "operator_id list"
  assumes total: "ok s \<Longrightarrow> \<exists>s' acts. run s e = Inr (s', acts) \<and> ok s'"
    and records_only: "ok s \<Longrightarrow> is_record e \<Longrightarrow> run s e = Inr (s', acts) \<Longrightarrow>
      controls (emitted acts) = [] \<and> submitted acts = []"
    and passes: "ok s \<Longrightarrow> control e \<Longrightarrow> run s e = Inr (s', acts) \<Longrightarrow>
      \<exists>cks. acts = map Submit cks @ [Emit e] \<and> reported cks = due ops e"
begin

lemma feed_total: "ok t \<Longrightarrow> \<exists>t' out. feed run t acts = Inr (t', out) \<and> ok t'"
proof (induction acts arbitrary: t)
  case Nil
  then show ?case by simp
next
  case (Cons a acts)
  show ?case
  proof (cases a)
    case (Submit ck)
    with Cons show ?thesis by fastforce
  next
    case (Emit e)
    from total[OF Cons.prems, of e] obtain t1 o1 where "run t e = Inr (t1, o1)" "ok t1" by blast
    moreover from Cons.IH[OF \<open>ok t1\<close>] obtain t2 o2 where "feed run t1 acts = Inr (t2, o2)" "ok t2"
      by blast
    ultimately show ?thesis using Emit by simp
  qed
qed

lemma feed_submits:
  "feed run t (map Submit cks @ acts) =
     rbind (feed run t acts) (\<lambda>(t, out). Inr (t, map Submit cks @ out))"
  by (induction cks) (simp_all add: rbind_def split: sum.splits)

lemma feed_records:
  "ok t \<Longrightarrow> controls (emitted acts) = [] \<Longrightarrow> submitted acts = [] \<Longrightarrow>
   feed run t acts = Inr (t', out) \<Longrightarrow> controls (emitted out) = [] \<and> submitted out = []"
proof (induction acts arbitrary: t t' out)
  case Nil
  then show ?case by (simp add: controls_def)
next
  case (Cons a acts)
  from Cons.prems(2,3) obtain e where a: "a = Emit e" "is_record e"
    by (cases a) (auto simp: controls_def split: if_splits)
  from Cons.prems(4) a obtain t1 o1 o2 where r: "run t e = Inr (t1, o1)"
    "feed run t1 acts = Inr (t', o2)" "out = o1 @ o2" by (auto simp: rbind_eq_Inr)
  have "ok t1" using total[OF Cons.prems(1), of e] r(1) by auto
  moreover have "controls (emitted acts) = []" "submitted acts = []"
    using Cons.prems(2,3) a by (simp_all add: controls_def)
  ultimately show ?case
    using Cons.IH[OF _ _ _ r(2)] records_only[OF Cons.prems(1) a(2) r(1)] r(3) by simp
qed

lemma one_element:
  assumes "ok s" "run s e = Inr (s', acts)"
  shows "controls (emitted acts) = controls [e] \<and> reported (submitted acts) = due ops e"
proof (cases "is_record e")
  case True
  then show ?thesis
    using records_only[OF assms(1) True assms(2)] by (cases e) (auto simp: controls_def reported_def)
next
  case False
  then obtain cks where c: "acts = map Submit cks @ [Emit e]" "reported cks = due ops e"
    using passes[OF assms(1) _ assms(2)] by auto
  have "submitted (map Submit cks) = cks" "emitted (map Submit cks) = []" for cks
    by (induction cks) auto
  then show ?thesis using c False by (simp add: controls_def)
qed

lemma whole_stream:
  "ok s \<Longrightarrow> \<exists>s' acts. run_all run s es = Inr (s', acts) \<and> ok s' \<and>
     controls (emitted acts) = controls es \<and>
     reported (submitted acts) = concat (map (due ops) es)"
proof (induction es arbitrary: s)
  case Nil
  then show ?case by (simp add: controls_def reported_def)
next
  case (Cons e es)
  from total[OF Cons.prems, of e] obtain s1 o1 where s1: "run s e = Inr (s1, o1)" "ok s1" by blast
  from Cons.IH[OF s1(2)] obtain s2 o2 where s2: "run_all run s1 es = Inr (s2, o2)" "ok s2"
    "controls (emitted o2) = controls es"
    "reported (submitted o2) = concat (map (due ops) es)" by blast
  have "controls (e # es) = controls [e] @ controls es"
    by (simp add: controls_def)
  then show ?case
    using s1 s2 one_element[OF Cons.prems s1(1)] by simp
qed

end

text \<open>Two operators with the contract, one behind the other, have it together.\<close>

lemma chain_pass_through:
  assumes f: "pass_through f okf opsf" and g: "pass_through g okg opsg"
  shows "pass_through (chain f g) (\<lambda>(s, t). okf s \<and> okg t) (opsf @ opsg)"
proof
  fix st :: "'a \<times> 'b" and e
  assume st: "case st of (s, t) \<Rightarrow> okf s \<and> okg t"
  obtain s t where [simp]: "st = (s, t)" by (cases st)
  from pass_through.total[OF f, of s e] st obtain s' acts where
    fs: "f s e = Inr (s', acts)" "okf s'" by auto
  from pass_through.feed_total[OF g, of t acts] st obtain t' out where
    gs: "feed g t acts = Inr (t', out)" "okg t'" by auto
  have c: "chain f g st e = Inr ((s', t'), out)"
    using fs gs by (simp add: chain_def)
  then show "\<exists>s' acts. chain f g st e = Inr (s', acts) \<and> (case s' of (s, t) \<Rightarrow> okf s \<and> okg t)"
    using fs gs by auto
  fix st' out'
  assume run: "chain f g st e = Inr (st', out')"
  then have out': "out' = out" using c by simp
  show "controls (emitted out') = [] \<and> submitted out' = []" if "is_record e"
    using pass_through.records_only[OF f _ that fs(1)]
      pass_through.feed_records[OF g _ _ _ gs(1)] st out' by simp
  show "\<exists>cks. out' = map Submit cks @ [Emit e] \<and> reported cks = due (opsf @ opsg) e"
    if e: "control e"
  proof -
    from pass_through.passes[OF f _ e fs(1)] st obtain cks where
      cks: "acts = map Submit cks @ [Emit e]" "reported cks = due opsf e" by auto
    from gs(1) obtain o1 where o1: "g t e = Inr (t', o1)" "out = map Submit cks @ o1"
      by (auto simp: cks(1) pass_through.feed_submits[OF g] rbind_eq_Inr)
    from pass_through.passes[OF g _ e o1(1)] st obtain cks' where
      "o1 = map Submit cks' @ [Emit e]" "reported cks' = due opsg e" by auto
    then show ?thesis
      using o1(2) out' cks(2) by (intro exI[of _ "cks @ cks'"]) (cases e, auto)
  qed
qed

section \<open>The contract holds for the stateless operators\<close>

definition ready :: "('f, 'z) operator_scheme \<Rightarrow> bool" where
  "ready s \<longleftrightarrow> o_context s \<noteq> None"

lemma report_fields [simp]:
  "ck_operator_id (report sc h) = sc_operator_id sc"
  "ck_checkpoint_id (report sc h) = sc_checkpoint_id sc"
  by (simp_all add: report_def)

lemma checkpoint_context_fields [simp]:
  "sc_operator_id (checkpoint_context ctx opid ck c) = opid"
  "sc_checkpoint_id (checkpoint_context ctx opid ck c) = ck"
  by (simp_all add: checkpoint_context_def)

lemmas pass_simps =
  ready_def reported_def Cons_eq_append_conv Cons_eq_map_conv report_fields
  checkpoint_context_fields

lemma filter_pass:
  "pass_through (filter_run F) (\<lambda>s. ready s \<and> o_operator_id s = opid) [opid]"
proof (unfold_locales, goal_cases)
  case (1 s e)
  then show ?case
    by (cases e) (auto simp: pass_simps filter_checkpoint_def split: prod.splits)
next
  case (2 s e s' acts)
  then show ?case
    by (cases e) (auto simp: controls_def split: prod.splits if_splits)
next
  case (3 s e s' acts)
  then show ?case
    by (cases e) (auto simp: pass_simps filter_checkpoint_def split: prod.splits)
qed

text \<open>A flat map keeps the contract when its function maps records to records.\<close>

definition maps_records :: "'f flat_map_fn \<Rightarrow> bool" where
  "maps_records F \<longleftrightarrow> (\<forall>f r. controls (fst (fn_flat_map_element F f (ERecord r))) = [])"

lemma flat_map_pass:
  assumes "maps_records F"
  shows "pass_through (flat_map_run F) (\<lambda>s. ready s \<and> o_operator_id s = opid) [opid]"
proof (unfold_locales, goal_cases)
  case (1 s e)
  then show ?case
    by (cases e) (auto simp: pass_simps flat_map_checkpoint_def split: prod.splits)
next
  case (2 s e s' acts)
  then show ?case
    using assms by (cases e) (auto simp: maps_records_def split: prod.splits, metis fst_conv)
next
  case (3 s e s' acts)
  then show ?case
    by (cases e) (auto simp: pass_simps flat_map_checkpoint_def split: prod.splits)
qed

lemma key_by_pass:
  "pass_through (key_by_run h F)
     (\<lambda>s. ready s \<and> o_operator_id s = opid \<and> kb_partition_size s \<noteq> 0) [opid]"
proof (unfold_locales, goal_cases)
  case (1 s e)
  then show ?case
    by (cases e) (auto simp: pass_simps key_by_checkpoint_def Let_def split: prod.splits)
next
  case (2 s e s' acts)
  then show ?case
    by (cases e) (auto simp: controls_def Let_def split: prod.splits)
next
  case (3 s e s' acts)
  then show ?case
    by (cases e) (auto simp: pass_simps key_by_checkpoint_def split: prod.splits)
qed

text \<open>
  The contract is interpreted on the operators themselves and on the chain a key-by job
  ends with, for any functions of the user.
\<close>

interpretation filter_op: pass_through "filter_run F" "\<lambda>s. ready s \<and> o_operator_id s = opid" "[opid]"
  for F :: "'f filter_fn" and opid
  by (rule filter_pass)

interpretation key_by_op: pass_through "key_by_run h F"
    "\<lambda>s. ready s \<and> o_operator_id s = opid \<and> kb_partition_size s \<noteq> 0" "[opid]"
  for h and F :: "'f key_by_fn" and opid
  by (rule key_by_pass)

interpretation filter_key_by: pass_through "chain (filter_run F) (key_by_run h G)"
    "\<lambda>(s, t). (ready s \<and> o_operator_id s = opid) \<and>
       (ready t \<and> o_operator_id t = opid' \<and> kb_partition_size t \<noteq> 0)" "[opid] @ [opid']"
  for F :: "'f filter_fn" and h and G :: "'g key_by_fn" and opid opid'
  by (rule chain_pass_through[OF filter_pass key_by_pass])

section \<open>Properties\<close>

text \<open>
  C28: Checkpoint barriers through a chain.  In an opened chain filter, flat map, key by
  (with any user functions, the flat map producing records), a whole stream is processed
  without a panic; watermarks, stream status events and barriers come out unchanged and in
  order, and for every barrier each of the three operators reports exactly one checkpoint
  with the barrier's id, in chain order.
\<close>

theorem chain_keeps_controls:
  assumes "ready s" "ready t" "ready u" "kb_partition_size u \<noteq> 0" "maps_records G"
  shows "\<exists>s' acts. run_all (chain (filter_run F) (chain (flat_map_run G) (key_by_run h K)))
       (s, t, u) es = Inr (s', acts)
     \<and> controls (emitted acts) = controls es
     \<and> reported (submitted acts) =
         concat (map (due [o_operator_id s, o_operator_id t, o_operator_id u]) es)"
proof -
  note fm = flat_map_pass[OF assms(5), of "o_operator_id t"]
  note p = chain_pass_through[OF filter_pass[of F "o_operator_id s"]
      chain_pass_through[OF fm key_by_pass[of h K "o_operator_id u"]]]
  from pass_through.whole_stream[OF p, of "(s, t, u)" es] assms(1-4) show ?thesis
    by auto
qed

text \<open>Functions of a user that do nothing, and an operator opened with them.\<close>

definition idle_filter :: "unit filter_fn" where
  "idle_filter = \<lparr>fn_open = (\<lambda>f _. Inr f), fn_snapshot = (\<lambda>f _. (None, f)),
     fn_filter = (\<lambda>f r. (True, r, f))\<rparr>"

definition idle_flat_map :: "unit flat_map_fn" where
  "idle_flat_map = \<lparr>fn_open = (\<lambda>f _. Inr f), fn_snapshot = (\<lambda>f _. (None, f)),
     fn_flat_map_element = (\<lambda>f e. ([e], f))\<rparr>"

definition idle_key_by :: "unit key_by_fn" where
  "idle_key_by = \<lparr>fn_open = (\<lambda>f _. Inr f), fn_snapshot = (\<lambda>f _. (None, f)),
     fn_get_key = (\<lambda>f r. (r, r, f))\<rparr>"

definition a_context :: runnable_context where
  "a_context = \<lparr>rc_task_id = task_id_default, rc_child_jobs = [(4, ReBalance)]\<rparr>"

theorem chain_keeps_controls_witness:
  "\<exists>s' acts. run_all (chain (filter_run idle_filter) (chain (flat_map_run idle_flat_map)
        (key_by_run (\<lambda>bs. Some (of_nat (length bs))) idle_key_by)))
      (\<lparr>o_operator_id = OperatorId 1, o_fn = (), o_context = Some a_context\<rparr>,
       \<lparr>o_operator_id = OperatorId 2, o_fn = (), o_context = Some a_context, fm_counter = 0\<rparr>,
       \<lparr>o_operator_id = OperatorId 3, o_fn = (), o_context = Some a_context,
          kb_partition_size = 4, kb_counter = 0\<rparr>)
      [ERecord record_new, new_barrier (CheckpointId 9)] = Inr (s', acts)
    \<and> reported (submitted acts) = [(OperatorId 1, CheckpointId 9), (OperatorId 2, CheckpointId 9),
        (OperatorId 3, CheckpointId 9)]"
proof -
  have m: "maps_records idle_flat_map"
    by (simp add: maps_records_def idle_flat_map_def controls_def)
  show ?thesis
    using chain_keeps_controls[OF _ _ _ _ m, of
        "\<lparr>o_operator_id = OperatorId 1, o_fn = (), o_context = Some a_context\<rparr>"
        "\<lparr>o_operator_id = OperatorId 2, o_fn = (), o_context = Some a_context, fm_counter = 0\<rparr>"
        "\<lparr>o_operator_id = OperatorId 3, o_fn = (), o_context = Some a_context,
          kb_partition_size = 4, kb_counter = 0\<rparr>" idle_filter "\<lambda>bs. Some (of_nat (length bs))"
        idle_key_by "[ERecord record_new, new_barrier (CheckpointId 9)]"]
    by (auto simp: ready_def new_barrier_def barrier_new_def)
qed

text \<open>
  Key partitioning.  An opened key-by operator gives every record a partition below the
  parallelism of the child job, records with equal keys get equal partitions, and nothing
  but the partition of a record changes.
\<close>

lemma key_by_partition:
  assumes "kb_partition_size s \<noteq> 0"
    and "fn_get_key K (o_fn s) r = (key, r', f)" and "fn_get_key K (o_fn s') q = (key', q', f')"
    and "rec_values key = rec_values key'" and "kb_partition_size s' = kb_partition_size s"
  shows "\<exists>s1 s2 p. p < kb_partition_size s
     \<and> key_by_run h K s (ERecord r) = Inr (s1, [Emit (ERecord (r'\<lparr>rec_partition_num := p\<rparr>))])
     \<and> key_by_run h K s' (ERecord q) = Inr (s2, [Emit (ERecord (q'\<lparr>rec_partition_num := p\<rparr>))])"
proof -
  let ?n = "kb_partition_size s"
  let ?x = "case h (rec_values key) of None \<Rightarrow> 0 | Some h \<Rightarrow> h"
  have n: "0 < uint ?n"
    using assms(1) by (simp add: word_greater_zero_iff uint_0_iff order_less_le)
  have "uint (ucast (?x mod ucast ?n) :: u16) = uint ?x mod uint ?n"
  proof -
    have "uint ?x mod uint ?n < 2 ^ 16"
      using pos_mod_bound[OF n, of "uint ?x"] uint_lt2p[of ?n] by simp
    moreover have "take_bit 32 (uint ?n) = uint ?n"
      using uint_lt2p[of ?n] by (intro take_bit_int_eq_self) auto
    ultimately show ?thesis
      using n by (simp add: unsigned_ucast_eq uint_mod take_bit_int_eq_self)
  qed
  then have "(ucast (?x mod ucast ?n) :: u16) < ?n"
    using n by (simp add: word_less_def)
  then show ?thesis
    using assms by (auto simp: Let_def)
qed

end
