(* ===== verification/Watermark_Gen.thy ===== *)
theory Watermark_Gen
  imports Runnables
begin

text \<open>
  Watermark generation: the generators of \<open>rlink/src/functions/watermark\<close>, the strategy
  builder, and the operator that assigns timestamps, drops late records and emits
  watermarks (\<open>watermark_assigner_runnable.rs\<close>).  The clock and the timestamp extraction
  are parameters.  The locale \<open>watermark_generator\<close> is the contract between operator and
  generator; the built-in generators satisfy it.
\<close>

section \<open>Generators\<close>

text \<open>
  \<open>clock i\<close> is what the \<open>i\<close>-th nested call of \<open>current_timestamp_millis\<close> returns during one
  call of a generator.
\<close>

type_synonym clock = "nat \<Rightarrow> u64"

record bounded_out_of_orderness =
  bo_max_timestamp :: u64
  bo_out_of_orderness_millis :: u64

record time_periodic =
  tp_process_timestamp :: int
  tp_event_timestamp :: int
  tp_process_period :: int
  tp_event_period :: int

record idleness_timer =
  it_counter :: u64
  it_last_counter :: u64
  it_start_of_inactivity_millis :: u64
  it_max_idle_time_millis :: u64

datatype generator =
    Bounded_ooo bounded_out_of_orderness
  | Time_periodic generator time_periodic
  | With_idleness generator idleness_timer

definition bounded_new :: "u64 \<Rightarrow> generator" where
  "bounded_new out_of_orderness_millis = Bounded_ooo
     \<lparr>bo_max_timestamp = 0, bo_out_of_orderness_millis = out_of_orderness_millis\<rparr>"

definition time_periodic_new :: "generator \<Rightarrow> u64 \<Rightarrow> u64 \<Rightarrow> generator" where
  "time_periodic_new watermarks process_period event_period = Time_periodic watermarks
     \<lparr>tp_process_timestamp = 0, tp_event_timestamp = 0,
      tp_process_period = as_i64 process_period, tp_event_period = as_i64 event_period\<rparr>"

definition idleness_timer_new :: "u64 \<Rightarrow> idleness_timer" where
  "idleness_timer_new idle_timeout = \<lparr>it_counter = 0, it_last_counter = 0,
     it_start_of_inactivity_millis = 0, it_max_idle_time_millis = idle_timeout\<rparr>"

definition with_idleness_new :: "generator \<Rightarrow> u64 \<Rightarrow> generator" where
  "with_idleness_new watermarks idle_timeout =
     With_idleness watermarks (idleness_timer_new idle_timeout)"

definition activity :: "idleness_timer \<Rightarrow> idleness_timer" where
  "activity t = t\<lparr>it_counter := it_counter t + 1\<rparr>"

definition check_if_idle :: "clock \<Rightarrow> idleness_timer \<Rightarrow> bool \<times> idleness_timer" where
  "check_if_idle now t =
     (if it_counter t \<noteq> it_last_counter t
      then (False, t\<lparr>it_last_counter := it_counter t, it_start_of_inactivity_millis := 0\<rparr>)
      else if it_start_of_inactivity_millis t = 0
      then (False, t\<lparr>it_start_of_inactivity_millis := now 0\<rparr>)
      else (now 0 - it_start_of_inactivity_millis t > it_max_idle_time_millis t, t))"

definition bounded_watermark :: "bounded_out_of_orderness \<Rightarrow> u64" where
  "bounded_watermark b = (if bo_max_timestamp b > bo_out_of_orderness_millis b
     then bo_max_timestamp b - bo_out_of_orderness_millis b - 1 else MIN_WATERMARK)"

definition bounded_on_event :: "bounded_out_of_orderness \<Rightarrow> u64 \<Rightarrow> bounded_out_of_orderness" where
  "bounded_on_event b event_timestamp = (if event_timestamp > bo_max_timestamp b
     then b\<lparr>bo_max_timestamp := event_timestamp\<rparr> else b)"

fun on_periodic_emit :: "clock \<Rightarrow> generator \<Rightarrow> u64 option \<times> generator" where
  "on_periodic_emit now (Bounded_ooo b) = (Some (bounded_watermark b), Bounded_ooo b)"
| "on_periodic_emit now (Time_periodic g t) =
     (let (w, g) = on_periodic_emit now g in (w, Time_periodic g t))"
| "on_periodic_emit now (With_idleness g t) =
     (let (idle, t) = check_if_idle now t in
      if idle then (Some IDLE_WATERMARK, With_idleness g t)
      else let (w, g) = on_periodic_emit (\<lambda>i. now (Suc i)) g in (w, With_idleness g t))"

fun on_event :: "clock \<Rightarrow> generator \<Rightarrow> u64 \<Rightarrow> u64 option \<times> generator" where
  "on_event now (Bounded_ooo b) event_timestamp =
     (None, Bounded_ooo (bounded_on_event b event_timestamp))"
| "on_event now (Time_periodic g t) event_timestamp =
     (let (w, g) = on_event (\<lambda>i. now (Suc i)) g event_timestamp;
          ev = as_i64 event_timestamp in
      if w \<noteq> None then (w, Time_periodic g t)
      else if tp_process_timestamp t = 0
      then (None, Time_periodic g
        (t\<lparr>tp_process_timestamp := as_i64 (now 0), tp_event_timestamp := ev\<rparr>))
      else if wrap_i64 (ev - tp_event_timestamp t) > tp_event_period t
      then let current = as_i64 (now 0);
               t' = t\<lparr>tp_process_timestamp := current, tp_event_timestamp := ev\<rparr> in
        if wrap_i64 (current - tp_process_timestamp t) < tp_process_period t
        then let (w, g) = on_periodic_emit (\<lambda>i. now (Suc i)) g in (w, Time_periodic g t')
        else (None, Time_periodic g t')
      else (None, Time_periodic g t))"
| "on_event now (With_idleness g t) event_timestamp =
     (let (w, g) = on_event now g event_timestamp in (w, With_idleness g (activity t)))"

section \<open>The strategy builder\<close>

record 'a watermark_strategy =
  ws_watermark_generator :: "generator option"
  ws_timestamp_assigner :: "'a option"

definition strategy_new :: "'a watermark_strategy" where
  "strategy_new = \<lparr>ws_watermark_generator = None, ws_timestamp_assigner = None\<rparr>"

definition for_bounded_out_of_orderness ::
    "u64 \<Rightarrow> 'a watermark_strategy \<Rightarrow> 'a watermark_strategy" where
  "for_bounded_out_of_orderness ooo s = s\<lparr>ws_watermark_generator := Some (bounded_new ooo)\<rparr>"

definition wrap_time_periodic ::
    "u64 \<Rightarrow> u64 \<Rightarrow> 'a watermark_strategy \<Rightarrow> 'a watermark_strategy res" where
  "wrap_time_periodic process_period event_period s = (case ws_watermark_generator s of
     Some watermarks \<Rightarrow> Inr (s\<lparr>ws_watermark_generator :=
       Some (time_periodic_new watermarks process_period event_period)\<rparr>)
   | None \<Rightarrow> Inl Explicit_panic)"

definition wrap_idleness :: "u64 \<Rightarrow> 'a watermark_strategy \<Rightarrow> 'a watermark_strategy res" where
  "wrap_idleness idle_timeout s = (case ws_watermark_generator s of
     Some watermarks \<Rightarrow> Inr (s\<lparr>ws_watermark_generator :=
       Some (with_idleness_new watermarks idle_timeout)\<rparr>)
   | None \<Rightarrow> Inl Explicit_panic)"

definition for_timestamp_assigner :: "'a \<Rightarrow> 'a watermark_strategy \<Rightarrow> 'a watermark_strategy" where
  "for_timestamp_assigner a s = s\<lparr>ws_timestamp_assigner := Some a\<rparr>"

definition create_watermark_generator ::
    "'a watermark_strategy \<Rightarrow> (generator \<times> 'a watermark_strategy) res" where
  "create_watermark_generator s =
     rbind (unwrap (ws_watermark_generator s)) (\<lambda>g. Inr (g, s\<lparr>ws_watermark_generator := None\<rparr>))"

definition create_timestamp_assigner ::
    "'a watermark_strategy \<Rightarrow> ('a \<times> 'a watermark_strategy) res" where
  "create_timestamp_assigner s =
     rbind (unwrap (ws_timestamp_assigner s)) (\<lambda>a. Inr (a, s\<lparr>ws_timestamp_assigner := None\<rparr>))"

section \<open>The operator\<close>

text \<open>
  \<open>wa_step\<close> numbers the elements processed: \<open>clock n\<close> is the clock during the \<open>n\<close>-th call.
\<close>

record 'g assigner =
  wa_operator_id :: operator_id
  wa_context :: "runnable_context option"
  wa_generator :: 'g
  wa_watermark :: u64
  wa_watermark_gauge :: int
  wa_expire_counter :: u64
  wa_step :: nat

text \<open>A generator as the operator sees it: its two callbacks.\<close>

record 'g generator_ops =
  g_on_event :: "clock \<Rightarrow> 'g \<Rightarrow> u64 \<Rightarrow> u64 option \<times> 'g"
  g_on_periodic_emit :: "clock \<Rightarrow> 'g \<Rightarrow> u64 option \<times> 'g"

definition assigner_new :: "operator_id \<Rightarrow> 'g \<Rightarrow> 'g assigner" where
  "assigner_new operator_id g = \<lparr>wa_operator_id = operator_id, wa_context = None,
     wa_generator = g, wa_watermark = MIN_WATERMARK, wa_watermark_gauge = 0,
     wa_expire_counter = 0, wa_step = 0\<rparr>"

definition assigner_open :: "'g assigner \<Rightarrow> runnable_context \<Rightarrow> 'g assigner" where
  "assigner_open s ctx =
     s\<lparr>wa_context := Some ctx, wa_watermark_gauge := 0, wa_expire_counter := 0\<rparr>"

definition update_watermark_progress :: "'g assigner \<Rightarrow> u64 \<Rightarrow> 'g assigner" where
  "update_watermark_progress s timestamp =
     (if timestamp > MAX_WATERMARK then s
      else s\<lparr>wa_watermark := timestamp, wa_watermark_gauge := as_i64 timestamp\<rparr>)"

definition assigner_checkpoint :: "snapshot_context \<Rightarrow> checkpoint" where
  "assigner_checkpoint sc = report sc None"

definition assigner_record ::
    "'g generator_ops \<Rightarrow> clock \<Rightarrow> (rlink_record \<Rightarrow> u64 res) \<Rightarrow> 'g assigner \<Rightarrow> rlink_record \<Rightarrow>
     ('g assigner \<times> action list) res" where
  "assigner_record G now extract_timestamp s record =
     rbind (extract_timestamp record) (\<lambda>timestamp.
     let record = record\<lparr>rec_timestamp := timestamp\<rparr>;
         (w, g) = g_on_event G now (wa_generator s) timestamp;
         s = s\<lparr>wa_generator := g\<rparr> in
     if rec_timestamp record < wa_watermark s
     then Inr (s\<lparr>wa_expire_counter := wa_expire_counter s + 1\<rparr>, [])
     else case w of
       None \<Rightarrow> Inr (s, [Emit (ERecord record)])
     | Some w \<Rightarrow> let s = update_watermark_progress s w in
         Inr (s, [Emit (ERecord record), Emit (new_watermark (wa_watermark s))]))"

definition assigner_status ::
    "'g generator_ops \<Rightarrow> clock \<Rightarrow> 'g assigner \<Rightarrow> stream_status \<Rightarrow> 'g assigner \<times> action list" where
  "assigner_status G now s stream_status =
     (if ss_end stream_status then (s, [Emit max_watermark, Emit (EStreamStatus stream_status)])
      else let (w, g) = g_on_periodic_emit G now (wa_generator s);
               w = (case w of None \<Rightarrow> MIN_WATERMARK | Some w \<Rightarrow> w);
               s = update_watermark_progress (s\<lparr>wa_generator := g\<rparr>) w in
        (s, [Emit (new_watermark (wa_watermark s)), Emit (EStreamStatus stream_status)]))"

fun assigner_run ::
    "'g generator_ops \<Rightarrow> (nat \<Rightarrow> clock) \<Rightarrow> (rlink_record \<Rightarrow> u64 res) \<Rightarrow> 'g assigner run" where
  "assigner_run G clock extract_timestamp s (ERecord record) =
     rbind (assigner_record G (clock (wa_step s)) extract_timestamp s record) (\<lambda>(s, acts).
       Inr (s\<lparr>wa_step := Suc (wa_step s)\<rparr>, acts))"
| "assigner_run G clock extract_timestamp s (EStreamStatus stream_status) =
     (let (s, acts) = assigner_status G (clock (wa_step s)) s stream_status in
      Inr (s\<lparr>wa_step := Suc (wa_step s)\<rparr>, acts))"
| "assigner_run G clock extract_timestamp s (EBarrier barrier) =
     rbind (unwrap (wa_context s)) (\<lambda>context.
       Inr (s\<lparr>wa_step := Suc (wa_step s)\<rparr>, [Submit (assigner_checkpoint
           (checkpoint_context context (wa_operator_id s) (b_checkpoint_id barrier) None)),
         Emit (EBarrier barrier)]))"
| "assigner_run G clock extract_timestamp s (EWatermark watermark) =
     Inr (s\<lparr>wa_step := Suc (wa_step s)\<rparr>, [Emit (EWatermark watermark)])"

definition built_in :: "generator generator_ops" where
  "built_in = \<lparr>g_on_event = on_event, g_on_periodic_emit = on_periodic_emit\<rparr>"

section \<open>The contract of a generator\<close>

text \<open>
  A generator has a level, the watermark it stands for: no callback lowers it, what it
  emits is its level or a value above \<open>MAX_WATERMARK\<close> (idle), and a periodic call always
  emits.
\<close>

locale watermark_generator =
  fixes G :: "'g generator_ops" and level :: "'g \<Rightarrow> u64"
  assumes event_level: "g_on_event G now g ts = (w, g') \<Longrightarrow> level g \<le> level g'"
    and event_emits: "g_on_event G now g ts = (Some x, g') \<Longrightarrow> x = level g' \<or> MAX_WATERMARK < x"
    and periodic_level: "g_on_periodic_emit G now g = (w, g') \<Longrightarrow> level g' = level g"
    and periodic_emits: "g_on_periodic_emit G now g = (w, g') \<Longrightarrow>
      \<exists>x. w = Some x \<and> (x = level g \<or> MAX_WATERMARK < x)"

text \<open>A stream in which no record is older than the watermarks before it, which never fall.\<close>

fun in_order :: "u64 \<Rightarrow> element list \<Rightarrow> bool" where
  "in_order w [] \<longleftrightarrow> True"
| "in_order w (ERecord r # es) \<longleftrightarrow> w \<le> rec_timestamp r \<and> in_order w es"
| "in_order w (EWatermark x # es) \<longleftrightarrow> w \<le> wm_timestamp x \<and> in_order (wm_timestamp x) es"
| "in_order w (e # es) \<longleftrightarrow> in_order w es"

fun last_watermark :: "u64 \<Rightarrow> element list \<Rightarrow> u64" where
  "last_watermark w [] = w"
| "last_watermark w (EWatermark x # es) = last_watermark (wm_timestamp x) es"
| "last_watermark w (e # es) = last_watermark w es"

lemma in_order_append:
  "in_order w (xs @ ys) \<longleftrightarrow> in_order w xs \<and> in_order (last_watermark w xs) ys"
  by (induction w xs rule: in_order.induct) auto

text \<open>What an assigner gets before its stream ends: everything but watermarks and the end.\<close>

fun live :: "element \<Rightarrow> bool" where
  "live (EStreamStatus ss) \<longleftrightarrow> \<not> ss_end ss"
| "live (EWatermark _) \<longleftrightarrow> False"
| "live _ \<longleftrightarrow> True"

lemma new_watermark_ts [simp]: "wm_timestamp (watermark_new t) = t"
  by (simp add: watermark_new_def)

context watermark_generator
begin

definition assigner_inv :: "'g assigner \<Rightarrow> bool" where
  "assigner_inv s \<longleftrightarrow> wa_watermark s \<le> level (wa_generator s) \<and> wa_watermark s \<le> MAX_WATERMARK"

lemma update_watermark_level:
  assumes "wa_watermark s \<le> level (wa_generator s)" "wa_watermark s \<le> MAX_WATERMARK"
    and "x = level (wa_generator s) \<or> MAX_WATERMARK < x"
  shows "assigner_inv (update_watermark_progress s x)
     \<and> wa_watermark s \<le> wa_watermark (update_watermark_progress s x)"
  using assms by (auto simp: assigner_inv_def update_watermark_progress_def not_less)

lemma assigner_record_step:
  assumes "assigner_inv s" "assigner_record G now ex s r = Inr (s', acts)"
  shows "assigner_inv s' \<and> in_order (wa_watermark s) (emitted acts)
     \<and> last_watermark (wa_watermark s) (emitted acts) = wa_watermark s'"
proof -
  from assms(2) obtain ts where ts: "ex r = Inr ts"
    by (auto simp: assigner_record_def rbind_eq_Inr)
  obtain w g where g: "g_on_event G now (wa_generator s) ts = (w, g)" by fastforce
  let ?s = "s\<lparr>wa_generator := g\<rparr>"
  have i: "wa_watermark ?s \<le> level (wa_generator ?s)" "wa_watermark ?s \<le> MAX_WATERMARK"
    using assms(1) event_level[OF g] by (auto simp: assigner_inv_def)
  show ?thesis
  proof (cases w)
    case None
    then show ?thesis
      using assms(2) ts g i
      by (auto simp: assigner_record_def assigner_inv_def Let_def split: if_splits)
  next
    case (Some x)
    have "x = level (wa_generator ?s) \<or> MAX_WATERMARK < x"
      using event_emits[of now "wa_generator s" ts x g] g Some by simp
    from update_watermark_level[OF i this] show ?thesis
      using assms(2) ts g i Some
      by (auto simp: assigner_record_def assigner_inv_def new_watermark_def Let_def
          split: if_splits)
  qed
qed

lemma assigner_status_step:
  assumes "assigner_inv s" "\<not> ss_end ss" "assigner_status G now s ss = (s', acts)"
  shows "assigner_inv s' \<and> in_order (wa_watermark s) (emitted acts)
     \<and> last_watermark (wa_watermark s) (emitted acts) = wa_watermark s'"
proof -
  obtain w g where g: "g_on_periodic_emit G now (wa_generator s) = (w, g)" by fastforce
  from periodic_emits[OF g] obtain x where
    x: "w = Some x" "x = level (wa_generator s) \<or> MAX_WATERMARK < x" by blast
  let ?s = "s\<lparr>wa_generator := g\<rparr>"
  have "wa_watermark ?s \<le> level (wa_generator ?s)" "wa_watermark ?s \<le> MAX_WATERMARK"
    "x = level (wa_generator ?s) \<or> MAX_WATERMARK < x"
    using assms(1) periodic_level[OF g] x(2) by (auto simp: assigner_inv_def)
  from update_watermark_level[OF this] show ?thesis
    using assms(2,3) g x(1) by (auto simp: assigner_status_def new_watermark_def Let_def)
qed

lemma assigner_run_step:
  assumes "assigner_inv s" "live e" "assigner_run G clock ex s e = Inr (s', acts)"
  shows "assigner_inv s' \<and> in_order (wa_watermark s) (emitted acts)
     \<and> last_watermark (wa_watermark s) (emitted acts) = wa_watermark s'"
proof (cases e)
  case (ERecord r)
  then show ?thesis
    using assms assigner_record_step[OF assms(1)]
    by (auto simp: rbind_eq_Inr assigner_inv_def)
next
  case (EStreamStatus ss)
  then show ?thesis
    using assms assigner_status_step[OF assms(1)]
    by (auto simp: assigner_inv_def split: prod.splits)
qed (use assms in \<open>auto simp: rbind_eq_Inr assigner_inv_def\<close>)

lemma assigner_run_all:
  "assigner_inv s \<Longrightarrow> list_all live es \<Longrightarrow> run_all (assigner_run G clock ex) s es = Inr (s', acts) \<Longrightarrow>
   assigner_inv s' \<and> in_order (wa_watermark s) (emitted acts)
     \<and> last_watermark (wa_watermark s) (emitted acts) = wa_watermark s'"
proof (induction es arbitrary: s s' acts)
  case Nil
  then show ?case by simp
next
  case (Cons e es)
  then obtain s1 a1 a2 where r: "assigner_run G clock ex s e = Inr (s1, a1)"
    "run_all (assigner_run G clock ex) s1 es = Inr (s', a2)" "acts = a1 @ a2"
    by (auto simp: rbind_eq_Inr)
  from assigner_run_step[OF Cons.prems(1) _ r(1)] Cons.prems(2)
  have "assigner_inv s1" "in_order (wa_watermark s) (emitted a1)"
    "last_watermark (wa_watermark s) (emitted a1) = wa_watermark s1" by auto
  moreover have "last_watermark w (xs @ ys) = last_watermark (last_watermark w xs) ys" for w xs ys
    by (induction w xs rule: last_watermark.induct) auto
  ultimately show ?case
    using Cons.IH[OF _ _ r(2)] Cons.prems(2) r(3) by (simp add: in_order_append)
qed

lemma assigner_inv_new: "assigner_inv (assigner_new opid g)"
  by (simp add: assigner_inv_def assigner_new_def MIN_WATERMARK_def)

lemma assigner_inv_open: "assigner_inv s \<Longrightarrow> assigner_inv (assigner_open s ctx)"
  by (simp add: assigner_inv_def assigner_open_def)

end

section \<open>The built-in generators\<close>

fun level :: "generator \<Rightarrow> u64" where
  "level (Bounded_ooo b) = bounded_watermark b"
| "level (Time_periodic g t) = level g"
| "level (With_idleness g t) = level g"

text \<open>The largest timestamp the innermost generator has seen, and its out-of-orderness.\<close>

fun base :: "generator \<Rightarrow> bounded_out_of_orderness" where
  "base (Bounded_ooo b) = b"
| "base (Time_periodic g t) = base g"
| "base (With_idleness g t) = base g"

lemma level_base: "level g = bounded_watermark (base g)"
  by (induction g) auto

lemma base_periodic: "base (snd (on_periodic_emit now g)) = base g"
  by (induction now g rule: on_periodic_emit.induct) (auto simp: Let_def split: prod.splits)

lemma base_event:
  "base (snd (on_event now g ts)) =
     (base g)\<lparr>bo_max_timestamp := max (bo_max_timestamp (base g)) ts\<rparr>"
proof (induction now g ts rule: on_event.induct)
  case (2 now g t ts)
  then show ?case
    using base_periodic[of "\<lambda>i. now (Suc i)" "snd (on_event (\<lambda>i. now (Suc i)) g ts)"]
    by (auto simp: Let_def split: prod.splits)
qed (auto simp: max_def bounded_on_event_def split: prod.splits)

lemma bounded_watermark_mono:
  "m \<le> m' \<Longrightarrow> bounded_watermark \<lparr>bo_max_timestamp = m, bo_out_of_orderness_millis = o'\<rparr>
     \<le> bounded_watermark \<lparr>bo_max_timestamp = m', bo_out_of_orderness_millis = o'\<rparr>"
  unfolding bounded_watermark_def MIN_WATERMARK_def by simp uint_arith

lemma bounded_watermark_le:
  assumes "unat (bo_max_timestamp b) \<le> unat ts + unat (bo_out_of_orderness_millis b)"
  shows "bounded_watermark b \<le> ts"
proof (cases "bo_out_of_orderness_millis b < bo_max_timestamp b")
  case True
  then have d: "unat (bo_max_timestamp b - bo_out_of_orderness_millis b)
      = unat (bo_max_timestamp b) - unat (bo_out_of_orderness_millis b)"
    by (simp add: unat_sub)
  with True have "1 \<le> bo_max_timestamp b - bo_out_of_orderness_millis b"
    by (simp add: word_le_nat_alt word_less_nat_alt)
  then have "unat (bo_max_timestamp b - bo_out_of_orderness_millis b - 1)
      = unat (bo_max_timestamp b) - unat (bo_out_of_orderness_millis b) - 1"
    by (simp add: unat_sub d)
  then show ?thesis
    using True assms by (simp add: bounded_watermark_def word_le_nat_alt)
qed (simp add: bounded_watermark_def MIN_WATERMARK_def)

lemma level_event: "level g \<le> level (snd (on_event now g ts))"
  using bounded_watermark_mono[of "bo_max_timestamp (base g)" "max (bo_max_timestamp (base g)) ts"
      "bo_out_of_orderness_millis (base g)"]
  by (cases "base g") (simp add: level_base base_event)

lemma periodic_emits_level:
  "\<exists>x. fst (on_periodic_emit now g) = Some x \<and> (x = level g \<or> MAX_WATERMARK < x)"
  by (induction now g rule: on_periodic_emit.induct)
    (auto simp: Let_def IDLE_WATERMARK_def MAX_WATERMARK_def split: prod.splits)

lemma event_emits_level:
  "fst (on_event now g ts) = Some x \<Longrightarrow> x = level (snd (on_event now g ts)) \<or> MAX_WATERMARK < x"
proof (induction now g ts arbitrary: x rule: on_event.induct)
  case (2 now g t ts)
  let ?r = "on_event (\<lambda>i. now (Suc i)) g ts"
  let ?p = "on_periodic_emit (\<lambda>i. now (Suc i)) (snd ?r)"
  have "level (snd ?p) = level (snd ?r)"
    by (simp add: level_base base_periodic)
  moreover obtain y where "fst ?p = Some y" "y = level (snd ?r) \<or> MAX_WATERMARK < y"
    using periodic_emits_level by blast
  ultimately show ?case
    using 2 by (cases ?r; cases ?p) (auto simp: Let_def split: if_splits)
qed (auto split: prod.splits)

interpretation built_in: watermark_generator built_in level
proof
  fix now g ts and w :: "u64 option" and g' x
  show "g_on_event built_in now g ts = (w, g') \<Longrightarrow> level g \<le> level g'"
    using level_event[of g now ts] by (simp add: built_in_def)
  show "g_on_event built_in now g ts = (Some x, g') \<Longrightarrow> x = level g' \<or> MAX_WATERMARK < x"
    using event_emits_level[of now g ts x] by (simp add: built_in_def)
  show "g_on_periodic_emit built_in now g = (w, g') \<Longrightarrow> level g' = level g"
    using base_periodic[of now g] by (simp add: built_in_def level_base)
  show "g_on_periodic_emit built_in now g = (w, g') \<Longrightarrow>
      \<exists>x. w = Some x \<and> (x = level g \<or> MAX_WATERMARK < x)"
    using periodic_emits_level[of now g] by (auto simp: built_in_def)
qed

text \<open>Every record of a stream reaches the generator, so its maximum is the stream's.\<close>

fun timestamps :: "(rlink_record \<Rightarrow> u64 res) \<Rightarrow> element list \<Rightarrow> u64 list" where
  "timestamps ex [] = []"
| "timestamps ex (ERecord r # es) = (case ex r of Inr t \<Rightarrow> [t] | Inl _ \<Rightarrow> []) @ timestamps ex es"
| "timestamps ex (e # es) = timestamps ex es"

lemma update_watermark_generator [simp]:
  "wa_generator (update_watermark_progress s x) = wa_generator s"
  by (simp add: update_watermark_progress_def)

lemma assigner_record_generator:
  assumes "assigner_record G now ex s r = Inr (s', acts)"
  shows "\<exists>ts. ex r = Inr ts \<and> wa_generator s' = snd (g_on_event G now (wa_generator s) ts)"
  using assms
  by (cases "ex r")
    (auto simp: assigner_record_def Let_def split: prod.splits if_splits option.splits)

lemma base_run_step:
  assumes "assigner_run built_in clock ex s e = Inr (s', acts)"
  shows "base (wa_generator s') = (base (wa_generator s))\<lparr>bo_max_timestamp :=
    fold max (timestamps ex [e]) (bo_max_timestamp (base (wa_generator s)))\<rparr>"
proof (cases e)
  case (ERecord r)
  then show ?thesis
    using assms assigner_record_generator[of built_in "clock (wa_step s)" ex s r]
      base_event[of "clock (wa_step s)" "wa_generator s"]
    by (auto simp: rbind_eq_Inr built_in_def max.commute)
next
  case (EStreamStatus ss)
  then show ?thesis
    using assms base_periodic[of "clock (wa_step s)" "wa_generator s"]
    by (auto simp: assigner_status_def built_in_def Let_def split: prod.splits if_splits)
qed (use assms in \<open>auto simp: rbind_eq_Inr\<close>)

lemma timestamps_Cons: "timestamps ex (e # es) = timestamps ex [e] @ timestamps ex es"
  by (cases e) auto

lemma base_run_all:
  "run_all (assigner_run built_in clock ex) s es = Inr (s', acts) \<Longrightarrow>
   base (wa_generator s') = (base (wa_generator s))\<lparr>bo_max_timestamp :=
    fold max (timestamps ex es) (bo_max_timestamp (base (wa_generator s)))\<rparr>"
proof (induction es arbitrary: s s' acts)
  case Nil
  then show ?case by simp
next
  case (Cons e es)
  then obtain s1 a1 a2 where r: "assigner_run built_in clock ex s e = Inr (s1, a1)"
    "run_all (assigner_run built_in clock ex) s1 es = Inr (s', a2)"
    by (auto simp: rbind_eq_Inr)
  then show ?case
    using base_run_step[OF r(1)] Cons.IH[OF r(2)]
    by (subst timestamps_Cons) simp
qed

section \<open>Properties\<close>

text \<open>
  C19: Watermarks and late records.  For any generator with the contract and any clock, an
  operator that starts at the minimum and processes a stream of records, barriers and
  non-final status events emits a stream in which watermarks never fall and no record is
  older than a watermark emitted before it.
\<close>

theorem assigner_in_order:
  assumes "watermark_generator G level" "list_all live es"
    and "run_all (assigner_run G clock ex) (assigner_open (assigner_new opid g) ctx) es
      = Inr (s', acts)"
  shows "in_order MIN_WATERMARK (emitted acts)"
  using watermark_generator.assigner_run_all[OF assms(1)
      watermark_generator.assigner_inv_open[OF assms(1) watermark_generator.assigner_inv_new[OF assms(1)]]
      assms(2,3)]
  by (simp add: assigner_new_def assigner_open_def)

definition two_records :: "element list" where
  "two_records = [ERecord (record_new\<lparr>rec_timestamp := 100\<rparr>), new_stream_status 0 False,
     ERecord (record_new\<lparr>rec_timestamp := 80\<rparr>), ERecord (record_new\<lparr>rec_timestamp := 95\<rparr>)]"

text \<open>
  With an out-of-orderness of 10, the record of time 80 after the watermark 89 is late.
\<close>

theorem assigner_in_order_witness:
  "map (\<lambda>e. case e of ERecord r \<Rightarrow> Inl (rec_timestamp r) | EWatermark w \<Rightarrow> Inr (wm_timestamp w)
        | _ \<Rightarrow> Inr 0)
     (emitted (snd (projr (run_all (assigner_run built_in (\<lambda>n i. of_nat n) (\<lambda>r. Inr (rec_timestamp r)))
        (assigner_open (assigner_new (OperatorId 1) (bounded_new 10)) a_context) two_records))))
   = [Inl 100, Inr 89, Inr 0, Inl 95]
   \<and> in_order MIN_WATERMARK
     (emitted (snd (projr (run_all (assigner_run built_in (\<lambda>n i. of_nat n) (\<lambda>r. Inr (rec_timestamp r)))
        (assigner_open (assigner_new (OperatorId 1) (bounded_new 10)) a_context) two_records))))"
  using assigner_in_order[OF built_in.watermark_generator_axioms, of two_records
      "\<lambda>n i. of_nat n" "\<lambda>r. Inr (rec_timestamp r)" "OperatorId 1" "bounded_new 10" a_context]
  by (simp add: two_records_def new_stream_status_def stream_status_new_def record_new_def
      assigner_record_def assigner_status_def assigner_new_def assigner_open_def built_in_def
      bounded_new_def bounded_on_event_def bounded_watermark_def new_watermark_def update_watermark_progress_def
      MIN_WATERMARK_def MAX_WATERMARK_def Let_def)

text \<open>
  C20: No record within the allowed lateness is lost.  With the built-in generators, however
  wrapped, and any clock: a record that is at most the out-of-orderness behind every record
  before it is not dropped by the operator but emitted.
\<close>

theorem within_lateness_kept:
  assumes "bo_max_timestamp (base g) = 0" "list_all live es"
    and "run_all (assigner_run built_in clock ex) (assigner_open (assigner_new opid g) ctx) es
      = Inr (s, acts)"
    and "ex r = Inr ts"
    and "list_all (\<lambda>t. unat t \<le> unat ts + unat (bo_out_of_orderness_millis (base g))) (timestamps ex es)"
  shows "\<exists>s' acts'. assigner_run built_in clock ex s (ERecord r) = Inr (s', acts')
     \<and> ERecord (r\<lparr>rec_timestamp := ts\<rparr>) \<in> set (emitted acts')"
proof -
  let ?o = "bo_out_of_orderness_millis (base g)"
  let ?m = "bo_max_timestamp (base (wa_generator s))"
  have m: "?m = fold max (timestamps ex es) 0" and o: "bo_out_of_orderness_millis (base (wa_generator s)) = ?o"
    using base_run_all[OF assms(3)] assms(1) by (simp_all add: assigner_open_def assigner_new_def)
  have "unat (fold max ts' t0) \<le> b" if "unat t0 \<le> b" "list_all (\<lambda>t. unat t \<le> b) ts'"
    for ts' and t0 :: u64 and b
    using that by (induction ts' arbitrary: t0) (auto simp: max_def)
  from this[of 0 "unat ts + unat ?o" "timestamps ex es"] assms(5)
  have le: "unat ?m \<le> unat ts + unat ?o" by (simp add: m)
  have "wa_watermark s \<le> bounded_watermark (base (wa_generator s))"
    using built_in.assigner_run_all[OF built_in.assigner_inv_open[OF built_in.assigner_inv_new]
        assms(2,3)] by (simp add: built_in.assigner_inv_def level_base)
  moreover have "bounded_watermark (base (wa_generator s)) \<le> ts"
    using le o by (intro bounded_watermark_le) simp
  ultimately have "\<not> ts < wa_watermark s" by simp
  then show ?thesis
    using assms(4)
    by (auto simp: assigner_record_def Let_def split: prod.splits option.splits)
qed

theorem within_lateness_kept_witness:
  "\<exists>s' acts'. assigner_run built_in (\<lambda>n i. of_nat n) (\<lambda>r. Inr (rec_timestamp r))
      (fst (projr (run_all (assigner_run built_in (\<lambda>n i. of_nat n) (\<lambda>r. Inr (rec_timestamp r)))
        (assigner_open (assigner_new (OperatorId 1) (bounded_new 10)) a_context) two_records)))
      (ERecord (record_new\<lparr>rec_timestamp := 90\<rparr>)) = Inr (s', acts')
    \<and> ERecord (record_new\<lparr>rec_timestamp := 90\<rparr>) \<in> set (emitted acts')"
proof -
  let ?run = "run_all (assigner_run built_in (\<lambda>n i. of_nat n) (\<lambda>r. Inr (rec_timestamp r)))
        (assigner_open (assigner_new (OperatorId 1) (bounded_new 10)) a_context) two_records"
  have "isl ?run = False"
    by (simp add: two_records_def new_stream_status_def stream_status_new_def record_new_def
        assigner_record_def assigner_status_def assigner_new_def assigner_open_def built_in_def
        bounded_new_def bounded_on_event_def bounded_watermark_def new_watermark_def update_watermark_progress_def
        MIN_WATERMARK_def MAX_WATERMARK_def Let_def)
  then have "?run = Inr (fst (projr ?run), snd (projr ?run))"
    by (cases ?run) auto
  from within_lateness_kept[OF _ _ this, of "record_new\<lparr>rec_timestamp := 90\<rparr>" 90] show ?thesis
    by (simp add: bounded_new_def two_records_def new_stream_status_def stream_status_new_def
        record_new_def)
qed

end
