(* ===== verification/Source_Align.thy ===== *)
theory Source_Align
  imports Watermark_Gen
begin

text \<open>
  The head of a task (\<open>runtime/worker/runnable/source_runnable.rs\<close>): it merges the streams
  of all parent tasks.  \<open>AlignManager\<close> counts barriers and status events until every parent
  has sent them, \<open>WatermarkManager\<close> forwards the minimum of the parents' watermarks, and the
  loop of \<open>run\<close> ties them together and detects the end of the stream.
\<close>

section \<open>Alignment of barriers and status events\<close>

record align_manager =
  am_parent_execution_size :: nat
  am_batch_id :: u64
  am_reached_size :: nat

definition align_new :: "nat \<Rightarrow> align_manager" where
  "align_new n = \<lparr>am_parent_execution_size = n, am_batch_id = 0, am_reached_size = 0\<rparr>"

definition align_apply :: "align_manager \<Rightarrow> u64 \<Rightarrow> (bool \<times> align_manager) res" where
  "align_apply m batch_id =
     (if am_parent_execution_size m = 0 then Inr (True, m)
      else if am_batch_id m = batch_id
      then let m = m\<lparr>am_reached_size := am_reached_size m + 1\<rparr> in
        if am_reached_size m > am_parent_execution_size m then Inl Unreachable
        else Inr (am_reached_size m = am_parent_execution_size m, m)
      else if am_batch_id m < batch_id
      then let m = m\<lparr>am_batch_id := batch_id, am_reached_size := 1\<rparr> in
        Inr (am_reached_size m = am_parent_execution_size m, m)
      else Inr (False, m))"

section \<open>Minimum watermark of the parents\<close>

record parent_watermark =
  pw_latest_watermark :: "watermark option"
  pw_is_dependency :: bool

definition update_watermark :: "parent_watermark \<Rightarrow> watermark \<Rightarrow> parent_watermark" where
  "update_watermark p w = (case pw_latest_watermark p of
     Some l \<Rightarrow>
       if wm_timestamp w > MAX_WATERMARK then p\<lparr>pw_latest_watermark := Some w\<rparr>
       else if wm_timestamp w \<ge> wm_timestamp l then p\<lparr>pw_latest_watermark := Some w\<rparr>
       else p
   | None \<Rightarrow> p\<lparr>pw_latest_watermark := Some w\<rparr>)"

type_synonym watermark_manager = "(job_id, parent_watermark list) hmap"

definition watermark_manager_new :: "(job_id, bool list) hmap \<Rightarrow> watermark_manager" where
  "watermark_manager_new parent_jobs = map (\<lambda>(job_id, tasks).
     (job_id, map (\<lambda>x. \<lparr>pw_latest_watermark = None, pw_is_dependency = x\<rparr>) tasks)) parent_jobs"

text \<open>
  The scan for the minimum: the placeholders are skipped, a parent without a watermark ends
  it; \<open>Inl ()\<close> is that early return.
\<close>

fun min_scan :: "parent_watermark list \<Rightarrow> watermark option \<Rightarrow> unit + watermark option" where
  "min_scan [] acc = Inr acc"
| "min_scan (p # ps) acc =
     (if \<not> pw_is_dependency p then min_scan ps acc
      else case pw_latest_watermark p of
        Some w \<Rightarrow> (case acc of
            Some m \<Rightarrow> min_scan ps (if wm_timestamp w < wm_timestamp m then Some w else acc)
          | None \<Rightarrow> min_scan ps (Some w))
      | None \<Rightarrow> Inl ())"

definition min_watermark ::
    "(watermark_manager \<Rightarrow> watermark_manager) \<Rightarrow> watermark_manager \<Rightarrow> watermark option" where
  "min_watermark it m = (case min_scan (concat (map snd (it m))) None of
     Inl _ \<Rightarrow> None | Inr w \<Rightarrow> w)"

definition watermark_apply ::
    "(watermark_manager \<Rightarrow> watermark_manager) \<Rightarrow> watermark_manager \<Rightarrow> watermark \<Rightarrow>
     (watermark option \<times> watermark_manager) res" where
  "watermark_apply it m w =
     (if m = [] then Inr (Some w, m)
      else let source = source_task_id (wm_channel_key w) in
        case map_of m (t_job_id source) of
          Some watermarks \<Rightarrow>
            (let task_number = unat (t_task_number source) in
             if task_number \<ge> length watermarks then Inl Explicit_panic
             else if \<not> pw_is_dependency (watermarks ! task_number) then Inl Explicit_panic
             else let m = AList.update (t_job_id source)
                    (watermarks[task_number := update_watermark (watermarks ! task_number) w]) m
               in Inr (min_watermark it m, m))
        | None \<Rightarrow> Inl Explicit_panic)"

definition watermark_job_check :: "watermark_manager \<Rightarrow> stream_status \<Rightarrow> watermark_manager res" where
  "watermark_job_check m s =
     (let source = source_task_id (ss_channel_key s) in
      rbind (case map_of m (t_job_id source) of
          Some watermarks \<Rightarrow>
            (let task_number = unat (t_task_number source) in
             if task_number \<ge> length watermarks then Inl Explicit_panic
             else Inr (pw_latest_watermark (watermarks ! task_number) = None))
        | None \<Rightarrow> Inr False) (\<lambda>non_watermark_job.
      Inr (if non_watermark_job then AList.delete (t_job_id source) m else m)))"

section \<open>The operator\<close>

record 'f source_operator = "'f operator" +
  so_waiting_end_flags :: nat
  so_barrier_alignment :: align_manager
  so_stream_status_alignment :: align_manager
  so_watermark_manager :: watermark_manager
  so_counter :: u64
  so_end_flags :: nat
  so_reported_end :: nat

text \<open>
  \<open>open\<close>: how many end flags to wait for and which tasks of which parent jobs this task
  reads; \<open>parents\<close> are the parent executions of the task.
\<close>

fun collect_parents :: "task_id list \<Rightarrow> (job_id, bool list) hmap \<Rightarrow> (job_id, bool list) hmap res" where
  "collect_parents [] m = Inr m"
| "collect_parents (p # ps) m =
     (let tasks = (case map_of m (t_job_id p) of
         Some tasks \<Rightarrow> tasks | None \<Rightarrow> replicate (unat (t_num_tasks p)) False) in
      if unat (t_task_number p) < length tasks
      then collect_parents ps (AList.update (t_job_id p) (tasks[unat (t_task_number p) := True]) m)
      else Inl Index_out_of_bounds)"

definition source_open ::
    "'f checkpoint_fn \<Rightarrow> task_id list \<Rightarrow> 'f source_operator \<Rightarrow> runnable_context \<Rightarrow>
     string failure + 'f source_operator" where
  "source_open F parents s ctx =
     rbind (case fn_open F (o_fn s) ctx of Inl e \<Rightarrow> Inl (Failed e) | Inr f \<Rightarrow> Inr f) (\<lambda>f.
     rbind (lift_panic (collect_parents parents [])) (\<lambda>parent_jobs.
       Inr (s\<lparr>o_context := Some ctx, o_fn := f,
         so_waiting_end_flags := (if length parents = 0 then 1 else length parents),
         so_barrier_alignment := align_new (length parents),
         so_stream_status_alignment := align_new (length parents),
         so_watermark_manager := watermark_manager_new parent_jobs,
         so_counter := 0, so_end_flags := 0\<rparr>)))"

definition source_checkpoint ::
    "'f checkpoint_fn \<Rightarrow> 'f source_operator \<Rightarrow> snapshot_context \<Rightarrow> checkpoint \<times> 'f source_operator" where
  "source_checkpoint F s sc =
     (let (h, f) = fn_snapshot F (o_fn s) sc in (report sc h, s\<lparr>o_fn := f\<rparr>))"

text \<open>The body of the loop in \<open>run\<close>, for one element of the input.\<close>

fun source_run ::
    "(watermark_manager \<Rightarrow> watermark_manager) \<Rightarrow> 'f checkpoint_fn \<Rightarrow> 'f source_operator run" where
  "source_run it F s (ERecord r) =
     Inr (s\<lparr>so_counter := so_counter s + 1\<rparr>, [Emit (ERecord r)])"
| "source_run it F s (EBarrier barrier) =
     rbind (align_apply (so_barrier_alignment s) (ck_num (b_checkpoint_id barrier))) (\<lambda>(aligned, m).
     let s = s\<lparr>so_barrier_alignment := m\<rparr> in
     if aligned then
       rbind (unwrap (o_context s)) (\<lambda>context.
       let (ck, s) = source_checkpoint F s
             (checkpoint_context context (o_operator_id s) (b_checkpoint_id barrier) None) in
       Inr (s, [Submit ck, Emit (EBarrier barrier)]))
     else Inr (s, []))"
| "source_run it F s (EWatermark w) =
     rbind (watermark_apply it (so_watermark_manager s) w) (\<lambda>(min_w, m).
     let s = s\<lparr>so_watermark_manager := m\<rparr> in
     case min_w of
       Some x \<Rightarrow> Inr (s, [Emit (EWatermark x)])
     | None \<Rightarrow> Inr (s, []))"
| "source_run it F s (EStreamStatus status) =
     (let s = (if ss_end status then s\<lparr>so_end_flags := so_end_flags s + 1\<rparr> else s);
          parent_job_terminated = (ss_end status \<and> so_end_flags s \<ge> so_waiting_end_flags s) in
      rbind (watermark_job_check (so_watermark_manager s) status) (\<lambda>wm.
      rbind (align_apply (so_stream_status_alignment s) (ss_timestamp status)) (\<lambda>(aligned, m).
      let s = s\<lparr>so_watermark_manager := wm, so_stream_status_alignment := m\<rparr>;
          s = (if parent_job_terminated then s\<lparr>so_reported_end := so_reported_end s + 1\<rparr> else s) in
      Inr (s, if aligned
        then [Emit (new_stream_status (ss_timestamp status) parent_job_terminated)] else []))))"

section \<open>Alignment counts\<close>

text \<open>A sequence of batch ids through the manager: the ids for which it reported alignment.\<close>

fun align_all :: "align_manager \<Rightarrow> u64 list \<Rightarrow> (u64 list \<times> align_manager) res" where
  "align_all m [] = Inr ([], m)"
| "align_all m (b # bs) = rbind (align_apply m b) (\<lambda>(aligned, m).
     rbind (align_all m bs) (\<lambda>(as, m). Inr ((if aligned then [b] else []) @ as, m)))"

text \<open>
  After the ids \<open>past\<close>, of which \<open>done\<close> were reported: the current batch has been counted at
  most as often as it occurred, reported ids are not above it, and the current one is
  reported only when it is full.
\<close>

definition align_inv :: "nat \<Rightarrow> u64 list \<Rightarrow> u64 list \<Rightarrow> align_manager \<Rightarrow> bool" where
  "align_inv n past reported_ids m \<longleftrightarrow> am_parent_execution_size m = n
     \<and> am_reached_size m \<le> count_list past (am_batch_id m)
     \<and> (\<forall>b\<in>set reported_ids. b < am_batch_id m \<or> b = am_batch_id m \<and> am_reached_size m = n)
     \<and> sorted_wrt (<) reported_ids"

lemma align_inv_step:
  assumes "align_inv n past ids m" "0 < n" "count_list (past @ [b]) b \<le> n"
  shows "\<exists>aligned m'. align_apply m b = Inr (aligned, m')
     \<and> align_inv n (past @ [b]) (ids @ (if aligned then [b] else [])) m'"
proof -
  consider "b = am_batch_id m" | "am_batch_id m < b" | "b < am_batch_id m" by fastforce
  then show ?thesis
  proof cases
    case 1
    have "am_reached_size m + 1 \<le> n"
      using assms 1 by (simp add: align_inv_def)
    then show ?thesis
      using assms 1 by (auto simp: align_apply_def align_inv_def sorted_wrt_append Let_def)
  next
    case 2
    then show ?thesis
      using assms by (force simp: align_apply_def align_inv_def sorted_wrt_append Let_def)
  next
    case 3
    then have "\<not> am_batch_id m < b" "am_batch_id m \<noteq> b" by auto
    then show ?thesis
      using assms by (auto simp: align_apply_def align_inv_def)
  qed
qed

lemma count_list_append_le: "count_list xs b \<le> count_list (xs @ ys) b"
  by simp

lemma align_all_inv:
  "align_inv n past ids m \<Longrightarrow> 0 < n \<Longrightarrow> (\<And>b. count_list (past @ bs) b \<le> n) \<Longrightarrow>
   \<exists>as m'. align_all m bs = Inr (as, m') \<and> align_inv n (past @ bs) (ids @ as) m'"
proof (induction bs arbitrary: past ids m)
  case Nil
  then show ?case by simp
next
  case (Cons b bs)
  have "count_list (past @ [b]) b \<le> n"
    using Cons.prems(3)[of b] by simp
  from align_inv_step[OF Cons.prems(1,2) this] obtain aligned m1 where
    m1: "align_apply m b = Inr (aligned, m1)"
      "align_inv n (past @ [b]) (ids @ (if aligned then [b] else [])) m1" by blast
  have "\<And>x. count_list ((past @ [b]) @ bs) x \<le> n" using Cons.prems(3) by simp
  from Cons.IH[OF m1(2) Cons.prems(2) this] m1(1) show ?case by auto
qed

lemma align_fill:
  "0 < n \<Longrightarrow> r + k \<le> n \<Longrightarrow>
   align_all \<lparr>am_parent_execution_size = n, am_batch_id = b, am_reached_size = r\<rparr> (replicate k b) =
     Inr (if r + k = n \<and> 0 < k then [b] else [],
       \<lparr>am_parent_execution_size = n, am_batch_id = b, am_reached_size = r + k\<rparr>)"
proof (induction k arbitrary: r)
  case 0
  then show ?case by simp
next
  case (Suc k)
  then show ?case
    using Suc.IH[of "Suc r"] by (auto simp: align_apply_def)
qed

lemma align_all_append:
  "align_all m (xs @ ys) = rbind (align_all m xs) (\<lambda>(as, m).
     rbind (align_all m ys) (\<lambda>(bs, m). Inr (as @ bs, m)))"
  by (induction xs arbitrary: m) (auto simp: rbind_def split: sum.splits prod.splits)

lemma align_batch:
  assumes "0 < n" "am_batch_id m < b \<or> am_batch_id m = b \<and> am_reached_size m = 0"
    "am_parent_execution_size m = n"
  shows "align_all m (replicate n b) = Inr ([b],
     \<lparr>am_parent_execution_size = n, am_batch_id = b, am_reached_size = n\<rparr>)"
proof -
  obtain k where n: "n = Suc k" using assms(1) by (cases n) auto
  have "\<exists>al. align_apply m b = Inr (al, \<lparr>am_parent_execution_size = n, am_batch_id = b,
      am_reached_size = 1\<rparr>) \<and> al = (n = 1)"
    using assms by (cases m) (auto simp: align_apply_def)
  then show ?thesis
    using align_fill[of n 1 k b] n by auto
qed

lemma align_batches:
  "0 < n \<Longrightarrow> sorted_wrt (<) bs \<Longrightarrow> am_parent_execution_size m = n \<Longrightarrow>
   (\<forall>b\<in>set bs. am_batch_id m < b \<or> am_batch_id m = b \<and> am_reached_size m = 0) \<Longrightarrow>
   \<exists>m'. align_all m (concat (map (replicate n) bs)) = Inr (bs, m')"
proof (induction bs arbitrary: m)
  case Nil
  then show ?case by simp
next
  case (Cons b bs)
  from Cons.IH[of "\<lparr>am_parent_execution_size = n, am_batch_id = b, am_reached_size = n\<rparr>"] Cons.prems
  obtain m' where m': "align_all \<lparr>am_parent_execution_size = n, am_batch_id = b, am_reached_size = n\<rparr>
      (concat (map (replicate n) bs)) = Inr (bs, m')" by auto
  then show ?case
    using align_batch[of n m b] Cons.prems by (simp add: align_all_append)
qed

section \<open>The minimum is a lower bound that never falls\<close>

text \<open>Every parent this task depends on has sent a watermark of at least \<open>b\<close>.\<close>

definition all_reached :: "u64 \<Rightarrow> watermark_manager \<Rightarrow> bool" where
  "all_reached b m \<longleftrightarrow> (\<forall>(j, ps)\<in>set m. \<forall>p\<in>set ps. pw_is_dependency p \<longrightarrow>
     (\<exists>l. pw_latest_watermark p = Some l \<and> b \<le> wm_timestamp l))"

lemma min_scan_spec:
  "min_scan ps acc = Inr (Some w) \<Longrightarrow>
   (\<forall>p\<in>set ps. pw_is_dependency p \<longrightarrow> (\<exists>l. pw_latest_watermark p = Some l \<and> wm_timestamp w \<le> wm_timestamp l))
   \<and> (\<forall>a. acc = Some a \<longrightarrow> wm_timestamp w \<le> wm_timestamp a)
   \<and> (acc = Some w \<or> (\<exists>p\<in>set ps. pw_is_dependency p \<and> pw_latest_watermark p = Some w))"
proof (induction ps acc rule: min_scan.induct)
  case (2 p ps acc)
  show ?case
  proof (cases "pw_is_dependency p")
    case False
    then show ?thesis using 2 by auto
  next
    case True
    then obtain l where l: "pw_latest_watermark p = Some l"
      using 2(4) by (auto split: option.splits)
    show ?thesis
    proof (cases acc)
      case None
      then show ?thesis using 2(2)[OF _ l None] 2(4) True l by auto
    next
      case (Some a)
      then show ?thesis
        using 2(3)[OF _ l Some] 2(4) True l by (auto split: if_splits)
    qed
  qed
qed simp

lemma min_watermark_spec:
  assumes "iteration_order it" "min_watermark it m = Some w"
  shows "all_reached (wm_timestamp w) m
     \<and> (\<exists>j ps p. (j, ps) \<in> set m \<and> p \<in> set ps \<and> pw_is_dependency p \<and> pw_latest_watermark p = Some w)"
proof -
  have s: "set (it m) = set m" by (rule iteration_order.set_it[OF assms(1)])
  have "min_scan (concat (map snd (it m))) None = Inr (Some w)"
    using assms(2) by (auto simp: min_watermark_def split: sum.splits)
  from min_scan_spec[OF this] show ?thesis
    by (fastforce simp: all_reached_def s)
qed

lemma update_watermark_mono:
  assumes "pw_latest_watermark p = Some l" "b \<le> wm_timestamp l" "wm_timestamp w \<le> MAX_WATERMARK"
  shows "\<exists>l'. pw_latest_watermark (update_watermark p w) = Some l' \<and> b \<le> wm_timestamp l'"
  using assms by (auto simp: update_watermark_def)

lemma update_watermark_dep [simp]: "pw_is_dependency (update_watermark p w) = pw_is_dependency p"
  by (simp add: update_watermark_def split: option.splits)

lemma all_reached_apply:
  assumes "watermark_apply it m w = Inr (r, m')" "all_reached b m" "wm_timestamp w \<le> MAX_WATERMARK"
  shows "all_reached b m'"
proof (cases "m = []")
  case True
  then show ?thesis using assms(1) by (simp add: watermark_apply_def all_reached_def)
next
  case False
  let ?s = "source_task_id (wm_channel_key w)"
  from assms(1) False obtain ps where ps: "map_of m (t_job_id ?s) = Some ps"
    "unat (t_task_number ?s) < length ps"
    and m': "m' = AList.update (t_job_id ?s) (ps[unat (t_task_number ?s) :=
      update_watermark (ps ! unat (t_task_number ?s)) w]) m"
    by (auto simp: watermark_apply_def Let_def split: option.splits if_splits)
  have mem: "(t_job_id ?s, ps) \<in> set m" using map_of_SomeD[OF ps(1)] .
  have "\<exists>l. pw_latest_watermark p = Some l \<and> b \<le> wm_timestamp l"
    if "p \<in> set (ps[unat (t_task_number ?s) := update_watermark (ps ! unat (t_task_number ?s)) w])"
      "pw_is_dependency p" for p
  proof -
    from set_update_subset_insert[of ps "unat (t_task_number ?s)"] that(1)
    consider "p = update_watermark (ps ! unat (t_task_number ?s)) w" | "p \<in> set ps" by blast
    then show ?thesis
    proof cases
      case 1
      then have "pw_is_dependency (ps ! unat (t_task_number ?s))" using that(2) by simp
      then obtain l where "pw_latest_watermark (ps ! unat (t_task_number ?s)) = Some l"
        "b \<le> wm_timestamp l"
        using assms(2) mem ps(2) by (fastforce simp: all_reached_def)
      from update_watermark_mono[OF this assms(3)] show ?thesis using 1 by simp
    next
      case 2
      then show ?thesis using assms(2) mem that(2) by (fastforce simp: all_reached_def)
    qed
  qed
  moreover have "x \<in> set m' \<Longrightarrow> x = (t_job_id ?s, ps[unat (t_task_number ?s) :=
      update_watermark (ps ! unat (t_task_number ?s)) w]) \<or> x \<in> set m" for x
    unfolding m' by (induction m) (auto split: if_splits)
  ultimately show ?thesis
    using assms(2) by (fastforce simp: all_reached_def)
qed

lemma all_reached_check:
  assumes "watermark_job_check m s = Inr m'" "all_reached b m"
  shows "all_reached b m'"
proof -
  have "set m' \<subseteq> set m"
    using assms(1) by (auto simp: watermark_job_check_def Let_def rbind_eq_Inr AList.delete_eq
        split: option.splits if_splits)
  then show ?thesis using assms(2) unfolding all_reached_def by fast
qed

lemma apply_emits:
  assumes "watermark_apply it m w = Inr (Some x, m')" "iteration_order it" "m' \<noteq> []"
  shows "all_reached (wm_timestamp x) m' \<and> (\<exists>j ps p. (j, ps) \<in> set m' \<and> p \<in> set ps
     \<and> pw_is_dependency p \<and> pw_latest_watermark p = Some x)"
proof -
  have "min_watermark it m' = Some x"
    using assms(1,3)
    by (auto simp: watermark_apply_def Let_def split: option.splits if_splits)
  from min_watermark_spec[OF assms(2) this] show ?thesis .
qed

section \<open>Over a stream\<close>

fun watermark_times :: "element list \<Rightarrow> u64 list" where
  "watermark_times [] = []"
| "watermark_times (EWatermark w # es) = wm_timestamp w # watermark_times es"
| "watermark_times (e # es) = watermark_times es"

lemma watermark_times_append [simp]:
  "watermark_times (xs @ ys) = watermark_times xs @ watermark_times ys"
  by (induction xs rule: watermark_times.induct) auto

definition ends :: "element list \<Rightarrow> nat" where
  "ends es = length (filter (\<lambda>e. case e of EStreamStatus s \<Rightarrow> ss_end s | _ \<Rightarrow> False) es)"

lemma ends_simps [simp]: "ends [] = 0" "ends (xs @ ys) = ends xs + ends ys"
  by (simp_all add: ends_def)

text \<open>What each kind of element does to the manager and which watermarks it emits.\<close>

lemma source_run_watermark:
  assumes "source_run it F s (EWatermark w) = Inr (s', acts)"
  shows "\<exists>r. watermark_apply it (so_watermark_manager s) w = Inr (r, so_watermark_manager s')
     \<and> acts = (case r of Some x \<Rightarrow> [Emit (EWatermark x)] | None \<Rightarrow> [])
     \<and> so_end_flags s' = so_end_flags s \<and> so_waiting_end_flags s' = so_waiting_end_flags s"
proof (cases "watermark_apply it (so_watermark_manager s) w")
  case (Inl p)
  then show ?thesis using assms by simp
next
  case (Inr rm)
  then obtain r m where "watermark_apply it (so_watermark_manager s) w = Inr (r, m)" by (cases rm) auto
  then show ?thesis using assms by (cases r) (auto simp: Let_def)
qed

lemma source_run_barrier:
  assumes "source_run it F s (EBarrier b) = Inr (s', acts)"
  shows "so_watermark_manager s' = so_watermark_manager s
     \<and> emitted acts \<in> {[], [EBarrier b]}
     \<and> so_end_flags s' = so_end_flags s \<and> so_waiting_end_flags s' = so_waiting_end_flags s"
proof (cases "align_apply (so_barrier_alignment s) (ck_num (b_checkpoint_id b))")
  case (Inl p)
  then show ?thesis using assms by simp
next
  case (Inr rm)
  obtain al m where al: "rm = (al, m)" by (cases rm)
  show ?thesis
  proof (cases "al")
    case False
    then show ?thesis using assms Inr al by (auto simp: Let_def)
  next
    case True
    then obtain ctx where ctx: "o_context s = Some ctx"
      using assms Inr al by (cases "o_context s") (auto simp: Let_def)
    obtain h f where "fn_snapshot F (o_fn s)
        (checkpoint_context ctx (o_operator_id s) (b_checkpoint_id b) None) = (h, f)" by fastforce
    then show ?thesis using assms Inr al True ctx by (auto simp: Let_def source_checkpoint_def)
  qed
qed

lemma source_run_status:
  assumes "source_run it F s (EStreamStatus st) = Inr (s', acts)"
  shows "watermark_job_check (so_watermark_manager s) st = Inr (so_watermark_manager s')
     \<and> so_end_flags s' = so_end_flags s + (if ss_end st then 1 else 0)
     \<and> so_waiting_end_flags s' = so_waiting_end_flags s
     \<and> emitted acts \<in> {[], [new_stream_status (ss_timestamp st)
         (ss_end st \<and> so_end_flags s' \<ge> so_waiting_end_flags s')]}"
proof (cases "watermark_job_check (so_watermark_manager s) st")
  case (Inl p)
  then show ?thesis using assms by (cases "ss_end st") (simp_all add: Let_def)
next
  case (Inr wm)
  show ?thesis
  proof (cases "align_apply (so_stream_status_alignment s) (ss_timestamp st)")
    case (Inl p)
    then show ?thesis using assms Inr by (cases "ss_end st") (simp_all add: Let_def)
  next
    case al: (Inr rm)
    then show ?thesis
      using assms Inr by (cases rm; cases "ss_end st") (auto simp: Let_def split: if_splits)
  qed
qed

lemma manager_not_empty:
  assumes "source_run it F s e = Inr (s', acts)" "so_watermark_manager s' \<noteq> []"
  shows "so_watermark_manager s \<noteq> []"
proof (cases e)
  case (EWatermark w)
  then show ?thesis
    using assms source_run_watermark[of it F s w s' acts] by (auto simp: watermark_apply_def)
next
  case (EStreamStatus st)
  then show ?thesis
    using assms source_run_status[of it F s st s' acts]
    by (auto simp: watermark_job_check_def Let_def)
next
  case (EBarrier b)
  then show ?thesis using assms source_run_barrier[of it F s b s' acts] by auto
qed (use assms in auto)

text \<open>One step: what was reached stays reached, and an emitted watermark is reached by all.\<close>

lemma source_run_reached:
  assumes "source_run it F s e = Inr (s', acts)" "iteration_order it"
    and "so_watermark_manager s' \<noteq> []" "list_all (\<lambda>t. t \<le> MAX_WATERMARK) (watermark_times [e])"
  shows "all_reached b (so_watermark_manager s) \<Longrightarrow> all_reached b (so_watermark_manager s')"
    and "watermark_times (emitted acts) = [] \<or> (\<exists>t. watermark_times (emitted acts) = [t]
      \<and> all_reached t (so_watermark_manager s')
      \<and> (\<forall>b. all_reached b (so_watermark_manager s') \<longrightarrow> b \<le> t))"
proof -
  show "all_reached b (so_watermark_manager s')" if b: "all_reached b (so_watermark_manager s)"
  proof (cases e)
    case (EWatermark w)
    then show ?thesis
      using assms source_run_watermark[of it F s w s' acts] all_reached_apply[OF _ b] by auto
  next
    case (EStreamStatus st)
    then show ?thesis
      using assms source_run_status[of it F s st s' acts] all_reached_check[OF _ b] by auto
  next
    case (EBarrier x)
    then show ?thesis using assms b source_run_barrier[of it F s x s' acts] by auto
  qed (use assms b in auto)
  show "watermark_times (emitted acts) = [] \<or> (\<exists>t. watermark_times (emitted acts) = [t]
      \<and> all_reached t (so_watermark_manager s')
      \<and> (\<forall>b. all_reached b (so_watermark_manager s') \<longrightarrow> b \<le> t))"
  proof (cases e)
    case (EWatermark w)
    from source_run_watermark[OF assms(1)[unfolded EWatermark]] obtain r where
      r: "watermark_apply it (so_watermark_manager s) w = Inr (r, so_watermark_manager s')"
      and a: "acts = (case r of Some x \<Rightarrow> [Emit (EWatermark x)] | None \<Rightarrow> [])" by blast
    show ?thesis
    proof (cases r)
      case None
      then show ?thesis using a by simp
    next
      case (Some x)
      from apply_emits[OF r[unfolded Some] assms(2,3)]
      have "all_reached (wm_timestamp x) (so_watermark_manager s')"
        "b \<le> wm_timestamp x" if "all_reached b (so_watermark_manager s')" for b
        using that by (fastforce simp: all_reached_def)+
      moreover have "all_reached (wm_timestamp x) (so_watermark_manager s')"
        using apply_emits[OF r[unfolded Some] assms(2,3)] by blast
      ultimately show ?thesis using a Some by auto
    qed
  next
    case (EStreamStatus st)
    then show ?thesis
      using source_run_status[OF assms(1)[unfolded EStreamStatus]]
      by (auto simp: new_stream_status_def)
  next
    case (EBarrier x)
    then show ?thesis using source_run_barrier[OF assms(1)[unfolded EBarrier]] by auto
  qed (use assms(1) in auto)
qed

lemma run_all_not_empty:
  "run_all (source_run it F) s es = Inr (s', acts) \<Longrightarrow> so_watermark_manager s' \<noteq> [] \<Longrightarrow>
   so_watermark_manager s \<noteq> []"
proof (induction es arbitrary: s acts)
  case (Cons e es)
  then obtain s1 a1 a2 where "source_run it F s e = Inr (s1, a1)"
    "run_all (source_run it F) s1 es = Inr (s', a2)" by (auto simp: rbind_eq_Inr)
  then show ?case using Cons.IH[of s1 a2] Cons.prems(2) manager_not_empty by blast
qed simp

lemma run_all_watermarks:
  assumes "iteration_order it"
  shows "run_all (source_run it F) s es = Inr (s', acts) \<Longrightarrow> so_watermark_manager s' \<noteq> [] \<Longrightarrow>
   list_all (\<lambda>t. t \<le> MAX_WATERMARK) (watermark_times es) \<Longrightarrow>
   sorted (watermark_times (emitted acts))
   \<and> (\<forall>b. all_reached b (so_watermark_manager s) \<longrightarrow> (\<forall>t\<in>set (watermark_times (emitted acts)). b \<le> t))"
proof (induction es arbitrary: s acts)
  case Nil
  then show ?case by simp
next
  case (Cons e es)
  from Cons.prems(1) obtain s1 a1 a2 where r: "source_run it F s e = Inr (s1, a1)"
    "run_all (source_run it F) s1 es = Inr (s', a2)" "acts = a1 @ a2" by (auto simp: rbind_eq_Inr)
  have ne: "so_watermark_manager s1 \<noteq> []" using run_all_not_empty[OF r(2) Cons.prems(2)] .
  have lt: "list_all (\<lambda>t. t \<le> MAX_WATERMARK) (watermark_times [e])"
    "list_all (\<lambda>t. t \<le> MAX_WATERMARK) (watermark_times es)"
    using Cons.prems(3) by (cases e; simp)+
  note st = source_run_reached[OF r(1) assms ne lt(1)]
  note rest = Cons.IH[OF r(2) Cons.prems(2) lt(2)]
  from st(2) show ?case
  proof
    assume "watermark_times (emitted a1) = []"
    then show ?thesis using rest st(1) r(3) by simp
  next
    assume "\<exists>t. watermark_times (emitted a1) = [t]
      \<and> all_reached t (so_watermark_manager s1)
      \<and> (\<forall>b. all_reached b (so_watermark_manager s1) \<longrightarrow> b \<le> t)"
    then obtain t where x: "watermark_times (emitted a1) = [t]"
      "all_reached t (so_watermark_manager s1)"
      "\<forall>b. all_reached b (so_watermark_manager s1) \<longrightarrow> b \<le> t" by blast
    then show ?thesis using rest st(1) r(3) by simp
  qed
qed

text \<open>An end-of-stream event leaves only when enough of them have come in.\<close>

lemma source_run_ends:
  assumes "source_run it F s e = Inr (s', acts)"
  shows "so_end_flags s' = so_end_flags s + ends [e]
     \<and> so_waiting_end_flags s' = so_waiting_end_flags s
     \<and> (0 < ends (emitted acts) \<longrightarrow> so_waiting_end_flags s' \<le> so_end_flags s')"
proof (cases e)
  case (EStreamStatus st)
  then show ?thesis
    using source_run_status[OF assms[unfolded EStreamStatus]]
    by (auto simp: ends_def new_stream_status_def stream_status_new_def split: if_splits)
next
  case (EBarrier b)
  then show ?thesis using source_run_barrier[OF assms[unfolded EBarrier]] by (auto simp: ends_def)
next
  case (EWatermark w)
  then show ?thesis
    using source_run_watermark[OF assms[unfolded EWatermark]]
    by (auto simp: ends_def split: option.splits)
qed (use assms in \<open>auto simp: ends_def\<close>)

lemma run_all_ends:
  "run_all (source_run it F) s es = Inr (s', acts) \<Longrightarrow> 0 < ends (emitted acts) \<Longrightarrow>
   so_waiting_end_flags s \<le> so_end_flags s + ends es"
proof (induction es arbitrary: s acts)
  case Nil
  then show ?case by (simp add: ends_def)
next
  case (Cons e es)
  from Cons.prems(1) obtain s1 a1 a2 where r: "source_run it F s e = Inr (s1, a1)"
    "run_all (source_run it F) s1 es = Inr (s', a2)" "acts = a1 @ a2" by (auto simp: rbind_eq_Inr)
  have "ends (e # es) = ends [e] + ends es" by (simp add: ends_def)
  then show ?case
    using source_run_ends[OF r(1)] Cons.IH[OF r(2)] Cons.prems(2) r(3)
    by (cases "0 < ends (emitted a1)") auto
qed

section \<open>Properties\<close>





text \<open>
  C23: Event time never runs backwards behind a merge.  Whatever order the elements of the
  parents arrive in, as long as the task still tracks a parent job at the end, the watermarks
  it hands on never fall.
\<close>

theorem merged_watermarks_monotone:
  assumes "iteration_order it" "run_all (source_run it F) s es = Inr (s', acts)"
    and "so_watermark_manager s' \<noteq> []"
    and "list_all (\<lambda>t. t \<le> MAX_WATERMARK) (watermark_times es)"
  shows "sorted (watermark_times (emitted acts))"
  using run_all_watermarks[OF assms] by blast

text \<open>A task with two parent tasks of job 1, and a stream from both.\<close>

definition parent_task :: "u16 \<Rightarrow> task_id" where
  "parent_task n = \<lparr>t_job_id = JobId 1, t_task_number = n, t_num_tasks = 2\<rparr>"

definition from_task :: "u16 \<Rightarrow> channel_key" where
  "from_task n = \<lparr>source_task_id = parent_task n, target_task_id = task_id_default\<rparr>"

definition idle_fn :: "unit checkpoint_fn" where
  "idle_fn = \<lparr>fn_open = (\<lambda>f _. Inr f), fn_snapshot = (\<lambda>f _. (None, f))\<rparr>"

definition two_parents :: "unit source_operator" where
  "two_parents = projr (source_open idle_fn [parent_task 0, parent_task 1]
     \<lparr>o_operator_id = OperatorId 5, o_fn = (), o_context = None, so_waiting_end_flags = 0,
      so_barrier_alignment = align_new 0, so_stream_status_alignment = align_new 0,
      so_watermark_manager = [], so_counter = 0, so_end_flags = 0, so_reported_end = 0\<rparr> a_context)"

definition merged_stream :: "element list" where
  "merged_stream = map (\<lambda>(n, t). EWatermark ((watermark_new t)\<lparr>wm_channel_key := from_task n\<rparr>))
       [(0, 10), (1, 7), (1, 12), (0, 11)]
     @ map (\<lambda>n. EStreamStatus ((stream_status_new 30 True)\<lparr>ss_channel_key := from_task n\<rparr>)) [1, 0]"

lemmas two_parents_simps =
  two_parents_def source_open_def idle_fn_def parent_task_def from_task_def a_context_def
  watermark_manager_new_def merged_stream_def align_new_def align_apply_def watermark_new_def
  stream_status_new_def watermark_apply_def watermark_job_check_def update_watermark_def
  min_watermark_def MAX_WATERMARK_def new_stream_status_def Let_def

lemma replicate_two: "replicate 2 x = [x, x]"
  by (simp add: numeral_2_eq_2)

lemma two_parents_manager: "so_watermark_manager two_parents = [(JobId 1,
    [\<lparr>pw_latest_watermark = None, pw_is_dependency = True\<rparr>,
     \<lparr>pw_latest_watermark = None, pw_is_dependency = True\<rparr>])]"
  by (simp add: two_parents_simps replicate_two)

definition merged_run :: "unit source_operator \<times> action list" where
  "merged_run = projr (run_all (source_run rev idle_fn) two_parents merged_stream)"

lemma merged_run_eq:
  "run_all (source_run rev idle_fn) two_parents merged_stream = Inr (fst merged_run, snd merged_run)
   \<and> watermark_times (emitted (snd merged_run)) = [7, 10, 11]
   \<and> so_watermark_manager (fst merged_run) \<noteq> [] \<and> ends (emitted (snd merged_run)) = 1"
  by (simp add: merged_run_def two_parents_simps replicate_two ends_def)

theorem merged_watermarks_monotone_witness:
  "watermark_times (emitted (snd merged_run)) = [7, 10, 11]
   \<and> sorted (watermark_times (emitted (snd merged_run)))"
proof -
  have "list_all (\<lambda>t. t \<le> MAX_WATERMARK) (watermark_times merged_stream)"
    by (simp add: merged_stream_def watermark_new_def MAX_WATERMARK_def)
  then show ?thesis
    using merged_watermarks_monotone[OF reverse_order.iteration_order_axioms] merged_run_eq by blast
qed





end
