(* ===== verification/Keyed_State.thy ===== *)
theory Keyed_State
  imports Element
begin

text \<open>
  The keyed window state (\<open>rlink/src/storage/keyed_state\<close>): per window a sorted map from key
  to reduced value, the storage into which a finished window is moved, and the flat map that
  reads it out again (\<open>functions/system/keyed_state_flat_map.rs\<close>).  The reduce function of
  the user and the concatenation of buffers (\<open>serbuffer\<close>) are parameters.  \<open>contents\<close> is the
  abstract view: the value of a key in a window.
\<close>

section \<open>Sorted map of records\<close>

text \<open>Records compare by their bytes (\<open>impl Ord for Record\<close>).\<close>

fun bytes_less :: "u8 list \<Rightarrow> u8 list \<Rightarrow> bool" where
  "bytes_less [] ys \<longleftrightarrow> ys \<noteq> []"
| "bytes_less (x # xs) [] \<longleftrightarrow> False"
| "bytes_less (x # xs) (y # ys) \<longleftrightarrow> x < y \<or> x = y \<and> bytes_less xs ys"

type_synonym record_map = "(rlink_record \<times> rlink_record) list"

fun btree_get :: "rlink_record \<Rightarrow> record_map \<Rightarrow> rlink_record option" where
  "btree_get key [] = None"
| "btree_get key ((k, v) # m) = (if record_eq k key then Some v else btree_get key m)"

text \<open>An insert of a present key replaces the value and keeps the key.\<close>

fun btree_insert :: "rlink_record \<Rightarrow> rlink_record \<Rightarrow> record_map \<Rightarrow> record_map" where
  "btree_insert key val [] = [(key, val)]"
| "btree_insert key val ((k, v) # m) =
     (if record_eq k key then (k, val) # m
      else if bytes_less (rec_values key) (rec_values k) then (key, val) # (k, v) # m
      else (k, v) # btree_insert key val m)"

section \<open>State of one window\<close>

record state_key =
  sk_window :: window
  sk_job_id :: job_id
  sk_task_number :: u16

record reducing_state =
  rs_state_key :: state_key
  rs_kv :: record_map

definition reducing_state_new :: "state_key \<Rightarrow> reducing_state" where
  "reducing_state_new k = \<lparr>rs_state_key = k, rs_kv = []\<rparr>"

definition rs_get :: "reducing_state \<Rightarrow> rlink_record \<Rightarrow> rlink_record option" where
  "rs_get s key = btree_get key (rs_kv s)"

definition rs_insert :: "reducing_state \<Rightarrow> rlink_record \<Rightarrow> rlink_record \<Rightarrow> reducing_state" where
  "rs_insert s key val = s\<lparr>rs_kv := btree_insert key val (rs_kv s)\<rparr>"

text \<open>
  The iterator over a finished window: the key extended by the value, marked with the window.
  \<open>concat_buf\<close> is the concatenation of two buffers, which can fail.
\<close>

fun state_iter_items ::
    "(u8 list \<Rightarrow> u8 list \<Rightarrow> u8 list option) \<Rightarrow> window \<Rightarrow> record_map \<Rightarrow> rlink_record list res" where
  "state_iter_items concat_buf w [] = Inr []"
| "state_iter_items concat_buf w ((key, val) # m) =
     rbind (unwrap (concat_buf (rec_values key) (rec_values val))) (\<lambda>bytes.
     rbind (state_iter_items concat_buf w m) (\<lambda>rs.
       Inr (key\<lparr>rec_values := bytes, rec_trigger_window := Some w\<rparr> # rs)))"

definition state_iter ::
    "(u8 list \<Rightarrow> u8 list \<Rightarrow> u8 list option) \<Rightarrow> reducing_state \<Rightarrow> rlink_record list res" where
  "state_iter concat_buf s = state_iter_items concat_buf (sk_window (rs_state_key s)) (rs_kv s)"

section \<open>Storage of finished windows\<close>

record storage_key =
  st_job_id :: job_id
  st_task_number :: u16

type_synonym drop_storage = "(storage_key, (window, reducing_state) hmap) hmap"

definition append_drop_window ::
    "storage_key \<Rightarrow> window \<Rightarrow> reducing_state \<Rightarrow> drop_storage \<Rightarrow> drop_storage" where
  "append_drop_window key w s storage =
     (let task_storage = (case map_of storage key of None \<Rightarrow> [] | Some m \<Rightarrow> m)
      in AList.update key (AList.update w s task_storage) storage)"

definition remove_drop_window ::
    "job_id \<Rightarrow> u16 \<Rightarrow> window \<Rightarrow> drop_storage \<Rightarrow> reducing_state option \<times> drop_storage" where
  "remove_drop_window job_id task_number w storage =
     (let key = \<lparr>st_job_id = job_id, st_task_number = task_number\<rparr> in
      case map_of storage key of
        Some task_storage \<Rightarrow>
          (map_of task_storage w, AList.update key (AList.delete w task_storage) storage)
      | None \<Rightarrow> (None, storage))"

definition reducing_state_from ::
    "state_key \<Rightarrow> drop_storage \<Rightarrow> reducing_state option \<times> drop_storage" where
  "reducing_state_from k storage =
     remove_drop_window (sk_job_id k) (sk_task_number k) (sk_window k) storage"

section \<open>State of all windows of a task\<close>

record window_state =
  ws_application_id :: string
  ws_job_id :: job_id
  ws_task_number :: u16
  ws_windows :: "(window, reducing_state) hmap"

definition window_state_new :: "string \<Rightarrow> job_id \<Rightarrow> u16 \<Rightarrow> window_state" where
  "window_state_new application_id job_id task_number =
     \<lparr>ws_application_id = application_id, ws_job_id = job_id, ws_task_number = task_number,
      ws_windows = []\<rparr>"

text \<open>
  The reduce function gets the current value (if any) and the record; it may change the
  record it is given, which the next window then sees.
\<close>

type_synonym reduce_fun = "rlink_record option \<Rightarrow> rlink_record \<Rightarrow> rlink_record \<times> rlink_record"

definition merge_value ::
    "reduce_fun \<Rightarrow> window \<Rightarrow> rlink_record \<Rightarrow> rlink_record \<times> window_state \<Rightarrow>
     rlink_record \<times> window_state" where
  "merge_value reduce_fun window key = (\<lambda>(record, st). case map_of (ws_windows st) window of
     Some state \<Rightarrow> (case rs_get state key of
         Some state_record \<Rightarrow>
           (let (new_val, record) = reduce_fun (Some state_record) record in
            (record, st\<lparr>ws_windows := AList.update window (rs_insert state key new_val) (ws_windows st)\<rparr>))
       | None \<Rightarrow>
           (let (new_val, record) = reduce_fun None record in
            (record, st\<lparr>ws_windows := AList.update window (rs_insert state key new_val) (ws_windows st)\<rparr>)))
   | None \<Rightarrow>
       (let state_key = \<lparr>sk_window = window, sk_job_id = ws_job_id st, sk_task_number = ws_task_number st\<rparr>;
            state = reducing_state_new state_key;
            (new_val, record) = reduce_fun None record;
            state = rs_insert state key new_val in
        (record, st\<lparr>ws_windows := AList.update window state (ws_windows st)\<rparr>)))"

definition merge ::
    "reduce_fun \<Rightarrow> rlink_record \<Rightarrow> rlink_record \<Rightarrow> window_state \<Rightarrow> window_state \<times> nat" where
  "merge reduce_fun key record st =
     (let windows = location_windows record;
          (_, st) = (if length windows = 1 then merge_value reduce_fun (windows ! 0) key (record, st)
            else fold (\<lambda>w. merge_value reduce_fun w key) windows (record, st))
      in (st, length (ws_windows st)))"

definition windows_of :: "(window list \<Rightarrow> window list) \<Rightarrow> window_state \<Rightarrow> window list" where
  "windows_of it st = it (hm_keys (ws_windows st))"

definition drop_window ::
    "window \<Rightarrow> window_state \<times> drop_storage \<Rightarrow> (window_state \<times> drop_storage) \<times> nat" where
  "drop_window window = (\<lambda>(st, storage).
     (let r = (case map_of (ws_windows st) window of
         Some state \<Rightarrow>
           (st\<lparr>ws_windows := AList.delete window (ws_windows st)\<rparr>,
            append_drop_window \<lparr>st_job_id = ws_job_id st, st_task_number = ws_task_number st\<rparr>
              window state storage)
       | None \<Rightarrow> (st, storage))
      in (r, length (ws_windows (fst r)))))"

section \<open>Reading a finished window\<close>

record keyed_state_flat_map =
  kf_parent_job_id :: job_id
  kf_task_number :: u16

definition keyed_flat_map_element ::
    "(u8 list \<Rightarrow> u8 list \<Rightarrow> u8 list option) \<Rightarrow> keyed_state_flat_map \<Rightarrow> element \<Rightarrow> drop_storage \<Rightarrow>
     (element list \<times> drop_storage) res" where
  "keyed_flat_map_element concat_buf f element storage =
     rbind (into_record element) (\<lambda>record.
     if length (rec_values record) > 0 then Inl Explicit_panic
     else case rec_trigger_window record of
       None \<Rightarrow> Inl Explicit_panic
     | Some window \<Rightarrow>
         (case reducing_state_from \<lparr>sk_window = window, sk_job_id = kf_parent_job_id f,
              sk_task_number = kf_task_number f\<rparr> storage of
            (Some state, storage) \<Rightarrow>
              rbind (state_iter concat_buf state) (\<lambda>rs. Inr (map ERecord rs, storage))
          | (None, storage) \<Rightarrow> Inr ([], storage)))"

section \<open>The sorted map\<close>

definition keys_of :: "record_map \<Rightarrow> u8 list list" where
  "keys_of m = map (\<lambda>(k, v). rec_values k) m"

definition lookup :: "u8 list \<Rightarrow> record_map \<Rightarrow> rlink_record option" where
  "lookup bytes m = map_of (map (\<lambda>(k, v). (rec_values k, v)) m) bytes"

definition map_sorted :: "record_map \<Rightarrow> bool" where
  "map_sorted m \<longleftrightarrow> sorted_wrt bytes_less (keys_of m)"

lemma bytes_less_trans: "bytes_less xs ys \<Longrightarrow> bytes_less ys zs \<Longrightarrow> bytes_less xs zs"
proof (induction xs ys arbitrary: zs rule: bytes_less.induct)
  case (1 ys)
  then show ?case by (cases ys; cases zs) auto
next
  case (3 x xs y ys)
  then show ?case by (cases zs) auto
qed auto

lemma bytes_less_total: "xs \<noteq> ys \<Longrightarrow> bytes_less xs ys \<or> bytes_less ys xs"
  by (induction xs ys rule: bytes_less.induct) auto

lemma bytes_less_irrefl [simp]: "\<not> bytes_less xs xs"
  by (induction xs) auto

lemma btree_get_lookup: "btree_get key m = lookup (rec_values key) m"
  by (induction key m rule: btree_get.induct) (auto simp: lookup_def record_eq_def)

lemma lookup_Nil [simp]: "lookup bytes [] = None"
  by (simp add: lookup_def)

lemma lookup_insert:
  "lookup bytes (btree_insert key val m) =
     (if bytes = rec_values key then Some val else lookup bytes m)"
  by (induction key val m rule: btree_insert.induct) (auto simp: lookup_def record_eq_def)

lemma keys_insert: "set (keys_of (btree_insert key val m)) = insert (rec_values key) (set (keys_of m))"
  by (induction key val m rule: btree_insert.induct) (auto simp: keys_of_def record_eq_def)

lemma sorted_insert: "map_sorted m \<Longrightarrow> map_sorted (btree_insert key val m)"
proof (induction key val m rule: btree_insert.induct)
  case (1 key val)
  then show ?case by (simp add: map_sorted_def keys_of_def)
next
  case step: (2 key val k v m)
  have m: "map_sorted m" "\<forall>x\<in>set (keys_of m). bytes_less (rec_values k) x"
    using step(2) by (auto simp: map_sorted_def keys_of_def)
  consider "record_eq k key" | "\<not> record_eq k key" "bytes_less (rec_values key) (rec_values k)"
    | "\<not> record_eq k key" "\<not> bytes_less (rec_values key) (rec_values k)" by blast
  then show ?case
  proof cases
    case 1
    then show ?thesis
      using m by (simp add: map_sorted_def keys_of_def)
  next
    case 2
    have "bytes_less (rec_values key) x" if "x \<in> set (keys_of m)" for x
      using that m(2) bytes_less_trans[OF 2(2)] by blast
    then show ?thesis
      using 2 m by (simp add: map_sorted_def keys_of_def)
  next
    case 3
    then have "bytes_less (rec_values k) (rec_values key)"
      using bytes_less_total[of "rec_values k" "rec_values key"] by (auto simp: record_eq_def)
    then show ?thesis
      using step(1) 3 m keys_insert[of key val m] by (auto simp: map_sorted_def keys_of_def)
  qed
qed

section \<open>What the state holds\<close>

text \<open>The value of a key, given as its bytes, in a window.\<close>

definition contents :: "window_state \<Rightarrow> window \<Rightarrow> u8 list \<Rightarrow> rlink_record option" where
  "contents st w bytes = (case map_of (ws_windows st) w of
     None \<Rightarrow> None | Some s \<Rightarrow> lookup bytes (rs_kv s))"

text \<open>Every window is stored under its own key and its map is sorted.\<close>

definition state_ok :: "window_state \<Rightarrow> bool" where
  "state_ok st \<longleftrightarrow> hm_ok (ws_windows st) \<and> (\<forall>w s. map_of (ws_windows st) w = Some s \<longrightarrow>
     rs_state_key s = \<lparr>sk_window = w, sk_job_id = ws_job_id st, sk_task_number = ws_task_number st\<rparr>
     \<and> map_sorted (rs_kv s))"

text \<open>A reduce function that leaves the record it is given as it is.\<close>

definition pure_reduce :: "(rlink_record option \<Rightarrow> rlink_record \<Rightarrow> rlink_record) \<Rightarrow> reduce_fun" where
  "pure_reduce red v r = (red v r, r)"

lemma merge_value_eq:
  "merge_value (pure_reduce red) w key (r, st) =
     (r, st\<lparr>ws_windows := AList.update w (rs_insert
        (case map_of (ws_windows st) w of Some s \<Rightarrow> s | None \<Rightarrow> reducing_state_new
           \<lparr>sk_window = w, sk_job_id = ws_job_id st, sk_task_number = ws_task_number st\<rparr>)
        key (red (contents st w (rec_values key)) r)) (ws_windows st)\<rparr>)"
  by (auto simp: merge_value_def pure_reduce_def contents_def rs_get_def btree_get_lookup
      Let_def split: option.splits)

lemma merge_value_contents:
  "contents (snd (merge_value (pure_reduce red) w key (r, st))) v bytes =
     (if v = w \<and> bytes = rec_values key then Some (red (contents st w bytes) r)
      else contents st v bytes)"
  by (auto simp: merge_value_eq contents_def rs_insert_def lookup_insert reducing_state_new_def
      split: option.splits)

lemma merge_value_ok:
  "state_ok st \<Longrightarrow> state_ok (snd (merge_value (pure_reduce red) w key (r, st)))"
  by (auto simp: merge_value_eq state_ok_def rs_insert_def sorted_insert reducing_state_new_def
      map_sorted_def keys_of_def hm_ok_update[unfolded hm_ok_def] hm_ok_def
      intro: sorted_insert[unfolded map_sorted_def keys_of_def] split: option.splits if_splits)

lemma merge_fold_eq:
  "merge f key r st = (let st' = snd (fold (\<lambda>w. merge_value f w key) (location_windows r) (r, st))
     in (st', length (ws_windows st')))"
proof (cases "length (location_windows r) = 1")
  case True
  then obtain w where "location_windows r = [w]" by (cases "location_windows r") auto
  then show ?thesis by (simp add: merge_def split: prod.splits)
qed (simp add: merge_def split: prod.splits)

lemma fst_merge_value: "fst (merge_value (pure_reduce red) w key (r, st)) = r"
  by (simp add: merge_value_eq)

lemma merge_fold_contents:
  "distinct ws \<Longrightarrow>
   contents (snd (fold (\<lambda>w. merge_value (pure_reduce red) w key) ws (r, st))) v bytes =
     (if v \<in> set ws \<and> bytes = rec_values key then Some (red (contents st v bytes) r)
      else contents st v bytes)"
proof (induction ws arbitrary: st)
  case Nil
  then show ?case by simp
next
  case (Cons w ws)
  obtain st' where st': "merge_value (pure_reduce red) w key (r, st) = (r, st')"
    using fst_merge_value by (metis prod.collapse)
  then show ?case
    using Cons merge_value_contents[of red w key r st v bytes] by auto
qed

lemma merge_fold_ok:
  "state_ok st \<Longrightarrow> state_ok (snd (fold (\<lambda>w. merge_value (pure_reduce red) w key) ws (r, st)))"
proof (induction ws arbitrary: st)
  case Nil
  then show ?case by simp
next
  case (Cons w ws)
  obtain st' where st': "merge_value (pure_reduce red) w key (r, st) = (r, st')"
    using fst_merge_value by (metis prod.collapse)
  then show ?case
    using Cons merge_value_ok[OF Cons.prems, of red w key r] by simp
qed

lemma merge_contents:
  "distinct (location_windows r) \<Longrightarrow> contents (fst (merge (pure_reduce red) key r st)) v bytes =
     (if v \<in> set (location_windows r) \<and> bytes = rec_values key
      then Some (red (contents st v bytes) r) else contents st v bytes)"
  by (simp add: merge_fold_eq merge_fold_contents Let_def)

lemma merge_ok: "state_ok st \<Longrightarrow> state_ok (fst (merge (pure_reduce red) key r st))"
  by (simp add: merge_fold_eq merge_fold_ok Let_def)

lemma merge_ids:
  "ws_job_id (fst (merge (pure_reduce red) key r st)) = ws_job_id st
   \<and> ws_task_number (fst (merge (pure_reduce red) key r st)) = ws_task_number st"
proof -
  have "ws_job_id (snd (fold (\<lambda>w. merge_value (pure_reduce red) w key) ws (r, st))) = ws_job_id st
    \<and> ws_task_number (snd (fold (\<lambda>w. merge_value (pure_reduce red) w key) ws (r, st)))
      = ws_task_number st" for ws
    by (induction ws arbitrary: st) (simp_all add: merge_value_eq)
  then show ?thesis by (simp add: merge_fold_eq Let_def)
qed

text \<open>
  A sequence of keyed records merged one after the other, and the specification: the value of
  a key in a window is the reduction, in order, of the records with that key that lie in the
  window.
\<close>

definition merge_all :: "(rlink_record option \<Rightarrow> rlink_record \<Rightarrow> rlink_record) \<Rightarrow>
    (rlink_record \<times> rlink_record) list \<Rightarrow> window_state \<Rightarrow> window_state" where
  "merge_all red recs st = fold (\<lambda>(key, r) st. fst (merge (pure_reduce red) key r st)) recs st"

definition aggregate :: "(rlink_record option \<Rightarrow> rlink_record \<Rightarrow> rlink_record) \<Rightarrow> window \<Rightarrow> u8 list \<Rightarrow>
    (rlink_record \<times> rlink_record) list \<Rightarrow> rlink_record option \<Rightarrow> rlink_record option" where
  "aggregate red w bytes recs acc = fold (\<lambda>(key, r) acc.
     if w \<in> set (location_windows r) \<and> bytes = rec_values key then Some (red acc r) else acc) recs acc"

lemma merge_all_contents:
  "list_all (\<lambda>(key, r). distinct (location_windows r)) recs \<Longrightarrow>
   contents (merge_all red recs st) w bytes = aggregate red w bytes recs (contents st w bytes)"
  by (induction recs arbitrary: st) (auto simp: merge_all_def aggregate_def merge_contents)

lemma merge_all_ok: "state_ok st \<Longrightarrow> state_ok (merge_all red recs st)"
  by (induction recs arbitrary: st) (auto simp: merge_all_def merge_ok)

lemma merge_all_ids:
  "ws_job_id (merge_all red recs st) = ws_job_id st \<and> ws_task_number (merge_all red recs st) = ws_task_number st"
  by (induction recs arbitrary: st) (auto simp: merge_all_def merge_ids)

lemma state_ok_new: "state_ok (window_state_new a j n)"
  by (simp add: state_ok_def window_state_new_def)

lemma contents_new: "contents (window_state_new a j n) w bytes = None"
  by (simp add: contents_def window_state_new_def)

section \<open>Moving a window out and reading it\<close>

lemma state_iter_all:
  "concat_buf = (\<lambda>a b. Some (cat a b)) \<Longrightarrow> state_iter_items concat_buf w m =
     Inr (map (\<lambda>(k, v). k\<lparr>rec_values := cat (rec_values k) (rec_values v),
       rec_trigger_window := Some w\<rparr>) m)"
  by (induction m) auto

definition trigger_of :: "window \<Rightarrow> element" where
  "trigger_of w = ERecord (record_new\<lparr>rec_trigger_window := Some w\<rparr>)"

lemma read_stored:
  assumes "concat_buf = (\<lambda>a b. Some (cat a b))" "state_ok st" "map_of (ws_windows st) w = Some s"
    and "f = \<lparr>kf_parent_job_id = ws_job_id st, kf_task_number = ws_task_number st\<rparr>"
  shows "\<exists>st1 n sto1 sto2 sto3. drop_window w (st, storage) = ((st1, sto1), n)
     \<and> contents st1 w = Map.empty \<and> (\<forall>v. v \<noteq> w \<longrightarrow> contents st1 v = contents st v)
     \<and> keyed_flat_map_element concat_buf f (trigger_of w) sto1 =
         Inr (map (\<lambda>(k, v). ERecord (k\<lparr>rec_values := cat (rec_values k) (rec_values v),
           rec_trigger_window := Some w\<rparr>)) (rs_kv s), sto2)
     \<and> keyed_flat_map_element concat_buf f (trigger_of w) sto2 = Inr ([], sto3)"
proof -
  have k: "sk_window (rs_state_key s) = w"
    using assms(2,3) by (auto simp: state_ok_def)
  show ?thesis
    using assms(3,4) k
    by (auto simp: drop_window_def keyed_flat_map_element_def trigger_of_def record_new_def
        append_drop_window_def reducing_state_from_def remove_drop_window_def contents_def
        state_iter_def state_iter_all[OF assms(1)] Let_def fun_eq_iff AList.update_conv'
        split_beta)
qed

section \<open>Properties\<close>

text \<open>
  C17: Windowed aggregation.  After any sequence of keyed records the state of a fresh task
  holds, for every window and every key, exactly the reduction in arrival order of the
  records with that key that were assigned to the window, and nothing else.
\<close>

theorem window_state_aggregates:
  assumes "list_all (\<lambda>(key, r). distinct (location_windows r)) recs"
  shows "contents (merge_all red recs (window_state_new a j n)) w bytes
     = aggregate red w bytes recs None"
  using merge_all_contents[OF assms] by (simp add: contents_new)

text \<open>A counting reduction for the examples: the sum of the timestamps.\<close>

definition sum_ts :: "rlink_record option \<Rightarrow> rlink_record \<Rightarrow> rlink_record" where
  "sum_ts v r = (case v of None \<Rightarrow> r | Some s \<Rightarrow> s\<lparr>rec_timestamp := rec_timestamp s + rec_timestamp r\<rparr>)"

definition two_windows :: "u64 \<Rightarrow> rlink_record" where
  "two_windows t = record_new\<lparr>rec_timestamp := t, rec_location_windows :=
     Some [TimeWindow \<lparr>tw_start = 0, tw_end = 10\<rparr>, TimeWindow \<lparr>tw_start = 5, tw_end = 15\<rparr>]\<rparr>"

theorem window_state_aggregates_witness:
  "contents (merge_all sum_ts [(record_new, two_windows 6), (record_new, two_windows 8)]
     (window_state_new ''app'' (JobId 1) 0)) (TimeWindow \<lparr>tw_start = 5, tw_end = 15\<rparr>) []
   = Some (two_windows 14)"
  using window_state_aggregates[of "[(record_new, two_windows 6), (record_new, two_windows 8)]"
      sum_ts "''app''" "JobId 1" 0 "TimeWindow \<lparr>tw_start = 5, tw_end = 15\<rparr>" "[]"]
  by (simp add: two_windows_def location_windows_def aggregate_def sum_ts_def record_new_def)

text \<open>
  C18: A finished window is handed over once.  Dropping a window removes it from the state and
  changes no other window; the flat map of the task that asks for it gets one record per key,
  in key order, the bytes of the key followed by those of the value, marked with the window;
  asking again gives nothing.
\<close>

theorem drop_then_read_once:
  assumes "concat_buf = (\<lambda>x y. Some (cat x y))"
    and "list_all (\<lambda>(key, r). distinct (location_windows r)) recs"
    and "st = merge_all red recs (window_state_new a j n)" and "w \<in> set (hm_keys (ws_windows st))"
    and "f = \<lparr>kf_parent_job_id = j, kf_task_number = n\<rparr>"
  shows "\<exists>st1 k sto1 sto2 sto3 kv. drop_window w (st, storage) = ((st1, sto1), k)
     \<and> contents st1 w = Map.empty \<and> (\<forall>v. v \<noteq> w \<longrightarrow> contents st1 v = contents st v)
     \<and> keyed_flat_map_element concat_buf f (trigger_of w) sto1 =
         Inr (map (\<lambda>(k, v). ERecord (k\<lparr>rec_values := cat (rec_values k) (rec_values v),
           rec_trigger_window := Some w\<rparr>)) kv, sto2)
     \<and> sorted_wrt bytes_less (keys_of kv)
     \<and> (\<forall>bytes. lookup bytes kv = aggregate red w bytes recs None)
     \<and> keyed_flat_map_element concat_buf f (trigger_of w) sto2 = Inr ([], sto3)"
proof -
  have ok: "state_ok st"
    using assms(3) merge_all_ok[OF state_ok_new] by simp
  obtain s where s: "map_of (ws_windows st) w = Some s"
    using assms(4) by (auto simp: hm_keys_def dest!: weak_map_of_SomeI)
  have ids: "f = \<lparr>kf_parent_job_id = ws_job_id st, kf_task_number = ws_task_number st\<rparr>"
    using assms(3,5) merge_all_ids[of red recs "window_state_new a j n"]
    by (simp add: window_state_new_def)
  have "lookup bytes (rs_kv s) = aggregate red w bytes recs None" for bytes
    using merge_all_contents[OF assms(2), of red "window_state_new a j n" w bytes,
        folded assms(3)] s
    by (simp add: contents_def[of st] contents_new)
  moreover have "sorted_wrt bytes_less (keys_of (rs_kv s))"
    using ok s by (auto simp: state_ok_def map_sorted_def)
  moreover obtain st1 k sto1 sto2 sto3 where
    "drop_window w (st, storage) = ((st1, sto1), k)"
    "contents st1 w = Map.empty" "\<forall>v. v \<noteq> w \<longrightarrow> contents st1 v = contents st v"
    "keyed_flat_map_element concat_buf f (trigger_of w) sto1 =
       Inr (map (\<lambda>(k, v). ERecord (k\<lparr>rec_values := cat (rec_values k) (rec_values v),
         rec_trigger_window := Some w\<rparr>)) (rs_kv s), sto2)"
    "keyed_flat_map_element concat_buf f (trigger_of w) sto2 = Inr ([], sto3)"
    using read_stored[OF assms(1) ok s ids, of storage] by blast
  ultimately show ?thesis
    by (intro exI[of _ st1] exI[of _ k] exI[of _ sto1] exI[of _ sto2] exI[of _ sto3]
        exI[of _ "rs_kv s"]) simp
qed

definition one_merged :: window_state where
  "one_merged = merge_all sum_ts [(record_new\<lparr>rec_values := [1]\<rparr>, (two_windows 6)\<lparr>rec_values := [7]\<rparr>)]
     (window_state_new ''app'' (JobId 1) 0)"

theorem drop_then_read_once_witness:
  "\<exists>st1 k sto1 sto2 kv. drop_window (TimeWindow \<lparr>tw_start = 0, tw_end = 10\<rparr>) (one_merged, [])
       = ((st1, sto1), k)
     \<and> keyed_flat_map_element (\<lambda>x y. Some (x @ y)) \<lparr>kf_parent_job_id = JobId 1, kf_task_number = 0\<rparr>
         (trigger_of (TimeWindow \<lparr>tw_start = 0, tw_end = 10\<rparr>)) sto1 =
         Inr (map (\<lambda>(k, v). ERecord (k\<lparr>rec_values := rec_values k @ rec_values v,
           rec_trigger_window := Some (TimeWindow \<lparr>tw_start = 0, tw_end = 10\<rparr>)\<rparr>)) kv, sto2)
     \<and> lookup [1] kv = Some ((two_windows 6)\<lparr>rec_values := [7]\<rparr>)"
proof -
  let ?w = "TimeWindow \<lparr>tw_start = 0, tw_end = 10\<rparr>"
  let ?recs = "[(record_new\<lparr>rec_values := [1]\<rparr>, (two_windows 6)\<lparr>rec_values := [7]\<rparr>)]"
  have d: "list_all (\<lambda>(key, r). distinct (location_windows r)) ?recs"
    by (simp add: two_windows_def location_windows_def record_new_def)
  have k: "?w \<in> set (hm_keys (ws_windows one_merged))"
    by (simp add: one_merged_def two_windows_def location_windows_def record_new_def merge_all_def
        merge_fold_eq merge_value_eq window_state_new_def hm_keys_def Let_def)
  have a: "aggregate sum_ts ?w [1] ?recs None = Some ((two_windows 6)\<lparr>rec_values := [7]\<rparr>)"
    by (simp add: aggregate_def two_windows_def location_windows_def sum_ts_def record_new_def)
  show ?thesis
    using drop_then_read_once[of "\<lambda>x y. Some (x @ y)" "\<lambda>x y. x @ y", OF refl d one_merged_def k refl,
        of "[]"] a by auto metis
qed

end
