(* ===== verification/Window_Reduce.thy ===== *)
theory Window_Reduce
  imports Keyed_State Runnables
begin

text \<open>
  Windowed reduction: \<open>WindowBaseReduceFunction\<close> (\<open>functions/system/window_base_reduce.rs\<close>)
  with its checkpoints, and the operator that drives it (\<open>reduce_runnable.rs\<close>): records are
  merged into their windows unless they are too old, a watermark moves the finished windows
  to the storage and emits one trigger record each, a barrier snapshots.  JSON is a
  parameter; iteration orders of hash maps are arguments.
\<close>

section \<open>Handles\<close>

record reduce_handle =
  rh_completed_checkpoint_id :: "checkpoint_id option"
  rh_current_windows :: "window list"

text \<open>
  The functions of \<open>serde_json\<close> the code calls: a handle and a window list to and from a
  string; parsing fails by \<open>None\<close>.
\<close>

record json_ops =
  js_of_handle :: "reduce_handle \<Rightarrow> string"
  js_of_windows :: "window list \<Rightarrow> string"
  js_to_handle :: "string \<Rightarrow> reduce_handle option"
  js_to_windows :: "string \<Rightarrow> window list option"

definition reduce_handle_default :: reduce_handle where
  "reduce_handle_default = \<lparr>rh_completed_checkpoint_id = None, rh_current_windows = []\<rparr>"

definition reduce_handle_from :: "json_ops \<Rightarrow> string \<Rightarrow> reduce_handle res" where
  "reduce_handle_from J handle =
     (if handle = [] then Inr reduce_handle_default
      else if hd handle = CHR ''['' then
        rbind (unwrap (js_to_windows J handle)) (\<lambda>windows.
          Inr \<lparr>rh_completed_checkpoint_id = None, rh_current_windows = windows\<rparr>)
      else unwrap (js_to_handle J handle))"

section \<open>The reduce function\<close>

record window_base_reduce =
  wb_state :: "window_state option"
  wb_window_checkpoints :: "(checkpoint_id, (window, bool) hmap) hmap"
  wb_skip_windows :: "window list"
  wb_windows_gauge :: nat

definition window_base_reduce_new :: window_base_reduce where
  "window_base_reduce_new = \<lparr>wb_state = None, wb_window_checkpoints = [], wb_skip_windows = [],
     wb_windows_gauge = 0\<rparr>"

definition initialize_state ::
    "json_ops \<Rightarrow> string option \<Rightarrow> window_base_reduce \<Rightarrow> window_base_reduce res" where
  "initialize_state J handle s = (case handle of
     None \<Rightarrow> Inr s
   | Some handle \<Rightarrow> rbind (reduce_handle_from J handle) (\<lambda>h.
       Inr (s\<lparr>wb_skip_windows := rh_current_windows h\<rparr>)))"

definition reduce_open ::
    "json_ops \<Rightarrow> string \<Rightarrow> task_id \<Rightarrow> string option \<Rightarrow> window_base_reduce \<Rightarrow>
     window_base_reduce res" where
  "reduce_open J application_id task handle s =
     initialize_state J handle (s\<lparr>wb_windows_gauge := 0,
       wb_state := Some (window_state_new application_id (t_job_id task) (t_task_number task))\<rparr>)"

definition can_skip_window :: "window_base_reduce \<Rightarrow> window \<Rightarrow> bool" where
  "can_skip_window s window \<longleftrightarrow> List.find (\<lambda>x. max_timestamp x = max_timestamp window
     \<and> min_timestamp x = min_timestamp window) (wb_skip_windows s) \<noteq> None"

definition filter_skip_window :: "window_base_reduce \<Rightarrow> window list \<Rightarrow> window list" where
  "filter_skip_window s windows = filter (\<lambda>w. \<not> can_skip_window s w) windows"

definition reduce_merge ::
    "reduce_fun \<Rightarrow> rlink_record \<Rightarrow> rlink_record \<Rightarrow> window_base_reduce \<Rightarrow> window_base_reduce res" where
  "reduce_merge reduce_fun key record s =
     rbind (unwrap (wb_state s)) (\<lambda>st.
     let (st, window_count) = merge reduce_fun key record st in
     Inr (s\<lparr>wb_state := Some st, wb_windows_gauge := window_count\<rparr>))"

definition reduce ::
    "reduce_fun \<Rightarrow> rlink_record \<Rightarrow> rlink_record \<Rightarrow> window_base_reduce \<Rightarrow> window_base_reduce res" where
  "reduce reduce_fun key record s =
     (if length (wb_skip_windows s) > 0
      then case rec_location_windows record of
        Some windows \<Rightarrow>
          (let filter_windows = filter_skip_window s windows in
           if length filter_windows = 0 then Inr s
           else reduce_merge reduce_fun key (record\<lparr>rec_location_windows := Some filter_windows\<rparr>) s)
      | None \<Rightarrow> reduce_merge reduce_fun key record s
      else reduce_merge reduce_fun key record s)"

text \<open>The loop of \<open>drop_state\<close> over the windows of the state.\<close>

fun drop_loop ::
    "u64 \<Rightarrow> window list \<Rightarrow> window_state \<times> drop_storage \<Rightarrow> nat \<Rightarrow>
     window list \<times> (window_state \<times> drop_storage) \<times> nat" where
  "drop_loop wm [] st remaining = ([], st, remaining)"
| "drop_loop wm (window # windows) st remaining =
     (if max_timestamp window \<le> wm
      then let (st, remaining) = drop_window window st;
               (dropped, st, remaining) = drop_loop wm windows st remaining
           in (window # dropped, st, remaining)
      else drop_loop wm windows st remaining)"

definition mark_dropped :: "window list \<Rightarrow> (window, bool) hmap \<Rightarrow> (window, bool) hmap" where
  "mark_dropped dropped m = map (\<lambda>(w, b). (w, if w \<in> set dropped then True else b)) m"

definition trigger_record :: "window \<Rightarrow> rlink_record" where
  "trigger_record w = record_new\<lparr>rec_trigger_window := Some w\<rparr>"

definition drop_state ::
    "(window list \<Rightarrow> window list) \<Rightarrow> u64 \<Rightarrow> window_base_reduce \<times> drop_storage \<Rightarrow>
     (rlink_record list \<times> window_base_reduce \<times> drop_storage) res" where
  "drop_state it watermark_timestamp = (\<lambda>(s, storage).
     rbind (unwrap (wb_state s)) (\<lambda>st.
     let (dropped, (st, storage), remaining) =
           drop_loop watermark_timestamp (windows_of it st) (st, storage) 0;
         s = s\<lparr>wb_state := Some st, wb_windows_gauge := remaining\<rparr> in
     if length dropped > 0
     then Inr (map trigger_record (sort_key max_timestamp dropped),
           s\<lparr>wb_window_checkpoints :=
               map (\<lambda>(c, m). (c, mark_dropped dropped m)) (wb_window_checkpoints s)\<rparr>, storage)
     else Inr ([], s, storage)))"

definition completed_ids :: "(checkpoint_id, (window, bool) hmap) hmap \<Rightarrow> checkpoint_id list" where
  "completed_ids cks = map fst (filter (\<lambda>(c, m). length (filter (\<lambda>(w, d). \<not> d) m) = 0) cks)"

definition snapshot_state ::
    "json_ops \<Rightarrow> (window list \<Rightarrow> window list) \<Rightarrow> checkpoint_id \<Rightarrow> window_base_reduce \<Rightarrow>
     (string \<times> window_base_reduce) res" where
  "snapshot_state J it checkpoint_id s =
     rbind (unwrap (wb_state s)) (\<lambda>st.
     let windows = windows_of it st;
         windows_map = map (\<lambda>w. (w, False)) windows;
         cks = AList.update checkpoint_id windows_map (wb_window_checkpoints s);
         completed_checkpoint_ids = completed_ids cks;
         cks = fold AList.delete completed_checkpoint_ids cks;
         cks = (if length cks > 100 then AList.delete (Min (set (map fst cks))) cks else cks);
         max_checkpoint_id = (if completed_checkpoint_ids = [] then None
           else Some (Max (set completed_checkpoint_ids))) in
     Inr (js_of_handle J \<lparr>rh_completed_checkpoint_id = max_checkpoint_id,
            rh_current_windows = windows\<rparr>,
          s\<lparr>wb_window_checkpoints := cks\<rparr>))"

section \<open>The operator\<close>

text \<open>
  The key selector is optional; without one the key is empty.  The storage of finished
  windows is global and part of the state the operator works on.
\<close>

record reduce_operator =
  rr_operator_id :: operator_id
  rr_context :: "runnable_context option"
  rr_key_by :: "(rlink_record \<Rightarrow> rlink_record \<times> rlink_record) option"
  rr_reduce :: window_base_reduce
  rr_limited_watermark_window :: window
  rr_completed_checkpoint_id :: "checkpoint_id option"
  rr_counter :: u64
  rr_expire_counter :: u64

definition reduce_operator_new ::
    "operator_id \<Rightarrow> (rlink_record \<Rightarrow> rlink_record \<times> rlink_record) option \<Rightarrow> reduce_operator" where
  "reduce_operator_new operator_id key_by = \<lparr>rr_operator_id = operator_id, rr_context = None,
     rr_key_by = key_by, rr_reduce = window_base_reduce_new,
     rr_limited_watermark_window = window_default, rr_completed_checkpoint_id = None,
     rr_counter = 0, rr_expire_counter = 0\<rparr>"

definition reduce_operator_open ::
    "json_ops \<Rightarrow> string \<Rightarrow> string option \<Rightarrow> runnable_context \<Rightarrow> reduce_operator \<Rightarrow>
     reduce_operator res" where
  "reduce_operator_open J application_id handle ctx s =
     rbind (reduce_open J application_id (rc_task_id ctx) handle (rr_reduce s)) (\<lambda>f.
       Inr (s\<lparr>rr_context := Some ctx, rr_reduce := f, rr_counter := 0, rr_expire_counter := 0\<rparr>))"

text \<open>A record is acceptable unless its latest window starts before the limit.\<close>

definition acceptable :: "window \<Rightarrow> rlink_record \<Rightarrow> bool" where
  "acceptable limited record = (case max_location_window record of
     Some window \<Rightarrow> min_timestamp window \<ge> min_timestamp limited
   | None \<Rightarrow> True)"

definition reduce_checkpoint ::
    "json_ops \<Rightarrow> (window list \<Rightarrow> window list) \<Rightarrow> reduce_operator \<Rightarrow> snapshot_context \<Rightarrow>
     (checkpoint \<times> reduce_operator) res" where
  "reduce_checkpoint J it s sc =
     rbind (snapshot_state J it (sc_checkpoint_id sc) (rr_reduce s)) (\<lambda>(handle, f).
     rbind (reduce_handle_from J handle) (\<lambda>fn_handle.
       Inr (\<lparr>ck_operator_id = sc_operator_id sc, ck_task_id = sc_task_id sc,
             ck_checkpoint_id = sc_checkpoint_id sc,
             ck_completed_checkpoint_id = rh_completed_checkpoint_id fn_handle,
             ck_handle = js_of_windows J (rh_current_windows fn_handle)\<rparr>,
            s\<lparr>rr_reduce := f,
              rr_completed_checkpoint_id := rh_completed_checkpoint_id fn_handle\<rparr>)))"

definition reduce_record ::
    "reduce_fun \<Rightarrow> reduce_operator \<Rightarrow> rlink_record \<Rightarrow> reduce_operator res" where
  "reduce_record reduce_fun s record =
     (if \<not> acceptable (rr_limited_watermark_window s) record
      then Inr (s\<lparr>rr_expire_counter := rr_expire_counter s + 1\<rparr>)
      else let (key, record) = (case rr_key_by s of
             Some get_key \<Rightarrow> get_key record | None \<Rightarrow> (record_new, record)) in
        rbind (reduce reduce_fun key record (rr_reduce s)) (\<lambda>f.
          Inr (s\<lparr>rr_reduce := f, rr_counter := rr_counter s + 1\<rparr>)))"

definition reduce_watermark ::
    "(window list \<Rightarrow> window list) \<Rightarrow> reduce_operator \<Rightarrow> drop_storage \<Rightarrow> watermark \<Rightarrow>
     ((reduce_operator \<times> drop_storage) \<times> action list) res" where
  "reduce_watermark it s storage watermark = (case wm_min_location_windows watermark of
     Some min_watermark_window \<Rightarrow>
       rbind (drop_state it (min_timestamp min_watermark_window) (rr_reduce s, storage))
         (\<lambda>(drop_events, f, storage).
         Inr ((s\<lparr>rr_limited_watermark_window := min_watermark_window, rr_reduce := f\<rparr>, storage),
              map (\<lambda>r. Emit (ERecord r)) drop_events))
   | None \<Rightarrow> Inl Unreachable)"

fun reduce_run ::
    "json_ops \<Rightarrow> (window list \<Rightarrow> window list) \<Rightarrow> reduce_fun \<Rightarrow> (reduce_operator \<times> drop_storage) run" where
  "reduce_run J it reduce_fun (s, storage) (ERecord record) =
     rbind (reduce_record reduce_fun s record) (\<lambda>s. Inr ((s, storage), []))"
| "reduce_run J it reduce_fun (s, storage) (EWatermark watermark) =
     reduce_watermark it s storage watermark"
| "reduce_run J it reduce_fun (s, storage) (EBarrier barrier) =
     rbind (unwrap (rr_context s)) (\<lambda>context.
     rbind (reduce_checkpoint J it s
         (checkpoint_context context (rr_operator_id s) (b_checkpoint_id barrier) None)) (\<lambda>(ck, s).
     let barrier = (case rr_completed_checkpoint_id s of
           Some c \<Rightarrow> set_completed_checkpoint_id barrier c | None \<Rightarrow> barrier) in
     Inr ((s, storage), [Submit ck, Emit (EBarrier barrier)])))"
| "reduce_run J it reduce_fun (s, storage) (EStreamStatus stream_status) =
     Inr ((s, storage), [Emit (EStreamStatus stream_status)])"

section \<open>Open windows\<close>

definition open_windows :: "window_base_reduce \<Rightarrow> window set" where
  "open_windows s = (case wb_state s of None \<Rightarrow> {} | Some st \<Rightarrow> set (hm_keys (ws_windows st)))"

lemma merge_value_keys:
  "set (hm_keys (ws_windows (snd (merge_value f w key p)))) =
     insert w (set (hm_keys (ws_windows (snd p))))"
  by (cases p)
    (auto simp: merge_value_def hm_keys_def dom_update Let_def split: option.splits prod.splits)

lemma merge_value_hm_ok:
  "hm_ok (ws_windows (snd p)) \<Longrightarrow> hm_ok (ws_windows (snd (merge_value f w key p)))"
  by (cases p) (auto simp: merge_value_def Let_def split: option.splits prod.splits)

lemma merge_keys:
  "set (hm_keys (ws_windows (fst (merge f key r st)))) =
     set (location_windows r) \<union> set (hm_keys (ws_windows st))"
proof -
  have "set (hm_keys (ws_windows (snd (fold (\<lambda>w. merge_value f w key) ws p)))) =
      set ws \<union> set (hm_keys (ws_windows (snd p)))" for ws p
    by (induction ws arbitrary: p) (auto simp: merge_value_keys)
  then show ?thesis by (simp add: merge_fold_eq Let_def)
qed

lemma merge_hm_ok: "hm_ok (ws_windows st) \<Longrightarrow> hm_ok (ws_windows (fst (merge f key r st)))"
proof -
  have "hm_ok (ws_windows (snd p)) \<Longrightarrow>
      hm_ok (ws_windows (snd (fold (\<lambda>w. merge_value f w key) ws p)))" for ws p
    by (induction ws arbitrary: p) (auto simp: merge_value_hm_ok)
  then show "hm_ok (ws_windows st) \<Longrightarrow> ?thesis" by (simp add: merge_fold_eq Let_def)
qed

text \<open>A reduce function that has been opened: its state exists and is a proper map.\<close>

definition opened :: "window_base_reduce \<Rightarrow> bool" where
  "opened s \<longleftrightarrow> (\<exists>st. wb_state s = Some st \<and> hm_ok (ws_windows st))"

lemma can_skip_iff: "can_skip_window s w \<longleftrightarrow> w \<in> set (wb_skip_windows s)"
proof -
  have "(max_timestamp x = max_timestamp w \<and> min_timestamp x = min_timestamp w) = (x = w)" for x
    by (cases x; cases w) (auto simp: time_window.equality)
  then show ?thesis
    by (auto simp: can_skip_window_def find_None_iff)
qed

lemma reduce_merge_step:
  assumes "opened s"
  shows "\<exists>s'. reduce_merge f key r s = Inr s' \<and> opened s'
     \<and> open_windows s' = set (location_windows r) \<union> open_windows s
     \<and> wb_window_checkpoints s' = wb_window_checkpoints s \<and> wb_skip_windows s' = wb_skip_windows s"
proof -
  from assms obtain st where st: "wb_state s = Some st" "hm_ok (ws_windows st)"
    by (auto simp: opened_def)
  obtain st' n where m: "merge f key r st = (st', n)" by fastforce
  show ?thesis
    using st m merge_keys[of f key r st] merge_hm_ok[OF st(2), of f key r]
    by (simp add: reduce_merge_def opened_def open_windows_def)
qed

lemma reduce_step:
  assumes "opened s"
  shows "\<exists>s'. reduce f key r s = Inr s' \<and> opened s'
     \<and> open_windows s' \<subseteq> (set (location_windows r) - set (wb_skip_windows s)) \<union> open_windows s
     \<and> open_windows s \<subseteq> open_windows s'
     \<and> wb_window_checkpoints s' = wb_window_checkpoints s \<and> wb_skip_windows s' = wb_skip_windows s"
proof (cases "wb_skip_windows s = [] \<or> rec_location_windows r = None")
  case True
  then show ?thesis
    using reduce_merge_step[OF assms, of f key r]
    by (auto simp: reduce_def location_windows_def split: option.splits)
next
  case False
  then obtain ws where ws: "wb_skip_windows s \<noteq> []" "rec_location_windows r = Some ws" by auto
  let ?ws = "filter_skip_window s ws"
  have f: "set ?ws = set ws - set (wb_skip_windows s)"
    by (auto simp: filter_skip_window_def can_skip_iff)
  show ?thesis
    using ws f assms reduce_merge_step[OF assms, of f key "r\<lparr>rec_location_windows := Some ?ws\<rparr>"]
    by (cases "?ws = []") (auto simp: reduce_def location_windows_def)
qed

lemma drop_window_step:
  "drop_window w (st, storage) = ((st', storage'), n) \<Longrightarrow>
   set (hm_keys (ws_windows st')) = set (hm_keys (ws_windows st)) - {w}
   \<and> (hm_ok (ws_windows st) \<longrightarrow> hm_ok (ws_windows st'))"
  by (auto simp: drop_window_def hm_keys_def Let_def delete_keys map_of_eq_None_iff
      simp flip: set_map split: option.splits)

lemma drop_loop_step:
  "drop_loop wm ws (st, storage) n = (dropped, (st', storage'), n') \<Longrightarrow>
   dropped = filter (\<lambda>w. max_timestamp w \<le> wm) ws
   \<and> set (hm_keys (ws_windows st')) = set (hm_keys (ws_windows st)) - set dropped
   \<and> (hm_ok (ws_windows st) \<longrightarrow> hm_ok (ws_windows st'))"
proof (induction ws arbitrary: st storage n dropped st' storage' n')
  case Nil
  then show ?case by simp
next
  case (Cons w ws)
  show ?case
  proof (cases "max_timestamp w \<le> wm")
    case False
    then show ?thesis using Cons by simp
  next
    case True
    obtain st1 sto1 n1 where d: "drop_window w (st, storage) = ((st1, sto1), n1)"
      by (metis prod.collapse)
    obtain dropped1 where r: "drop_loop wm ws (st1, sto1) n1 = (dropped1, (st', storage'), n')"
      "dropped = w # dropped1"
      using Cons.prems True d by (auto split: prod.splits)
    show ?thesis
      using Cons.IH[OF r(1)] drop_window_step[OF d] r(2) True by auto
  qed
qed


lemma drop_state_step:
  assumes "opened s" "iteration_order it"
  shows "\<exists>trig s' storage'. drop_state it wm (s, storage) = Inr (map trigger_record trig, s', storage')
     \<and> opened s' \<and> set trig = {w \<in> open_windows s. max_timestamp w \<le> wm} \<and> distinct trig
     \<and> sorted (map max_timestamp trig)
     \<and> open_windows s' = open_windows s - set trig \<and> wb_skip_windows s' = wb_skip_windows s
     \<and> wb_window_checkpoints s' =
         map (\<lambda>(c, m). (c, mark_dropped trig m)) (wb_window_checkpoints s)"
proof -
  from assms(1) obtain st where st: "wb_state s = Some st" "hm_ok (ws_windows st)"
    by (auto simp: opened_def)
  let ?ws = "windows_of it st"
  obtain dropped st' storage' n where
    l: "drop_loop wm ?ws (st, storage) 0 = (dropped, (st', storage'), n)"
    by (metis prod.collapse)
  have ws: "set ?ws = open_windows s" "distinct ?ws"
    using st iteration_order.set_it[OF assms(2)] iteration_order.distinct_it[OF assms(2)]
    by (auto simp: windows_of_def open_windows_def hm_ok_def hm_keys_def)
  note d = drop_loop_step[OF l]
  have m: "mark_dropped (sort_key max_timestamp xs) = mark_dropped xs" for xs
    by (simp add: mark_dropped_def fun_eq_iff)
  have e: "dropped = [] \<Longrightarrow> map (\<lambda>(c, m). (c, mark_dropped dropped m)) cks = cks" for cks
    by (induction cks) (auto simp: mark_dropped_def)
  let ?s = "s\<lparr>wb_state := Some st', wb_windows_gauge := n, wb_window_checkpoints :=
    map (\<lambda>(c, m). (c, mark_dropped dropped m)) (wb_window_checkpoints s)\<rparr>"
  have r: "drop_state it wm (s, storage) =
      Inr (map trigger_record (sort_key max_timestamp dropped), ?s, storage')"
    using st(1) l e[of "wb_window_checkpoints s"]
    by (cases s; cases "dropped = []") (simp_all add: drop_state_def)
  show ?thesis
    using r st d ws
    by (intro exI[of _ "sort_key max_timestamp dropped"] exI[of _ ?s] exI[of _ storage'])
      (auto simp: opened_def open_windows_def m)
qed

section \<open>Snapshots\<close>

text \<open>
  The contract of the JSON functions: what is printed is parsed back, an object does not
  start like an array.
\<close>

locale reduce_json =
  fixes J :: json_ops
  assumes handle_roundtrip: "js_to_handle J (js_of_handle J h) = Some h"
    and windows_roundtrip: "js_to_windows J (js_of_windows J ws) = Some ws"
    and handle_head: "\<exists>c cs. js_of_handle J h = c # cs \<and> c \<noteq> CHR ''[''"
    and windows_head: "\<exists>cs. js_of_windows J ws = CHR ''['' # cs"
begin

lemma from_handle: "reduce_handle_from J (js_of_handle J h) = Inr h"
  using handle_head[of h] handle_roundtrip[of h] by (auto simp: reduce_handle_from_def)

lemma from_windows: "reduce_handle_from J (js_of_windows J ws) =
    Inr \<lparr>rh_completed_checkpoint_id = None, rh_current_windows = ws\<rparr>"
  using windows_head[of ws] windows_roundtrip[of ws] by (auto simp: reduce_handle_from_def)

end

lemma delete_subset: "set (AList.delete k m) \<subseteq> set m"
  by (auto simp: AList.delete_eq)

lemma fold_delete_subset: "set (fold AList.delete ks m) \<subseteq> set m"
  using delete_subset by (induction ks arbitrary: m) fastforce+

lemma fold_delete_length: "length (fold AList.delete ks m) \<le> length m"
proof (induction ks arbitrary: m)
  case (Cons k ks)
  have "length (AList.delete k m) \<le> length m" by (simp add: AList.delete_eq)
  then show ?case
    using Cons[of "AList.delete k m"] by simp
qed simp

lemma delete_length: "k \<in> fst ` set m \<Longrightarrow> length (AList.delete k m) < length m"
  by (auto simp: AList.delete_eq intro: length_filter_less)

lemma update_length: "length (AList.update k v m) \<le> Suc (length m)"
  by (induction m) auto

lemma completed_ids_all:
  "c \<in> set (completed_ids cks) \<Longrightarrow> \<exists>m. (c, m) \<in> set cks \<and> (\<forall>(w, d)\<in>set m. d)"
  by (auto simp: completed_ids_def filter_empty_conv)

lemma snapshot_state_step:
  assumes "opened s" "iteration_order it"
  shows "\<exists>completed ws s'. snapshot_state J it c s =
       Inr (js_of_handle J \<lparr>rh_completed_checkpoint_id = completed, rh_current_windows = ws\<rparr>, s')
     \<and> opened s' \<and> open_windows s' = open_windows s \<and> wb_skip_windows s' = wb_skip_windows s
     \<and> set ws = open_windows s
     \<and> set (wb_window_checkpoints s') \<subseteq>
         set (AList.update c (map (\<lambda>w. (w, False)) ws) (wb_window_checkpoints s))
     \<and> (\<forall>c'. completed = Some c' \<longrightarrow> (\<exists>m. (c', m) \<in>
           set (AList.update c (map (\<lambda>w. (w, False)) ws) (wb_window_checkpoints s))
           \<and> (\<forall>(w, d)\<in>set m. d)))
     \<and> (length (wb_window_checkpoints s) \<le> 100 \<longrightarrow> length (wb_window_checkpoints s') \<le> 100)"
proof -
  from assms(1) obtain st where st: "wb_state s = Some st" "hm_ok (ws_windows st)"
    by (auto simp: opened_def)
  let ?ws = "windows_of it st"
  let ?u = "AList.update c (map (\<lambda>w. (w, False)) ?ws) (wb_window_checkpoints s)"
  let ?ids = "completed_ids ?u"
  let ?d = "fold AList.delete ?ids ?u"
  let ?r = "if length ?d > 100 then AList.delete (Min (set (map fst ?d))) ?d else ?d"
  let ?c = "if ?ids = [] then None else Some (Max (set ?ids))"
  have ws: "set ?ws = open_windows s"
    using st iteration_order.set_it[OF assms(2)] by (auto simp: windows_of_def open_windows_def)
  have run: "snapshot_state J it c s =
      Inr (js_of_handle J \<lparr>rh_completed_checkpoint_id = ?c, rh_current_windows = ?ws\<rparr>,
        s\<lparr>wb_window_checkpoints := ?r\<rparr>)"
    using st(1) by (simp add: snapshot_state_def Let_def)
  have sub: "set ?r \<subseteq> set ?u"
    using delete_subset[of _ ?d] fold_delete_subset[of ?ids ?u] by auto
  have len: "length ?r \<le> 100" if "length (wb_window_checkpoints s) \<le> 100"
  proof (cases "length ?d > 100")
    case True
    then have "Min (set (map fst ?d)) \<in> set (map fst ?d)"
      by (intro Min_in) auto
    then have "length (AList.delete (Min (set (map fst ?d))) ?d) < length ?d"
      by (intro delete_length) simp
    then show ?thesis
      using True that fold_delete_length[of ?ids ?u]
        update_length[of c "map (\<lambda>w. (w, False)) ?ws" "wb_window_checkpoints s"] by simp
  qed simp
  have comp: "\<exists>m. (c', m) \<in> set ?u \<and> (\<forall>(w, d)\<in>set m. d)" if "?c = Some c'" for c'
  proof -
    have "?ids \<noteq> []" "c' = Max (set ?ids)" using that by (auto split: if_splits)
    then have "c' \<in> set ?ids" using Max_in[of "set ?ids"] by simp
    then show ?thesis by (rule completed_ids_all)
  qed
  show ?thesis
    using run sub len comp ws st
    by (intro exI[of _ ?c] exI[of _ ?ws] exI[of _ "s\<lparr>wb_window_checkpoints := ?r\<rparr>"])
      (simp add: opened_def open_windows_def)
qed

section \<open>The operator over a stream\<close>

fun fired :: "element list \<Rightarrow> window list" where
  "fired [] = []"
| "fired (ERecord r # es) = (case rec_trigger_window r of None \<Rightarrow> [] | Some w \<Rightarrow> [w]) @ fired es"
| "fired (e # es) = fired es"

lemma fired_append [simp]: "fired (xs @ ys) = fired xs @ fired ys"
  by (induction xs rule: fired.induct) auto

lemma fired_triggers [simp]: "fired (map (\<lambda>r. ERecord (trigger_record r)) ws) = ws"
  by (induction ws) (simp_all add: trigger_record_def)

lemma emitted_triggers [simp]:
  "emitted (map (\<lambda>x. Emit (ERecord (trigger_record x))) ws) = map (\<lambda>r. ERecord (trigger_record r)) ws"
  "submitted (map (\<lambda>x. Emit (ERecord (trigger_record x))) ws) = []"
  by (induction ws) auto

text \<open>
  A stream as the reduce operator gets it: the windows of a record contain its time and the
  last of them starts no later; a watermark carries its windows, whose first start never
  falls below \<open>lim\<close>, the last one seen.
\<close>

definition record_placed :: "rlink_record \<Rightarrow> bool" where
  "record_placed r \<longleftrightarrow> rec_trigger_window r = None \<and> (\<forall>w\<in>set (location_windows r).
     min_timestamp w \<le> rec_timestamp r \<and> rec_timestamp r < max_timestamp w)"

fun placed_stream :: "u64 \<Rightarrow> element list \<Rightarrow> bool" where
  "placed_stream lim [] \<longleftrightarrow> True"
| "placed_stream lim (ERecord r # es) \<longleftrightarrow> record_placed r \<and> placed_stream lim es"
| "placed_stream lim (EWatermark x # es) \<longleftrightarrow> (case wm_min_location_windows x of
     None \<Rightarrow> False | Some w \<Rightarrow> lim \<le> min_timestamp w \<and> placed_stream (min_timestamp w) es)"
| "placed_stream lim (e # es) \<longleftrightarrow> placed_stream lim es"

text \<open>The key selector reads the record but leaves its windows alone.\<close>

definition key_by_keeps :: "(rlink_record \<Rightarrow> rlink_record \<times> rlink_record) option \<Rightarrow> bool" where
  "key_by_keeps kb \<longleftrightarrow> (case kb of None \<Rightarrow> True
     | Some g \<Rightarrow> \<forall>r. rec_location_windows (snd (g r)) = rec_location_windows r)"

text \<open>An operator that is open, and the limit it stands at.\<close>

definition running :: "reduce_operator \<Rightarrow> bool" where
  "running s \<longleftrightarrow> rr_context s \<noteq> None \<and> opened (rr_reduce s) \<and> key_by_keeps (rr_key_by s)"

abbreviation limit :: "reduce_operator \<Rightarrow> u64" where
  "limit s \<equiv> min_timestamp (rr_limited_watermark_window s)"

abbreviation open_of :: "reduce_operator \<Rightarrow> window set" where
  "open_of s \<equiv> open_windows (rr_reduce s)"

abbreviation cks_of :: "reduce_operator \<Rightarrow> (checkpoint_id, (window, bool) hmap) hmap" where
  "cks_of s \<equiv> wb_window_checkpoints (rr_reduce s)"

abbreviation skip_of :: "reduce_operator \<Rightarrow> window list" where
  "skip_of s \<equiv> wb_skip_windows (rr_reduce s)"

lemma accepted_windows_open:
  assumes "record_placed r" "acceptable lim r" "w \<in> set (location_windows r)"
  shows "min_timestamp lim < max_timestamp w"
proof -
  obtain ws where ws: "rec_location_windows r = Some ws" "w \<in> set ws"
    using assms(3) by (cases "rec_location_windows r") (auto simp: location_windows_def)
  then have "last ws \<in> set ws" by (intro last_in_set) auto
  then have "min_timestamp (last ws) \<le> rec_timestamp r" "rec_timestamp r < max_timestamp w"
    using assms(1) ws by (auto simp: record_placed_def location_windows_def)
  moreover have "min_timestamp lim \<le> min_timestamp (last ws)"
    using assms(2) ws by (auto simp: acceptable_def max_location_window_def split: if_splits)
  ultimately show ?thesis by order
qed

lemma reduce_record_step:
  assumes "running s" "record_placed r"
  shows "\<exists>s'. reduce_record f s r = Inr s' \<and> running s'
     \<and> rr_limited_watermark_window s' = rr_limited_watermark_window s
     \<and> open_of s \<subseteq> open_of s'
     \<and> (\<forall>w\<in>open_of s'. w \<in> open_of s \<or> limit s < max_timestamp w \<and> w \<notin> set (skip_of s))
     \<and> cks_of s' = cks_of s \<and> skip_of s' = skip_of s"
proof (cases "acceptable (rr_limited_watermark_window s) r")
  case False
  then show ?thesis
    using assms(1) by (simp add: reduce_record_def running_def)
next
  case True
  obtain key r' where k: "(case rr_key_by s of Some g \<Rightarrow> g r | None \<Rightarrow> (record_new, r)) = (key, r')"
    by fastforce
  have lw: "location_windows r' = location_windows r"
  proof (cases "rr_key_by s")
    case None
    then show ?thesis using k by simp
  next
    case (Some g)
    then have "rec_location_windows (snd (g r)) = rec_location_windows r"
      using assms(1) by (simp add: running_def key_by_keeps_def)
    then show ?thesis using k Some by (simp add: location_windows_def)
  qed
  have "opened (rr_reduce s)" using assms(1) by (simp add: running_def)
  from reduce_step[OF this, of f key r'] obtain b where
    b: "reduce f key r' (rr_reduce s) = Inr b" "opened b"
      "open_windows b \<subseteq> (set (location_windows r) - set (skip_of s)) \<union> open_of s"
      "open_of s \<subseteq> open_windows b"
      "wb_window_checkpoints b = cks_of s" "wb_skip_windows b = skip_of s"
    by (auto simp: lw)
  show ?thesis
    using True k b assms(1) accepted_windows_open[OF assms(2) True]
    by (auto simp: reduce_record_def running_def)
qed

lemma reduce_watermark_step:
  assumes "running s" "iteration_order it" "wm_min_location_windows x = Some v"
  shows "\<exists>trig s' storage'. reduce_watermark it s storage x =
       Inr ((s', storage'), map (\<lambda>w. Emit (ERecord (trigger_record w))) trig)
     \<and> running s' \<and> rr_limited_watermark_window s' = v
     \<and> set trig = {w \<in> open_of s. max_timestamp w \<le> min_timestamp v} \<and> distinct trig
     \<and> open_of s' = open_of s - set trig \<and> skip_of s' = skip_of s
     \<and> cks_of s' = map (\<lambda>(c, m). (c, mark_dropped trig m)) (cks_of s)"
proof -
  have "opened (rr_reduce s)" using assms(1) by (simp add: running_def)
  from drop_state_step[OF this assms(2), of "min_timestamp v" storage] obtain trig b storage' where
    b: "drop_state it (min_timestamp v) (rr_reduce s, storage) = Inr (map trigger_record trig, b, storage')"
      "opened b" "set trig = {w \<in> open_of s. max_timestamp w \<le> min_timestamp v}" "distinct trig"
      "open_windows b = open_of s - set trig" "wb_skip_windows b = skip_of s"
      "wb_window_checkpoints b = map (\<lambda>(c, m). (c, mark_dropped trig m)) (cks_of s)" by blast
  show ?thesis
    using b assms
    by (intro exI[of _ trig] exI[of _ "s\<lparr>rr_limited_watermark_window := v, rr_reduce := b\<rparr>"]
        exI[of _ storage']) (simp add: reduce_watermark_def running_def comp_def)
qed

context reduce_json
begin

lemma reduce_barrier_step:
  assumes "running s" "iteration_order it"
  shows "\<exists>ck b' s' ws. reduce_run J it f (s, storage) (EBarrier b) =
       Inr ((s', storage), [Submit ck, Emit (EBarrier b')])
     \<and> running s' \<and> rr_limited_watermark_window s' = rr_limited_watermark_window s
     \<and> open_of s' = open_of s \<and> skip_of s' = skip_of s \<and> set ws = open_of s
     \<and> ck_checkpoint_id ck = b_checkpoint_id b \<and> ck_operator_id ck = rr_operator_id s
     \<and> ck_handle ck = js_of_windows J ws
     \<and> set (cks_of s') \<subseteq> set (AList.update (b_checkpoint_id b) (map (\<lambda>w. (w, False)) ws) (cks_of s))
     \<and> (\<forall>c'. ck_completed_checkpoint_id ck = Some c' \<longrightarrow> (\<exists>m. (c', m) \<in>
           set (AList.update (b_checkpoint_id b) (map (\<lambda>w. (w, False)) ws) (cks_of s))
           \<and> (\<forall>(w, d)\<in>set m. d)))
     \<and> (length (cks_of s) \<le> 100 \<longrightarrow> length (cks_of s') \<le> 100)"
proof -
  obtain ctx where ctx: "rr_context s = Some ctx" using assms(1) by (auto simp: running_def)
  have "opened (rr_reduce s)" using assms(1) by (simp add: running_def)
  from snapshot_state_step[OF this assms(2), of J "b_checkpoint_id b"] obtain completed ws r where
    r: "snapshot_state J it (b_checkpoint_id b) (rr_reduce s) =
         Inr (js_of_handle J \<lparr>rh_completed_checkpoint_id = completed, rh_current_windows = ws\<rparr>, r)"
      "opened r" "open_windows r = open_of s" "wb_skip_windows r = skip_of s" "set ws = open_of s"
      "set (wb_window_checkpoints r) \<subseteq>
         set (AList.update (b_checkpoint_id b) (map (\<lambda>w. (w, False)) ws) (cks_of s))"
      "\<forall>c'. completed = Some c' \<longrightarrow> (\<exists>m. (c', m) \<in>
         set (AList.update (b_checkpoint_id b) (map (\<lambda>w. (w, False)) ws) (cks_of s))
         \<and> (\<forall>(w, d)\<in>set m. d))"
      "length (cks_of s) \<le> 100 \<longrightarrow> length (wb_window_checkpoints r) \<le> 100" by blast
  let ?s = "s\<lparr>rr_reduce := r, rr_completed_checkpoint_id := completed\<rparr>"
  let ?b = "case completed of Some c \<Rightarrow> set_completed_checkpoint_id b c | None \<Rightarrow> b"
  let ?ck = "\<lparr>ck_operator_id = rr_operator_id s, ck_task_id = rc_task_id ctx,
    ck_checkpoint_id = b_checkpoint_id b, ck_completed_checkpoint_id = completed,
    ck_handle = js_of_windows J ws\<rparr>"
  have run: "reduce_run J it f (s, storage) (EBarrier b) =
      Inr ((?s, storage), [Submit ?ck, Emit (EBarrier ?b)])"
    using ctx r(1) by (simp add: reduce_checkpoint_def from_handle checkpoint_context_def)
  have "running ?s"
    using assms(1) r(2) by (simp add: running_def)
  then show ?thesis
    using run r(3-8) by (intro exI[of _ ?ck] exI[of _ ?b] exI[of _ ?s] exI[of _ ws]) simp
qed

end

section \<open>What holds along a stream\<close>

text \<open>
  Windows that are open end after the limit, windows that have fired end at or before it, and
  none fired twice.
\<close>

definition fire_inv :: "action list \<Rightarrow> reduce_operator \<Rightarrow> bool" where
  "fire_inv past s \<longleftrightarrow> (\<forall>w\<in>open_of s. limit s < max_timestamp w)
     \<and> (\<forall>w\<in>set (fired (emitted past)). max_timestamp w \<le> limit s)
     \<and> distinct (fired (emitted past))"

text \<open>
  The report of checkpoint \<open>c\<close> is in the past and every window it listed has fired since.
\<close>

definition windows_fired_since :: "json_ops \<Rightarrow> checkpoint_id \<Rightarrow> action list \<Rightarrow> bool" where
  "windows_fired_since J c acts \<longleftrightarrow> (\<exists>pre ck mid ws. acts = pre @ Submit ck # mid
     \<and> ck_checkpoint_id ck = c \<and> ck_handle ck = js_of_windows J ws
     \<and> set ws \<subseteq> set (fired (emitted mid)))"

text \<open>The book-keeping of a checkpoint: its report, and the marked windows have fired since.\<close>

definition tracked :: "json_ops \<Rightarrow> action list \<Rightarrow> checkpoint_id \<times> (window, bool) hmap \<Rightarrow> bool" where
  "tracked J acts = (\<lambda>(c, m). \<exists>pre ck mid ws. acts = pre @ Submit ck # mid
     \<and> ck_checkpoint_id ck = c \<and> ck_handle ck = js_of_windows J ws
     \<and> set ws \<subseteq> fst ` set m \<and> (\<forall>(w, d)\<in>set m. d \<longrightarrow> w \<in> set (fired (emitted mid))))"

lemma tracked_append: "tracked J acts x \<Longrightarrow> tracked J (acts @ new) x"
proof -
  obtain c m where x: "x = (c, m)" by fastforce
  assume "tracked J acts x"
  then obtain pre ck mid ws where t: "acts = pre @ Submit ck # mid" "ck_checkpoint_id ck = c"
    "ck_handle ck = js_of_windows J ws" "set ws \<subseteq> fst ` set m"
    "\<forall>(w, d)\<in>set m. d \<longrightarrow> w \<in> set (fired (emitted mid))" by (auto simp: tracked_def x)
  then show ?thesis
    unfolding tracked_def x prod.case
    by (intro exI[of _ pre] exI[of _ ck] exI[of _ "mid @ new"] exI[of _ ws]) auto
qed

lemma tracked_mark:
  assumes "tracked J acts (c, m)" "set trig \<subseteq> set (fired (emitted new))"
  shows "tracked J (acts @ new) (c, mark_dropped trig m)"
proof -
  from assms(1) obtain pre ck mid ws where t: "acts = pre @ Submit ck # mid" "ck_checkpoint_id ck = c"
    "ck_handle ck = js_of_windows J ws" "set ws \<subseteq> fst ` set m"
    "\<forall>(w, d)\<in>set m. d \<longrightarrow> w \<in> set (fired (emitted mid))" by (auto simp: tracked_def)
  have "fst ` set (mark_dropped trig m) = fst ` set m"
    by (force simp: mark_dropped_def)
  then show ?thesis
    using t assms(2) unfolding tracked_def prod.case
    by (intro exI[of _ pre] exI[of _ ck] exI[of _ "mid @ new"] exI[of _ ws])
      (auto simp: mark_dropped_def split: if_splits)
qed

lemma tracked_complete:
  assumes "tracked J acts (c, m)" "\<forall>(w, d)\<in>set m. d"
  shows "windows_fired_since J c acts"
proof -
  from assms(1) obtain pre ck mid ws where t: "acts = pre @ Submit ck # mid" "ck_checkpoint_id ck = c"
    "ck_handle ck = js_of_windows J ws" "set ws \<subseteq> fst ` set m"
    "\<forall>(w, d)\<in>set m. d \<longrightarrow> w \<in> set (fired (emitted mid))" by (auto simp: tracked_def)
  have "fst ` set m \<subseteq> set (fired (emitted mid))"
    using t(5) assms(2) by auto
  then show ?thesis
    using t unfolding windows_fired_since_def
    by (intro exI[of _ pre] exI[of _ ck] exI[of _ mid] exI[of _ ws]) auto
qed

inductive justified :: "json_ops \<Rightarrow> action list \<Rightarrow> bool" for J where
  none: "justified J []"
| emit: "justified J acts \<Longrightarrow> justified J (acts @ [Emit e])"
| submit: "justified J acts \<Longrightarrow> (\<And>c. ck_completed_checkpoint_id ck = Some c \<Longrightarrow>
     windows_fired_since J c (acts @ [Submit ck])) \<Longrightarrow> justified J (acts @ [Submit ck])"

lemma justified_emits: "justified J acts \<Longrightarrow> justified J (acts @ map Emit es)"
proof (induction es rule: rev_induct)
  case (snoc e es)
  then show ?case using justified.emit[of J "acts @ map Emit es" e] by simp
qed simp

lemma justifiedD:
  "justified J acts \<Longrightarrow> acts = pre @ Submit ck # post \<Longrightarrow> ck_completed_checkpoint_id ck = Some c \<Longrightarrow>
   windows_fired_since J c (pre @ [Submit ck])"
proof (induction arbitrary: post rule: justified.induct)
  case (emit acts e)
  then show ?case by (cases post rule: rev_cases) auto
next
  case (submit acts ck')
  then show ?case by (cases post rule: rev_cases) auto
qed simp

lemma set_update_subset: "set (AList.update k v m) \<subseteq> insert (k, v) (set m)"
  by (induction m) auto

definition stream_inv :: "json_ops \<Rightarrow> action list \<Rightarrow> reduce_operator \<Rightarrow> bool" where
  "stream_inv J past s \<longleftrightarrow> running s \<and> fire_inv past s \<and> justified J past
     \<and> (\<forall>x\<in>set (cks_of s). tracked J past x) \<and> length (cks_of s) \<le> 100
     \<and> open_of s \<inter> set (skip_of s) = {}"

context reduce_json
begin

lemma stream_inv_record:
  assumes "stream_inv J past s" "record_placed r"
  shows "\<exists>s'. reduce_run J it f (s, storage) (ERecord r) = Inr ((s', storage), [])
     \<and> stream_inv J past s' \<and> limit s' = limit s \<and> skip_of s' = skip_of s"
proof -
  have "running s" using assms(1) by (simp add: stream_inv_def)
  from reduce_record_step[OF this assms(2), of f] obtain s' where
    s': "reduce_record f s r = Inr s'" "running s'"
      "rr_limited_watermark_window s' = rr_limited_watermark_window s"
      "\<forall>w\<in>open_of s'. w \<in> open_of s \<or> limit s < max_timestamp w \<and> w \<notin> set (skip_of s)"
      "cks_of s' = cks_of s" "skip_of s' = skip_of s" by blast
  moreover have "fire_inv past s'"
    using assms(1) s'(3,4) by (auto simp: stream_inv_def fire_inv_def)
  moreover have "open_of s' \<inter> set (skip_of s') = {}"
    using assms(1) s'(4,6) by (auto simp: stream_inv_def)
  ultimately show ?thesis
    using assms(1) by (auto simp: stream_inv_def)
qed

lemma stream_inv_watermark:
  assumes "stream_inv J past s" "iteration_order it" "wm_min_location_windows x = Some v"
    and "limit s \<le> min_timestamp v"
  shows "\<exists>s' storage' acts. reduce_run J it f (s, storage) (EWatermark x) = Inr ((s', storage'), acts)
     \<and> stream_inv J (past @ acts) s' \<and> limit s' = min_timestamp v \<and> skip_of s' = skip_of s"
proof -
  have "running s" using assms(1) by (simp add: stream_inv_def)
  from reduce_watermark_step[OF this assms(2,3), of storage] obtain trig s' storage' where
    s': "reduce_watermark it s storage x =
         Inr ((s', storage'), map (\<lambda>w. Emit (ERecord (trigger_record w))) trig)"
      "running s'" "rr_limited_watermark_window s' = v"
      "set trig = {w \<in> open_of s. max_timestamp w \<le> min_timestamp v}" "distinct trig"
      "open_of s' = open_of s - set trig" "skip_of s' = skip_of s"
      "cks_of s' = map (\<lambda>(c, m). (c, mark_dropped trig m)) (cks_of s)" by blast
  let ?acts = "map (\<lambda>w. Emit (ERecord (trigger_record w))) trig"
  have "fire_inv (past @ ?acts) s'"
    using assms(1,4) s'(3-6) by (force simp: stream_inv_def fire_inv_def)
  moreover have "justified J (past @ ?acts)"
    using assms(1) justified_emits[of J past "map (\<lambda>w. ERecord (trigger_record w)) trig"]
    by (simp add: stream_inv_def comp_def)
  moreover have "\<forall>y\<in>set (cks_of s'). tracked J (past @ ?acts) y"
    using assms(1) s'(8) tracked_mark[of J past _ _ trig ?acts] by (auto simp: stream_inv_def)
  ultimately show ?thesis
    using assms(1) s' by (auto simp: stream_inv_def)
qed

lemma stream_inv_barrier:
  assumes "stream_inv J past s" "iteration_order it"
  shows "\<exists>s' acts. reduce_run J it f (s, storage) (EBarrier b) = Inr ((s', storage), acts)
     \<and> stream_inv J (past @ acts) s' \<and> limit s' = limit s \<and> skip_of s' = skip_of s"
proof -
  have run: "running s" using assms(1) by (simp add: stream_inv_def)
  obtain ck b' s' ws where s': "reduce_run J it f (s, storage) (EBarrier b) =
       Inr ((s', storage), [Submit ck, Emit (EBarrier b')])"
     "running s'" "rr_limited_watermark_window s' = rr_limited_watermark_window s"
     "open_of s' = open_of s" "skip_of s' = skip_of s"
     "ck_checkpoint_id ck = b_checkpoint_id b" "ck_handle ck = js_of_windows J ws"
     "set (cks_of s') \<subseteq> set (AList.update (b_checkpoint_id b) (map (\<lambda>w. (w, False)) ws) (cks_of s))"
     "\<forall>c'. ck_completed_checkpoint_id ck = Some c' \<longrightarrow> (\<exists>m. (c', m) \<in>
           set (AList.update (b_checkpoint_id b) (map (\<lambda>w. (w, False)) ws) (cks_of s))
           \<and> (\<forall>(w, d)\<in>set m. d))"
     "length (cks_of s) \<le> 100 \<longrightarrow> length (cks_of s') \<le> 100"
    using reduce_barrier_step[OF run assms(2), of f storage b] by blast
  let ?u = "AList.update (b_checkpoint_id b) (map (\<lambda>w. (w, False)) ws) (cks_of s)"
  have new: "tracked J (past @ [Submit ck]) (b_checkpoint_id b, map (\<lambda>w. (w, False)) ws)"
    unfolding tracked_def prod.case using s'(6,7)
    by (intro exI[of _ past] exI[of _ ck] exI[of _ "[]"] exI[of _ ws]) (auto simp: image_image)
  have old: "tracked J (past @ [Submit ck]) y" if "y \<in> set (cks_of s)" for y
    using that assms(1) tracked_append[of J past y] by (simp add: stream_inv_def)
  have all: "tracked J (past @ [Submit ck]) y" if "y \<in> set ?u" for y
    using that set_update_subset[of "b_checkpoint_id b" "map (\<lambda>w. (w, False)) ws" "cks_of s"] new
      old by blast
  have "justified J (past @ [Submit ck])"
  proof (rule justified.submit)
    show "justified J past" using assms(1) by (simp add: stream_inv_def)
    fix c
    assume "ck_completed_checkpoint_id ck = Some c"
    then obtain m where "(c, m) \<in> set ?u" "\<forall>(w, d)\<in>set m. d" using s'(9) by blast
    then show "windows_fired_since J c (past @ [Submit ck])"
      using all tracked_complete by blast
  qed
  then have "justified J (past @ [Submit ck, Emit (EBarrier b')])"
    using justified.emit[of J "past @ [Submit ck]" "EBarrier b'"] by simp
  moreover have "\<forall>y\<in>set (cks_of s'). tracked J (past @ [Submit ck, Emit (EBarrier b')]) y"
    using all s'(8) tracked_append[of J "past @ [Submit ck]" _ "[Emit (EBarrier b')]"] by auto
  moreover have "fire_inv (past @ [Submit ck, Emit (EBarrier b')]) s'"
    using assms(1) s'(3,4) by (simp add: stream_inv_def fire_inv_def)
  ultimately show ?thesis
    using assms(1) s' by (auto simp: stream_inv_def)
qed

lemma stream_run:
  assumes "iteration_order it"
  shows "stream_inv J past s \<Longrightarrow> placed_stream (limit s) es \<Longrightarrow>
    \<exists>s' storage' acts. run_all (reduce_run J it f) (s, storage) es = Inr ((s', storage'), acts)
      \<and> stream_inv J (past @ acts) s' \<and> skip_of s' = skip_of s"
proof (induction es arbitrary: s storage past)
  case Nil
  then show ?case by simp
next
  case (Cons e es)
  have "\<exists>s1 sto1 a1. reduce_run J it f (s, storage) e = Inr ((s1, sto1), a1)
      \<and> stream_inv J (past @ a1) s1 \<and> placed_stream (limit s1) es \<and> skip_of s1 = skip_of s"
  proof (cases e)
    case (ERecord r)
    then show ?thesis
      using stream_inv_record[OF Cons.prems(1), of r it f storage] Cons.prems(2) by auto
  next
    case (EWatermark x)
    then obtain v where v: "wm_min_location_windows x = Some v" "limit s \<le> min_timestamp v"
      "placed_stream (min_timestamp v) es"
      using Cons.prems(2) by (auto split: option.splits)
    show ?thesis
      using stream_inv_watermark[OF Cons.prems(1) assms v(1,2), of f storage] v(3) EWatermark by auto
  next
    case (EBarrier b)
    then show ?thesis
      using stream_inv_barrier[OF Cons.prems(1) assms, of f storage b] Cons.prems(2) by auto
  next
    case (EStreamStatus ss)
    have "stream_inv J (past @ [Emit e]) s"
      using Cons.prems(1) justified.emit[of J past e] tracked_append[of J past _ "[Emit e]"] EStreamStatus
      by (auto simp: stream_inv_def fire_inv_def)
    then show ?thesis using Cons.prems(2) EStreamStatus by auto
  qed
  then obtain s1 sto1 a1 where r: "reduce_run J it f (s, storage) e = Inr ((s1, sto1), a1)"
    "stream_inv J (past @ a1) s1" "placed_stream (limit s1) es" "skip_of s1 = skip_of s" by blast
  from Cons.IH[OF r(2,3), of sto1] r(1,4) show ?case by fastforce
qed

end

section \<open>Streams placed by the sliding assigner\<close>

definition windows_at :: "sliding_windows \<Rightarrow> u64 \<Rightarrow> window list" where
  "windows_at a ts = (case assign_windows a ts of Some (Inr ws) \<Rightarrow> ws | _ \<Rightarrow> [])"

text \<open>The element the window assigner hands on.\<close>

fun place :: "sliding_windows \<Rightarrow> element \<Rightarrow> element" where
  "place a (ERecord r) = ERecord (r\<lparr>rec_location_windows := Some (windows_at a (rec_timestamp r))\<rparr>)"
| "place a (EWatermark x) = EWatermark (x\<lparr>wm_location_windows := Some (windows_at a (wm_timestamp x))\<rparr>)"
| "place a e = e"

text \<open>
  The stream before the assigner: times below \<open>2 ^ 60\<close> milliseconds, no trigger records,
  watermarks that never fall.
\<close>

fun wm_mono :: "u64 \<Rightarrow> element list \<Rightarrow> bool" where
  "wm_mono t [] \<longleftrightarrow> True"
| "wm_mono t (EWatermark x # es) \<longleftrightarrow>
     t \<le> wm_timestamp x \<and> wm_timestamp x < 2 ^ 60 \<and> wm_mono (wm_timestamp x) es"
| "wm_mono t (ERecord r # es) \<longleftrightarrow>
     rec_timestamp r < 2 ^ 60 \<and> rec_trigger_window r = None \<and> wm_mono t es"
| "wm_mono t (e # es) \<longleftrightarrow> wm_mono t es"

lemma small_time: "(t :: u64) < 1152921504606846976 \<longleftrightarrow> uint t < 1152921504606846976"
  by (simp add: word_less_def)

lemma windows_at_eq:
  assumes "sliding_ok a" "uint ts < 2 ^ 60"
  shows "windows_at a ts = map (win_at (sw_size a))
     (rev (starts_down (uint ts - uint (sw_size a)) (uint (sw_slide a)) (last_start a ts)))"
  using assign_windows_eq[OF assms] by (simp add: windows_at_def)

lemma window_assigner_places:
  assumes "sliding_ok (wo_assigner s)"
    and "is_record e \<Longrightarrow> uint (rec_timestamp (projr (into_record e))) < 2 ^ 60"
    and "\<And>x. e = EWatermark x \<Longrightarrow> uint (wm_timestamp x) < 2 ^ 60" and "\<not> is_barrier e"
  shows "window_assigner_run s e = Some (Inr (s, [Emit (place (wo_assigner s) e)]))"
  using assms assign_windows_eq[OF assms(1)]
  by (cases e) (simp_all add: windows_at_def)

lemma windows_at_mem:
  assumes "sliding_ok a" "uint ts < 2 ^ 60"
  shows "v \<in> set (windows_at a ts) \<longleftrightarrow> (\<exists>s. v = win_at (sw_size a) s
     \<and> (\<exists>k::nat. s = last_start a ts - int k * uint (sw_slide a)) \<and> 0 \<le> s
     \<and> uint ts < s + uint (sw_size a))"
proof -
  have "assign_windows a ts = Some (Inr (windows_at a ts))"
    using assign_windows_eq[OF assms] by (simp add: windows_at_def)
  then show ?thesis by (rule assign_windows_mem[OF assms])
qed

lemma start_bounds:
  assumes "sliding_ok a" "uint ts < 2 ^ 60" "s = last_start a ts - int k * uint (sw_slide a)" "0 \<le> s"
  shows "s \<le> uint ts" "uint (min_timestamp (win_at (sw_size a) s)) = s"
    "uint (max_timestamp (win_at (sw_size a) s)) = s + uint (sw_size a)"
proof -
  have "0 \<le> int k * uint (sw_slide a)" by simp
  then show le: "s \<le> uint ts"
    using last_start_bounds(2)[OF assms(1), of ts] assms(3) by linarith
  have "s < 2 ^ 60" using le assms(2) by linarith
  moreover have "uint (sw_size a) < 2 ^ 60" using assms(1) by (simp add: sliding_ok_def)
  ultimately show "uint (min_timestamp (win_at (sw_size a) s)) = s"
    "uint (max_timestamp (win_at (sw_size a) s)) = s + uint (sw_size a)"
    using win_at_bounds[OF assms(4)] by blast+
qed

lemma windows_at_contain:
  assumes "sliding_ok a" "uint ts < 2 ^ 60" "v \<in> set (windows_at a ts)"
  shows "min_timestamp v \<le> ts \<and> ts < max_timestamp v"
proof -
  from assms(3) windows_at_mem[OF assms(1,2)] obtain s k where
    s: "v = win_at (sw_size a) s" "s = last_start a ts - int k * uint (sw_slide a)" "0 \<le> s"
      "uint ts < s + uint (sw_size a)" by blast
  then show ?thesis
    using start_bounds[OF assms(1,2) s(2,3)] by (simp add: word_le_def word_less_def)
qed

lemma windows_at_nonempty:
  assumes "sliding_ok a" "uint ts < 2 ^ 60" "sw_slide a \<le> sw_size a"
  shows "windows_at a ts \<noteq> []"
proof -
  have "win_at (sw_size a) (last_start a ts) \<in> set (windows_at a ts)"
    unfolding windows_at_mem[OF assms(1,2)]
    using last_start_bounds(1,3)[OF assms(1), of ts] assms(3)
    by (intro exI[of _ "last_start a ts"]) (auto simp: word_le_def intro!: exI[of _ 0])
  then show ?thesis by auto
qed

lemma first_is_least:
  assumes "sliding_ok a" "uint ts < 2 ^ 60" "v \<in> set (windows_at a ts)"
  shows "min_timestamp (hd (windows_at a ts)) \<le> min_timestamp v"
proof -
  let ?l = "starts_down (uint ts - uint (sw_size a)) (uint (sw_slide a)) (last_start a ts)"
  have "sorted_wrt (\<lambda>x y. min_timestamp (win_at (sw_size a) x) < min_timestamp (win_at (sw_size a) y)) (rev ?l)"
    using starts_windows_desc[OF assms(1,2)] by (simp add: sorted_wrt_rev)
  then have "sorted_wrt (\<lambda>x y. min_timestamp x < min_timestamp y) (windows_at a ts)"
    by (simp add: windows_at_eq[OF assms(1,2)] sorted_wrt_map)
  then show ?thesis
    using assms(3) by (cases "windows_at a ts") auto
qed

text \<open>The start of the first window never falls as time goes on.\<close>

lemma last_start_cases:
  assumes "sliding_ok a" "uint t \<le> uint t'"
  shows "last_start a t = 0 \<or> (\<exists>k::nat. last_start a t = last_start a t' - int k * uint (sw_slide a))"
proof -
  let ?d = "uint (sw_slide a)" and ?o = "sw_offset a"
  have d: "0 < ?d" using assms(1) by (simp add: sliding_ok_def)
  have e: "uint x - (uint x - ?o) mod ?d = ?o + ?d * ((uint x - ?o) div ?d)" for x :: u64
    using mult_div_mod_eq[of ?d "uint x - ?o"] by linarith
  have q: "(uint t - ?o) div ?d \<le> (uint t' - ?o) div ?d"
    using assms(2) d by (intro zdiv_mono1) auto
  then have "?d * ((uint t - ?o) div ?d) \<le> ?d * ((uint t' - ?o) div ?d)"
    using d by simp
  then have "last_start a t = 0 \<or> last_start a t = ?o + ?d * ((uint t - ?o) div ?d)
      \<and> last_start a t' = ?o + ?d * ((uint t' - ?o) div ?d)"
    unfolding last_start_def e by linarith
  moreover have "?o + ?d * ((uint t - ?o) div ?d) = ?o + ?d * ((uint t' - ?o) div ?d)
      - int (nat ((uint t' - ?o) div ?d - (uint t - ?o) div ?d)) * ?d"
    using q by (simp add: algebra_simps)
  ultimately show ?thesis by metis
qed

lemma first_start_mono:
  assumes "sliding_ok a" "uint t \<le> uint t'" "uint t' < 2 ^ 60" "sw_slide a \<le> sw_size a"
  shows "min_timestamp (hd (windows_at a t)) \<le> min_timestamp (hd (windows_at a t'))"
proof -
  let ?d = "uint (sw_slide a)" and ?z = "uint (sw_size a)"
  have t: "uint t < 2 ^ 60" using assms(2,3) by linarith
  have d: "0 < ?d" "?d \<le> ?z" using assms(1,4) by (auto simp: sliding_ok_def word_le_def)
  have "hd (windows_at a t') \<in> set (windows_at a t')"
    using windows_at_nonempty[OF assms(1,3,4)] by simp
  then obtain s' k' where s': "hd (windows_at a t') = win_at (sw_size a) s'"
    "s' = last_start a t' - int k' * ?d" "0 \<le> s'" "uint t' < s' + ?z"
    unfolding windows_at_mem[OF assms(1,3)] by blast
  note b' = start_bounds[OF assms(1,3) s'(2,3)]
  have "\<exists>s (k::nat). s = last_start a t - int k * ?d \<and> 0 \<le> s \<and> uint t < s + ?z \<and> s \<le> s'"
  proof (cases "s' < last_start a t")
    case False
    then show ?thesis
      using last_start_bounds(1,3)[OF assms(1), of t] d
      by (intro exI[of _ "last_start a t"] exI[of _ 0]) auto
  next
    case True
    with s'(3) obtain k where k: "last_start a t = last_start a t' - int k * ?d"
      using last_start_cases[OF assms(1,2)] by auto
    have "int k * ?d < int k' * ?d" using True k s'(2) by linarith
    then have "k < k'" using d(1) by simp
    then have "s' = last_start a t - int (k' - k) * ?d"
      using k s'(2) by (simp add: of_nat_diff algebra_simps)
    then show ?thesis
      using s'(3,4) assms(2) by (intro exI[of _ s'] exI[of _ "k' - k"]) auto
  qed
  then obtain s k where s: "s = last_start a t - int k * ?d" "0 \<le> s" "uint t < s + ?z" "s \<le> s'"
    by blast
  then have "win_at (sw_size a) s \<in> set (windows_at a t)"
    unfolding windows_at_mem[OF assms(1) t] by blast
  from first_is_least[OF assms(1) t this] show ?thesis
    using start_bounds(2)[OF assms(1) t s(1,2)] b'(2) s(4) s'(1) by (simp add: word_le_def)
qed

lemma sliding_placed:
  assumes "sliding_ok a" "sw_slide a \<le> sw_size a"
  shows "wm_mono t es \<Longrightarrow> t < 2 ^ 60 \<Longrightarrow> placed_stream (min_timestamp (hd (windows_at a t))) (map (place a) es)"
proof (induction t es rule: wm_mono.induct)
  case (2 t x es)
  let ?t = "wm_timestamp x"
  have u: "uint ?t < 2 ^ 60" "uint t \<le> uint ?t" using 2 by (auto simp: small_time word_le_def)
  obtain v vs where v: "windows_at a ?t = v # vs"
    using windows_at_nonempty[OF assms(1) u(1) assms(2)] by (cases "windows_at a ?t") auto
  have "min_timestamp (hd (windows_at a t)) \<le> min_timestamp v"
    using first_start_mono[OF assms(1) u(2,1) assms(2)] v by simp
  then show ?case
    using 2 v by (simp add: wm_min_location_windows_def)
next
  case (3 t r es)
  then have "uint (rec_timestamp r) < 2 ^ 60" by (simp add: small_time)
  then show ?case
    using 3 windows_at_contain[OF assms(1)] by (auto simp: record_placed_def location_windows_def)
qed auto

section \<open>A concrete encoding of handles\<close>

text \<open>
  Strings with eight characters per number: a window is 16 characters, a window list is
  bracketed, a handle starts with a brace, a flag and the completed id.
\<close>

definition enc64 :: "u64 \<Rightarrow> string" where
  "enc64 x = map (\<lambda>b. char_of (unat b)) (to_be 8 (unat x))"

definition dec64 :: "string \<Rightarrow> u64" where
  "dec64 s = of_nat (of_be 0 (map (\<lambda>c. of_nat (of_char c :: nat)) s))"

fun enc_windows :: "window list \<Rightarrow> string" where
  "enc_windows [] = []"
| "enc_windows (TimeWindow w # ws) = enc64 (tw_start w) @ enc64 (tw_end w) @ enc_windows ws"

function dec_windows :: "string \<Rightarrow> window list" where
  "dec_windows s = (if s = [] then [] else
     TimeWindow \<lparr>tw_start = dec64 (take 8 s), tw_end = dec64 (take 8 (drop 8 s))\<rparr>
     # dec_windows (drop 16 s))"
  by pat_completeness auto
termination
  by (relation "measure length") auto

declare dec_windows.simps [simp del]

definition packed :: json_ops where
  "packed = \<lparr>js_of_handle = (\<lambda>h. CHR ''{'' # (case rh_completed_checkpoint_id h of
         None \<Rightarrow> CHR ''n'' # enc64 0 | Some c \<Rightarrow> CHR ''s'' # enc64 (ck_num c))
         @ enc_windows (rh_current_windows h)),
     js_of_windows = (\<lambda>ws. CHR ''['' # enc_windows ws),
     js_to_handle = (\<lambda>s. Some \<lparr>rh_completed_checkpoint_id = (if s ! 1 = CHR ''n'' then None
         else Some (CheckpointId (dec64 (take 8 (drop 2 s))))),
       rh_current_windows = dec_windows (drop 10 s)\<rparr>),
     js_to_windows = (\<lambda>s. Some (dec_windows (drop 1 s)))\<rparr>"

lemma length_enc64 [simp]: "length (enc64 x) = 8"
  by (simp add: enc64_def)

lemma dec_enc64 [simp]: "dec64 (enc64 x) = x"
proof -
  have "unat b mod 256 = unat b" for b :: u8
    using unsigned_less[of b, where 'a = nat] by simp
  then have "map (\<lambda>c. of_nat (of_char c :: nat)) (enc64 x) = to_be 8 (unat x)"
    by (simp add: enc64_def comp_def)
  moreover have "unat x < 256 ^ 8"
    using unsigned_less[of x, where 'a = nat] by simp
  ultimately show ?thesis by (simp add: dec64_def of_be_to_be)
qed

lemma enc64_nonempty [simp]: "enc64 x \<noteq> []"
  using length_enc64[of x] by (metis length_0_conv zero_neq_numeral)

lemma dec_enc_windows: "dec_windows (enc_windows ws) = ws"
proof (induction ws rule: enc_windows.induct)
  case 1
  then show ?case by (simp add: dec_windows.simps)
next
  case (2 w ws)
  then show ?case by (subst dec_windows.simps) simp
qed

interpretation packed: reduce_json packed
proof
  fix h ws
  show "js_to_handle packed (js_of_handle packed h) = Some h"
    by (cases "rh_completed_checkpoint_id h")
      (simp_all add: packed_def dec_enc_windows)
qed (auto simp: packed_def dec_enc_windows split: option.splits)

section \<open>Properties\<close>

text \<open>An operator just opened, fresh or with the windows of a checkpoint report.\<close>

lemma opened_start:
  assumes "reduce_operator_open J app handle ctx (reduce_operator_new opid kb) = Inr s"
    and "key_by_keeps kb"
  shows "stream_inv J [] s \<and> limit s = 0"
  using assms
  by (auto simp: reduce_operator_open_def reduce_operator_new_def reduce_open_def initialize_state_def
      window_base_reduce_new_def stream_inv_def running_def opened_def window_state_new_def
      fire_inv_def open_windows_def hm_keys_def window_default_def justified.none rbind_eq_Inr
      split: option.splits)

lemma restored_skip:
  assumes "reduce_json J"
    and "reduce_operator_open J app (Some (js_of_windows J ws)) ctx (reduce_operator_new opid kb) = Inr s"
  shows "skip_of s = ws"
  using assms(2)
  by (auto simp: reduce_operator_open_def reduce_operator_new_def reduce_open_def initialize_state_def
      window_base_reduce_new_def reduce_json.from_windows[OF assms(1)])

lemma opened_run:
  assumes "reduce_json J" "iteration_order it" "sliding_ok a" "sw_slide a \<le> sw_size a"
    and "key_by_keeps kb" and "wm_mono 0 es"
    and "reduce_operator_open J app handle ctx (reduce_operator_new opid kb) = Inr s"
  shows "\<exists>s' storage' acts. run_all (reduce_run J it f) (s, storage) (map (place a) es)
       = Inr ((s', storage'), acts) \<and> stream_inv J acts s' \<and> skip_of s' = skip_of s"
proof -
  note st = opened_start[OF assms(7,5)]
  have "placed_stream (min_timestamp (hd (windows_at a 0))) (map (place a) es)"
    using sliding_placed[OF assms(3,4,6)] by simp
  moreover have "min_timestamp (hd (windows_at a 0)) = 0"
  proof -
    have "hd (windows_at a 0) \<in> set (windows_at a 0)"
      using windows_at_nonempty[OF assms(3) _ assms(4), of 0] by simp
    then show ?thesis using windows_at_contain[OF assms(3), of 0] by fastforce
  qed
  ultimately have "placed_stream (limit s) (map (place a) es)" using st by simp
  then show ?thesis
    using reduce_json.stream_run[OF assms(1,2), of "[]" s "map (place a) es" f storage] st by simp
qed


text \<open>An operator for the examples, windows of length 10 sliding by 5, and a short stream.\<close>

definition an_assigner :: sliding_windows where
  "an_assigner = \<lparr>sw_size = 10, sw_slide = 5, sw_offset = 0\<rparr>"

definition an_operator :: reduce_operator where
  "an_operator = projr (reduce_operator_open packed ''app'' None a_context
     (reduce_operator_new (OperatorId 1) None))"

definition a_stream :: "element list" where
  "a_stream = [ERecord (record_new\<lparr>rec_timestamp := 7\<rparr>), new_barrier (CheckpointId 1),
     new_watermark 30, ERecord (record_new\<lparr>rec_timestamp := 8\<rparr>),
     ERecord (record_new\<lparr>rec_timestamp := 40\<rparr>), new_barrier (CheckpointId 2)]"

lemma an_operator_open:
  "reduce_operator_open packed ''app'' None a_context (reduce_operator_new (OperatorId 1) None)
     = Inr an_operator"
  by (simp add: an_operator_def reduce_operator_open_def reduce_open_def initialize_state_def)

lemma a_stream_ok:
  "sliding_ok an_assigner" "sw_slide an_assigner \<le> sw_size an_assigner" "key_by_keeps None"
  "wm_mono 0 a_stream"
  by (simp_all add: sliding_ok_def an_assigner_def key_by_keeps_def a_stream_def new_barrier_def
      new_watermark_def watermark_new_def record_new_def)



text \<open>The run of the example: checkpoint 2 reports that checkpoint 1 is completed.\<close>

lemma an_assigner_windows:
  "windows_at an_assigner 7 = [TimeWindow \<lparr>tw_start = 0, tw_end = 10\<rparr>, TimeWindow \<lparr>tw_start = 5, tw_end = 15\<rparr>]"
  "windows_at an_assigner 8 = [TimeWindow \<lparr>tw_start = 0, tw_end = 10\<rparr>, TimeWindow \<lparr>tw_start = 5, tw_end = 15\<rparr>]"
  "windows_at an_assigner 30 = [TimeWindow \<lparr>tw_start = 25, tw_end = 35\<rparr>, TimeWindow \<lparr>tw_start = 30, tw_end = 40\<rparr>]"
  "windows_at an_assigner 40 = [TimeWindow \<lparr>tw_start = 35, tw_end = 45\<rparr>, TimeWindow \<lparr>tw_start = 40, tw_end = 50\<rparr>]"
  using a_stream_ok(1)
  by (simp_all add: windows_at_eq an_assigner_def last_start_def starts_down.simps win_at_def as_u64_def)

definition a_run :: "(reduce_operator \<times> drop_storage) \<times> action list" where
  "a_run = projr (run_all (reduce_run packed rev (pure_reduce sum_ts)) (an_operator, [])
     (map (place an_assigner) a_stream))"

lemma a_run_eq: "run_all (reduce_run packed rev (pure_reduce sum_ts)) (an_operator, [])
    (map (place an_assigner) a_stream) = Inr (fst a_run, snd a_run)"
  using opened_run[OF packed.reduce_json_axioms reverse_order.iteration_order_axioms
      a_stream_ok an_operator_open, of "pure_reduce sum_ts" "[]"]
  by (auto simp: a_run_def)

lemma a_run_submits:
  "map (\<lambda>ck. (ck_checkpoint_id ck, ck_completed_checkpoint_id ck)) (submitted (snd a_run))
     = [(CheckpointId 1, None), (CheckpointId 2, Some (CheckpointId 1))]"
  unfolding a_run_def an_operator_def a_stream_def
  by (simp add: new_barrier_def new_watermark_def an_assigner_windows record_new_def watermark_new_def
      barrier_new_def reduce_operator_open_def reduce_open_def initialize_state_def
      reduce_operator_new_def window_base_reduce_new_def window_state_new_def a_context_def
      reduce_record_def acceptable_def max_location_window_def reduce_def reduce_merge_def
      merge_fold_eq merge_value_eq contents_def rs_insert_def reducing_state_new_def
      reduce_watermark_def wm_min_location_windows_def drop_state_def windows_of_def hm_keys_def
      drop_window_def append_drop_window_def reduce_checkpoint_def snapshot_state_def
      completed_ids_def packed.from_handle mark_dropped_def location_windows_def
      window_default_def checkpoint_context_def Let_def)

lemma submitted_in: "ck \<in> set (submitted acts) \<Longrightarrow> Submit ck \<in> set acts"
  by (induction acts rule: submitted.induct) auto


text \<open>
  Bounded book-keeping.  Along such a stream the operator keeps the windows of at most
  100 checkpoints.
\<close>

lemma checkpoint_books_bounded:
  assumes "reduce_json J" "iteration_order it" "sliding_ok a" "sw_slide a \<le> sw_size a"
    and "key_by_keeps kb" and "wm_mono 0 es"
    and "reduce_operator_open J app handle ctx (reduce_operator_new opid kb) = Inr s"
  shows "\<exists>s' storage' acts. run_all (reduce_run J it f) (s, storage) (map (place a) es)
       = Inr ((s', storage'), acts) \<and> length (wb_window_checkpoints (rr_reduce s')) \<le> 100"
  using opened_run[OF assms, of f storage] by (auto simp: stream_inv_def)

text \<open>
  C29: Recovery does not aggregate a window twice.  An operator opened with the windows of a
  checkpoint report never re-opens one of them: whatever records follow, the windows that
  were under way when the checkpoint was taken stay out of the new state.
\<close>

theorem restored_windows_skipped:
  assumes "reduce_json J" "iteration_order it" "sliding_ok a" "sw_slide a \<le> sw_size a"
    and "key_by_keeps kb" and "wm_mono 0 es"
    and "reduce_operator_open J app (Some (js_of_windows J ws)) ctx (reduce_operator_new opid kb) = Inr s"
  shows "\<exists>s' storage' acts. run_all (reduce_run J it f) (s, storage) (map (place a) es)
       = Inr ((s', storage'), acts) \<and> open_windows (rr_reduce s') \<inter> set ws = {}"
  using opened_run[OF assms, of f storage] restored_skip[OF assms(1,7)]
  by (auto simp: stream_inv_def)

theorem restored_windows_skipped_witness:
  "\<exists>s' storage' acts. run_all (reduce_run packed rev (pure_reduce sum_ts))
       (projr (reduce_operator_open packed ''app'' (Some (js_of_windows packed
          [TimeWindow \<lparr>tw_start = 5, tw_end = 15\<rparr>])) a_context (reduce_operator_new (OperatorId 1) None)), [])
       (map (place an_assigner) a_stream) = Inr ((s', storage'), acts)
     \<and> open_windows (rr_reduce s') \<inter> {TimeWindow \<lparr>tw_start = 5, tw_end = 15\<rparr>} = {}"
proof -
  let ?o = "reduce_operator_open packed ''app'' (Some (js_of_windows packed
    [TimeWindow \<lparr>tw_start = 5, tw_end = 15\<rparr>])) a_context (reduce_operator_new (OperatorId 1) None)"
  have "?o = Inr (projr ?o)"
    by (simp add: reduce_operator_open_def reduce_open_def initialize_state_def packed.from_windows)
  from restored_windows_skipped[OF packed.reduce_json_axioms reverse_order.iteration_order_axioms
      a_stream_ok this] show ?thesis by simp
qed

end
