(* ===== verification/Dag_Types.thy ===== *)
theory Dag_Types
  imports Runtime_Ids
begin

text \<open>
  The nodes of the execution plan (\<open>rlink/src/dag\<close>): the schema an operator declares
  (\<open>core/data_types.rs\<close>, \<open>core/element.rs\<close>), the kinds of operators, the errors of the
  planner, and the node of the stream graph and of the job graph.
\<close>

section \<open>Schemas\<close>

datatype data_type = Boolean | Int8 | UInt8 | Int16 | UInt16 | Int32 | UInt32 | Int64 | UInt64
  | Float32 | Float64 | Binary | String

fun data_type_len :: "data_type \<Rightarrow> nat" where
  "data_type_len Boolean = 1"
| "data_type_len Int8 = 1"
| "data_type_len UInt8 = 1"
| "data_type_len Int16 = 2"
| "data_type_len UInt16 = 2"
| "data_type_len Int32 = 4"
| "data_type_len UInt32 = 4"
| "data_type_len Int64 = 8"
| "data_type_len UInt64 = 8"
| "data_type_len Float32 = 4"
| "data_type_len Float64 = 8"
| "data_type_len Binary = 0"
| "data_type_len String = 0"

record schema_field =
  f_name :: string
  f_data_type :: data_type
  f_len :: nat
  f_type_id :: u8

text \<open>The numbers of the types (\<open>serbuffer::types\<close>) are a parameter \<open>type_id\<close>.\<close>

definition field_new :: "(data_type \<Rightarrow> u8) \<Rightarrow> string \<Rightarrow> data_type \<Rightarrow> schema_field" where
  "field_new type_id name data_type = \<lparr>f_name = name, f_data_type = data_type,
     f_len = data_type_len data_type, f_type_id = type_id data_type\<rparr>"

record schema =
  s_fields :: "schema_field list"
  s_type_ids :: "u8 list"

definition schema_new :: "schema_field list \<Rightarrow> schema" where
  "schema_new fs = \<lparr>s_fields = fs, s_type_ids = map f_type_id fs\<rparr>"

definition schema_empty :: schema where
  "schema_empty = \<lparr>s_fields = [], s_type_ids = []\<rparr>"

definition add_field :: "schema \<Rightarrow> schema_field \<Rightarrow> schema" where
  "add_field s f = s\<lparr>s_type_ids := s_type_ids s @ [f_type_id f], s_fields := s_fields s @ [f]\<rparr>"

definition schema_merge :: "schema \<Rightarrow> schema \<Rightarrow> schema" where
  "schema_merge s t = fold (\<lambda>f s. add_field s f) (s_fields t) s"

datatype fn_schema = Empty | Single schema | Tuple schema schema

fun fn_schema_first :: "fn_schema \<Rightarrow> schema res" where
  "fn_schema_first (Single v) = Inr v"
| "fn_schema_first (Tuple v v1) = Inr v"
| "fn_schema_first Empty = Inl Explicit_panic"

fun fn_schema_into :: "fn_schema \<Rightarrow> schema res" where
  "fn_schema_into (Single v) = Inr v"
| "fn_schema_into _ = Inl Explicit_panic"

section \<open>Operators, errors and nodes\<close>

datatype operator_type = Source | FlatMap | Filter | CoProcess | KeyBy | Reduce
  | WatermarkAssigner | WindowAssigner | Sink

datatype dag_error = WouldCycle | SourceNotFound | SourceNotAtStarting | SinkNotAtEnding
  | ReduceOutputParallelismConflict | NotCombineOperator | ParentOperatorNotFound
  | ChildNotFoundInPipeline | MultiChildrenInPipeline | IllegalInputSplitSize string
  | OperatorNotFound operator_id | JobNotFound job_id | JobParallelismNotFound
  | OtherApiError string

record stream_node =
  sn_id :: operator_id
  sn_parent_ids :: "operator_id list"
  sn_parallelism :: u16
  sn_input_schema :: fn_schema
  sn_output_schema :: fn_schema
  sn_daemon :: bool
  sn_operator_name :: string
  sn_operator_type :: operator_type
  sn_fn_creator :: function_creator

record job_node =
  jn_job_id :: job_id
  jn_parallelism :: u16
  jn_stream_nodes :: "stream_node list"
  jn_child_job_ids :: "job_id list"
  jn_parent_job_ids :: "job_id list"

definition is_co_process_job :: "job_node \<Rightarrow> bool" where
  "is_co_process_job n =
     (List.find (\<lambda>s. sn_operator_type s = CoProcess) (jn_stream_nodes n) \<noteq> None)"

definition is_reduce_job :: "job_node \<Rightarrow> bool" where
  "is_reduce_job n =
     (List.find (\<lambda>s. sn_operator_type s = Reduce) (jn_stream_nodes n) \<noteq> None)"

definition is_daemon_job :: "job_node \<Rightarrow> bool res" where
  "is_daemon_job n = rbind (index_res (jn_stream_nodes n) 0) (\<lambda>s. Inr (sn_daemon s))"

lemma is_reduce_job_iff: "is_reduce_job n \<longleftrightarrow> (\<exists>s\<in>set (jn_stream_nodes n). sn_operator_type s = Reduce)"
  by (auto simp: is_reduce_job_def find_None_iff)

lemma is_co_process_job_iff:
  "is_co_process_job n \<longleftrightarrow> (\<exists>s\<in>set (jn_stream_nodes n). sn_operator_type s = CoProcess)"
  by (auto simp: is_co_process_job_def find_None_iff)

text \<open>A schema built by the constructors keeps the type numbers beside the fields.\<close>

definition schema_ok :: "schema \<Rightarrow> bool" where
  "schema_ok s \<longleftrightarrow> s_type_ids s = map f_type_id (s_fields s)"

lemma schema_ok_new [simp]: "schema_ok (schema_new fs)" "schema_ok schema_empty"
  by (simp_all add: schema_ok_def schema_new_def schema_empty_def)

lemma schema_merge_fields [simp]: "s_fields (schema_merge s t) = s_fields s @ s_fields t"
proof -
  have "s_fields (fold (\<lambda>f s. add_field s f) fs s) = s_fields s @ fs" for fs
    by (induction fs arbitrary: s) (simp_all add: add_field_def)
  then show ?thesis by (simp add: schema_merge_def)
qed

lemma schema_ok_merge: "schema_ok s \<Longrightarrow> schema_ok (schema_merge s t)"
proof -
  have "schema_ok s \<Longrightarrow> schema_ok (fold (\<lambda>f s. add_field s f) fs s)" for fs
    by (induction fs arbitrary: s) (simp_all add: add_field_def schema_ok_def)
  then show "schema_ok s \<Longrightarrow> schema_ok (schema_merge s t)" by (simp add: schema_merge_def)
qed

end
