(* ===== verification/Daggy.thy ===== *)
theory Daggy
  imports Rlink_Prelude
begin

text \<open>
  The graph type of the \<open>daggy\<close> crate, on which the planner builds its three graphs.  The
  crate is a parameter: a record of the functions the code calls on \<open>Dag<N, E>\<close>, with the
  documented behaviour as the locale \<open>daggy_graph\<close> over the two lists \<open>raw_nodes\<close> and
  \<open>raw_edges\<close> the crate exposes.  Node and edge indices are positions in these lists; the
  order in which a walker yields the children or parents of a node is left open.
\<close>

section \<open>The interface\<close>

record ('n, 'e, 'g) daggy =
  dg_new :: 'g
  dg_add_node :: "'g \<Rightarrow> 'n \<Rightarrow> nat \<times> 'g"
  dg_add_edge :: "'g \<Rightarrow> nat \<Rightarrow> nat \<Rightarrow> 'e \<Rightarrow> (nat \<times> 'g) option"
  dg_node :: "'g \<Rightarrow> nat \<Rightarrow> 'n option"
  dg_edge :: "'g \<Rightarrow> nat \<Rightarrow> 'e option"
  dg_children :: "'g \<Rightarrow> nat \<Rightarrow> (nat \<times> nat) list"
  dg_parents :: "'g \<Rightarrow> nat \<Rightarrow> (nat \<times> nat) list"
  dg_raw_nodes :: "'g \<Rightarrow> 'n list"
  dg_raw_edges :: "'g \<Rightarrow> (nat \<times> nat \<times> 'e) list"
  dg_remove_edge :: "'g \<Rightarrow> nat \<Rightarrow> 'g"

text \<open>Indexing a graph panics when the index is not in it.\<close>

definition dag_index :: "('n, 'e, 'g) daggy \<Rightarrow> 'g \<Rightarrow> nat \<Rightarrow> 'n res" where
  "dag_index G g i = (case dg_node G g i of None \<Rightarrow> Inl Index_out_of_bounds | Some n \<Rightarrow> Inr n)"

definition dag_edge_index :: "('n, 'e, 'g) daggy \<Rightarrow> 'g \<Rightarrow> nat \<Rightarrow> 'e res" where
  "dag_edge_index G g i = (case dg_edge G g i of None \<Rightarrow> Inl Index_out_of_bounds | Some e \<Rightarrow> Inr e)"

definition links :: "(nat \<times> nat \<times> 'e) list \<Rightarrow> (nat \<times> nat) set" where
  "links es = (\<lambda>(a, b, _). (a, b)) ` set es"

definition out_edges :: "(nat \<times> nat \<times> 'e) list \<Rightarrow> nat \<Rightarrow> (nat \<times> nat) list" where
  "out_edges es v = map (\<lambda>(i, a, b, _). (i, b)) (filter (\<lambda>(i, a, b, _). a = v) (enumerate 0 es))"

definition in_edges :: "(nat \<times> nat \<times> 'e) list \<Rightarrow> nat \<Rightarrow> (nat \<times> nat) list" where
  "in_edges es v = map (\<lambda>(i, a, b, _). (i, a)) (filter (\<lambda>(i, a, b, _). b = v) (enumerate 0 es))"

text \<open>Removing an edge gives its index to the last edge.\<close>

definition swap_remove :: "nat \<Rightarrow> 'x list \<Rightarrow> 'x list" where
  "swap_remove i xs = (if i < length xs then butlast (xs[i := last xs]) else xs)"

locale daggy_graph =
  fixes G :: "('n, 'e, 'g) daggy"
  assumes new_graph: "dg_raw_nodes G (dg_new G) = [] \<and> dg_raw_edges G (dg_new G) = []"
    and add_node: "dg_add_node G g n = (i, g') \<Longrightarrow>
      i = length (dg_raw_nodes G g) \<and> dg_raw_nodes G g' = dg_raw_nodes G g @ [n]
      \<and> dg_raw_edges G g' = dg_raw_edges G g"
    and add_edge: "dg_add_edge G g a b e = Some (i, g') \<Longrightarrow>
      i = length (dg_raw_edges G g) \<and> dg_raw_edges G g' = dg_raw_edges G g @ [(a, b, e)]
      \<and> dg_raw_nodes G g' = dg_raw_nodes G g"
    and add_edge_acyclic: "a < length (dg_raw_nodes G g) \<Longrightarrow> b < length (dg_raw_nodes G g) \<Longrightarrow>
      dg_add_edge G g a b e = None \<longleftrightarrow> (b, a) \<in> (links (dg_raw_edges G g))\<^sup>*"
    and node: "dg_node G g i =
      (if i < length (dg_raw_nodes G g) then Some (dg_raw_nodes G g ! i) else None)"
    and edge: "dg_edge G g i =
      (if i < length (dg_raw_edges G g) then Some (snd (snd (dg_raw_edges G g ! i))) else None)"
    and children: "mset (dg_children G g v) = mset (out_edges (dg_raw_edges G g) v)"
    and parents: "mset (dg_parents G g v) = mset (in_edges (dg_raw_edges G g) v)"
    and remove_edge: "dg_raw_edges G (dg_remove_edge G g i) = swap_remove i (dg_raw_edges G g)
      \<and> dg_raw_nodes G (dg_remove_edge G g i) = dg_raw_nodes G g"
begin

lemma index_in: "i < length (dg_raw_nodes G g) \<Longrightarrow> dag_index G g i = Inr (dg_raw_nodes G g ! i)"
  by (simp add: dag_index_def node)

lemma index_eq: "dag_index G g i = Inr n \<longleftrightarrow> i < length (dg_raw_nodes G g) \<and> n = dg_raw_nodes G g ! i"
  by (auto simp: dag_index_def node)

end

section \<open>Lists of nodes and edges\<close>

text \<open>
  The plainest such graph: the two lists.  An edge is refused when its end reaches its
  start; reachability over at most as many steps as there are edges is enough.
\<close>

record ('n, 'e) list_graph =
  lg_nodes :: "'n list"
  lg_edges :: "(nat \<times> nat \<times> 'e) list"

fun reach_within :: "(nat \<times> nat \<times> 'e) list \<Rightarrow> nat \<Rightarrow> nat list \<Rightarrow> nat list" where
  "reach_within es 0 vs = vs"
| "reach_within es (Suc k) vs =
     reach_within es k (remdups (vs @ map (\<lambda>(a, b, _). b) (filter (\<lambda>(a, b, _). a \<in> set vs) es)))"

definition reaches :: "(nat \<times> nat \<times> 'e) list \<Rightarrow> nat \<Rightarrow> nat \<Rightarrow> bool" where
  "reaches es v w \<longleftrightarrow> w \<in> set (reach_within es (length es) [v])"

definition list_graph_ops :: "('n, 'e, ('n, 'e) list_graph) daggy" where
  "list_graph_ops = \<lparr>dg_new = \<lparr>lg_nodes = [], lg_edges = []\<rparr>,
     dg_add_node = (\<lambda>g n. (length (lg_nodes g), g\<lparr>lg_nodes := lg_nodes g @ [n]\<rparr>)),
     dg_add_edge = (\<lambda>g a b e. if reaches (lg_edges g) b a then None
       else Some (length (lg_edges g), g\<lparr>lg_edges := lg_edges g @ [(a, b, e)]\<rparr>)),
     dg_node = (\<lambda>g i. if i < length (lg_nodes g) then Some (lg_nodes g ! i) else None),
     dg_edge = (\<lambda>g i. if i < length (lg_edges g) then Some (snd (snd (lg_edges g ! i))) else None),
     dg_children = (\<lambda>g v. rev (out_edges (lg_edges g) v)),
     dg_parents = (\<lambda>g v. rev (in_edges (lg_edges g) v)),
     dg_raw_nodes = lg_nodes, dg_raw_edges = lg_edges,
     dg_remove_edge = (\<lambda>g i. g\<lparr>lg_edges := swap_remove i (lg_edges g)\<rparr>)\<rparr>"

lemma reach_within_set: "set (reach_within es k vs) = {w. \<exists>v\<in>set vs. \<exists>j\<le>k. (v, w) \<in> links es ^^ j}"
proof (induction k arbitrary: vs)
  case 0
  then show ?case by auto
next
  case (Suc k)
  let ?L = "links es"
  have nxt: "set (remdups (vs @ map (\<lambda>(a, b, _). b) (filter (\<lambda>(a, b, _). a \<in> set vs) es)))
      = set vs \<union> ?L `` set vs"
    by (force simp: links_def)
  have "(\<exists>v\<in>set vs \<union> ?L `` set vs. \<exists>j\<le>k. (v, w) \<in> ?L ^^ j) \<longleftrightarrow> (\<exists>v\<in>set vs. \<exists>j\<le>Suc k. (v, w) \<in> ?L ^^ j)"
    for w
  proof
    assume "\<exists>v\<in>set vs \<union> ?L `` set vs. \<exists>j\<le>k. (v, w) \<in> ?L ^^ j"
    then obtain v j where v: "v \<in> set vs \<union> ?L `` set vs" "j \<le> k" "(v, w) \<in> ?L ^^ j" by blast
    then consider "v \<in> set vs" | u where "u \<in> set vs" "(u, v) \<in> ?L" by blast
    then show "\<exists>v\<in>set vs. \<exists>j\<le>Suc k. (v, w) \<in> ?L ^^ j"
    proof cases
      case 1
      then show ?thesis using v(2,3) le_SucI by blast
    next
      case 2
      then have "(u, w) \<in> ?L ^^ Suc j" using v(3) by (meson relpow_Suc_I2)
      then show ?thesis using 2(1) v(2) Suc_le_mono by blast
    qed
  next
    assume "\<exists>v\<in>set vs. \<exists>j\<le>Suc k. (v, w) \<in> ?L ^^ j"
    then obtain v j where v: "v \<in> set vs" "j \<le> Suc k" "(v, w) \<in> ?L ^^ j" by blast
    show "\<exists>v\<in>set vs \<union> ?L `` set vs. \<exists>j\<le>k. (v, w) \<in> ?L ^^ j"
    proof (cases j)
      case 0
      then show ?thesis using v by (intro bexI[of _ v] exI[of _ 0]) auto
    next
      case (Suc i)
      then obtain u where "(v, u) \<in> ?L" "(u, w) \<in> ?L ^^ i" using v(3) relpow_Suc_D2 by metis
      then show ?thesis using v(1,2) Suc by (intro bexI[of _ u] exI[of _ i]) auto
    qed
  qed
  then show ?case unfolding reach_within.simps Suc.IH nxt by blast
qed

lemma reaches_iff: "reaches es v w \<longleftrightarrow> (v, w) \<in> (links es)\<^sup>*"
proof
  assume "reaches es v w"
  then show "(v, w) \<in> (links es)\<^sup>*"
    unfolding reaches_def reach_within_set by (auto intro: relpow_imp_rtrancl)
next
  assume "(v, w) \<in> (links es)\<^sup>*"
  moreover have fin: "finite (links es)" by (simp add: links_def)
  ultimately have "(v, w) \<in> (\<Union>n\<in>{n. n \<le> card (links es)}. links es ^^ n)"
    using rtrancl_finite_eq_relpow by blast
  moreover have "card (links es) \<le> length es"
    unfolding links_def by (rule order_trans[OF card_image_le card_length]) simp
  ultimately show "reaches es v w" unfolding reaches_def reach_within_set by (auto intro: order_trans)
qed

interpretation list_graph: daggy_graph list_graph_ops
  by unfold_locales (auto simp: list_graph_ops_def reaches_iff split: if_splits)

end
