(* ===== verification/Stream_Graph.thy ===== *)
theory Stream_Graph
  imports Dag_Types Daggy
begin

text \<open>
  The stream graph (\<open>rlink/src/dag/stream_graph.rs\<close>) and the operators it is made of
  (\<open>core/operator.rs\<close>): the user's program adds one operator after the other, and the
  builder inserts a virtual sink, a virtual source and, after a reduction, a virtual flat
  map wherever two operators cannot run in one pipeline.
\<close>

section \<open>Operators\<close>

record properties =
  pr_name :: string
  pr_map :: "(string, string) hmap"

definition properties_new :: properties where
  "properties_new = \<lparr>pr_name = [], pr_map = []\<rparr>"

record input_split =
  is_split_number :: u16
  is_properties :: properties

definition input_split_new :: "u16 \<Rightarrow> properties \<Rightarrow> input_split" where
  "input_split_new split_number props = \<lparr>is_split_number = split_number, is_properties = props\<rparr>"

text \<open>The default \<open>create_input_splits\<close>: one split per number below the parallelism.\<close>

definition create_input_splits :: "u16 \<Rightarrow> string + input_split list" where
  "create_input_splits min_num_splits =
     Inr (map (\<lambda>n. input_split_new (of_nat n) properties_new) [0..<unat min_num_splits])"

text \<open>
  What the planner asks of a function: its name, its schema (\<open>schema\<close>, \<open>key_schema\<close> or
  \<open>value_schema\<close>, by the kind of operator), whether a source is a daemon, and the splits of
  a source.
\<close>

record operator_fn =
  of_name :: string
  of_schema :: "fn_schema \<Rightarrow> fn_schema res"
  of_daemon :: bool
  of_splits :: "u16 \<Rightarrow> string + input_split list"

record default_operator =
  do_parallelism :: u16
  do_fn_creator :: function_creator
  do_fn :: operator_fn

definition default_operator_new :: "u16 \<Rightarrow> function_creator \<Rightarrow> operator_fn \<Rightarrow> default_operator" where
  "default_operator_new parallelism fn_creator f =
     \<lparr>do_parallelism = parallelism, do_fn_creator = fn_creator, do_fn = f\<rparr>"

datatype stream_operator =
    StreamSource default_operator
  | StreamFlatMap default_operator
  | StreamFilter default_operator
  | StreamCoProcess default_operator
  | StreamKeyBy default_operator
  | StreamReduce default_operator
  | StreamWatermarkAssigner default_operator
  | StreamWindowAssigner default_operator
  | StreamSink default_operator

definition DEFAULT_PARALLELISM :: u16 where
  "DEFAULT_PARALLELISM = 0"

definition new_source :: "u16 \<Rightarrow> function_creator \<Rightarrow> operator_fn \<Rightarrow> stream_operator" where
  "new_source parallelism fn_creator f = StreamSource (default_operator_new parallelism fn_creator f)"

definition new_map :: "operator_fn \<Rightarrow> stream_operator" where
  "new_map f = StreamFlatMap (default_operator_new DEFAULT_PARALLELISM User f)"

definition new_filter :: "operator_fn \<Rightarrow> stream_operator" where
  "new_filter f = StreamFilter (default_operator_new DEFAULT_PARALLELISM User f)"

definition new_co_process :: "operator_fn \<Rightarrow> stream_operator" where
  "new_co_process f = StreamCoProcess (default_operator_new DEFAULT_PARALLELISM User f)"

definition new_key_by :: "operator_fn \<Rightarrow> stream_operator" where
  "new_key_by f = StreamKeyBy (default_operator_new DEFAULT_PARALLELISM User f)"

definition new_reduce :: "u16 \<Rightarrow> operator_fn \<Rightarrow> stream_operator" where
  "new_reduce parallelism f = StreamReduce (default_operator_new parallelism User f)"

definition new_watermark_assigner :: "operator_fn \<Rightarrow> stream_operator" where
  "new_watermark_assigner f = StreamWatermarkAssigner (default_operator_new DEFAULT_PARALLELISM User f)"

definition new_window_assigner :: "operator_fn \<Rightarrow> stream_operator" where
  "new_window_assigner f = StreamWindowAssigner (default_operator_new DEFAULT_PARALLELISM User f)"

definition new_sink :: "function_creator \<Rightarrow> operator_fn \<Rightarrow> stream_operator" where
  "new_sink fn_creator f = StreamSink (default_operator_new DEFAULT_PARALLELISM fn_creator f)"

fun operator_default :: "stream_operator \<Rightarrow> default_operator" where
  "operator_default (StreamSource op) = op"
| "operator_default (StreamFlatMap op) = op"
| "operator_default (StreamFilter op) = op"
| "operator_default (StreamCoProcess op) = op"
| "operator_default (StreamKeyBy op) = op"
| "operator_default (StreamReduce op) = op"
| "operator_default (StreamWatermarkAssigner op) = op"
| "operator_default (StreamWindowAssigner op) = op"
| "operator_default (StreamSink op) = op"

definition operator_name :: "stream_operator \<Rightarrow> string" where
  "operator_name op = of_name (do_fn (operator_default op))"

definition operator_parallelism :: "stream_operator \<Rightarrow> u16" where
  "operator_parallelism op = do_parallelism (operator_default op)"

definition operator_fn_creator :: "stream_operator \<Rightarrow> function_creator" where
  "operator_fn_creator op = do_fn_creator (operator_default op)"

fun is_daemon :: "stream_operator \<Rightarrow> bool" where
  "is_daemon (StreamSource op) = of_daemon (do_fn op)"
| "is_daemon _ = False"

fun is_source :: "stream_operator \<Rightarrow> bool" where
  "is_source (StreamSource op) = True"
| "is_source _ = False"

fun operator_type_from :: "stream_operator \<Rightarrow> operator_type" where
  "operator_type_from (StreamSource _) = Source"
| "operator_type_from (StreamFlatMap _) = FlatMap"
| "operator_type_from (StreamFilter _) = Filter"
| "operator_type_from (StreamCoProcess _) = CoProcess"
| "operator_type_from (StreamKeyBy _) = KeyBy"
| "operator_type_from (StreamReduce _) = Reduce"
| "operator_type_from (StreamWatermarkAssigner _) = WatermarkAssigner"
| "operator_type_from (StreamWindowAssigner _) = WindowAssigner"
| "operator_type_from (StreamSink _) = Sink"

fun operator_schema :: "stream_operator \<Rightarrow> fn_schema \<Rightarrow> fn_schema res" where
  "operator_schema (StreamSource op) input_schema = of_schema (do_fn op) input_schema"
| "operator_schema (StreamFlatMap op) input_schema = of_schema (do_fn op) input_schema"
| "operator_schema (StreamFilter op) input_schema = Inr input_schema"
| "operator_schema (StreamCoProcess op) input_schema = of_schema (do_fn op) input_schema"
| "operator_schema (StreamKeyBy op) input_schema =
     rbind (of_schema (do_fn op) input_schema) (\<lambda>key_schema.
     rbind (fn_schema_into input_schema) (\<lambda>s.
     rbind (fn_schema_into key_schema) (\<lambda>k. Inr (Tuple s k))))"
| "operator_schema (StreamReduce op) input_schema =
     rbind (of_schema (do_fn op) input_schema) (\<lambda>value_schema.
     rbind (case input_schema of
         Single _ \<Rightarrow> fn_schema_into value_schema
       | Tuple _ key_schema \<Rightarrow>
           rbind (fn_schema_into value_schema) (\<lambda>v. Inr (schema_merge key_schema v))
       | Empty \<Rightarrow> Inl Explicit_panic) (\<lambda>schema.
     Inr (Tuple schema_empty schema)))"
| "operator_schema (StreamWatermarkAssigner op) input_schema = Inr input_schema"
| "operator_schema (StreamWindowAssigner op) input_schema = Inr input_schema"
| "operator_schema (StreamSink op) input_schema = of_schema (do_fn op) input_schema"

section \<open>The functions of the virtual operators\<close>

text \<open>\<open>SystemInputFormat\<close> and \<open>SystemOutputFormat\<close> pass the schema on.\<close>

definition system_input_fn :: operator_fn where
  "system_input_fn = \<lparr>of_name = ''SystemInputFormat'', of_schema = Inr, of_daemon = False,
     of_splits = create_input_splits\<rparr>"

definition system_output_fn :: operator_fn where
  "system_output_fn = \<lparr>of_name = ''SystemOutputFormat'', of_schema = Inr, of_daemon = False,
     of_splits = create_input_splits\<rparr>"

definition keyed_state_schema :: "fn_schema \<Rightarrow> fn_schema res" where
  "keyed_state_schema input_schema = (case input_schema of
     Tuple _ reduce_schema \<Rightarrow> Inr (Single reduce_schema) | _ \<Rightarrow> Inl Explicit_panic)"

definition keyed_state_fn :: operator_fn where
  "keyed_state_fn = \<lparr>of_name = ''KeyedStateFlatMapFunction'', of_schema = keyed_state_schema,
     of_daemon = False, of_splits = create_input_splits\<rparr>"

definition create_virtual_flat_map :: "u16 \<Rightarrow> stream_operator" where
  "create_virtual_flat_map parallelism =
     StreamFlatMap (default_operator_new parallelism System keyed_state_fn)"

definition create_virtual_source :: "u16 \<Rightarrow> stream_operator" where
  "create_virtual_source parallelism =
     StreamSource (default_operator_new parallelism System system_input_fn)"

definition create_virtual_sink :: "u16 \<Rightarrow> stream_operator" where
  "create_virtual_sink parallelism =
     StreamSink (default_operator_new parallelism System system_output_fn)"

section \<open>The builder\<close>

record stream_edge =
  se_edge_id :: string
  se_source_id :: operator_id
  se_target_id :: operator_id

text \<open>The fields \<open>stream_nodes\<close> and \<open>sinks\<close> of the code are never written or read.\<close>

record 'g raw_stream_graph =
  rg_stream_edges :: "nat list"
  rg_id_gen :: operator_id
  rg_operators :: "(operator_id, nat \<times> stream_operator) hmap"
  rg_sources :: "nat list"
  rg_user_sources :: "nat list"
  rg_dag :: 'g

definition raw_stream_graph_new :: "(stream_node, stream_edge, 'g) daggy \<Rightarrow> 'g raw_stream_graph" where
  "raw_stream_graph_new G = \<lparr>rg_stream_edges = [], rg_id_gen = OperatorId 0, rg_operators = [],
     rg_sources = [], rg_user_sources = [], rg_dag = dg_new G\<rparr>"

definition raw_operators :: "'g raw_stream_graph \<Rightarrow> (operator_id, stream_operator) hmap" where
  "raw_operators g = map (\<lambda>(operator_id, _, op). (operator_id, op)) (rg_operators g)"

definition pop_operators ::
    "'g raw_stream_graph \<Rightarrow> (operator_id, stream_operator) hmap \<times> 'g raw_stream_graph" where
  "pop_operators g = (raw_operators g, g\<lparr>rg_operators := []\<rparr>)"

text \<open>The schema handed to a new operator: that of its last parent.\<close>

definition input_schema_of ::
    "(stream_node, stream_edge, 'g) daggy \<Rightarrow> 'g raw_stream_graph \<Rightarrow> operator_id list \<Rightarrow> fn_schema res" where
  "input_schema_of G g parent_operator_ids =
     (if parent_operator_ids = [] then Inr Empty
      else rbind (unwrap (map_of (rg_operators g) (last parent_operator_ids))) (\<lambda>(p_node_index, _).
           rbind (dag_index G (rg_dag g) p_node_index) (\<lambda>n. Inr (sn_output_schema n))))"

definition add_parent_edge ::
    "(stream_node, stream_edge, 'g) daggy \<Rightarrow> operator_id \<Rightarrow> nat \<Rightarrow> operator_id \<Rightarrow> 'g raw_stream_graph \<Rightarrow>
     dag_error failure + 'g raw_stream_graph" where
  "add_parent_edge G stream_id node_index operator_parent_id g =
     rbind (case map_of (rg_operators g) operator_parent_id of
         None \<Rightarrow> Inl (Failed ParentOperatorNotFound) | Some x \<Rightarrow> Inr x) (\<lambda>(p_node_index, _).
     rbind (lift_panic (dag_index G (rg_dag g) p_node_index)) (\<lambda>p_stream_node.
     rbind (lift_panic (unwrap (dg_add_edge G (rg_dag g) p_node_index node_index
         \<lparr>se_edge_id = show_nat (unat (op_num (sn_id p_stream_node))) @ ''->'' @ show_nat (unat (op_num stream_id)),
          se_source_id = sn_id p_stream_node, se_target_id = stream_id\<rparr>))) (\<lambda>(edge_index, dag).
     Inr (g\<lparr>rg_dag := dag, rg_stream_edges := rg_stream_edges g @ [edge_index]\<rparr>))))"

definition add_operator0 ::
    "(stream_node, stream_edge, 'g) daggy \<Rightarrow> 'g raw_stream_graph \<Rightarrow> stream_operator \<Rightarrow> operator_id list \<Rightarrow>
     u16 \<Rightarrow> dag_error failure + operator_id \<times> 'g raw_stream_graph" where
  "add_operator0 G g op parent_operator_ids parallelism =
     (let operator_id = rg_id_gen g;
          g = g\<lparr>rg_id_gen := OperatorId (op_num operator_id + 1)\<rparr> in
      rbind (lift_panic (input_schema_of G g parent_operator_ids)) (\<lambda>input_schema.
      rbind (lift_panic (operator_schema op input_schema)) (\<lambda>output_schema.
      let stream_node = \<lparr>sn_id = operator_id, sn_parent_ids = parent_operator_ids,
            sn_parallelism = parallelism, sn_input_schema = input_schema,
            sn_output_schema = output_schema, sn_daemon = is_daemon op,
            sn_operator_name = operator_name op, sn_operator_type = operator_type_from op,
            sn_fn_creator = operator_fn_creator op\<rparr>;
          (node_index, dag) = dg_add_node G (rg_dag g) stream_node in
      rbind (fold_res (add_parent_edge G operator_id node_index) parent_operator_ids
          (g\<lparr>rg_dag := dag\<rparr>)) (\<lambda>g.
      let g = (if is_source op
               then (let g = (if parent_operator_ids = []
                              then g\<lparr>rg_user_sources := rg_user_sources g @ [node_index]\<rparr> else g) in
                     g\<lparr>rg_sources := rg_sources g @ [node_index]\<rparr>)
               else g) in
      Inr (operator_id,
        g\<lparr>rg_operators := AList.update operator_id (node_index, op) (rg_operators g)\<rparr>)))))"

fun check_operator :: "operator_type \<Rightarrow> operator_type \<Rightarrow> dag_error + bool" where
  "check_operator operator_type parent_operator_type =
     (case parent_operator_type of
        Source \<Rightarrow>
          if operator_type \<in> {FlatMap, Filter, WatermarkAssigner, KeyBy, Sink} then Inr True
          else if operator_type = Source then Inl SourceNotAtStarting else Inr False
      | FlatMap \<Rightarrow>
          if operator_type \<in> {FlatMap, Filter, WatermarkAssigner, KeyBy, Sink} then Inr True
          else if operator_type = Source then Inl SourceNotAtStarting else Inr False
      | Filter \<Rightarrow>
          if operator_type \<in> {FlatMap, Filter, WatermarkAssigner, KeyBy, Sink} then Inr True
          else if operator_type = Source then Inl SourceNotAtStarting else Inr False
      | WatermarkAssigner \<Rightarrow>
          if operator_type \<in> {FlatMap, Filter, WatermarkAssigner, KeyBy, Sink} then Inr True
          else if operator_type = Source then Inl SourceNotAtStarting else Inr False
      | CoProcess \<Rightarrow>
          if operator_type = KeyBy then Inr True
          else if operator_type = Source then Inl SourceNotAtStarting else Inr False
      | KeyBy \<Rightarrow> if operator_type = Source then Inl SourceNotAtStarting else Inr False
      | WindowAssigner \<Rightarrow>
          if operator_type = Reduce then Inr True
          else if operator_type = Source then Inl SourceNotAtStarting else Inr False
      | Reduce \<Rightarrow> if operator_type = Source then Inl SourceNotAtStarting else Inr False
      | Sink \<Rightarrow> Inl SinkNotAtEnding)"

definition is_pipeline :: "operator_type \<Rightarrow> u16 \<Rightarrow> operator_type \<Rightarrow> u16 \<Rightarrow> dag_error + bool" where
  "is_pipeline operator_type parallelism p_operator_type p_parallelism =
     (if p_operator_type = WindowAssigner \<and> operator_type = Reduce then Inr True
      else rbind (check_operator operator_type p_operator_type) (\<lambda>pipeline_ip.
        Inr (pipeline_ip \<and> (parallelism = p_parallelism \<or> parallelism = DEFAULT_PARALLELISM))))"

definition is_reduce_parent :: "'g raw_stream_graph \<Rightarrow> operator_id \<Rightarrow> bool res" where
  "is_reduce_parent g parent_id =
     rbind (unwrap (map_of (rg_operators g) parent_id)) (\<lambda>(_, op).
     Inr (operator_type_from op = Reduce))"

definition lift_error :: "dag_error + 'a \<Rightarrow> dag_error failure + 'a" where
  "lift_error m = (case m of Inl e \<Rightarrow> Inl (Failed e) | Inr x \<Rightarrow> Inr x)"

text \<open>One parent: in the same pipeline, or behind a virtual sink and source.\<close>

definition add_with_parent ::
    "(stream_node, stream_edge, 'g) daggy \<Rightarrow> 'g raw_stream_graph \<Rightarrow> stream_operator \<Rightarrow> operator_id \<Rightarrow>
     dag_error failure + operator_id \<times> 'g raw_stream_graph" where
  "add_with_parent G g op p_operator_id =
     (let parallelism = operator_parallelism op in
      rbind (lift_panic (unwrap (map_of (rg_operators g) p_operator_id))) (\<lambda>(p_node_index, _).
      rbind (lift_panic (dag_index G (rg_dag g) p_node_index)) (\<lambda>p_stream_node.
      rbind (lift_error (is_pipeline (operator_type_from op) parallelism
          (sn_operator_type p_stream_node) (sn_parallelism p_stream_node))) (\<lambda>pipeline.
      if pipeline
      then add_operator0 G g op [p_operator_id] (max parallelism (sn_parallelism p_stream_node))
      else
        rbind (add_operator0 G g (create_virtual_sink (sn_parallelism p_stream_node))
          [p_operator_id] (sn_parallelism p_stream_node)) (\<lambda>(vir_operator_id, g).
        rbind (add_operator0 G g (create_virtual_source parallelism) [vir_operator_id] parallelism)
          (\<lambda>(vir_operator_id, g).
        rbind (lift_panic (is_reduce_parent g p_operator_id)) (\<lambda>after_reduce.
        rbind (if after_reduce
               then add_operator0 G g (create_virtual_flat_map parallelism) [vir_operator_id] parallelism
               else Inr (vir_operator_id, g)) (\<lambda>(vir_operator_id, g).
        add_operator0 G g op [vir_operator_id] parallelism))))))))"

text \<open>
  Several parents: a virtual sink behind each; the state of the loop is the graph, the sinks
  of the parents that do not reduce, the sink of a parent that reduces and the parallelism
  of the last parent.
\<close>

definition add_connect_sink ::
    "(stream_node, stream_edge, 'g) daggy \<Rightarrow> operator_id \<Rightarrow>
     'g raw_stream_graph \<times> operator_id list \<times> operator_id option \<times> u16 \<Rightarrow>
     dag_error failure + 'g raw_stream_graph \<times> operator_id list \<times> operator_id option \<times> u16" where
  "add_connect_sink G p_operator_id st = (case st of (g, new_p_operator_ids, p_reduce_operator_id, _) \<Rightarrow>
     rbind (lift_panic (unwrap (map_of (rg_operators g) p_operator_id))) (\<lambda>(p_node_index, _).
     rbind (lift_panic (dag_index G (rg_dag g) p_node_index)) (\<lambda>p_stream_node.
     rbind (add_operator0 G g (create_virtual_sink 0) [p_operator_id] (sn_parallelism p_stream_node))
       (\<lambda>(vir_operator_id, g).
     Inr (if sn_operator_type p_stream_node = Reduce
          then (g, new_p_operator_ids, Some vir_operator_id, sn_parallelism p_stream_node)
          else (g, new_p_operator_ids @ [vir_operator_id], p_reduce_operator_id,
                sn_parallelism p_stream_node))))))"

definition add_connected ::
    "(stream_node, stream_edge, 'g) daggy \<Rightarrow> 'g raw_stream_graph \<Rightarrow> stream_operator \<Rightarrow> operator_id list \<Rightarrow>
     dag_error failure + operator_id \<times> 'g raw_stream_graph" where
  "add_connected G g op parent_operator_ids =
     (if operator_type_from op \<noteq> CoProcess then Inl (Failed NotCombineOperator)
      else
        rbind (fold_res (add_connect_sink G) parent_operator_ids (g, [], None, 0))
          (\<lambda>(g, new_p_operator_ids, p_reduce_operator_id, left_parallelism).
        case p_reduce_operator_id of
          Some p_reduce_operator_id \<Rightarrow>
            rbind (add_operator0 G g (create_virtual_source left_parallelism)
              [p_reduce_operator_id] left_parallelism) (\<lambda>(vir_operator_id, g).
            rbind (add_operator0 G g (create_virtual_flat_map left_parallelism)
              [vir_operator_id] left_parallelism) (\<lambda>(vir_operator_id, g).
            rbind (add_operator0 G g (create_virtual_sink left_parallelism)
              [vir_operator_id] left_parallelism) (\<lambda>(vir_operator_id, g).
            rbind (add_operator0 G g (create_virtual_source left_parallelism)
              (new_p_operator_ids @ [vir_operator_id]) left_parallelism) (\<lambda>(vir_operator_id, g).
            add_operator0 G g op [vir_operator_id] left_parallelism))))
        | None \<Rightarrow>
            rbind (add_operator0 G g (create_virtual_source 0) new_p_operator_ids
              (operator_parallelism op)) (\<lambda>(vir_operator_id, g).
            add_operator0 G g op [vir_operator_id] (operator_parallelism op))))"

definition add_operator ::
    "(stream_node, stream_edge, 'g) daggy \<Rightarrow> 'g raw_stream_graph \<Rightarrow> stream_operator \<Rightarrow> operator_id list \<Rightarrow>
     dag_error failure + operator_id \<times> 'g raw_stream_graph" where
  "add_operator G g op parent_operator_ids =
     (case parent_operator_ids of
        [] \<Rightarrow> if operator_type_from op \<noteq> Source then Inl (Failed SourceNotFound)
              else add_operator0 G g op [] (operator_parallelism op)
      | [p_operator_id] \<Rightarrow> add_with_parent G g op p_operator_id
      | _ \<Rightarrow> add_connected G g op parent_operator_ids)"

section \<open>The shape of the graph\<close>

text \<open>
  Node \<open>k\<close> of the graph is the operator with number \<open>k\<close>, its edges lead from the nodes of
  its parents, which are older, and the recorded sources are the source nodes.
\<close>

definition node_of :: "operator_id \<Rightarrow> nat" where
  "node_of i = unat (op_num i)"

definition id_of :: "nat \<Rightarrow> operator_id" where
  "id_of k = OperatorId (of_nat k)"

lemma node_of_id [simp]: "k < 2 ^ 32 \<Longrightarrow> node_of (id_of k) = k"
  by (simp add: node_of_def id_of_def unat_of_nat)

lemma id_of_node [simp]: "id_of (node_of i) = i"
  by (cases i) (simp add: node_of_def id_of_def)

lemma id_of_inject: "k < 2 ^ 32 \<Longrightarrow> l < 2 ^ 32 \<Longrightarrow> id_of k = id_of l \<longleftrightarrow> k = l"
  by (metis node_of_id)

definition nodes_ok :: "stream_node list \<Rightarrow> (operator_id, nat \<times> stream_operator) hmap \<Rightarrow> bool" where
  "nodes_ok N ops \<longleftrightarrow> length N < 2 ^ 32 \<and> (\<forall>k<length N. sn_id (N ! k) = id_of k
     \<and> (\<exists>op. map_of ops (id_of k) = Some (k, op) \<and> operator_type_from op = sn_operator_type (N ! k))
     \<and> (\<forall>p\<in>set (sn_parent_ids (N ! k)). node_of p < k))
   \<and> (\<forall>i k op. map_of ops i = Some (k, op) \<longrightarrow> k < length N \<and> i = id_of k)"

definition parent_edges :: "stream_node list \<Rightarrow> nat \<Rightarrow> (nat \<times> nat) list" where
  "parent_edges N k = map (\<lambda>p. (node_of p, k)) (sn_parent_ids (N ! k))"

definition plan_edges :: "stream_node list \<Rightarrow> (nat \<times> nat) list" where
  "plan_edges N = concat (map (parent_edges N) [0..<length N])"

definition source_nodes :: "stream_node list \<Rightarrow> nat list" where
  "source_nodes N = filter (\<lambda>k. sn_operator_type (N ! k) = Source) [0..<length N]"

lemma plan_edges_append:
  "plan_edges (N @ [n]) = plan_edges N @ map (\<lambda>p. (node_of p, length N)) (sn_parent_ids n)"
  by (auto simp: plan_edges_def parent_edges_def nth_append intro!: arg_cong[where f = concat])

lemma source_nodes_append:
  "source_nodes (N @ [n]) = source_nodes N @ (if sn_operator_type n = Source then [length N] else [])"
  by (auto simp: source_nodes_def nth_append intro!: filter_cong)

lemma plan_edges_set: "(a, b) \<in> set (plan_edges N) \<longleftrightarrow>
    b < length N \<and> (\<exists>p\<in>set (sn_parent_ids (N ! b)). a = node_of p)"
  by (auto simp: plan_edges_def parent_edges_def)

lemma nodes_ok_edge_less: "nodes_ok N ops \<Longrightarrow> (a, b) \<in> set (plan_edges N) \<Longrightarrow> a < b \<and> b < length N"
  by (auto simp: nodes_ok_def plan_edges_set)

lemma is_source_type: "is_source op \<longleftrightarrow> operator_type_from op = Source"
  by (cases op) auto

locale stream_dag = daggy_graph G for G :: "(stream_node, stream_edge, 'g) daggy"
begin

definition nodes :: "'g raw_stream_graph \<Rightarrow> stream_node list" where
  "nodes g = dg_raw_nodes G (rg_dag g)"

definition edges :: "'g raw_stream_graph \<Rightarrow> (nat \<times> nat) list" where
  "edges g = map (\<lambda>(a, b, _). (a, b)) (dg_raw_edges G (rg_dag g))"

definition graph_inv :: "'g raw_stream_graph \<Rightarrow> bool" where
  "graph_inv g \<longleftrightarrow> nodes_ok (nodes g) (rg_operators g) \<and> rg_id_gen g = id_of (length (nodes g))
     \<and> edges g = plan_edges (nodes g) \<and> rg_sources g = source_nodes (nodes g)"

lemma links_edges: "links (dg_raw_edges G (rg_dag g)) = set (edges g)"
  by (force simp: links_def edges_def)

lemma graph_inv_new: "graph_inv (raw_stream_graph_new G)"
  using new_graph
  by (simp add: graph_inv_def raw_stream_graph_new_def nodes_def edges_def nodes_ok_def
    plan_edges_def source_nodes_def id_of_def)

end

interpretation list_stream: stream_dag list_graph_ops
  by unfold_locales

section \<open>Adding an operator\<close>

text \<open>The node of a new operator.\<close>

definition new_node ::
    "nat \<Rightarrow> stream_operator \<Rightarrow> operator_id list \<Rightarrow> u16 \<Rightarrow> fn_schema \<Rightarrow> fn_schema \<Rightarrow> stream_node" where
  "new_node k op parents parallelism input_schema output_schema =
     \<lparr>sn_id = id_of k, sn_parent_ids = parents, sn_parallelism = parallelism,
      sn_input_schema = input_schema, sn_output_schema = output_schema, sn_daemon = is_daemon op,
      sn_operator_name = operator_name op, sn_operator_type = operator_type_from op,
      sn_fn_creator = operator_fn_creator op\<rparr>"

definition parent_schema :: "stream_node list \<Rightarrow> operator_id list \<Rightarrow> fn_schema" where
  "parent_schema N parents =
     (if parents = [] then Empty else sn_output_schema (N ! node_of (last parents)))"

lemma rtrancl_from_top:
  assumes "(k, a) \<in> R\<^sup>*" "\<forall>(x, y)\<in>R. x < y \<and> y \<le> (k::nat)"
  shows "a = k"
  using assms by (induction rule: converse_rtrancl_induct) (auto split: prod.splits)

lemma nodes_ok_lookup:
  assumes "nodes_ok N ops" "node_of p < length N"
  shows "\<exists>op. map_of ops p = Some (node_of p, op) \<and> operator_type_from op = sn_operator_type (N ! node_of p)"
  using assms by (metis id_of_node nodes_ok_def)

lemma nodes_ok_append:
  assumes "nodes_ok N ops" "length N + 1 < 2 ^ 32" "sn_id n = id_of (length N)"
    "sn_operator_type n = operator_type_from op" "\<forall>p\<in>set (sn_parent_ids n). node_of p < length N"
  shows "nodes_ok (N @ [n]) (AList.update (id_of (length N)) (length N, op) ops)"
proof -
  have fresh: "k < length N \<Longrightarrow> id_of k \<noteq> id_of (length N)" for k
    using assms(2) id_of_inject[of k "length N"] by simp
  show ?thesis
    unfolding nodes_ok_def
  proof (intro conjI allI impI)
    fix k
    assume k: "k < length (N @ [n])"
    show "sn_id ((N @ [n]) ! k) = id_of k"
      using k assms(1,3) by (auto simp: nth_append nodes_ok_def less_Suc_eq)
    show "\<exists>op'. map_of (AList.update (id_of (length N)) (length N, op) ops) (id_of k) = Some (k, op')
        \<and> operator_type_from op' = sn_operator_type ((N @ [n]) ! k)"
    proof (cases "k < length N")
      case True
      then show ?thesis using assms(1) fresh by (simp add: nodes_ok_def nth_append)
    next
      case False
      then have "k = length N" using k by simp
      then show ?thesis using assms(4) by simp
    qed
    show "\<forall>p\<in>set (sn_parent_ids ((N @ [n]) ! k)). node_of p < k"
      using k assms(1,5) by (auto simp: nth_append nodes_ok_def less_Suc_eq)
  next
    fix i k op'
    assume m: "map_of (AList.update (id_of (length N)) (length N, op) ops) i = Some (k, op')"
    show "k < length (N @ [n])" and "i = id_of k"
      using m assms(1) by (cases "i = id_of (length N)"; force simp: nodes_ok_def)+
  qed (use assms(2) in simp)
qed

context stream_dag
begin

lemma add_parent_edge_ok:
  assumes "map_of (rg_operators g) p = Some (node_of p, op)" "node_of p < k"
    "length (nodes g) = k + 1" "\<forall>(a, b)\<in>set (edges g). a < b \<and> b \<le> k"
  shows "\<exists>g'. add_parent_edge G i k p g = Inr g' \<and> nodes g' = nodes g
    \<and> edges g' = edges g @ [(node_of p, k)] \<and> rg_operators g' = rg_operators g
    \<and> rg_id_gen g' = rg_id_gen g \<and> rg_sources g' = rg_sources g \<and> rg_user_sources g' = rg_user_sources g"
proof -
  have ix: "dag_index G (rg_dag g) (node_of p) = Inr (nodes g ! node_of p)"
    using assms(2,3) by (simp add: index_in nodes_def)
  let ?e = "\<lparr>se_edge_id = show_nat (unat (op_num (sn_id (nodes g ! node_of p)))) @ ''->'' @
      show_nat (unat (op_num i)), se_source_id = sn_id (nodes g ! node_of p), se_target_id = i\<rparr>"
  have "(k, node_of p) \<notin> (set (edges g))\<^sup>*"
    using rtrancl_from_top[of k "node_of p" "set (edges g)"] assms(2,4) by auto
  then have "dg_add_edge G (rg_dag g) (node_of p) k ?e \<noteq> None"
    using add_edge_acyclic[of "node_of p" "rg_dag g" k ?e] assms(2,3)
    by (simp add: links_edges nodes_def)
  then obtain j d where ae: "dg_add_edge G (rg_dag g) (node_of p) k ?e = Some (j, d)" by auto
  show ?thesis
    using add_edge[OF ae] assms(1) ix ae by (simp add: add_parent_edge_def nodes_def edges_def)
qed

lemma add_parents_ok:
  assumes "\<forall>p\<in>set ps. node_of p < k \<and> (\<exists>op. map_of (rg_operators g) p = Some (node_of p, op))"
    "length (nodes g) = k + 1" "\<forall>(a, b)\<in>set (edges g). a < b \<and> b \<le> k"
  shows "\<exists>g'. fold_res (add_parent_edge G i k) ps g = Inr g' \<and> nodes g' = nodes g
    \<and> edges g' = edges g @ map (\<lambda>p. (node_of p, k)) ps \<and> rg_operators g' = rg_operators g
    \<and> rg_id_gen g' = rg_id_gen g \<and> rg_sources g' = rg_sources g \<and> rg_user_sources g' = rg_user_sources g"
  using assms
proof (induction ps arbitrary: g)
  case Nil
  then show ?case by simp
next
  case (Cons p ps)
  then obtain op where "map_of (rg_operators g) p = Some (node_of p, op)" "node_of p < k" by auto
  from add_parent_edge_ok[OF this Cons.prems(2,3)] obtain g1 where g1:
    "add_parent_edge G i k p g = Inr g1" "nodes g1 = nodes g" "edges g1 = edges g @ [(node_of p, k)]"
    "rg_operators g1 = rg_operators g" "rg_id_gen g1 = rg_id_gen g" "rg_sources g1 = rg_sources g"
    "rg_user_sources g1 = rg_user_sources g" by blast
  have "\<forall>(a, b)\<in>set (edges g1). a < b \<and> b \<le> k" using Cons.prems(1,3) g1(3) by auto
  then show ?case using Cons.IH[of g1] Cons.prems g1 by simp
qed

lemma input_schema_ok:
  assumes "nodes_ok (nodes g) (rg_operators g)" "\<forall>p\<in>set parents. node_of p < length (nodes g)"
  shows "input_schema_of G (g\<lparr>rg_id_gen := x\<rparr>) parents = Inr (parent_schema (nodes g) parents)"
proof (cases "parents = []")
  case True
  then show ?thesis by (simp add: input_schema_of_def parent_schema_def)
next
  case False
  then have l: "node_of (last parents) < length (nodes g)" using assms(2) by simp
  from nodes_ok_lookup[OF assms(1) l] obtain op
    where "map_of (rg_operators g) (last parents) = Some (node_of (last parents), op)" by blast
  then show ?thesis
    using False l by (simp add: input_schema_of_def parent_schema_def index_in nodes_def)
qed

text \<open>
  An operator whose parents exist and whose schema function accepts their schema is added:
  no other panic and no error is possible.
\<close>

lemma add_operator0_ok:
  assumes inv: "graph_inv g" and room: "length (nodes g) + 1 < 2 ^ 32"
    and ps: "\<forall>p\<in>set parents. node_of p < length (nodes g)"
    and out: "operator_schema op (parent_schema (nodes g) parents) = Inr out"
  shows "\<exists>g'. add_operator0 G g op parents par = Inr (id_of (length (nodes g)), g') \<and> graph_inv g'
    \<and> nodes g' = nodes g @ [new_node (length (nodes g)) op parents par (parent_schema (nodes g) parents) out]
    \<and> rg_user_sources g' = rg_user_sources g @
        (if is_source op \<and> parents = [] then [length (nodes g)] else [])"
proof -
  let ?k = "length (nodes g)"
  let ?n = "new_node ?k op parents par (parent_schema (nodes g) parents) out"
  let ?g = "g\<lparr>rg_id_gen := OperatorId (op_num (rg_id_gen g) + 1)\<rparr>"
  have ok: "nodes_ok (nodes g) (rg_operators g)" and idg: "rg_id_gen g = id_of ?k"
    and ed: "edges g = plan_edges (nodes g)" and src: "rg_sources g = source_nodes (nodes g)"
    using inv by (simp_all add: graph_inv_def)
  have nid: "OperatorId (op_num (rg_id_gen g) + 1) = id_of (?k + 1)"
    by (simp add: idg id_of_def)
  obtain i d where an: "dg_add_node G (rg_dag g) ?n = (i, d)" by force
  note an' = add_node[OF an]
  let ?g1 = "?g\<lparr>rg_dag := d\<rparr>"
  have n1: "nodes ?g1 = nodes g @ [?n]" and e1: "edges ?g1 = edges g" and i: "i = ?k"
    using an' by (simp_all add: nodes_def edges_def)
  have "\<forall>(a, b)\<in>set (edges ?g1). a < b \<and> b \<le> ?k"
    unfolding e1 ed using nodes_ok_edge_less[OF ok] by fastforce
  moreover have "\<forall>p\<in>set parents. node_of p < ?k \<and> (\<exists>op. map_of (rg_operators ?g1) p = Some (node_of p, op))"
    using ps nodes_ok_lookup[OF ok] by fastforce
  ultimately obtain g2 where g2: "fold_res (add_parent_edge G (rg_id_gen g) ?k) parents ?g1 = Inr g2"
    "nodes g2 = nodes g @ [?n]" "edges g2 = edges g @ map (\<lambda>p. (node_of p, ?k)) parents"
    "rg_operators g2 = rg_operators g" "rg_id_gen g2 = id_of (?k + 1)" "rg_sources g2 = rg_sources g"
    "rg_user_sources g2 = rg_user_sources g"
    using add_parents_ok[of parents ?k ?g1 "rg_id_gen g"] n1 e1 nid by auto
  have schema: "input_schema_of G ?g parents = Inr (parent_schema (nodes g) parents)"
    by (rule input_schema_ok[OF ok ps])
  define g3 where "g3 = (if is_source op
     then (let h = (if parents = [] then g2\<lparr>rg_user_sources := rg_user_sources g2 @ [?k]\<rparr> else g2)
           in h\<lparr>rg_sources := rg_sources h @ [?k]\<rparr>) else g2)"
  define g' where "g' = g3\<lparr>rg_operators := AList.update (id_of ?k) (?k, op) (rg_operators g3)\<rparr>"
  have g3: "nodes g3 = nodes g2" "edges g3 = edges g2" "rg_operators g3 = rg_operators g2"
    "rg_id_gen g3 = rg_id_gen g2"
    "rg_sources g3 = rg_sources g @ (if is_source op then [?k] else [])"
    "rg_user_sources g3 = rg_user_sources g @ (if is_source op \<and> parents = [] then [?k] else [])"
    by (simp_all add: g3_def g2 nodes_def edges_def Let_def)
  have dg: "rg_dag (g\<lparr>rg_id_gen := x\<rparr>) = rg_dag g" for x by simp
  have "add_operator0 G g op parents par = Inr (id_of ?k, g')"
    by (simp only: add_operator0_def Let_def schema out lift_panic_simps rbind_simps prod.case dg
      an[unfolded new_node_def i, folded idg] g2(1) g'_def g3_def idg[symmetric])
  moreover have n': "nodes g' = nodes g @ [?n]" and e': "edges g' = plan_edges (nodes g @ [?n])"
    using g3 g2 by (simp_all add: g'_def nodes_def edges_def plan_edges_append new_node_def ed[unfolded edges_def nodes_def])
  moreover have "graph_inv g'"
    unfolding graph_inv_def n' e'
  proof (intro conjI)
    show "nodes_ok (nodes g @ [?n]) (rg_operators g')"
      using nodes_ok_append[OF ok room, of ?n op] ps g3 g2 by (simp add: g'_def new_node_def)
    show "rg_id_gen g' = id_of (length (nodes g @ [?n]))" using g3 g2 by (simp add: g'_def)
    show "rg_sources g' = source_nodes (nodes g @ [?n])"
      using g3(5) by (simp add: g'_def source_nodes_append is_source_type src new_node_def)
  qed simp
  moreover have "rg_user_sources g' = rg_user_sources g @ (if is_source op \<and> parents = [] then [?k] else [])"
    using g3 by (simp add: g'_def)
  ultimately show ?thesis by blast
qed

end

end
