(* ===== verification/Data_Stream.thy ===== *)
theory Data_Stream
  imports Stream_Graph
begin

text \<open>
  The programming interface (\<open>rlink/src/core/data_stream.rs\<close>, \<open>core/env.rs\<close>): every call
  adds one operator behind the current one.  A stream is moved into the call that extends
  it, so it is extended once; \<open>api\<close> is one call on the streams the program still holds, and
  says \<open>None\<close> for a call the compiler refuses.  The property: a program
  never meets an error of the planner, and the graph it builds is a set of pipelines.
\<close>

section \<open>The calls\<close>

text \<open>\<open>StreamManager::add_operator\<close>: an error of the graph is a panic of the program (\<open>expect\<close>).\<close>

definition expect_ok :: "'e failure + 'a \<Rightarrow> 'a res" where
  "expect_ok m = (case m of Inl (Failed _) \<Rightarrow> Inl Unwrap_none | Inl (Panicked p) \<Rightarrow> Inl p | Inr x \<Rightarrow> Inr x)"

definition manager_add ::
    "(stream_node, stream_edge, 'g) daggy \<Rightarrow> 'g raw_stream_graph \<Rightarrow> stream_operator \<Rightarrow> operator_id list \<Rightarrow>
     (operator_id \<times> 'g raw_stream_graph) res" where
  "manager_add G g op parent_operator_ids = expect_ok (add_operator G g op parent_operator_ids)"

definition with_source where
  "with_source G g f parallelism = manager_add G g (new_source parallelism User f) []"

definition register_source where
  "register_source G g f parallelism = with_source G g f parallelism"

definition with_connect where
  "with_connect G g f parent_ids = manager_add G g (new_co_process f) parent_ids"

definition ds_flat_map where
  "ds_flat_map G g cur f = manager_add G g (new_map f) [cur]"

definition ds_filter where
  "ds_filter G g cur f = manager_add G g (new_filter f) [cur]"

definition ds_key_by where
  "ds_key_by G g cur f = manager_add G g (new_key_by f) [cur]"

definition assign_timestamps_and_watermarks where
  "assign_timestamps_and_watermarks G g cur f = manager_add G g (new_watermark_assigner f) [cur]"

text \<open>\<open>connect\<close> puts the stream it is called on in the last position.\<close>

definition ds_connect where
  "ds_connect G g cur others f = with_connect G g f (others @ [cur])"

definition ds_add_sink where
  "ds_add_sink G g cur f = manager_add G g (new_sink User f) [cur]"

definition ds_window where
  "ds_window G g cur f = manager_add G g (new_window_assigner f) [cur]"

definition ds_reduce where
  "ds_reduce G g cur f parallelism = manager_add G g (new_reduce parallelism f) [cur]"

section \<open>Programs\<close>

datatype stream_kind = DataStream | KeyedStream | ConnectedStreams | WindowedStream

type_synonym 'g api_state = "'g raw_stream_graph \<times> (operator_id, stream_kind) hmap"

datatype api_call =
    RegisterSource u16 operator_fn
  | CallFlatMap operator_id operator_fn
  | CallFilter operator_id operator_fn
  | CallWatermarks operator_id operator_fn
  | CallKeyBy operator_id operator_fn
  | CallWindow operator_id operator_fn
  | CallReduce operator_id u16 operator_fn
  | CallConnect operator_id "operator_id list" operator_fn
  | CallAddSink operator_id operator_fn

text \<open>A call that moves the streams \<open>used\<close> and gives a stream of the given kind, if any.\<close>

definition extend_with ::
    "operator_id list \<Rightarrow> stream_kind option \<Rightarrow> (operator_id, stream_kind) hmap \<Rightarrow>
     (operator_id \<times> 'g raw_stream_graph) res \<Rightarrow> 'g api_state res" where
  "extend_with used kind hs m = rbind m (\<lambda>(operator_id, g).
     Inr (g, (case kind of None \<Rightarrow> id | Some k \<Rightarrow> AList.update operator_id k) (fold AList.delete used hs)))"

definition held :: "(operator_id, stream_kind) hmap \<Rightarrow> operator_id \<Rightarrow> stream_kind set \<Rightarrow> bool" where
  "held hs i kinds = (case map_of hs i of None \<Rightarrow> False | Some k \<Rightarrow> k \<in> kinds)"

fun api ::
    "(stream_node, stream_edge, 'g) daggy \<Rightarrow> api_call \<Rightarrow> 'g api_state \<Rightarrow>
     'g api_state res option" where
  "api G (RegisterSource parallelism f) (g, hs) =
     Some (extend_with [] (Some DataStream) hs (register_source G g f parallelism))"
| "api G (CallFlatMap cur f) (g, hs) =
     (if held hs cur {DataStream}
      then Some (extend_with [cur] (Some DataStream) hs (ds_flat_map G g cur f)) else None)"
| "api G (CallFilter cur f) (g, hs) =
     (if held hs cur {DataStream}
      then Some (extend_with [cur] (Some DataStream) hs (ds_filter G g cur f)) else None)"
| "api G (CallWatermarks cur f) (g, hs) =
     (if held hs cur {DataStream}
      then Some (extend_with [cur] (Some DataStream) hs (assign_timestamps_and_watermarks G g cur f))
      else None)"
| "api G (CallKeyBy cur f) (g, hs) =
     (if held hs cur {DataStream, ConnectedStreams}
      then Some (extend_with [cur] (Some KeyedStream) hs (ds_key_by G g cur f)) else None)"
| "api G (CallWindow cur f) (g, hs) =
     (if held hs cur {KeyedStream}
      then Some (extend_with [cur] (Some WindowedStream) hs (ds_window G g cur f)) else None)"
| "api G (CallReduce cur parallelism f) (g, hs) =
     (if held hs cur {WindowedStream}
      then Some (extend_with [cur] (Some DataStream) hs (ds_reduce G g cur f parallelism)) else None)"
| "api G (CallConnect cur others f) (g, hs) =
     (if held hs cur {DataStream} \<and> distinct (others @ [cur])
         \<and> (\<forall>i\<in>set others. held hs i {DataStream, KeyedStream})
      then Some (extend_with (others @ [cur]) (Some ConnectedStreams) hs (ds_connect G g cur others f))
      else None)"
| "api G (CallAddSink cur f) (g, hs) =
     (if held hs cur {DataStream, KeyedStream, ConnectedStreams}
      then Some (extend_with [cur] None hs (ds_add_sink G g cur f)) else None)"

text \<open>A program: calls from an empty environment; it stops at the first panic.\<close>

fun api_all ::
    "(stream_node, stream_edge, 'g) daggy \<Rightarrow> api_call list \<Rightarrow> 'g api_state \<Rightarrow>
     'g api_state res option" where
  "api_all G [] st = Some (Inr st)"
| "api_all G (c # cs) st = (case api G c st of
     None \<Rightarrow> None
   | Some (Inl e) \<Rightarrow> Some (Inl e)
   | Some (Inr st) \<Rightarrow> api_all G cs st)"

section \<open>Pipelines\<close>

definition kids :: "stream_node list \<Rightarrow> nat \<Rightarrow> nat list" where
  "kids N k = map snd (filter (\<lambda>(a, b). a = k) (plan_edges N))"

text \<open>
  \<open>open\<close> are the nodes whose stream the program still holds.  Every other node that is not a
  sink has one child, which is not a source; a sink has at most one child, a source; the
  parents of a source are sinks and every other node has one parent.  A source with several
  parents is followed by the operator that joins them.
\<close>

definition joins :: "stream_node \<Rightarrow> bool" where
  "joins n \<longleftrightarrow> sn_operator_type n = Source \<and> 1 < length (sn_parent_ids n)"

definition pipelined :: "stream_node list \<Rightarrow> nat set \<Rightarrow> bool" where
  "pipelined N opens \<longleftrightarrow> (\<forall>k<length N.
     (k \<in> opens \<longrightarrow> kids N k = [] \<and> sn_operator_type (N ! k) \<noteq> Sink)
   \<and> (k \<notin> opens \<longrightarrow> sn_operator_type (N ! k) \<noteq> Sink \<longrightarrow>
        (\<exists>b<length N. kids N k = [b] \<and> sn_operator_type (N ! b) \<noteq> Source
          \<and> (joins (N ! k) \<longrightarrow> sn_operator_type (N ! b) = CoProcess)))
   \<and> (sn_operator_type (N ! k) = Sink \<longrightarrow> kids N k = []
        \<or> (\<exists>b<length N. kids N k = [b] \<and> sn_operator_type (N ! b) = Source))
   \<and> (sn_operator_type (N ! k) = Source \<longrightarrow>
        (\<forall>p\<in>set (sn_parent_ids (N ! k)). node_of p < length N \<and> sn_operator_type (N ! node_of p) = Sink))
   \<and> (sn_operator_type (N ! k) \<noteq> Source \<longrightarrow> (\<exists>p. sn_parent_ids (N ! k) = [p])))"

lemma kids_append: "kids (N @ [n]) k =
    kids N k @ replicate (length (filter (\<lambda>p. node_of p = k) (sn_parent_ids n))) (length N)"
proof -
  have "map snd (filter (\<lambda>(a, b). a = k) (map (\<lambda>p. (node_of p, m)) ps))
      = replicate (length (filter (\<lambda>p. node_of p = k) ps)) m" for ps m
    by (induction ps) auto
  then show ?thesis by (simp add: kids_def plan_edges_append)
qed

lemma kids_new: "kids (N @ [n]) (length N) = []"
  if "nodes_ok N ops" "\<forall>p\<in>set (sn_parent_ids n). node_of p < length N"
proof -
  have "kids N (length N) = []"
    using nodes_ok_edge_less[OF that(1)] by (fastforce simp: kids_def filter_empty_conv)
  moreover have "filter (\<lambda>p. node_of p = length N) (sn_parent_ids n) = []"
    using that(2) by (auto simp: filter_empty_conv)
  ultimately show ?thesis by (simp add: kids_append)
qed

lemma count_parents:
  assumes "distinct ps"
  shows "length (filter (\<lambda>p. node_of p = k) ps) = (if k \<in> node_of ` set ps then 1 else 0)"
proof -
  have inj: "node_of p = node_of q \<Longrightarrow> p = q" for p q by (metis id_of_node)
  show ?thesis using assms
  proof (induction ps)
    case Nil
    then show ?case by simp
  next
    case (Cons p ps)
    have "node_of p \<notin> node_of ` set ps" using Cons.prems inj by fastforce
    then show ?case using Cons by auto
  qed
qed

section \<open>Every call keeps the pipelines\<close>

lemma pipelined_append:
  assumes ok: "nodes_ok N ops" and pl: "pipelined N opens"
    and ps: "distinct (sn_parent_ids n)" "\<forall>p\<in>set (sn_parent_ids n). node_of p < length N"
    and fresh: "\<forall>p\<in>set (sn_parent_ids n). kids N (node_of p) = []"
    and src: "sn_operator_type n = Source \<Longrightarrow>
      \<forall>p\<in>set (sn_parent_ids n). sn_operator_type (N ! node_of p) = Sink"
    and other: "sn_operator_type n \<noteq> Source \<Longrightarrow> \<exists>p. sn_parent_ids n = [p] \<and> node_of p \<in> opens"
    and join: "\<forall>p\<in>set (sn_parent_ids n). joins (N ! node_of p) \<longrightarrow> sn_operator_type n = CoProcess"
    and sub: "opens \<subseteq> {..<length N}"
  shows "pipelined (N @ [n]) ((opens - node_of ` set (sn_parent_ids n))
    \<union> (if sn_operator_type n = Sink then {} else {length N}))"
    (is "pipelined ?N ?O")
  unfolding pipelined_def
proof (intro allI impI)
  fix k
  assume k: "k < length ?N"
  have old: "l < length N \<Longrightarrow> ?N ! l = N ! l" for l by (simp add: nth_append)
  show "(k \<in> ?O \<longrightarrow> kids ?N k = [] \<and> sn_operator_type (?N ! k) \<noteq> Sink)
   \<and> (k \<notin> ?O \<longrightarrow> sn_operator_type (?N ! k) \<noteq> Sink \<longrightarrow>
        (\<exists>b<length ?N. kids ?N k = [b] \<and> sn_operator_type (?N ! b) \<noteq> Source
          \<and> (joins (?N ! k) \<longrightarrow> sn_operator_type (?N ! b) = CoProcess)))
   \<and> (sn_operator_type (?N ! k) = Sink \<longrightarrow> kids ?N k = []
        \<or> (\<exists>b<length ?N. kids ?N k = [b] \<and> sn_operator_type (?N ! b) = Source))
   \<and> (sn_operator_type (?N ! k) = Source \<longrightarrow>
        (\<forall>p\<in>set (sn_parent_ids (?N ! k)). node_of p < length ?N \<and> sn_operator_type (?N ! node_of p) = Sink))
   \<and> (sn_operator_type (?N ! k) \<noteq> Source \<longrightarrow> (\<exists>p. sn_parent_ids (?N ! k) = [p]))"
  proof (cases "k = length N")
    case True
    moreover have "kids ?N (length N) = []" by (rule kids_new[OF ok ps(2)])
    ultimately show ?thesis using src other ps(2) sub by (auto simp: nth_append)
  next
    case False
    then have kl: "k < length N" using k by simp
    have kids: "kids ?N k = kids N k @ (if k \<in> node_of ` set (sn_parent_ids n) then [length N] else [])"
      by (simp add: kids_append count_parents[OF ps(1)])
    note pk = pl[unfolded pipelined_def, rule_format, OF kl]
    have lift: "\<exists>b<length ?N. kids ?N k = [b] \<and> P (?N ! b)"
      if ex: "\<exists>b<length N. kids N k = [b] \<and> P (N ! b)" and nin: "k \<notin> node_of ` set (sn_parent_ids n)" for P
    proof -
      obtain b where "b < length N" "kids N k = [b]" "P (N ! b)" using ex by blast
      then show ?thesis using kids nin by (intro exI[of _ b]) (simp add: old)
    qed
    have par: "sn_operator_type (N ! k) = Source \<Longrightarrow>
        (\<forall>p\<in>set (sn_parent_ids (N ! k)). node_of p < length ?N \<and> sn_operator_type (?N ! node_of p) = Sink)"
      using pk old by (simp add: less_Suc_eq)
    show ?thesis
    proof (cases "k \<in> node_of ` set (sn_parent_ids n)")
      case True
      then have "kids N k = []" using fresh by auto
      then have new: "kids ?N k = [length N]" using kids True by simp
      show ?thesis
      proof (cases "sn_operator_type n = Source")
        case s: True
        then have "sn_operator_type (N ! k) = Sink" using src True by auto
        then show ?thesis using new s True kl pk by (auto simp: old)
      next
        case ns: False
        then have "k \<in> opens" using other True by auto
        moreover have "joins (N ! k) \<longrightarrow> sn_operator_type n = CoProcess" using join True by auto
        ultimately show ?thesis using new ns True kl pk par by (auto simp: old)
      qed
    next
      case False
      then show ?thesis using kids lift[of "\<lambda>m. sn_operator_type m \<noteq> Source
          \<and> (joins (N ! k) \<longrightarrow> sn_operator_type m = CoProcess)"]
          lift[of "\<lambda>m. sn_operator_type m = Source"] pk par kl by (auto simp: old)
    qed
  qed
qed

text \<open>
  What a call may do: no error of the planner, no panic but an explicit one (raised by a
  schema function), and the given property of the result.
\<close>

definition safe :: "dag_error failure + 'x \<Rightarrow> ('x \<Rightarrow> bool) \<Rightarrow> bool" where
  "safe m Q = (case m of Inl (Failed _) \<Rightarrow> False | Inl (Panicked p) \<Rightarrow> p = Explicit_panic | Inr x \<Rightarrow> Q x)"

lemma safe_Inr [simp]: "safe (Inr x) Q = Q x"
  by (simp add: safe_def)

lemma safe_rbind:
  assumes "safe m P" "\<And>x. P x \<Longrightarrow> safe (f x) Q"
  shows "safe (rbind m f) Q"
  using assms by (cases m) (auto simp: safe_def split: failure.splits)

lemma safe_mono: "safe m P \<Longrightarrow> (\<And>x. P x \<Longrightarrow> Q x) \<Longrightarrow> safe m Q"
  by (auto simp: safe_def split: sum.splits failure.splits)

definition schema_safe :: "operator_fn \<Rightarrow> bool" where
  "schema_safe f \<longleftrightarrow> (\<forall>s p. of_schema f s = Inl p \<longrightarrow> p = Explicit_panic)"

lemma fn_schema_into_panics: "fn_schema_into s = Inl p \<Longrightarrow> p = Explicit_panic"
  by (cases s) auto

lemma operator_schema_panics:
  assumes "schema_safe (do_fn (operator_default op))" "operator_schema op s = Inl p"
  shows "p = Explicit_panic"
  using assms fn_schema_into_panics
  by (cases op) (auto simp: schema_safe_def rbind_def split: sum.splits fn_schema.splits)

lemma system_fns_safe [simp]:
  "schema_safe system_input_fn" "schema_safe system_output_fn" "schema_safe keyed_state_fn"
  by (auto simp: schema_safe_def system_input_fn_def system_output_fn_def keyed_state_fn_def
    keyed_state_schema_def split: fn_schema.splits)

context stream_dag
begin

lemma add_operator0_panic:
  assumes "graph_inv g" "\<forall>p\<in>set parents. node_of p < length (nodes g)"
    and "operator_schema op (parent_schema (nodes g) parents) = Inl e"
  shows "add_operator0 G g op parents par = Inl (Panicked e)"
proof -
  have "nodes_ok (nodes g) (rg_operators g)" using assms(1) by (simp add: graph_inv_def)
  from input_schema_ok[OF this assms(2)] show ?thesis
    using assms(3) by (simp add: add_operator0_def Let_def)
qed

text \<open>What the graph is after one more node.\<close>

definition added ::
    "'g raw_stream_graph \<Rightarrow> nat set \<Rightarrow> stream_operator \<Rightarrow> operator_id list \<Rightarrow> u16 \<Rightarrow>
     operator_id \<times> 'g raw_stream_graph \<Rightarrow> bool" where
  "added g opens op parents par r \<longleftrightarrow> (case r of (i, g') \<Rightarrow> i = id_of (length (nodes g)) \<and> graph_inv g'
     \<and> pipelined (nodes g') ((opens - node_of ` set parents)
         \<union> (if operator_type_from op = Sink then {} else {length (nodes g)}))
     \<and> (\<exists>inp out. nodes g' = nodes g @ [new_node (length (nodes g)) op parents par inp out]))"

lemma add_operator0_safe:
  assumes inv: "graph_inv g" and pl: "pipelined (nodes g) opens" and sub: "opens \<subseteq> {..<length (nodes g)}"
    and room: "length (nodes g) + 1 < 2 ^ 32" and sch: "schema_safe (do_fn (operator_default op))"
    and ps: "distinct parents" "\<forall>p\<in>set parents. node_of p < length (nodes g) \<and> kids (nodes g) (node_of p) = []"
    and src: "operator_type_from op = Source \<Longrightarrow>
      \<forall>p\<in>set parents. sn_operator_type (nodes g ! node_of p) = Sink"
    and other: "operator_type_from op \<noteq> Source \<Longrightarrow> \<exists>p. parents = [p] \<and> node_of p \<in> opens"
    and join: "\<forall>p\<in>set parents. joins (nodes g ! node_of p) \<longrightarrow> operator_type_from op = CoProcess"
  shows "safe (add_operator0 G g op parents par) (added g opens op parents par)"
proof (cases "operator_schema op (parent_schema (nodes g) parents)")
  case (Inl e)
  then show ?thesis
    using add_operator0_panic[OF inv _ Inl] ps(2) operator_schema_panics[OF sch Inl]
    by (simp add: safe_def)
next
  case (Inr out)
  have ok: "nodes_ok (nodes g) (rg_operators g)" using inv by (simp add: graph_inv_def)
  from add_operator0_ok[OF inv room _ Inr, of par] ps(2) obtain g' where g':
    "add_operator0 G g op parents par = Inr (id_of (length (nodes g)), g')" "graph_inv g'"
    "nodes g' = nodes g @ [new_node (length (nodes g)) op parents par (parent_schema (nodes g) parents) out]"
    by blast
  have "pipelined (nodes g') ((opens - node_of ` set parents)
      \<union> (if operator_type_from op = Sink then {} else {length (nodes g)}))"
    using pipelined_append[OF ok pl, of "new_node (length (nodes g)) op parents par
      (parent_schema (nodes g) parents) out"] ps src other sub join
    by (simp add: g'(3) new_node_def)
  then show ?thesis using g' by (auto simp: added_def)
qed

end

section \<open>No planner error in a program\<close>

lemma check_operator_ok: "t \<noteq> Source \<Longrightarrow> pt \<noteq> Sink \<Longrightarrow> \<exists>b. check_operator t pt = Inr b"
  by (cases pt) auto

declare check_operator.simps [simp del]

lemma is_pipeline_ok: "t \<noteq> Source \<Longrightarrow> pt \<noteq> Sink \<Longrightarrow> \<exists>b. is_pipeline t x pt y = Inr b"
  using check_operator_ok[of t pt] by (auto simp: is_pipeline_def)

lemma lift_error_Inr [simp]: "lift_error (Inr x) = Inr x"
  by (simp add: lift_error_def)

lemma kids_last: "nodes_ok N ops \<Longrightarrow> Suc k = length N \<Longrightarrow> kids N k = []"
  using nodes_ok_edge_less by (fastforce simp: kids_def filter_empty_conv)

lemma pipelined_cong: "pipelined N a \<Longrightarrow> a = b \<Longrightarrow> pipelined N b"
  by simp

lemma virtual_types [simp]:
  "operator_type_from (create_virtual_sink x) = Sink" "operator_type_from (create_virtual_source x) = Source"
  "operator_type_from (create_virtual_flat_map x) = FlatMap"
  "do_fn (operator_default (create_virtual_sink x)) = system_output_fn"
  "do_fn (operator_default (create_virtual_source x)) = system_input_fn"
  "do_fn (operator_default (create_virtual_flat_map x)) = keyed_state_fn"
  by (simp_all add: create_virtual_sink_def create_virtual_source_def create_virtual_flat_map_def
    default_operator_new_def)

context stream_dag
begin

text \<open>
  The graph with its open nodes, at most \<open>m\<close> nodes larger than \<open>g\<close>, the old ones unchanged,
  the operator just added at \<open>i\<close>, which is not a source with several parents.
\<close>

definition grown ::
    "'g raw_stream_graph \<Rightarrow> nat \<Rightarrow> nat set \<Rightarrow> operator_type \<Rightarrow> operator_id \<times> 'g raw_stream_graph \<Rightarrow> bool" where
  "grown g m opens t r \<longleftrightarrow> (case r of (i, g') \<Rightarrow> graph_inv g'
     \<and> pipelined (nodes g') (opens \<union> (if t = Sink then {} else {node_of i}))
     \<and> (\<exists>ns. nodes g' = nodes g @ ns \<and> 0 < length ns \<and> length ns \<le> m)
     \<and> Suc (node_of i) = length (nodes g') \<and> length (nodes g) \<le> node_of i
     \<and> sn_operator_type (nodes g' ! node_of i) = t \<and> \<not> joins (nodes g' ! node_of i))"

lemma add_inner_safe:
  assumes "graph_inv g" "pipelined (nodes g) opens" "opens \<subseteq> {..<length (nodes g)}"
    "length (nodes g) + 1 < 2 ^ 32" "schema_safe (do_fn (operator_default op))"
    "operator_type_from op \<noteq> Source" "node_of p \<in> opens"
    "joins (nodes g ! node_of p) \<longrightarrow> operator_type_from op = CoProcess"
  shows "safe (add_operator0 G g op [p] par) (grown g 1 (opens - {node_of p}) (operator_type_from op))"
proof (rule safe_mono[OF add_operator0_safe[OF assms(1-5)]])
  have "kids (nodes g) (node_of p) = []" using assms(2,3,7) by (auto simp: pipelined_def)
  then show "\<forall>q\<in>set [p]. node_of q < length (nodes g) \<and> kids (nodes g) (node_of q) = []"
    using assms(3,7) by auto
  fix r
  assume "added g opens op [p] par r"
  then show "grown g 1 (opens - {node_of p}) (operator_type_from op) r"
    using assms(4,6) by (auto simp: added_def grown_def new_node_def joins_def)
qed (use assms(6-8) in auto)

lemma add_source_safe:
  assumes "graph_inv g" "pipelined (nodes g) opens" "opens \<subseteq> {..<length (nodes g)}"
    "length (nodes g) + 1 < 2 ^ 32" "schema_safe (do_fn (operator_default op))"
    "operator_type_from op = Source" "distinct ps" "length ps \<le> 1"
    "\<forall>p\<in>set ps. node_of p < length (nodes g) \<and> kids (nodes g) (node_of p) = []
       \<and> sn_operator_type (nodes g ! node_of p) = Sink"
  shows "safe (add_operator0 G g op ps par) (grown g 1 opens Source)"
proof (rule safe_mono[OF add_operator0_safe[OF assms(1-5,7)]])
  fix r
  assume a: "added g opens op ps par r"
  have "opens - node_of ` set ps = opens"
    using assms(2,3,9) by (fastforce simp: pipelined_def)
  then show "grown g 1 opens Source r"
    using a assms(4,6,8) by (auto simp: added_def grown_def new_node_def joins_def)
qed (use assms(6,9) in \<open>auto simp: joins_def\<close>)

lemma grown_trans:
  assumes "grown g m opens t (i, g1)" "grown g1 n opens' t' r"
  shows "grown g (m + n) opens' t' r"
  using assms by (fastforce simp: grown_def)

lemma grown_step:
  assumes "grown g m opens t (i, g1)" "safe x (grown g1 n opens' t')" "m + n = k"
  shows "safe x (grown g k opens' t')"
  using grown_trans[OF assms(1), of n opens' t'] assms(2,3) by (auto elim: safe_mono)

text \<open>The virtual source behind a sink just added.\<close>

lemma grown_sink:
  assumes "grown g m opens Sink (i, g1)" "opens \<subseteq> {..<length (nodes g)}"
  shows "graph_inv g1" "pipelined (nodes g1) opens" "opens \<subseteq> {..<length (nodes g1)}"
    "node_of i < length (nodes g1)" "kids (nodes g1) (node_of i) = []"
    "sn_operator_type (nodes g1 ! node_of i) = Sink"
  using assms kids_last[of "nodes g1" "rg_operators g1" "node_of i"]
  by (auto simp: grown_def graph_inv_def)

lemma grown_inner:
  assumes "grown g m opens t (i, g1)" "t \<noteq> Sink" "opens \<subseteq> {..<length (nodes g)}"
  shows "graph_inv g1" "pipelined (nodes g1) (opens \<union> {node_of i})"
    "opens \<union> {node_of i} \<subseteq> {..<length (nodes g1)}" "(opens \<union> {node_of i}) - {node_of i} = opens"
    "\<not> joins (nodes g1 ! node_of i)"
  using assms by (fastforce simp: grown_def)+

lemma grown_length: "grown g m opens t (i, g1) \<Longrightarrow> length (nodes g1) \<le> length (nodes g) + m"
  by (auto simp: grown_def)

lemma add_sink_source_safe:
  assumes inv: "graph_inv g" "pipelined (nodes g) opens" "opens \<subseteq> {..<length (nodes g)}"
    and room: "length (nodes g) + 2 < 2 ^ 32" and p: "node_of p \<in> opens" and np: "\<not> joins (nodes g ! node_of p)"
  shows "safe (rbind (add_operator0 G g (create_virtual_sink x) [p] par)
      (\<lambda>(i, g). add_operator0 G g (create_virtual_source y) [i] par'))
    (grown g 2 (opens - {node_of p}) Source)"
proof (rule safe_rbind)
  show "safe (add_operator0 G g (create_virtual_sink x) [p] par) (grown g 1 (opens - {node_of p}) Sink)"
    using add_inner_safe[OF inv, of "create_virtual_sink x" p par] room p np by simp
  fix r
  assume r: "grown g 1 (opens - {node_of p}) Sink r"
  obtain i g1 where ig: "r = (i, g1)" by force
  note s = grown_sink[OF r[unfolded ig]]
  have sub: "opens - {node_of p} \<subseteq> {..<length (nodes g)}" using inv(3) by blast
  have len: "length (nodes g1) + 1 < 2 ^ 32" using grown_length[OF r[unfolded ig]] room by simp
  have "safe (add_operator0 G g1 (create_virtual_source y) [i] par') (grown g1 1 (opens - {node_of p}) Source)"
    by (rule add_source_safe) (use s[OF sub] len in auto)
  then show "safe (case r of (i, g) \<Rightarrow> add_operator0 G g (create_virtual_source y) [i] par')
      (grown g 2 (opens - {node_of p}) Source)"
    unfolding ig prod.case by (rule grown_step[OF r[unfolded ig]]) simp
qed

lemma add_with_parent_safe:
  assumes inv: "graph_inv g" "pipelined (nodes g) opens" "opens \<subseteq> {..<length (nodes g)}"
    and room: "length (nodes g) + 4 < 2 ^ 32" and sch: "schema_safe (do_fn (operator_default op))"
    and t: "operator_type_from op \<noteq> Source" and p: "node_of p \<in> opens" and np: "\<not> joins (nodes g ! node_of p)"
  shows "safe (add_with_parent G g op p) (grown g 4 (opens - {node_of p}) (operator_type_from op))"
proof -
  have ok: "nodes_ok (nodes g) (rg_operators g)" using inv(1) by (simp add: graph_inv_def)
  have lp: "node_of p < length (nodes g)" using inv(3) p by blast
  let ?n = "nodes g ! node_of p"
  obtain pop where look: "map_of (rg_operators g) p = Some (node_of p, pop)"
    using nodes_ok_lookup[OF ok lp] by blast
  have ix: "dag_index G (rg_dag g) (node_of p) = Inr ?n"
    using lp by (simp add: index_in nodes_def)
  have "sn_operator_type ?n \<noteq> Sink" using inv(2) lp p by (simp add: pipelined_def)
  then obtain b where b: "is_pipeline (operator_type_from op) (operator_parallelism op)
      (sn_operator_type ?n) (sn_parallelism ?n) = Inr b"
    using is_pipeline_ok[OF t] by blast
  let ?par = "operator_parallelism op"
  let ?rest = "\<lambda>(i, g1). rbind (lift_panic (is_reduce_parent g1 p)) (\<lambda>after_reduce.
        rbind (if after_reduce then add_operator0 G g1 (create_virtual_flat_map ?par) [i] ?par
               else Inr (i, g1)) (\<lambda>(i, g1). add_operator0 G g1 op [i] ?par))"
  let ?O = "opens - {node_of p}"
  have sub: "?O \<subseteq> {..<length (nodes g)}" using inv(3) by blast
  have virt: "safe (rbind (rbind (add_operator0 G g (create_virtual_sink (sn_parallelism ?n)) [p] (sn_parallelism ?n))
      (\<lambda>(i, g). add_operator0 G g (create_virtual_source ?par) [i] ?par)) ?rest)
    (grown g 4 ?O (operator_type_from op))"
  proof (rule safe_rbind[OF add_sink_source_safe[OF inv _ p np]])
    fix r
    assume r: "grown g 2 ?O Source r"
    obtain i g2 where ig: "r = (i, g2)" by force
    have src: "Source \<noteq> Sink" by simp
    note s = grown_inner[OF r[unfolded ig] src sub]
    have len: "length (nodes g2) \<le> length (nodes g) + 2" using grown_length[OF r[unfolded ig]] .
    have "node_of p < length (nodes g2)" using lp r ig by (auto simp: grown_def)
    moreover have "nodes_ok (nodes g2) (rg_operators g2)" using s(1) by (simp add: graph_inv_def)
    ultimately obtain c where c: "is_reduce_parent g2 p = Inr c"
      using nodes_ok_lookup by (fastforce simp: is_reduce_parent_def)
    have last: "safe (add_operator0 G g3 op [j] ?par) (grown g 4 ?O (operator_type_from op))"
      if j: "grown g 3 ?O u (j, g3)" "u \<noteq> Sink" for u j g3
    proof -
      note s3 = grown_inner[OF j sub]
      have "safe (add_operator0 G g3 op [j] ?par)
          (grown g3 1 ((?O \<union> {node_of j}) - {node_of j}) (operator_type_from op))"
        by (rule add_inner_safe[OF s3(1-3) _ sch t]) (use grown_length[OF j(1)] room s3(5) in auto)
      then show ?thesis unfolding s3(4) by (rule grown_step[OF j(1)]) simp
    qed
    have "safe (if c then add_operator0 G g2 (create_virtual_flat_map ?par) [i] ?par else Inr (i, g2))
        (\<lambda>r. \<exists>u. u \<noteq> Sink \<and> grown g 3 ?O u r)"
    proof (cases c)
      case True
      have x: "safe (add_operator0 G g2 (create_virtual_flat_map ?par) [i] ?par)
          (grown g2 1 ((?O \<union> {node_of i}) - {node_of i}) (operator_type_from (create_virtual_flat_map ?par)))"
        by (rule add_inner_safe[OF s(1-3)]) (use len room s(5) in auto)
      have "safe (add_operator0 G g2 (create_virtual_flat_map ?par) [i] ?par) (grown g 3 ?O FlatMap)"
        by (rule grown_step[OF r[unfolded ig] x[unfolded s(4) virtual_types]]) simp
      then have "safe (add_operator0 G g2 (create_virtual_flat_map ?par) [i] ?par)
          (\<lambda>r. \<exists>u. u \<noteq> Sink \<and> grown g 3 ?O u r)"
        by (rule safe_mono) blast
      then show ?thesis using True by simp
    next
      case False
      have "grown g 3 ?O Source (i, g2)" using r ig by (auto simp: grown_def)
      then show ?thesis using False by auto
    qed
    then show "safe (?rest r) (grown g 4 ?O (operator_type_from op))"
      unfolding ig prod.case c lift_panic_simps rbind_simps
      by (rule safe_rbind) (use last in auto)
  qed (use room in simp)
  show ?thesis
  proof (cases b)
    case True
    have "safe (add_operator0 G g op [p] (max ?par (sn_parallelism ?n))) (grown g 1 ?O (operator_type_from op))"
      by (rule add_inner_safe[OF inv _ sch t p]) (use room np in simp_all)
    then have "safe (add_operator0 G g op [p] (max ?par (sn_parallelism ?n))) (grown g 4 ?O (operator_type_from op))"
      by (rule safe_mono) (auto simp: grown_def)
    then show ?thesis using True look ix b by (simp add: add_with_parent_def Let_def)
  next
    case False
    have "add_with_parent G g op p = rbind (rbind (add_operator0 G g (create_virtual_sink (sn_parallelism ?n)) [p] (sn_parallelism ?n))
      (\<lambda>(i, g). add_operator0 G g (create_virtual_source ?par) [i] ?par)) ?rest"
      using False look ix b
      by (simp add: add_with_parent_def Let_def rbind_assoc) (simp add: rbind_def split_def)
    then show ?thesis using virt by simp
  qed
qed

end

section \<open>Connected streams\<close>

text \<open>Virtual sinks that still wait for the source behind them.\<close>

definition idle :: "stream_node list \<Rightarrow> operator_id set \<Rightarrow> bool" where
  "idle N S \<longleftrightarrow> (\<forall>q\<in>S. node_of q < length N \<and> kids N (node_of q) = []
     \<and> sn_operator_type (N ! node_of q) = Sink)"

lemma idle_mono: "idle N S \<Longrightarrow> T \<subseteq> S \<Longrightarrow> idle N T"
  by (auto simp: idle_def)

lemma node_of_inject: "node_of p = node_of q \<longleftrightarrow> p = q"
  by (metis id_of_node)

lemma idle_append:
  assumes "idle N S" "S \<inter> set (sn_parent_ids n) = {}"
  shows "idle (N @ [n]) S"
proof -
  have "filter (\<lambda>p. node_of p = node_of q) (sn_parent_ids n) = []" if "q \<in> S" for q
    using assms(2) that by (auto simp: filter_empty_conv node_of_inject)
  then show ?thesis using assms(1) by (auto simp: idle_def kids_append nth_append)
qed

lemma safe_conj: "safe m P \<Longrightarrow> safe m Q \<Longrightarrow> safe m (\<lambda>x. P x \<and> Q x)"
  by (auto simp: safe_def split: sum.splits failure.splits)

lemma fold_res_safe:
  assumes "I [] s" "\<And>seen x st. I seen st \<Longrightarrow> x \<notin> set seen \<Longrightarrow> x \<in> set xs \<Longrightarrow> length seen < length xs \<Longrightarrow>
      safe (f x st) (I (seen @ [x]))"
    "distinct xs"
  shows "safe (fold_res f xs s) (I xs)"
proof -
  have "safe (fold_res f ys st) (I (seen @ ys))"
    if "xs = seen @ ys" "I seen st" for seen ys st
    using that
  proof (induction ys arbitrary: seen st)
    case Nil
    then show ?case by simp
  next
    case (Cons y ys)
    have "y \<notin> set seen" using Cons.prems(1) assms(3) by auto
    then have "safe (f y st) (I (seen @ [y]))" using assms(2) Cons.prems by auto
    then show ?case using Cons.IH[of "seen @ [y]"] Cons.prems(1) by (auto intro: safe_rbind)
  qed
  from this[of "[]" xs s] assms(1) show ?thesis by simp
qed

context stream_dag
begin

lemma add_idle:
  assumes "safe (add_operator0 G g op ps par) (added g opens op ps par)"
    "safe (add_operator0 G g op ps par) Q" "idle (nodes g) S" "S \<inter> set ps = {}"
  shows "safe (add_operator0 G g op ps par) (\<lambda>r. Q r \<and> idle (nodes (snd r)) S)"
proof (rule safe_conj[OF assms(2)], rule safe_mono[OF assms(1)])
  fix r
  assume "added g opens op ps par r"
  then obtain inp out where "nodes (snd r) = nodes g @ [new_node (length (nodes g)) op ps par inp out]"
    by (auto simp: added_def)
  then show "idle (nodes (snd r)) S"
    using idle_append[OF assms(3), of "new_node (length (nodes g)) op ps par inp out"] assms(4)
    by (simp add: new_node_def)
qed

lemma add_inner_idle:
  assumes inv: "graph_inv g" "pipelined (nodes g) opens" "opens \<subseteq> {..<length (nodes g)}"
    and rest: "length (nodes g) + 1 < 2 ^ 32" "schema_safe (do_fn (operator_default op))"
    and t: "operator_type_from op \<noteq> Source" and p: "node_of p \<in> opens" and S: "idle (nodes g) S"
    and np: "\<not> joins (nodes g ! node_of p)"
  shows "safe (add_operator0 G g op [p] par)
    (\<lambda>r. grown g 1 (opens - {node_of p}) (operator_type_from op) r \<and> idle (nodes (snd r)) S)"
proof (rule add_idle[OF _ add_inner_safe[OF inv rest t p] S])
  have k: "node_of p < length (nodes g)" "kids (nodes g) (node_of p) = []"
    "sn_operator_type (nodes g ! node_of p) \<noteq> Sink"
    using inv(2,3) p by (auto simp: pipelined_def)
  show "safe (add_operator0 G g op [p] par) (added g opens op [p] par)"
    by (rule add_operator0_safe[OF inv rest]) (use k t p np in auto)
  show "S \<inter> set [p] = {}" using S k(3) by (auto simp: idle_def)
qed (use np in simp)

lemma add_source_idle:
  assumes inv: "graph_inv g" "pipelined (nodes g) opens" "opens \<subseteq> {..<length (nodes g)}"
    and rest: "length (nodes g) + 1 < 2 ^ 32" and d: "distinct ps" "length ps \<le> 1"
    and S: "idle (nodes g) (set ps)" "idle (nodes g) S" "S \<inter> set ps = {}"
  shows "safe (add_operator0 G g (create_virtual_source x) ps par)
    (\<lambda>r. grown g 1 opens Source r \<and> idle (nodes (snd r)) S)"
proof (rule add_idle[OF _ add_source_safe S(2,3)])
  show "safe (add_operator0 G g (create_virtual_source x) ps par)
      (added g opens (create_virtual_source x) ps par)"
    by (rule add_operator0_safe[OF inv rest _ d(1)]) (use S(1) in \<open>auto simp: idle_def joins_def\<close>)
qed (use assms in \<open>auto simp: idle_def\<close>)

definition connected ::
    "'g raw_stream_graph \<Rightarrow> nat set \<Rightarrow> operator_id list \<Rightarrow>
     'g raw_stream_graph \<times> operator_id list \<times> operator_id option \<times> u16 \<Rightarrow> bool" where
  "connected g0 opens seen st \<longleftrightarrow> (case st of (g, ids, red, _) \<Rightarrow> graph_inv g
     \<and> pipelined (nodes g) (opens - node_of ` set seen)
     \<and> (\<exists>ns. nodes g = nodes g0 @ ns \<and> length ns = length seen)
     \<and> idle (nodes g) (set ids \<union> set_option red)
     \<and> distinct ids \<and> set_option red \<inter> set ids = {})"

lemma connected_step:
  assumes c: "connected g0 opens seen st" and p: "p \<notin> set seen" "node_of p \<in> opens" "\<not> joins (nodes g0 ! node_of p)"
    and sub: "opens \<subseteq> {..<length (nodes g0)}" and room: "length (nodes g0) + length seen + 1 < 2 ^ 32"
  shows "safe (add_connect_sink G p st) (connected g0 opens (seen @ [p]))"
proof -
  obtain g ids red x where st: "st = (g, ids, red, x)" by (metis prod_cases4)
  let ?O = "opens - node_of ` set seen"
  from c st obtain ns where inv: "graph_inv g" "pipelined (nodes g) ?O" and ns: "nodes g = nodes g0 @ ns"
    "length ns = length seen" and idl: "idle (nodes g) (set ids \<union> set_option red)"
    and d: "distinct ids" "set_option red \<inter> set ids = {}"
    by (auto simp: connected_def)
  have pO: "node_of p \<in> ?O" using p by (auto simp: node_of_inject)
  have subO: "?O \<subseteq> {..<length (nodes g)}" using sub ns by auto
  have subP: "?O - {node_of p} \<subseteq> {..<length (nodes g)}" using subO by blast
  have lp: "node_of p < length (nodes g)" using subO pO by blast
  let ?n = "nodes g ! node_of p"
  have np: "\<not> joins ?n" using p(2,3) sub ns(1) by (auto simp: nth_append)
  have ok: "nodes_ok (nodes g) (rg_operators g)" using inv(1) by (simp add: graph_inv_def)
  obtain pop where look: "map_of (rg_operators g) p = Some (node_of p, pop)"
    using nodes_ok_lookup[OF ok lp] by blast
  have ix: "dag_index G (rg_dag g) (node_of p) = Inr ?n" using lp by (simp add: index_in nodes_def)
  have len: "length (nodes g) + 1 < 2 ^ 32" using room ns by simp
  have "safe (add_operator0 G g (create_virtual_sink 0) [p] (sn_parallelism ?n))
      (\<lambda>r. grown g 1 (?O - {node_of p}) Sink r \<and> idle (nodes (snd r)) (set ids \<union> set_option red))"
    using add_inner_idle[OF inv subO len, of "create_virtual_sink 0" p] pO idl np by simp
  moreover have "safe (case r of (i, g) \<Rightarrow>
        Inr (if sn_operator_type ?n = Reduce then (g, ids, Some i, sn_parallelism ?n)
             else (g, ids @ [i], red, sn_parallelism ?n))) (connected g0 opens (seen @ [p]))"
    if r: "grown g 1 (?O - {node_of p}) Sink r \<and> idle (nodes (snd r)) (set ids \<union> set_option red)" for r
  proof -
    obtain i g1 where ig: "r = (i, g1)" by force
    note gr = r[unfolded ig snd_conv, THEN conjunct1] and old = r[unfolded ig snd_conv, THEN conjunct2]
    have s: "graph_inv g1" "pipelined (nodes g1) (?O - {node_of p})" "idle (nodes g1) {i}"
      using grown_sink[OF gr subP] by (simp_all add: idle_def)
    have fresh: "i \<notin> set ids \<union> set_option red"
    proof
      assume "i \<in> set ids \<union> set_option red"
      then have "node_of i < length (nodes g)" using idl by (auto simp: idle_def)
      then show False using gr by (auto simp: grown_def)
    qed
    obtain ms where ms: "nodes g1 = nodes g @ ms" "length ms = 1"
      using gr by (auto simp: grown_def le_Suc_eq)
    have O: "?O - {node_of p} = opens - insert (node_of p) (node_of ` set seen)" by auto
    have "idle (nodes g1) (set ids \<union> set_option red \<union> {i})" using old s(3) by (auto simp: idle_def)
    then have i2: "idle (nodes g1) (set ids \<union> {i})" "idle (nodes g1) (set (ids @ [i]) \<union> set_option red)"
      by (auto intro: idle_mono)
    show ?thesis
      using s(1) s(2)[unfolded O] i2 ns ms d fresh by (auto simp: ig connected_def)
  qed
  ultimately have "safe (rbind (add_operator0 G g (create_virtual_sink 0) [p] (sn_parallelism ?n))
      (\<lambda>(i, g). Inr (if sn_operator_type ?n = Reduce then (g, ids, Some i, sn_parallelism ?n)
             else (g, ids @ [i], red, sn_parallelism ?n)))) (connected g0 opens (seen @ [p]))"
    by (rule safe_rbind)
  then show ?thesis using look ix by (simp add: add_connect_sink_def st)
qed

end

section \<open>Joining the connected streams\<close>

lemma idle_Un: "idle N (S \<union> T) \<longleftrightarrow> idle N S \<and> idle N T"
  by (auto simp: idle_def)

context stream_dag
begin

definition waiting ::
    "'g raw_stream_graph \<Rightarrow> nat \<Rightarrow> nat set \<Rightarrow> operator_type \<Rightarrow> operator_id set \<Rightarrow>
     operator_id \<times> 'g raw_stream_graph \<Rightarrow> bool" where
  "waiting g m opens t S r \<longleftrightarrow> grown g m opens t r \<and> idle (nodes (snd r)) S"

lemma waiting_step:
  assumes "grown g m opens t (i, g1)"
    "safe x (\<lambda>r. grown g1 1 opens' t' r \<and> idle (nodes (snd r)) S)"
  shows "safe x (waiting g (Suc m) opens' t' S)"
  using assms(2) by (rule safe_mono) (auto simp: waiting_def intro: grown_trans[OF assms(1), of 1, simplified])

lemma waiting_inner:
  assumes w: "waiting g m opens t S (i, g1)" and t: "t \<noteq> Sink" and sub: "opens \<subseteq> {..<length (nodes g)}"
    and room: "length (nodes g) + Suc m < 2 ^ 32" and sch: "schema_safe (do_fn (operator_default op))"
    and o: "u \<noteq> Source" "operator_type_from op = u" and n: "n = Suc m"
  shows "safe (add_operator0 G g1 op [i] par) (waiting g n opens u S)"
proof -
  have gr: "grown g m opens t (i, g1)" and idl: "idle (nodes g1) S" using w by (simp_all add: waiting_def)
  note s = grown_inner[OF gr t sub]
  have len: "length (nodes g1) + 1 < 2 ^ 32" using grown_length[OF gr] room by simp
  have "safe (add_operator0 G g1 op [i] par)
      (\<lambda>r. grown g1 1 ((opens \<union> {node_of i}) - {node_of i}) (operator_type_from op) r \<and> idle (nodes (snd r)) S)"
    by (rule add_inner_idle[OF s(1-3) len sch _ _ idl]) (use o s(5) in simp_all)
  then show ?thesis unfolding s(4) n o(2) by (rule waiting_step[OF gr])
qed

text \<open>The source behind the sinks of the joined streams, and the operator that joins them.\<close>

lemma add_join_safe:
  assumes inv: "graph_inv g" "pipelined (nodes g) opens" "opens \<subseteq> {..<length (nodes g)}"
    and room: "length (nodes g) + 2 < 2 ^ 32" and sch: "schema_safe (do_fn (operator_default op))"
    and t: "operator_type_from op = CoProcess" and ps: "distinct ps" "idle (nodes g) (set ps)"
  shows "safe (rbind (add_operator0 G g (create_virtual_source x) ps par) (\<lambda>(i, g). add_operator0 G g op [i] par'))
    (grown g 2 opens CoProcess)"
proof (rule safe_rbind)
  show "safe (add_operator0 G g (create_virtual_source x) ps par) (added g opens (create_virtual_source x) ps par)"
    by (rule add_operator0_safe[OF inv]) (use room ps in \<open>auto simp: idle_def joins_def\<close>)
  fix r
  assume a: "added g opens (create_virtual_source x) ps par r"
  obtain i g1 where ig: "r = (i, g1)" by force
  have "opens - node_of ` set ps = opens" using inv(2,3) ps(2) by (fastforce simp: pipelined_def idle_def)
  then obtain n where g1: "graph_inv g1" "pipelined (nodes g1) (opens \<union> {node_of i})"
    "nodes g1 = nodes g @ [n]" "node_of i = length (nodes g)"
    using a room by (auto simp: added_def ig)
  have sub: "opens \<union> {node_of i} \<subseteq> {..<length (nodes g1)}" using g1(3,4) inv(3) by auto
  have O: "(opens \<union> {node_of i}) - {node_of i} = opens" using g1(4) inv(3) by auto
  have "safe (add_operator0 G g1 op [i] par')
      (grown g1 1 ((opens \<union> {node_of i}) - {node_of i}) (operator_type_from op))"
    by (rule add_inner_safe[OF g1(1,2) sub _ sch]) (use g1(3) room t in simp_all)
  then have "safe (add_operator0 G g1 op [i] par') (grown g 2 opens CoProcess)"
    unfolding O t by (rule safe_mono) (use g1(3) in \<open>fastforce simp: grown_def\<close>)
  then show "safe (case r of (i, g) \<Rightarrow> add_operator0 G g op [i] par') (grown g 2 opens CoProcess)"
    by (simp add: ig)
qed

lemma add_connected_safe:
  assumes inv: "graph_inv g0" "pipelined (nodes g0) opens" "opens \<subseteq> {..<length (nodes g0)}"
    and room: "length (nodes g0) + length ps + 5 < 2 ^ 32" and sch: "schema_safe (do_fn (operator_default op))"
    and t: "operator_type_from op = CoProcess" and ps: "distinct ps" "\<forall>p\<in>set ps. node_of p \<in> opens"
      "\<forall>p\<in>set ps. \<not> joins (nodes g0 ! node_of p)"
  shows "safe (add_connected G g0 op ps) (grown g0 (length ps + 5) (opens - node_of ` set ps) CoProcess)"
proof -
  let ?O = "opens - node_of ` set ps"
  have "safe (fold_res (add_connect_sink G) ps (g0, [], None, 0)) (connected g0 opens ps)"
  proof (rule fold_res_safe[OF _ _ ps(1)])
    show "connected g0 opens [] (g0, [], None, 0)" using inv by (simp add: connected_def idle_def)
    fix seen x st
    assume a: "connected g0 opens seen st" "x \<notin> set seen" "x \<in> set ps" "length seen < length ps"
    show "safe (add_connect_sink G x st) (connected g0 opens (seen @ [x]))"
      using connected_step[OF a(1,2) _ _ inv(3)] a(3,4) ps(2,3) room by simp
  qed
  moreover have "safe (case st of (g, ids, red, par) \<Rightarrow> case red of
          Some r \<Rightarrow> rbind (add_operator0 G g (create_virtual_source par) [r] par) (\<lambda>(i, g).
            rbind (add_operator0 G g (create_virtual_flat_map par) [i] par) (\<lambda>(i, g).
            rbind (add_operator0 G g (create_virtual_sink par) [i] par) (\<lambda>(i, g).
            rbind (add_operator0 G g (create_virtual_source par) (ids @ [i]) par) (\<lambda>(i, g).
            add_operator0 G g op [i] par))))
        | None \<Rightarrow> rbind (add_operator0 G g (create_virtual_source 0) ids (operator_parallelism op)) (\<lambda>(i, g).
            add_operator0 G g op [i] (operator_parallelism op)))
      (grown g0 (length ps + 5) ?O CoProcess)" (is "safe ?m _") if c: "connected g0 opens ps st" for st
  proof -
    obtain g ids red par where st: "st = (g, ids, red, par)" by (metis prod_cases4)
    from c st obtain ns where g: "graph_inv g" "pipelined (nodes g) ?O" and ns: "nodes g = nodes g0 @ ns"
      "length ns = length ps" and idl: "idle (nodes g) (set ids)" "idle (nodes g) (set_option red)"
      and d: "distinct ids" "set_option red \<inter> set ids = {}"
      by (auto simp: connected_def idle_Un)
    have sub: "?O \<subseteq> {..<length (nodes g)}" using inv(3) ns by auto
    have len: "length (nodes g) + 5 < 2 ^ 32" using room ns by simp
    have up: "grown g 5 ?O CoProcess r \<Longrightarrow> grown g0 (length ps + 5) ?O CoProcess r" for r
      using ns by (fastforce simp: grown_def)
    have join: "safe (rbind (add_operator0 G h (create_virtual_source x) qs q) (\<lambda>(i, g). add_operator0 G g op [i] q))
        (grown g 5 ?O CoProcess)"
      if h: "graph_inv h" "pipelined (nodes h) ?O" "distinct qs" "idle (nodes h) (set qs)"
        "\<exists>ms. nodes h = nodes g @ ms \<and> length ms \<le> 3" for h x qs q
    proof -
      obtain ms where ms: "nodes h = nodes g @ ms" "length ms \<le> 3" using h(5) by blast
      have "?O \<subseteq> {..<length (nodes h)}" using sub ms(1) by auto
      from add_join_safe[OF h(1,2) this _ sch t h(3,4)] len ms
      have "safe (rbind (add_operator0 G h (create_virtual_source x) qs q) (\<lambda>(i, g). add_operator0 G g op [i] q))
        (grown h 2 ?O CoProcess)" by simp
      then show ?thesis by (rule safe_mono) (use ms in \<open>fastforce simp: grown_def\<close>)
    qed
    have "safe ?m (grown g 5 ?O CoProcess)"
    proof (cases red)
      case None
      then show ?thesis unfolding st None prod.case option.case using join[OF g d(1) idl(1)] by auto
    next
      case (Some r)
      have "safe (add_operator0 G g (create_virtual_source par) [r] par) (waiting g 1 ?O Source (set ids))"
        using add_source_idle[OF g sub, of "[r]" "set ids"] len d Some idl by (simp add: waiting_def[abs_def])
      then show ?thesis
        unfolding st Some prod.case option.case
      proof (rule safe_rbind, clarify, goal_cases)
        case (1 i g1)
        have "safe (add_operator0 G g1 (create_virtual_flat_map par) [i] par) (waiting g 2 ?O FlatMap (set ids))"
          by (rule waiting_inner[OF 1(1) _ sub]) (use len in simp_all)
        then show ?case
        proof (rule safe_rbind, clarify, goal_cases)
          case (1 i g1)
          have "safe (add_operator0 G g1 (create_virtual_sink par) [i] par) (waiting g 3 ?O Sink (set ids))"
            by (rule waiting_inner[OF 1(1) _ sub]) (use len in simp_all)
          then show ?case
          proof (rule safe_rbind, clarify, goal_cases)
            case (1 i g1)
            then have gr: "grown g 3 ?O Sink (i, g1)" and w: "idle (nodes g1) (set ids)"
              by (simp_all add: waiting_def)
            note s = grown_sink[OF gr sub]
            have "i \<notin> set ids" using idl(1) gr by (auto simp: idle_def grown_def)
            then have "distinct (ids @ [i])" "idle (nodes g1) (set (ids @ [i]))"
              using d(1) w s(4-6) by (auto simp: idle_def)
            moreover have "\<exists>ms. nodes g1 = nodes g @ ms \<and> length ms \<le> 3" using gr by (auto simp: grown_def)
            ultimately show ?case by (intro join s(1,2))
          qed
        qed
      qed
    qed
    then show ?thesis by (rule safe_mono) (use up in blast)
  qed
  ultimately show ?thesis
    unfolding add_connected_def using t by (auto intro: safe_rbind)
qed

end

section \<open>Programs build pipelines\<close>

fun call_fn :: "api_call \<Rightarrow> operator_fn" where
  "call_fn (RegisterSource _ f) = f" | "call_fn (CallFlatMap _ f) = f" | "call_fn (CallFilter _ f) = f"
| "call_fn (CallWatermarks _ f) = f" | "call_fn (CallKeyBy _ f) = f" | "call_fn (CallWindow _ f) = f"
| "call_fn (CallReduce _ _ f) = f" | "call_fn (CallConnect _ _ f) = f" | "call_fn (CallAddSink _ f) = f"

text \<open>At most this many nodes are added by a call.\<close>

fun call_cost :: "api_call \<Rightarrow> nat" where
  "call_cost (CallConnect _ others _) = 6 + length others"
| "call_cost _ = 4"

lemma new_operator_types [simp]:
  "operator_type_from (new_source x c f) = Source" "operator_type_from (new_co_process f) = CoProcess"
  "operator_type_from (new_map f) = FlatMap" "operator_type_from (new_filter f) = Filter"
  "operator_type_from (new_key_by f) = KeyBy" "operator_type_from (new_watermark_assigner f) = WatermarkAssigner"
  "operator_type_from (new_sink c f) = Sink" "operator_type_from (new_window_assigner f) = WindowAssigner"
  "operator_type_from (new_reduce x f) = Reduce"
  by (simp_all add: new_source_def new_co_process_def new_map_def new_filter_def new_key_by_def
    new_watermark_assigner_def new_sink_def new_window_assigner_def new_reduce_def)

lemma new_operator_fns [simp]:
  "do_fn (operator_default (new_source x c f)) = f" "do_fn (operator_default (new_co_process f)) = f"
  "do_fn (operator_default (new_map f)) = f" "do_fn (operator_default (new_filter f)) = f"
  "do_fn (operator_default (new_key_by f)) = f" "do_fn (operator_default (new_watermark_assigner f)) = f"
  "do_fn (operator_default (new_sink c f)) = f" "do_fn (operator_default (new_window_assigner f)) = f"
  "do_fn (operator_default (new_reduce x f)) = f"
  by (simp_all add: new_source_def new_co_process_def new_map_def new_filter_def new_key_by_def
    new_watermark_assigner_def new_sink_def new_window_assigner_def new_reduce_def default_operator_new_def)

lemma map_of_delete_all: "map_of (fold AList.delete used hs) = map_of hs |` (- set used)"
proof (induction used arbitrary: hs)
  case Nil
  then show ?case by (simp add: restrict_map_def)
next
  case (Cons x used)
  then show ?case by (auto simp: fun_eq_iff restrict_map_def AList.delete_conv')
qed

lemma held_dom: "held hs i kinds \<Longrightarrow> i \<in> dom (map_of hs)"
  by (auto simp: held_def split: option.splits)

lemmas api_call_defs = manager_add_def with_source_def register_source_def with_connect_def
  ds_flat_map_def ds_filter_def ds_key_by_def assign_timestamps_and_watermarks_def ds_connect_def
  ds_add_sink_def ds_window_def ds_reduce_def

definition open_nodes :: "(operator_id, stream_kind) hmap \<Rightarrow> nat set" where
  "open_nodes hs = node_of ` dom (map_of hs)"

lemma open_nodes_used:
  "open_nodes (fold AList.delete used hs) = open_nodes hs - node_of ` set used"
  by (auto simp: open_nodes_def map_of_delete_all node_of_inject image_iff restrict_map_def dom_def
    split: if_splits)

lemma open_nodes_update: "open_nodes (AList.update i k hs) = insert (node_of i) (open_nodes hs)"
  by (auto simp: open_nodes_def AList.update_conv')

text \<open>The only panic is one raised by a schema function.\<close>

definition calm :: "'x res \<Rightarrow> ('x \<Rightarrow> bool) \<Rightarrow> bool" where
  "calm m Q = (case m of Inl p \<Rightarrow> p = Explicit_panic | Inr x \<Rightarrow> Q x)"

lemma expect_calm: "safe m Q \<Longrightarrow> calm (expect_ok m) Q"
  by (auto simp: safe_def calm_def expect_ok_def split: sum.splits failure.splits)

lemma calm_rbind: "calm m P \<Longrightarrow> (\<And>x. P x \<Longrightarrow> calm (f x) Q) \<Longrightarrow> calm (rbind m f) Q"
  by (cases m) (auto simp: calm_def)

lemma calm_Inr [simp]: "calm (Inr x) Q = Q x"
  by (simp add: calm_def)

context stream_dag
begin

definition api_inv :: "nat \<Rightarrow> 'g api_state \<Rightarrow> bool" where
  "api_inv m st \<longleftrightarrow> (case st of (g, hs) \<Rightarrow> graph_inv g \<and> pipelined (nodes g) (open_nodes hs)
     \<and> open_nodes hs \<subseteq> {..<length (nodes g)} \<and> (\<forall>k\<in>open_nodes hs. \<not> joins (nodes g ! k))
     \<and> length (nodes g) \<le> m)"

lemma extend_with_safe:
  assumes inv: "api_inv n (g, hs)" and m: "safe m (grown g k (open_nodes hs - node_of ` set used) t)"
    and kind: "kind = None \<longleftrightarrow> t = Sink"
  shows "calm (extend_with used kind hs (expect_ok m)) (api_inv (n + k))"
  unfolding extend_with_def
proof (rule calm_rbind[OF expect_calm[OF m]], clarify)
  fix i g'
  assume gr: "grown g k (open_nodes hs - node_of ` set used) t (i, g')"
  let ?O = "open_nodes hs - node_of ` set used"
  have "?O \<union> (if t = Sink then {} else {node_of i}) \<subseteq> {..<length (nodes g')}"
  proof -
    have "length (nodes g) \<le> length (nodes g')" "node_of i < length (nodes g')"
      using gr by (auto simp: grown_def)
    moreover have "open_nodes hs \<subseteq> {..<length (nodes g)}" using inv by (simp add: api_inv_def)
    ultimately show ?thesis by auto
  qed
  moreover have "\<forall>k\<in>?O \<union> (if t = Sink then {} else {node_of i}). \<not> joins (nodes g' ! k)"
  proof
    fix k
    assume k: "k \<in> ?O \<union> (if t = Sink then {} else {node_of i})"
    obtain ns where ns: "nodes g' = nodes g @ ns" "\<not> joins (nodes g' ! node_of i)"
      using gr by (auto simp: grown_def)
    have "k < length (nodes g) \<and> \<not> joins (nodes g ! k)" if "k \<in> ?O"
      using inv that by (auto simp: api_inv_def)
    then show "\<not> joins (nodes g' ! k)" using k ns by (cases "k \<in> ?O") (auto simp: nth_append split: if_splits)
  qed
  moreover have "length (nodes g') \<le> n + k" using gr inv by (auto simp: grown_def api_inv_def)
  moreover have "graph_inv g'" "pipelined (nodes g') (?O \<union> (if t = Sink then {} else {node_of i}))"
    using gr by (auto simp: grown_def)
  moreover have "open_nodes ((case kind of None \<Rightarrow> id | Some x \<Rightarrow> AList.update i x) (fold AList.delete used hs))
      = ?O \<union> (if t = Sink then {} else {node_of i})"
    using kind by (cases kind) (simp_all add: open_nodes_used open_nodes_update)
  ultimately show "calm (Inr (g', (case kind of None \<Rightarrow> id | Some x \<Rightarrow> AList.update i x)
      (fold AList.delete used hs))) (api_inv (n + k))"
    by (simp add: api_inv_def)
qed

lemma add_source0_safe:
  assumes "api_inv n (g, hs)" "n + 1 < 2 ^ 32" "schema_safe f"
  shows "safe (add_operator G g (new_source par User f) []) (grown g 4 (open_nodes hs) Source)"
proof -
  have "safe (add_operator0 G g (new_source par User f) [] (operator_parallelism (new_source par User f)))
      (grown g 1 (open_nodes hs) Source)"
    by (rule add_source_safe) (use assms in \<open>auto simp: api_inv_def\<close>)
  then show ?thesis unfolding add_operator_def by simp (erule safe_mono, auto simp: grown_def)
qed

lemma add_inner_call:
  assumes "api_inv n (g, hs)" "n + 4 < 2 ^ 32" "schema_safe (do_fn (operator_default op))"
    "operator_type_from op \<noteq> Source" "p \<in> dom (map_of hs)"
  shows "safe (add_operator G g op [p]) (grown g 4 (open_nodes hs - node_of ` set [p]) (operator_type_from op))"
  using add_with_parent_safe[of g "open_nodes hs" op p] assms
  by (auto simp: add_operator_def api_inv_def open_nodes_def)

lemma add_connect_call:
  assumes "api_inv n (g, hs)" "n + length ps + 5 < 2 ^ 32" "schema_safe f" "distinct ps"
    "\<forall>p\<in>set ps. p \<in> dom (map_of hs)" "ps \<noteq> []"
  shows "safe (add_operator G g (new_co_process f) ps)
    (grown g (length ps + 5) (open_nodes hs - node_of ` set ps) CoProcess)"
proof (cases "\<exists>p. ps = [p]")
  case True
  then obtain p where p: "ps = [p]" by blast
  have "safe (add_operator G g (new_co_process f) [p]) (grown g 4 (open_nodes hs - node_of ` set [p]) CoProcess)"
    using add_inner_call[OF assms(1), of "new_co_process f" p] assms p by auto
  then show ?thesis unfolding p by (rule safe_mono) (auto simp: grown_def)
next
  case False
  then obtain a b qs where ab: "ps = a # b # qs" using assms(6) by (metis list.exhaust)
  have "safe (add_connected G g (new_co_process f) ps)
    (grown g (length ps + 5) (open_nodes hs - node_of ` set ps) CoProcess)"
    by (rule add_connected_safe) (use assms in \<open>auto simp: api_inv_def open_nodes_def\<close>)
  then show ?thesis by (simp add: add_operator_def ab)
qed

lemma api_safe:
  assumes inv: "api_inv n (g, hs)" and room: "n + call_cost c < 2 ^ 32" and sch: "schema_safe (call_fn c)"
    and c: "api G c (g, hs) = Some m"
  shows "calm m (api_inv (n + call_cost c))"
proof -
  have inner: "calm (extend_with [p] kind hs (manager_add G g op [p])) (api_inv (n + 4))"
    if "held hs p kinds" "schema_safe (do_fn (operator_default op))" "operator_type_from op \<noteq> Source"
      "kind = None \<longleftrightarrow> operator_type_from op = Sink" "n + 4 < 2 ^ 32" for op kind p kinds
    using extend_with_safe[OF inv add_inner_call[OF inv that(5,2,3) held_dom[OF that(1)]] that(4)] by (simp add: manager_add_def)
  show ?thesis
  proof (cases c)
    case (RegisterSource par f)
    then show ?thesis
      using c sch extend_with_safe[OF inv, of _ 4 "[]" Source] add_source0_safe[OF inv, of f par] room
      by (auto simp: api_call_defs)
  next
    case (CallConnect cur others f)
    then have h: "distinct (others @ [cur])" "\<forall>p\<in>set (others @ [cur]). p \<in> dom (map_of hs)"
      "m = extend_with (others @ [cur]) (Some ConnectedStreams) hs
        (expect_ok (add_operator G g (new_co_process f) (others @ [cur])))"
      using c held_dom by (fastforce simp: api_call_defs split: if_splits)+
    have "calm m (api_inv (n + (length (others @ [cur]) + 5)))"
      unfolding h(3)
      by (rule extend_with_safe[OF inv add_connect_call[OF inv _ _ h(1,2)]])
        (use room sch CallConnect in simp_all)
    then show ?thesis by (simp add: CallConnect add.commute)
  qed (use c sch room inner in \<open>auto simp: api_call_defs split: if_splits\<close>)
qed

lemma api_all_safe:
  assumes "api_all G cs st = Some m" "api_inv n st" "\<forall>c\<in>set cs. schema_safe (call_fn c)"
    "n + sum_list (map call_cost cs) < 2 ^ 32"
  shows "calm m (\<lambda>st. \<exists>k. api_inv k st)"
  using assms
proof (induction cs arbitrary: st n)
  case Nil
  then show ?case by auto
next
  case (Cons c cs)
  obtain g hs where st: "st = (g, hs)" by force
  obtain r where r: "api G c st = Some r" using Cons.prems(1) by (cases "api G c st") auto
  have s: "calm r (api_inv (n + call_cost c))"
    using api_safe[of n g hs c r] Cons.prems r st by simp
  show ?case
  proof (cases r)
    case (Inl e)
    then show ?thesis using Cons.prems(1) r s by (auto simp: calm_def)
  next
    case (Inr st')
    then show ?thesis using Cons.IH[of st' "n + call_cost c"] Cons.prems r s by simp
  qed
qed

end

text \<open>A keyed stream, repartitioned in front of its sink.\<close>

definition example_fn :: "operator_fn" where
  "example_fn = \<lparr>of_name = ''fn'', of_schema = (\<lambda>_. Inr (Single schema_empty)), of_daemon = False,
     of_splits = (\<lambda>_. Inr [])\<rparr>"

definition example_program :: "api_call list" where
  "example_program = [RegisterSource 2 example_fn, CallKeyBy (id_of 0) example_fn, CallAddSink (id_of 1) example_fn]"

definition is_planned :: "'g raw_stream_graph \<times> (operator_id, stream_kind) hmap \<Rightarrow> nat \<Rightarrow> bool" where
  "is_planned st n = (snd st = [] \<and> op_num (rg_id_gen (fst st)) = of_nat n)"

lemma example_program_runs:
  "case api_all list_graph_ops example_program (raw_stream_graph_new list_graph_ops, []) of
     Some (Inr st) \<Rightarrow> is_planned st 5 | _ \<Rightarrow> False"
  by code_simp

text \<open>What a program leaves behind, in the terms of the graph library.\<close>

lemma program_calm:
  assumes "daggy_graph G" "api_all G cs (raw_stream_graph_new G, []) = Some m"
    "\<forall>c\<in>set cs. schema_safe (call_fn c)" "sum_list (map call_cost cs) < 2 ^ 32"
  shows "calm m (\<lambda>st. \<exists>k. stream_dag.api_inv G k st)"
proof -
  have d: "stream_dag G" using assms(1) by (simp add: stream_dag_def)
  have "stream_dag.api_inv G 0 (raw_stream_graph_new G, [])"
    using stream_dag.graph_inv_new[OF d] daggy_graph.new_graph[OF assms(1)]
    by (simp add: stream_dag.api_inv_def[OF d] stream_dag.nodes_def[OF d] open_nodes_def pipelined_def
      raw_stream_graph_new_def)
  from stream_dag.api_all_safe[OF d assms(2) this assms(3)] assms(4) show ?thesis by simp
qed

lemma program_plan:
  assumes "daggy_graph G" "api_all G cs (raw_stream_graph_new G, []) = Some (Inr (g, hs))"
    "\<forall>c\<in>set cs. schema_safe (call_fn c)" "sum_list (map call_cost cs) < 2 ^ 32"
  defines "N \<equiv> dg_raw_nodes G (rg_dag g)"
  shows "nodes_ok N (rg_operators g)" "rg_sources g = source_nodes N"
    "map (\<lambda>(a, b, _). (a, b)) (dg_raw_edges G (rg_dag g)) = plan_edges N" "pipelined N (open_nodes hs)"
proof -
  have d: "stream_dag G" using assms(1) by (simp add: stream_dag_def)
  show "nodes_ok N (rg_operators g)" "rg_sources g = source_nodes N"
    "map (\<lambda>(a, b, _). (a, b)) (dg_raw_edges G (rg_dag g)) = plan_edges N" "pipelined N (open_nodes hs)"
    using program_calm[OF assms(1-4)]
    by (auto simp: N_def calm_def stream_dag.api_inv_def[OF d] stream_dag.graph_inv_def[OF d]
      stream_dag.nodes_def[OF d] stream_dag.edges_def[OF d])
qed

text \<open>
  C2: a program that compiles never panics for an error of the planner (a missing or misplaced
  source, a misplaced sink, a missing parent, an operator that cannot be connected, a cycle),
  whatever graph library with the documented laws stores the plan: either a schema function
  rejects the columns it is given with its own panic, or the plan is a set of pipelines. In the plan every node has the number of its operator, the
  edges are exactly those from the parents of each node, every stream that was extended or
  closed has exactly one successor, and the ends of the pipelines still open are the streams
  the program still holds.
\<close>

theorem program_builds_pipelines:
  assumes "daggy_graph G" "api_all G cs (raw_stream_graph_new G, []) = Some m"
    "\<forall>c\<in>set cs. schema_safe (call_fn c)" "sum_list (map call_cost cs) < 2 ^ 32"
  shows "case m of
      Inl p \<Rightarrow> p = Explicit_panic
    | Inr (g, hs) \<Rightarrow> (let N = dg_raw_nodes G (rg_dag g) in
        nodes_ok N (rg_operators g) \<and> rg_sources g = source_nodes N
        \<and> map (\<lambda>(a, b, _). (a, b)) (dg_raw_edges G (rg_dag g)) = plan_edges N
        \<and> pipelined N (node_of ` dom (map_of hs)))"
proof (cases m)
  case (Inl p)
  then show ?thesis using program_calm[OF assms] by (simp add: calm_def)
next
  case (Inr st)
  then show ?thesis using program_plan[OF assms(1) _ assms(3,4), of "fst st" "snd st"] assms(2)
    by (simp add: Let_def open_nodes_def case_prod_beta)
qed

theorem program_builds_pipelines_witness:
  "\<exists>g. api_all list_graph_ops example_program (raw_stream_graph_new list_graph_ops, []) = Some (Inr (g, []))
     \<and> op_num (rg_id_gen g) = 5
     \<and> pipelined (dg_raw_nodes list_graph_ops (rg_dag g)) {}"
proof -
  obtain g where g: "api_all list_graph_ops example_program (raw_stream_graph_new list_graph_ops, []) = Some (Inr (g, []))"
    "op_num (rg_id_gen g) = 5"
    using example_program_runs by (auto simp: is_planned_def split: option.splits sum.splits)
  have "\<forall>c\<in>set example_program. schema_safe (call_fn c)"
    by (simp add: example_program_def example_fn_def schema_safe_def)
  moreover have "sum_list (map call_cost example_program) < 2 ^ 32" by (simp add: example_program_def)
  ultimately show ?thesis
    using program_builds_pipelines[OF list_graph.daggy_graph_axioms g(1)] g by (auto simp: Let_def)
qed

end
