(* ===== verification/Job_Graph.thy ===== *)
theory Job_Graph
  imports Data_Stream
begin

text \<open>
  The job graph (\<open>rlink/src/dag/job_graph.rs\<close>): the plan is cut at the virtual sinks and
  sources into jobs, a job without parallelism takes it from its parent, and the jobs are
  joined by forward and rebalancing edges.  A loop or recursion that does not end is the
  value \<open>None\<close>.  The properties: for the plan of a program the jobs partition the operators,
  the search for the parallelism ends, and the only error left is a conflict between a
  reduction and its output.
\<close>

section \<open>Loops that may not end\<close>

definition obind :: "('e + 'a) option \<Rightarrow> ('a \<Rightarrow> ('e + 'b) option) \<Rightarrow> ('e + 'b) option" where
  "obind m f = (case m of None \<Rightarrow> None | Some (Inl e) \<Rightarrow> Some (Inl e) | Some (Inr x) \<Rightarrow> f x)"

lemma obind_simps [simp]:
  "obind None f = None" "obind (Some (Inl e)) f = Some (Inl e)" "obind (Some (Inr x)) f = f x"
  by (simp_all add: obind_def)

fun fold_obind :: "('a \<Rightarrow> 's \<Rightarrow> ('e + 's) option) \<Rightarrow> 'a list \<Rightarrow> 's \<Rightarrow> ('e + 's) option" where
  "fold_obind f [] s = Some (Inr s)"
| "fold_obind f (x # xs) s = obind (f x s) (fold_obind f xs)"

section \<open>Jobs of the stream graph\<close>

record 'g stream_graph =
  sg_sources :: "nat list"
  sg_dag :: 'g

definition stream_graph_new :: "nat list \<Rightarrow> 'g \<Rightarrow> 'g stream_graph" where
  "stream_graph_new sources dag = \<lparr>sg_sources = sources, sg_dag = dag\<rparr>"

definition sg_stream_node ::
    "(stream_node, stream_edge, 'g) daggy \<Rightarrow> 'g stream_graph \<Rightarrow> nat \<Rightarrow> stream_node res" where
  "sg_stream_node G sg node_index = dag_index G (sg_dag sg) node_index"

fun map_res :: "('a \<Rightarrow> 'e + 'b) \<Rightarrow> 'a list \<Rightarrow> 'e + 'b list" where
  "map_res f [] = Inr []"
| "map_res f (x # xs) = rbind (f x) (\<lambda>y. rbind (map_res f xs) (\<lambda>ys. Inr (y # ys)))"

text \<open>From a source down to the next sink.\<close>

partial_function (option) job_node_loop ::
    "(stream_node, stream_edge, 'g) daggy \<Rightarrow> 'g stream_graph \<Rightarrow> nat \<Rightarrow> stream_node list \<Rightarrow> u16 \<Rightarrow> job_id \<Rightarrow>
     (dag_error failure + job_node) option" where
  "job_node_loop G sg node_index stream_nodes parallelism job_id =
     (case sg_stream_node G sg node_index of
        Inl p \<Rightarrow> Some (Inl (Panicked p))
      | Inr stream_node \<Rightarrow>
          (let children = dg_children G (sg_dag sg) node_index;
               stream_nodes = stream_nodes @ [stream_node];
               parallelism = max parallelism (sn_parallelism stream_node);
               job_id = (if sn_operator_type stream_node = Source
                         then job_id_from (sn_id stream_node) else job_id) in
           if sn_operator_type stream_node = Sink
           then Some (rbind (lift_panic (map_res (\<lambda>(_, i). sg_stream_node G sg i) children)) (\<lambda>ns.
             Inr \<lparr>jn_job_id = job_id, jn_parallelism = parallelism, jn_stream_nodes = stream_nodes,
                  jn_child_job_ids = map (\<lambda>n. job_id_from (sn_id n)) ns, jn_parent_job_ids = []\<rparr>))
           else if length children = 0 then Some (Inl (Failed ChildNotFoundInPipeline))
           else if length children > 1 then Some (Inl (Failed MultiChildrenInPipeline))
           else job_node_loop G sg (snd (children ! 0)) stream_nodes parallelism job_id))"

declare job_node_loop.simps [code]

definition build_job_node ::
    "(stream_node, stream_edge, 'g) daggy \<Rightarrow> 'g stream_graph \<Rightarrow> nat \<Rightarrow> (dag_error failure + job_node) option" where
  "build_job_node G sg source_node_index =
     job_node_loop G sg source_node_index [] DEFAULT_PARALLELISM (JobId 0)"

text \<open>The builder without the graph it reads; its \<open>BTreeMap\<close> is only looked up.\<close>

record job_builder =
  jb_c2p_job_id_map :: "(job_id, job_id list) hmap"
  jb_job_node_indies :: "(job_id, job_node) hmap"

definition job_builder_new :: job_builder where
  "job_builder_new = \<lparr>jb_c2p_job_id_map = [], jb_job_node_indies = []\<rparr>"

definition push_parent :: "job_id \<Rightarrow> job_id \<Rightarrow> (job_id, job_id list) hmap \<Rightarrow> (job_id, job_id list) hmap" where
  "push_parent parent child m =
     AList.update child ((case map_of m child of None \<Rightarrow> [] | Some ps \<Rightarrow> ps) @ [parent]) m"

definition add_job_node :: "job_node \<Rightarrow> job_builder \<Rightarrow> job_builder" where
  "add_job_node job_node b =
     \<lparr>jb_c2p_job_id_map = fold (push_parent (jn_job_id job_node)) (jn_child_job_ids job_node) (jb_c2p_job_id_map b),
      jb_job_node_indies = AList.update (jn_job_id job_node) job_node (jb_job_node_indies b)\<rparr>"

definition set_parent_jobs :: "job_builder \<Rightarrow> job_builder" where
  "set_parent_jobs b = b\<lparr>jb_job_node_indies := map (\<lambda>(k, job_node). (k, job_node\<lparr>jn_parent_job_ids :=
     (case map_of (jb_c2p_job_id_map b) (jn_job_id job_node) of None \<Rightarrow> [] | Some ps \<Rightarrow> ps)\<rparr>))
     (jb_job_node_indies b)\<rparr>"

definition build_job_nodes ::
    "(stream_node, stream_edge, 'g) daggy \<Rightarrow> 'g stream_graph \<Rightarrow> job_builder \<Rightarrow>
     (dag_error failure + job_builder) option" where
  "build_job_nodes G sg b =
     obind (fold_obind (\<lambda>source_node_index b. obind (build_job_node G sg source_node_index)
         (\<lambda>job_node. Some (Inr (add_job_node job_node b)))) (sg_sources sg) b)
       (\<lambda>b. Some (Inr (set_parent_jobs b)))"

section \<open>Inherited parallelism\<close>

text \<open>The orders in which the two hash maps of jobs are iterated.\<close>

record job_orders =
  jo_nodes :: "(job_id, job_node) hmap \<Rightarrow> (job_id, job_node) hmap"
  jo_indies :: "(job_id, nat) hmap \<Rightarrow> (job_id, nat) hmap"

definition job_orders_ok :: "job_orders \<Rightarrow> bool" where
  "job_orders_ok R \<longleftrightarrow> iteration_order (jo_nodes R) \<and> iteration_order (jo_indies R)"

fun find_job_by_sink :: "operator_id \<Rightarrow> (job_id, job_node) hmap \<Rightarrow> job_id option res" where
  "find_job_by_sink sink_operator_id [] = Inr None"
| "find_job_by_sink sink_operator_id ((_, job_node) # jobs) =
     (if jn_stream_nodes job_node = [] then Inl Index_out_of_bounds
      else if sn_id (last (jn_stream_nodes job_node)) = sink_operator_id
      then Inr (Some (jn_job_id job_node))
      else find_job_by_sink sink_operator_id jobs)"

definition get_job_id_by_sink :: "job_orders \<Rightarrow> job_builder \<Rightarrow> operator_id \<Rightarrow> job_id option res" where
  "get_job_id_by_sink R b sink_operator_id =
     find_job_by_sink sink_operator_id (jo_nodes R (jb_job_node_indies b))"

definition get_parent_job_id :: "job_orders \<Rightarrow> job_builder \<Rightarrow> job_node \<Rightarrow> job_id res" where
  "get_parent_job_id R b job_node =
     rbind (index_res (jn_stream_nodes job_node) 0) (\<lambda>source_stream_nodes.
     if sn_parent_ids source_stream_nodes = [] then Inl Index_out_of_bounds
     else rbind (get_job_id_by_sink R b (last (sn_parent_ids source_stream_nodes))) unwrap)"

text \<open>
  \<open>get_parent_parallelism0\<close> always returns 0: a parent that had to be asked in turn gives its
  value to its own entry only.  The first argument bounds the depth of the recursion, which
  a chain of different jobs cannot exceed; a deeper one comes back to a job it is in and
  does not return.
\<close>

fun get_parent_parallelism0 ::
    "nat \<Rightarrow> job_orders \<Rightarrow> job_node \<Rightarrow> job_builder \<Rightarrow> (u16 \<times> job_builder) res option" where
  "get_parent_parallelism0 0 R job_node b = None"
| "get_parent_parallelism0 (Suc depth) R job_node b =
     (let parent_parallelism = (\<lambda>parent_job_id b.
          case map_of (jb_job_node_indies b) parent_job_id of
            None \<Rightarrow> Some (Inl Unwrap_none)
          | Some parent_job_node \<Rightarrow>
              if jn_parallelism parent_job_node > 0 then Some (Inr (jn_parallelism parent_job_node, b))
              else get_parent_parallelism0 depth R parent_job_node b)
      in case map_of (jb_c2p_job_id_map b) (jn_job_id job_node) of
        Some parent_job_ids \<Rightarrow>
          obind
            (if length parent_job_ids = 1 then parent_parallelism (parent_job_ids ! 0) b
             else if is_co_process_job job_node
             then (case get_parent_job_id R b job_node of
                 Inl p \<Rightarrow> Some (Inl p)
               | Inr left_job_id \<Rightarrow>
                   fold_obind (\<lambda>parent_job_id (parallelism, b).
                     obind (parent_parallelism parent_job_id b) (\<lambda>(p, b).
                       Some (Inr (if parent_job_id = left_job_id then p else parallelism, b))))
                     parent_job_ids (0, b))
             else Some (Inl Unimplemented))
            (\<lambda>(parallelism, b). case map_of (jb_job_node_indies b) (jn_job_id job_node) of
               None \<Rightarrow> Some (Inl Unwrap_none)
             | Some jn \<Rightarrow> Some (Inr (0, b\<lparr>jb_job_node_indies := AList.update (jn_job_id job_node)
                 (jn\<lparr>jn_parallelism := parallelism\<rparr>) (jb_job_node_indies b)\<rparr>)))
      | None \<Rightarrow> Some (Inr (0, b)))"

definition no_parallelism_jobs :: "job_orders \<Rightarrow> job_builder \<Rightarrow> job_id list" where
  "no_parallelism_jobs R b = rev (sort (map (\<lambda>(_, node). jn_job_id node)
     (filter (\<lambda>(_, node). jn_parallelism node = 0) (jo_nodes R (jb_job_node_indies b)))))"

definition inherit_parallelism :: "job_orders \<Rightarrow> job_id \<Rightarrow> job_builder \<Rightarrow> job_builder res option" where
  "inherit_parallelism R job_id b = (case map_of (jb_job_node_indies b) job_id of
     None \<Rightarrow> Some (Inl Unwrap_none)
   | Some job_node \<Rightarrow> if jn_parallelism job_node > 0 then Some (Inr b)
       else obind (get_parent_parallelism0 (Suc (length (jb_job_node_indies b))) R job_node b)
         (\<lambda>(_, b). Some (Inr b)))"

definition get_parent_parallelism :: "job_orders \<Rightarrow> job_builder \<Rightarrow> (nat \<times> job_builder) res option" where
  "get_parent_parallelism R b =
     obind (fold_obind (inherit_parallelism R) (no_parallelism_jobs R b) b)
       (\<lambda>b'. Some (Inr (length (no_parallelism_jobs R b), b')))"

partial_function (option) build_parallelism :: "job_orders \<Rightarrow> job_builder \<Rightarrow> job_builder res option" where
  "build_parallelism R b = (case get_parent_parallelism R b of
     None \<Rightarrow> None
   | Some (Inl p) \<Rightarrow> Some (Inl p)
   | Some (Inr r) \<Rightarrow> if fst r > 0 then build_parallelism R (snd r) else Some (Inr (snd r)))"

declare build_parallelism.simps [code]

definition lift_opanic :: "'a res option \<Rightarrow> ('e failure + 'a) option" where
  "lift_opanic m = map_option lift_panic m"

definition job_builder_build ::
    "(stream_node, stream_edge, 'g) daggy \<Rightarrow> job_orders \<Rightarrow> 'g stream_graph \<Rightarrow> job_builder \<Rightarrow>
     (dag_error failure + job_builder) option" where
  "job_builder_build G R sg b =
     obind (build_job_nodes G sg b) (\<lambda>b. lift_opanic (build_parallelism R b))"

section \<open>The graph of jobs\<close>

record 'h job_graph =
  jg_job_node_indies :: "(job_id, nat) hmap"
  jg_dag :: 'h

definition job_graph_new :: "(job_node, job_edge, 'h) daggy \<Rightarrow> 'h job_graph" where
  "job_graph_new J = \<lparr>jg_job_node_indies = [], jg_dag = dg_new J\<rparr>"

definition job_edge_for :: "job_node \<Rightarrow> job_node \<Rightarrow> dag_error + job_edge" where
  "job_edge_for job_node child_job_node =
     (if is_reduce_job child_job_node then Inr ReBalance
      else if is_reduce_job job_node
      then if jn_parallelism job_node \<noteq> jn_parallelism child_job_node
           then Inl ReduceOutputParallelismConflict else Inr Forward
      else if jn_parallelism job_node = jn_parallelism child_job_node then Inr Forward
      else Inr ReBalance)"

definition ok_or :: "'e \<Rightarrow> 'a option \<Rightarrow> 'e failure + 'a" where
  "ok_or e x = (case x of None \<Rightarrow> Inl (Failed e) | Some v \<Rightarrow> Inr v)"

definition add_child_edge ::
    "(job_node, job_edge, 'h) daggy \<Rightarrow> nat \<Rightarrow> job_node \<Rightarrow> job_id \<Rightarrow> 'h job_graph \<Rightarrow>
     dag_error failure + 'h job_graph" where
  "add_child_edge J job_node_index job_node child_job_id g =
     rbind (ok_or (JobNotFound child_job_id) (map_of (jg_job_node_indies g) child_job_id)) (\<lambda>child_node_index.
     rbind (lift_panic (dag_index J (jg_dag g) child_node_index)) (\<lambda>child_job_node.
     rbind (lift_error (job_edge_for job_node child_job_node)) (\<lambda>job_edge.
     rbind (ok_or WouldCycle (dg_add_edge J (jg_dag g) job_node_index child_node_index job_edge)) (\<lambda>(_, d).
     Inr (g\<lparr>jg_dag := d\<rparr>)))))"

definition build_job_edge ::
    "(job_node, job_edge, 'h) daggy \<Rightarrow> nat \<Rightarrow> 'h job_graph \<Rightarrow> dag_error failure + 'h job_graph" where
  "build_job_edge J job_node_index g =
     rbind (lift_panic (dag_index J (jg_dag g) job_node_index)) (\<lambda>job_node.
     fold_res (add_child_edge J job_node_index job_node) (jn_child_job_ids job_node) g)"

definition build_job_edges ::
    "(job_node, job_edge, 'h) daggy \<Rightarrow> job_orders \<Rightarrow> 'h job_graph \<Rightarrow> dag_error failure + 'h job_graph" where
  "build_job_edges J R g = fold_res (build_job_edge J) (map snd (jo_indies R (jg_job_node_indies g))) g"

definition insert_job :: "(job_node, job_edge, 'h) daggy \<Rightarrow> job_id \<times> job_node \<Rightarrow> 'h job_graph \<Rightarrow> 'h job_graph" where
  "insert_job J entry g = (case dg_add_node J (jg_dag g) (snd entry) of (node_index, d) \<Rightarrow>
     \<lparr>jg_job_node_indies = AList.update (fst entry) node_index (jg_job_node_indies g), jg_dag = d\<rparr>)"

definition job_graph_build ::
    "(stream_node, stream_edge, 'g) daggy \<Rightarrow> (job_node, job_edge, 'h) daggy \<Rightarrow> job_orders \<Rightarrow>
     'g stream_graph \<Rightarrow> 'h job_graph \<Rightarrow> (dag_error failure + 'h job_graph) option" where
  "job_graph_build G J R sg g =
     obind (job_builder_build G R sg job_builder_new) (\<lambda>b.
     Some (build_job_edges J R (fold (insert_job J) (jo_nodes R (jb_job_node_indies b)) g)))"

section \<open>Chains of a plan\<close>

text \<open>The nodes from a node down to the next sink.\<close>

function chain :: "stream_node list \<Rightarrow> nat \<Rightarrow> nat list" where
  "chain N k = (case kids N k of
     [b] \<Rightarrow> if sn_operator_type (N ! k) \<noteq> Sink \<and> k < b \<and> b < length N then k # chain N b else [k]
   | _ \<Rightarrow> [k])"
  by pat_completeness auto
termination
  by (relation "measure (\<lambda>(N, k). length N - k)") auto

declare chain.simps [simp del]

lemma kids_less: "nodes_ok N ops \<Longrightarrow> b \<in> set (kids N k) \<Longrightarrow> k < b \<and> b < length N"
  using nodes_ok_edge_less by (auto simp: kids_def)

lemma chain_sink: "sn_operator_type (N ! k) = Sink \<Longrightarrow> chain N k = [k]"
  by (subst chain.simps) (auto split: list.splits)

lemma chain_step:
  assumes "nodes_ok N ops" "pipelined N {}" "k < length N" "sn_operator_type (N ! k) \<noteq> Sink"
  obtains b where "kids N k = [b]" "k < b" "b < length N" "sn_operator_type (N ! b) \<noteq> Source"
    "chain N k = k # chain N b"
proof -
  obtain b where b: "b < length N" "kids N k = [b]" "sn_operator_type (N ! b) \<noteq> Source"
    using assms(2-4) by (auto simp: pipelined_def)
  moreover have "k < b" using kids_less[OF assms(1), of b k] b(2) by simp
  ultimately show ?thesis using assms(4) by (intro that[of b]) (simp_all add: chain.simps[of N k])
qed

lemma chain_head: "\<exists>is. chain N k = k # is"
  by (subst chain.simps) (auto split: list.splits)

lemma chain_nonempty [simp]: "chain N k \<noteq> []"
  using chain_head[of N k] by auto

lemma chain_ge: "i \<in> set (chain N k) \<Longrightarrow> k \<le> i"
proof (induction N k rule: chain.induct)
  case (1 N k)
  then show ?case by (subst (asm) (2) chain.simps) (fastforce split: list.splits if_splits)
qed

lemma chain_below: "k < length N \<Longrightarrow> i \<in> set (chain N k) \<Longrightarrow> i < length N"
proof (induction N k rule: chain.induct)
  case (1 N k)
  show ?case using 1(3) by (subst (asm) chain.simps) (use 1(1,2) in \<open>auto split: list.splits if_splits\<close>)
qed

lemma chain_sorted: "sorted_wrt (<) (chain N k)"
proof (induction N k rule: chain.induct)
  case (1 N k)
  show ?case
    by (subst chain.simps) (use 1 chain_ge in \<open>fastforce split: list.splits if_splits\<close>)
qed

lemma chain_last_sink:
  assumes ok: "nodes_ok N ops" and closed: "pipelined N {}"
  shows "k < length N \<Longrightarrow> sn_operator_type (N ! last (chain N k)) = Sink"
proof (induction k rule: measure_induct_rule[of "\<lambda>k. length N - k"])
  case (less k)
  show ?case
  proof (cases "sn_operator_type (N ! k) = Sink")
    case True
    then show ?thesis by (simp add: chain_sink)
  next
    case False
    then obtain b where "k < b" "b < length N" "chain N k = k # chain N b"
      using chain_step[OF ok closed less.prems] by blast
    then show ?thesis using less.IH[of b] less.prems by simp
  qed
qed

lemma chain_no_source:
  assumes ok: "nodes_ok N ops" and closed: "pipelined N {}"
  shows "k < length N \<Longrightarrow> i \<in> set (chain N k) \<Longrightarrow> i \<noteq> k \<Longrightarrow> sn_operator_type (N ! i) \<noteq> Source"
proof (induction k rule: measure_induct_rule[of "\<lambda>k. length N - k"])
  case (less k)
  show ?case
  proof (cases "sn_operator_type (N ! k) = Sink")
    case True
    then show ?thesis using less.prems by (simp add: chain_sink)
  next
    case False
    then obtain b where b: "k < b" "b < length N" "sn_operator_type (N ! b) \<noteq> Source" "chain N k = k # chain N b"
      using chain_step[OF ok closed less.prems(1)] by blast
    then show ?thesis using less.IH[of b] less.prems by (cases "i = b") auto
  qed
qed

lemma chain_closed:
  assumes ok: "nodes_ok N ops" and closed: "pipelined N {}"
  shows "k < length N \<Longrightarrow> i \<in> set (chain N k) \<Longrightarrow> sn_operator_type (N ! i) \<noteq> Sink \<Longrightarrow> kids N i = [b] \<Longrightarrow>
   b \<in> set (chain N k)"
proof (induction k rule: measure_induct_rule[of "\<lambda>k. length N - k"])
  case (less k)
  show ?case
  proof (cases "sn_operator_type (N ! k) = Sink")
    case True
    then show ?thesis using less.prems by (simp add: chain_sink)
  next
    case False
    then obtain c where c: "kids N k = [c]" "k < c" "c < length N" "chain N k = k # chain N c"
      using chain_step[OF ok closed less.prems(1)] by blast
    then show ?thesis using less.IH[of c] less.prems chain_head[of N c] by (cases "i = k") auto
  qed
qed

text \<open>A node that is not a source lies behind its parent, in the same pipeline.\<close>

lemma parent_in_pipeline:
  assumes ok: "nodes_ok N ops" and closed: "pipelined N {}"
    and "m < length N" "sn_operator_type (N ! m) \<noteq> Source"
  obtains p where "p < m" "kids N p = [m]" "sn_operator_type (N ! p) \<noteq> Sink"
    "\<And>q. kids N q = [m] \<Longrightarrow> q = p"
proof -
  obtain p where p: "sn_parent_ids (N ! m) = [p]" using closed assms(3,4) by (auto simp: pipelined_def)
  let ?p = "node_of p"
  have edge: "(q, m) \<in> set (plan_edges N) \<longleftrightarrow> q = ?p" for q
    using assms(3) p by (auto simp: plan_edges_set)
  have lt: "?p < m" "?p < length N" using nodes_ok_edge_less[OF ok, of ?p m] edge assms(3) by auto
  have m: "m \<in> set (kids N ?p)" using edge by (force simp: kids_def)
  have t: "sn_operator_type (N ! ?p) \<noteq> Sink"
  proof
    assume "sn_operator_type (N ! ?p) = Sink"
    then have "kids N ?p = [] \<or> (\<exists>b<length N. kids N ?p = [b] \<and> sn_operator_type (N ! b) = Source)"
      using closed lt(2) by (simp add: pipelined_def)
    then show False using m assms(4) by auto
  qed
  then have "kids N ?p = [m]" using closed lt(2) m by (auto simp: pipelined_def)
  moreover have "q = ?p" if "kids N q = [m]" for q
  proof -
    have "m \<in> set (kids N q)" using that by simp
    then have "(q, m) \<in> set (plan_edges N)" by (auto simp: kids_def)
    then show ?thesis using edge by simp
  qed
  ultimately show ?thesis using that lt t by blast
qed

lemma in_some_chain:
  assumes ok: "nodes_ok N ops" and closed: "pipelined N {}"
  shows "m < length N \<Longrightarrow> \<exists>k\<in>set (source_nodes N). m \<in> set (chain N k)"
proof (induction m rule: less_induct)
  case (less m)
  show ?case
  proof (cases "sn_operator_type (N ! m) = Source")
    case True
    then show ?thesis using less.prems chain_head[of N m] by (intro bexI[of _ m]) (auto simp: source_nodes_def)
  next
    case False
    obtain p where p: "p < m" "kids N p = [m]" "sn_operator_type (N ! p) \<noteq> Sink"
      using parent_in_pipeline[OF ok closed less.prems False] by blast
    then obtain k where "k \<in> set (source_nodes N)" "p \<in> set (chain N k)" using less.IH[of p] less.prems by auto
    then show ?thesis using chain_closed[OF ok closed, of k p m] p by (auto simp: source_nodes_def)
  qed
qed

lemma chain_parent:
  assumes ok: "nodes_ok N ops" and closed: "pipelined N {}"
  shows "k < length N \<Longrightarrow> i \<in> set (chain N k) \<Longrightarrow> i \<noteq> k \<Longrightarrow> \<exists>p. p \<in> set (chain N k) \<and> kids N p = [i]"
proof (induction k rule: measure_induct_rule[of "\<lambda>k. length N - k"])
  case (less k)
  show ?case
  proof (cases "sn_operator_type (N ! k) = Sink")
    case True
    then show ?thesis using less.prems by (simp add: chain_sink)
  next
    case False
    then obtain c where c: "kids N k = [c]" "k < c" "c < length N" "chain N k = k # chain N c"
      using chain_step[OF ok closed less.prems(1)] by blast
    then consider "i = c" | "i \<in> set (chain N c)" "i \<noteq> c" using less.prems by auto
    then show ?thesis
    proof cases
      case 1
      then show ?thesis using c by (intro exI[of _ k]) simp
    next
      case 2
      then obtain p where "p \<in> set (chain N c)" "kids N p = [i]" 
        using less.IH[OF diff_less_mono2[OF c(2)]] c(3) less.prems(1) by auto
      then show ?thesis using c(4) by (intro exI[of _ p]) simp
    qed
  qed
qed

lemma in_one_chain:
  assumes ok: "nodes_ok N ops" and closed: "pipelined N {}"
  shows "m < length N \<Longrightarrow> k \<in> set (source_nodes N) \<Longrightarrow> k' \<in> set (source_nodes N) \<Longrightarrow>
   m \<in> set (chain N k) \<Longrightarrow> m \<in> set (chain N k') \<Longrightarrow> k = k'"
proof (induction m rule: less_induct)
  case (less m)
  have src: "k < length N" "sn_operator_type (N ! k) = Source" "k' < length N" "sn_operator_type (N ! k') = Source"
    using less.prems by (auto simp: source_nodes_def)
  show ?case
  proof (cases "sn_operator_type (N ! m) = Source")
    case True
    then show ?thesis using chain_no_source[OF ok closed] less.prems src by metis
  next
    case False
    obtain p where p: "p < m" "kids N p = [m]" "\<And>q. kids N q = [m] \<Longrightarrow> q = p"
      using parent_in_pipeline[OF ok closed less.prems(1) False] by blast
    have "m \<noteq> k" "m \<noteq> k'" using False src by auto
    then have "p \<in> set (chain N k)" "p \<in> set (chain N k')"
      using chain_parent[OF ok closed] less.prems src p(3) by metis+
    then show ?thesis using less.IH[OF p(1)] less.prems p(1) by simp
  qed
qed

lemma chains_partition:
  assumes ok: "nodes_ok N ops" and closed: "pipelined N {}"
  shows "mset (concat (map (chain N) (source_nodes N))) = mset [0..<length N]"
proof -
  have d: "distinct (chain N k)" for k
    using chain_sorted[of N k] strict_sorted_iff by blast
  have src: "k \<in> set (source_nodes N) \<Longrightarrow> k < length N" for k by (auto simp: source_nodes_def)
  have "distinct (concat (map (chain N) (source_nodes N)))"
  proof (rule distinct_concat)
    show "distinct (map (chain N) (source_nodes N))"
    proof (subst distinct_map, intro conjI inj_onI)
      show "distinct (source_nodes N)" by (simp add: source_nodes_def)
      fix k k'
      assume "k \<in> set (source_nodes N)" "k' \<in> set (source_nodes N)" "chain N k = chain N k'"
      then show "k = k'" using chain_head[of N k] chain_head[of N k'] by auto
    qed
    show "\<And>ys. ys \<in> set (map (chain N) (source_nodes N)) \<Longrightarrow> distinct ys" using d by auto
    fix ys zs
    assume "ys \<in> set (map (chain N) (source_nodes N))" "zs \<in> set (map (chain N) (source_nodes N))" "ys \<noteq> zs"
    then obtain k k' where k: "k \<in> set (source_nodes N)" "k' \<in> set (source_nodes N)" "ys = chain N k" "zs = chain N k'"
      by auto
    show "set ys \<inter> set zs = {}"
    proof (rule ccontr)
      assume "set ys \<inter> set zs \<noteq> {}"
      then obtain m where m: "m \<in> set (chain N k)" "m \<in> set (chain N k')" using k by auto
      then have "k = k'" using in_one_chain[OF ok closed _ k(1,2)] chain_below[OF src[OF k(1)]] by blast
      then show False using k \<open>ys \<noteq> zs\<close> by simp
    qed
  qed
  moreover have "set (concat (map (chain N) (source_nodes N))) = set [0..<length N]"
    using in_some_chain[OF ok closed] chain_below src by fastforce
  ultimately show ?thesis using set_eq_iff_mset_eq_distinct[OF _ distinct_upt] by blast
qed

section \<open>The jobs of a plan\<close>

definition job_at :: "nat \<Rightarrow> job_id" where
  "job_at k = job_id_from (id_of k)"

definition job_of :: "stream_node list \<Rightarrow> nat \<Rightarrow> job_node" where
  "job_of N k = \<lparr>jn_job_id = job_at k,
     jn_parallelism = fold (\<lambda>i p. max p (sn_parallelism (N ! i))) (chain N k) 0,
     jn_stream_nodes = map ((!) N) (chain N k),
     jn_child_job_ids = map job_at (kids N (last (chain N k))), jn_parent_job_ids = []\<rparr>"

lemma job_at_inject: "k < 2 ^ 32 \<Longrightarrow> l < 2 ^ 32 \<Longrightarrow> job_at k = job_at l \<longleftrightarrow> k = l"
  using id_of_inject[of k l] by (simp add: job_at_def job_id_from_def id_of_def)

lemma job_at_less: "k < 2 ^ 32 \<Longrightarrow> l < 2 ^ 32 \<Longrightarrow> job_at k < job_at l \<longleftrightarrow> k < l"
  by (simp add: job_at_def job_id_from_def id_of_def less_job_id_def word_less_nat_alt unat_of_nat)

lemma filter_enumerate: "map snd (filter (\<lambda>(i, x). P x) (enumerate n xs)) = filter P xs"
  by (induction xs arbitrary: n) auto

lemma map_snd_single: "mset (map snd cs) = mset [b] \<Longrightarrow> \<exists>j. cs = [(j, b)]"
  by (cases cs) auto

context stream_dag
begin

lemma children_kids:
  assumes "map (\<lambda>(a, b, _). (a, b)) (dg_raw_edges G d) = plan_edges N"
  shows "mset (map snd (dg_children G d v)) = mset (kids N v)"
proof -
  let ?es = "dg_raw_edges G d"
  have f: "(\<lambda>(i, a, b, _). (i, b)) = (\<lambda>(i, e). (i, fst (snd e)))" "(\<lambda>(i, a, b, _). a = v) = (\<lambda>(i, e). fst e = v)"
    by auto
  have "map snd (out_edges ?es v) = map (fst \<circ> snd) (map snd (filter (\<lambda>(i, e). fst e = v) (enumerate 0 ?es)))"
    by (simp add: out_edges_def f case_prod_unfold)
  also have "\<dots> = map (fst \<circ> snd) (filter (\<lambda>e. fst e = v) ?es)" by (simp only: filter_enumerate)
  also have "\<dots> = kids N v"
    unfolding kids_def assms[symmetric] by (simp add: filter_map comp_def case_prod_unfold)
  finally have "map snd (out_edges ?es v) = kids N v" .
  then show ?thesis using children[of d v] by (metis mset_map)
qed

lemma job_node_loop_chain:
  assumes raw: "dg_raw_nodes G (sg_dag sg) = N"
    "map (\<lambda>(a, b, _). (a, b)) (dg_raw_edges G (sg_dag sg)) = plan_edges N"
    and ok: "nodes_ok N ops" and closed: "pipelined N {}"
  shows "k < length N \<Longrightarrow> job_node_loop G sg k acc par jid = Some (Inr
    \<lparr>jn_job_id = (if sn_operator_type (N ! k) = Source then job_at k else jid),
     jn_parallelism = fold (\<lambda>i p. max p (sn_parallelism (N ! i))) (chain N k) par,
     jn_stream_nodes = acc @ map ((!) N) (chain N k),
     jn_child_job_ids = map job_at (kids N (last (chain N k))), jn_parent_job_ids = []\<rparr>)"
proof (induction k arbitrary: acc par jid rule: measure_induct_rule[of "\<lambda>k. length N - k"])
  case (less k)
  have node: "i < length N \<Longrightarrow> sg_stream_node G sg i = Inr (N ! i)" for i
    using raw(1) by (simp add: sg_stream_node_def index_in)
  have idk: "i < length N \<Longrightarrow> job_id_from (sn_id (N ! i)) = job_at i" for i
    using ok by (simp add: nodes_ok_def job_at_def)
  have ch: "mset (map snd (dg_children G (sg_dag sg) k)) = mset (kids N k)" by (rule children_kids[OF raw(2)])
  show ?case
  proof (cases "sn_operator_type (N ! k) = Sink")
    case True
    then consider "kids N k = []" | b where "kids N k = [b]" "b < length N"
      using closed less.prems by (auto simp: pipelined_def)
    then have "map_res (\<lambda>(_, i). sg_stream_node G sg i) (dg_children G (sg_dag sg) k) = Inr (map ((!) N) (kids N k))"
    proof cases
      case 1
      then show ?thesis using ch by simp
    next
      case 2
      then obtain j where "dg_children G (sg_dag sg) k = [(j, b)]" using map_snd_single ch by metis
      then show ?thesis using 2 node by simp
    qed
    moreover have "\<forall>i\<in>set (kids N k). i < length N" using kids_less[OF ok] by blast
    ultimately show ?thesis using True less.prems
      by (subst job_node_loop.simps) (simp add: node chain_sink idk)
  next
    case False
    obtain b where b: "kids N k = [b]" "k < b" "b < length N" "sn_operator_type (N ! b) \<noteq> Source"
      "chain N k = k # chain N b"
      using chain_step[OF ok closed less.prems False] by blast
    obtain j where "dg_children G (sg_dag sg) k = [(j, b)]" using map_snd_single ch b(1) by metis
    then show ?thesis
      using False less.prems b less.IH[OF diff_less_mono2[OF b(2)]]
      by (subst job_node_loop.simps) (simp add: node idk)
  qed
qed

lemma build_job_node_of:
  assumes "dg_raw_nodes G (sg_dag sg) = N"
    "map (\<lambda>(a, b, _). (a, b)) (dg_raw_edges G (sg_dag sg)) = plan_edges N"
    "nodes_ok N ops" "pipelined N {}" "k \<in> set (source_nodes N)"
  shows "build_job_node G sg k = Some (Inr (job_of N k))"
  using job_node_loop_chain[OF assms(1-4), of k] assms(5)
  by (simp add: build_job_node_def job_of_def source_nodes_def DEFAULT_PARALLELISM_def)

end

text \<open>The maps the builder collects from a list of jobs.\<close>

definition parents_among :: "job_node list \<Rightarrow> job_id \<Rightarrow> job_id list" where
  "parents_among jobs j = map jn_job_id (filter (\<lambda>job. j \<in> set (jn_child_job_ids job)) jobs)"

definition some_if :: "'a list \<Rightarrow> 'a list option" where
  "some_if xs = (if xs = [] then None else Some xs)"

lemma push_parents:
  "distinct cs \<Longrightarrow> map_of (fold (push_parent p) cs m) j =
    (if j \<in> set cs then Some ((case map_of m j of None \<Rightarrow> [] | Some ps \<Rightarrow> ps) @ [p]) else map_of m j)"
  by (induction cs arbitrary: m) (auto simp: push_parent_def)

lemma update_new: "k \<notin> fst ` set al \<Longrightarrow> AList.update k v al = al @ [(k, v)]"
  by (induction al) auto

lemma add_job_node_sel:
  "jb_c2p_job_id_map (add_job_node job b) =
     fold (push_parent (jn_job_id job)) (jn_child_job_ids job) (jb_c2p_job_id_map b)"
  "jb_job_node_indies (add_job_node job b) = AList.update (jn_job_id job) job (jb_job_node_indies b)"
  by (simp_all add: add_job_node_def)

lemma add_jobs:
  assumes "\<forall>job\<in>set jobs. distinct (jn_child_job_ids job)" "distinct (map jn_job_id jobs)"
  defines "b \<equiv> fold add_job_node jobs job_builder_new"
  shows "jb_job_node_indies b = map (\<lambda>job. (jn_job_id job, job)) jobs"
    and "map_of (jb_c2p_job_id_map b) j = some_if (parents_among jobs j)"
proof -
  have "jb_job_node_indies (fold add_job_node jobs job_builder_new) = map (\<lambda>job. (jn_job_id job, job)) jobs
    \<and> map_of (jb_c2p_job_id_map (fold add_job_node jobs job_builder_new)) j = some_if (parents_among jobs j)"
    using assms(1,2)
  proof (induction jobs rule: rev_induct)
    case Nil
    then show ?case by (simp add: job_builder_new_def parents_among_def some_if_def)
  next
    case (snoc job jobs)
    then have IH: "jb_job_node_indies (fold add_job_node jobs job_builder_new) = map (\<lambda>job. (jn_job_id job, job)) jobs"
      "map_of (jb_c2p_job_id_map (fold add_job_node jobs job_builder_new)) j = some_if (parents_among jobs j)"
      by simp_all
    have "jn_job_id job \<notin> fst ` set (map (\<lambda>job. (jn_job_id job, job)) jobs)" using snoc.prems(2) by force
    from update_new[OF this, of job] show ?case
      using snoc.prems(1) IH
      by (auto simp: add_job_node_sel push_parents parents_among_def some_if_def)
  qed
  then show "jb_job_node_indies b = map (\<lambda>job. (jn_job_id job, job)) jobs"
    "map_of (jb_c2p_job_id_map b) j = some_if (parents_among jobs j)"
    by (simp_all add: b_def)
qed

section \<open>The search for the parallelism ends\<close>

text \<open>Jobs and their parents, ready for the search: every parent is an older job.\<close>

definition inheritable :: "job_builder \<Rightarrow> bool" where
  "inheritable b \<longleftrightarrow> hm_ok (jb_job_node_indies b)
   \<and> (\<forall>j n. map_of (jb_job_node_indies b) j = Some n \<longrightarrow> jn_job_id n = j \<and> jn_stream_nodes n \<noteq> []
        \<and> (map_of (jb_c2p_job_id_map b) j = None \<longrightarrow> 0 < jn_parallelism n))
   \<and> (\<forall>i j m n. map_of (jb_job_node_indies b) i = Some m \<longrightarrow> map_of (jb_job_node_indies b) j = Some n \<longrightarrow>
        sn_id (last (jn_stream_nodes m)) = sn_id (last (jn_stream_nodes n)) \<longrightarrow> i = j)
   \<and> (\<forall>j ps. map_of (jb_c2p_job_id_map b) j = Some ps \<longrightarrow>
        (\<forall>p\<in>set ps. p \<in> dom (map_of (jb_job_node_indies b)) \<and> p < j) \<and>
        (\<exists>n. map_of (jb_job_node_indies b) j = Some n \<and> (length ps \<noteq> 1 \<longrightarrow> is_co_process_job n \<and>
           sn_parent_ids (hd (jn_stream_nodes n)) \<noteq> [] \<and>
           (\<exists>l m. l \<in> set ps \<and> map_of (jb_job_node_indies b) l = Some m \<and>
              sn_id (last (jn_stream_nodes m)) = last (sn_parent_ids (hd (jn_stream_nodes n)))))))"

definition positive :: "job_builder \<Rightarrow> job_id \<Rightarrow> bool" where
  "positive b j \<longleftrightarrow> (\<exists>n. map_of (jb_job_node_indies b) j = Some n \<and> 0 < jn_parallelism n)"

text \<open>A step of the search sets parallelisms that were 0 and nothing else.\<close>

definition raised :: "job_builder \<Rightarrow> job_builder \<Rightarrow> bool" where
  "raised b b' \<longleftrightarrow> jb_c2p_job_id_map b' = jb_c2p_job_id_map b
   \<and> map fst (jb_job_node_indies b') = map fst (jb_job_node_indies b)
   \<and> (\<forall>j n. map_of (jb_job_node_indies b) j = Some n \<longrightarrow>
        (\<exists>p. map_of (jb_job_node_indies b') j = Some (n\<lparr>jn_parallelism := p\<rparr>)
           \<and> (0 < jn_parallelism n \<longrightarrow> p = jn_parallelism n)))"

lemma raised_refl [simp]: "raised b b"
  by (auto simp: raised_def intro!: exI[of _ "jn_parallelism _"])

lemma raised_trans:
  assumes "raised a b" "raised b c"
  shows "raised a c"
  unfolding raised_def
proof (intro conjI allI impI)
  fix j n
  assume "map_of (jb_job_node_indies a) j = Some n"
  then obtain p where p: "map_of (jb_job_node_indies b) j = Some (n\<lparr>jn_parallelism := p\<rparr>)"
    "0 < jn_parallelism n \<longrightarrow> p = jn_parallelism n"
    using assms(1) by (auto simp: raised_def)
  then obtain q where "map_of (jb_job_node_indies c) j = Some (n\<lparr>jn_parallelism := p\<rparr>\<lparr>jn_parallelism := q\<rparr>)"
    "0 < p \<longrightarrow> q = p"
    using assms(2) unfolding raised_def by fastforce
  then show "\<exists>p. map_of (jb_job_node_indies c) j = Some (n\<lparr>jn_parallelism := p\<rparr>)
      \<and> (0 < jn_parallelism n \<longrightarrow> p = jn_parallelism n)"
    using p(2) by auto
qed (use assms in \<open>auto simp: raised_def\<close>)

lemma raised_dom: "raised a b \<Longrightarrow> dom (map_of (jb_job_node_indies b)) = dom (map_of (jb_job_node_indies a))"
  by (simp add: raised_def dom_map_of_conv_image_fst flip: set_map)

lemma raised_positive: "raised a b \<Longrightarrow> positive a j \<Longrightarrow> positive b j"
  by (fastforce simp: raised_def positive_def)

lemma raised_lookup:
  assumes "raised a b" "map_of (jb_job_node_indies b) j = Some m"
  obtains n p where "map_of (jb_job_node_indies a) j = Some n" "m = n\<lparr>jn_parallelism := p\<rparr>"
    "0 < jn_parallelism n \<longrightarrow> p = jn_parallelism n"
proof -
  have "j \<in> dom (map_of (jb_job_node_indies a))" using assms raised_dom by blast
  then obtain n where n: "map_of (jb_job_node_indies a) j = Some n" by auto
  then obtain p where "map_of (jb_job_node_indies b) j = Some (n\<lparr>jn_parallelism := p\<rparr>)"
    "0 < jn_parallelism n \<longrightarrow> p = jn_parallelism n"
    using assms(1) by (auto simp: raised_def)
  then show ?thesis using that n assms(2) by auto
qed

lemma same_nodes [simp]:
  "is_co_process_job (n\<lparr>jn_parallelism := p\<rparr>) = is_co_process_job n"
  "is_reduce_job (n\<lparr>jn_parallelism := p\<rparr>) = is_reduce_job n"
  by (simp_all add: is_co_process_job_def is_reduce_job_def)

lemma raised_inheritable:
  assumes "inheritable a" "raised a b"
  shows "inheritable b"
  unfolding inheritable_def
proof (intro conjI allI impI ballI)
  note lk = raised_lookup[OF assms(2)]
  have c: "jb_c2p_job_id_map b = jb_c2p_job_id_map a" using assms(2) by (simp add: raised_def)
  show "hm_ok (jb_job_node_indies b)" using assms by (simp add: inheritable_def raised_def hm_ok_def)
  {
    fix j m
    assume "map_of (jb_job_node_indies b) j = Some m"
    then obtain n p where "map_of (jb_job_node_indies a) j = Some n" "m = n\<lparr>jn_parallelism := p\<rparr>"
      "0 < jn_parallelism n \<longrightarrow> p = jn_parallelism n" by (rule lk)
    then show "jn_job_id m = j" "jn_stream_nodes m \<noteq> []"
      "map_of (jb_c2p_job_id_map b) j = None \<Longrightarrow> 0 < jn_parallelism m"
      using assms(1) c unfolding inheritable_def by auto
  }
  fix i j m n
  assume a: "map_of (jb_job_node_indies b) i = Some m" "map_of (jb_job_node_indies b) j = Some n"
    "sn_id (last (jn_stream_nodes m)) = sn_id (last (jn_stream_nodes n))"
  obtain m' p where m': "map_of (jb_job_node_indies a) i = Some m'" "m = m'\<lparr>jn_parallelism := p\<rparr>" using lk[OF a(1)] by blast
  obtain n' q where n': "map_of (jb_job_node_indies a) j = Some n'" "n = n'\<lparr>jn_parallelism := q\<rparr>" using lk[OF a(2)] by blast
  have "sn_id (last (jn_stream_nodes m')) = sn_id (last (jn_stream_nodes n'))" using a(3) m'(2) n'(2) by simp
  then show "i = j" using assms(1) m'(1) n'(1) unfolding inheritable_def by blast
next
  fix j ps p
  assume j: "map_of (jb_c2p_job_id_map b) j = Some ps"
  then have ja: "map_of (jb_c2p_job_id_map a) j = Some ps" using assms(2) by (simp add: raised_def)
  {
    assume "p \<in> set ps"
    then show "p \<in> dom (map_of (jb_job_node_indies b))" "p < j"
      using assms(1) ja raised_dom[OF assms(2)] unfolding inheritable_def by blast+
  }
  obtain n where n: "map_of (jb_job_node_indies a) j = Some n" "length ps \<noteq> 1 \<longrightarrow> is_co_process_job n \<and>
      sn_parent_ids (hd (jn_stream_nodes n)) \<noteq> [] \<and>
      (\<exists>l m. l \<in> set ps \<and> map_of (jb_job_node_indies a) l = Some m \<and>
        sn_id (last (jn_stream_nodes m)) = last (sn_parent_ids (hd (jn_stream_nodes n))))"
    using assms(1) ja unfolding inheritable_def by blast
  obtain q where q: "map_of (jb_job_node_indies b) j = Some (n\<lparr>jn_parallelism := q\<rparr>)"
    using assms(2) n(1) by (auto simp: raised_def)
  have "\<exists>l m. l \<in> set ps \<and> map_of (jb_job_node_indies b) l = Some m \<and>
      sn_id (last (jn_stream_nodes m)) = last (sn_parent_ids (hd (jn_stream_nodes n)))" if l: "length ps \<noteq> 1"
  proof -
    obtain l m where lm: "l \<in> set ps" "map_of (jb_job_node_indies a) l = Some m"
      "sn_id (last (jn_stream_nodes m)) = last (sn_parent_ids (hd (jn_stream_nodes n)))" using n(2) l by blast
    moreover obtain p where "map_of (jb_job_node_indies b) l = Some (m\<lparr>jn_parallelism := p\<rparr>)"
      using assms(2) lm(2) by (auto simp: raised_def)
    ultimately show ?thesis by (intro exI[of _ l] exI[of _ "m\<lparr>jn_parallelism := p\<rparr>"]) simp
  qed
  then show "\<exists>n. map_of (jb_job_node_indies b) j = Some n \<and> (length ps \<noteq> 1 \<longrightarrow> is_co_process_job n \<and>
      sn_parent_ids (hd (jn_stream_nodes n)) \<noteq> [] \<and>
      (\<exists>l m. l \<in> set ps \<and> map_of (jb_job_node_indies b) l = Some m \<and>
        sn_id (last (jn_stream_nodes m)) = last (sn_parent_ids (hd (jn_stream_nodes n)))))"
    using q n(2) by (intro exI[of _ "n\<lparr>jn_parallelism := q\<rparr>"]) simp
qed

lemma find_job_by_sink_found:
  assumes "\<forall>(k, n)\<in>set xs. jn_stream_nodes n \<noteq> [] \<and>
      (sn_id (last (jn_stream_nodes n)) = s \<longrightarrow> jn_job_id n = l)"
    and "\<exists>(k, n)\<in>set xs. sn_id (last (jn_stream_nodes n)) = s"
  shows "find_job_by_sink s xs = Inr (Some l)"
  using assms
proof (induction xs)
  case Nil
  then show ?case by simp
next
  case (Cons x xs)
  then show ?case by (cases x) auto
qed

lemma get_parent_job_id_found:
  assumes inh: "inheritable b" and R: "job_orders_ok R" and n: "jn_stream_nodes n \<noteq> []"
    "sn_parent_ids (hd (jn_stream_nodes n)) \<noteq> []"
    and l: "map_of (jb_job_node_indies b) l = Some m"
      "sn_id (last (jn_stream_nodes m)) = last (sn_parent_ids (hd (jn_stream_nodes n)))"
  shows "get_parent_job_id R b n = Inr l"
proof -
  have set: "set (jo_nodes R (jb_job_node_indies b)) = set (jb_job_node_indies b)"
    using R by (simp add: job_orders_ok_def iteration_order.set_it)
  have look: "(k, x) \<in> set (jb_job_node_indies b) \<longleftrightarrow> map_of (jb_job_node_indies b) k = Some x" for k x
    using inh by (simp add: inheritable_def hm_ok_def)
  have "find_job_by_sink (last (sn_parent_ids (hd (jn_stream_nodes n)))) (jo_nodes R (jb_job_node_indies b)) = Inr (Some l)"
  proof (rule find_job_by_sink_found)
    show "\<forall>(k, x)\<in>set (jo_nodes R (jb_job_node_indies b)). jn_stream_nodes x \<noteq> [] \<and>
        (sn_id (last (jn_stream_nodes x)) = last (sn_parent_ids (hd (jn_stream_nodes n))) \<longrightarrow> jn_job_id x = l)"
      unfolding set using inh l look unfolding inheritable_def by fastforce
    show "\<exists>(k, x)\<in>set (jo_nodes R (jb_job_node_indies b)).
        sn_id (last (jn_stream_nodes x)) = last (sn_parent_ids (hd (jn_stream_nodes n)))"
      unfolding set using l look by blast
  qed
  then show ?thesis using n by (simp add: get_parent_job_id_def get_job_id_by_sink_def hd_conv_nth)
qed

section \<open>Every round makes progress\<close>

definition older :: "job_builder \<Rightarrow> job_id \<Rightarrow> nat" where
  "older b j = card {k \<in> dom (map_of (jb_job_node_indies b)). k < j}"

lemma older_less:
  assumes "p \<in> dom (map_of (jb_job_node_indies b))" "p < j"
  shows "older b p < older b j"
proof -
  have "{k \<in> dom (map_of (jb_job_node_indies b)). k < p} \<subset> {k \<in> dom (map_of (jb_job_node_indies b)). k < j}"
    using assms by auto
  then show ?thesis unfolding older_def by (intro psubset_card_mono) (simp_all add: finite_dom_map_of)
qed

lemma older_raised: "raised a b \<Longrightarrow> older b j = older a j"
  by (simp add: older_def raised_dom)

text \<open>What asking a parent for its parallelism gives.\<close>

definition asks :: "(job_id \<Rightarrow> job_builder \<Rightarrow> (u16 \<times> job_builder) res option) \<Rightarrow> job_builder \<Rightarrow> job_id \<Rightarrow> bool" where
  "asks f b0 p \<longleftrightarrow> (\<forall>b. raised b0 b \<longrightarrow> (\<exists>q b'. f p b = Some (Inr (q, b')) \<and> raised b b' \<and> (positive b p \<longrightarrow> 0 < q)))"

lemma asks_raised: "asks f a p \<Longrightarrow> raised a b \<Longrightarrow> asks f b p"
  unfolding asks_def using raised_trans by blast

lemma asksD: "asks f b p \<Longrightarrow> \<exists>q b'. f p b = Some (Inr (q, b')) \<and> raised b b' \<and> (positive b p \<longrightarrow> 0 < q)"
  by (simp add: asks_def)

lemma ask_all:
  assumes "\<forall>p\<in>set ps. asks f b p"
  shows "\<exists>q b'. fold_obind (\<lambda>p (par, b). obind (f p b) (\<lambda>(q, b). Some (Inr (if p = l then q else par, b)))) ps (par, b)
      = Some (Inr (q, b')) \<and> raised b b'
    \<and> ((\<forall>p\<in>set ps. positive b p) \<and> (l \<in> set ps \<or> 0 < par) \<longrightarrow> 0 < q)"
  using assms
proof (induction ps arbitrary: par b)
  case Nil
  then show ?case by simp
next
  case (Cons p ps)
  obtain q b1 where q: "f p b = Some (Inr (q, b1))" "raised b b1" "positive b p \<longrightarrow> 0 < q"
    using asksD[of f b p] Cons.prems by auto
  have "\<forall>p\<in>set ps. asks f b1 p" using Cons.prems asks_raised[OF _ q(2)] by simp
  from Cons.IH[OF this, of "if p = l then q else par"] obtain r b2 where r:
    "fold_obind (\<lambda>p (par, b). obind (f p b) (\<lambda>(q, b). Some (Inr (if p = l then q else par, b)))) ps
       (if p = l then q else par, b1) = Some (Inr (r, b2))" "raised b1 b2"
    "(\<forall>p\<in>set ps. positive b1 p) \<and> (l \<in> set ps \<or> 0 < (if p = l then q else par)) \<longrightarrow> 0 < r"
    by blast
  have "(\<forall>p\<in>set (p # ps). positive b p) \<and> (l \<in> set (p # ps) \<or> 0 < par) \<longrightarrow> 0 < r"
    using r(3) q(3) raised_positive[OF q(2)] by (cases "p = l") auto
  then show ?case using q r raised_trans by (intro exI[of _ r] exI[of _ b2]) auto
qed

text \<open>Writing the result into the entry of a job that had none.\<close>

lemma raised_set:
  assumes "raised b b1" "map_of (jb_job_node_indies b) j = Some n" "jn_parallelism n = 0"
    "map_of (jb_job_node_indies b1) j = Some m"
  shows "raised b (b1\<lparr>jb_job_node_indies := AList.update j (m\<lparr>jn_parallelism := p\<rparr>) (jb_job_node_indies b1)\<rparr>)"
proof -
  obtain q where m: "m = n\<lparr>jn_parallelism := q\<rparr>"
    using raised_lookup[OF assms(1,4)] assms(2) by (metis option.inject)
  have "j \<in> set (map fst (jb_job_node_indies b1))" using assms(4) by (force dest: map_of_SomeD)
  then have "map fst (AList.update j (m\<lparr>jn_parallelism := p\<rparr>) (jb_job_node_indies b1)) = map fst (jb_job_node_indies b1)"
    by (simp add: update_keys)
  then show ?thesis using assms m by (auto simp: raised_def)
qed

lemma get_parent_parallelism0_ok:
  assumes "job_orders_ok R" "inheritable b" "map_of (jb_job_node_indies b) j = Some n" "jn_parallelism n = 0"
    "older b j < depth"
  shows "\<exists>b'. get_parent_parallelism0 depth R n b = Some (Inr (0, b')) \<and> raised b b'
    \<and> ((\<forall>ps. map_of (jb_c2p_job_id_map b) j = Some ps \<longrightarrow> (\<forall>p\<in>set ps. positive b p)) \<longrightarrow> positive b' j)"
  using assms(2-)
proof (induction depth arbitrary: b j n)
  case 0
  then show ?case by simp
next
  case (Suc depth)
  let ?f = "\<lambda>p b. case map_of (jb_job_node_indies b) p of
      None \<Rightarrow> Some (Inl Unwrap_none)
    | Some parent \<Rightarrow> if jn_parallelism parent > 0 then Some (Inr (jn_parallelism parent, b))
        else get_parent_parallelism0 depth R parent b"
  have n: "jn_job_id n = j" "jn_stream_nodes n \<noteq> []" using Suc.prems(1,2) unfolding inheritable_def by blast+
  obtain ps where ps: "map_of (jb_c2p_job_id_map b) j = Some ps"
    using Suc.prems(1-3) unfolding inheritable_def by (metis less_irrefl not_None_eq)
  have old: "p \<in> dom (map_of (jb_job_node_indies b)) \<and> p < j" if "p \<in> set ps" for p
    using Suc.prems(1) ps that unfolding inheritable_def by blast
  have asks: "\<forall>p\<in>set ps. asks ?f b p"
    unfolding asks_def
  proof (intro ballI allI impI)
    fix p c
    assume p: "p \<in> set ps" and c: "raised b c"
    obtain m where m: "map_of (jb_job_node_indies c) p = Some m"
      using old[OF p] raised_dom[OF c] by blast
    show "\<exists>q b'. ?f p c = Some (Inr (q, b')) \<and> raised c b' \<and> (positive c p \<longrightarrow> 0 < q)"
    proof (cases "0 < jn_parallelism m")
      case True
      then show ?thesis using m by simp
    next
      case False
      then have z: "jn_parallelism m = 0" using word_neq_0_conv by blast
      have "older c p < depth"
        using older_less[of p b j] old[OF p] older_raised[OF c] Suc.prems(4) by simp
      from Suc.IH[OF raised_inheritable[OF Suc.prems(1) c] m z this] show ?thesis
        using m False by (auto simp: positive_def)
    qed
  qed
  have "\<exists>q b1. (if length ps = 1 then ?f (ps ! 0) b
      else if is_co_process_job n
      then (case get_parent_job_id R b n of
          Inl p \<Rightarrow> Some (Inl p)
        | Inr l \<Rightarrow> fold_obind (\<lambda>p (par, b). obind (?f p b) (\<lambda>(q, b). Some (Inr (if p = l then q else par, b)))) ps (0, b))
      else Some (Inl Unimplemented)) = Some (Inr (q, b1)) \<and> raised b b1
    \<and> ((\<forall>p\<in>set ps. positive b p) \<longrightarrow> 0 < q)" (is "\<exists>q b1. ?m = _ \<and> _ \<and> _")
  proof (cases "length ps = 1")
    case True
    then have "ps ! 0 \<in> set ps" by simp
    then have "(\<forall>p\<in>set ps. positive b p) \<longrightarrow> positive b (ps ! 0)" "asks ?f b (ps ! 0)" using asks by blast+
    then show ?thesis using asksD[of ?f b "ps ! 0"] unfolding if_P[OF True] by blast
  next
    case False
    obtain l m where lm: "is_co_process_job n" "sn_parent_ids (hd (jn_stream_nodes n)) \<noteq> []" "l \<in> set ps"
      "map_of (jb_job_node_indies b) l = Some m"
      "sn_id (last (jn_stream_nodes m)) = last (sn_parent_ids (hd (jn_stream_nodes n)))"
      using Suc.prems(1,2) ps False unfolding inheritable_def by (metis option.inject)
    have "get_parent_job_id R b n = Inr l"
      by (rule get_parent_job_id_found[OF Suc.prems(1) assms(1) n(2) lm(2,4,5)])
    then show ?thesis using ask_all[OF asks, of l 0] False lm(1,3) by auto
  qed
  then obtain q b1 where q: "?m = Some (Inr (q, b1))" "raised b b1" "(\<forall>p\<in>set ps. positive b p) \<longrightarrow> 0 < q"
    by blast
  obtain m where m: "map_of (jb_job_node_indies b1) j = Some m"
    using Suc.prems(2) raised_dom[OF q(2)] by blast
  let ?b = "b1\<lparr>jb_job_node_indies := AList.update j (m\<lparr>jn_parallelism := q\<rparr>) (jb_job_node_indies b1)\<rparr>"
  have "get_parent_parallelism0 (Suc depth) R n b = Some (Inr (0, ?b))"
    unfolding get_parent_parallelism0.simps Let_def n(1) ps option.case q(1) by (simp add: m)
  moreover have "raised b ?b" by (rule raised_set[OF q(2) Suc.prems(2,3) m])
  moreover have "positive ?b j" if "0 < q" using that by (simp add: positive_def)
  ultimately show ?case using q(3) ps by (intro exI[of _ ?b]) auto
qed

section \<open>All jobs get a parallelism\<close>

definition zeros :: "job_builder \<Rightarrow> job_id set" where
  "zeros b = {j \<in> dom (map_of (jb_job_node_indies b)). \<not> positive b j}"

lemma zero_not_positive: "(w :: 'a::len word) = 0 \<longleftrightarrow> \<not> 0 < w"
  using word_neq_0_conv by blast

lemma zeros_finite [simp]: "finite (zeros b)"
  by (simp add: zeros_def finite_dom_map_of)

lemma zeros_raised: "raised a b \<Longrightarrow> zeros b \<subseteq> zeros a"
  using raised_positive raised_dom by (fastforce simp: zeros_def)

lemma no_parallelism_jobs_set:
  assumes "inheritable b" "job_orders_ok R"
  shows "set (no_parallelism_jobs R b) = zeros b"
proof -
  have look: "(k, x) \<in> set (jb_job_node_indies b) \<longleftrightarrow> map_of (jb_job_node_indies b) k = Some x" for k x
    using assms(1) by (simp add: inheritable_def hm_ok_def)
  have set: "set (jo_nodes R (jb_job_node_indies b)) = set (jb_job_node_indies b)"
    using assms(2) by (simp add: job_orders_ok_def iteration_order.set_it)
  have idn: "map_of (jb_job_node_indies b) j = Some n \<Longrightarrow> jn_job_id n = j" for j n
    using assms(1) unfolding inheritable_def by blast
  show ?thesis
  proof (intro equalityI subsetI)
    fix j
    assume "j \<in> set (no_parallelism_jobs R b)"
    then obtain k n where "(k, n) \<in> set (jb_job_node_indies b)" "jn_parallelism n = 0" "j = jn_job_id n"
      by (auto simp: no_parallelism_jobs_def set)
    then show "j \<in> zeros b" using idn look by (auto simp: zeros_def positive_def)
  next
    fix j
    assume "j \<in> zeros b"
    then obtain n where n: "map_of (jb_job_node_indies b) j = Some n" "jn_parallelism n = 0"
      by (auto simp: zeros_def positive_def zero_not_positive)
    then show "j \<in> set (no_parallelism_jobs R b)"
      using idn[OF n(1)] look[of j n] by (force simp: no_parallelism_jobs_def set)
  qed
qed

definition parents_positive :: "job_builder \<Rightarrow> job_id \<Rightarrow> bool" where
  "parents_positive b j \<longleftrightarrow>
     (\<forall>ps. map_of (jb_c2p_job_id_map b) j = Some ps \<longrightarrow> (\<forall>p\<in>set ps. positive b p))"

lemma parents_positive_raised: "raised a b \<Longrightarrow> parents_positive a j \<Longrightarrow> parents_positive b j"
  using raised_positive unfolding parents_positive_def raised_def by auto

lemma inherit_parallelism_ok:
  assumes "job_orders_ok R" "inheritable b" "j \<in> dom (map_of (jb_job_node_indies b))"
  shows "\<exists>b'. inherit_parallelism R j b = Some (Inr b') \<and> raised b b' \<and> (parents_positive b j \<longrightarrow> positive b' j)"
proof -
  obtain n where n: "map_of (jb_job_node_indies b) j = Some n" using assms(3) by blast
  show ?thesis
  proof (cases "0 < jn_parallelism n")
    case True
    then show ?thesis using n by (simp add: inherit_parallelism_def positive_def)
  next
    case False
    then have z: "jn_parallelism n = 0" by (simp add: zero_not_positive)
    have "older b j \<le> card (dom (map_of (jb_job_node_indies b)))"
      unfolding older_def by (intro card_mono) (auto simp: finite_dom_map_of)
    also have "\<dots> \<le> length (jb_job_node_indies b)"
      by (simp add: dom_map_of_conv_image_fst) (metis card_image_le card_length finite_set order_trans)
    finally have "older b j < Suc (length (jb_job_node_indies b))" by simp
    from get_parent_parallelism0_ok[OF assms(1,2) n z this] obtain b' where
      "get_parent_parallelism0 (Suc (length (jb_job_node_indies b))) R n b = Some (Inr (0, b'))" "raised b b'"
      "parents_positive b j \<longrightarrow> positive b' j"
      unfolding parents_positive_def by blast
    then show ?thesis using n False by (simp add: inherit_parallelism_def del: get_parent_parallelism0.simps)
  qed
qed

lemma inherit_all_ok:
  assumes "job_orders_ok R" "inheritable b" "set js \<subseteq> dom (map_of (jb_job_node_indies b))"
  shows "\<exists>b'. fold_obind (inherit_parallelism R) js b = Some (Inr b') \<and> raised b b'
    \<and> (\<forall>j\<in>set js. parents_positive b j \<longrightarrow> positive b' j)"
  using assms(2,3)
proof (induction js arbitrary: b)
  case Nil
  then show ?case by simp
next
  case (Cons j js)
  obtain b1 where b1: "inherit_parallelism R j b = Some (Inr b1)" "raised b b1"
    "parents_positive b j \<longrightarrow> positive b1 j"
    using inherit_parallelism_ok[OF assms(1) Cons.prems(1), of j] Cons.prems(2) by auto
  obtain b2 where b2: "fold_obind (inherit_parallelism R) js b1 = Some (Inr b2)" "raised b1 b2"
    "\<forall>j\<in>set js. parents_positive b1 j \<longrightarrow> positive b2 j"
    using Cons.IH[OF raised_inheritable[OF Cons.prems(1) b1(2)]] Cons.prems(2) raised_dom[OF b1(2)] by auto
  have "positive b2 i" if "i \<in> set (j # js)" "parents_positive b i" for i
    using that b1(3) b2(3) raised_positive[OF b2(2)] parents_positive_raised[OF b1(2)] by auto
  then show ?case using b1 b2 raised_trans[OF b1(2) b2(2)] by (intro exI[of _ b2]) auto
qed

lemma get_parent_parallelism_ok:
  assumes R: "job_orders_ok R" and inh: "inheritable b"
  shows "\<exists>b'. get_parent_parallelism R b = Some (Inr (length (no_parallelism_jobs R b), b')) \<and> raised b b'
    \<and> (zeros b \<noteq> {} \<longrightarrow> zeros b' \<subset> zeros b)"
proof -
  have js: "set (no_parallelism_jobs R b) = zeros b" by (rule no_parallelism_jobs_set[OF inh R])
  obtain b' where b': "fold_obind (inherit_parallelism R) (no_parallelism_jobs R b) b = Some (Inr b')" "raised b b'"
    "\<forall>j\<in>zeros b. parents_positive b j \<longrightarrow> positive b' j"
    using inherit_all_ok[OF R inh, of "no_parallelism_jobs R b"] js by (auto simp: zeros_def)
  have "zeros b' \<subset> zeros b" if "zeros b \<noteq> {}"
  proof -
    let ?j = "Min (zeros b)"
    have j: "?j \<in> zeros b" using that by simp
    have "parents_positive b ?j"
      unfolding parents_positive_def
    proof (intro allI impI ballI)
      fix ps p
      assume ps: "map_of (jb_c2p_job_id_map b) ?j = Some ps" "p \<in> set ps"
      then have p: "p \<in> dom (map_of (jb_job_node_indies b))" "p < ?j"
        using inh unfolding inheritable_def by blast+
      then have "p \<notin> zeros b" using zeros_finite[of b] Min_le leD by blast
      then show "positive b p" using p(1) by (simp add: zeros_def)
    qed
    then have "?j \<notin> zeros b'" using b'(3) j by (simp add: zeros_def)
    then show ?thesis using j zeros_raised[OF b'(2)] by blast
  qed
  then show ?thesis using b' by (auto simp: get_parent_parallelism_def)
qed

lemma build_parallelism_ends:
  assumes "job_orders_ok R" "inheritable b"
  shows "\<exists>b'. build_parallelism R b = Some (Inr b') \<and> raised b b' \<and> zeros b' = {}"
  using assms(2)
proof (induction "card (zeros b)" arbitrary: b rule: less_induct)
  case less
  obtain b1 where b1: "get_parent_parallelism R b = Some (Inr (length (no_parallelism_jobs R b), b1))" "raised b b1"
    "zeros b \<noteq> {} \<longrightarrow> zeros b1 \<subset> zeros b"
    using get_parent_parallelism_ok[OF assms(1) less.prems] by blast
  have js: "no_parallelism_jobs R b = [] \<longleftrightarrow> zeros b = {}"
    using no_parallelism_jobs_set[OF less.prems assms(1)] by auto
  show ?case
  proof (cases "zeros b = {}")
    case True
    then have "zeros b1 = {}" using zeros_raised[OF b1(2)] by blast
    then show ?thesis using True js b1 by (subst build_parallelism.simps) simp
  next
    case False
    then have "card (zeros b1) < card (zeros b)" using b1(3) by (simp add: psubset_card_mono)
    from less.hyps[OF this raised_inheritable[OF less.prems b1(2)]] obtain b2 where
      "build_parallelism R b1 = Some (Inr b2)" "raised b1 b2" "zeros b2 = {}" by blast
    then show ?thesis using False js b1 raised_trans[OF b1(2)] by (subst build_parallelism.simps) auto
  qed
qed

section \<open>The jobs of a plan can inherit\<close>

lemma fold_obind_total:
  "(\<And>x s. x \<in> set xs \<Longrightarrow> f x s = Some (Inr (g x s))) \<Longrightarrow> fold_obind f xs s = Some (Inr (fold g xs s))"
  by (induction xs arbitrary: s) auto

lemma chain_sink_last: "i \<in> set (chain N k) \<Longrightarrow> sn_operator_type (N ! i) = Sink \<Longrightarrow> i = last (chain N k)"
proof (induction N k rule: chain.induct)
  case (1 N k)
  show ?case
  proof (cases "\<exists>b. kids N k = [b] \<and> sn_operator_type (N ! k) \<noteq> Sink \<and> k < b \<and> b < length N")
    case True
    then obtain b where b: "kids N k = [b]" "sn_operator_type (N ! k) \<noteq> Sink \<and> k < b \<and> b < length N" by blast
    then have c: "chain N k = k # chain N b" by (simp add: chain.simps[of N k])
    then have "i \<in> set (chain N b)" using 1(2,3) b(2) by auto
    then show ?thesis using 1(1)[OF b(1) refl b(2)] 1(3) c by simp
  next
    case False
    then have "chain N k = [k]" by (subst chain.simps) (auto split: list.splits)
    then show ?thesis using 1(2) by simp
  qed
qed

lemma fold_max_pos:
  "0 < (p::u16) \<or> (\<exists>i\<in>set is. 0 < f i) \<Longrightarrow> 0 < fold (\<lambda>i p. max p (f i)) is p"
  by (induction "is" arbitrary: p) (auto simp: less_max_iff_disj)

definition jobs_of :: "stream_node list \<Rightarrow> job_node list" where
  "jobs_of N = map (job_of N) (source_nodes N)"

definition planned_job :: "stream_node list \<Rightarrow> nat \<Rightarrow> job_node" where
  "planned_job N k = (job_of N k)\<lparr>jn_parent_job_ids := parents_among (jobs_of N) (job_at k)\<rparr>"

definition planned :: "stream_node list \<Rightarrow> job_builder \<Rightarrow> bool" where
  "planned N b \<longleftrightarrow> jb_job_node_indies b = map (\<lambda>k. (job_at k, planned_job N k)) (source_nodes N)
     \<and> (\<forall>j. map_of (jb_c2p_job_id_map b) j = some_if (parents_among (jobs_of N) j))"

lemma planned_job_sel [simp]:
  "jn_job_id (planned_job N k) = job_at k" "jn_stream_nodes (planned_job N k) = map ((!) N) (chain N k)"
  "jn_child_job_ids (planned_job N k) = map job_at (kids N (last (chain N k)))"
  "jn_parallelism (planned_job N k) = fold (\<lambda>i p. max p (sn_parallelism (N ! i))) (chain N k) 0"
  "jn_parent_job_ids (planned_job N k) = parents_among (jobs_of N) (job_at k)"
  by (simp_all add: planned_job_def job_of_def)

lemma source_below:
  assumes "nodes_ok N ops" "k \<in> set (source_nodes N)"
  shows "k < length N" "k < 2 ^ 32" "sn_operator_type (N ! k) = Source"
  using assms by (auto simp: source_nodes_def nodes_ok_def)

lemma last_chain:
  assumes "nodes_ok N ops" "k \<in> set (source_nodes N)"
  shows "last (chain N k) \<in> set (chain N k)" "last (chain N k) < length N" "k \<le> last (chain N k)"
  using chain_below[OF source_below(1)[OF assms]] chain_ge[of _ N k] by auto

text \<open>The child of a job: the source behind its sink.\<close>

lemma job_child:
  assumes ok: "nodes_ok N ops" and closed: "pipelined N {}" and k: "k \<in> set (source_nodes N)"
    and c: "c \<in> set (kids N (last (chain N k)))"
  shows "c \<in> set (source_nodes N)" "k < c" "kids N (last (chain N k)) = [c]"
proof -
  let ?s = "last (chain N k)"
  have s: "?s < length N" "k \<le> ?s" using last_chain[OF ok k] by auto
  have "sn_operator_type (N ! ?s) = Sink" by (rule chain_last_sink[OF ok closed source_below(1)[OF ok k]])
  then have "kids N ?s = [] \<or> (\<exists>b<length N. kids N ?s = [b] \<and> sn_operator_type (N ! b) = Source)"
    using closed s by (simp add: pipelined_def)
  then show "kids N ?s = [c]" "c \<in> set (source_nodes N)" using c by (auto simp: source_nodes_def)
  show "k < c" using kids_less[OF ok c] s by simp
qed

lemma parents_among_plan:
  assumes ok: "nodes_ok N ops" and closed: "pipelined N {}" and c: "c \<in> set (source_nodes N)"
  shows "parents_among (jobs_of N) (job_at c)
    = map job_at (filter (\<lambda>k. c \<in> set (kids N (last (chain N k)))) (source_nodes N))"
proof -
  have "job_at c \<in> set (jn_child_job_ids (job_of N k)) \<longleftrightarrow> c \<in> set (kids N (last (chain N k)))"
    if "k \<in> set (source_nodes N)" for k
    using job_child[OF ok closed that] source_below(2)[OF ok] c job_at_inject
    by (fastforce simp: job_of_def)
  then have "filter (\<lambda>k. job_at c \<in> set (jn_child_job_ids (job_of N k))) (source_nodes N)
      = filter (\<lambda>k. c \<in> set (kids N (last (chain N k)))) (source_nodes N)"
    by (rule filter_cong[OF refl])
  moreover have "jn_job_id (job_of N k) = job_at k" for k by (simp add: job_of_def)
  ultimately show ?thesis by (simp add: parents_among_def jobs_of_def filter_map comp_def)
qed

text \<open>The jobs behind a source are those of the sinks it reads, one each.\<close>

lemma sink_jobs:
  assumes ok: "nodes_ok N ops" and closed: "pipelined N {}" and c: "c \<in> set (source_nodes N)"
    and p: "p \<in> set (sn_parent_ids (N ! c))"
  obtains k where "k \<in> set (source_nodes N)" "last (chain N k) = node_of p" "kids N (node_of p) = [c]"
proof -
  have cl: "c < length N" using source_below[OF ok c] by simp
  have "(node_of p, c) \<in> set (plan_edges N)" using cl p by (auto simp: plan_edges_set)
  then have kid: "c \<in> set (kids N (node_of p))" by (force simp: kids_def)
  have s: "node_of p < length N" "sn_operator_type (N ! node_of p) = Sink"
    using closed cl source_below(3)[OF ok c] p by (auto simp: pipelined_def)
  obtain k where k: "k \<in> set (source_nodes N)" "node_of p \<in> set (chain N k)"
    using in_some_chain[OF ok closed s(1)] by blast
  have "last (chain N k) = node_of p" using chain_sink_last[OF k(2) s(2)] by simp
  then show ?thesis using that k(1) job_child(3)[OF ok closed k(1)] kid by auto
qed

section \<open>From the plan to the builder\<close>

lemma planned_lookup:
  assumes ok: "nodes_ok N ops" and pl: "planned N b"
  shows "map_of (jb_job_node_indies b) j = Some n \<longleftrightarrow> (\<exists>k\<in>set (source_nodes N). j = job_at k \<and> n = planned_job N k)"
    and "hm_ok (jb_job_node_indies b)"
proof -
  have nodes: "jb_job_node_indies b = map (\<lambda>k. (job_at k, planned_job N k)) (source_nodes N)"
    using pl by (simp add: planned_def)
  have inj: "inj_on job_at (set (source_nodes N))"
    by (rule inj_onI) (use source_below(2)[OF ok] job_at_inject in blast)
  have "distinct (map fst (jb_job_node_indies b))"
    using inj by (simp add: nodes comp_def distinct_map source_nodes_def)
  then show "hm_ok (jb_job_node_indies b)" by (simp add: hm_ok_def)
  then show "map_of (jb_job_node_indies b) j = Some n \<longleftrightarrow> (\<exists>k\<in>set (source_nodes N). j = job_at k \<and> n = planned_job N k)"
    by (simp add: hm_ok_def nodes image_iff)
qed

lemma chain_ends_inject:
  assumes ok: "nodes_ok N ops" and closed: "pipelined N {}" and k: "k \<in> set (source_nodes N)" "l \<in> set (source_nodes N)"
    and e: "last (chain N k) = last (chain N l)"
  shows "k = l"
  using in_one_chain[OF ok closed last_chain(2)[OF ok k(1)] k last_chain(1)[OF ok k(1)]] last_chain(1)[OF ok k(2)] e by simp

lemma distinct_singleton: "distinct xs \<Longrightarrow> set xs = {k} \<Longrightarrow> xs = [k]"
  by (cases xs; cases "tl xs") auto

lemma several_parents_join:
  assumes ok: "nodes_ok N ops" and closed: "pipelined N {}" and c: "c \<in> set (source_nodes N)"
    and several: "length (filter (\<lambda>k. c \<in> set (kids N (last (chain N k)))) (source_nodes N)) \<noteq> 1"
    and some: "filter (\<lambda>k. c \<in> set (kids N (last (chain N k)))) (source_nodes N) \<noteq> []"
  shows "joins (N ! c)"
proof (rule ccontr)
  let ?ks = "filter (\<lambda>k. c \<in> set (kids N (last (chain N k)))) (source_nodes N)"
  assume nj: "\<not> joins (N ! c)"
  have single: "?ks = [k]" if k: "k \<in> set ?ks" for k
  proof -
    have same: "l = k" if l: "l \<in> set ?ks" for l
    proof -
      have "(last (chain N l), c) \<in> set (plan_edges N)" "(last (chain N k), c) \<in> set (plan_edges N)"
        using k l by (auto simp: kids_def)
      then obtain p q where "p \<in> set (sn_parent_ids (N ! c))" "q \<in> set (sn_parent_ids (N ! c))"
        "last (chain N l) = node_of p" "last (chain N k) = node_of q" by (auto simp: plan_edges_set)
      moreover have "length (sn_parent_ids (N ! c)) \<le> 1" using nj source_below(3)[OF ok c] by (simp add: joins_def)
      ultimately have "last (chain N l) = last (chain N k)" by (cases "sn_parent_ids (N ! c)") auto
      then show ?thesis using chain_ends_inject[OF ok closed] k l by simp
    qed
    have "distinct ?ks" by (simp add: source_nodes_def)
    moreover have "set ?ks = {k}" using same k by (intro equalityI subsetI) blast+
    ultimately show ?thesis by (rule distinct_singleton)
  qed
  have "length ?ks = length [hd ?ks]" by (rule arg_cong[OF single[OF hd_in_set[OF some]]])
  then show False using several by simp
qed

lemma planned_inheritable:
  assumes ok: "nodes_ok N ops" and closed: "pipelined N {}" and pl: "planned N b"
    and roots: "\<forall>k\<in>set (source_nodes N). sn_parent_ids (N ! k) = [] \<longrightarrow> 0 < sn_parallelism (N ! k)"
  shows "inheritable b"
proof -
  note look = planned_lookup(1)[OF ok pl] and below = source_below[OF ok]
  have c2p: "map_of (jb_c2p_job_id_map b) j = some_if (parents_among (jobs_of N) j)" for j
    using pl by (simp add: planned_def)
  let ?ks = "\<lambda>c. filter (\<lambda>k. c \<in> set (kids N (last (chain N k)))) (source_nodes N)"
  have par: "parents_among (jobs_of N) (job_at c) = map job_at (?ks c)" if "c \<in> set (source_nodes N)" for c
    by (rule parents_among_plan[OF ok closed that])
  have ids: "k \<in> set (source_nodes N) \<Longrightarrow> sn_id (last (jn_stream_nodes (planned_job N k))) = id_of (last (chain N k))" for k
    using ok last_chain(2)[OF ok, of k] by (simp add: last_map nodes_ok_def)
  have hdn: "hd (jn_stream_nodes (planned_job N k)) = N ! k" for k
    using chain_head[of N k] by auto
  have child: "\<exists>c\<in>set (source_nodes N). j = job_at c" if ps: "parents_among (jobs_of N) j \<noteq> []" for j
  proof -
    obtain k where "k \<in> set (source_nodes N)" "j \<in> set (map job_at (kids N (last (chain N k))))"
      using ps by (auto simp: parents_among_def jobs_of_def filter_empty_conv job_of_def)
    then show ?thesis using job_child(1)[OF ok closed] by auto
  qed
  show ?thesis
    unfolding inheritable_def
  proof (intro conjI allI impI ballI)
    show "hm_ok (jb_job_node_indies b)" by (rule planned_lookup(2)[OF ok pl])
    fix j n
    assume "map_of (jb_job_node_indies b) j = Some n"
    then obtain k where k: "k \<in> set (source_nodes N)" "j = job_at k" "n = planned_job N k" using look by blast
    show "jn_job_id n = j" "jn_stream_nodes n \<noteq> []" using k by simp_all
    assume "map_of (jb_c2p_job_id_map b) j = None"
    then have none: "?ks k = []" using k par[OF k(1)] by (simp add: c2p some_if_def split: if_splits)
    have "sn_parent_ids (N ! k) = []"
    proof (rule ccontr)
      assume "sn_parent_ids (N ! k) \<noteq> []"
      then obtain p where "p \<in> set (sn_parent_ids (N ! k))" by (meson last_in_set)
      then obtain l where "l \<in> set (source_nodes N)" "last (chain N l) = node_of p" "kids N (node_of p) = [k]"
        using sink_jobs[OF ok closed k(1)] by metis
      then show False using none by (fastforce simp: filter_empty_conv)
    qed
    then have "0 < sn_parallelism (N ! k)" using roots k(1) by simp
    moreover have "k \<in> set (chain N k)" using chain_head[of N k] by auto
    ultimately show "0 < jn_parallelism n" using k(3) by (auto intro!: fold_max_pos)
  next
    fix i j m n
    assume a: "map_of (jb_job_node_indies b) i = Some m" "map_of (jb_job_node_indies b) j = Some n"
      "sn_id (last (jn_stream_nodes m)) = sn_id (last (jn_stream_nodes n))"
    then obtain k l where kl: "k \<in> set (source_nodes N)" "i = job_at k" "m = planned_job N k"
      "l \<in> set (source_nodes N)" "j = job_at l" "n = planned_job N l" using look by blast
    have "last (chain N k) < 2 ^ 32" "last (chain N l) < 2 ^ 32"
      using last_chain(2)[OF ok kl(1)] last_chain(2)[OF ok kl(4)] ok by (simp_all add: nodes_ok_def)
    then have "last (chain N k) = last (chain N l)" using a(3) kl ids id_of_inject by simp
    then show "i = j" using chain_ends_inject[OF ok closed kl(1,4)] kl by simp
  next
    fix j ps p
    assume ps: "map_of (jb_c2p_job_id_map b) j = Some ps"
    then have ne: "parents_among (jobs_of N) j \<noteq> []" by (simp add: c2p some_if_def split: if_splits)
    then obtain c where c: "c \<in> set (source_nodes N)" "j = job_at c" using child by blast
    have pse: "ps = map job_at (?ks c)" using ps ne par[OF c(1)] c(2) by (simp add: c2p some_if_def)
    {
      assume "p \<in> set ps"
      then obtain k where k: "k \<in> set (source_nodes N)" "c \<in> set (kids N (last (chain N k)))" "p = job_at k"
        using pse by auto
      show "p \<in> dom (map_of (jb_job_node_indies b))" using look[of p] k by blast
      show "p < j" using job_child(2)[OF ok closed k(1,2)] job_at_less below(2)[OF k(1)] below(2)[OF c(1)] k(3) c(2) by simp
    }
    have "is_co_process_job (planned_job N c) \<and> sn_parent_ids (N ! c) \<noteq> [] \<and>
        (\<exists>l m. l \<in> set ps \<and> map_of (jb_job_node_indies b) l = Some m \<and>
          sn_id (last (jn_stream_nodes m)) = last (sn_parent_ids (N ! c)))" if len: "length ps \<noteq> 1"
    proof -
      have j: "joins (N ! c)"
        using several_parents_join[OF ok closed c(1)] len ne pse par[OF c(1)] c(2) by simp
      then have ne': "sn_parent_ids (N ! c) \<noteq> []" by (auto simp: joins_def)
      obtain d where d: "kids N c = [d]" "chain N c = c # chain N d"
        using chain_step[OF ok closed below(1)[OF c(1)]] below(3)[OF c(1)] by (metis operator_type.distinct(15))
      have "sn_operator_type (N ! d) = CoProcess"
        using closed j below(1,3)[OF c(1)] d(1) by (auto simp: pipelined_def)
      moreover have "d \<in> set (chain N c)" using d(2) chain_head[of N d] by auto
      ultimately have "is_co_process_job (planned_job N c)" by (auto simp: is_co_process_job_iff)
      moreover obtain k where k: "k \<in> set (source_nodes N)" "last (chain N k) = node_of (last (sn_parent_ids (N ! c)))"
        "kids N (node_of (last (sn_parent_ids (N ! c)))) = [c]"
        using sink_jobs[OF ok closed c(1), of "last (sn_parent_ids (N ! c))"] ne' by auto
      ultimately show ?thesis using ne' pse look[of "job_at k" "planned_job N k"] ids[OF k(1)]
        by (intro conjI exI[of _ "job_at k"] exI[of _ "planned_job N k"]) auto
    qed
    then show "\<exists>n. map_of (jb_job_node_indies b) j = Some n \<and> (length ps \<noteq> 1 \<longrightarrow> is_co_process_job n \<and>
        sn_parent_ids (hd (jn_stream_nodes n)) \<noteq> [] \<and>
        (\<exists>l m. l \<in> set ps \<and> map_of (jb_job_node_indies b) l = Some m \<and>
          sn_id (last (jn_stream_nodes m)) = last (sn_parent_ids (hd (jn_stream_nodes n)))))"
      using look[of j "planned_job N c"] c hdn[of c] by (intro exI[of _ "planned_job N c"]) auto
  qed
qed

section \<open>The edges between jobs\<close>

locale job_dag = daggy_graph J for J :: "(job_node, job_edge, 'h) daggy"
begin

lemma insert_jobs:
  assumes "distinct (map fst xs)"
  defines "g \<equiv> fold (insert_job J) xs (job_graph_new J)"
  shows "dg_raw_nodes J (jg_dag g) = map snd xs" "dg_raw_edges J (jg_dag g) = []"
    "jg_job_node_indies g = map (\<lambda>i. (fst (xs ! i), i)) [0..<length xs]"
proof -
  have "dg_raw_nodes J (jg_dag (fold (insert_job J) xs (job_graph_new J))) = map snd xs
    \<and> dg_raw_edges J (jg_dag (fold (insert_job J) xs (job_graph_new J))) = []
    \<and> jg_job_node_indies (fold (insert_job J) xs (job_graph_new J)) = map (\<lambda>i. (fst (xs ! i), i)) [0..<length xs]"
    using assms(1)
  proof (induction xs rule: rev_induct)
    case Nil
    then show ?case using new_graph by (simp add: job_graph_new_def)
  next
    case (snoc x xs)
    let ?g = "fold (insert_job J) xs (job_graph_new J)"
    have IH: "dg_raw_nodes J (jg_dag ?g) = map snd xs" "dg_raw_edges J (jg_dag ?g) = []"
      "jg_job_node_indies ?g = map (\<lambda>i. (fst (xs ! i), i)) [0..<length xs]" using snoc by simp_all
    obtain i d where d: "dg_add_node J (jg_dag ?g) (snd x) = (i, d)" by force
    have "fst x \<notin> fst ` set (map (\<lambda>i. (fst (xs ! i), i)) [0..<length xs])"
      using snoc.prems by (force simp: in_set_conv_nth)
    then have "AList.update (fst x) (length xs) (map (\<lambda>i. (fst (xs ! i), i)) [0..<length xs])
        = map (\<lambda>i. (fst (xs ! i), i)) [0..<length xs] @ [(fst x, length xs)]"
      by (rule update_new)
    moreover have "map (\<lambda>i. (fst ((xs @ [x]) ! i), i)) [0..<length (xs @ [x])]
        = map (\<lambda>i. (fst (xs ! i), i)) [0..<length xs] @ [(fst x, length xs)]"
      by (simp add: nth_append)
    moreover have "insert_job J x ?g = \<lparr>jg_job_node_indies =
        AList.update (fst x) (length xs) (map (\<lambda>i. (fst (xs ! i), i)) [0..<length xs]), jg_dag = d\<rparr>"
      using add_node[OF d] IH by (simp add: insert_job_def[of J x ?g] d)
    moreover have "dg_raw_nodes J d = map snd (xs @ [x])" "dg_raw_edges J d = []"
      using add_node[OF d] IH by simp_all
    ultimately show ?case by (simp only: fold_append fold.simps comp_apply id_apply job_graph.select_convs)
  qed
  then show "dg_raw_nodes J (jg_dag g) = map snd xs" "dg_raw_edges J (jg_dag g) = []"
    "jg_job_node_indies g = map (\<lambda>i. (fst (xs ! i), i)) [0..<length xs]"
    by (simp_all add: g_def)
qed

text \<open>The edges for the pairs of a job and a child that have been visited.\<close>

definition edges_for :: "job_node list \<Rightarrow> (nat \<times> job_id) set \<Rightarrow> (nat \<times> nat \<times> job_edge) list \<Rightarrow> bool" where
  "edges_for ns D es \<longleftrightarrow> set es = {(a, b, e). a < length ns \<and> b < length ns \<and> (a, jn_job_id (ns ! b)) \<in> D
     \<and> job_edge_for (ns ! a) (ns ! b) = Inr e}"

definition rising :: "job_node list \<Rightarrow> bool" where
  "rising ns \<longleftrightarrow> distinct (map jn_job_id ns) \<and> (\<forall>n\<in>set ns. \<forall>c\<in>set (jn_child_job_ids n).
     jn_job_id n < c \<and> c \<in> jn_job_id ` set ns)"

definition jobs_in :: "job_node list \<Rightarrow> 'h job_graph \<Rightarrow> bool" where
  "jobs_in ns g \<longleftrightarrow> dg_raw_nodes J (jg_dag g) = ns \<and> hm_ok (jg_job_node_indies g)
     \<and> (\<forall>j i. map_of (jg_job_node_indies g) j = Some i \<longleftrightarrow> i < length ns \<and> jn_job_id (ns ! i) = j)"

lemma links_rise:
  assumes "(a, b) \<in> (links es)\<^sup>*" "edges_for ns D es" "rising ns" "D \<subseteq> {(a, c). a < length ns \<and> c \<in> set (jn_child_job_ids (ns ! a))}"
  shows "a = b \<or> jn_job_id (ns ! a) < jn_job_id (ns ! b)"
  using assms(1)
proof (induction rule: rtrancl_induct)
  case base
  then show ?case by simp
next
  case (step y z)
  then have "y < length ns" "jn_job_id (ns ! z) \<in> set (jn_child_job_ids (ns ! y))"
    using assms(2,4) by (auto simp: links_def edges_for_def)
  then have "jn_job_id (ns ! y) < jn_job_id (ns ! z)" using assms(3) by (simp add: rising_def)
  then show ?case using step.IH by auto
qed

definition conflict :: "dag_error failure" where
  "conflict = Failed ReduceOutputParallelismConflict"

definition visited :: "job_node list \<Rightarrow> (nat \<times> job_id) set \<Rightarrow> dag_error failure + 'h job_graph \<Rightarrow> bool" where
  "visited ns D r \<longleftrightarrow> (case r of Inl e \<Rightarrow> e = conflict
     | Inr g \<Rightarrow> jobs_in ns g \<and> edges_for ns D (dg_raw_edges J (jg_dag g))
         \<and> D \<subseteq> {(a, c). a < length ns \<and> c \<in> set (jn_child_job_ids (ns ! a))})"

lemma add_child_edge_visited:
  assumes v: "visited ns D (Inr g)" and r: "rising ns" and i: "i < length ns" and c: "c \<in> set (jn_child_job_ids (ns ! i))"
  shows "visited ns (insert (i, c) D) (add_child_edge J i (ns ! i) c g)"
proof -
  obtain b where b: "b < length ns" "jn_job_id (ns ! b) = c"
  proof -
    have "c \<in> jn_job_id ` set ns" using r nth_mem[OF i] c unfolding rising_def by blast
    then show ?thesis using that by (auto simp: in_set_conv_nth)
  qed
  have uniq: "b' = b" if "b' < length ns" "jn_job_id (ns ! b') = c" for b'
    using r b that by (simp add: rising_def distinct_conv_nth) (metis length_map nth_map)
  have look: "map_of (jg_job_node_indies g) c = Some b" "dag_index J (jg_dag g) b = Inr (ns ! b)"
    using v b by (simp_all add: visited_def jobs_in_def index_in)
  have lt: "jn_job_id (ns ! i) < jn_job_id (ns ! b)" using r i c b(2) by (simp add: rising_def)
  have es: "edges_for ns D (dg_raw_edges J (jg_dag g))" "dg_raw_nodes J (jg_dag g) = ns"
    "D \<subseteq> {(a, c). a < length ns \<and> c \<in> set (jn_child_job_ids (ns ! a))}"
    using v by (simp_all add: visited_def jobs_in_def)
  show ?thesis
  proof (cases "job_edge_for (ns ! i) (ns ! b)")
    case (Inl e)
    then have "e = ReduceOutputParallelismConflict" by (auto simp: job_edge_for_def split: if_splits)
    then show ?thesis using look Inl
      by (simp add: add_child_edge_def ok_or_def lift_error_def visited_def conflict_def)
  next
    case (Inr e)
    have "(b, i) \<notin> (links (dg_raw_edges J (jg_dag g)))\<^sup>*"
      using links_rise[OF _ es(1) r es(3), of b i] lt by (metis less_asym less_irrefl)
    then have "dg_add_edge J (jg_dag g) i b e \<noteq> None"
      using add_edge_acyclic[of i "jg_dag g" b e] i b(1) es(2) by simp
    then obtain k d where d: "dg_add_edge J (jg_dag g) i b e = Some (k, d)" by auto
    have "edges_for ns (insert (i, c) D) (dg_raw_edges J d)"
    proof -
      have "set (dg_raw_edges J d) = insert (i, b, e) (set (dg_raw_edges J (jg_dag g)))"
        using add_edge[OF d] by auto
      then show ?thesis unfolding edges_for_def es(1)[unfolded edges_for_def]
        using i b Inr by (auto dest: uniq)
    qed
    moreover have "jobs_in ns (g\<lparr>jg_dag := d\<rparr>)" using v add_edge[OF d] by (simp add: visited_def jobs_in_def)
    ultimately show ?thesis using look Inr d es(3) i c
      by (simp add: add_child_edge_def ok_or_def lift_error_def visited_def)
  qed
qed

lemma visited_fold:
  assumes "visited ns D (Inr g)" "\<And>x D g. x \<in> set xs \<Longrightarrow> visited ns D (Inr g) \<Longrightarrow> visited ns (D \<union> P x) (f x g)"
  shows "visited ns (D \<union> (\<Union>x\<in>set xs. P x)) (fold_res f xs g)"
  using assms
proof (induction xs arbitrary: D g)
  case Nil
  then show ?case by simp
next
  case (Cons x xs)
  have v: "visited ns (D \<union> P x) (f x g)" using Cons.prems by simp
  show ?case
  proof (cases "f x g")
    case (Inl e)
    then show ?thesis using v by (simp add: visited_def)
  next
    case (Inr g1)
    then have "visited ns (D \<union> P x \<union> (\<Union>x\<in>set xs. P x)) (fold_res f xs g1)"
      using v by (intro Cons.IH) (auto intro: Cons.prems(2))
    then show ?thesis using Inr by (simp add: Un_assoc)
  qed
qed

lemma build_job_edges_visited:
  assumes g: "jobs_in ns g" "dg_raw_edges J (jg_dag g) = []" and r: "rising ns" and R: "job_orders_ok R"
  shows "visited ns {(a, c). a < length ns \<and> c \<in> set (jn_child_job_ids (ns ! a))} (build_job_edges J R g)"
proof -
  have v: "visited ns {} (Inr g)" using g by (simp add: visited_def edges_for_def)
  have one: "visited ns (D \<union> {i} \<times> set (jn_child_job_ids (ns ! i))) (build_job_edge J i h)"
    if i: "i < length ns" and h: "visited ns D (Inr h)" for i D h
  proof -
    have ix: "dag_index J (jg_dag h) i = Inr (ns ! i)" using h i by (simp add: visited_def jobs_in_def index_in)
    have "visited ns (D \<union> (\<Union>c\<in>set (jn_child_job_ids (ns ! i)). {(i, c)}))
        (fold_res (add_child_edge J i (ns ! i)) (jn_child_job_ids (ns ! i)) h)"
      using add_child_edge_visited[OF _ r i] by (intro visited_fold[OF h]) auto
    moreover have "(\<Union>c\<in>set (jn_child_job_ids (ns ! i)). {(i, c)}) = {i} \<times> set (jn_child_job_ids (ns ! i))" by auto
    ultimately show ?thesis using ix by (simp add: build_job_edge_def)
  qed
  let ?xs = "map snd (jo_indies R (jg_job_node_indies g))"
  have set: "set (jo_indies R m) = set m" for m
    using R by (simp add: job_orders_ok_def iteration_order.set_it)
  have "set ?xs = {..<length ns}"
  proof (intro equalityI subsetI)
    fix i
    assume "i \<in> set ?xs"
    then obtain j where "(j, i) \<in> set (jg_job_node_indies g)" using set by auto
    then have "map_of (jg_job_node_indies g) j = Some i" using g(1) by (simp add: jobs_in_def hm_ok_def)
    then show "i \<in> {..<length ns}" using g(1) by (simp add: jobs_in_def)
  next
    fix i
    assume "i \<in> {..<length ns}"
    then have "map_of (jg_job_node_indies g) (jn_job_id (ns ! i)) = Some i" using g(1) by (simp add: jobs_in_def)
    then show "i \<in> set ?xs" using set by (force dest: map_of_SomeD)
  qed
  then have "visited ns ({} \<union> (\<Union>i\<in>set ?xs. {i} \<times> set (jn_child_job_ids (ns ! i)))) (build_job_edges J R g)"
    unfolding build_job_edges_def using one by (intro visited_fold[OF v]) auto
  moreover have "{} \<union> (\<Union>i\<in>set ?xs. {i} \<times> set (jn_child_job_ids (ns ! i)))
      = {(a, c). a < length ns \<and> c \<in> set (jn_child_job_ids (ns ! a))}"
    using \<open>set ?xs = {..<length ns}\<close> by auto
  ultimately show ?thesis by simp
qed

end

interpretation list_jobs: job_dag list_graph_ops
  by unfold_locales

section \<open>The job graph of a program\<close>

lemma some_if_case: "(case some_if xs of None \<Rightarrow> [] | Some ps \<Rightarrow> ps) = xs"
  by (simp add: some_if_def)

context stream_dag
begin

lemma build_job_nodes_planned:
  assumes raw: "dg_raw_nodes G (sg_dag sg) = N"
    "map (\<lambda>(a, b, _). (a, b)) (dg_raw_edges G (sg_dag sg)) = plan_edges N"
    and ok: "nodes_ok N ops" and closed: "pipelined N {}" and src: "sg_sources sg = source_nodes N"
  shows "\<exists>b. build_job_nodes G sg job_builder_new = Some (Inr b) \<and> planned N b"
proof -
  let ?b = "fold add_job_node (jobs_of N) job_builder_new"
  have inj: "inj_on job_at (set (source_nodes N))"
    by (rule inj_onI) (use source_below(2)[OF ok] job_at_inject in blast)
  have idj: "map jn_job_id (jobs_of N) = map job_at (source_nodes N)" by (simp add: jobs_of_def job_of_def)
  have one: "distinct (jn_child_job_ids (job_of N k))" if "k \<in> set (source_nodes N)" for k
  proof (cases "kids N (last (chain N k))")
    case Nil
    then show ?thesis by (simp add: job_of_def)
  next
    case (Cons c cs)
    then have "kids N (last (chain N k)) = [c]" using job_child(3)[OF ok closed that, of c] by simp
    then show ?thesis by (simp add: job_of_def)
  qed
  have "\<forall>job\<in>set (jobs_of N). distinct (jn_child_job_ids job)" using one by (auto simp: jobs_of_def)
  moreover have "distinct (map jn_job_id (jobs_of N))"
    unfolding idj using inj by (simp add: distinct_map source_nodes_def)
  ultimately have aj: "jb_job_node_indies ?b = map (\<lambda>job. (jn_job_id job, job)) (jobs_of N)"
    "map_of (jb_c2p_job_id_map ?b) j = some_if (parents_among (jobs_of N) j)" for j
    by (rule add_jobs)+
  have "fold_obind (\<lambda>i b. obind (build_job_node G sg i) (\<lambda>job_node. Some (Inr (add_job_node job_node b))))
      (source_nodes N) job_builder_new = Some (Inr (fold (\<lambda>k. add_job_node (job_of N k)) (source_nodes N) job_builder_new))"
    by (rule fold_obind_total) (simp add: build_job_node_of[OF raw ok closed])
  moreover have "fold (\<lambda>k. add_job_node (job_of N k)) (source_nodes N) job_builder_new = ?b"
    by (simp add: jobs_of_def fold_map comp_def)
  moreover have "planned N (set_parent_jobs ?b)"
  proof -
    define b where "b = ?b"
    have "jb_job_node_indies b = map (\<lambda>k. (job_at k, job_of N k)) (source_nodes N)"
      using aj(1) by (simp add: b_def jobs_of_def job_of_def comp_def)
    moreover have "map_of (jb_c2p_job_id_map b) j = some_if (parents_among (jobs_of N) j)" for j
      using aj(2) by (simp add: b_def)
    moreover have "jn_job_id (job_of N k) = job_at k" for k by (simp add: job_of_def)
    ultimately have "planned N (set_parent_jobs b)"
      by (simp add: planned_def set_parent_jobs_def planned_job_def comp_def some_if_case)
    then show ?thesis by (simp add: b_def)
  qed
  ultimately show ?thesis using src by (simp add: build_job_nodes_def)
qed

end

text \<open>The search changes nothing but the parallelism of the jobs.\<close>

lemma map_of_nth_key: "distinct (map fst xs) \<Longrightarrow> i < length xs \<Longrightarrow> map_of xs (fst (xs ! i)) = Some (snd (xs ! i))"
  by (metis nth_mem prod.collapse map_of_eq_Some_iff)

lemma raised_same_jobs:
  assumes "raised a b" "hm_ok (jb_job_node_indies a)"
  shows "map (\<lambda>(k, n). (k, n\<lparr>jn_parallelism := 0\<rparr>)) (jb_job_node_indies b)
    = map (\<lambda>(k, n). (k, n\<lparr>jn_parallelism := 0\<rparr>)) (jb_job_node_indies a)"
proof (rule nth_equalityI)
  have keys: "map fst (jb_job_node_indies b) = map fst (jb_job_node_indies a)" using assms(1) by (simp add: raised_def)
  then show len: "length (map (\<lambda>(k, n). (k, n\<lparr>jn_parallelism := 0\<rparr>)) (jb_job_node_indies b))
      = length (map (\<lambda>(k, n). (k, n\<lparr>jn_parallelism := 0\<rparr>)) (jb_job_node_indies a))"
    by (metis length_map)
  fix i
  assume i: "i < length (map (\<lambda>(k, n). (k, n\<lparr>jn_parallelism := 0\<rparr>)) (jb_job_node_indies b))"
  let ?x = "jb_job_node_indies a ! i" and ?y = "jb_job_node_indies b ! i"
  have k: "fst ?y = fst ?x" using i len keys by (metis length_map nth_map)
  have "map_of (jb_job_node_indies a) (fst ?x) = Some (snd ?x)"
    by (rule map_of_nth_key) (use assms(2) i len in \<open>simp_all add: hm_ok_def\<close>)
  then obtain p where p: "map_of (jb_job_node_indies b) (fst ?x) = Some ((snd ?x)\<lparr>jn_parallelism := p\<rparr>)"
    using assms(1) by (auto simp: raised_def)
  have "map_of (jb_job_node_indies b) (fst ?y) = Some (snd ?y)"
    by (rule map_of_nth_key) (use assms(2) i keys in \<open>simp_all add: hm_ok_def\<close>)
  then have "snd ?y = (snd ?x)\<lparr>jn_parallelism := p\<rparr>" using p k by simp
  then show "map (\<lambda>(k, n). (k, n\<lparr>jn_parallelism := 0\<rparr>)) (jb_job_node_indies b) ! i
      = map (\<lambda>(k, n). (k, n\<lparr>jn_parallelism := 0\<rparr>)) (jb_job_node_indies a) ! i"
    using i len k by (simp add: case_prod_beta)
qed

text \<open>A job of the plan, up to its parallelism.\<close>

definition plan_job :: "stream_node list \<Rightarrow> nat \<Rightarrow> job_node \<Rightarrow> bool" where
  "plan_job N k n \<longleftrightarrow> n\<lparr>jn_parallelism := 0\<rparr> = (planned_job N k)\<lparr>jn_parallelism := 0\<rparr>"

lemma plan_job_sel:
  assumes "plan_job N k n"
  shows "jn_job_id n = job_at k" "jn_stream_nodes n = map ((!) N) (chain N k)"
    "jn_child_job_ids n = map job_at (kids N (last (chain N k)))"
proof -
  have "jn_job_id (n\<lparr>jn_parallelism := 0\<rparr>) = job_at k" "jn_stream_nodes (n\<lparr>jn_parallelism := 0\<rparr>) = map ((!) N) (chain N k)"
    "jn_child_job_ids (n\<lparr>jn_parallelism := 0\<rparr>) = map job_at (kids N (last (chain N k)))"
    unfolding assms[unfolded plan_job_def] by simp_all
  then show "jn_job_id n = job_at k" "jn_stream_nodes n = map ((!) N) (chain N k)"
    "jn_child_job_ids n = map job_at (kids N (last (chain N k)))" by simp_all
qed

lemma raised_plan_jobs:
  assumes ok: "nodes_ok N ops" and pl: "planned N b" and r: "raised b b'"
  shows "list_all2 (\<lambda>k (j, n). j = job_at k \<and> plan_job N k n) (source_nodes N) (jb_job_node_indies b')"
proof -
  have "map (\<lambda>(k, n). (k, n\<lparr>jn_parallelism := 0\<rparr>)) (jb_job_node_indies b')
      = map (\<lambda>k. (job_at k, (planned_job N k)\<lparr>jn_parallelism := 0\<rparr>)) (source_nodes N)"
    using raised_same_jobs[OF r planned_lookup(2)[OF ok pl]] pl by (simp add: planned_def comp_def)
  then show ?thesis
    by (auto simp: list_all2_conv_all_nth plan_job_def case_prod_beta dest: map_eq_imp_length_eq
        arg_cong[where f = "\<lambda>xs. xs ! _"] list_eq_iff_nth_eq[THEN iffD1])
qed

section \<open>Jobs, parallelism and edges\<close>

lemma mset_concat_perm: "mset xs = mset ys \<Longrightarrow> mset (concat (map f xs)) = mset (concat (map f ys))"
  by (simp add: mset_concat) (metis mset_map sum_mset_sum_list)

lemma plan_jobs_partition:
  assumes ok: "nodes_ok N ops" and closed: "pipelined N {}"
    and js: "list_all2 (\<lambda>k (j, n). j = job_at k \<and> plan_job N k n) (source_nodes N) ys" and xs: "mset xs = mset ys"
  shows "mset (concat (map jn_stream_nodes (map snd xs))) = mset N"
proof -
  have "map (\<lambda>e. jn_stream_nodes (snd e)) ys = map (\<lambda>k. map ((!) N) (chain N k)) (source_nodes N)"
    using js by (induction rule: list_all2_induct) (auto dest: plan_job_sel(2))
  then have "mset (concat (map (\<lambda>e. jn_stream_nodes (snd e)) ys)) = mset (map ((!) N) (concat (map (chain N) (source_nodes N))))"
    by (simp only: map_concat map_map comp_def)
  also have "\<dots> = image_mset ((!) N) (mset [0..<length N])"
    using chains_partition[OF ok closed] by (metis mset_map)
  also have "\<dots> = mset N" by (metis map_nth mset_map)
  finally show ?thesis using mset_concat_perm[OF xs, of "\<lambda>e. jn_stream_nodes (snd e)"] by (simp add: comp_def)
qed

lemma plan_jobs_rising:
  assumes ok: "nodes_ok N ops" and closed: "pipelined N {}" and hm: "hm_ok xs"
    and js: "\<forall>(j, n)\<in>set xs. \<exists>k\<in>set (source_nodes N). j = job_at k \<and> plan_job N k n"
    and all: "job_at ` set (source_nodes N) \<subseteq> fst ` set xs"
  shows "job_dag.rising (map snd xs)"
proof -
  have keys: "map jn_job_id (map snd xs) = map fst xs"
    using js by (auto simp: plan_job_sel(1))
  have "jn_job_id n < c \<and> c \<in> fst ` set xs" if n: "n \<in> set (map snd xs)" and c: "c \<in> set (jn_child_job_ids n)" for n c
  proof -
    obtain k where k: "k \<in> set (source_nodes N)" "plan_job N k n" using n js by auto
    obtain d where d: "d \<in> set (kids N (last (chain N k)))" "c = job_at d" using c plan_job_sel(3)[OF k(2)] by auto
    have d': "d \<in> set (source_nodes N)" "k < d" using job_child[OF ok closed k(1) d(1)] by auto
    then show ?thesis using all d(2) job_at_less source_below(2)[OF ok] k(1) plan_job_sel(1)[OF k(2)] by auto
  qed
  moreover have "jn_job_id ` set (map snd xs) = fst ` set xs" using keys by (metis set_map)
  ultimately show ?thesis
    unfolding list_jobs.rising_def keys using hm by (auto simp: hm_ok_def)
qed

section \<open>Planning the jobs succeeds\<close>

text \<open>What the builder hands to the graph.\<close>

lemma job_builder_build_ok:
  assumes G: "stream_dag G" and R: "job_orders_ok R"
    and raw: "dg_raw_nodes G (sg_dag sg) = N"
      "map (\<lambda>(a, b, _). (a, b)) (dg_raw_edges G (sg_dag sg)) = plan_edges N"
    and ok: "nodes_ok N ops" and closed: "pipelined N {}" and src: "sg_sources sg = source_nodes N"
    and roots: "\<forall>n\<in>set N. sn_operator_type n = Source \<and> sn_parent_ids n = [] \<longrightarrow> 0 < sn_parallelism n"
  shows "\<exists>b. job_builder_build G R sg job_builder_new = Some (Inr b) \<and> hm_ok (jb_job_node_indies b)
    \<and> list_all2 (\<lambda>k (j, n). j = job_at k \<and> plan_job N k n) (source_nodes N) (jb_job_node_indies b)
    \<and> (\<forall>(j, n)\<in>set (jb_job_node_indies b). 0 < jn_parallelism n)"
proof -
  obtain b where b: "build_job_nodes G sg job_builder_new = Some (Inr b)" "planned N b"
    using stream_dag.build_job_nodes_planned[OF G raw ok closed src] by blast
  have "inheritable b"
    by (rule planned_inheritable[OF ok closed b(2)]) (use roots source_below[OF ok] in auto)
  moreover from build_parallelism_ends[OF R this] obtain b' where b': "build_parallelism R b = Some (Inr b')"
    "raised b b'" "zeros b' = {}" by blast
  ultimately have hm: "hm_ok (jb_job_node_indies b')" using raised_inheritable[of b b'] by (simp add: inheritable_def)
  have "0 < jn_parallelism n" if "(j, n) \<in> set (jb_job_node_indies b')" for j n
  proof -
    have "map_of (jb_job_node_indies b') j = Some n" using hm that by (simp add: hm_ok_def)
    moreover have "positive b' j" using b'(3) calculation by (auto simp: zeros_def)
    ultimately show ?thesis by (simp add: positive_def)
  qed
  then show ?thesis
    using b(1) b'(1) hm raised_plan_jobs[OF ok b(2) b'(2)]
    by (auto simp: job_builder_build_def lift_opanic_def)
qed

text \<open>The graph of the jobs handed over.\<close>

definition jobs_ready :: "stream_node list \<Rightarrow> (job_id, job_node) hmap \<Rightarrow> bool" where
  "jobs_ready N xs \<longleftrightarrow> hm_ok xs \<and> job_at ` set (source_nodes N) \<subseteq> fst ` set xs
     \<and> mset (concat (map jn_stream_nodes (map snd xs))) = mset N
     \<and> (\<forall>(j, n)\<in>set xs. 0 < jn_parallelism n \<and> (\<exists>k\<in>set (source_nodes N). j = job_at k \<and> plan_job N k n))"

lemma jobs_ready_order:
  assumes ok: "nodes_ok N ops" and closed: "pipelined N {}" and it: "iteration_order it" and hm: "hm_ok ys"
    and js: "list_all2 (\<lambda>k (j, n). j = job_at k \<and> plan_job N k n) (source_nodes N) ys"
    and pos: "\<forall>(j, n)\<in>set ys. 0 < jn_parallelism n"
  shows "jobs_ready N (it ys)"
proof -
  have mset: "mset (it ys) = mset ys" and set: "set (it ys) = set ys"
    using it by (simp_all add: iteration_order.mset_it iteration_order.set_it)
  have "hm_ok (it ys)" using hm mset unfolding hm_ok_def by (metis mset_map mset_eq_imp_distinct_iff)
  moreover have "\<forall>(j, n)\<in>set ys. \<exists>k\<in>set (source_nodes N). j = job_at k \<and> plan_job N k n"
    using js by (fastforce simp: list_all2_conv_all_nth in_set_conv_nth)
  moreover have "job_at ` set (source_nodes N) \<subseteq> fst ` set ys"
    using js by (force simp: list_all2_conv_all_nth in_set_conv_nth image_iff)
  ultimately show ?thesis
    using plan_jobs_partition[OF ok closed js mset] pos unfolding jobs_ready_def set by auto
qed

lemma jobs_ready_ends:
  assumes ok: "nodes_ok N ops" and closed: "pipelined N {}" and r: "jobs_ready N xs" and n: "n \<in> set (map snd xs)"
  shows "0 < jn_parallelism n" "jn_stream_nodes n \<noteq> []" "sn_operator_type (hd (jn_stream_nodes n)) = Source"
    "sn_operator_type (last (jn_stream_nodes n)) = Sink"
proof -
  obtain k where k: "0 < jn_parallelism n" "k \<in> set (source_nodes N)" "plan_job N k n"
    using n r by (auto simp: jobs_ready_def)
  note kl = source_below[OF ok k(2)]
  show "0 < jn_parallelism n" "jn_stream_nodes n \<noteq> []" "sn_operator_type (hd (jn_stream_nodes n)) = Source"
    "sn_operator_type (last (jn_stream_nodes n)) = Sink"
    using k(1) chain_head[of N k] chain_last_sink[OF ok closed kl(1)] kl(3)
    by (auto simp: plan_job_sel(2)[OF k(3)] last_map)
qed

lemma jobs_ready_edges:
  assumes J: "job_dag J" and R: "job_orders_ok R" and ok: "nodes_ok N ops" and closed: "pipelined N {}"
    and r: "jobs_ready N xs"
  shows "job_dag.visited J (map snd xs) {(a, c). a < length xs \<and> c \<in> set (jn_child_job_ids (map snd xs ! a))}
    (build_job_edges J R (fold (insert_job J) xs (job_graph_new J)))"
proof -
  have hm: "hm_ok xs" and all: "job_at ` set (source_nodes N) \<subseteq> fst ` set xs"
    and jobs: "\<forall>(j, n)\<in>set xs. \<exists>k\<in>set (source_nodes N). j = job_at k \<and> plan_job N k n"
    using r by (auto simp: jobs_ready_def)
  let ?g = "fold (insert_job J) xs (job_graph_new J)"
  note ins = job_dag.insert_jobs[OF J hm[unfolded hm_ok_def]]
  have keys: "map fst (map (\<lambda>i. (fst (xs ! i), i)) [0..<length xs]) = map fst xs"
    by (intro nth_equalityI) simp_all
  have ids: "i < length xs \<Longrightarrow> jn_job_id (snd (xs ! i)) = fst (xs ! i)" for i
    using jobs nth_mem[of i xs] plan_job_sel(1) by (fastforce split: prod.splits)
  have look: "map_of (jg_job_node_indies ?g) j = Some i \<longleftrightarrow> i < length xs \<and> fst (xs ! i) = j" for i j
    unfolding ins(3) using hm keys by (subst map_of_eq_Some_iff) (auto simp: hm_ok_def)
  have "hm_ok (jg_job_node_indies ?g)" using hm keys ins(3) by (simp add: hm_ok_def)
  then have "job_dag.jobs_in J (map snd xs) ?g"
    unfolding job_dag.jobs_in_def[OF J] using ins(1) look ids by auto
  then show ?thesis
    using job_dag.build_job_edges_visited[OF J _ ins(2) plan_jobs_rising[OF ok closed hm jobs all] R] by simp
qed

lemma program_jobs:
  assumes "daggy_graph G" "daggy_graph J" "job_orders_ok R"
    and "api_all G cs (raw_stream_graph_new G, []) = Some (Inr (g, []))"
    and "\<forall>c\<in>set cs. schema_safe (call_fn c)" "sum_list (map call_cost cs) < 2 ^ 32"
    and "\<forall>n\<in>set (dg_raw_nodes G (rg_dag g)).
      sn_operator_type n = Source \<and> sn_parent_ids n = [] \<longrightarrow> 0 < sn_parallelism n"
  defines "N \<equiv> dg_raw_nodes G (rg_dag g)"
  shows "\<exists>xs r. job_graph_build G J R (stream_graph_new (rg_sources g) (rg_dag g)) (job_graph_new J) = Some r
    \<and> jobs_ready N xs \<and> job_dag.visited J (map snd xs)
        {(a, c). a < length xs \<and> c \<in> set (jn_child_job_ids (map snd xs ! a))} r"
proof -
  have G: "stream_dag G" and J: "job_dag J" using assms(1,2) by (simp_all add: stream_dag_def job_dag_def)
  have ok: "nodes_ok N (rg_operators g)" and closed: "pipelined N {}" and src: "rg_sources g = source_nodes N"
    and edges: "map (\<lambda>(a, b, _). (a, b)) (dg_raw_edges G (rg_dag g)) = plan_edges N"
    using program_plan[OF assms(1,4-6)] by (simp_all add: N_def open_nodes_def)
  let ?sg = "stream_graph_new (rg_sources g) (rg_dag g)"
  obtain b where b: "job_builder_build G R ?sg job_builder_new = Some (Inr b)" "hm_ok (jb_job_node_indies b)"
    "list_all2 (\<lambda>k (j, n). j = job_at k \<and> plan_job N k n) (source_nodes N) (jb_job_node_indies b)"
    "\<forall>(j, n)\<in>set (jb_job_node_indies b). 0 < jn_parallelism n"
    using job_builder_build_ok[OF G assms(3), of ?sg N "rg_operators g"] ok closed src edges assms(7)
    by (auto simp: stream_graph_new_def N_def)
  let ?xs = "jo_nodes R (jb_job_node_indies b)"
  have r: "jobs_ready N ?xs"
    using assms(3) by (intro jobs_ready_order[OF ok closed _ b(2-4)]) (simp add: job_orders_ok_def)
  moreover have "job_graph_build G J R ?sg (job_graph_new J)
      = Some (build_job_edges J R (fold (insert_job J) ?xs (job_graph_new J)))"
    using b(1) by (simp add: job_graph_build_def)
  ultimately show ?thesis using jobs_ready_edges[OF J assms(3) ok closed r] by blast
qed

definition example_orders :: job_orders where
  "example_orders = \<lparr>jo_nodes = rev, jo_indies = (\<lambda>xs. xs)\<rparr>"

lemma example_sources_positive:
  "case api_all list_graph_ops example_program (raw_stream_graph_new list_graph_ops, []) of
     Some (Inr st) \<Rightarrow> snd st = [] \<and> list_all (\<lambda>n. sn_operator_type n = Source \<and> sn_parent_ids n = [] \<longrightarrow>
       0 < sn_parallelism n) (dg_raw_nodes list_graph_ops (rg_dag (fst st)))
   | _ \<Rightarrow> False"
  by code_simp

text \<open>
  C3: planning the jobs of a program ends and gives exactly the jobs the program needs.
  Take a program that has closed all its streams and whose own sources have a parallelism.
  The planner stops (its search for inherited parallelism included) and either reports that
  the output of a reduction has another parallelism than the reduction, its only error, or
  builds the jobs: every operator of the plan is in exactly one job, every job runs from a
  source to a sink and has a parallelism, and there is an edge exactly from each job to the
  jobs that read its sink, rebalancing in front of a reduction and between jobs of different
  parallelism.
\<close>

theorem job_graph_built:
  assumes "daggy_graph G" "daggy_graph J" "job_orders_ok R"
    and "api_all G cs (raw_stream_graph_new G, []) = Some (Inr (g, []))"
    and "\<forall>c\<in>set cs. schema_safe (call_fn c)" "sum_list (map call_cost cs) < 2 ^ 32"
    and "\<forall>n\<in>set (dg_raw_nodes G (rg_dag g)).
      sn_operator_type n = Source \<and> sn_parent_ids n = [] \<longrightarrow> 0 < sn_parallelism n"
  shows "\<exists>r. job_graph_build G J R (stream_graph_new (rg_sources g) (rg_dag g)) (job_graph_new J) = Some r
    \<and> (case r of
        Inl e \<Rightarrow> e = Failed ReduceOutputParallelismConflict
      | Inr jg \<Rightarrow> (let ns = dg_raw_nodes J (jg_dag jg) in
          mset (concat (map jn_stream_nodes ns)) = mset (dg_raw_nodes G (rg_dag g))
        \<and> (\<forall>n\<in>set ns. 0 < jn_parallelism n \<and> jn_stream_nodes n \<noteq> []
            \<and> sn_operator_type (hd (jn_stream_nodes n)) = Source
            \<and> sn_operator_type (last (jn_stream_nodes n)) = Sink)
        \<and> set (dg_raw_edges J (jg_dag jg)) = {(a, b, e). a < length ns \<and> b < length ns
            \<and> jn_job_id (ns ! b) \<in> set (jn_child_job_ids (ns ! a))
            \<and> job_edge_for (ns ! a) (ns ! b) = Inr e}))"
proof -
  have J: "job_dag J" using assms(2) by (simp add: job_dag_def)
  define N where "N = dg_raw_nodes G (rg_dag g)"
  have ok: "nodes_ok N (rg_operators g)" and closed: "pipelined N {}"
    using program_plan[OF assms(1,4-6)] by (simp_all add: N_def open_nodes_def)
  from program_jobs[OF assms] obtain xs r where
    build: "job_graph_build G J R (stream_graph_new (rg_sources g) (rg_dag g)) (job_graph_new J) = Some r"
    and rd: "jobs_ready N xs" and v: "job_dag.visited J (map snd xs)
      {(a, c). a < length xs \<and> c \<in> set (jn_child_job_ids (map snd xs ! a))} r"
    unfolding N_def by blast
  show ?thesis
  proof (cases r)
    case (Inl e)
    then show ?thesis using v build by (simp add: job_dag.visited_def[OF J] job_dag.conflict_def[OF J])
  next
    case (Inr jg)
    then have "dg_raw_nodes J (jg_dag jg) = map snd xs" "job_dag.edges_for (map snd xs)
        {(a, c). a < length xs \<and> c \<in> set (jn_child_job_ids (map snd xs ! a))} (dg_raw_edges J (jg_dag jg))"
      using v by (simp_all add: job_dag.visited_def[OF J] job_dag.jobs_in_def[OF J])
    then show ?thesis using build Inr rd jobs_ready_ends[OF ok closed rd]
      by (simp add: Let_def N_def job_dag.edges_for_def[OF J] jobs_ready_def) blast
  qed
qed

theorem job_graph_built_witness:
  "\<exists>g r. api_all list_graph_ops example_program (raw_stream_graph_new list_graph_ops, []) = Some (Inr (g, []))
     \<and> job_graph_build list_graph_ops list_graph_ops example_orders
         (stream_graph_new (rg_sources g) (rg_dag g)) (job_graph_new list_graph_ops) = Some r
     \<and> (case r of Inl e \<Rightarrow> e = Failed ReduceOutputParallelismConflict
        | Inr jg \<Rightarrow> mset (concat (map jn_stream_nodes (lg_nodes (jg_dag jg)))) = mset (lg_nodes (rg_dag g)))"
proof -
  obtain g where g: "api_all list_graph_ops example_program (raw_stream_graph_new list_graph_ops, []) = Some (Inr (g, []))"
    "\<forall>n\<in>set (dg_raw_nodes list_graph_ops (rg_dag g)).
       sn_operator_type n = Source \<and> sn_parent_ids n = [] \<longrightarrow> 0 < sn_parallelism n"
    using example_sources_positive by (auto simp: list_all_iff split: option.splits sum.splits)
  have raw: "dg_raw_nodes list_graph_ops = lg_nodes" by (simp add: list_graph_ops_def)
  have R: "job_orders_ok example_orders"
    by (simp add: job_orders_ok_def example_orders_def insertion_order.iteration_order_axioms
      reverse_order.iteration_order_axioms)
  have fns: "\<forall>c\<in>set example_program. schema_safe (call_fn c)"
    by (simp add: example_program_def example_fn_def schema_safe_def)
  have small: "sum_list (map call_cost example_program) < 2 ^ 32" by (simp add: example_program_def)
  from job_graph_built[OF list_graph.daggy_graph_axioms list_graph.daggy_graph_axioms R g(1) fns small g(2)]
  show ?thesis
  proof (elim exE conjE, goal_cases)
    case (1 r)
    then show ?case using g(1)
      by (intro exI[of _ g] exI[of _ r]) (auto simp: Let_def raw split: sum.splits)
  qed
qed

section \<open>A source without parallelism\<close>

text \<open>A job without parents that has no parallelism never gets one.\<close>

definition stuck :: "job_id \<Rightarrow> job_node \<Rightarrow> job_builder \<Rightarrow> bool" where
  "stuck j n b \<longleftrightarrow> map_of (jb_job_node_indies b) j = Some n \<and> jn_parallelism n = 0
     \<and> map_of (jb_c2p_job_id_map b) j = None"

lemma obind_Inr: "obind m f = Some (Inr y) \<longleftrightarrow> (\<exists>x. m = Some (Inr x) \<and> f x = Some (Inr y))"
  by (auto simp: obind_def split: option.splits sum.splits)

lemma fold_obind_inv:
  assumes "fold_obind f xs s = Some (Inr s')" "P s" "\<And>x s s'. f x s = Some (Inr s') \<Longrightarrow> P s \<Longrightarrow> P s'"
  shows "P s'"
  using assms by (induction xs arbitrary: s) (auto simp: obind_Inr)

lemma get_parent_parallelism0_stuck:
  "get_parent_parallelism0 depth R m b = Some (Inr (r, b')) \<Longrightarrow> stuck j n b \<Longrightarrow> stuck j n b'"
proof (induction depth arbitrary: m b r b')
  case 0
  then show ?case by simp
next
  case (Suc depth)
  let ?f = "\<lambda>p b. case map_of (jb_job_node_indies b) p of
      None \<Rightarrow> Some (Inl Unwrap_none)
    | Some parent \<Rightarrow> if jn_parallelism parent > 0 then Some (Inr (jn_parallelism parent, b))
        else get_parent_parallelism0 depth R parent b"
  have ask: "stuck j n c'" if "?f p c = Some (Inr (q, c'))" "stuck j n c" for p c q c'
    using that Suc.IH by (auto split: option.splits if_splits)
  show ?case
  proof (cases "map_of (jb_c2p_job_id_map b) (jn_job_id m)")
    case None
    then show ?thesis using Suc.prems by simp
  next
    case (Some ps)
    then have ne: "jn_job_id m \<noteq> j" using Suc.prems(2) by (auto simp: stuck_def)
    from Suc.prems(1) Some obtain q c where q:
      "(if length ps = 1 then ?f (ps ! 0) b
        else if is_co_process_job m
        then (case get_parent_job_id R b m of
            Inl p \<Rightarrow> Some (Inl p)
          | Inr l \<Rightarrow> fold_obind (\<lambda>p (par, b). obind (?f p b) (\<lambda>(q, b). Some (Inr (if p = l then q else par, b)))) ps (0, b))
        else Some (Inl Unimplemented)) = Some (Inr (q, c))"
      "(case map_of (jb_job_node_indies c) (jn_job_id m) of
         None \<Rightarrow> Some (Inl Unwrap_none)
       | Some jn \<Rightarrow> Some (Inr (0, c\<lparr>jb_job_node_indies := AList.update (jn_job_id m)
           (jn\<lparr>jn_parallelism := q\<rparr>) (jb_job_node_indies c)\<rparr>))) = Some (Inr (r, b'))"
      unfolding get_parent_parallelism0.simps Let_def by (auto simp: obind_Inr)
    have "stuck j n (snd (q, c))"
    proof (cases "length ps = 1")
      case True
      then show ?thesis using q(1) ask Suc.prems(2) unfolding if_P[OF True] snd_conv by blast
    next
      case False
      then obtain l where "fold_obind (\<lambda>p (par, b). obind (?f p b) (\<lambda>(q, b). Some (Inr (if p = l then q else par, b)))) ps (0, b)
          = Some (Inr (q, c))"
        using q(1) unfolding if_not_P[OF False] by (auto split: if_splits sum.splits)
      then show ?thesis
      proof (rule fold_obind_inv)
        show "stuck j n (snd (0, b))" using Suc.prems(2) by simp
        fix p s s'
        assume s: "(\<lambda>p (par, b). obind (?f p b) (\<lambda>(q, b). Some (Inr (if p = l then q else par, b)))) p s = Some (Inr s')"
          "stuck j n (snd s)"
        obtain par c where sc: "s = (par, c)" by force
        from s(1) obtain q c' where "?f p c = Some (Inr (q, c'))" "snd s' = c'"
          unfolding sc prod.case obind_Inr by auto
        then show "stuck j n (snd s')" using ask s(2) sc by auto
      qed
    qed
    then show ?thesis using q(2) ne by (auto simp: stuck_def split: option.splits)
  qed
qed

lemma get_parent_parallelism_stuck:
  assumes R: "job_orders_ok R" and m: "get_parent_parallelism R b = Some (Inr (k, b'))" and s: "stuck j n b"
  shows "0 < k" "stuck j n b'"
proof -
  have "(j, n) \<in> set (jo_nodes R (jb_job_node_indies b))"
    using R s by (auto simp: job_orders_ok_def iteration_order.set_it stuck_def dest: map_of_SomeD)
  then have "jn_job_id n \<in> set (no_parallelism_jobs R b)"
    using s by (force simp: no_parallelism_jobs_def stuck_def)
  then have "0 < length (no_parallelism_jobs R b)" by (cases "no_parallelism_jobs R b") auto
  then show "0 < k" using m by (auto simp: get_parent_parallelism_def obind_Inr)
  have fold: "fold_obind (inherit_parallelism R) (no_parallelism_jobs R b) b = Some (Inr b')"
    using m by (auto simp: get_parent_parallelism_def obind_Inr)
  show "stuck j n b'"
    by (rule fold_obind_inv[OF fold, where P = "stuck j n", OF s])
      (auto simp: inherit_parallelism_def obind_Inr simp del: get_parent_parallelism0.simps
        intro: get_parent_parallelism0_stuck split: option.splits if_splits)
qed

lemma build_parallelism_not_stuck:
  assumes a: "build_parallelism R b = Some r"
  shows "job_orders_ok R \<and> r = Inr b' \<longrightarrow> \<not> stuck j n b"
proof (rule build_parallelism.raw_induct[OF _ a, where P = "\<lambda>R b r. job_orders_ok R \<and> r = Inr b' \<longrightarrow> \<not> stuck j n b"],
    intro impI notI)
  fix f R b r
  assume IH: "\<And>R b y. f R b = Some y \<Longrightarrow> job_orders_ok R \<and> y = Inr b' \<longrightarrow> \<not> stuck j n b"
    and body: "(case get_parent_parallelism R b of None \<Rightarrow> None | Some (Inl p) \<Rightarrow> Some (Inl p)
      | Some (Inr q) \<Rightarrow> if 0 < fst q then f R (snd q) else Some (Inr (snd q))) = Some r"
    and r: "job_orders_ok R \<and> r = Inr b'" and s: "stuck j n b"
  from body r obtain q where c: "get_parent_parallelism R b = Some (Inr (fst q, snd q))"
    "(if 0 < fst q then f R (snd q) else Some (Inr (snd q))) = Some r"
    by (auto split: option.splits sum.splits)
  note g = get_parent_parallelism_stuck[OF conjunct1[OF r] c(1) s]
  show False using IH[of R "snd q" r] r c(2) g by simp
qed

definition zero_job :: job_node where
  "zero_job = \<lparr>jn_job_id = JobId 0, jn_parallelism = 0, jn_stream_nodes = [], jn_child_job_ids = [],
     jn_parent_job_ids = []\<rparr>"

text \<open>
  C4: a source registered with parallelism 0 makes the planner hang.  Whenever a job without
  parents has parallelism 0, the loop that inherits parallelism never returns a plan: every
  round finds the job again and cannot give it a value.
\<close>

theorem zero_parallelism_source_hangs:
  assumes "job_orders_ok R" "map_of (jb_job_node_indies b) j = Some n" "jn_parallelism n = 0"
    "map_of (jb_c2p_job_id_map b) j = None"
  shows "build_parallelism R b \<noteq> Some (Inr b')"
  using build_parallelism_not_stuck[of R b "Inr b'" b' j n] assms by (auto simp: stuck_def)

theorem zero_parallelism_source_hangs_witness:
  "build_parallelism example_orders \<lparr>jb_c2p_job_id_map = [], jb_job_node_indies = [(JobId 0, zero_job)]\<rparr>
     \<noteq> Some (Inr job_builder_new)"
  by (rule zero_parallelism_source_hangs[where j = "JobId 0" and n = zero_job])
    (simp_all add: job_orders_ok_def example_orders_def zero_job_def insertion_order.iteration_order_axioms
      reverse_order.iteration_order_axioms)

end
