(* ===== verification/Execution_Graph.thy ===== *)
theory Execution_Graph
  imports Job_Graph
begin

text \<open>
  The execution graph (\<open>rlink/src/dag/execution_graph.rs\<close>): every job becomes as many tasks
  as its parallelism, a forward edge joins tasks of the same number in memory, a rebalancing
  edge joins every pair of tasks over the network.  The property: for the jobs of a program
  this gives exactly those tasks and edges, and only the splits a user's source makes can be
  refused.
\<close>

section \<open>Tasks\<close>

datatype execution_edge = Memory | Network

record execution_node =
  en_task_id :: task_id
  en_stream_nodes :: "stream_node list"
  en_input_split :: input_split
  en_daemon :: bool

record 'x execution_graph =
  xg_node_indies :: "(task_id, nat) hmap"
  xg_dag :: 'x

definition execution_graph_new :: "(execution_node, execution_edge, 'x) daggy \<Rightarrow> 'x execution_graph" where
  "execution_graph_new E = \<lparr>xg_node_indies = [], xg_dag = dg_new E\<rparr>"

text \<open>The orders in which the two hash maps of job numbers are iterated.\<close>

record execution_orders =
  xo_jobs :: "(job_id, nat) hmap \<Rightarrow> (job_id, nat) hmap"
  xo_indies :: "(job_id, nat list) hmap \<Rightarrow> (job_id, nat list) hmap"

definition execution_orders_ok :: "execution_orders \<Rightarrow> bool" where
  "execution_orders_ok R \<longleftrightarrow> iteration_order (xo_jobs R) \<and> iteration_order (xo_indies R)"

type_synonym task_indies = "(job_id, nat list) hmap"

definition push_index :: "job_id \<Rightarrow> nat \<Rightarrow> task_indies \<Rightarrow> task_indies" where
  "push_index j i m = AList.update j ((case map_of m j of None \<Rightarrow> [] | Some is \<Rightarrow> is) @ [i]) m"

definition task_of :: "job_node \<Rightarrow> nat \<Rightarrow> task_id" where
  "task_of job_node task_number = \<lparr>t_job_id = jn_job_id job_node, t_task_number = of_nat task_number,
     t_num_tasks = jn_parallelism job_node\<rparr>"

definition add_task ::
    "(execution_node, execution_edge, 'x) daggy \<Rightarrow> job_node \<Rightarrow> input_split list \<Rightarrow> nat \<Rightarrow>
     'x execution_graph \<times> task_indies \<Rightarrow> dag_error failure + 'x execution_graph \<times> task_indies" where
  "add_task E job_node input_splits task_number = (\<lambda>(g, m).
     rbind (lift_panic (index_res input_splits task_number)) (\<lambda>input_split.
     rbind (lift_panic (is_daemon_job job_node)) (\<lambda>daemon.
     let task_id = task_of job_node task_number;
         (node_index, d) = dg_add_node E (xg_dag g) \<lparr>en_task_id = task_id,
           en_stream_nodes = jn_stream_nodes job_node, en_input_split = input_split, en_daemon = daemon\<rparr>
     in Inr (\<lparr>xg_node_indies = AList.update task_id node_index (xg_node_indies g), xg_dag = d\<rparr>,
             push_index (jn_job_id job_node) node_index m))))"

definition illegal_split_size :: "operator_fn \<Rightarrow> u16 \<Rightarrow> nat \<Rightarrow> dag_error" where
  "illegal_split_size f parallelism n = IllegalInputSplitSize (of_name f @ [CHR 0x27] @ ''s parallelism = '' @
     show_nat (unat parallelism) @ '', but input_splits size = '' @ show_nat n)"

definition build_job_tasks ::
    "(execution_node, execution_edge, 'x) daggy \<Rightarrow> (operator_id, stream_operator) hmap \<Rightarrow> job_node \<Rightarrow>
     'x execution_graph \<times> task_indies \<Rightarrow> dag_error failure + 'x execution_graph \<times> task_indies" where
  "build_job_tasks E operators job_node st =
     rbind (lift_panic (index_res (jn_stream_nodes job_node) 0)) (\<lambda>source_stream_node.
     rbind (ok_or (OperatorNotFound (sn_id source_stream_node))
       (map_of operators (sn_id source_stream_node))) (\<lambda>operator.
     case operator of
       StreamSource op \<Rightarrow>
         (case of_splits (do_fn op) (jn_parallelism job_node) of
            Inl e \<Rightarrow> Inl (Failed (OtherApiError e))
          | Inr input_splits \<Rightarrow>
              if length input_splits \<noteq> unat (jn_parallelism job_node)
              then Inl (Failed (illegal_split_size (do_fn op) (jn_parallelism job_node) (length input_splits)))
              else if jn_parallelism job_node = 0 then Inl (Failed JobParallelismNotFound)
              else fold_res (add_task E job_node input_splits) [0..<unat (jn_parallelism job_node)] st)
     | _ \<Rightarrow> Inl (Failed SourceNotFound)))"

definition build_nodes ::
    "(job_node, job_edge, 'h) daggy \<Rightarrow> (execution_node, execution_edge, 'x) daggy \<Rightarrow> execution_orders \<Rightarrow>
     'h job_graph \<Rightarrow> (operator_id, stream_operator) hmap \<Rightarrow> 'x execution_graph \<Rightarrow>
     dag_error failure + 'x execution_graph \<times> task_indies" where
  "build_nodes J E R job_graph operators g =
     fold_res (\<lambda>node_index st. rbind (lift_panic (dag_index J (jg_dag job_graph) node_index)) (\<lambda>job_node.
       build_job_tasks E operators job_node st))
       (map snd (xo_jobs R (jg_job_node_indies job_graph))) (g, [])"

section \<open>Edges between tasks\<close>

definition add_task_edge ::
    "(execution_node, execution_edge, 'x) daggy \<Rightarrow> nat \<Rightarrow> nat \<Rightarrow> execution_edge \<Rightarrow> 'x execution_graph \<Rightarrow>
     dag_error failure + 'x execution_graph" where
  "add_task_edge E a b e g = rbind (ok_or WouldCycle (dg_add_edge E (xg_dag g) a b e)) (\<lambda>(_, d).
     Inr (g\<lparr>xg_dag := d\<rparr>))"

definition build_edges_to ::
    "(job_node, job_edge, 'h) daggy \<Rightarrow> (execution_node, execution_edge, 'x) daggy \<Rightarrow> 'h job_graph \<Rightarrow>
     task_indies \<Rightarrow> nat list \<Rightarrow> nat \<times> nat \<Rightarrow> 'x execution_graph \<Rightarrow> dag_error failure + 'x execution_graph" where
  "build_edges_to J E job_graph m execution_node_indies = (\<lambda>(edge_index, child_node_index) g.
     rbind (lift_panic (dag_index J (jg_dag job_graph) child_node_index)) (\<lambda>child_job_node.
     rbind (ok_or (JobNotFound (jn_job_id child_job_node)) (map_of m (jn_job_id child_job_node))) (\<lambda>child_indies.
     rbind (lift_panic (dag_edge_index J (jg_dag job_graph) edge_index)) (\<lambda>job_edge.
     case job_edge of
       Forward \<Rightarrow>
         fold_res (\<lambda>number g. rbind (lift_panic (index_res execution_node_indies number)) (\<lambda>node_index.
           rbind (lift_panic (index_res child_indies number)) (\<lambda>child_index.
           add_task_edge E node_index child_index Memory g))) [0..<length execution_node_indies] g
     | ReBalance \<Rightarrow>
         fold_res (\<lambda>node_index. fold_res (\<lambda>child_index. add_task_edge E node_index child_index Network)
           child_indies) execution_node_indies g))))"

definition build_edges_from ::
    "(job_node, job_edge, 'h) daggy \<Rightarrow> (execution_node, execution_edge, 'x) daggy \<Rightarrow> 'h job_graph \<Rightarrow>
     task_indies \<Rightarrow> job_id \<times> nat list \<Rightarrow> 'x execution_graph \<Rightarrow> dag_error failure + 'x execution_graph" where
  "build_edges_from J E job_graph m = (\<lambda>(job_id, execution_node_indies) g.
     rbind (ok_or (JobNotFound job_id) (map_of (jg_job_node_indies job_graph) job_id)) (\<lambda>job_node_index.
     fold_res (build_edges_to J E job_graph m execution_node_indies)
       (dg_children J (jg_dag job_graph) job_node_index) g))"

definition build_edges ::
    "(job_node, job_edge, 'h) daggy \<Rightarrow> (execution_node, execution_edge, 'x) daggy \<Rightarrow> execution_orders \<Rightarrow>
     'h job_graph \<Rightarrow> task_indies \<Rightarrow> 'x execution_graph \<Rightarrow> dag_error failure + 'x execution_graph" where
  "build_edges J E R job_graph m g = fold_res (build_edges_from J E job_graph m) (xo_indies R m) g"

definition execution_graph_build ::
    "(job_node, job_edge, 'h) daggy \<Rightarrow> (execution_node, execution_edge, 'x) daggy \<Rightarrow> execution_orders \<Rightarrow>
     'h job_graph \<Rightarrow> (operator_id, stream_operator) hmap \<Rightarrow> 'x execution_graph \<Rightarrow>
     dag_error failure + 'x execution_graph" where
  "execution_graph_build J E R job_graph operators g =
     rbind (build_nodes J E R job_graph operators g) (\<lambda>(g, m). build_edges J E R job_graph m g)"

section \<open>One task per number\<close>

definition split_failure :: "dag_error failure \<Rightarrow> bool" where
  "split_failure e \<longleftrightarrow> (\<exists>s. e = Failed (OtherApiError s) \<or> e = Failed (IllegalInputSplitSize s))"

lemma raw_operators_lookup: "map_of (raw_operators g) i = map_option snd (map_of (rg_operators g) i)"
proof -
  have "map_of (map (\<lambda>(k, v). (k, f v)) xs) i = map_option f (map_of xs i)" for f :: "nat \<times> stream_operator \<Rightarrow> stream_operator" and xs
    by (induction xs) auto
  moreover have "raw_operators g = map (\<lambda>(k, v). (k, snd v)) (rg_operators g)"
    by (auto simp: raw_operators_def)
  ultimately show ?thesis by simp
qed

text \<open>The tasks of a job, without their splits.\<close>

definition task_view :: "execution_node \<Rightarrow> task_id \<times> stream_node list" where
  "task_view t = (en_task_id t, en_stream_nodes t)"

definition job_tasks :: "job_node \<Rightarrow> (task_id \<times> stream_node list) list" where
  "job_tasks n = map (\<lambda>k. (task_of n k, jn_stream_nodes n)) [0..<unat (jn_parallelism n)]"

locale execution_dag = daggy_graph E for E :: "(execution_node, execution_edge, 'x) daggy"
begin

definition tasks_in :: "job_node list \<Rightarrow> 'x execution_graph \<times> task_indies \<Rightarrow> bool" where
  "tasks_in ds st \<longleftrightarrow> (case st of (g, m) \<Rightarrow> dg_raw_edges E (xg_dag g) = []
     \<and> map task_view (dg_raw_nodes E (xg_dag g)) = concat (map job_tasks ds)
     \<and> map fst m = map jn_job_id ds
     \<and> (\<forall>x<length (dg_raw_nodes E (xg_dag g)). \<exists>n\<in>set ds. \<exists>is. map_of m (jn_job_id n) = Some is \<and> x \<in> set is)
     \<and> (\<forall>n\<in>set ds. \<exists>off. map_of m (jn_job_id n) = Some [off..<off + unat (jn_parallelism n)]
         \<and> off + unat (jn_parallelism n) \<le> length (dg_raw_nodes E (xg_dag g))
         \<and> (\<forall>k<unat (jn_parallelism n). en_task_id (dg_raw_nodes E (xg_dag g) ! (off + k)) = task_of n k)))"

lemma add_tasks:
  assumes "length splits = unat (jn_parallelism n)" "jn_stream_nodes n \<noteq> []" "map_of m (jn_job_id n) = None"
    "k \<le> unat (jn_parallelism n)"
  shows "\<exists>g' m' ts. fold_res (add_task E n splits) [0..<k] (g, m) = Inr (g', m')
    \<and> dg_raw_nodes E (xg_dag g') = dg_raw_nodes E (xg_dag g) @ ts \<and> length ts = k
    \<and> map task_view ts = map (\<lambda>k. (task_of n k, jn_stream_nodes n)) [0..<k]
    \<and> dg_raw_edges E (xg_dag g') = dg_raw_edges E (xg_dag g)
    \<and> map fst m' = map fst m @ (if k = 0 then [] else [jn_job_id n])
    \<and> map_of m' = (if k = 0 then map_of m else (map_of m)(jn_job_id n \<mapsto>
        [length (dg_raw_nodes E (xg_dag g))..<length (dg_raw_nodes E (xg_dag g)) + k]))"
  using assms(4)
proof (induction k)
  case 0
  then show ?case by simp
next
  case (Suc k)
  then obtain g' m' ts where IH: "fold_res (add_task E n splits) [0..<k] (g, m) = Inr (g', m')"
    "dg_raw_nodes E (xg_dag g') = dg_raw_nodes E (xg_dag g) @ ts" "length ts = k"
    "map task_view ts = map (\<lambda>k. (task_of n k, jn_stream_nodes n)) [0..<k]"
    "dg_raw_edges E (xg_dag g') = dg_raw_edges E (xg_dag g)"
    "map fst m' = map fst m @ (if k = 0 then [] else [jn_job_id n])"
    "map_of m' = (if k = 0 then map_of m else (map_of m)(jn_job_id n \<mapsto>
        [length (dg_raw_nodes E (xg_dag g))..<length (dg_raw_nodes E (xg_dag g)) + k]))"
    by auto
  let ?t = "\<lparr>en_task_id = task_of n k, en_stream_nodes = jn_stream_nodes n, en_input_split = splits ! k,
      en_daemon = sn_daemon (jn_stream_nodes n ! 0)\<rparr>"
  let ?l = "length (dg_raw_nodes E (xg_dag g))"
  have view: "task_view ?t = (task_of n k, jn_stream_nodes n)" by (simp add: task_view_def)
  obtain i d where d: "dg_add_node E (xg_dag g') ?t = (i, d)" by force
  note an = add_node[OF d]
  have i: "i = ?l + k" using an IH(2,3) by simp
  let ?m = "push_index (jn_job_id n) i m'"
  have add: "add_task E n splits k (g', m') =
      Inr (\<lparr>xg_node_indies = AList.update (task_of n k) i (xg_node_indies g'), xg_dag = d\<rparr>, ?m)"
    using assms(1,2) Suc.prems d by (simp add: add_task_def is_daemon_job_def Let_def)
  have old: "(case map_of m' (jn_job_id n) of None \<Rightarrow> [] | Some is \<Rightarrow> is) = [?l..<?l + k]"
    using IH(7) assms(3) by (cases k) simp_all
  have m: "map_of ?m = (map_of m)(jn_job_id n \<mapsto> [?l..<?l + Suc k])"
    using IH(7) assms(3) by (auto simp: push_index_def i fun_eq_iff)
  have "map fst ?m = map fst m @ [jn_job_id n]"
  proof (cases k)
    case 0
    then have "jn_job_id n \<notin> set (map fst m')" using IH(6) assms(3) by (simp add: map_of_eq_None_iff)
    then show ?thesis using IH(6) 0 by (simp add: push_index_def update_keys)
  next
    case (Suc l)
    then have "jn_job_id n \<in> set (map fst m')" using IH(6) by simp
    then show ?thesis using IH(6) Suc by (simp add: push_index_def update_keys)
  qed
  then show ?case using IH(1) add an IH(2-5) m
    by (intro exI[of _ "\<lparr>xg_node_indies = AList.update (task_of n k) i (xg_node_indies g'), xg_dag = d\<rparr>"]
        exI[of _ ?m] exI[of _ "ts @ [?t]"]) (simp add: fold_res_append view)
qed

lemma build_job_tasks_in:
  assumes t: "tasks_in ds (g, m)" and n: "0 < jn_parallelism n" "jn_stream_nodes n \<noteq> []"
    "map_of operators (sn_id (hd (jn_stream_nodes n))) = Some (StreamSource op)" "jn_job_id n \<notin> jn_job_id ` set ds"
  shows "case build_job_tasks E operators n (g, m) of Inl e \<Rightarrow> split_failure e | Inr st \<Rightarrow> tasks_in (ds @ [n]) st"
proof -
  let ?p = "unat (jn_parallelism n)"
  have pos: "jn_parallelism n \<noteq> 0" using n(1) by auto
  have none: "map_of m (jn_job_id n) = None"
    using t n(4) by (auto simp: tasks_in_def map_of_eq_None_iff simp flip: set_map)
  have src: "index_res (jn_stream_nodes n) 0 = Inr (hd (jn_stream_nodes n))"
    using n(2) by (simp add: hd_conv_nth)
  show ?thesis
  proof (cases "of_splits (do_fn op) (jn_parallelism n)")
    case (Inl e)
    then show ?thesis using src n(3) by (simp add: build_job_tasks_def ok_or_def split_failure_def)
  next
    case (Inr splits)
    show ?thesis
    proof (cases "length splits = ?p")
      case False
      then show ?thesis using src n(3) Inr
        by (simp add: build_job_tasks_def ok_or_def split_failure_def illegal_split_size_def)
    next
      case True
      have p0: "?p \<noteq> 0" using pos by (simp add: unat_eq_0)
      from add_tasks[OF True n(2) none order_refl, of g] p0 obtain g' m' ts where r:
        "fold_res (add_task E n splits) [0..<?p] (g, m) = Inr (g', m')"
        "dg_raw_nodes E (xg_dag g') = dg_raw_nodes E (xg_dag g) @ ts" "length ts = ?p"
        "map task_view ts = job_tasks n" "dg_raw_edges E (xg_dag g') = dg_raw_edges E (xg_dag g)"
        "map fst m' = map fst m @ [jn_job_id n]"
        "map_of m' = (map_of m)(jn_job_id n \<mapsto> [length (dg_raw_nodes E (xg_dag g))..<length (dg_raw_nodes E (xg_dag g)) + ?p])"
        by (auto simp: job_tasks_def)
      let ?T = "dg_raw_nodes E (xg_dag g)"
      have ts: "en_task_id (ts ! k) = task_of n k" if k: "k < ?p" for k
        using arg_cong[OF r(4), of "\<lambda>xs. fst (xs ! k)"] k r(3) by (simp add: task_view_def job_tasks_def)
      have "\<exists>off. map_of m' (jn_job_id x) = Some [off..<off + unat (jn_parallelism x)]
          \<and> off + unat (jn_parallelism x) \<le> length (?T @ ts)
          \<and> (\<forall>k<unat (jn_parallelism x). en_task_id ((?T @ ts) ! (off + k)) = task_of x k)"
        if x: "x \<in> set (ds @ [n])" for x
      proof (cases "x = n")
        case True
        then show ?thesis using r(3,7) ts by (intro exI[of _ "length ?T"]) simp
      next
        case False
        then have xd: "x \<in> set ds" using x by simp
        then have "jn_job_id x \<noteq> jn_job_id n" using n(4) by (metis image_eqI)
        moreover from t xd obtain off where "map_of m (jn_job_id x) = Some [off..<off + unat (jn_parallelism x)]"
          "off + unat (jn_parallelism x) \<le> length ?T"
          "\<forall>k<unat (jn_parallelism x). en_task_id (?T ! (off + k)) = task_of x k"
          by (auto simp: tasks_in_def)
        ultimately show ?thesis using r(7) by (intro exI[of _ off]) (simp add: nth_append)
      qed
      moreover have "\<exists>y\<in>set (ds @ [n]). \<exists>is. map_of m' (jn_job_id y) = Some is \<and> x \<in> set is"
        if x: "x < length (?T @ ts)" for x
      proof (cases "x < length ?T")
        case True
        then obtain y "is" where y: "y \<in> set ds" "map_of m (jn_job_id y) = Some is" "x \<in> set is"
          using t by (auto simp: tasks_in_def)
        then have "jn_job_id y \<noteq> jn_job_id n" using n(4) by (metis image_eqI)
        then show ?thesis using y r(7) by (intro bexI[of _ y]) auto
      next
        case False
        then show ?thesis using x r(3,7) by (intro bexI[of _ n]) auto
      qed
      ultimately have "tasks_in (ds @ [n]) (g', m')"
        using t r(2,4-6) by (simp add: tasks_in_def)
      then show ?thesis using src n(3) Inr True pos r(1) by (simp add: build_job_tasks_def ok_or_def)
    qed
  qed
qed

end

section \<open>The tasks of all jobs\<close>

lemma mset_nth_upt: "mset is = mset [0..<length ns] \<Longrightarrow> mset (map ((!) ns) is) = mset ns"
  by (metis map_nth mset_map)

lemma job_indices:
  assumes J: "job_dag J" and g: "job_dag.jobs_in J ns jg" and X: "execution_orders_ok X"
  shows "mset (map snd (xo_jobs X (jg_job_node_indies jg))) = mset [0..<length ns]"
proof -
  let ?m = "jg_job_node_indies jg"
  have look: "(j, i) \<in> set ?m \<longleftrightarrow> i < length ns \<and> jn_job_id (ns ! i) = j" for i j
    using g by (simp add: job_dag.jobs_in_def[OF J] hm_ok_def flip: map_of_eq_Some_iff)
  have "distinct ?m" using g by (simp add: job_dag.jobs_in_def[OF J] hm_ok_def distinct_map)
  moreover have "inj_on snd (set ?m)" using look by (auto intro!: inj_onI)
  ultimately have "distinct (map snd ?m)" by (simp add: distinct_map)
  moreover have "set (map snd ?m) = set [0..<length ns]" using look by force
  ultimately have "mset (map snd ?m) = mset [0..<length ns]"
    using set_eq_iff_mset_eq_distinct[OF _ distinct_upt] by blast
  moreover have "mset (xo_jobs X ?m) = mset ?m"
    using X by (simp add: execution_orders_ok_def iteration_order.mset_it)
  ultimately show ?thesis by (metis mset_map)
qed

context execution_dag
begin

lemma tasks_in_new: "tasks_in [] (execution_graph_new E, [])"
  using new_graph by (simp add: tasks_in_def execution_graph_new_def)

lemma build_tasks_fold:
  assumes idx: "\<forall>i\<in>set is. dag_index J d i = Inr (ns ! i)"
    and jobs: "\<forall>i\<in>set is. 0 < jn_parallelism (ns ! i) \<and> jn_stream_nodes (ns ! i) \<noteq> []
      \<and> (\<exists>op. map_of operators (sn_id (hd (jn_stream_nodes (ns ! i)))) = Some (StreamSource op))"
    and dist: "distinct (map jn_job_id (ds @ map ((!) ns) is))" and t: "tasks_in ds st"
  shows "case fold_res (\<lambda>i st. rbind (lift_panic (dag_index J d i)) (\<lambda>n. build_job_tasks E operators n st)) is st of
      Inl e \<Rightarrow> split_failure e | Inr st \<Rightarrow> tasks_in (ds @ map ((!) ns) is) st"
  using assms
proof (induction "is" arbitrary: ds st)
  case Nil
  then show ?case by simp
next
  case (Cons i "is")
  obtain g m where st: "st = (g, m)" by force
  obtain op where op: "map_of operators (sn_id (hd (jn_stream_nodes (ns ! i)))) = Some (StreamSource op)"
    using Cons.prems(2) by auto
  have "jn_job_id (ns ! i) \<notin> jn_job_id ` set ds" using Cons.prems(3) by auto
  from build_job_tasks_in[OF Cons.prems(4)[unfolded st] _ _ op this] Cons.prems(2)
  have s: "case build_job_tasks E operators (ns ! i) st of Inl e \<Rightarrow> split_failure e | Inr st \<Rightarrow> tasks_in (ds @ [ns ! i]) st"
    by (simp add: st)
  show ?case
  proof (cases "build_job_tasks E operators (ns ! i) st")
    case (Inl e)
    then show ?thesis using s Cons.prems(1) by simp
  next
    case (Inr st')
    have e: "(ds @ [ns ! i]) @ map ((!) ns) is = ds @ map ((!) ns) (i # is)" by simp
    show ?thesis using s Cons.IH[of "ds @ [ns ! i]" st', unfolded e] Cons.prems Inr by simp
  qed
qed

lemma build_nodes_ok:
  assumes J: "job_dag J" and g: "job_dag.jobs_in J ns jg" and X: "execution_orders_ok X"
    and dist: "distinct (map jn_job_id ns)"
    and jobs: "\<forall>n\<in>set ns. 0 < jn_parallelism n \<and> jn_stream_nodes n \<noteq> []
      \<and> (\<exists>op. map_of operators (sn_id (hd (jn_stream_nodes n))) = Some (StreamSource op))"
  shows "case build_nodes J E X jg operators (execution_graph_new E) of
      Inl e \<Rightarrow> split_failure e | Inr st \<Rightarrow> (\<exists>ds. mset ds = mset ns \<and> tasks_in ds st)"
proof -
  let ?is = "map snd (xo_jobs X (jg_job_node_indies jg))"
  note m = job_indices[OF J g X]
  have set: "set ?is = {..<length ns}" using m by (metis atLeast_upt set_mset_mset)
  have ms: "mset (map ((!) ns) ?is) = mset ns" by (rule mset_nth_upt[OF m])
  then have d: "distinct (map jn_job_id ([] @ map ((!) ns) ?is))"
    using dist by (metis append_Nil mset_map mset_eq_imp_distinct_iff)
  have idx: "\<forall>i\<in>set ?is. dag_index J (jg_dag jg) i = Inr (ns ! i)"
    using g set daggy_graph.index_in[OF J[unfolded job_dag_def]] by (auto simp: job_dag.jobs_in_def[OF J])
  have "\<forall>i\<in>set ?is. 0 < jn_parallelism (ns ! i) \<and> jn_stream_nodes (ns ! i) \<noteq> []
      \<and> (\<exists>op. map_of operators (sn_id (hd (jn_stream_nodes (ns ! i)))) = Some (StreamSource op))"
    using jobs set nth_mem by blast
  note f = build_tasks_fold[OF idx this d tasks_in_new, folded build_nodes_def, unfolded append_Nil]
  show ?thesis
  proof (cases "build_nodes J E X jg operators (execution_graph_new E)")
    case (Inl e)
    then show ?thesis using f by simp
  next
    case (Inr st)
    then have "tasks_in (map ((!) ns) ?is) st" using f by simp
    then show ?thesis unfolding Inr sum.case using ms by blast
  qed
qed

end

section \<open>The edges of all tasks\<close>

definition task_job :: "execution_node list \<Rightarrow> nat \<Rightarrow> job_id" where
  "task_job T x = t_job_id (en_task_id (T ! x))"

definition upward :: "execution_node list \<Rightarrow> (nat \<times> nat \<times> execution_edge) set" where
  "upward T = {(x, y, e). x < length T \<and> y < length T \<and> task_job T x < task_job T y}"

fun task_edges :: "job_edge \<Rightarrow> nat list \<Rightarrow> nat list \<Rightarrow> (nat \<times> nat \<times> execution_edge) set" where
  "task_edges Forward is cs = (\<lambda>k. (is ! k, cs ! k, Memory)) ` {..<length is}"
| "task_edges ReBalance is cs = (\<lambda>(x, y). (x, y, Network)) ` (set is \<times> set cs)"

lemma upward_path: "(x, y) \<in> (links es)\<^sup>* \<Longrightarrow> set es \<subseteq> upward T \<Longrightarrow> x = y \<or> task_job T x < task_job T y"
  by (induction rule: rtrancl_induct) (fastforce simp: links_def upward_def)+

context execution_dag
begin

definition edges_in :: "execution_node list \<Rightarrow> (nat \<times> nat \<times> execution_edge) set \<Rightarrow>
    dag_error failure + 'x execution_graph \<Rightarrow> bool" where
  "edges_in T S r \<longleftrightarrow> (case r of Inl _ \<Rightarrow> False | Inr g \<Rightarrow> dg_raw_nodes E (xg_dag g) = T
     \<and> set (dg_raw_edges E (xg_dag g)) = S \<and> S \<subseteq> upward T)"

lemma add_task_edge_in:
  assumes s: "edges_in T S (Inr g)" and e: "(x, y, e) \<in> upward T"
  shows "edges_in T (insert (x, y, e) S) (add_task_edge E x y e g)"
proof -
  have "(y, x) \<notin> (links (dg_raw_edges E (xg_dag g)))\<^sup>*"
    using upward_path[of y x "dg_raw_edges E (xg_dag g)" T] s e
    by (auto simp: edges_in_def upward_def)
  then have "dg_add_edge E (xg_dag g) x y e \<noteq> None"
    using add_edge_acyclic[of x "xg_dag g" y e] s e by (simp add: edges_in_def upward_def)
  then obtain i d where d: "dg_add_edge E (xg_dag g) x y e = Some (i, d)" by auto
  show ?thesis using add_edge[OF d] d s e by (simp add: add_task_edge_def ok_or_def edges_in_def)
qed

lemma edges_in_fold:
  assumes "edges_in T S (Inr g)"
    "\<And>x S g. x \<in> set xs \<Longrightarrow> edges_in T S (Inr g) \<Longrightarrow> edges_in T (S \<union> Q x) (f x g)"
  shows "edges_in T (S \<union> (\<Union>x\<in>set xs. Q x)) (fold_res f xs g)"
  using assms
proof (induction xs arbitrary: S g)
  case Nil
  then show ?case by simp
next
  case (Cons x xs)
  have e: "edges_in T (S \<union> Q x) (f x g)" by (rule Cons.prems(2)[OF _ Cons.prems(1)]) simp
  then obtain g1 where g1: "f x g = Inr g1" by (cases "f x g") (simp_all add: edges_in_def)
  have "edges_in T (S \<union> Q x \<union> (\<Union>x\<in>set xs. Q x)) (fold_res f xs g1)"
    by (rule Cons.IH[OF e[unfolded g1]]) (rule Cons.prems(2), simp_all)
  then show ?case using g1 by (simp add: Un_assoc)
qed

lemma build_edges_to_in:
  assumes s: "edges_in T S (Inr g)" and child: "dag_index J (jg_dag jg) c = Inr n" "map_of m (jn_job_id n) = Some cs"
    and je: "dag_edge_index J (jg_dag jg) ei = Inr je" "je = Forward \<Longrightarrow> length is = length cs"
    and up: "\<And>x y e. x \<in> set is \<Longrightarrow> y \<in> set cs \<Longrightarrow> (x, y, e) \<in> upward T"
  shows "edges_in T (S \<union> task_edges je is cs) (build_edges_to J E jg m is (ei, c) g)"
proof (cases je)
  case Forward
  have "edges_in T (S \<union> (\<Union>k\<in>set [0..<length is]. {(is ! k, cs ! k, Memory)}))
      (fold_res (\<lambda>number g. rbind (lift_panic (index_res is number)) (\<lambda>node_index.
           rbind (lift_panic (index_res cs number)) (\<lambda>child_index.
           add_task_edge E node_index child_index Memory g))) [0..<length is] g)"
    using add_task_edge_in up je(2)[OF Forward] by (intro edges_in_fold[OF s]) simp
  moreover have "(\<Union>k\<in>set [0..<length is]. {(is ! k, cs ! k, Memory)}) = task_edges je is cs" using Forward by auto
  ultimately show ?thesis using child je(1) Forward by (simp add: build_edges_to_def ok_or_def)
next
  case ReBalance
  have row: "edges_in T (S \<union> {x} \<times> set cs \<times> {Network}) (fold_res (\<lambda>y. add_task_edge E x y Network) cs g)"
    if "x \<in> set is" "edges_in T S (Inr g)" for x S g
  proof -
    have "edges_in T (S \<union> (\<Union>y\<in>set cs. {(x, y, Network)})) (fold_res (\<lambda>y. add_task_edge E x y Network) cs g)"
      using add_task_edge_in up that(1) by (intro edges_in_fold[OF that(2)]) simp
    moreover have "(\<Union>y\<in>set cs. {(x, y, Network)}) = {x} \<times> set cs \<times> {Network}" by auto
    ultimately show ?thesis by simp
  qed
  have "edges_in T (S \<union> (\<Union>x\<in>set is. {x} \<times> set cs \<times> {Network}))
      (fold_res (\<lambda>x. fold_res (\<lambda>y. add_task_edge E x y Network) cs) is g)"
    by (rule edges_in_fold[OF s]) (rule row)
  moreover have "(\<Union>x\<in>set is. {x} \<times> set cs \<times> {Network}) = task_edges je is cs" using ReBalance by auto
  ultimately show ?thesis using child je(1) ReBalance by (simp add: build_edges_to_def ok_or_def)
qed

end

section \<open>The graph of all tasks\<close>

text \<open>The edges the tasks of two joined jobs need.\<close>

definition between :: "execution_node list \<Rightarrow> job_node \<Rightarrow> job_node \<Rightarrow> job_edge \<Rightarrow> (nat \<times> nat \<times> execution_edge) set" where
  "between T n c e = {(x, y, t). x < length T \<and> y < length T \<and> task_job T x = jn_job_id n \<and> task_job T y = jn_job_id c
     \<and> (case e of
          Forward \<Rightarrow> t = Memory \<and> t_task_number (en_task_id (T ! x)) = t_task_number (en_task_id (T ! y))
        | ReBalance \<Rightarrow> t = Network)}"

definition slice :: "execution_node list \<Rightarrow> job_node \<Rightarrow> nat list \<Rightarrow> bool" where
  "slice T n is \<longleftrightarrow> length is = unat (jn_parallelism n)
     \<and> (\<forall>x. x \<in> set is \<longleftrightarrow> x < length T \<and> task_job T x = jn_job_id n)
     \<and> (\<forall>k<length is. t_task_number (en_task_id (T ! (is ! k))) = of_nat k)"

lemma slice_number:
  assumes "slice T n is" "x \<in> set is"
  shows "\<exists>k<length is. x = is ! k \<and> unat (t_task_number (en_task_id (T ! x))) = k"
proof -
  obtain k where k: "k < length is" "x = is ! k" using assms(2) by (auto simp: in_set_conv_nth)
  have "unat (jn_parallelism n) < 2 ^ LENGTH(16)" by (rule unsigned_less)
  then have "k < 2 ^ 16" using k(1) assms(1) by (simp add: slice_def)
  then show ?thesis using k assms(1) by (intro exI[of _ k]) (simp add: slice_def unat_of_nat take_bit_eq_mod)
qed

lemma task_edges_between:
  assumes s: "slice T n is" "slice T c cs" and e: "e = Forward \<Longrightarrow> length is = length cs"
  shows "task_edges e is cs = between T n c e"
proof (cases e)
  case ReBalance
  then show ?thesis using s by (auto simp: between_def slice_def)
next
  case Forward
  have "(x, y, t) \<in> task_edges e is cs \<longleftrightarrow> (x, y, t) \<in> between T n c e" for x y t
  proof
    assume "(x, y, t) \<in> task_edges e is cs"
    then obtain k where k: "k < length is" "x = is ! k" "y = cs ! k" "t = Memory" using Forward by auto
    then have "x \<in> set is" "y \<in> set cs" using e[OF Forward] by simp_all
    then show "(x, y, t) \<in> between T n c e" using k s e[OF Forward] Forward by (auto simp: between_def slice_def)
  next
    assume b: "(x, y, t) \<in> between T n c e"
    then have x: "x \<in> set is" and y: "y \<in> set cs" using s by (auto simp: between_def slice_def)
    from slice_number[OF s(1) x] slice_number[OF s(2) y] b Forward
    show "(x, y, t) \<in> task_edges e is cs" by (auto simp: between_def)
  qed
  then show ?thesis by auto
qed

context daggy_graph
begin

lemma child_edge: "(i, c) \<in> set (dg_children G g v) \<longleftrightarrow>
    (\<exists>e. i < length (dg_raw_edges G g) \<and> dg_raw_edges G g ! i = (v, c, e))"
proof -
  have "set (dg_children G g v) = set (out_edges (dg_raw_edges G g) v)"
    using children[of g v] by (metis set_mset_mset)
  moreover have "(i, c) \<in> set (out_edges es v) \<longleftrightarrow> (\<exists>e. (i, v, c, e) \<in> set (enumerate 0 es))"
    for es :: "(nat \<times> nat \<times> 'e) list"
    by (force simp: out_edges_def)
  ultimately show ?thesis by (simp add: in_set_enumerate_eq)
qed

lemma child_edge_index: "(i, c) \<in> set (dg_children G g v) \<Longrightarrow> dg_raw_edges G g ! i = (v, c, e) \<Longrightarrow>
    dag_edge_index G g i = Inr e"
  using child_edge[of i c g v] by (auto simp: dag_edge_index_def edge)

end

context execution_dag
begin

lemma tasks_in_slice:
  assumes t: "tasks_in ds (g, m)" and n: "n \<in> set ds"
  shows "\<exists>is. map_of m (jn_job_id n) = Some is \<and> slice (dg_raw_nodes E (xg_dag g)) n is"
proof -
  let ?T = "dg_raw_nodes E (xg_dag g)"
  have at: "\<exists>off. map_of m (jn_job_id n) = Some [off..<off + unat (jn_parallelism n)]
         \<and> off + unat (jn_parallelism n) \<le> length ?T
         \<and> (\<forall>k<unat (jn_parallelism n). en_task_id (?T ! (off + k)) = task_of n k)" if "n \<in> set ds" for n
    using t that by (simp add: tasks_in_def)
  from at[OF n] obtain off where off: "map_of m (jn_job_id n) = Some [off..<off + unat (jn_parallelism n)]"
    "off + unat (jn_parallelism n) \<le> length ?T"
    "\<forall>k<unat (jn_parallelism n). en_task_id (?T ! (off + k)) = task_of n k" by blast
  let ?is = "[off..<off + unat (jn_parallelism n)]"
  have own: "task_job ?T x = jn_job_id n" if "x \<in> set [off..<off + unat (jn_parallelism n)]"
    and "\<forall>k<unat (jn_parallelism n). en_task_id (?T ! (off + k)) = task_of n k" for n off x
  proof -
    have "en_task_id (?T ! (off + (x - off))) = task_of n (x - off)" using that by (intro that(2)[rule_format]) auto
    then show ?thesis using that(1) by (simp add: task_job_def task_of_def)
  qed
  have "x \<in> set ?is" if x: "x < length ?T" "task_job ?T x = jn_job_id n" for x
  proof -
    obtain y "is" where y: "y \<in> set ds" "map_of m (jn_job_id y) = Some is" "x \<in> set is"
      using t x(1) by (auto simp: tasks_in_def)
    from at[OF y(1)] y(2,3) own x(2) have "jn_job_id y = jn_job_id n" by fastforce
    then show ?thesis using y off(1) by simp
  qed
  then have "slice ?T n ?is" using off own[OF _ off(3)] unfolding slice_def by (auto simp: task_of_def)
  then show ?thesis using off(1) by blast
qed

lemma build_edges_from_in:
  assumes J: "daggy_graph J" and ns: "dg_raw_nodes J (jg_dag jg) = ns" and es: "dg_raw_edges J (jg_dag jg) = es"
    and ends: "\<And>a b e. (a, b, e) \<in> set es \<Longrightarrow> a < length ns \<and> b < length ns
      \<and> jn_job_id (ns ! a) < jn_job_id (ns ! b) \<and> (e = Forward \<longrightarrow> jn_parallelism (ns ! a) = jn_parallelism (ns ! b))"
    and sl: "\<And>n. n \<in> set ns \<Longrightarrow> \<exists>is. map_of m (jn_job_id n) = Some is \<and> slice T n is"
    and a: "a < length ns" "map_of (jg_job_node_indies jg) j = Some a" "slice T (ns ! a) is"
    and s: "edges_in T S (Inr g)"
  shows "edges_in T (S \<union> (\<Union>(b, e)\<in>{(b, e). (a, b, e) \<in> set es}. between T (ns ! a) (ns ! b) e))
      (build_edges_from J E jg m (j, is) g)"
proof -
  let ?Q = "\<lambda>(ei, c). between T (ns ! a) (ns ! c) (snd (snd (es ! ei)))"
  have "edges_in T (S \<union> ?Q p) (build_edges_to J E jg m is p g)"
    if p: "p \<in> set (dg_children J (jg_dag jg) a)" and s: "edges_in T S (Inr g)" for p S g
  proof -
    obtain ei c where pe: "p = (ei, c)" by force
    then obtain e where e: "ei < length es" "es ! ei = (a, c, e)"
      using p daggy_graph.child_edge[OF J] es by blast
    note en = ends[of a c e, OF nth_mem[OF e(1), unfolded e(2)]]
    then obtain cs where cs: "map_of m (jn_job_id (ns ! c)) = Some cs" "slice T (ns ! c) cs" using sl nth_mem by blast
    have len: "e = Forward \<Longrightarrow> length is = length cs" using en a(3) cs(2) by (simp add: slice_def)
    have "edges_in T (S \<union> task_edges e is cs) (build_edges_to J E jg m is (ei, c) g)"
    proof (rule build_edges_to_in[OF s])
      show "dag_index J (jg_dag jg) c = Inr (ns ! c)" using en ns daggy_graph.index_in[OF J] by blast
      show "dag_edge_index J (jg_dag jg) ei = Inr e"
        using daggy_graph.child_edge_index[OF J] p pe e(2) es by blast
      show "(x, y, t) \<in> upward T" if "x \<in> set is" "y \<in> set cs" for x y t
        using that a(3) cs(2) en by (auto simp: upward_def slice_def)
    qed (use cs(1) len in auto)
    then show ?thesis using task_edges_between[OF a(3) cs(2) len] pe e(2) by simp
  qed
  from edges_in_fold[OF s this]
  have f: "edges_in T (S \<union> (\<Union>p\<in>set (dg_children J (jg_dag jg) a). ?Q p)) (build_edges_from J E jg m (j, is) g)"
    using a(2) by (simp add: build_edges_from_def ok_or_def)
  have "(\<Union>p\<in>set (dg_children J (jg_dag jg) a). ?Q p) = (\<Union>(b, e)\<in>{(b, e). (a, b, e) \<in> set es}. between T (ns ! a) (ns ! b) e)"
  proof (intro equalityI subsetI)
    fix z
    assume "z \<in> (\<Union>p\<in>set (dg_children J (jg_dag jg) a). ?Q p)"
    then obtain ei c where p: "(ei, c) \<in> set (dg_children J (jg_dag jg) a)"
      "z \<in> between T (ns ! a) (ns ! c) (snd (snd (es ! ei)))" by auto
    then obtain e where e: "ei < length es" "es ! ei = (a, c, e)"
      using daggy_graph.child_edge[OF J] es by blast
    then have "(a, c, e) \<in> set es" by (metis nth_mem)
    then show "z \<in> (\<Union>(b, e)\<in>{(b, e). (a, b, e) \<in> set es}. between T (ns ! a) (ns ! b) e)"
      using p(2) e(2) by (intro UN_I[of "(c, e)"]) simp_all
  next
    fix z
    assume "z \<in> (\<Union>(b, e)\<in>{(b, e). (a, b, e) \<in> set es}. between T (ns ! a) (ns ! b) e)"
    then obtain b e where b: "(a, b, e) \<in> set es" "z \<in> between T (ns ! a) (ns ! b) e" by auto
    then obtain ei where ei: "ei < length es" "es ! ei = (a, b, e)" by (auto simp: in_set_conv_nth)
    then have "(ei, b) \<in> set (dg_children J (jg_dag jg) a)" using daggy_graph.child_edge[OF J] es by blast
    then show "z \<in> (\<Union>p\<in>set (dg_children J (jg_dag jg) a). ?Q p)"
      using b(2) ei(2) by (intro UN_I[of "(ei, b)"]) simp_all
  qed
  then show ?thesis using f by simp
qed

end

section \<open>The tasks of a program\<close>

context execution_dag
begin

lemma build_edges_in:
  assumes J: "job_dag J" and g: "job_dag.jobs_in J ns jg" and es: "dg_raw_edges J (jg_dag jg) = es"
    and ends: "\<And>a b e. (a, b, e) \<in> set es \<Longrightarrow> a < length ns \<and> b < length ns
      \<and> jn_job_id (ns ! a) < jn_job_id (ns ! b) \<and> (e = Forward \<longrightarrow> jn_parallelism (ns ! a) = jn_parallelism (ns ! b))"
    and X: "execution_orders_ok X" and dist: "distinct (map jn_job_id ns)"
    and t: "tasks_in ds (xg, m)" "mset ds = mset ns"
  defines "T \<equiv> dg_raw_nodes E (xg_dag xg)"
  shows "edges_in T (\<Union>(a, b, e)\<in>set es. between T (ns ! a) (ns ! b) e) (build_edges J E X jg m xg)"
proof -
  have ds: "set ds = set ns" using t(2) by (metis set_mset_mset)
  have ks: "map fst m = map jn_job_id ds" using t(1) by (simp add: tasks_in_def)
  then have dm: "distinct (map fst m)" using dist t(2) by (metis mset_map mset_eq_imp_distinct_iff)
  have sl: "\<exists>is. map_of m (jn_job_id n) = Some is \<and> slice T n is" if "n \<in> set ns" for n
    using tasks_in_slice[OF t(1)] that ds by (simp add: T_def)
  have mem: "\<exists>a. a < length ns \<and> jn_job_id (ns ! a) = j \<and> map_of (jg_job_node_indies jg) j = Some a \<and> slice T (ns ! a) is"
    if p: "(j, is) \<in> set m" for j "is"
  proof -
    have "j \<in> jn_job_id ` set ns" using p ks ds by (metis fst_conv image_eqI list.set_map)
    then obtain a where a: "a < length ns" "jn_job_id (ns ! a) = j" by (auto simp: in_set_conv_nth)
    moreover have "map_of m j = Some is" using p dm by simp
    moreover have "map_of (jg_job_node_indies jg) j = Some a" using g a by (simp add: job_dag.jobs_in_def[OF J])
    ultimately show ?thesis using sl[of "ns ! a"] by auto
  qed
  let ?Q = "\<lambda>(j, is :: nat list). \<Union>(a, b, e)\<in>{x \<in> set es. jn_job_id (ns ! fst x) = j}. between T (ns ! a) (ns ! b) e"
  have step: "edges_in T (S \<union> ?Q p) (build_edges_from J E jg m p h)"
    if "p \<in> set (xo_indies X m)" and s: "edges_in T S (Inr h)" for p S h
  proof -
    obtain j "is" where p: "p = (j, is)" by force
    then have "(j, is) \<in> set m" using that(1) X by (simp add: execution_orders_ok_def iteration_order.set_it)
    from mem[OF this] obtain a where a: "a < length ns" "jn_job_id (ns ! a) = j"
      "map_of (jg_job_node_indies jg) j = Some a" "slice T (ns ! a) is" by blast
    have "edges_in T (S \<union> (\<Union>(b, e)\<in>{(b, e). (a, b, e) \<in> set es}. between T (ns ! a) (ns ! b) e))
        (build_edges_from J E jg m (j, is) h)"
      by (rule build_edges_from_in[OF _ _ es ends sl a(1,3,4) s])
        (use J g in \<open>simp_all add: job_dag_def job_dag.jobs_in_def[OF J]\<close>)
    moreover have "x = a" if "(x, b, e) \<in> set es" "jn_job_id (ns ! x) = j" for x b e
      using that(2) ends[OF that(1)] a(1,2) dist nth_eq_iff_index_eq[of "map jn_job_id ns" x a] by simp
    then have "{x \<in> set es. jn_job_id (ns ! fst x) = j} = (\<lambda>(b, e). (a, b, e)) ` {(b, e). (a, b, e) \<in> set es}"
      using a(2) by force
    then have "(\<Union>(b, e)\<in>{(b, e). (a, b, e) \<in> set es}. between T (ns ! a) (ns ! b) e) = ?Q p"
      unfolding p prod.case by (simp add: split_beta)
    ultimately show ?thesis using p by simp
  qed
  have start: "edges_in T {} (Inr xg)" using t(1) by (simp add: edges_in_def tasks_in_def T_def)
  have "edges_in T ({} \<union> (\<Union>p\<in>set (xo_indies X m). ?Q p)) (build_edges J E X jg m xg)"
    unfolding build_edges_def by (rule edges_in_fold[OF start]) (rule step)
  moreover have "(\<Union>p\<in>set (xo_indies X m). ?Q p) = (\<Union>(a, b, e)\<in>set es. between T (ns ! a) (ns ! b) e)"
  proof (intro equalityI subsetI)
    fix z
    assume "z \<in> (\<Union>(a, b, e)\<in>set es. between T (ns ! a) (ns ! b) e)"
    then obtain a b e where z: "(a, b, e) \<in> set es" "z \<in> between T (ns ! a) (ns ! b) e" by auto
    then obtain "is" where "map_of m (jn_job_id (ns ! a)) = Some is" using sl[of "ns ! a"] ends[OF z(1)] by auto
    then have "(jn_job_id (ns ! a), is) \<in> set (xo_indies X m)"
      using X by (simp add: execution_orders_ok_def iteration_order.set_it map_of_SomeD)
    then show "z \<in> (\<Union>p\<in>set (xo_indies X m). ?Q p)" using z by (intro UN_I) auto
  qed auto
  ultimately show ?thesis by simp
qed

end

lemma jobs_first_source:
  assumes ok: "nodes_ok N (rg_operators g)" and closed: "pipelined N {}" and r: "jobs_ready N xs" and n: "n \<in> set (map snd xs)"
  shows "\<exists>op. map_of (raw_operators g) (sn_id (hd (jn_stream_nodes n))) = Some (StreamSource op)"
proof -
  note ends = jobs_ready_ends[OF ok closed r n]
  have "hd (jn_stream_nodes n) \<in> set (concat (map jn_stream_nodes (map snd xs)))" using n ends(2) by force
  moreover have "set (concat (map jn_stream_nodes (map snd xs))) = set N"
    using r unfolding jobs_ready_def by (metis set_mset_mset)
  ultimately have "hd (jn_stream_nodes n) \<in> set N" by blast
  then obtain k where k: "k < length N" "N ! k = hd (jn_stream_nodes n)" by (auto simp: in_set_conv_nth)
  then obtain op where op: "map_of (rg_operators g) (sn_id (N ! k)) = Some (k, op)"
    "operator_type_from op = sn_operator_type (N ! k)" using ok unfolding nodes_ok_def by metis
  then show ?thesis using ends(3) k(2) by (cases op) (auto simp: raw_operators_lookup)
qed

lemma job_edge_ends:
  assumes J: "job_dag J" and r: "job_dag.rising ns" and e: "job_dag.edges_for ns D es"
    and D: "D \<subseteq> {(a, c). a < length ns \<and> c \<in> set (jn_child_job_ids (ns ! a))}" and m: "(a, b, e) \<in> set es"
  shows "a < length ns \<and> b < length ns \<and> jn_job_id (ns ! a) < jn_job_id (ns ! b)
    \<and> (e = Forward \<longrightarrow> jn_parallelism (ns ! a) = jn_parallelism (ns ! b))"
proof -
  have "a < length ns" "b < length ns" "(a, jn_job_id (ns ! b)) \<in> D" "job_edge_for (ns ! a) (ns ! b) = Inr e"
    using e m by (simp_all add: job_dag.edges_for_def[OF J])
  moreover from this have "jn_job_id (ns ! b) \<in> set (jn_child_job_ids (ns ! a))" using D by blast
  ultimately show ?thesis
    using r by (auto simp: job_edge_for_def job_dag.rising_def[OF J] split: if_splits)
qed

text \<open>Building the tasks of a planned job graph.\<close>

lemma execution_graph_of_jobs:
  assumes J: "job_dag J" and E: "execution_dag E" and X: "execution_orders_ok X"
    and ok: "nodes_ok N (rg_operators g)" and closed: "pipelined N {}" and r: "jobs_ready N xs"
    and v: "job_dag.visited J (map snd xs) {(a, c). a < length xs \<and> c \<in> set (jn_child_job_ids (map snd xs ! a))} (Inr jg)"
  defines "ns \<equiv> map snd xs"
  shows "case execution_graph_build J E X jg (raw_operators g) (execution_graph_new E) of
      Inl e \<Rightarrow> split_failure e
    | Inr xg \<Rightarrow> mset (map task_view (dg_raw_nodes E (xg_dag xg))) = mset (concat (map job_tasks ns))
        \<and> set (dg_raw_edges E (xg_dag xg)) = (\<Union>(a, b, e)\<in>set (dg_raw_edges J (jg_dag jg)).
            between (dg_raw_nodes E (xg_dag xg)) (ns ! a) (ns ! b) e)"
proof -
  have ji: "job_dag.jobs_in J ns jg" and ef: "job_dag.edges_for ns
      {(a, c). a < length ns \<and> c \<in> set (jn_child_job_ids (ns ! a))} (dg_raw_edges J (jg_dag jg))"
    using v by (simp_all add: job_dag.visited_def[OF J] ns_def)
  have rise: "job_dag.rising ns" unfolding ns_def
    by (rule plan_jobs_rising[OF ok closed]) (use r in \<open>auto simp: jobs_ready_def\<close>)
  then have dist: "distinct (map jn_job_id ns)" by (simp add: job_dag.rising_def[OF J])
  note ends = job_edge_ends[OF J rise ef order_refl]
  have jobs: "\<forall>n\<in>set ns. 0 < jn_parallelism n \<and> jn_stream_nodes n \<noteq> []
      \<and> (\<exists>op. map_of (raw_operators g) (sn_id (hd (jn_stream_nodes n))) = Some (StreamSource op))"
    using jobs_ready_ends[OF ok closed r] jobs_first_source[OF ok closed r] unfolding ns_def by blast
  note nodes = execution_dag.build_nodes_ok[OF E J ji X dist jobs]
  show ?thesis
  proof (cases "build_nodes J E X jg (raw_operators g) (execution_graph_new E)")
    case (Inl e)
    then show ?thesis using nodes by (simp add: execution_graph_build_def)
  next
    case (Inr st)
    obtain xg m where st: "st = (xg, m)" by force
    then obtain ds where ds: "mset ds = mset ns" "execution_dag.tasks_in E ds (xg, m)" using nodes Inr by auto
    note b = execution_dag.build_edges_in[OF E J ji refl ends X dist ds(2,1)]
    have "map task_view (dg_raw_nodes E (xg_dag xg)) = concat (map job_tasks ds)"
      using ds(2) by (simp add: execution_dag.tasks_in_def[OF E])
    then have "mset (map task_view (dg_raw_nodes E (xg_dag xg))) = mset (concat (map job_tasks ns))"
      using mset_concat_perm[OF ds(1)] by simp
    then show ?thesis using Inr st b
      by (auto simp: execution_graph_build_def execution_dag.edges_in_def[OF E] split: sum.splits)
  qed
qed

interpretation list_tasks: execution_dag list_graph_ops
  by unfold_locales

definition example_task_orders :: execution_orders where
  "example_task_orders = \<lparr>xo_jobs = rev, xo_indies = rev\<rparr>"

lemma example_task_orders_ok: "execution_orders_ok example_task_orders"
  by (simp add: execution_orders_ok_def example_task_orders_def reverse_order.iteration_order_axioms)

lemma example_job_orders_ok: "job_orders_ok example_orders"
  by (simp add: job_orders_ok_def example_orders_def insertion_order.iteration_order_axioms
    reverse_order.iteration_order_axioms)

text \<open>A source, a windowed reduction of parallelism 2 and a sink: three jobs, five tasks.\<close>

definition task_fn :: operator_fn where
  "task_fn = example_fn\<lparr>of_splits := create_input_splits\<rparr>"

definition task_program :: "api_call list" where
  "task_program = [RegisterSource 1 task_fn, CallKeyBy (id_of 0) task_fn, CallWindow (id_of 1) task_fn,
     CallReduce (id_of 4) 2 task_fn, CallAddSink (id_of 5) task_fn]"

text \<open>
  C5: the tasks of a program are its jobs, as often as their parallelism, joined as the jobs
  are.  Once the jobs of a program are planned, building its tasks fails only when a source
  of the user makes no splits or the wrong number of them.  Otherwise the tasks are exactly
  the numbers below the parallelism of each job, each with the operators of its job, and two
  tasks are joined exactly when their jobs are: in memory with the task of the same number
  for a forward edge, over the network with every task for a rebalancing edge.
\<close>

theorem execution_graph_built:
  assumes "daggy_graph G" "daggy_graph J" "daggy_graph E" "job_orders_ok R" "execution_orders_ok X"
    and "api_all G cs (raw_stream_graph_new G, []) = Some (Inr (g, []))"
    and "\<forall>c\<in>set cs. schema_safe (call_fn c)" "sum_list (map call_cost cs) < 2 ^ 32"
    and "\<forall>n\<in>set (dg_raw_nodes G (rg_dag g)).
      sn_operator_type n = Source \<and> sn_parent_ids n = [] \<longrightarrow> 0 < sn_parallelism n"
    and "job_graph_build G J R (stream_graph_new (rg_sources g) (rg_dag g)) (job_graph_new J) = Some (Inr jg)"
  shows "case execution_graph_build J E X jg (raw_operators g) (execution_graph_new E) of
      Inl e \<Rightarrow> split_failure e
    | Inr xg \<Rightarrow> (let ns = dg_raw_nodes J (jg_dag jg); T = dg_raw_nodes E (xg_dag xg) in
          mset (map task_view T) = mset (concat (map job_tasks ns))
        \<and> set (dg_raw_edges E (xg_dag xg)) =
            (\<Union>(a, b, e)\<in>set (dg_raw_edges J (jg_dag jg)). between T (ns ! a) (ns ! b) e))"
proof -
  have J: "job_dag J" and E: "execution_dag E" using assms(2,3) by (simp_all add: job_dag_def execution_dag_def)
  from program_plan[OF assms(1,6-8)]
  have ok: "nodes_ok (dg_raw_nodes G (rg_dag g)) (rg_operators g)" and closed: "pipelined (dg_raw_nodes G (rg_dag g)) {}"
    by (simp_all add: open_nodes_def)
  from program_jobs[OF assms(1,2,4,6-9)] assms(10) obtain xs where xs: "jobs_ready (dg_raw_nodes G (rg_dag g)) xs"
    "job_dag.visited J (map snd xs) {(a, c). a < length xs \<and> c \<in> set (jn_child_job_ids (map snd xs ! a))} (Inr jg)"
    by auto
  then have ns: "dg_raw_nodes J (jg_dag jg) = map snd xs"
    by (simp add: job_dag.visited_def[OF J] job_dag.jobs_in_def[OF J])
  from execution_graph_of_jobs[OF J E assms(5) ok closed xs] show ?thesis
    unfolding Let_def ns by (auto split: sum.splits)
qed

lemma some_cases: "(case m of None \<Rightarrow> False | Some x \<Rightarrow> P x) \<longleftrightarrow> (\<exists>x. m = Some x \<and> P x)"
  by (auto split: option.split)

lemma inr_cases: "(case r of Inl e \<Rightarrow> False | Inr x \<Rightarrow> P x) \<longleftrightarrow> (\<exists>x. r = Inr x \<and> P x)"
  by (auto split: sum.split)

lemma example_jobs_planned:
  "case api_all list_graph_ops task_program (raw_stream_graph_new list_graph_ops, []) of
     Some (Inr st) \<Rightarrow> snd st = [] \<and> list_all (\<lambda>n. sn_operator_type n = Source \<and> sn_parent_ids n = [] \<longrightarrow>
       0 < sn_parallelism n) (dg_raw_nodes list_graph_ops (rg_dag (fst st)))
     \<and> (case job_graph_build list_graph_ops list_graph_ops example_orders (stream_graph_new (rg_sources (fst st)) (rg_dag (fst st)))
            (job_graph_new list_graph_ops) of
          Some (Inr jg) \<Rightarrow> (case execution_graph_build list_graph_ops list_graph_ops example_task_orders jg
              (raw_operators (fst st)) (execution_graph_new list_graph_ops) of
            Inr xg \<Rightarrow> length (lg_nodes (xg_dag xg)) = 5 \<and> length (lg_edges (xg_dag xg)) = 4 | _ \<Rightarrow> False)
        | _ \<Rightarrow> False)
   | _ \<Rightarrow> False"
  by code_simp

theorem execution_graph_built_witness:
  "\<exists>g jg xg. api_all list_graph_ops task_program (raw_stream_graph_new list_graph_ops, []) = Some (Inr (g, []))
     \<and> job_graph_build list_graph_ops list_graph_ops example_orders
         (stream_graph_new (rg_sources g) (rg_dag g)) (job_graph_new list_graph_ops) = Some (Inr jg)
     \<and> execution_graph_build list_graph_ops list_graph_ops example_task_orders jg (raw_operators g)
         (execution_graph_new list_graph_ops) = Inr xg
     \<and> length (lg_edges (xg_dag xg)) = 4
     \<and> mset (map task_view (lg_nodes (xg_dag xg))) = mset (concat (map job_tasks (lg_nodes (jg_dag jg))))"
proof -
  obtain g jg xg where g: "api_all list_graph_ops task_program (raw_stream_graph_new list_graph_ops, []) = Some (Inr (g, []))"
    "\<forall>n\<in>set (dg_raw_nodes list_graph_ops (rg_dag g)).
       sn_operator_type n = Source \<and> sn_parent_ids n = [] \<longrightarrow> 0 < sn_parallelism n"
    "job_graph_build list_graph_ops list_graph_ops example_orders
         (stream_graph_new (rg_sources g) (rg_dag g)) (job_graph_new list_graph_ops) = Some (Inr jg)"
    "execution_graph_build list_graph_ops list_graph_ops example_task_orders jg (raw_operators g)
         (execution_graph_new list_graph_ops) = Inr xg" "length (lg_edges (xg_dag xg)) = 4"
    using example_jobs_planned unfolding some_cases inr_cases list_all_iff by auto
  have raw: "dg_raw_nodes list_graph_ops = lg_nodes" by (simp add: list_graph_ops_def)
  have fns: "\<forall>c\<in>set task_program. schema_safe (call_fn c)"
    by (simp add: task_program_def task_fn_def example_fn_def schema_safe_def)
  have small: "sum_list (map call_cost task_program) < 2 ^ 32" by (simp add: task_program_def)
  from execution_graph_built[OF list_graph.daggy_graph_axioms list_graph.daggy_graph_axioms list_graph.daggy_graph_axioms
      example_job_orders_ok example_task_orders_ok g(1) fns small g(2,3)] g(4)
  have "mset (map task_view (lg_nodes (xg_dag xg))) = mset (concat (map job_tasks (lg_nodes (jg_dag jg))))"
    by (simp add: Let_def raw)
  then show ?thesis using g by (intro exI conjI) assumption+
qed

end
