(* ===== verification/Physic_Graph.thy ===== *)
theory Physic_Graph
  imports Execution_Graph
begin

text \<open>
  The physic graph (\<open>rlink/src/dag/physic_graph.rs\<close>): tasks joined in memory are merged
  into chains, and the chains are dealt out to the workers in turn.  The properties: the
  search for a chain ends and returns exactly the tasks joined to its start; every task
  with an edge is in exactly one chain; and a task without edges is forgotten as soon as
  another task has one.
\<close>

section \<open>Chains of tasks\<close>

record forward_task_chain =
  ftc_tasks :: "execution_node list"

record task_instance =
  ti_task_id :: task_id
  ti_stream_nodes :: "stream_node list"
  ti_input_split :: input_split
  ti_daemon :: bool

record worker_manager_instance =
  wmi_worker_manager_id :: string
  wmi_task_instances :: "task_instance list"

record physic_graph =
  pg_task_groups :: "(job_id, forward_task_chain list) hmap"

definition physic_graph_new :: physic_graph where
  "physic_graph_new = \<lparr>pg_task_groups = []\<rparr>"

text \<open>\<open>min_by_key\<close> of an iterator: the first of the least elements.\<close>

fun min_by_key :: "('a \<Rightarrow> 'k::linorder) \<Rightarrow> 'a list \<Rightarrow> 'a option" where
  "min_by_key f [] = None"
| "min_by_key f (x # xs) = (case min_by_key f xs of
     None \<Rightarrow> Some x
   | Some y \<Rightarrow> if f y < f x then Some y else Some x)"

definition chain_task_id :: "forward_task_chain \<Rightarrow> task_id res" where
  "chain_task_id c = rbind (unwrap (min_by_key (\<lambda>x. t_job_id (en_task_id x)) (ftc_tasks c)))
     (\<lambda>x. Inr (en_task_id x))"

section \<open>Searching a chain\<close>

text \<open>
  \<open>get_parents\<close> and \<open>get_children\<close> differ only in the walker: the edges in memory are
  listed first and removed afterwards, by the indices they had.
\<close>

definition memory_edges ::
    "(execution_node, execution_edge, 'x) daggy \<Rightarrow> 'x \<Rightarrow> (nat \<times> nat) list \<Rightarrow> (nat \<times> nat) list res" where
  "memory_edges E d walk = fold_res (\<lambda>(edge, node) acc.
     rbind (dag_edge_index E d edge) (\<lambda>e. Inr (case e of Memory \<Rightarrow> acc @ [(edge, node)] | Network \<Rightarrow> acc))) walk []"

definition remove_edges :: "(execution_node, execution_edge, 'x) daggy \<Rightarrow> (nat \<times> nat) list \<Rightarrow> 'x \<Rightarrow> nat list \<times> 'x" where
  "remove_edges E edges d = fold (\<lambda>(edge, node) (nodes, d). (nodes @ [node], dg_remove_edge E d edge)) edges ([], d)"

definition get_parents :: "(execution_node, execution_edge, 'x) daggy \<Rightarrow> nat \<Rightarrow> 'x \<Rightarrow> (nat list \<times> 'x) res" where
  "get_parents E node_index d = rbind (memory_edges E d (dg_parents E d node_index)) (\<lambda>edges.
     Inr (remove_edges E edges d))"

definition get_children :: "(execution_node, execution_edge, 'x) daggy \<Rightarrow> nat \<Rightarrow> 'x \<Rightarrow> (nat list \<times> 'x) res" where
  "get_children E node_index d = rbind (memory_edges E d (dg_children E d node_index)) (\<lambda>edges.
     Inr (remove_edges E edges d))"

text \<open>
  The recursion removes edges of the clone it walks over; \<open>depth\<close> bounds it, and \<open>None\<close>
  says that the bound was too small.
\<close>

fun search ::
    "nat \<Rightarrow> (execution_node, execution_edge, 'x) daggy \<Rightarrow> nat \<Rightarrow> 'x \<Rightarrow> (nat list \<times> 'x) res option" where
  "search 0 E node_index d = None"
| "search (Suc depth) E node_index d =
     (let walk = (\<lambda>p (node_indies, d). obind (search depth E p d) (\<lambda>(p_indies, d). Some (Inr (node_indies @ p_indies, d))))
      in obind (Some (get_parents E node_index d)) (\<lambda>(parents, d).
         obind (fold_obind walk parents ([node_index], d)) (\<lambda>(node_indies, d).
         obind (Some (get_children E node_index d)) (\<lambda>(children, d).
         fold_obind walk children (node_indies, d)))))"

section \<open>Merging tasks\<close>

text \<open>The orders in which the hash sets of node indices and the map of groups are iterated.\<close>

record physic_orders =
  po_nodes :: "nat list \<Rightarrow> nat list"
  po_groups :: "(job_id, forward_task_chain list) hmap \<Rightarrow> (job_id, forward_task_chain list) hmap"

definition physic_orders_ok :: "physic_orders \<Rightarrow> bool" where
  "physic_orders_ok P \<longleftrightarrow> iteration_order (po_nodes P) \<and> iteration_order (po_groups P)"

definition hs_insert :: "nat \<Rightarrow> nat list \<Rightarrow> nat list" where
  "hs_insert x s = (if x \<in> set s then s else s @ [x])"

definition edge_sets :: "(nat \<times> nat \<times> execution_edge) list \<Rightarrow> nat list \<times> nat list" where
  "edge_sets edges = fold (\<lambda>(a, b, e) (all_task_set, forward_task_set).
     (hs_insert b (hs_insert a all_task_set),
      case e of Memory \<Rightarrow> hs_insert b (hs_insert a forward_task_set) | Network \<Rightarrow> forward_task_set)) edges ([], [])"

definition nodes_at :: "(execution_node, execution_edge, 'x) daggy \<Rightarrow> 'x \<Rightarrow> nat list \<Rightarrow> execution_node list res" where
  "nodes_at E d is = fold_res (\<lambda>i acc. rbind (dag_index E d i) (\<lambda>n. Inr (acc @ [n]))) is []"

partial_function (option) forward_loop ::
    "(execution_node, execution_edge, 'x) daggy \<Rightarrow> physic_orders \<Rightarrow> 'x \<Rightarrow> nat list \<Rightarrow> forward_task_chain list \<Rightarrow>
     forward_task_chain list res option" where
  "forward_loop E P d forward_task_set forward_chains = (case po_nodes P forward_task_set of
     [] \<Rightarrow> Some (Inr forward_chains)
   | node_index # _ \<Rightarrow> (case search (Suc (length (dg_raw_edges E d))) E node_index d of
       None \<Rightarrow> None
     | Some (Inl p) \<Rightarrow> Some (Inl p)
     | Some (Inr r) \<Rightarrow> (case nodes_at E d (fst r) of
         Inl p \<Rightarrow> Some (Inl p)
       | Inr tasks \<Rightarrow> forward_loop E P d (filter (\<lambda>x. x \<notin> set (fst r)) forward_task_set)
           (forward_chains @ [\<lparr>ftc_tasks = tasks\<rparr>]))))"

declare forward_loop.simps [code]

definition merge_forward_task ::
    "(execution_node, execution_edge, 'x) daggy \<Rightarrow> physic_orders \<Rightarrow> 'x execution_graph \<Rightarrow>
     forward_task_chain list res option" where
  "merge_forward_task E P g = (let d = xg_dag g in
     if length (dg_raw_edges E d) = 0
     then Some (Inr (map (\<lambda>n. \<lparr>ftc_tasks = [n]\<rparr>) (dg_raw_nodes E d)))
     else let (all_task_set, forward_task_set) = edge_sets (dg_raw_edges E d) in
       obind (Some (nodes_at E d (filter (\<lambda>x. x \<notin> set forward_task_set) (po_nodes P all_task_set)))) (\<lambda>hash_nodes.
       obind (forward_loop E P d forward_task_set []) (\<lambda>forward_chains.
       Some (Inr (forward_chains @ map (\<lambda>n. \<lparr>ftc_tasks = [n]\<rparr>) hash_nodes)))))"

definition add_to_group :: "forward_task_chain \<Rightarrow> physic_graph \<Rightarrow> physic_graph res" where
  "add_to_group c g = rbind (chain_task_id c) (\<lambda>task_id.
     let job = t_job_id task_id;
         group = (case map_of (pg_task_groups g) job of None \<Rightarrow> [] | Some cs \<Rightarrow> cs)
     in Inr (g\<lparr>pg_task_groups := AList.update job (group @ [c]) (pg_task_groups g)\<rparr>))"

definition physic_graph_build ::
    "(execution_node, execution_edge, 'x) daggy \<Rightarrow> physic_orders \<Rightarrow> 'x execution_graph \<Rightarrow> physic_graph \<Rightarrow>
     physic_graph res option" where
  "physic_graph_build E P xg g = obind (merge_forward_task E P xg) (\<lambda>chains.
     Some (fold_res add_to_group chains g))"

section \<open>Dealing the chains out\<close>

text \<open>
  \<open>cap\<close> is the capacity \<open>Vec::with_capacity\<close> gives, which the standard library only
  promises to be at least what was asked for; the code makes as many workers as that.
\<close>

definition task_instance_of :: "execution_node \<Rightarrow> task_instance" where
  "task_instance_of n = \<lparr>ti_task_id = en_task_id n, ti_stream_nodes = en_stream_nodes n,
     ti_input_split = en_input_split n, ti_daemon = en_daemon n\<rparr>"

definition deal_chain ::
    "forward_task_chain \<Rightarrow> nat \<times> worker_manager_instance list \<Rightarrow> (nat \<times> worker_manager_instance list) res" where
  "deal_chain c = (\<lambda>(i, task_managers).
     if length task_managers = 0 then Inl Division_by_zero
     else let index = i mod length task_managers;
              w = task_managers ! index
          in Inr (i + 1, task_managers[index :=
            w\<lparr>wmi_task_instances := wmi_task_instances w @ map task_instance_of (ftc_tasks c)\<rparr>]))"

definition alloc_by_instance ::
    "(nat \<Rightarrow> nat) \<Rightarrow> physic_orders \<Rightarrow> physic_graph \<Rightarrow> u32 \<Rightarrow> worker_manager_instance list res" where
  "alloc_by_instance cap P g num_task_managers =
     (let task_managers = map (\<lambda>index. \<lparr>wmi_worker_manager_id = ''worker_manager_'' @ show_nat index,
            wmi_task_instances = []\<rparr>) [0..<cap (unat num_task_managers)]
      in rbind (fold_res (\<lambda>(_, chains). fold_res deal_chain chains) (po_groups P (pg_task_groups g)) (0, task_managers))
           (\<lambda>(_, task_managers). Inr task_managers))"

section \<open>Removing edges by index\<close>

lemma mset_swap_remove: "i < length xs \<Longrightarrow> mset (swap_remove i xs) = mset xs - {#xs ! i#}"
proof -
  assume i: "i < length xs"
  then obtain ys z where xs: "xs = ys @ [z]" by (cases xs rule: rev_cases) auto
  show ?thesis
  proof (cases "i = length ys")
    case True
    then show ?thesis by (simp add: swap_remove_def xs)
  next
    case False
    then have "i < length ys" using i xs by simp
    then show ?thesis using nth_mem[of i ys]
      by (simp add: swap_remove_def xs list_update_append nth_append mset_update butlast_append)
  qed
qed

lemma length_swap_remove: "length (swap_remove i xs) = length xs - (if i < length xs then 1 else 0)"
  by (simp add: swap_remove_def)

lemma nth_swap_remove: "j \<noteq> i \<Longrightarrow> j < length (swap_remove i xs) \<Longrightarrow> swap_remove i xs ! j = xs ! j"
  by (auto simp: swap_remove_def nth_butlast split: if_splits)

text \<open>
  Indices collected before the removals stay those of the same edges or leave the list:
  only the collected edges can be removed.
\<close>

lemma swap_removes:
  assumes "distinct is" "\<forall>j\<in>set is. j < length xs \<longrightarrow> Q (xs ! j)"
  shows "mset (fold swap_remove is xs) \<subseteq># mset xs \<and> (\<forall>x\<in>set xs. x \<in> set (fold swap_remove is xs) \<or> Q x)"
  using assms
proof (induction "is" arbitrary: xs)
  case Nil
  then show ?case by simp
next
  case (Cons i "is")
  let ?ys = "swap_remove i xs"
  have "\<forall>j\<in>set is. j < length ?ys \<longrightarrow> Q (?ys ! j)"
  proof (intro ballI impI)
    fix j
    assume j: "j \<in> set is" "j < length ?ys"
    then have "j < length xs" "j \<noteq> i" using Cons.prems(1) by (auto simp: length_swap_remove split: if_splits)
    then show "Q (?ys ! j)" using nth_swap_remove[of j i xs] j Cons.prems(2) by simp
  qed
  from Cons.IH[OF _ this] Cons.prems(1) have IH: "mset (fold swap_remove is ?ys) \<subseteq># mset ?ys"
    "\<forall>x\<in>set ?ys. x \<in> set (fold swap_remove is ?ys) \<or> Q x" by auto
  show ?case
  proof (cases "i < length xs")
    case False
    then have "?ys = xs" by (simp add: swap_remove_def)
    then show ?thesis using IH by simp
  next
    case True
    note m = mset_swap_remove[OF True]
    have "x \<in> set ?ys \<or> Q x" if x: "x \<in> set xs" for x
    proof (cases "x = xs ! i")
      case False
      then have "x \<in># mset ?ys" using x by (simp add: m in_diff_count)
      then show ?thesis by simp
    qed (use Cons.prems(2) True in simp)
    moreover have "mset ?ys \<subseteq># mset xs" using m by simp
    ultimately show ?thesis using IH by (auto intro: subset_mset.order_trans)
  qed
qed

lemma swap_removes_le: "length (fold swap_remove is xs) \<le> length xs"
proof (induction "is" arbitrary: xs)
  case (Cons i "is")
  then show ?case using order_trans[OF Cons[of "swap_remove i xs"], of "length xs"] by (simp add: length_swap_remove)
qed simp

lemma swap_removes_less: "is \<noteq> [] \<Longrightarrow> hd is < length xs \<Longrightarrow> length (fold swap_remove is xs) < length xs"
  using swap_removes_le[of "tl is" "swap_remove (hd is) xs"] by (cases "is") (auto simp: length_swap_remove)

section \<open>The search for a chain\<close>

definition joined :: "(nat \<times> nat \<times> execution_edge) list \<Rightarrow> (nat \<times> nat) set" where
  "joined es = {(a, b). (a, b, Memory) \<in> set es \<or> (b, a, Memory) \<in> set es}"

text \<open>Edges are removed between searched tasks only, and no edge in memory is left at them.\<close>

definition cut :: "(nat \<times> nat \<times> execution_edge) list \<Rightarrow> (nat \<times> nat \<times> execution_edge) list \<Rightarrow> nat set \<Rightarrow> bool" where
  "cut es es' S \<longleftrightarrow> set es' \<subseteq> set es \<and> length es' \<le> length es
     \<and> (\<forall>(a, b, e)\<in>set es. (a, b, e) \<in> set es' \<or> e = Memory \<and> a \<in> S \<and> b \<in> S)"

definition clean :: "(nat \<times> nat \<times> execution_edge) list \<Rightarrow> nat set \<Rightarrow> bool" where
  "clean es S \<longleftrightarrow> (\<forall>x\<in>S. \<forall>y. (x, y) \<notin> joined es)"

lemma cut_refl: "cut es es S"
  by (auto simp: cut_def)

lemma cut_trans: "cut es es1 S \<Longrightarrow> cut es1 es2 S' \<Longrightarrow> S \<subseteq> R \<Longrightarrow> S' \<subseteq> R \<Longrightarrow> cut es es2 R"
  unfolding cut_def by (intro conjI) (blast, simp, fast)

lemma joined_mono: "set es' \<subseteq> set es \<Longrightarrow> joined es' \<subseteq> joined es"
  by (auto simp: joined_def)

lemma clean_mono: "clean es S \<Longrightarrow> set es' \<subseteq> set es \<Longrightarrow> clean es' S"
  using joined_mono unfolding clean_def by blast

lemma joined_sym: "(a, b) \<in> joined es \<Longrightarrow> (b, a) \<in> joined es"
  by (auto simp: joined_def)

section \<open>One step of the search\<close>

lemma fold_walk_pairs: "fold (\<lambda>(i, n) (ns, d). (ns @ [n], f d i)) l (ns, d) = (ns @ map snd l, fold (\<lambda>i d. f d i) (map fst l) d)"
  by (induction l arbitrary: ns d) (auto simp: split_beta)

lemma distinct_in_edges: "distinct (map fst (in_edges es v))"
proof -
  have "map fst (in_edges es v) = map fst (filter (\<lambda>(i, a, b, _). b = v) (enumerate 0 es))"
    by (auto simp: in_edges_def)
  moreover have "distinct (map fst (filter P (enumerate 0 es)))" for P
    by (simp add: distinct_map_filter)
  ultimately show ?thesis by simp
qed

lemma distinct_out_edges: "distinct (map fst (out_edges es v))"
proof -
  have "map fst (out_edges es v) = map fst (filter (\<lambda>(i, a, b, _). a = v) (enumerate 0 es))"
    by (auto simp: out_edges_def)
  then show ?thesis by (simp add: distinct_map_filter)
qed

context daggy_graph
begin

lemma parent_edge: "(i, c) \<in> set (dg_parents G g v) \<longleftrightarrow>
    (\<exists>e. i < length (dg_raw_edges G g) \<and> dg_raw_edges G g ! i = (c, v, e))"
proof -
  have "set (dg_parents G g v) = set (in_edges (dg_raw_edges G g) v)"
    using parents[of g v] by (metis set_mset_mset)
  moreover have "(i, c) \<in> set (in_edges es v) \<longleftrightarrow> (\<exists>e. (i, c, v, e) \<in> set (enumerate 0 es))"
    for es :: "(nat \<times> nat \<times> 'e) list"
    by (force simp: in_edges_def)
  ultimately show ?thesis by (simp add: in_set_enumerate_eq)
qed

lemma walks_distinct: "distinct (map fst (dg_parents G g v))" "distinct (map fst (dg_children G g v))"
  using arg_cong[OF parents[of g v], of "image_mset fst"] arg_cong[OF children[of g v], of "image_mset fst"]
    distinct_in_edges[of "dg_raw_edges G g" v] distinct_out_edges[of "dg_raw_edges G g" v]
  by (metis mset_map mset_eq_imp_distinct_iff)+

end

context execution_dag
begin

lemma memory_edges_eq:
  assumes "\<forall>(i, n)\<in>set w. i < length (dg_raw_edges E d)"
  shows "memory_edges E d w = Inr (filter (\<lambda>(i, n). snd (snd (dg_raw_edges E d ! i)) = Memory) w)"
proof -
  have "fold_res (\<lambda>(i, n) acc. rbind (dag_edge_index E d i) (\<lambda>e. Inr (case e of Memory \<Rightarrow> acc @ [(i, n)] | Network \<Rightarrow> acc))) w acc
      = Inr (acc @ filter (\<lambda>(i, n). snd (snd (dg_raw_edges E d ! i)) = Memory) w)" for acc
    using assms
  proof (induction w arbitrary: acc)
    case (Cons p w)
    obtain i n where p: "p = (i, n)" by force
    then have "dag_edge_index E d i = Inr (snd (snd (dg_raw_edges E d ! i)))"
      using Cons.prems by (simp add: dag_edge_index_def edge)
    then show ?case using Cons p by (cases "snd (snd (dg_raw_edges E d ! i))") simp_all
  qed simp
  from this[of "[]"] show ?thesis by (simp add: memory_edges_def)
qed

lemma raw_remove_edges:
  "dg_raw_edges E (fold (\<lambda>i d. dg_remove_edge E d i) is d) = fold swap_remove is (dg_raw_edges E d)"
  "dg_raw_nodes E (fold (\<lambda>i d. dg_remove_edge E d i) is d) = dg_raw_nodes E d"
  by (induction "is" arbitrary: d) (simp_all add: remove_edge)

lemma remove_memory_edges:
  assumes w: "\<And>i n. (i, n) \<in> set w \<Longrightarrow> \<exists>e. i < length (dg_raw_edges E d) \<and> dg_raw_edges E d ! i = at n e"
    and at: "\<And>n e. snd (snd (at n e)) = e" and dist: "distinct (map fst w)"
  defines "es \<equiv> dg_raw_edges E d"
  shows "\<exists>l. memory_edges E d w = Inr l \<and> map snd l = map snd (filter (\<lambda>(i, n). es ! i = at n Memory) w)
    \<and> (\<exists>d'. remove_edges E l d = (map snd l, d') \<and> dg_raw_nodes E d' = dg_raw_nodes E d
        \<and> mset (dg_raw_edges E d') \<subseteq># mset es \<and> (\<forall>x\<in>set es. x \<in> set (dg_raw_edges E d') \<or> x \<in> range (\<lambda>n. at n Memory))
        \<and> (l \<noteq> [] \<longrightarrow> length (dg_raw_edges E d') < length es) \<and> length (dg_raw_edges E d') \<le> length es)"
proof -
  let ?l = "filter (\<lambda>(i, n). snd (snd (es ! i)) = Memory) w"
  have l: "memory_edges E d w = Inr ?l" unfolding es_def using w by (intro memory_edges_eq) auto
  have mem: "es ! i = at n Memory" "i < length es" if "(i, n) \<in> set ?l" for i n
    using that w[of i n] at by (auto simp: es_def)
  have same: "?l = filter (\<lambda>(i, n). es ! i = at n Memory) w" using mem at by (intro filter_cong) auto
  let ?d = "fold (\<lambda>i d. dg_remove_edge E d i) (map fst ?l) d"
  have r: "remove_edges E ?l d = (map snd ?l, ?d)" by (simp add: remove_edges_def fold_walk_pairs)
  have "distinct (map fst ?l)" using dist by (rule distinct_map_filter)
  from swap_removes[OF this, where xs = es and Q = "\<lambda>x. x \<in> range (\<lambda>n. at n Memory)"] mem(1)
  have "mset (fold swap_remove (map fst ?l) es) \<subseteq># mset es"
    "\<forall>x\<in>set es. x \<in> set (fold swap_remove (map fst ?l) es) \<or> x \<in> range (\<lambda>n. at n Memory)" by fastforce+
  moreover have "?l \<noteq> [] \<Longrightarrow> hd (map fst ?l) < length es" using mem(2)[of "fst (hd ?l)" "snd (hd ?l)"] hd_in_set[of ?l]
    by (simp add: hd_map)
  ultimately show ?thesis using l r same swap_removes_less[of "map fst ?l" es] swap_removes_le[of "map fst ?l" es]
    by (intro exI[of _ ?l] conjI exI[of _ ?d]) (simp_all add: raw_remove_edges es_def[symmetric])
qed

end

section \<open>The search returns the joined tasks\<close>

context execution_dag
begin

lemma memory_step:
  assumes w: "\<And>i p. (i, p) \<in> set W \<longleftrightarrow> (\<exists>e. i < length (dg_raw_edges E d) \<and> dg_raw_edges E d ! i = at p e)"
    and at: "\<And>p e. snd (snd (at p e)) = e" and dist: "distinct (map fst W)"
    and ends: "\<And>p. at p Memory = (p, n, Memory) \<or> at p Memory = (n, p, Memory)"
  shows "\<exists>ps d'. rbind (memory_edges E d W) (\<lambda>l. Inr (remove_edges E l d)) = Inr (ps, d')
    \<and> dg_raw_nodes E d' = dg_raw_nodes E d \<and> set ps = {p. at p Memory \<in> set (dg_raw_edges E d)}
    \<and> cut (dg_raw_edges E d) (dg_raw_edges E d') (insert n (set ps))
    \<and> (ps \<noteq> [] \<longrightarrow> length (dg_raw_edges E d') < length (dg_raw_edges E d))"
proof -
  from remove_memory_edges[of W d at, OF w[THEN iffD1] at dist]
  obtain l d' where l: "memory_edges E d W = Inr l"
    "map snd l = map snd (filter (\<lambda>(i, p). dg_raw_edges E d ! i = at p Memory) W)"
    "remove_edges E l d = (map snd l, d')" "dg_raw_nodes E d' = dg_raw_nodes E d"
    "mset (dg_raw_edges E d') \<subseteq># mset (dg_raw_edges E d)"
    "\<forall>x\<in>set (dg_raw_edges E d). x \<in> set (dg_raw_edges E d') \<or> x \<in> range (\<lambda>p. at p Memory)"
    "l \<noteq> [] \<longrightarrow> length (dg_raw_edges E d') < length (dg_raw_edges E d)"
    "length (dg_raw_edges E d') \<le> length (dg_raw_edges E d)" by blast
  have ps: "set (map snd l) = {p. at p Memory \<in> set (dg_raw_edges E d)}"
  proof (intro equalityI subsetI)
    fix p
    assume "p \<in> set (map snd l)"
    then obtain i where "(i, p) \<in> set W" "dg_raw_edges E d ! i = at p Memory" unfolding l(2) by auto
    then show "p \<in> {p. at p Memory \<in> set (dg_raw_edges E d)}" using w[of i p] nth_mem[of i "dg_raw_edges E d"] by auto
  next
    fix p
    assume "p \<in> {p. at p Memory \<in> set (dg_raw_edges E d)}"
    then obtain i where i: "i < length (dg_raw_edges E d)" "dg_raw_edges E d ! i = at p Memory"
      by (auto simp: in_set_conv_nth)
    then have "(i, p) \<in> set W" using w by blast
    then show "p \<in> set (map snd l)" unfolding l(2) set_map set_filter using i(2) by force
  qed
  have "x \<in> set (dg_raw_edges E d') \<or> (\<exists>p\<in>set (map snd l). x = (p, n, Memory) \<or> x = (n, p, Memory))"
    if x: "x \<in> set (dg_raw_edges E d)" for x
  proof (cases "x \<in> set (dg_raw_edges E d')")
    case False
    then obtain p where p: "x = at p Memory" using l(6) x by auto
    then have "p \<in> set (map snd l)" using x unfolding ps by simp
    then show ?thesis using p ends[of p] by blast
  qed simp
  then have "cut (dg_raw_edges E d) (dg_raw_edges E d') (insert n (set (map snd l)))"
    unfolding cut_def using l(8) mset_subset_eqD[OF l(5)] by fastforce
  then show ?thesis using l(1,3,4,7) ps by (intro exI[of _ "map snd l"] exI[of _ d']) simp
qed

lemma get_parents_step:
  "\<exists>ps d'. get_parents E n d = Inr (ps, d') \<and> dg_raw_nodes E d' = dg_raw_nodes E d
    \<and> set ps = {p. (p, n, Memory) \<in> set (dg_raw_edges E d)}
    \<and> cut (dg_raw_edges E d) (dg_raw_edges E d') (insert n (set ps))
    \<and> (ps \<noteq> [] \<longrightarrow> length (dg_raw_edges E d') < length (dg_raw_edges E d))"
  unfolding get_parents_def
  by (rule memory_step[where at = "\<lambda>p e. (p, n, e)"]) (simp_all add: parent_edge walks_distinct)

lemma get_children_step:
  "\<exists>ps d'. get_children E n d = Inr (ps, d') \<and> dg_raw_nodes E d' = dg_raw_nodes E d
    \<and> set ps = {p. (n, p, Memory) \<in> set (dg_raw_edges E d)}
    \<and> cut (dg_raw_edges E d) (dg_raw_edges E d') (insert n (set ps))
    \<and> (ps \<noteq> [] \<longrightarrow> length (dg_raw_edges E d') < length (dg_raw_edges E d))"
  unfolding get_children_def
  by (rule memory_step[where at = "\<lambda>p e. (n, p, e)"]) (simp_all add: child_edge walks_distinct)

definition searched :: "'x \<Rightarrow> nat set \<Rightarrow> (nat list \<times> 'x) res option \<Rightarrow> nat list \<Rightarrow> bool" where
  "searched d starts r acc \<longleftrightarrow> (\<exists>ns d'. r = Some (Inr (acc @ ns, d')) \<and> dg_raw_nodes E d' = dg_raw_nodes E d
     \<and> starts \<subseteq> set ns \<and> (\<forall>x\<in>set ns. \<exists>n\<in>starts. (n, x) \<in> (joined (dg_raw_edges E d))\<^sup>*)
     \<and> cut (dg_raw_edges E d) (dg_raw_edges E d') (set ns) \<and> clean (dg_raw_edges E d') (set ns))"

definition walk :: "nat \<Rightarrow> nat \<Rightarrow> nat list \<times> 'x \<Rightarrow> (nat list \<times> 'x) res option" where
  "walk depth p = (\<lambda>(ns, d). obind (search depth E p d) (\<lambda>(ps, d). Some (Inr (ns @ ps, d))))"

lemma search_walk:
  "search (Suc depth) E n d = obind (Some (get_parents E n d)) (\<lambda>(ps, d).
     obind (fold_obind (walk depth) ps ([n], d)) (\<lambda>(ns, d).
     obind (Some (get_children E n d)) (\<lambda>(cs, d). fold_obind (walk depth) cs (ns, d))))"
  by (simp add: Let_def walk_def[abs_def])

lemma walk_searched:
  assumes IH: "\<And>n d. length (dg_raw_edges E d) < depth \<Longrightarrow> searched d {n} (search depth E n d) []"
    and len: "ps \<noteq> [] \<Longrightarrow> length (dg_raw_edges E d) < depth"
  shows "searched d (set ps) (fold_obind (walk depth) ps (acc, d)) acc"
  using len
proof (induction ps arbitrary: d acc)
  case Nil
  then show ?case by (auto simp: searched_def cut_refl clean_def)
next
  case (Cons p ps)
  from IH[of d p] Cons.prems obtain ns d1 where s: "search depth E p d = Some (Inr (ns, d1))"
    "dg_raw_nodes E d1 = dg_raw_nodes E d" "p \<in> set ns" "\<forall>x\<in>set ns. (p, x) \<in> (joined (dg_raw_edges E d))\<^sup>*"
    "cut (dg_raw_edges E d) (dg_raw_edges E d1) (set ns)" "clean (dg_raw_edges E d1) (set ns)"
    by (auto simp: searched_def)
  have sub: "set (dg_raw_edges E d1) \<subseteq> set (dg_raw_edges E d)" "length (dg_raw_edges E d1) \<le> length (dg_raw_edges E d)"
    using s(5) by (simp_all add: cut_def)
  from Cons.IH[of d1 "acc @ ns"] Cons.prems sub(2) obtain ms d2 where m:
    "fold_obind (walk depth) ps (acc @ ns, d1) = Some (Inr ((acc @ ns) @ ms, d2))"
    "dg_raw_nodes E d2 = dg_raw_nodes E d1" "set ps \<subseteq> set ms"
    "\<forall>x\<in>set ms. \<exists>n\<in>set ps. (n, x) \<in> (joined (dg_raw_edges E d1))\<^sup>*"
    "cut (dg_raw_edges E d1) (dg_raw_edges E d2) (set ms)" "clean (dg_raw_edges E d2) (set ms)"
    unfolding searched_def by fastforce
  have "\<forall>x\<in>set ms. \<exists>n\<in>set ps. (n, x) \<in> (joined (dg_raw_edges E d))\<^sup>*"
    using m(4) rtrancl_mono[OF joined_mono[OF sub(1)]] by blast
  moreover have "cut (dg_raw_edges E d) (dg_raw_edges E d2) (set (ns @ ms))" using cut_trans[OF s(5) m(5)] by auto
  moreover have "clean (dg_raw_edges E d2) (set (ns @ ms))"
    using m(5,6) clean_mono[OF s(6), of "dg_raw_edges E d2"] by (auto simp: clean_def cut_def)
  moreover have "fold_obind (walk depth) (p # ps) (acc, d) = Some (Inr (acc @ ns @ ms, d2))"
    using s(1) m(1) by (simp add: walk_def)
  ultimately show ?case unfolding searched_def using s(2-4) m(2,3)
    by (intro exI[of _ "ns @ ms"] exI[of _ d2]) auto
qed

lemma search_searched: "length (dg_raw_edges E d) < depth \<Longrightarrow> searched d {n} (search depth E n d) []"
proof (induction depth arbitrary: n d)
  case 0
  then show ?case by simp
next
  case (Suc depth)
  let ?es = "dg_raw_edges E d"
  obtain ps d1 where p: "get_parents E n d = Inr (ps, d1)" "dg_raw_nodes E d1 = dg_raw_nodes E d"
    "set ps = {p. (p, n, Memory) \<in> set ?es}" "cut ?es (dg_raw_edges E d1) (insert n (set ps))"
    "ps \<noteq> [] \<longrightarrow> length (dg_raw_edges E d1) < length ?es"
    using get_parents_step by blast
  from walk_searched[OF Suc.IH, of ps d1 "[n]"] p(5) Suc.prems obtain ns d2 where w:
    "fold_obind (walk depth) ps ([n], d1) = Some (Inr ([n] @ ns, d2))" "dg_raw_nodes E d2 = dg_raw_nodes E d1"
    "set ps \<subseteq> set ns" "\<forall>x\<in>set ns. \<exists>n\<in>set ps. (n, x) \<in> (joined (dg_raw_edges E d1))\<^sup>*"
    "cut (dg_raw_edges E d1) (dg_raw_edges E d2) (set ns)" "clean (dg_raw_edges E d2) (set ns)"
    unfolding searched_def by fastforce
  obtain cs d3 where c: "get_children E n d2 = Inr (cs, d3)" "dg_raw_nodes E d3 = dg_raw_nodes E d2"
    "set cs = {c. (n, c, Memory) \<in> set (dg_raw_edges E d2)}" "cut (dg_raw_edges E d2) (dg_raw_edges E d3) (insert n (set cs))"
    "cs \<noteq> [] \<longrightarrow> length (dg_raw_edges E d3) < length (dg_raw_edges E d2)"
    using get_children_step by blast
  have c12: "cut ?es (dg_raw_edges E d2) (insert n (set ns))" using cut_trans[OF p(4) w(5)] w(3) by auto
  have sub2: "set (dg_raw_edges E d2) \<subseteq> set ?es" "length (dg_raw_edges E d2) \<le> length ?es"
    using c12 by (simp_all add: cut_def)
  from walk_searched[OF Suc.IH, of cs d3 "[n] @ ns"] c(5) sub2(2) Suc.prems obtain ms d4 where m:
    "fold_obind (walk depth) cs ([n] @ ns, d3) = Some (Inr (([n] @ ns) @ ms, d4))" "dg_raw_nodes E d4 = dg_raw_nodes E d3"
    "set cs \<subseteq> set ms" "\<forall>x\<in>set ms. \<exists>n\<in>set cs. (n, x) \<in> (joined (dg_raw_edges E d3))\<^sup>*"
    "cut (dg_raw_edges E d3) (dg_raw_edges E d4) (set ms)" "clean (dg_raw_edges E d4) (set ms)"
    unfolding searched_def by fastforce
  let ?S = "insert n (set ns \<union> set ms)"
  have c24: "cut (dg_raw_edges E d2) (dg_raw_edges E d4) (insert n (set ms))" using cut_trans[OF c(4) m(5)] m(3) by auto
  have cut: "cut ?es (dg_raw_edges E d4) ?S" using cut_trans[OF c12 c24] by auto
  have sub4: "set (dg_raw_edges E d4) \<subseteq> set (dg_raw_edges E d2)" using c24 by (simp add: cut_def)
  have "(n, y) \<notin> joined (dg_raw_edges E d4)" for y
  proof
    assume "(n, y) \<in> joined (dg_raw_edges E d4)"
    then have y: "(y, n) \<in> joined (dg_raw_edges E d4)" "y \<in> set ps \<or> y \<in> set cs"
      using sub2(1) sub4 unfolding p(3) c(3) joined_def by auto
    then show False using w(3,6) m(3,6) joined_mono[OF sub4] unfolding clean_def by blast
  qed
  then have clean: "clean (dg_raw_edges E d4) ?S"
    using m(6) clean_mono[OF w(6) sub4] unfolding clean_def by blast
  have "(n, x) \<in> (joined ?es)\<^sup>*" if x: "x \<in> set ns \<or> x \<in> set ms" for x
  proof -
    have j1: "joined (dg_raw_edges E d1) \<subseteq> joined ?es" using p(4) by (intro joined_mono) (simp add: cut_def)
    have j3: "joined (dg_raw_edges E d3) \<subseteq> joined ?es" using c(4) sub2(1) by (intro joined_mono) (auto simp: cut_def)
    have "\<exists>q. (n, q) \<in> joined ?es \<and> (q, x) \<in> (joined ?es)\<^sup>*"
      using x w(4) m(4) rtrancl_mono[OF j1] rtrancl_mono[OF j3] p(3) c(3) sub2(1) unfolding joined_def by blast
    then show ?thesis by (meson converse_rtrancl_into_rtrancl)
  qed
  moreover have "search (Suc depth) E n d = Some (Inr ([] @ (n # ns @ ms), d4))"
    unfolding search_walk using p(1) w(1) c(1) m(1) by simp
  ultimately show ?case unfolding searched_def using cut clean p(2) w(2) c(2) m(2)
    by (intro exI[of _ "n # ns @ ms"] exI[of _ d4]) auto
qed

lemma searched_component:
  assumes n: "n \<in> S" "\<forall>x\<in>S. (n, x) \<in> (joined es)\<^sup>*" and c: "cut es es' S" "clean es' S"
  shows "S = (joined es)\<^sup>* `` {n}"
proof (intro equalityI subsetI)
  fix x
  assume "x \<in> (joined es)\<^sup>* `` {n}"
  then have "(n, x) \<in> (joined es)\<^sup>*" by simp
  then show "x \<in> S"
  proof (induction rule: rtrancl_induct)
    case base
    then show ?case by (rule n(1))
  next
    case (step y z)
    then have "(y, z) \<notin> joined es'" using c(2) by (simp add: clean_def)
    then show ?case using step.hyps(2) c(1) unfolding joined_def cut_def by fastforce
  qed
qed (use n(2) in blast)

text \<open>The search ends and returns the tasks joined to its start, whatever order the walkers take.\<close>

lemma search_component:
  "\<exists>ns d'. search (Suc (length (dg_raw_edges E d))) E n d = Some (Inr (ns, d'))
    \<and> set ns = (joined (dg_raw_edges E d))\<^sup>* `` {n}"
  using search_searched[of d "Suc (length (dg_raw_edges E d))" n] searched_component[of n]
  unfolding searched_def by fastforce

end

section \<open>The chains are the joined groups of tasks\<close>

definition component :: "(nat \<times> nat \<times> execution_edge) list \<Rightarrow> nat \<Rightarrow> nat set" where
  "component es n = (joined es)\<^sup>* `` {n}"

definition has_edge :: "(nat \<times> nat \<times> 'e) list \<Rightarrow> nat \<Rightarrow> bool" where
  "has_edge es x \<longleftrightarrow> (\<exists>y e. (x, y, e) \<in> set es \<or> (y, x, e) \<in> set es)"

definition in_range :: "(nat \<times> nat \<times> 'e) list \<Rightarrow> nat \<Rightarrow> bool" where
  "in_range es n \<longleftrightarrow> (\<forall>(a, b, e)\<in>set es. a < n \<and> b < n)"

text \<open>The tasks the chains are made of: all of them, unless some task has an edge.\<close>

definition attached :: "(nat \<times> nat \<times> 'e) list \<Rightarrow> nat \<Rightarrow> nat \<Rightarrow> bool" where
  "attached es n x \<longleftrightarrow> (if es = [] then x < n else has_edge es x)"

lemma joined_rtrancl_sym: "(a, b) \<in> (joined es)\<^sup>* \<Longrightarrow> (b, a) \<in> (joined es)\<^sup>*"
  by (metis converseI converse_converse joined_sym rtrancl_converseD rtrancl_converseI subrelI subset_antisym)

lemma component_self: "n \<in> component es n"
  by (simp add: component_def)

lemma component_eq: "x \<in> component es n \<Longrightarrow> component es x = component es n"
  using joined_rtrancl_sym unfolding component_def by (auto intro: rtrancl_trans)

lemma component_lone: "(\<And>y. (n, y) \<notin> joined es) \<Longrightarrow> component es n = {n}"
  unfolding component_def by (auto elim: converse_rtranclE)

lemma component_joined: "(x, y) \<in> joined es \<Longrightarrow> y \<in> component es x"
  by (auto simp: component_def)

lemma joined_has_edge: "(x, y) \<in> joined es \<Longrightarrow> has_edge es x"
  by (auto simp: joined_def has_edge_def)

lemma set_hs_insert [simp]: "set (hs_insert x s) = insert x (set s)"
  by (auto simp: hs_insert_def)

lemma distinct_hs_insert [simp]: "distinct (hs_insert x s) = distinct s"
  by (simp add: hs_insert_def)

lemma edge_sets_sets:
  assumes "edge_sets es = (A, F)"
  shows "set A = {x. has_edge es x}" "set F = {x. \<exists>y. (x, y) \<in> joined es}" "distinct A" "distinct F"
proof -
  let ?f = "\<lambda>(a, b, e) (A, F). (hs_insert b (hs_insert a A),
      case e of Memory \<Rightarrow> hs_insert b (hs_insert a F) | Network \<Rightarrow> F)"
  have "set (fst (fold ?f es (A, F))) = set A \<union> {x. has_edge es x}
      \<and> set (snd (fold ?f es (A, F))) = set F \<union> {x. \<exists>y. (x, y) \<in> joined es}
      \<and> (distinct A \<longrightarrow> distinct (fst (fold ?f es (A, F)))) \<and> (distinct F \<longrightarrow> distinct (snd (fold ?f es (A, F))))" for A F
  proof (induction es arbitrary: A F)
    case Nil
    then show ?case by (simp add: has_edge_def joined_def)
  next
    case (Cons p es)
    obtain a b e where p: "p = (a, b, e)" by (cases p)
    have h: "{x. has_edge (p # es) x} = {a, b} \<union> {x. has_edge es x}" by (auto simp: has_edge_def p)
    have j: "{x. \<exists>y. (x, y) \<in> joined (p # es)} = (case e of Memory \<Rightarrow> {a, b} | Network \<Rightarrow> {}) \<union> {x. \<exists>y. (x, y) \<in> joined es}"
      by (cases e) (auto simp: joined_def p)
    show ?case unfolding h j using Cons by (cases e) (auto simp: p)
  qed
  from this[of "[]" "[]"] assms show "set A = {x. has_edge es x}" "set F = {x. \<exists>y. (x, y) \<in> joined es}" "distinct A" "distinct F"
    by (simp_all add: edge_sets_def)
qed

definition chain_of :: "execution_node list \<Rightarrow> nat list \<Rightarrow> forward_task_chain" where
  "chain_of T is = \<lparr>ftc_tasks = map ((!) T) is\<rparr>"

text \<open>Index lists that are components and hold every index of a set once.\<close>

definition splits_into :: "(nat \<times> nat \<times> execution_edge) list \<Rightarrow> nat set \<Rightarrow> nat list list \<Rightarrow> bool" where
  "splits_into es F cs \<longleftrightarrow> (\<forall>c\<in>set cs. \<exists>n\<in>F. set c = component es n)
     \<and> (\<forall>x. length (filter (\<lambda>c. x \<in> set c) cs) = (if x \<in> F then 1 else 0))"

lemma splits_into_Cons:
  assumes cs: "splits_into es G cs" and ns: "G \<inter> set ns = {}" "set ns = component es n"
  shows "splits_into es (G \<union> set ns) (ns # cs)"
proof -
  have "\<exists>m\<in>G \<union> set ns. set c = component es m" if "c \<in> set (ns # cs)" for c
  proof (cases "c = ns")
    case True
    then show ?thesis using ns(2) component_self[of n es] by blast
  next
    case False
    then show ?thesis using that cs unfolding splits_into_def by fastforce
  qed
  moreover have "length (filter (\<lambda>c. x \<in> set c) (ns # cs)) = (if x \<in> G \<union> set ns then 1 else 0)" for x
  proof -
    have "length (filter (\<lambda>c. x \<in> set c) cs) = (if x \<in> G then 1 else 0)" using cs by (simp add: splits_into_def)
    then show ?thesis using ns(1) by (cases "x \<in> set ns") auto
  qed
  ultimately show ?thesis unfolding splits_into_def by blast
qed

context execution_dag
begin

lemma nodes_at_eq:
  assumes "\<forall>i\<in>set is. i < length (dg_raw_nodes E d)"
  shows "nodes_at E d is = Inr (map ((!) (dg_raw_nodes E d)) is)"
proof -
  have "fold_res (\<lambda>i acc. rbind (dag_index E d i) (\<lambda>n. Inr (acc @ [n]))) is acc = Inr (acc @ map ((!) (dg_raw_nodes E d)) is)"
    for acc using assms by (induction "is" arbitrary: acc) (simp_all add: index_in)
  from this[of "[]"] show ?thesis by (simp add: nodes_at_def)
qed

lemma forward_loop_chains:
  assumes P: "physic_orders_ok P" and range: "\<forall>x\<in>set F. x < length (dg_raw_nodes E d)"
    and closed: "\<forall>x\<in>set F. component (dg_raw_edges E d) x \<subseteq> set F"
  shows "\<exists>cs. forward_loop E P d F acc = Some (Inr (acc @ map (chain_of (dg_raw_nodes E d)) cs))
    \<and> splits_into (dg_raw_edges E d) (set F) cs"
  using range closed
proof (induction "length F" arbitrary: F acc rule: less_induct)
  case less
  let ?C = "component (dg_raw_edges E d)"
  have it: "set (po_nodes P F) = set F" using P by (simp add: physic_orders_ok_def iteration_order.set_it)
  show ?case
  proof (cases "po_nodes P F")
    case Nil
    then show ?thesis using it by (intro exI[of _ "[]"]) (simp add: forward_loop.simps splits_into_def)
  next
    case (Cons n rest)
    then have n: "n \<in> set F" using it by auto
    obtain ns d' where s: "search (Suc (length (dg_raw_edges E d))) E n d = Some (Inr (ns, d'))" "set ns = ?C n"
      using search_component[of d n] unfolding component_def by blast
    have sub: "set ns \<subseteq> set F" using s(2) less.prems(2) n by simp
    have at: "nodes_at E d ns = Inr (map ((!) (dg_raw_nodes E d)) ns)" using sub less.prems(1) by (intro nodes_at_eq) auto
    let ?F = "filter (\<lambda>x. x \<notin> set ns) F"
    have "n \<in> set ns" using s(2) component_self by simp
    then have shorter: "length ?F < length F" using n by (intro length_filter_less) auto
    have "?C x \<subseteq> set ?F" if x: "x \<in> set ?F" for x
    proof
      fix y
      assume y: "y \<in> ?C x"
      have "y \<notin> ?C n" using x component_eq[OF y] component_eq[of y _ n] component_self[of x] s(2) by auto
      then show "y \<in> set ?F" using y x less.prems(2) s(2) by auto
    qed
    then obtain cs where cs: "forward_loop E P d ?F (acc @ [chain_of (dg_raw_nodes E d) ns]) =
        Some (Inr ((acc @ [chain_of (dg_raw_nodes E d) ns]) @ map (chain_of (dg_raw_nodes E d)) cs))"
      "splits_into (dg_raw_edges E d) (set ?F) cs"
      using less.hyps[OF shorter, of "acc @ [chain_of (dg_raw_nodes E d) ns]"] less.prems(1) by auto
    have "forward_loop E P d F acc = Some (Inr (acc @ map (chain_of (dg_raw_nodes E d)) (ns # cs)))"
      using Cons s(1) at cs(1) by (subst forward_loop.simps) (simp add: chain_of_def del: search.simps)
    moreover have "splits_into (dg_raw_edges E d) (set F) (ns # cs)"
    proof -
      have "set ?F \<union> set ns = set F" using sub by auto
      then show ?thesis using splits_into_Cons[OF cs(2) _ s(2)] by auto
    qed
    ultimately show ?thesis by blast
  qed
qed

lemma merge_forward_task_chains:
  assumes P: "physic_orders_ok P" and range: "in_range (dg_raw_edges E (xg_dag g)) (length (dg_raw_nodes E (xg_dag g)))"
  shows "\<exists>cs. merge_forward_task E P g = Some (Inr (map (chain_of (dg_raw_nodes E (xg_dag g))) cs))
    \<and> splits_into (dg_raw_edges E (xg_dag g))
        {x. attached (dg_raw_edges E (xg_dag g)) (length (dg_raw_nodes E (xg_dag g))) x} cs"
proof -
  define T es where "T = dg_raw_nodes E (xg_dag g)" and "es = dg_raw_edges E (xg_dag g)"
  show ?thesis
  proof (cases "es = []")
    case True
    have one: "component es x = {x}" for x using True by (intro component_lone) (simp add: joined_def)
    have "length (filter (\<lambda>c. x \<in> set c) (map (\<lambda>x. [x]) [0..<n])) = (if x < n then 1 else 0)" for x n :: nat
      by (induction n) auto
    then have "splits_into es {x. attached es (length T) x} (map (\<lambda>x. [x]) [0..<length T])"
      using True one unfolding splits_into_def attached_def by auto
    moreover have "map (\<lambda>n. \<lparr>ftc_tasks = [n]\<rparr>) T = map (chain_of T) (map (\<lambda>x. [x]) [0..<length T])"
      by (intro nth_equalityI) (simp_all add: chain_of_def)
    ultimately show ?thesis using True unfolding merge_forward_task_def Let_def T_def[symmetric] es_def[symmetric]
      by (intro exI[of _ "map (\<lambda>x. [x]) [0..<length T]"]) simp
  next
    case False
    obtain A F where AF: "edge_sets es = (A, F)" by force
    note sets = edge_sets_sets[OF AF]
    have rng: "x < length T" if "has_edge es x" for x
      using range that unfolding in_range_def has_edge_def es_def T_def by fast
    have closed: "component es x \<subseteq> set F" if "x \<in> set F" for x
    proof
      fix y
      assume y: "y \<in> component es x"
      then have "(x, y) \<in> (joined es)\<^sup>*" by (simp add: component_def)
      then show "y \<in> set F" using that joined_sym unfolding sets(2) by (cases rule: rtranclE) blast+
    qed
    have "\<forall>x\<in>set F. x < length T" using rng joined_has_edge unfolding sets(2) by blast
    then obtain cs where cs: "forward_loop E P (xg_dag g) F [] = Some (Inr (map (chain_of T) cs))" "splits_into es (set F) cs"
      using forward_loop_chains[OF P, of F "xg_dag g" "[]"] closed by (auto simp: T_def es_def)
    let ?H = "filter (\<lambda>x. x \<notin> set F) (po_nodes P A)"
    have it: "set (po_nodes P A) = set A" "distinct (po_nodes P A)"
      using P sets(3) by (simp_all add: physic_orders_ok_def iteration_order.set_it iteration_order.distinct_it)
    have H: "nodes_at E (xg_dag g) ?H = Inr (map ((!) T) ?H)" unfolding T_def
      by (rule nodes_at_eq) (use it(1) sets(1) rng in \<open>simp add: T_def\<close>)
    have lone: "component es x = {x}" if "x \<notin> set F" for x using that sets(2) by (intro component_lone) auto
    have single: "length (filter (\<lambda>c. x \<in> set c) (map (\<lambda>x. [x]) xs)) = (if x \<in> set xs then 1 else 0)"
      if "distinct xs" for x :: nat and xs using that by (induction xs) auto
    have "\<exists>n\<in>{x. has_edge es x}. set c = component es n" if c: "c \<in> set (cs @ map (\<lambda>x. [x]) ?H)" for c
    proof (cases "c \<in> set cs")
      case True
      then obtain n where "n \<in> set F" "set c = component es n" using cs(2) unfolding splits_into_def by blast
      then show ?thesis using joined_has_edge unfolding sets(2) by blast
    next
      case False
      then obtain x where "c = [x]" "x \<in> set A" "x \<notin> set F" using c it(1) by auto
      then show ?thesis using lone sets(1) by auto
    qed
    moreover have "length (filter (\<lambda>c. x \<in> set c) (cs @ map (\<lambda>x. [x]) ?H)) = (if x \<in> {x. has_edge es x} then 1 else 0)" for x
    proof -
      have "length (filter (\<lambda>c. x \<in> set c) cs) = (if x \<in> set F then 1 else 0)" using cs(2) by (simp add: splits_into_def)
      moreover have "x \<in> set F \<Longrightarrow> has_edge es x" using joined_has_edge unfolding sets(2) by blast
      ultimately show ?thesis using single[of ?H x] it sets(1) unfolding filter_append length_append by auto
    qed
    ultimately have "splits_into es {x. has_edge es x} (cs @ map (\<lambda>x. [x]) ?H)" unfolding splits_into_def by blast
    moreover have "map (\<lambda>n. \<lparr>ftc_tasks = [n]\<rparr>) (map ((!) T) ?H) = map (chain_of T) (map (\<lambda>x. [x]) ?H)"
      by (simp add: chain_of_def)
    moreover have "merge_forward_task E P g = Some (Inr (map (chain_of T) cs @ map (\<lambda>n. \<lparr>ftc_tasks = [n]\<rparr>) (map ((!) T) ?H)))"
      using False AF H cs(1) by (simp add: merge_forward_task_def Let_def es_def[symmetric])
    ultimately show ?thesis using False unfolding T_def[symmetric] es_def[symmetric] attached_def
      by (intro exI[of _ "cs @ map (\<lambda>x. [x]) ?H"]) simp
  qed
qed

end

section \<open>Every chain goes to one worker\<close>

lemma mset_push_group:
  "mset (concat (map snd (AList.update j ((case map_of m j of None \<Rightarrow> [] | Some cs \<Rightarrow> cs) @ [c]) m)))
     = mset (concat (map snd m)) + {#c#}"
  by (induction m) auto

lemma min_by_key_Some: "xs \<noteq> [] \<Longrightarrow> \<exists>x. min_by_key f xs = Some x"
  by (cases xs) (simp_all split: option.split)

lemma group_chains:
  "\<forall>c\<in>set cs. ftc_tasks c \<noteq> [] \<Longrightarrow> \<exists>g'. fold_res add_to_group cs g = Inr g'
     \<and> mset (concat (map snd (pg_task_groups g'))) = mset (concat (map snd (pg_task_groups g))) + mset cs"
proof (induction cs arbitrary: g)
  case Nil
  then show ?case by simp
next
  case (Cons c cs)
  then obtain x where x: "min_by_key (\<lambda>x. t_job_id (en_task_id x)) (ftc_tasks c) = Some x"
    using min_by_key_Some by (metis list.set_intros(1))
  let ?m = "pg_task_groups g"
  let ?j = "t_job_id (en_task_id x)"
  let ?g = "g\<lparr>pg_task_groups := AList.update ?j ((case map_of ?m ?j of None \<Rightarrow> [] | Some cs \<Rightarrow> cs) @ [c]) ?m\<rparr>"
  have add: "add_to_group c g = Inr ?g" using x by (simp add: add_to_group_def chain_task_id_def Let_def)
  show ?case using Cons.IH[of ?g] Cons.prems mset_push_group[of ?j ?m c] by (simp add: add)
qed

lemma mset_map_lift: "mset ys = mset (map f xs) \<Longrightarrow> \<exists>xs'. mset xs' = mset xs \<and> ys = map f xs'"
proof (induction ys arbitrary: xs)
  case Nil
  then show ?case by simp
next
  case (Cons y ys)
  then have "y \<in># mset (map f xs)" by (metis list.set_intros(1) set_mset_mset)
  then obtain x where x: "x \<in> set xs" "f x = y" by auto
  have "mset xs = add_mset x (mset (remove1 x xs))" using x(1) by simp
  from arg_cong[OF this, of "image_mset f"] have "mset (map f xs) = add_mset y (mset (map f (remove1 x xs)))"
    using x(2) by (simp only: mset_map image_mset_add_mset)
  then have "mset ys = mset (map f (remove1 x xs))" using Cons.prems by simp
  from Cons.IH[OF this] obtain xs' where "mset xs' = mset (remove1 x xs)" "ys = map f xs'" by auto
  then show ?case using x by (intro exI[of _ "x # xs'"]) simp
qed

definition dealt :: "nat \<Rightarrow> nat \<Rightarrow> forward_task_chain list \<Rightarrow> task_instance list" where
  "dealt m k cs = concat (map (\<lambda>i. map task_instance_of (ftc_tasks (cs ! i))) (filter (\<lambda>i. i mod m = k) [0..<length cs]))"

lemma dealt_snoc: "dealt m k (cs @ [c]) = dealt m k cs @ (if length cs mod m = k then map task_instance_of (ftc_tasks c) else [])"
proof -
  have "concat (map (\<lambda>i. map task_instance_of (ftc_tasks ((cs @ [c]) ! i))) (filter (\<lambda>i. i mod m = k) [0..<length cs])) = dealt m k cs"
    unfolding dealt_def by (intro arg_cong[of _ _ concat] map_cong) (auto simp: nth_append)
  then show ?thesis by (simp add: dealt_def)
qed

lemma dealt_iff: "t \<in> set (dealt m k cs) \<longleftrightarrow> (\<exists>i<length cs. i mod m = k \<and> t \<in> task_instance_of ` set (ftc_tasks (cs ! i)))"
  by (auto simp: dealt_def)

lemma deal_chains:
  assumes "ws \<noteq> []" "\<forall>w\<in>set ws. wmi_task_instances w = []"
  shows "\<exists>ws'. fold_res deal_chain cs (0, ws) = Inr (length cs, ws') \<and> length ws' = length ws
    \<and> (\<forall>k<length ws. ws' ! k = (ws ! k)\<lparr>wmi_task_instances := dealt (length ws) k cs\<rparr>)"
proof (induction cs rule: rev_induct)
  case Nil
  have "(ws ! k)\<lparr>wmi_task_instances := []\<rparr> = ws ! k" if "k < length ws" for k
    using assms(2) nth_mem[OF that] by (metis worker_manager_instance.surjective worker_manager_instance.update_convs(2))
  then show ?case by (simp add: dealt_def)
next
  case (snoc c cs)
  then obtain ws' where w: "fold_res deal_chain cs (0, ws) = Inr (length cs, ws')" "length ws' = length ws"
    "\<forall>k<length ws. ws' ! k = (ws ! k)\<lparr>wmi_task_instances := dealt (length ws) k cs\<rparr>" by blast
  let ?i = "length cs mod length ws"
  have i: "?i < length ws" using assms(1) by simp
  have ne: "ws' \<noteq> []" using w(2) assms(1) by (metis length_0_conv)
  have "fold_res deal_chain (cs @ [c]) (0, ws) = Inr (length (cs @ [c]), ws'[?i :=
      (ws' ! ?i)\<lparr>wmi_task_instances := wmi_task_instances (ws' ! ?i) @ map task_instance_of (ftc_tasks c)\<rparr>])"
    using w(1,2) ne by (simp add: fold_res_append deal_chain_def Let_def)
  then show ?case using w(2,3) i by (auto simp: dealt_snoc nth_list_update)
qed

lemma deal_groups: "fold_res (\<lambda>(_, cs). fold_res deal_chain cs) gs st = fold_res deal_chain (concat (map snd gs)) st"
  by (induction gs arbitrary: st) (auto simp: fold_res_append rbind_def split: sum.splits)

lemma alloc_by_instance_deals:
  fixes P :: physic_orders and g :: physic_graph
  assumes "0 < cap (unat n)"
  defines "cs \<equiv> concat (map snd (po_groups P (pg_task_groups g)))"
  shows "\<exists>ws. alloc_by_instance cap P g n = Inr ws \<and> length ws = cap (unat n)
    \<and> (\<forall>k<length ws. wmi_task_instances (ws ! k) = dealt (length ws) k cs)"
proof -
  let ?ws = "map (\<lambda>index. \<lparr>wmi_worker_manager_id = ''worker_manager_'' @ show_nat index,
            wmi_task_instances = []\<rparr>) [0..<cap (unat n)]"
  from deal_chains[of ?ws cs] assms(1) obtain ws where "fold_res deal_chain cs (0, ?ws) = Inr (length cs, ws)"
    "length ws = cap (unat n)" "\<forall>k<cap (unat n). ws ! k = (?ws ! k)\<lparr>wmi_task_instances := dealt (cap (unat n)) k cs\<rparr>" by auto
  then show ?thesis by (intro exI[of _ ws]) (simp add: alloc_by_instance_def deal_groups cs_def)
qed

definition runs_on :: "worker_manager_instance list \<Rightarrow> nat \<Rightarrow> execution_node \<Rightarrow> bool" where
  "runs_on ws k t \<longleftrightarrow> k < length ws \<and> task_instance_of t \<in> set (wmi_task_instances (ws ! k))"

lemma chain_of_instance:
  assumes "distinct (map en_task_id T)" "x < length T" "\<forall>y\<in>set c. y < length T"
  shows "task_instance_of (T ! x) \<in> task_instance_of ` set (ftc_tasks (chain_of T c)) \<longleftrightarrow> x \<in> set c"
proof
  assume "task_instance_of (T ! x) \<in> task_instance_of ` set (ftc_tasks (chain_of T c))"
  then obtain y where y: "y \<in> set c" "task_instance_of (T ! x) = task_instance_of (T ! y)" by (auto simp: chain_of_def)
  then have "map en_task_id T ! x = map en_task_id T ! y" using assms(2,3) by (simp add: task_instance_of_def)
  then show "x \<in> set c" using y(1) assms nth_eq_iff_index_eq[OF assms(1)] by simp
qed (auto simp: chain_of_def)

lemma ex1_filter: "length (filter P xs) = 1 \<Longrightarrow> \<exists>!i. i < length xs \<and> P (xs ! i)"
proof -
  assume "length (filter P xs) = 1"
  then have "card {i. i < length xs \<and> P (xs ! i)} = 1" by (simp add: length_filter_conv_card)
  then obtain j where "{i. i < length xs \<and> P (xs ! i)} = {j}" by (rule card_1_singletonE)
  then show ?thesis by (intro ex1I[of _ j]) blast+
qed

context execution_dag
begin

text \<open>Where the chains of an execution graph go.\<close>

lemma chains_dealt:
  assumes P: "physic_orders_ok P" and cap: "0 < cap (unat n)"
    and range: "in_range (dg_raw_edges E (xg_dag g)) (length (dg_raw_nodes E (xg_dag g)))"
    and dist: "distinct (map en_task_id (dg_raw_nodes E (xg_dag g)))"
  shows "\<exists>pg ws cs. physic_graph_build E P g physic_graph_new = Some (Inr pg) \<and> alloc_by_instance cap P pg n = Inr ws
    \<and> length ws = cap (unat n)
    \<and> splits_into (dg_raw_edges E (xg_dag g)) {x. attached (dg_raw_edges E (xg_dag g)) (length (dg_raw_nodes E (xg_dag g))) x} cs
    \<and> (\<forall>x<length (dg_raw_nodes E (xg_dag g)). \<forall>k. runs_on ws k (dg_raw_nodes E (xg_dag g) ! x) \<longleftrightarrow>
        k < length ws \<and> (\<exists>i<length cs. i mod length ws = k \<and> x \<in> set (cs ! i)))"
proof -
  define T es where "T = dg_raw_nodes E (xg_dag g)" and "es = dg_raw_edges E (xg_dag g)"
  obtain css where css: "merge_forward_task E P g = Some (Inr (map (chain_of T) css))"
    "splits_into es {x. attached es (length T) x} css"
    using merge_forward_task_chains[OF P range] unfolding T_def es_def by blast
  have ne: "ftc_tasks c \<noteq> []" if c: "c \<in> set (map (chain_of T) css)" for c
  proof -
    obtain "is" where "is": "is \<in> set css" "c = chain_of T is" using c by auto
    then obtain m where "set is = component es m" using css(2) unfolding splits_into_def by blast
    then have "is \<noteq> []" using component_self[of m es] by auto
    then show ?thesis using "is"(2) by (simp add: chain_of_def)
  qed
  obtain pg where pg: "physic_graph_build E P g physic_graph_new = Some (Inr pg)"
    "mset (concat (map snd (pg_task_groups pg))) = mset (map (chain_of T) css)"
    using group_chains[of "map (chain_of T) css" physic_graph_new] ne css(1)
    by (auto simp: physic_graph_build_def physic_graph_new_def)
  let ?cs = "concat (map snd (po_groups P (pg_task_groups pg)))"
  have "mset (po_groups P (pg_task_groups pg)) = mset (pg_task_groups pg)"
    using P by (simp add: physic_orders_ok_def iteration_order.mset_it)
  then have "mset ?cs = mset (map (chain_of T) css)" using pg(2) mset_concat_perm[of _ "pg_task_groups pg" snd] by metis
  from mset_map_lift[OF this] obtain cs where cs: "mset cs = mset css" "?cs = map (chain_of T) cs" by blast
  have "set cs = set css" using cs(1) by (metis set_mset_mset)
  moreover have "length (filter Q cs) = length (filter Q css)" for Q using cs(1) by (metis mset_filter size_mset)
  ultimately have split: "splits_into es {x. attached es (length T) x} cs" using css(2) by (simp add: splits_into_def)
  have small: "y < length T" if c: "c \<in> set cs" "y \<in> set c" for c y
  proof -
    have "filter (\<lambda>c. y \<in> set c) cs \<noteq> []" using c by (auto simp: filter_empty_conv)
    then have "attached es (length T) y" using split unfolding splits_into_def
      by (metis (mono_tags, lifting) length_0_conv mem_Collect_eq)
    then show ?thesis using range unfolding attached_def has_edge_def in_range_def T_def[symmetric] es_def[symmetric]
      by (auto split: if_splits)
  qed
  obtain ws where ws: "alloc_by_instance cap P pg n = Inr ws" "length ws = cap (unat n)"
    "\<forall>k<length ws. wmi_task_instances (ws ! k) = dealt (length ws) k ?cs"
    using alloc_by_instance_deals[of cap n P pg] cap by blast
  have inst: "task_instance_of (T ! x) \<in> task_instance_of ` set (ftc_tasks (?cs ! i)) \<longleftrightarrow> x \<in> set (cs ! i)"
    if "x < length T" "i < length cs" for x i
    using chain_of_instance[OF dist[folded T_def] that(1), of "cs ! i"] small nth_mem[OF that(2)] that(2)
    unfolding cs(2) by auto
  have "runs_on ws k (T ! x) \<longleftrightarrow> k < length ws \<and> (\<exists>i<length cs. i mod length ws = k \<and> x \<in> set (cs ! i))"
    if x: "x < length T" for x k
  proof -
    have len: "length ?cs = length cs" using cs(2) by (metis length_map)
    have "task_instance_of (T ! x) \<in> set (dealt (length ws) k ?cs) \<longleftrightarrow>
        (\<exists>i<length cs. i mod length ws = k \<and> x \<in> set (cs ! i))"
      unfolding dealt_iff len by (simp add: inst[OF x] cong: conj_cong)
    then show ?thesis using ws(3) unfolding runs_on_def by auto
  qed
  then show ?thesis using pg(1) ws(1,2) split unfolding T_def es_def by blast
qed

lemma tasks_dealt:
  assumes "physic_orders_ok P" "0 < cap (unat n)"
    and "in_range (dg_raw_edges E (xg_dag g)) (length (dg_raw_nodes E (xg_dag g)))"
    and "distinct (map en_task_id (dg_raw_nodes E (xg_dag g)))"
  defines "T \<equiv> dg_raw_nodes E (xg_dag g)" and "es \<equiv> dg_raw_edges E (xg_dag g)"
  shows "\<exists>pg ws. physic_graph_build E P g physic_graph_new = Some (Inr pg) \<and> alloc_by_instance cap P pg n = Inr ws
    \<and> length ws = cap (unat n)
    \<and> (\<forall>x<length T. if attached es (length T) x then \<exists>!k. runs_on ws k (T ! x) else \<forall>k. \<not> runs_on ws k (T ! x))
    \<and> (\<forall>(x, y)\<in>joined es. \<forall>k. runs_on ws k (T ! x) = runs_on ws k (T ! y))"
proof -
  obtain pg ws cs where r: "physic_graph_build E P g physic_graph_new = Some (Inr pg)" "alloc_by_instance cap P pg n = Inr ws"
    "length ws = cap (unat n)" "splits_into es {x. attached es (length T) x} cs"
    "\<And>x k. x < length T \<Longrightarrow> runs_on ws k (T ! x) \<longleftrightarrow>
        k < length ws \<and> (\<exists>i<length cs. i mod length ws = k \<and> x \<in> set (cs ! i))"
    using chains_dealt[where cap = cap and n = n, OF assms(1-4)] unfolding T_def es_def by blast
  have ws: "0 < length ws" using r(3) assms(2) by simp
  have one: "\<exists>!k. runs_on ws k (T ! x)" if x: "x < length T" "attached es (length T) x" for x
  proof -
    have "length (filter (\<lambda>c. x \<in> set c) cs) = 1" using r(4) x(2) by (simp add: splits_into_def)
    from ex1_filter[OF this] obtain i where i: "i < length cs" "x \<in> set (cs ! i)"
      "\<And>j. j < length cs \<and> x \<in> set (cs ! j) \<Longrightarrow> j = i" by blast
    show ?thesis
    proof (rule ex1I[of _ "i mod length ws"])
      show "runs_on ws (i mod length ws) (T ! x)" using r(5)[OF x(1)] i(1,2) ws by auto
      fix k
      assume "runs_on ws k (T ! x)"
      then obtain j where "j < length cs" "j mod length ws = k" "x \<in> set (cs ! j)" using r(5)[OF x(1)] by blast
      then show "k = i mod length ws" using i(3) by blast
    qed
  qed
  have none: "\<not> runs_on ws k (T ! x)" if x: "x < length T" "\<not> attached es (length T) x" for x k
  proof -
    have "length (filter (\<lambda>c. x \<in> set c) cs) = 0" using r(4) x(2) by (simp add: splits_into_def)
    then show ?thesis using r(5)[OF x(1)] nth_mem[of _ cs] by (auto simp: filter_empty_conv)
  qed
  have "x \<in> set c \<longleftrightarrow> y \<in> set c" if xy: "(x, y) \<in> joined es" "c \<in> set cs" for x y c
  proof -
    obtain m where "set c = component es m" using r(4) xy(2) unfolding splits_into_def by blast
    then show ?thesis using component_eq component_joined[OF xy(1)] component_joined[OF joined_sym[OF xy(1)]] by metis
  qed
  moreover have "x < length T \<and> y < length T" if "(x, y) \<in> joined es" for x y
    using that assms(3) unfolding joined_def in_range_def T_def es_def by fastforce
  ultimately have "runs_on ws k (T ! x) = runs_on ws k (T ! y)" if "(x, y) \<in> joined es" for x y k
    using that r(5)[of x k] r(5)[of y k] nth_mem[of _ cs] by metis
  then show ?thesis using r(1-3) one none by auto
qed

end

end
