(* ===== verification/Dag_Manager.thy ===== *)
theory Dag_Manager
  imports Physic_Graph
begin

text \<open>
  The planner as a whole (\<open>rlink/src/dag/mod.rs\<close>): a program's plan becomes jobs, tasks
  and chains.  The properties: planning a program ends without a panic, and its tasks that
  have an edge each run on exactly one worker, together with the tasks they are joined to
  in memory; tasks without edges beside others are lost.
\<close>

section \<open>Planning\<close>

record ('g, 'h, 'x) dag_manager =
  dm_stream_graph :: "'g stream_graph"
  dm_job_graph :: "'h job_graph"
  dm_execution_graph :: "'x execution_graph"
  dm_physic_graph :: physic_graph

definition dag_manager_try_from ::
    "(stream_node, stream_edge, 'g) daggy \<Rightarrow> (job_node, job_edge, 'h) daggy \<Rightarrow>
     (execution_node, execution_edge, 'x) daggy \<Rightarrow> job_orders \<Rightarrow> execution_orders \<Rightarrow> physic_orders \<Rightarrow>
     'g raw_stream_graph \<Rightarrow> (dag_error failure + ('g, 'h, 'x) dag_manager) option" where
  "dag_manager_try_from G J E R X P raw =
     (let stream_graph = stream_graph_new (rg_sources raw) (rg_dag raw) in
      obind (job_graph_build G J R stream_graph (job_graph_new J)) (\<lambda>job_graph.
      obind (Some (execution_graph_build J E X job_graph (raw_operators raw) (execution_graph_new E))) (\<lambda>execution_graph.
      obind (lift_opanic (physic_graph_build E P execution_graph physic_graph_new)) (\<lambda>physic_graph.
      Some (Inr \<lparr>dm_stream_graph = stream_graph, dm_job_graph = job_graph,
        dm_execution_graph = execution_graph, dm_physic_graph = physic_graph\<rparr>)))))"

section \<open>The tasks of planned jobs\<close>

lemma task_of_inject:
  assumes "task_of n k = task_of m l" "k < unat (jn_parallelism n)" "l < unat (jn_parallelism m)"
  shows "jn_job_id n = jn_job_id m" "k = l"
proof -
  have "unat (jn_parallelism n) < 2 ^ LENGTH(16)" "unat (jn_parallelism m) < 2 ^ LENGTH(16)" by (rule unsigned_less)+
  then have b: "k < 65536" "l < 65536" using assms(2,3) by simp_all
  have "(of_nat k :: u16) = of_nat l" using assms(1) by (simp add: task_of_def)
  then have "unat (of_nat k :: u16) = unat (of_nat l :: u16)" by simp
  then show "k = l" using b by (simp add: unat_of_nat)
  show "jn_job_id n = jn_job_id m" using assms(1) by (simp add: task_of_def)
qed

lemma distinct_job_tasks: "distinct (map jn_job_id ns) \<Longrightarrow> distinct (map fst (concat (map job_tasks ns)))"
proof (induction ns)
  case Nil
  then show ?case by simp
next
  case (Cons n ns)
  have "distinct (map fst (job_tasks n))"
    by (auto simp: job_tasks_def comp_def distinct_map intro!: inj_onI dest: task_of_inject(2))
  moreover have "set (map fst (job_tasks n)) \<inter> set (map fst (concat (map job_tasks ns))) = {}"
    using Cons.prems by (force simp: job_tasks_def dest: task_of_inject(1))
  ultimately show ?case using Cons by simp
qed

lemma distinct_task_ids:
  assumes "mset (map task_view T) = mset (concat (map job_tasks ns))" "distinct (map jn_job_id ns)"
  shows "distinct (map en_task_id T)"
proof -
  have "mset (map fst (map task_view T)) = mset (map fst (concat (map job_tasks ns)))" using assms(1) by (metis mset_map)
  moreover have "map fst (map task_view T) = map en_task_id T" by (simp add: task_view_def)
  ultimately show ?thesis using distinct_job_tasks[OF assms(2)] mset_eq_imp_distinct_iff by metis
qed

section \<open>Planning a program\<close>

lemma program_tasks_ok:
  assumes "daggy_graph G" "daggy_graph J" "daggy_graph E" "job_orders_ok R" "execution_orders_ok X"
    and "api_all G cs (raw_stream_graph_new G, []) = Some (Inr (g, []))"
    and "\<forall>c\<in>set cs. schema_safe (call_fn c)" "sum_list (map call_cost cs) < 2 ^ 32"
    and "\<forall>n\<in>set (dg_raw_nodes G (rg_dag g)).
      sn_operator_type n = Source \<and> sn_parent_ids n = [] \<longrightarrow> 0 < sn_parallelism n"
    and jg: "job_graph_build G J R (stream_graph_new (rg_sources g) (rg_dag g)) (job_graph_new J) = Some (Inr jg)"
  shows "case execution_graph_build J E X jg (raw_operators g) (execution_graph_new E) of
      Inl e \<Rightarrow> split_failure e
    | Inr xg \<Rightarrow> in_range (dg_raw_edges E (xg_dag xg)) (length (dg_raw_nodes E (xg_dag xg)))
        \<and> distinct (map en_task_id (dg_raw_nodes E (xg_dag xg)))"
proof -
  let ?N = "dg_raw_nodes G (rg_dag g)"
  have J: "job_dag J" and E: "execution_dag E" using assms(2,3) by (simp_all add: job_dag_def execution_dag_def)
  from program_plan[OF assms(1,6-8)] have ok: "nodes_ok ?N (rg_operators g)" and closed: "pipelined ?N {}"
    by (simp_all add: open_nodes_def)
  from program_jobs[OF assms(1,2,4,6-9)] jg obtain xs where xs: "jobs_ready ?N xs"
    "job_dag.visited J (map snd xs) {(a, c). a < length xs \<and> c \<in> set (jn_child_job_ids (map snd xs ! a))} (Inr jg)"
    by auto
  have "job_dag.rising (map snd xs)"
    by (rule plan_jobs_rising[OF ok closed]) (use xs(1) in \<open>auto simp: jobs_ready_def\<close>)
  then have d: "distinct (map jn_job_id (map snd xs))" by (simp add: job_dag.rising_def[OF J])
  show ?thesis
  proof (cases "execution_graph_build J E X jg (raw_operators g) (execution_graph_new E)")
    case (Inl e)
    then show ?thesis using execution_graph_of_jobs[OF J E assms(5) ok closed xs] by simp
  next
    case (Inr xg)
    from execution_graph_of_jobs[OF J E assms(5) ok closed xs, unfolded Inr sum.case]
    have "in_range (dg_raw_edges E (xg_dag xg)) (length (dg_raw_nodes E (xg_dag xg)))"
      "distinct (map en_task_id (dg_raw_nodes E (xg_dag xg)))"
      using distinct_task_ids[OF _ d] by (fastforce simp: in_range_def between_def)+
    then show ?thesis by (simp add: Inr)
  qed
qed

lemma planned_physic_graph:
  assumes E: "execution_dag E" and P: "physic_orders_ok P"
    and xg: "in_range (dg_raw_edges E (xg_dag xg)) (length (dg_raw_nodes E (xg_dag xg)))"
      "distinct (map en_task_id (dg_raw_nodes E (xg_dag xg)))"
  defines "T \<equiv> dg_raw_nodes E (xg_dag xg)" and "es \<equiv> dg_raw_edges E (xg_dag xg)"
  shows "\<exists>pg. physic_graph_build E P xg physic_graph_new = Some (Inr pg) \<and> (\<forall>cap n. 0 < cap (unat n) \<longrightarrow>
    (\<exists>ws. alloc_by_instance cap P pg n = Inr ws \<and> length ws = cap (unat n)
    \<and> (\<forall>x<length T. if attached es (length T) x then \<exists>!k. runs_on ws k (T ! x) else \<forall>k. \<not> runs_on ws k (T ! x))
    \<and> (\<forall>(x, y)\<in>joined es. \<forall>k. runs_on ws k (T ! x) = runs_on ws k (T ! y))))"
proof -
  note t = execution_dag.tasks_dealt[OF E P, where g = xg, OF _ xg, folded T_def es_def]
  obtain pg where pg: "physic_graph_build E P xg physic_graph_new = Some (Inr pg)"
    using t[where cap = "\<lambda>_. 1" and n = 1] by auto
  show ?thesis using t unfolding pg by (intro exI[of _ pg] conjI refl allI impI) fastforce
qed

lemma dag_manager_from_parts:
  assumes "job_graph_build G J R (stream_graph_new (rg_sources g) (rg_dag g)) (job_graph_new J) = Some (Inr jg)"
    "execution_graph_build J E X jg (raw_operators g) (execution_graph_new E) = Inr xg"
    "physic_graph_build E P xg physic_graph_new = Some (Inr pg)"
  shows "dag_manager_try_from G J E R X P g = Some (Inr \<lparr>dm_stream_graph = stream_graph_new (rg_sources g) (rg_dag g),
    dm_job_graph = jg, dm_execution_graph = xg, dm_physic_graph = pg\<rparr>)"
  using assms by (simp add: dag_manager_try_from_def Let_def lift_opanic_def)

lemma program_planned:
  assumes "daggy_graph G" "daggy_graph J" "daggy_graph E" "job_orders_ok R" "execution_orders_ok X" "physic_orders_ok P"
    and "api_all G cs (raw_stream_graph_new G, []) = Some (Inr (g, []))"
    and "\<forall>c\<in>set cs. schema_safe (call_fn c)" "sum_list (map call_cost cs) < 2 ^ 32"
    and "\<forall>n\<in>set (dg_raw_nodes G (rg_dag g)).
      sn_operator_type n = Source \<and> sn_parent_ids n = [] \<longrightarrow> 0 < sn_parallelism n"
  shows "\<exists>r. dag_manager_try_from G J E R X P g = Some r
    \<and> (case r of
        Inl e \<Rightarrow> e = Failed ReduceOutputParallelismConflict \<or> split_failure e
      | Inr dm \<Rightarrow> (let T = dg_raw_nodes E (xg_dag (dm_execution_graph dm));
                      es = dg_raw_edges E (xg_dag (dm_execution_graph dm)) in
          \<forall>cap n. 0 < cap (unat n) \<longrightarrow> (\<exists>ws. alloc_by_instance cap P (dm_physic_graph dm) n = Inr ws \<and> length ws = cap (unat n)
          \<and> (\<forall>x<length T. if attached es (length T) x then \<exists>!k. runs_on ws k (T ! x) else \<forall>k. \<not> runs_on ws k (T ! x))
          \<and> (\<forall>(x, y)\<in>joined es. \<forall>k. runs_on ws k (T ! x) = runs_on ws k (T ! y)))))"
proof -
  have J: "job_dag J" and E: "execution_dag E" using assms(2,3) by (simp_all add: job_dag_def execution_dag_def)
  obtain xs :: "(job_id, job_node) hmap" and r where r: "job_graph_build G J R (stream_graph_new (rg_sources g) (rg_dag g)) (job_graph_new J) = Some r"
    and v: "job_dag.visited J (map snd xs) {(a, c). a < length xs \<and> c \<in> set (jn_child_job_ids (map snd xs ! a))} r"
    using program_jobs[OF assms(1,2,4,7-10)] by blast
  show ?thesis
  proof (cases r)
    case (Inl e)
    then show ?thesis using r v
      by (simp add: dag_manager_try_from_def job_dag.visited_def[OF J] job_dag.conflict_def[OF J])
  next
    case (Inr jg)
    note x = program_tasks_ok[OF assms(1-5,7-10) r[unfolded Inr]]
    show ?thesis
    proof (cases "execution_graph_build J E X jg (raw_operators g) (execution_graph_new E)")
      case (Inl e)
      then show ?thesis using r x \<open>r = Inr jg\<close> by (simp add: dag_manager_try_from_def)
    next
      case (Inr xg)
      with x have x': "in_range (dg_raw_edges E (xg_dag xg)) (length (dg_raw_nodes E (xg_dag xg)))"
        "distinct (map en_task_id (dg_raw_nodes E (xg_dag xg)))" by simp_all
      from planned_physic_graph[OF E assms(6) x'] obtain pg where "physic_graph_build E P xg physic_graph_new = Some (Inr pg)"
        "\<forall>cap n. 0 < cap (unat n) \<longrightarrow> (\<exists>ws. alloc_by_instance cap P pg n = Inr ws \<and> length ws = cap (unat n)
          \<and> (\<forall>x<length (dg_raw_nodes E (xg_dag xg)). if attached (dg_raw_edges E (xg_dag xg)) (length (dg_raw_nodes E (xg_dag xg))) x
              then \<exists>!k. runs_on ws k (dg_raw_nodes E (xg_dag xg) ! x) else \<forall>k. \<not> runs_on ws k (dg_raw_nodes E (xg_dag xg) ! x))
          \<and> (\<forall>(x, y)\<in>joined (dg_raw_edges E (xg_dag xg)). \<forall>k.
              runs_on ws k (dg_raw_nodes E (xg_dag xg) ! x) = runs_on ws k (dg_raw_nodes E (xg_dag xg) ! y)))" by blast
      with dag_manager_from_parts[OF r[unfolded \<open>r = Inr jg\<close>] Inr] show ?thesis by (simp add: Let_def)
    qed
  qed
qed

definition example_physic_orders :: physic_orders where
  "example_physic_orders = \<lparr>po_nodes = rev, po_groups = rev\<rparr>"

lemma example_physic_orders_ok: "physic_orders_ok example_physic_orders"
  by (simp add: physic_orders_ok_def example_physic_orders_def reverse_order.iteration_order_axioms)

text \<open>Two pipelines: a source with its own sink, and a windowed reduction.\<close>

definition two_pipelines :: "api_call list" where
  "two_pipelines = [RegisterSource 1 task_fn, CallAddSink (id_of 0) task_fn,
     RegisterSource 1 task_fn, CallKeyBy (id_of 2) task_fn, CallWindow (id_of 3) task_fn,
     CallReduce (id_of 6) 2 task_fn, CallAddSink (id_of 7) task_fn]"

definition plan_pipelines where
  "plan_pipelines g = dag_manager_try_from list_graph_ops list_graph_ops list_graph_ops example_orders
     example_task_orders example_physic_orders g"

lemma two_pipelines_planned:
  "case api_all list_graph_ops two_pipelines (raw_stream_graph_new list_graph_ops, []) of
     Some (Inr st) \<Rightarrow> snd st = [] \<and> list_all (\<lambda>n. sn_operator_type n = Source \<and> sn_parent_ids n = [] \<longrightarrow>
       0 < sn_parallelism n) (lg_nodes (rg_dag (fst st)))
     \<and> (case plan_pipelines (fst st) of
          Some (Inr dm) \<Rightarrow> (let T = lg_nodes (xg_dag (dm_execution_graph dm)); es = lg_edges (xg_dag (dm_execution_graph dm)) in
            length T = 6 \<and> length es = 4 \<and> list_all (\<lambda>(a, b, e). a \<noteq> 0 \<and> b \<noteq> 0) es)
        | _ \<Rightarrow> False)
   | _ \<Rightarrow> False"
  by code_simp

lemma two_pipelines_facts:
  "\<forall>c\<in>set two_pipelines. schema_safe (call_fn c)" "sum_list (map call_cost two_pipelines) < 2 ^ 32"
  by (simp_all add: two_pipelines_def task_fn_def example_fn_def schema_safe_def)

lemma two_pipelines_dag:
  obtains g dm where "api_all list_graph_ops two_pipelines (raw_stream_graph_new list_graph_ops, []) = Some (Inr (g, []))"
    "\<forall>n\<in>set (dg_raw_nodes list_graph_ops (rg_dag g)).
       sn_operator_type n = Source \<and> sn_parent_ids n = [] \<longrightarrow> 0 < sn_parallelism n"
    "dag_manager_try_from list_graph_ops list_graph_ops list_graph_ops example_orders example_task_orders
       example_physic_orders g = Some (Inr dm)"
    "length (lg_nodes (xg_dag (dm_execution_graph dm))) = 6"
    "lg_edges (xg_dag (dm_execution_graph dm)) \<noteq> []" "\<not> has_edge (lg_edges (xg_dag (dm_execution_graph dm))) 0"
proof -
  have raw: "dg_raw_nodes list_graph_ops = lg_nodes" by (simp add: list_graph_ops_def)
  show thesis
    using two_pipelines_planned that unfolding some_cases inr_cases list_all_iff plan_pipelines_def Let_def raw has_edge_def
    by fastforce
qed



text \<open>
  C11: a pipeline that fits into one job is lost beside a larger one.  As soon as some task has
  an edge, merging the tasks looks at edges only: a task without edges is in no chain and no
  worker ever runs it, although the planner reports no error.
\<close>

theorem isolated_task_lost:
  assumes "daggy_graph G" "daggy_graph J" "daggy_graph E" "job_orders_ok R" "execution_orders_ok X" "physic_orders_ok P"
    and "api_all G cs (raw_stream_graph_new G, []) = Some (Inr (g, []))"
    and "\<forall>c\<in>set cs. schema_safe (call_fn c)" "sum_list (map call_cost cs) < 2 ^ 32"
    and "\<forall>n\<in>set (dg_raw_nodes G (rg_dag g)).
      sn_operator_type n = Source \<and> sn_parent_ids n = [] \<longrightarrow> 0 < sn_parallelism n"
    and "dag_manager_try_from G J E R X P g = Some (Inr dm)"
    and "x < length (dg_raw_nodes E (xg_dag (dm_execution_graph dm)))"
    and "dg_raw_edges E (xg_dag (dm_execution_graph dm)) \<noteq> []"
    and "\<not> has_edge (dg_raw_edges E (xg_dag (dm_execution_graph dm))) x" and "0 < cap (unat n)"
  shows "\<exists>ws. alloc_by_instance cap P (dm_physic_graph dm) n = Inr ws
    \<and> (\<forall>k. \<not> runs_on ws k (dg_raw_nodes E (xg_dag (dm_execution_graph dm)) ! x))"
  using program_planned[OF assms(1-10)] assms(11-15) by (auto simp: Let_def attached_def) metis

theorem isolated_task_lost_witness:
  "\<exists>g dm ws. api_all list_graph_ops two_pipelines (raw_stream_graph_new list_graph_ops, []) = Some (Inr (g, []))
     \<and> dag_manager_try_from list_graph_ops list_graph_ops list_graph_ops example_orders example_task_orders
         example_physic_orders g = Some (Inr dm)
     \<and> alloc_by_instance (\<lambda>n. n) example_physic_orders (dm_physic_graph dm) 2 = Inr ws
     \<and> (\<forall>k. \<not> runs_on ws k (lg_nodes (xg_dag (dm_execution_graph dm)) ! 0))"
proof -
  obtain g dm where g: "api_all list_graph_ops two_pipelines (raw_stream_graph_new list_graph_ops, []) = Some (Inr (g, []))"
    "\<forall>n\<in>set (dg_raw_nodes list_graph_ops (rg_dag g)).
       sn_operator_type n = Source \<and> sn_parent_ids n = [] \<longrightarrow> 0 < sn_parallelism n"
    "dag_manager_try_from list_graph_ops list_graph_ops list_graph_ops example_orders example_task_orders
       example_physic_orders g = Some (Inr dm)"
    "length (lg_nodes (xg_dag (dm_execution_graph dm))) = 6"
    "lg_edges (xg_dag (dm_execution_graph dm)) \<noteq> []" "\<not> has_edge (lg_edges (xg_dag (dm_execution_graph dm))) 0"
    by (rule two_pipelines_dag)
  have raw: "dg_raw_nodes list_graph_ops = lg_nodes" "dg_raw_edges list_graph_ops = lg_edges" by (simp_all add: list_graph_ops_def)
  have "\<exists>ws. alloc_by_instance (\<lambda>n. n) example_physic_orders (dm_physic_graph dm) 2 = Inr ws
    \<and> (\<forall>k. \<not> runs_on ws k (dg_raw_nodes list_graph_ops (xg_dag (dm_execution_graph dm)) ! 0))"
    by (rule isolated_task_lost[OF list_graph.daggy_graph_axioms list_graph.daggy_graph_axioms list_graph.daggy_graph_axioms
      example_job_orders_ok example_task_orders_ok example_physic_orders_ok g(1) two_pipelines_facts g(2,3)])
      (use g(4-6) in \<open>simp_all add: raw\<close>)
  then show ?thesis using g(1,3) unfolding raw by blast
qed

end
