(* ===== verification/Dag_Metadata.thy ===== *)
theory Dag_Metadata
  imports Dag_Manager
begin

text \<open>
  The plan as the coordinator sends it to the workers (\<open>rlink/src/dag/utils.rs\<close>,
  \<open>rlink/src/dag/metadata.rs\<close>): each graph becomes a list of nodes and edges named by
  strings, and the workers look up parents and children in it.  The properties: a lookup
  never panics, and it returns exactly the neighbours in the graph, edge by edge.
\<close>

section \<open>Graphs as lists\<close>

record 'n json_node =
  jsn_id :: string
  jsn_detail :: 'n

record 'e json_edge =
  jse_source :: string
  jse_target :: string
  jse_detail :: 'e

record ('n, 'e) json_dag =
  jsd_nodes :: "'n json_node list"
  jsd_edges :: "'e json_edge list"

definition crate_json_node :: "('n, 'e, 'g) daggy \<Rightarrow> 'g \<Rightarrow> nat \<Rightarrow> 'n json_node res" where
  "crate_json_node G dag node_index = rbind (dag_index G dag node_index) (\<lambda>n.
     Inr \<lparr>jsn_id = show_nat node_index, jsn_detail = n\<rparr>)"

definition json_add_edge ::
    "('n, 'e, 'g) daggy \<Rightarrow> 'g \<Rightarrow> nat \<times> nat \<times> 'e \<Rightarrow> (string, 'n json_node) hmap \<times> 'e json_edge list \<Rightarrow>
     ((string, 'n json_node) hmap \<times> 'e json_edge list) res" where
  "json_add_edge G dag = (\<lambda>(a, b, weight) (node_map, edges).
     rbind (crate_json_node G dag a) (\<lambda>source_json_node.
     rbind (crate_json_node G dag b) (\<lambda>target_json_node.
     Inr (AList.update (jsn_id target_json_node) target_json_node
            (AList.update (jsn_id source_json_node) source_json_node node_map),
          edges @ [\<lparr>jse_source = jsn_id source_json_node, jse_target = jsn_id target_json_node, jse_detail = weight\<rparr>]))))"

definition json_all_nodes :: "'n list \<Rightarrow> (string, 'n json_node) hmap" where
  "json_all_nodes ns = snd (fold (\<lambda>node (n, node_map).
     let json_node = \<lparr>jsn_id = show_nat n, jsn_detail = node\<rparr>
     in (n + 1, AList.update (jsn_id json_node) json_node node_map)) ns (0, []))"

text \<open>\<open>it\<close> is the order in which the hash map of nodes is drained.\<close>

definition json_dag_from ::
    "((string \<times> 'n json_node) list \<Rightarrow> (string \<times> 'n json_node) list) \<Rightarrow> ('n, 'e, 'g) daggy \<Rightarrow> 'g \<Rightarrow> ('n, 'e) json_dag res" where
  "json_dag_from it G dag = rbind
     (if length (dg_raw_edges G dag) > 0 then fold_res (json_add_edge G dag) (dg_raw_edges G dag) ([], [])
      else Inr (json_all_nodes (dg_raw_nodes G dag), []))
     (\<lambda>(node_map, edges). Inr \<lparr>jsd_nodes = map snd (it node_map), jsd_edges = edges\<rparr>)"

section \<open>Lookups\<close>

definition get_node :: "('n, 'e) json_dag \<Rightarrow> string \<Rightarrow> 'n json_node option" where
  "get_node j i = find (\<lambda>node. jsn_id node = i) (jsd_nodes j)"

definition gets_edge ::
    "('n, 'e) json_dag \<Rightarrow> string \<Rightarrow> bool \<Rightarrow> 'e json_edge \<Rightarrow> ('n json_node \<times> 'e json_edge) list \<Rightarrow>
     ('n json_node \<times> 'e json_edge) list res" where
  "gets_edge j node_id parent e acc =
     (if parent
      then if jse_target e = node_id
           then rbind (unwrap (get_node j (jse_source e))) (\<lambda>node. Inr (acc @ [(node, e)])) else Inr acc
      else if jse_source e = node_id
           then rbind (unwrap (get_node j (jse_target e))) (\<lambda>node. Inr (acc @ [(node, e)])) else Inr acc)"

definition gets :: "('n, 'e) json_dag \<Rightarrow> string \<Rightarrow> bool \<Rightarrow> ('n json_node \<times> 'e json_edge) list res" where
  "gets j node_id parent = fold_res (gets_edge j node_id parent) (jsd_edges j) []"

definition json_parents :: "('n, 'e) json_dag \<Rightarrow> string \<Rightarrow> ('n json_node \<times> 'e json_edge) list res" where
  "json_parents j i = gets j i True"

definition json_children :: "('n, 'e) json_dag \<Rightarrow> string \<Rightarrow> ('n json_node \<times> 'e json_edge) list res" where
  "json_children j i = gets j i False"

section \<open>The metadata of a plan\<close>

record dag_metadata =
  dmd_stream_graph :: "(stream_node, stream_edge) json_dag"
  dmd_job_graph :: "(job_node, job_edge) json_dag"
  dmd_execution_graph :: "(execution_node, execution_edge) json_dag"

record metadata_orders =
  mo_stream :: "(string, stream_node json_node) hmap \<Rightarrow> (string, stream_node json_node) hmap"
  mo_job :: "(string, job_node json_node) hmap \<Rightarrow> (string, job_node json_node) hmap"
  mo_execution :: "(string, execution_node json_node) hmap \<Rightarrow> (string, execution_node json_node) hmap"

definition metadata_orders_ok :: "metadata_orders \<Rightarrow> bool" where
  "metadata_orders_ok M \<longleftrightarrow> iteration_order (mo_stream M) \<and> iteration_order (mo_job M) \<and> iteration_order (mo_execution M)"

definition dag_metadata_from ::
    "(stream_node, stream_edge, 'g) daggy \<Rightarrow> (job_node, job_edge, 'h) daggy \<Rightarrow>
     (execution_node, execution_edge, 'x) daggy \<Rightarrow> metadata_orders \<Rightarrow> ('g, 'h, 'x) dag_manager \<Rightarrow> dag_metadata res" where
  "dag_metadata_from G J E M dm =
     rbind (json_dag_from (mo_stream M) G (sg_dag (dm_stream_graph dm))) (\<lambda>s.
     rbind (json_dag_from (mo_job M) J (jg_dag (dm_job_graph dm))) (\<lambda>j.
     rbind (json_dag_from (mo_execution M) E (xg_dag (dm_execution_graph dm))) (\<lambda>x.
     Inr \<lparr>dmd_stream_graph = s, dmd_job_graph = j, dmd_execution_graph = x\<rparr>)))"

definition get_stream_node :: "dag_metadata \<Rightarrow> operator_id \<Rightarrow> stream_node json_node option" where
  "get_stream_node m i = find (\<lambda>node. sn_id (jsn_detail node) = i) (jsd_nodes (dmd_stream_graph m))"

definition metadata_stream_node :: "dag_metadata \<Rightarrow> operator_id \<Rightarrow> stream_node option" where
  "metadata_stream_node m i = map_option jsn_detail (get_stream_node m i)"

definition get_job_node :: "dag_metadata \<Rightarrow> job_id \<Rightarrow> job_node json_node option" where
  "get_job_node m i = find (\<lambda>node. jn_job_id (jsn_detail node) = i) (jsd_nodes (dmd_job_graph m))"

definition metadata_job_node :: "dag_metadata \<Rightarrow> job_id \<Rightarrow> job_node option" where
  "metadata_job_node m i = map_option jsn_detail (get_job_node m i)"

definition details :: "('n json_node \<times> 'e json_edge) list \<Rightarrow> ('n \<times> 'e) list" where
  "details xs = map (\<lambda>(node, edge). (jsn_detail node, jse_detail edge)) xs"

definition job_parents :: "dag_metadata \<Rightarrow> job_id \<Rightarrow> (job_node \<times> job_edge) list res" where
  "job_parents m child_job_id = (case get_job_node m child_job_id of
     Some node \<Rightarrow> rbind (json_parents (dmd_job_graph m) (jsn_id node)) (\<lambda>xs. Inr (details xs))
   | None \<Rightarrow> Inr [])"

definition job_children :: "dag_metadata \<Rightarrow> job_id \<Rightarrow> (job_node \<times> job_edge) list res" where
  "job_children m parent_job_id = (case get_job_node m parent_job_id of
     Some node \<Rightarrow> rbind (json_children (dmd_job_graph m) (jsn_id node)) (\<lambda>xs. Inr (details xs))
   | None \<Rightarrow> Inr [])"

definition get_execution_node :: "dag_metadata \<Rightarrow> task_id \<Rightarrow> execution_node json_node option" where
  "get_execution_node m t = find (\<lambda>node. en_task_id (jsn_detail node) = t) (jsd_nodes (dmd_execution_graph m))"

definition execution_parents :: "dag_metadata \<Rightarrow> task_id \<Rightarrow> (execution_node \<times> execution_edge) list res" where
  "execution_parents m child_task_id = (case get_execution_node m child_task_id of
     Some node \<Rightarrow> rbind (json_parents (dmd_execution_graph m) (jsn_id node)) (\<lambda>xs. Inr (details xs))
   | None \<Rightarrow> Inr [])"

definition execution_children :: "dag_metadata \<Rightarrow> task_id \<Rightarrow> (execution_node \<times> execution_edge) list res" where
  "execution_children m parent_task_id = (case get_execution_node m parent_task_id of
     Some node \<Rightarrow> rbind (json_children (dmd_execution_graph m) (jsn_id node)) (\<lambda>xs. Inr (details xs))
   | None \<Rightarrow> Inr [])"

section \<open>The lists hold the graph\<close>

definition json_node_at :: "'n list \<Rightarrow> nat \<Rightarrow> 'n json_node" where
  "json_node_at ns i = \<lparr>jsn_id = show_nat i, jsn_detail = ns ! i\<rparr>"

definition json_edge_of :: "nat \<times> nat \<times> 'e \<Rightarrow> 'e json_edge" where
  "json_edge_of = (\<lambda>(a, b, e). \<lparr>jse_source = show_nat a, jse_target = show_nat b, jse_detail = e\<rparr>)"

definition json_holds :: "'n list \<Rightarrow> (nat \<times> nat \<times> 'e) list \<Rightarrow> ('n, 'e) json_dag \<Rightarrow> bool" where
  "json_holds ns es j \<longleftrightarrow> jsd_edges j = map json_edge_of es \<and> in_range es (length ns) \<and> distinct (map jsn_id (jsd_nodes j))
     \<and> set (jsd_nodes j) = json_node_at ns ` {x. attached es (length ns) x}"

definition node_map_of :: "'n list \<Rightarrow> nat set \<Rightarrow> (string, 'n json_node) hmap \<Rightarrow> bool" where
  "node_map_of ns A m \<longleftrightarrow> hm_ok m \<and> set m = (\<lambda>i. (show_nat i, json_node_at ns i)) ` A"

lemma node_map_of_update:
  assumes "node_map_of ns A m"
  shows "node_map_of ns (insert i A) (AList.update (show_nat i) (json_node_at ns i) m)"
proof -
  let ?m = "AList.update (show_nat i) (json_node_at ns i) m"
  have ok: "hm_ok m" "hm_ok ?m" using assms hm_ok_update by (auto simp: node_map_of_def)
  have "p \<in> set ?m \<longleftrightarrow> p \<in> insert (show_nat i, json_node_at ns i) (set m)" for p
  proof (cases p)
    case (Pair k v)
    have "map_of ?m k = Some v \<longleftrightarrow> (k = show_nat i \<and> v = json_node_at ns i) \<or> (k \<noteq> show_nat i \<and> map_of m k = Some v)"
      by auto
    moreover have "(show_nat i, v) \<in> set m \<Longrightarrow> v = json_node_at ns i" using assms by (auto simp: node_map_of_def)
    moreover have "(k, v) \<in> set ?m \<longleftrightarrow> map_of ?m k = Some v" "(k, v) \<in> set m \<longleftrightarrow> map_of m k = Some v"
      using map_of_eq_Some_iff[of ?m k v] map_of_eq_Some_iff[of m k v] ok unfolding hm_ok_def by blast+
    ultimately show ?thesis unfolding Pair insert_iff prod.inject by blast
  qed
  then show ?thesis using assms ok unfolding node_map_of_def by auto
qed

lemma json_all_nodes_map: "node_map_of ns {..<length ns} (json_all_nodes ns)"
proof -
  let ?f = "\<lambda>node (n, node_map). let json_node = \<lparr>jsn_id = show_nat n, jsn_detail = node\<rparr>
     in (n + 1, AList.update (jsn_id json_node) json_node node_map)"
  have "fst (fold ?f (take k ns) (0, [])) = k \<and> node_map_of ns {..<k} (snd (fold ?f (take k ns) (0, [])))"
    if "k \<le> length ns" for k
    using that
  proof (induction k)
    case 0
    then show ?case by (simp add: node_map_of_def hm_ok_def)
  next
    case (Suc k)
    then obtain m where m: "fold ?f (take k ns) (0, []) = (k, m)" "node_map_of ns {..<k} m"
      by (cases "fold ?f (take k ns) (0, [])") auto
    have "fold ?f (take (Suc k) ns) (0, []) = (Suc k, AList.update (show_nat k) (json_node_at ns k) m)"
      using m(1) Suc.prems by (simp add: take_Suc_conv_app_nth json_node_at_def)
    then show ?case using node_map_of_update[OF m(2), of k] by (simp add: lessThan_Suc)
  qed
  from this[of "length ns"] show ?thesis by (simp add: json_all_nodes_def)
qed

context daggy_graph
begin

lemma json_edges_map:
  assumes "in_range es (length (dg_raw_nodes G d))" "node_map_of (dg_raw_nodes G d) A m"
  shows "\<exists>m'. fold_res (json_add_edge G d) es (m, acc) = Inr (m', acc @ map json_edge_of es)
    \<and> node_map_of (dg_raw_nodes G d) (A \<union> {x. has_edge es x}) m'"
  using assms
proof (induction es arbitrary: A m acc)
  case Nil
  then show ?case by (simp add: has_edge_def)
next
  case (Cons p es)
  obtain a b e where p: "p = (a, b, e)" by (cases p)
  let ?ns = "dg_raw_nodes G d"
  have "a < length ?ns" "b < length ?ns" using Cons.prems(1) by (auto simp: in_range_def p)
  then have add: "json_add_edge G d p (m, acc) = Inr (AList.update (show_nat b) (json_node_at ?ns b)
      (AList.update (show_nat a) (json_node_at ?ns a) m), acc @ [json_edge_of p])"
    by (simp add: json_add_edge_def crate_json_node_def index_in p json_node_at_def json_edge_of_def)
  have "in_range es (length ?ns)" using Cons.prems(1) by (simp add: in_range_def)
  from Cons.IH[OF this node_map_of_update[OF node_map_of_update[OF Cons.prems(2), of a], of b], of "acc @ [json_edge_of p]"]
  obtain m' where m': "fold_res (json_add_edge G d) (p # es) (m, acc) = Inr (m', acc @ map json_edge_of (p # es))"
    "node_map_of ?ns (insert b (insert a A) \<union> {x. has_edge es x}) m'"
    by (auto simp: add)
  have "insert b (insert a A) \<union> {x. has_edge es x} = A \<union> {x. has_edge (p # es) x}" by (auto simp: has_edge_def p)
  then show ?case using m' by auto
qed

lemma json_dag_from_holds:
  assumes it: "iteration_order it" and range: "in_range (dg_raw_edges G d) (length (dg_raw_nodes G d))"
  shows "\<exists>j. json_dag_from it G d = Inr j \<and> json_holds (dg_raw_nodes G d) (dg_raw_edges G d) j"
proof -
  let ?ns = "dg_raw_nodes G d" and ?es = "dg_raw_edges G d"
  let ?A = "{x. attached ?es (length ?ns) x}"
  obtain m where m: "(if length ?es > 0 then fold_res (json_add_edge G d) ?es ([], [])
      else Inr (json_all_nodes ?ns, [])) = Inr (m, map json_edge_of ?es)" "node_map_of ?ns ?A m"
  proof (cases "?es = []")
    case True
    have "{x. attached ?es (length ?ns) x} = {..<length ?ns}" using True by (auto simp: attached_def)
    then show ?thesis using json_all_nodes_map[of ?ns] True by (intro that[of "json_all_nodes ?ns"]) simp_all
  next
    case False
    from json_edges_map[OF range, of "{}" "[]" "[]"] False that show ?thesis
      by (auto simp: attached_def node_map_of_def hm_ok_def)
  qed
  let ?j = "\<lparr>jsd_nodes = map snd (it m), jsd_edges = map json_edge_of ?es\<rparr>"
  have "mset (map fst (it m)) = mset (map fst m)" using iteration_order.mset_it[OF it, of m] by (metis mset_map)
  then have "distinct (map fst (it m))"
    using m(2) mset_eq_imp_distinct_iff unfolding node_map_of_def hm_ok_def by blast
  moreover have "set (it m) = set m" by (rule iteration_order.set_it[OF it])
  moreover have "jsn_id (snd p) = fst p" if "p \<in> set m" for p using m(2) that by (auto simp: node_map_of_def json_node_at_def)
  ultimately have k: "map jsn_id (jsd_nodes ?j) = map fst (it m)" "distinct (map fst (it m))"
    "set (jsd_nodes ?j) = json_node_at ?ns ` ?A"
    using m(2) by (simp_all add: node_map_of_def image_image)
  have "json_holds ?ns ?es ?j" unfolding json_holds_def k(1,3) using range k(2) by simp
  moreover have "json_dag_from it G d = Inr ?j" unfolding json_dag_from_def m(1) by simp
  ultimately show ?thesis by blast
qed

end

lemma find_in_set: "distinct (map f xs) \<Longrightarrow> x \<in> set xs \<Longrightarrow> find (\<lambda>y. f y = f x) xs = Some x"
  by (induction xs) auto

lemma json_get_node:
  assumes "json_holds ns es j" "attached es (length ns) x"
  shows "get_node j (show_nat x) = Some (json_node_at ns x)"
  using find_in_set[of jsn_id "jsd_nodes j" "json_node_at ns x"] assms by (simp add: json_holds_def get_node_def json_node_at_def)

lemma json_find_node:
  assumes j: "json_holds ns es j" and k: "distinct (map k ns)" and x: "x < length ns"
  shows "find (\<lambda>node. k (jsn_detail node) = k (ns ! x)) (jsd_nodes j) =
    (if attached es (length ns) x then Some (json_node_at ns x) else None)"
proof -
  have small: "i < length ns" if "attached es (length ns) i" for i
    using that j by (fastforce simp: json_holds_def attached_def has_edge_def in_range_def split: if_splits)
  have eq: "k (jsn_detail (json_node_at ns i)) = k (ns ! x) \<longleftrightarrow> i = x" if "attached es (length ns) i" for i
    using nth_eq_iff_index_eq[OF k, of i x] x small[OF that] by (simp add: json_node_at_def)
  have same: "find (\<lambda>node. k (jsn_detail node) = k (ns ! x)) (jsd_nodes j) = find (\<lambda>node. jsn_id node = show_nat x) (jsd_nodes j)"
    by (rule find_cong[OF refl]) (use j eq in \<open>auto simp: json_holds_def json_node_at_def\<close>)
  show ?thesis
  proof (cases "attached es (length ns) x")
    case True
    then show ?thesis using same json_get_node[OF j] by (simp add: get_node_def)
  next
    case False
    then show ?thesis using j eq by (auto simp: find_None_iff json_holds_def)
  qed
qed

definition beside :: "bool \<Rightarrow> nat \<Rightarrow> (nat \<times> nat \<times> 'e) list \<Rightarrow> (nat \<times> 'e) list" where
  "beside parent x es = (if parent then map (\<lambda>(a, b, e). (a, e)) (filter (\<lambda>(a, b, e). b = x) es)
     else map (\<lambda>(a, b, e). (b, e)) (filter (\<lambda>(a, b, e). a = x) es))"

lemma gets_ok:
  assumes j: "json_holds ns es j" and x: "attached es (length ns) x"
  shows "\<exists>xs. gets j (show_nat x) parent = Inr xs \<and> details xs = map (\<lambda>(i, e). (ns ! i, e)) (beside parent x es)"
proof -
  have "\<exists>xs. fold_res (gets_edge j (show_nat x) parent) (map json_edge_of fs) acc = Inr (acc @ xs)
      \<and> details xs = map (\<lambda>(i, e). (ns ! i, e)) (beside parent x fs)" if "set fs \<subseteq> set es" for fs acc
    using that
  proof (induction fs arbitrary: acc)
    case Nil
    then show ?case by (simp add: details_def beside_def)
  next
    case (Cons p fs)
    obtain a b e where p: "p = (a, b, e)" by (cases p)
    then have "attached es (length ns) a" "attached es (length ns) b"
      using Cons.prems by (auto simp: attached_def has_edge_def)
    note n = json_get_node[OF j this(1)] json_get_node[OF j this(2)]
    let ?o = "if parent then a else b" and ?t = "if parent then b else a"
    let ?y = "(json_node_at ns ?o, json_edge_of p)"
    have step: "gets_edge j (show_nat x) parent (json_edge_of p) acc = Inr (if ?t = x then acc @ [?y] else acc)"
      using n by (auto simp: gets_edge_def json_edge_of_def p)
    show ?case
    proof (cases "?t = x")
      case True
      obtain xs where "fold_res (gets_edge j (show_nat x) parent) (map json_edge_of fs) (acc @ [?y]) = Inr ((acc @ [?y]) @ xs)"
        "details xs = map (\<lambda>(i, e). (ns ! i, e)) (beside parent x fs)" using Cons.IH Cons.prems by (metis insert_subset list.simps(15))
      then show ?thesis using True step p
        by (intro exI[of _ "?y # xs"], cases parent)
          (auto simp: details_def beside_def json_node_at_def json_edge_of_def)
    next
      case False
      obtain xs where "fold_res (gets_edge j (show_nat x) parent) (map json_edge_of fs) acc = Inr (acc @ xs)"
        "details xs = map (\<lambda>(i, e). (ns ! i, e)) (beside parent x fs)" using Cons.IH Cons.prems by (metis insert_subset list.simps(15))
      then show ?thesis using False step p by (intro exI[of _ xs], cases parent) (auto simp: beside_def)
    qed
  qed
  from this[of es "[]"] j show ?thesis by (auto simp: gets_def json_holds_def)
qed

lemma json_neighbours:
  assumes j: "json_holds ns es j" and k: "distinct (map k ns)" and x: "x < length ns"
  shows "(case find (\<lambda>node. k (jsn_detail node) = k (ns ! x)) (jsd_nodes j) of
      Some node \<Rightarrow> rbind (gets j (jsn_id node) parent) (\<lambda>xs. Inr (details xs)) | None \<Rightarrow> Inr [])
    = Inr (map (\<lambda>(i, e). (ns ! i, e)) (beside parent x es))"
proof (cases "attached es (length ns) x")
  case True
  then show ?thesis using json_find_node[OF j k x] gets_ok[OF j True, of parent] by (auto simp: json_node_at_def)
next
  case False
  then have "beside parent x es = []"
    using x by (auto simp: beside_def attached_def has_edge_def filter_empty_conv split: if_splits)
  then show ?thesis using json_find_node[OF j k x] False by simp
qed

section \<open>The metadata of a planned program\<close>

lemma dag_manager_parts:
  assumes "dag_manager_try_from G J E R X P g = Some (Inr dm)"
  shows "job_graph_build G J R (stream_graph_new (rg_sources g) (rg_dag g)) (job_graph_new J) = Some (Inr (dm_job_graph dm))"
    "execution_graph_build J E X (dm_job_graph dm) (raw_operators g) (execution_graph_new E) = Inr (dm_execution_graph dm)"
    "dm_stream_graph dm = stream_graph_new (rg_sources g) (rg_dag g)"
  using assms by (auto simp: dag_manager_try_from_def Let_def obind_Inr)

lemma plan_edges_in_range:
  assumes "nodes_ok N ops" "map (\<lambda>(a, b, _). (a, b)) es = plan_edges N"
  shows "in_range es (length N)"
proof -
  have "a < length N \<and> b < length N" if "(a, b) \<in> set (plan_edges N)" for a b
    using that assms(1) unfolding plan_edges_def parent_edges_def nodes_ok_def by fastforce
  moreover have "(a, b) \<in> set (plan_edges N)" if "(a, b, e) \<in> set es" for a b e
    using that unfolding assms(2)[symmetric] by force
  ultimately show ?thesis unfolding in_range_def by blast
qed

lemma planned_job_nodes:
  assumes J: "job_dag J" and ok: "nodes_ok N ops" and closed: "pipelined N {}" and r: "jobs_ready N xs"
    and v: "job_dag.visited J (map snd xs) {(a, c). a < length xs \<and> c \<in> set (jn_child_job_ids (map snd xs ! a))} (Inr jg)"
  shows "in_range (dg_raw_edges J (jg_dag jg)) (length (dg_raw_nodes J (jg_dag jg)))"
    "distinct (map jn_job_id (dg_raw_nodes J (jg_dag jg)))"
proof -
  have ns: "dg_raw_nodes J (jg_dag jg) = map snd xs" using v by (simp add: job_dag.visited_def[OF J] job_dag.jobs_in_def[OF J])
  show "in_range (dg_raw_edges J (jg_dag jg)) (length (dg_raw_nodes J (jg_dag jg)))"
    using v unfolding ns by (auto simp: job_dag.visited_def[OF J] job_dag.edges_for_def[OF J] in_range_def)
  have "job_dag.rising (map snd xs)"
    by (rule plan_jobs_rising[OF ok closed]) (use r in \<open>auto simp: jobs_ready_def\<close>)
  then show "distinct (map jn_job_id (dg_raw_nodes J (jg_dag jg)))" unfolding ns by (simp add: job_dag.rising_def[OF J])
qed

lemma task_lookup:
  "json_holds T es (dmd_execution_graph m) \<Longrightarrow> distinct (map en_task_id T) \<Longrightarrow> x < length T \<Longrightarrow>
     execution_parents m (en_task_id (T ! x)) = Inr (map (\<lambda>(i, e). (T ! i, e)) (beside True x es))
     \<and> execution_children m (en_task_id (T ! x)) = Inr (map (\<lambda>(i, e). (T ! i, e)) (beside False x es))"
  unfolding execution_parents_def execution_children_def get_execution_node_def json_parents_def json_children_def
  by (intro conjI json_neighbours) simp_all

lemma job_lookup:
  "json_holds ns es (dmd_job_graph m) \<Longrightarrow> distinct (map jn_job_id ns) \<Longrightarrow> x < length ns \<Longrightarrow>
     job_parents m (jn_job_id (ns ! x)) = Inr (map (\<lambda>(i, e). (ns ! i, e)) (beside True x es))
     \<and> job_children m (jn_job_id (ns ! x)) = Inr (map (\<lambda>(i, e). (ns ! i, e)) (beside False x es))"
  unfolding job_parents_def job_children_def get_job_node_def json_parents_def json_children_def
  by (intro conjI json_neighbours) simp_all

definition example_metadata_orders :: metadata_orders where
  "example_metadata_orders = \<lparr>mo_stream = rev, mo_job = rev, mo_execution = rev\<rparr>"

lemma example_metadata_orders_ok: "metadata_orders_ok example_metadata_orders"
  by (simp add: metadata_orders_ok_def example_metadata_orders_def reverse_order.iteration_order_axioms)



end
