(* ===== verification/Checkpoint_Storage.thy ===== *)
theory Checkpoint_Storage
  imports Runnables
begin

text \<open>
  Where the coordinator keeps finished checkpoints (\<open>rlink/src/storage/checkpoint\<close>): the
  memory storage, the MySQL storage and the dispatch between them.  The database is a
  parameter: a record with one function per SQL statement of the code, whose meaning (the
  meaning of the statement) is the locale \<open>checkpoint_db\<close>.
\<close>

section \<open>Memory storage\<close>

type_synonym memory_storage = "(checkpoint_id, checkpoint list) hmap"

definition memory_storage_new :: memory_storage where
  "memory_storage_new = []"

text \<open>
  \<open>it\<close> is the order in which the hash map iterates.  The second loop takes the indices
  below \<open>len - 100\<close> of a list with \<open>len\<close> entries, so its \<open>get\<close> is always in range.
\<close>

definition memory_save ::
    "(memory_storage \<Rightarrow> memory_storage) \<Rightarrow> memory_storage \<Rightarrow> checkpoint_id \<Rightarrow> checkpoint list \<Rightarrow>
     u64 \<Rightarrow> memory_storage" where
  "memory_save it history checkpoint_id finish_cks ttl =
     (let history = AList.update checkpoint_id finish_cks history in
      if ck_num checkpoint_id < ttl then history
      else
        let checkpoint_id_ttl = ck_num checkpoint_id - ttl;
            ttl_ck_ids = filter (\<lambda>c. ck_num c < checkpoint_id_ttl) (map fst (it history));
            history = fold AList.delete ttl_ck_ids history in
        if length history > 100
        then
          let ttl_ck_ids = sort_key ck_num (map fst (it history)) in
          fold AList.delete (map ((!) ttl_ck_ids) [0..<length history - 100]) history
        else history)"

definition memory_load :: "memory_storage \<Rightarrow> checkpoint list" where
  "memory_load history = []"

definition memory_load_by_checkpoint_id :: "memory_storage \<Rightarrow> checkpoint_id \<Rightarrow> checkpoint list" where
  "memory_load_by_checkpoint_id history checkpoint_id = []"

section \<open>MySQL storage\<close>

text \<open>A row of the table, with the columns the statements name.\<close>

record ck_row =
  r_application_name :: string
  r_application_id :: string
  r_job_id :: u32
  r_task_number :: u16
  r_num_tasks :: u16
  r_operator_id :: u32
  r_checkpoint_id :: u64
  r_completed_checkpoint_id :: u64
  r_handle :: string
  r_create_time :: string

text \<open>
  The database: connecting (\<open>Pool::new\<close> and \<open>get_conn\<close>), and the four statements; the
  second argument of a statement is the table's name.  A failed statement leaves a state
  of its own, about which nothing is known.
\<close>

record 'd mysql =
  my_conn :: "'d \<Rightarrow> string \<Rightarrow> string + unit"
  my_insert :: "'d \<Rightarrow> string \<Rightarrow> ck_row list \<Rightarrow> (string + unit) \<times> 'd"
  my_delete_before :: "'d \<Rightarrow> string \<Rightarrow> string \<Rightarrow> string \<Rightarrow> u64 \<Rightarrow> (string + unit) \<times> 'd"
  my_select_latest :: "'d \<Rightarrow> string \<Rightarrow> string \<Rightarrow> string \<Rightarrow> string + ck_row list"
  my_select_id :: "'d \<Rightarrow> string \<Rightarrow> string \<Rightarrow> string \<Rightarrow> u64 \<Rightarrow> string + ck_row list"

record mysql_storage =
  ms_url :: string
  ms_table :: string

definition DEFAULT_TABLE_NAME :: string where
  "DEFAULT_TABLE_NAME = ''rlink_ck''"

definition mysql_storage_new :: "string \<Rightarrow> string option \<Rightarrow> mysql_storage" where
  "mysql_storage_new url table = \<lparr>ms_url = url,
     ms_table = (case table of None \<Rightarrow> DEFAULT_TABLE_NAME | Some t \<Rightarrow> t)\<rparr>"

text \<open>\<open>now\<close> gives the formatted clock as it is read for each row.\<close>

definition to_row :: "string \<Rightarrow> string \<Rightarrow> checkpoint_id \<Rightarrow> string \<Rightarrow> checkpoint \<Rightarrow> ck_row" where
  "to_row application_name application_id checkpoint_id create_time p =
     \<lparr>r_application_name = application_name, r_application_id = application_id,
      r_job_id = job_num (t_job_id (ck_task_id p)),
      r_task_number = t_task_number (ck_task_id p),
      r_num_tasks = t_num_tasks (ck_task_id p),
      r_operator_id = op_num (ck_operator_id p),
      r_checkpoint_id = ck_num checkpoint_id,
      r_completed_checkpoint_id = ck_num (case ck_completed_checkpoint_id p of
        None \<Rightarrow> checkpoint_id_default | Some c \<Rightarrow> c),
      r_handle = ck_handle p, r_create_time = create_time\<rparr>"

definition of_row :: "ck_row \<Rightarrow> checkpoint" where
  "of_row r = \<lparr>ck_operator_id = OperatorId (r_operator_id r),
     ck_task_id = \<lparr>t_job_id = JobId (r_job_id r), t_task_number = r_task_number r,
       t_num_tasks = r_num_tasks r\<rparr>,
     ck_checkpoint_id = CheckpointId (r_checkpoint_id r),
     ck_completed_checkpoint_id = (if r_completed_checkpoint_id r = 0 then None
       else Some (CheckpointId (r_completed_checkpoint_id r))),
     ck_handle = r_handle r\<rparr>"

definition mysql_save ::
    "'d mysql \<Rightarrow> (nat \<Rightarrow> string) \<Rightarrow> 'd \<Rightarrow> mysql_storage \<Rightarrow> string \<Rightarrow> string \<Rightarrow> checkpoint_id \<Rightarrow>
     checkpoint list \<Rightarrow> u64 \<Rightarrow> (string + unit) \<times> 'd" where
  "mysql_save D now d s application_name application_id checkpoint_id finish_cks ttl =
     (case my_conn D d (ms_url s) of
        Inl e \<Rightarrow> (Inl e, d)
      | Inr _ \<Rightarrow>
          case my_insert D d (ms_table s)
            (map (\<lambda>(i, p). to_row application_name application_id checkpoint_id (now i) p)
              (enumerate 0 finish_cks)) of
            (Inl e, d) \<Rightarrow> (Inl e, d)
          | (Inr _, d) \<Rightarrow>
              if ck_num checkpoint_id < ttl then (Inr (), d)
              else my_delete_before D d (ms_table s) application_name application_id
                     (ck_num checkpoint_id - ttl))"

definition mysql_load ::
    "'d mysql \<Rightarrow> 'd \<Rightarrow> mysql_storage \<Rightarrow> string \<Rightarrow> string \<Rightarrow> string + checkpoint list" where
  "mysql_load D d s application_name application_id =
     rbind (my_conn D d (ms_url s)) (\<lambda>_.
     rbind (my_select_latest D d (ms_table s) application_name application_id) (\<lambda>rows.
     Inr (map of_row rows)))"

definition mysql_load_by_checkpoint_id ::
    "'d mysql \<Rightarrow> 'd \<Rightarrow> mysql_storage \<Rightarrow> string \<Rightarrow> string \<Rightarrow> checkpoint_id \<Rightarrow>
     string + checkpoint list" where
  "mysql_load_by_checkpoint_id D d s application_name application_id checkpoint_id =
     rbind (my_conn D d (ms_url s)) (\<lambda>_.
     rbind (my_select_id D d (ms_table s) application_name application_id (ck_num checkpoint_id)) (\<lambda>rows.
     Inr (map of_row rows)))"

section \<open>Dispatch\<close>

datatype checkpoint_backend = Memory | MySql string "string option"

datatype checkpoint_storage =
    MemoryCheckpointStorage memory_storage
  | MySqlCheckpointStorage mysql_storage

fun storage_new :: "checkpoint_backend \<Rightarrow> checkpoint_storage" where
  "storage_new Memory = MemoryCheckpointStorage memory_storage_new"
| "storage_new (MySql endpoint table) = MySqlCheckpointStorage (mysql_storage_new endpoint table)"

fun storage_save ::
    "'d mysql \<Rightarrow> (nat \<Rightarrow> string) \<Rightarrow> (memory_storage \<Rightarrow> memory_storage) \<Rightarrow> 'd \<Rightarrow> checkpoint_storage \<Rightarrow>
     string \<Rightarrow> string \<Rightarrow> checkpoint_id \<Rightarrow> checkpoint list \<Rightarrow> u64 \<Rightarrow>
     (string + unit) \<times> 'd \<times> checkpoint_storage" where
  "storage_save D now it d (MemoryCheckpointStorage h) application_name application_id checkpoint_id cks ttl =
     (Inr (), d, MemoryCheckpointStorage (memory_save it h checkpoint_id cks ttl))"
| "storage_save D now it d (MySqlCheckpointStorage s) application_name application_id checkpoint_id cks ttl =
     (let (r, d) = mysql_save D now d s application_name application_id checkpoint_id cks ttl in
      (r, d, MySqlCheckpointStorage s))"

fun storage_load ::
    "'d mysql \<Rightarrow> 'd \<Rightarrow> checkpoint_storage \<Rightarrow> string \<Rightarrow> string \<Rightarrow> string + checkpoint list" where
  "storage_load D d (MemoryCheckpointStorage h) application_name application_id =
     Inr (memory_load h)"
| "storage_load D d (MySqlCheckpointStorage s) application_name application_id =
     mysql_load D d s application_name application_id"

fun storage_load_by_checkpoint_id ::
    "'d mysql \<Rightarrow> 'd \<Rightarrow> checkpoint_storage \<Rightarrow> string \<Rightarrow> string \<Rightarrow> checkpoint_id \<Rightarrow>
     string + checkpoint list" where
  "storage_load_by_checkpoint_id D d (MemoryCheckpointStorage h) application_name application_id checkpoint_id =
     Inr (memory_load_by_checkpoint_id h checkpoint_id)"
| "storage_load_by_checkpoint_id D d (MySqlCheckpointStorage s) application_name application_id checkpoint_id =
     mysql_load_by_checkpoint_id D d s application_name application_id checkpoint_id"

section \<open>What a save keeps\<close>

lemma fold_delete_filter: "fold AList.delete ks m = filter (\<lambda>p. fst p \<notin> set ks) m"
proof (induction ks arbitrary: m)
  case Nil
  then show ?case by simp
next
  case (Cons k ks)
  have "AList.delete k m = filter (\<lambda>p. fst p \<noteq> k) m"
    by (auto simp: AList.delete_eq intro!: filter_cong)
  then show ?case by (simp add: Cons.IH conj_commute)
qed

lemma map_nth_take: "n \<le> length xs \<Longrightarrow> map ((!) xs) [0..<n] = take n xs"
  by (simp add: list_eq_iff_nth_eq)

lemma length_filter_keys:
  assumes "distinct (map fst m)" "distinct ks" "set ks \<subseteq> set (map fst m)"
  shows "length (filter (\<lambda>p. fst p \<notin> set ks) m) = length m - length ks"
proof -
  have "length (filter (\<lambda>p. fst p \<in> set ks) m) = card (fst ` {p \<in> set m. fst p \<in> set ks})"
    using assms(1) by (subst card_image)
      (auto simp: distinct_map distinct_length_filter Int_def conj_commute intro: inj_on_subset)
  also have "fst ` {p \<in> set m. fst p \<in> set ks} = set ks" using assms(3) by force
  also have "card (set ks) = length ks" by (rule distinct_card[OF assms(2)])
  finally show ?thesis using sum_length_filter_compl[of "\<lambda>p. fst p \<in> set ks" m] by simp
qed

definition oldest_ids :: "(memory_storage \<Rightarrow> memory_storage) \<Rightarrow> memory_storage \<Rightarrow> checkpoint_id list" where
  "oldest_ids it h = take (length h - 100) (sort_key ck_num (map fst (it h)))"

lemma memory_save_eq:
  assumes "iteration_order it" "ttl \<le> ck_num c"
  shows "memory_save it history c cks ttl =
    (let h = filter (\<lambda>p. ck_num c - ttl \<le> ck_num (fst p)) (AList.update c cks history) in
     filter (\<lambda>p. fst p \<notin> set (oldest_ids it h)) h)"
proof -
  have len: "length (it m) = length m" and st: "set (it m) = set m" for m
    by (rule iteration_order.length_it[OF assms(1)] iteration_order.set_it[OF assms(1)])+
  let ?u = "AList.update c cks history"
  let ?h = "filter (\<lambda>p. ck_num c - ttl \<le> ck_num (fst p)) ?u"
  have drop: "fold AList.delete (filter (\<lambda>k. ck_num k < ck_num c - ttl) (map fst (it ?u))) ?u = ?h"
    by (auto simp: fold_delete_filter st intro!: filter_cong)
  have "fold AList.delete (map ((!) (sort_key ck_num (map fst (it ?h)))) [0..<length ?h - 100]) ?h
      = filter (\<lambda>p. fst p \<notin> set (oldest_ids it ?h)) ?h"
    by (subst map_nth_take) (simp_all add: len fold_delete_filter oldest_ids_def)
  moreover have "\<not> 100 < length ?h \<Longrightarrow> filter (\<lambda>p. fst p \<notin> set (oldest_ids it ?h)) ?h = ?h"
    by (simp add: oldest_ids_def)
  ultimately show ?thesis
    using assms(2) unfolding memory_save_def Let_def drop by (simp add: not_less)
qed

lemma oldest_ids_props:
  assumes "iteration_order it" "hm_ok h"
  shows "distinct (oldest_ids it h)" "set (oldest_ids it h) \<subseteq> set (map fst h)"
    "length (oldest_ids it h) = length h - 100"
    "k \<in> set (oldest_ids it h) \<Longrightarrow> n \<in> set (map fst h) \<Longrightarrow> n \<notin> set (oldest_ids it h) \<Longrightarrow> k < n"
proof -
  define ids where "ids = sort_key ck_num (map fst (it h))"
  have "mset (map fst (it h)) = mset (map fst h)"
    by (simp add: iteration_order.mset_it[OF assms(1)])
  then have ms: "mset ids = mset (map fst h)" by (simp add: ids_def)
  then have st: "set ids = set (map fst h)" and len: "length ids = length h"
    by (metis set_mset_mset, metis size_mset length_map)
  have d: "distinct ids" using assms(2) ms by (metis hm_ok_def mset_eq_imp_distinct_iff)
  have old: "oldest_ids it h = take (length h - 100) ids" by (simp add: oldest_ids_def ids_def)
  show "distinct (oldest_ids it h)" "length (oldest_ids it h) = length h - 100"
    using d len by (simp_all add: old)
  show "set (oldest_ids it h) \<subseteq> set (map fst h)"
    unfolding old st[symmetric] by (rule set_take_subset)
  assume k: "k \<in> set (oldest_ids it h)" and n: "n \<in> set (map fst h)" "n \<notin> set (oldest_ids it h)"
  have split: "ids = take (length h - 100) ids @ drop (length h - 100) ids" by simp
  have "n \<in> set (drop (length h - 100) ids)"
    using n st split by (metis Un_iff old set_append)
  moreover have "sorted (map ck_num ids)" by (simp add: ids_def)
  then have "sorted (map ck_num (take (length h - 100) ids) @ map ck_num (drop (length h - 100) ids))"
    by (simp flip: map_append)
  ultimately have "ck_num k \<le> ck_num n"
    using k unfolding old sorted_append by simp
  moreover have "k \<noteq> n" using k n by blast
  ultimately show "k < n"
    by (metis checkpoint_id.expand le_neq_trans less_checkpoint_id_def)
qed

lemma filter_hm_ok: "hm_ok m \<Longrightarrow> hm_ok (filter P m)"
  by (simp add: hm_ok_def distinct_map_filter)

lemma map_of_filter_keys: "map_of (filter (\<lambda>p. P (fst p)) m) k = (if P k then map_of m k else None)"
  by (induction m) auto

section \<open>The bound on the memory storage\<close>

text \<open>
  A memory storage that saves a checkpoint whose number has reached the time to live
  (numbers are milliseconds of the epoch) then holds at most 100 checkpoints, none older
  than the time to live and none changed; a checkpoint within the time to live is dropped
  only when 100 newer ones are kept, so that with increasing numbers the saved one is kept.
\<close>

lemma memory_history_bounded:
  assumes "iteration_order it" "hm_ok history" "ttl \<le> ck_num c"
  shows "let h' = memory_save it history c cks ttl; m = (map_of history)(c \<mapsto> cks) in
    length h' \<le> 100
    \<and> (\<forall>k v. map_of h' k = Some v \<longrightarrow> m k = Some v \<and> ck_num c - ttl \<le> ck_num k)
    \<and> (\<forall>k\<in>dom m. ck_num c - ttl \<le> ck_num k \<longrightarrow> k \<notin> dom (map_of h') \<longrightarrow>
         length h' = 100 \<and> (\<forall>n\<in>dom (map_of h'). k < n))
    \<and> ((\<forall>k\<in>dom (map_of history). k \<le> c) \<longrightarrow> map_of h' c = Some cks)"
proof -
  define h where "h = filter (\<lambda>p. ck_num c - ttl \<le> ck_num (fst p)) (AList.update c cks history)"
  define h' where "h' = memory_save it history c cks ttl"
  let ?m = "(map_of history)(c \<mapsto> cks)"
  have ok: "hm_ok h" unfolding h_def by (intro filter_hm_ok hm_ok_update assms)
  note old = oldest_ids_props[OF assms(1) ok]
  have h': "h' = filter (\<lambda>p. fst p \<notin> set (oldest_ids it h)) h"
    by (simp add: h'_def h_def memory_save_eq[OF assms(1,3)] Let_def)
  have len: "length h' = length h - (length h - 100)"
    unfolding h' using length_filter_keys[OF _ old(1,2)] ok old(3) by (simp add: hm_ok_def)
  have mh: "map_of h k = (if ck_num c - ttl \<le> ck_num k then ?m k else None)" for k
    unfolding h_def map_of_filter_keys[of "\<lambda>k. ck_num c - ttl \<le> ck_num k"] by simp
  have mh': "map_of h' k = (if k \<in> set (oldest_ids it h) then None else map_of h k)" for k
    unfolding h' map_of_filter_keys[of "\<lambda>k. k \<notin> set (oldest_ids it h)"] by simp
  have dropped: "length h' = 100 \<and> (\<forall>n\<in>dom (map_of h'). k < n)"
    if "k \<in> dom ?m" "ck_num c - ttl \<le> ck_num k" "k \<notin> dom (map_of h')" for k
  proof
    have k: "k \<in> set (oldest_ids it h)" using that mh mh' by (auto simp: domIff split: if_splits)
    then have "0 < length (oldest_ids it h)" by (rule length_pos_if_in_set)
    then show "length h' = 100" using len old(3) by simp
    show "\<forall>n\<in>dom (map_of h'). k < n"
      using old(4)[OF k] by (auto simp: mh' dom_map_of_conv_image_fst h')
  qed
  have kept: "map_of h' c = Some cks" if le: "\<forall>k\<in>dom (map_of history). k \<le> c"
  proof (rule ccontr)
    assume "map_of h' c \<noteq> Some cks"
    moreover have "ck_num c - ttl \<le> ck_num c" using assms(3) by (rule word_sub_le)
    ultimately have n: "c \<notin> dom (map_of h')" "ck_num c - ttl \<le> ck_num c"
      using mh mh' by (auto split: if_splits)
    have "length h' = 100" and gt: "\<forall>n\<in>dom (map_of h'). c < n" using dropped[of c] n by auto
    then obtain p where "p \<in> set h'" by (metis length_greater_0_conv list.set_sel(1) zero_less_numeral)
    then have p: "fst p \<in> dom (map_of h')" by (simp add: dom_map_of_conv_image_fst)
    then have "fst p \<in> dom ?m" by (auto simp: mh mh' split: if_splits)
    then have "fst p \<le> c" using le by auto
    then show False using gt[THEN bspec, OF p] by simp
  qed
  have "length h' \<le> 100" using len by simp
  moreover have "\<forall>k v. map_of h' k = Some v \<longrightarrow> ?m k = Some v \<and> ck_num c - ttl \<le> ck_num k"
    using mh mh' by (auto split: if_splits)
  ultimately show ?thesis
    unfolding Let_def h'_def[symmetric] using dropped kept by blast
qed

section \<open>The database\<close>

text \<open>
  The meaning of the four statements, over the rows of a table as a multiset.  Nothing is
  promised about a statement that fails.
\<close>

definition of_app :: "string \<Rightarrow> string \<Rightarrow> ck_row \<Rightarrow> bool" where
  "of_app application_name application_id r \<longleftrightarrow>
     r_application_name r = application_name \<and> r_application_id r = application_id"

text \<open>
  A stored checkpoint carries the number it was saved under, and number 0 for a completed
  checkpoint reads back as none.
\<close>

definition stored :: "checkpoint_id \<Rightarrow> checkpoint \<Rightarrow> checkpoint" where
  "stored c p = p\<lparr>ck_checkpoint_id := c, ck_completed_checkpoint_id :=
     (if ck_completed_checkpoint_id p = Some checkpoint_id_default then None
      else ck_completed_checkpoint_id p)\<rparr>"

lemma of_row_to_row: "of_row (to_row a i c now p) = stored c p"
  by (cases c) (auto simp: of_row_def to_row_def stored_def checkpoint_id_default_def
    checkpoint_id.expand split: option.splits)

text \<open>The checkpoints an application has under a number.\<close>

definition saved :: "ck_row multiset \<Rightarrow> string \<Rightarrow> string \<Rightarrow> checkpoint_id \<Rightarrow> checkpoint multiset" where
  "saved T a i c = image_mset of_row
     (filter_mset (\<lambda>r. of_app a i r \<and> r_checkpoint_id r = ck_num c) T)"

lemma saved_plus: "saved (S + T) a i c = saved S a i c + saved T a i c"
  by (simp add: saved_def)

lemma of_app_to_row [simp]: "of_app a i (to_row a i c t p)" "r_checkpoint_id (to_row a i c t p) = ck_num c"
  by (simp_all add: of_app_def to_row_def)

lemma saved_rows:
  "saved (mset (map (\<lambda>(j, p). to_row a i c (now j) p) (enumerate n cks))) a i c' =
     (if c' = c then mset (map (stored c) cks) else {#})"
proof (induction cks arbitrary: n)
  case Nil
  then show ?case by (simp add: saved_def)
next
  case (Cons p ps)
  have "ck_num c = ck_num c' \<longleftrightarrow> c' = c" using checkpoint_id.expand by auto
  then show ?case using Cons.IH[of "Suc n"] by (auto simp: saved_def of_row_to_row)
qed

locale checkpoint_db =
  fixes D :: "'d mysql"
    and table :: "'d \<Rightarrow> string \<Rightarrow> ck_row multiset"
  assumes insert_rows: "my_insert D d t rows = (Inr (), d') \<Longrightarrow>
      table d' t = table d t + mset rows"
    and delete_rows: "my_delete_before D d t a i c = (Inr (), d') \<Longrightarrow>
      table d' t = filter_mset (\<lambda>r. \<not> (of_app a i r \<and> r_checkpoint_id r < c)) (table d t)"
    and select_latest: "my_select_latest D d t a i = Inr rows \<Longrightarrow>
      mset rows = filter_mset (\<lambda>r. of_app a i r \<and>
        (\<forall>s\<in>set_mset (table d t). of_app a i s \<longrightarrow> r_checkpoint_id s \<le> r_checkpoint_id r)) (table d t)"
    and select_id: "my_select_id D d t a i c = Inr rows \<Longrightarrow>
      mset rows = filter_mset (\<lambda>r. of_app a i r \<and> r_checkpoint_id r = c) (table d t)"
begin

lemma save_ok:
  assumes "mysql_save D now d s a i c cks ttl = (Inr (), d')"
  shows "table d' (ms_table s) = filter_mset
      (\<lambda>r. \<not> (ttl \<le> ck_num c \<and> of_app a i r \<and> r_checkpoint_id r < ck_num c - ttl))
      (table d (ms_table s) + mset (map (\<lambda>(j, p). to_row a i c (now j) p) (enumerate 0 cks)))"
proof -
  from assms obtain d1 where ins: "my_insert D d (ms_table s)
      (map (\<lambda>(j, p). to_row a i c (now j) p) (enumerate 0 cks)) = (Inr (), d1)"
    and rest: "(if ck_num c < ttl then (Inr (), d1)
      else my_delete_before D d1 (ms_table s) a i (ck_num c - ttl)) = (Inr (), d')"
    by (auto simp: mysql_save_def split: sum.splits prod.splits)
  show ?thesis
  proof (cases "ck_num c < ttl")
    case True
    then show ?thesis using rest insert_rows[OF ins] by (simp add: not_le[symmetric])
  next
    case False
    then have "my_delete_before D d1 (ms_table s) a i (ck_num c - ttl) = (Inr (), d')"
      using rest by simp
    from delete_rows[OF this] show ?thesis using False insert_rows[OF ins] by (simp add: not_less)
  qed
qed

lemma save_saved:
  assumes "mysql_save D now d s a i c cks ttl = (Inr (), d')"
  shows "saved (table d' (ms_table s)) a i c
    = saved (table d (ms_table s)) a i c + mset (map (stored c) cks)"
proof -
  have "saved (filter_mset (\<lambda>r. \<not> (ttl \<le> ck_num c \<and> of_app a i r \<and> r_checkpoint_id r < ck_num c - ttl)) T)
      a i c = saved T a i c" for T
    unfolding saved_def filter_filter_mset
    by (rule arg_cong[where f = "image_mset of_row"], rule filter_mset_cong)
      (auto simp: not_less word_sub_le)
  then show ?thesis unfolding save_ok[OF assms] by (simp add: saved_plus saved_rows del: mset_map)
qed

lemma save_other:
  assumes "mysql_save D now d s a i c cks ttl = (Inr (), d')" "c' \<noteq> c"
    and "ttl \<le> ck_num c \<Longrightarrow> ck_num c - ttl \<le> ck_num c'"
  shows "saved (table d' (ms_table s)) a i c' = saved (table d (ms_table s)) a i c'"
proof -
  have "saved (filter_mset (\<lambda>r. \<not> (ttl \<le> ck_num c \<and> of_app a i r \<and> r_checkpoint_id r < ck_num c - ttl)) T)
      a i c' = saved T a i c'" for T
    unfolding saved_def filter_filter_mset
    by (rule arg_cong[where f = "image_mset of_row"], rule filter_mset_cong)
      (use assms(3) in \<open>auto simp: not_less\<close>)
  then show ?thesis
    unfolding save_ok[OF assms(1)] by (simp add: saved_plus saved_rows assms(2) del: mset_map)
qed

lemma save_dropped:
  assumes "mysql_save D now d s a i c cks ttl = (Inr (), d')" "c' \<noteq> c"
    and "ttl \<le> ck_num c" "ck_num c' < ck_num c - ttl"
  shows "saved (table d' (ms_table s)) a i c' = {#}"
  unfolding save_ok[OF assms(1)] saved_def using assms(2-4) checkpoint_id.expand[of c' c]
  by (auto simp: not_less)

lemma load_by_id_saved:
  assumes "mysql_load_by_checkpoint_id D d s a i c = Inr cks"
  shows "mset cks = saved (table d (ms_table s)) a i c"
  using assms by (auto simp: mysql_load_by_checkpoint_id_def rbind_eq_Inr saved_def dest!: select_id)

lemma load_saved:
  assumes "mysql_load D d s a i = Inr cks"
    and "saved (table d (ms_table s)) a i c \<noteq> {#}"
    and "\<And>c'. c < c' \<Longrightarrow> saved (table d (ms_table s)) a i c' = {#}"
  shows "mset cks = saved (table d (ms_table s)) a i c"
proof -
  let ?T = "table d (ms_table s)"
  from assms(1) obtain rows where rows: "my_select_latest D d (ms_table s) a i = Inr rows"
    "cks = map of_row rows"
    by (auto simp: mysql_load_def rbind_eq_Inr)
  from assms(2) obtain r where r: "r \<in># ?T" "of_app a i r" "r_checkpoint_id r = ck_num c"
    by (auto simp: saved_def filter_mset_eq_mempty_iff)
  have le: "r_checkpoint_id s \<le> ck_num c" if "s \<in># ?T" "of_app a i s" for s
  proof (rule ccontr)
    assume "\<not> r_checkpoint_id s \<le> ck_num c"
    then have "c < CheckpointId (r_checkpoint_id s)" by (simp add: less_checkpoint_id_def)
    from assms(3)[OF this] show False using that by (auto simp: saved_def filter_mset_eq_mempty_iff)
  qed
  have "(of_app a i s \<and> (\<forall>s'\<in>set_mset ?T. of_app a i s' \<longrightarrow> r_checkpoint_id s' \<le> r_checkpoint_id s))
      \<longleftrightarrow> of_app a i s \<and> r_checkpoint_id s = ck_num c" if "s \<in># ?T" for s
    using that r le by (metis order_antisym)
  then have "mset rows = filter_mset (\<lambda>s. of_app a i s \<and> r_checkpoint_id s = ck_num c) ?T"
    unfolding select_latest[OF rows(1)] by (intro filter_mset_cong) auto
  then show ?thesis by (simp add: rows(2) saved_def)
qed

end

text \<open>A database whose statements succeed.\<close>

locale reliable_db = checkpoint_db +
  assumes conn_ok: "my_conn D d url = Inr ()"
    and insert_ok: "fst (my_insert D d t rows) = Inr ()"
    and delete_ok: "fst (my_delete_before D d t a i c) = Inr ()"
    and select_latest_ok: "\<exists>rows. my_select_latest D d t a i = Inr rows"
    and select_id_ok: "\<exists>rows. my_select_id D d t a i c = Inr rows"
begin

lemma save_succeeds: "\<exists>d'. mysql_save D now d s a i c cks ttl = (Inr (), d')"
proof -
  obtain d1 where ins: "my_insert D d (ms_table s)
      (map (\<lambda>(j, p). to_row a i c (now j) p) (enumerate 0 cks)) = (Inr (), d1)"
    by (metis insert_ok prod.collapse)
  obtain d2 where "my_delete_before D d1 (ms_table s) a i (ck_num c - ttl) = (Inr (), d2)"
    by (metis delete_ok prod.collapse)
  then show ?thesis by (simp add: mysql_save_def conn_ok ins)
qed

lemma load_succeeds: "\<exists>cks. mysql_load D d s a i = Inr cks"
  using select_latest_ok[of d "ms_table s" a i] by (auto simp: mysql_load_def conn_ok)

lemma load_by_id_succeeds: "\<exists>cks. mysql_load_by_checkpoint_id D d s a i c = Inr cks"
  using select_id_ok[of d "ms_table s" a i "ck_num c"]
  by (auto simp: mysql_load_by_checkpoint_id_def conn_ok)

end

text \<open>Tables as lists of rows are such a database; this one never fails.\<close>

definition table_ops :: "(string \<Rightarrow> ck_row list) mysql" where
  "table_ops = \<lparr>my_conn = (\<lambda>d url. Inr ()),
     my_insert = (\<lambda>d t rows. (Inr (), d(t := d t @ rows))),
     my_delete_before = (\<lambda>d t a i c. (Inr (),
       d(t := filter (\<lambda>r. \<not> (of_app a i r \<and> r_checkpoint_id r < c)) (d t)))),
     my_select_latest = (\<lambda>d t a i. Inr (filter (\<lambda>r. of_app a i r \<and>
       (\<forall>s\<in>set (d t). of_app a i s \<longrightarrow> r_checkpoint_id s \<le> r_checkpoint_id r)) (d t))),
     my_select_id = (\<lambda>d t a i c.
       Inr (filter (\<lambda>r. of_app a i r \<and> r_checkpoint_id r = c) (d t)))\<rparr>"

interpretation tables: reliable_db table_ops "\<lambda>d t. mset (d t)"
  by unfold_locales (auto simp: table_ops_def mset_filter)

end
