(* ===== verification/Channel.thy ===== *)
theory Channel
  imports Rlink_Prelude
begin

text \<open>
  The metered channels of \<open>rlink/src/channel\<close> (\<open>ChannelSender\<close>, \<open>ChannelReceiver\<close>):
  a queue of the \<open>crossbeam\<close> crate with a size gauge and two counters around it.  The
  crate is a parameter, a record of the operations the code calls; the locale
  \<open>crossbeam_fifo\<close> states its documented behaviour.  The first half gives the operations
  as they run without interference, the second half the interleavings of several sender
  and receiver threads as a step relation whose steps are the atomic accesses of the code.
\<close>

section \<open>The queue of the crossbeam crate\<close>

datatype channel_base_on = Unbounded | Bounded

datatype 'a try_send_error = Full 'a | Disconnected 'a

datatype try_recv_error = RecvEmpty | RecvDisconnected

text \<open>
  \<open>xb_try_send\<close> gives the queue after a successful send, \<open>xb_try_recv\<close> the received value
  and the queue that remains.
\<close>

record ('a, 'q) crossbeam =
  xb_bounded :: "nat \<Rightarrow> 'q"
  xb_unbounded :: 'q
  xb_try_send :: "'q \<Rightarrow> 'a \<Rightarrow> 'a try_send_error + 'q"
  xb_try_recv :: "'q \<Rightarrow> try_recv_error + 'a \<times> 'q"

locale crossbeam_fifo =
  fixes X :: "('a, 'q) crossbeam"
    and contents :: "'q \<Rightarrow> 'a list"
    and bound :: "'q \<Rightarrow> nat option"
    and rx_alive :: "'q \<Rightarrow> bool"
    and tx_alive :: "'q \<Rightarrow> bool"
  assumes unbounded_new: "contents (xb_unbounded X) = [] \<and> bound (xb_unbounded X) = None
      \<and> rx_alive (xb_unbounded X) \<and> tx_alive (xb_unbounded X)"
    and bounded_new: "contents (xb_bounded X n) = [] \<and> bound (xb_bounded X n) = Some n
      \<and> rx_alive (xb_bounded X n) \<and> tx_alive (xb_bounded X n)"
    and send_room: "rx_alive q \<Longrightarrow> (\<forall>n. bound q = Some n \<longrightarrow> length (contents q) < n) \<Longrightarrow>
      \<exists>q'. xb_try_send X q v = Inr q' \<and> contents q' = contents q @ [v] \<and> bound q' = bound q
        \<and> rx_alive q' \<and> tx_alive q' = tx_alive q"
    and send_full: "rx_alive q \<Longrightarrow> bound q = Some n \<Longrightarrow> 0 < n \<Longrightarrow> n \<le> length (contents q) \<Longrightarrow>
      xb_try_send X q v = Inl (Full v)"
    and send_closed: "\<not> rx_alive q \<Longrightarrow> xb_try_send X q v = Inl (Disconnected v)"
    and send_appends: "xb_try_send X q v = Inr q' \<Longrightarrow> contents q' = contents q @ [v]
      \<and> bound q' = bound q \<and> rx_alive q' = rx_alive q \<and> tx_alive q' = tx_alive q"
    and recv_head: "contents q = v # vs \<Longrightarrow>
      \<exists>q'. xb_try_recv X q = Inr (v, q') \<and> contents q' = vs \<and> bound q' = bound q
        \<and> rx_alive q' = rx_alive q \<and> tx_alive q' = tx_alive q"
    and recv_none: "contents q = [] \<Longrightarrow>
      xb_try_recv X q = Inl (if tx_alive q then RecvEmpty else RecvDisconnected)"
begin

lemma recv_takes:
  assumes "xb_try_recv X q = Inr (v, q')"
  shows "contents q = v # contents q'"
proof (cases "contents q")
  case Nil
  then show ?thesis using assms recv_none by simp
next
  case (Cons w ws)
  then show ?thesis using assms recv_head[OF Cons] by auto
qed

end

text \<open>A list with a bound and two flags is such a queue.\<close>

record 'a fifo =
  f_items :: "'a list"
  f_bound :: "nat option"
  f_rx :: bool
  f_tx :: bool

definition fifo_ops :: "('a, 'a fifo) crossbeam" where
  "fifo_ops = \<lparr>xb_bounded = (\<lambda>n. \<lparr>f_items = [], f_bound = Some n, f_rx = True, f_tx = True\<rparr>),
     xb_unbounded = \<lparr>f_items = [], f_bound = None, f_rx = True, f_tx = True\<rparr>,
     xb_try_send = (\<lambda>q v. if \<not> f_rx q then Inl (Disconnected v)
       else if (case f_bound q of None \<Rightarrow> False | Some n \<Rightarrow> n \<le> length (f_items q))
       then Inl (Full v) else Inr (q\<lparr>f_items := f_items q @ [v]\<rparr>)),
     xb_try_recv = (\<lambda>q. case f_items q of
       [] \<Rightarrow> Inl (if f_tx q then RecvEmpty else RecvDisconnected)
     | v # vs \<Rightarrow> Inr (v, q\<lparr>f_items := vs\<rparr>))\<rparr>"

interpretation fifo: crossbeam_fifo fifo_ops f_items f_bound f_rx f_tx
  by unfold_locales
    (auto simp: fifo_ops_def not_le split: option.splits list.splits if_splits)

section \<open>Operations of a channel\<close>

text \<open>
  The two halves share the queue, the size gauge (an \<open>AtomicI64\<close>) and count what they
  accept and drain (\<open>AtomicU64\<close>).
\<close>

record 'q channel =
  ch_base_on :: channel_base_on
  ch_cap :: nat
  ch_queue :: 'q
  ch_size :: int
  ch_accepted :: u64
  ch_drain :: u64

definition named_channel_with_base ::
    "('a, 'q) crossbeam \<Rightarrow> nat \<Rightarrow> channel_base_on \<Rightarrow> 'q channel" where
  "named_channel_with_base X cap base_on =
     \<lparr>ch_base_on = base_on, ch_cap = cap,
      ch_queue = (case base_on of Bounded \<Rightarrow> xb_bounded X cap | Unbounded \<Rightarrow> xb_unbounded X),
      ch_size = 0, ch_accepted = 0, ch_drain = 0\<rparr>"

definition over_cap :: "channel_base_on \<Rightarrow> nat \<Rightarrow> int \<Rightarrow> bool" where
  "over_cap base_on cap gauge \<longleftrightarrow> base_on = Unbounded \<and> gauge > wrap_i64 (int cap)"

definition sender_on_success :: "'q channel \<Rightarrow> 'q channel" where
  "sender_on_success c =
     c\<lparr>ch_size := wrap_i64 (ch_size c + 1), ch_accepted := ch_accepted c + 1\<rparr>"

definition try_send ::
    "('a, 'q) crossbeam \<Rightarrow> 'q channel \<Rightarrow> 'a \<Rightarrow> 'a try_send_error + 'q channel" where
  "try_send X c event =
     (if over_cap (ch_base_on c) (ch_cap c) (ch_size c) then Inl (Full event)
      else case xb_try_send X (ch_queue c) event of
        Inl e \<Rightarrow> Inl e
      | Inr q \<Rightarrow> Inr (sender_on_success (c\<lparr>ch_queue := q\<rparr>)))"

definition try_send_opt ::
    "('a, 'q) crossbeam \<Rightarrow> 'q channel \<Rightarrow> 'a \<Rightarrow> 'a option \<times> 'q channel" where
  "try_send_opt X c event = (case try_send X c event of
     Inr c' \<Rightarrow> (None, c')
   | Inl (Full t) \<Rightarrow> (Some t, c)
   | Inl (Disconnected t) \<Rightarrow> (Some t, c))"

definition receiver_on_success :: "'q channel \<Rightarrow> 'q channel" where
  "receiver_on_success c =
     c\<lparr>ch_size := wrap_i64 (ch_size c - 1), ch_drain := ch_drain c + 1\<rparr>"

definition try_recv ::
    "('a, 'q) crossbeam \<Rightarrow> 'q channel \<Rightarrow> try_recv_error + 'a \<times> 'q channel" where
  "try_recv X c = (case xb_try_recv X (ch_queue c) of
     Inl e \<Rightarrow> Inl e
   | Inr (event, q) \<Rightarrow> Inr (event, receiver_on_success (c\<lparr>ch_queue := q\<rparr>)))"

section \<open>Interleavings\<close>

text \<open>
  Where a sender thread is: outside a call, polling the gauge in the loop of \<open>send\<close>, past
  the capacity check with the event in hand (the flag tells \<open>send\<close> from \<open>try_send\<close>),
  after the queue has taken the event, and between the two counter updates of
  \<open>on_success\<close>.  A receiver thread likewise.
\<close>

datatype 'a sender_pc =
    S_idle
  | S_waiting 'a
  | S_ready bool 'a
  | S_sent
  | S_sized

datatype 'a receiver_pc =
    R_idle
  | R_taken 'a
  | R_sized 'a

text \<open>
  \<open>y_sent\<close> and \<open>y_received\<close> record the order in which the queue took and gave events;
  no step reads them.
\<close>

record ('a, 'q) system =
  y_queue :: 'q
  y_size :: int
  y_accepted :: u64
  y_drain :: u64
  y_senders :: "'a sender_pc list"
  y_receivers :: "'a receiver_pc list"
  y_sent :: "'a list"
  y_received :: "'a list"

definition system_init ::
    "('a, 'q) crossbeam \<Rightarrow> nat \<Rightarrow> channel_base_on \<Rightarrow> nat \<Rightarrow> nat \<Rightarrow> ('a, 'q) system" where
  "system_init X cap base_on n m =
     (let c = named_channel_with_base X cap base_on in
      \<lparr>y_queue = ch_queue c, y_size = ch_size c, y_accepted = ch_accepted c,
       y_drain = ch_drain c, y_senders = replicate n S_idle, y_receivers = replicate m R_idle,
       y_sent = [], y_received = []\<rparr>)"

abbreviation set_sender :: "nat \<Rightarrow> 'a sender_pc \<Rightarrow> ('a, 'q) system \<Rightarrow> ('a, 'q) system" where
  "set_sender i pc s \<equiv> s\<lparr>y_senders := (y_senders s)[i := pc]\<rparr>"

abbreviation set_receiver :: "nat \<Rightarrow> 'a receiver_pc \<Rightarrow> ('a, 'q) system \<Rightarrow> ('a, 'q) system" where
  "set_receiver i pc s \<equiv> s\<lparr>y_receivers := (y_receivers s)[i := pc]\<rparr>"

inductive chan_step ::
    "('a, 'q) crossbeam \<Rightarrow> nat \<Rightarrow> channel_base_on \<Rightarrow>
     ('a, 'q) system \<Rightarrow> ('a, 'q) system \<Rightarrow> bool"
  for X cap base_on where
  send_wait: "i < length (y_senders s) \<Longrightarrow> y_senders s ! i = S_idle \<Longrightarrow>
    over_cap base_on cap (y_size s) \<Longrightarrow>
    chan_step X cap base_on s (set_sender i (S_waiting v) s)"
| send_check: "i < length (y_senders s) \<Longrightarrow> y_senders s ! i = S_idle \<Longrightarrow>
    \<not> over_cap base_on cap (y_size s) \<Longrightarrow>
    chan_step X cap base_on s (set_sender i (S_ready blocking v) s)"
| send_poll: "i < length (y_senders s) \<Longrightarrow> y_senders s ! i = S_waiting v \<Longrightarrow>
    y_size s < wrap_i64 (int cap) \<Longrightarrow>
    chan_step X cap base_on s (set_sender i (S_ready True v) s)"
| send_push: "i < length (y_senders s) \<Longrightarrow> y_senders s ! i = S_ready blocking v \<Longrightarrow>
    xb_try_send X (y_queue s) v = Inr q \<Longrightarrow>
    chan_step X cap base_on s
      (set_sender i S_sent (s\<lparr>y_queue := q, y_sent := y_sent s @ [v]\<rparr>))"
| send_full: "i < length (y_senders s) \<Longrightarrow> y_senders s ! i = S_ready False v \<Longrightarrow>
    xb_try_send X (y_queue s) v = Inl (Full v) \<Longrightarrow>
    chan_step X cap base_on s (set_sender i S_idle s)"
| send_disconnected: "i < length (y_senders s) \<Longrightarrow> y_senders s ! i = S_ready blocking v \<Longrightarrow>
    xb_try_send X (y_queue s) v = Inl (Disconnected v) \<Longrightarrow>
    chan_step X cap base_on s (set_sender i S_idle s)"
| send_size: "i < length (y_senders s) \<Longrightarrow> y_senders s ! i = S_sent \<Longrightarrow>
    chan_step X cap base_on s (set_sender i S_sized (s\<lparr>y_size := wrap_i64 (y_size s + 1)\<rparr>))"
| send_count: "i < length (y_senders s) \<Longrightarrow> y_senders s ! i = S_sized \<Longrightarrow>
    chan_step X cap base_on s (set_sender i S_idle (s\<lparr>y_accepted := y_accepted s + 1\<rparr>))"
| recv_take: "i < length (y_receivers s) \<Longrightarrow> y_receivers s ! i = R_idle \<Longrightarrow>
    xb_try_recv X (y_queue s) = Inr (v, q) \<Longrightarrow>
    chan_step X cap base_on s
      (set_receiver i (R_taken v) (s\<lparr>y_queue := q, y_received := y_received s @ [v]\<rparr>))"
| recv_size: "i < length (y_receivers s) \<Longrightarrow> y_receivers s ! i = R_taken v \<Longrightarrow>
    chan_step X cap base_on s
      (set_receiver i (R_sized v) (s\<lparr>y_size := wrap_i64 (y_size s - 1)\<rparr>))"
| recv_count: "i < length (y_receivers s) \<Longrightarrow> y_receivers s ! i = R_sized v \<Longrightarrow>
    chan_step X cap base_on s (set_receiver i R_idle (s\<lparr>y_drain := y_drain s + 1\<rparr>))"

inductive chan_reachable ::
    "('a, 'q) crossbeam \<Rightarrow> nat \<Rightarrow> channel_base_on \<Rightarrow> nat \<Rightarrow> nat \<Rightarrow> ('a, 'q) system \<Rightarrow> bool"
  for X cap base_on n m where
  init: "chan_reachable X cap base_on n m (system_init X cap base_on n m)"
| step: "chan_reachable X cap base_on n m s \<Longrightarrow> chan_step X cap base_on s t \<Longrightarrow>
    chan_reachable X cap base_on n m t"

section \<open>What every interleaving keeps\<close>

abbreviation is_ready :: "'a sender_pc \<Rightarrow> bool" where
  "is_ready pc \<equiv> (case pc of S_ready _ _ \<Rightarrow> True | _ \<Rightarrow> False)"

abbreviation is_sent :: "'a sender_pc \<Rightarrow> bool" where
  "is_sent pc \<equiv> (case pc of S_sent \<Rightarrow> True | _ \<Rightarrow> False)"

abbreviation is_uncounted :: "'a sender_pc \<Rightarrow> bool" where
  "is_uncounted pc \<equiv> (case pc of S_sent \<Rightarrow> True | S_sized \<Rightarrow> True | _ \<Rightarrow> False)"

abbreviation is_taken :: "'a receiver_pc \<Rightarrow> bool" where
  "is_taken pc \<equiv> (case pc of R_taken _ \<Rightarrow> True | _ \<Rightarrow> False)"

abbreviation is_undrained :: "'a receiver_pc \<Rightarrow> bool" where
  "is_undrained pc \<equiv> (case pc of R_taken _ \<Rightarrow> True | R_sized _ \<Rightarrow> True | _ \<Rightarrow> False)"

text \<open>
  The bookkeeping: threads keep their number, the queue holds what was sent and not yet
  received, and gauge and counters are exact up to the updates that are still under way.
\<close>

definition books :: "('q \<Rightarrow> 'a list) \<Rightarrow> nat \<Rightarrow> nat \<Rightarrow> ('a, 'q) system \<Rightarrow> bool" where
  "books contents n m s \<longleftrightarrow>
     length (y_senders s) = n \<and> length (y_receivers s) = m \<and>
     y_sent s = y_received s @ contents (y_queue s) \<and>
     y_size s = wrap_i64 (int (length (contents (y_queue s)))
        - countP is_sent (y_senders s) + countP is_taken (y_receivers s)) \<and>
     y_accepted s = of_int (int (length (y_sent s)) - countP is_uncounted (y_senders s)) \<and>
     y_drain s = of_int (int (length (y_received s)) - countP is_undrained (y_receivers s))"

text \<open>The soft capacity of an unbounded channel.\<close>

definition soft_bound :: "('q \<Rightarrow> 'a list) \<Rightarrow> nat \<Rightarrow> nat \<Rightarrow> ('a, 'q) system \<Rightarrow> bool" where
  "soft_bound contents cap n s \<longleftrightarrow>
     int (length (contents (y_queue s))) + countP is_ready (y_senders s) \<le> int cap + int n"

context crossbeam_fifo
begin

lemma books_init: "books contents n m (system_init X cap base_on n m)"
  using unbounded_new bounded_new[of cap]
  by (cases base_on)
    (simp_all add: books_def system_init_def named_channel_with_base_def Let_def
      countP_replicate wrap_i64_small)

lemma books_step: "chan_step X cap base_on s t \<Longrightarrow> books contents n m s \<Longrightarrow> books contents n m t"
  by (induction rule: chan_step.induct)
    (auto simp: books_def countP_update wrap_i64_add wrap_i64_add_right wrap_i64_diff algebra_simps
      dest!: send_appends recv_takes)

lemma gauge_exact:
  assumes "books contents n m s" "soft_bound contents cap n s" "cap + n + m < 2 ^ 63"
  shows "y_size s = int (length (contents (y_queue s)))
     - countP is_sent (y_senders s) + countP is_taken (y_receivers s)"
proof -
  let ?x = "int (length (contents (y_queue s)))
     - countP is_sent (y_senders s) + countP is_taken (y_receivers s)"
  have b: "0 \<le> countP is_sent (y_senders s)" "countP is_sent (y_senders s) \<le> int n"
    "0 \<le> countP is_taken (y_receivers s)" "countP is_taken (y_receivers s) \<le> int m"
    "0 \<le> countP is_ready (y_senders s)"
    using countP_bounds[of is_sent "y_senders s"] countP_bounds[of is_taken "y_receivers s"]
      countP_bounds(1)[of is_ready "y_senders s"] assms(1) by (auto simp: books_def)
  have c: "int cap + int n + int m < 9223372036854775808"
    using assms(3) by simp
  have "wrap_i64 ?x = ?x"
    using b c assms(2) unfolding soft_bound_def by (intro wrap_i64_small) linarith+
  then show ?thesis using assms(1) by (simp add: books_def)
qed

lemma soft_bound_pass:
  assumes "books contents n m s" "soft_bound contents cap n s" "cap + n + m < 2 ^ 63"
    and "y_size s \<le> int cap" "i < length (y_senders s)" "\<not> is_ready (y_senders s ! i)"
    and "\<not> is_sent (y_senders s ! i)"
  shows "soft_bound contents cap n (set_sender i (S_ready b v) s)"
proof -
  have d: "countP is_ready ((y_senders s)[i := S_ready b v])
      + countP is_sent ((y_senders s)[i := S_ready b v]) \<le> int n"
    using countP_disjoint[of is_ready is_sent "(y_senders s)[i := S_ready b v]"] assms(1)
    by (simp add: books_def split: sender_pc.splits)
  have "countP is_sent ((y_senders s)[i := S_ready b v]) = countP is_sent (y_senders s)"
    using assms(5,7) by (simp add: countP_update)
  then show ?thesis
    using d gauge_exact[OF assms(1-3)] assms(4) countP_bounds(1)[of is_taken "y_receivers s"]
    by (simp add: soft_bound_def)
qed

lemma soft_bound_step:
  assumes "chan_step X cap Unbounded s t" "books contents n m s" "soft_bound contents cap n s"
    "cap + n + m < 2 ^ 63"
  shows "soft_bound contents cap n t"
proof -
  have c: "wrap_i64 (int cap) = int cap"
    using assms(4) by (intro wrap_i64_small) simp_all
  show ?thesis
    using assms(1)
  proof cases
    case (send_check i blocking v)
    then show ?thesis
      using soft_bound_pass[OF assms(2-4), of i blocking v] by (simp add: over_cap_def c)
  next
    case (send_poll i v)
    then show ?thesis
      using soft_bound_pass[OF assms(2-4), of i True v] by (simp add: c)
  qed (use assms(3) in \<open>auto simp: soft_bound_def countP_update dest!: send_appends recv_takes\<close>)
qed

lemma reachable_books: "chan_reachable X cap base_on n m s \<Longrightarrow> books contents n m s"
  by (induction rule: chan_reachable.induct) (auto intro: books_init books_step)

lemma reachable_soft_bound:
  "chan_reachable X cap Unbounded n m s \<Longrightarrow> cap + n + m < 2 ^ 63 \<Longrightarrow> soft_bound contents cap n s"
proof (induction rule: chan_reachable.induct)
  case init
  then show ?case
    using unbounded_new
    by (simp add: soft_bound_def system_init_def named_channel_with_base_def countP_replicate)
next
  case (step s t)
  then show ?case using soft_bound_step reachable_books by blast
qed

lemma reachable_bounded:
  "chan_reachable X cap Bounded n m s \<Longrightarrow> 0 < cap \<Longrightarrow>
   bound (y_queue s) = Some cap \<and> rx_alive (y_queue s) \<and> length (contents (y_queue s)) \<le> cap"
proof (induction rule: chan_reachable.induct)
  case init
  then show ?case
    using bounded_new[of cap] by (simp add: system_init_def named_channel_with_base_def)
next
  case (step s t)
  from step(2) show ?case
  proof cases
    case (send_push i blocking v q)
    then show ?thesis
      using step.IH step.prems send_appends[of "y_queue s" v q]
        send_full[of "y_queue s" cap v] by force
  next
    case (recv_take i v q)
    then show ?thesis
      using step.IH step.prems recv_takes[of "y_queue s" v q] recv_head[of "y_queue s" v "contents q"]
      by auto
  qed (use step in auto)
qed

end

section \<open>The operations without interference\<close>

text \<open>A channel whose gauge is exact and whose queue is of the kind it was created with.\<close>

definition ch_ok :: "('q \<Rightarrow> 'a list) \<Rightarrow> ('q \<Rightarrow> nat option) \<Rightarrow> 'q channel \<Rightarrow> bool" where
  "ch_ok contents bound c \<longleftrightarrow>
     ch_size c = int (length (contents (ch_queue c))) \<and>
     ch_cap c < 2 ^ 62 \<and> length (contents (ch_queue c)) \<le> ch_cap c + 1 \<and>
     bound (ch_queue c) = (case ch_base_on c of Bounded \<Rightarrow> Some (ch_cap c) | Unbounded \<Rightarrow> None)"

text \<open>When a channel refuses an event.\<close>

definition ch_full :: "('q \<Rightarrow> 'a list) \<Rightarrow> 'q channel \<Rightarrow> bool" where
  "ch_full contents c \<longleftrightarrow> (case ch_base_on c of
     Bounded \<Rightarrow> ch_cap c \<le> length (contents (ch_queue c))
   | Unbounded \<Rightarrow> ch_cap c < length (contents (ch_queue c)))"

context crossbeam_fifo
begin

lemma ch_ok_new: "cap < 2 ^ 62 \<Longrightarrow> ch_ok contents bound (named_channel_with_base X cap base_on)"
  using unbounded_new bounded_new[of cap]
  by (cases base_on) (simp_all add: ch_ok_def named_channel_with_base_def)

lemma over_cap_ok: "ch_ok contents bound c \<Longrightarrow>
  over_cap (ch_base_on c) (ch_cap c) (ch_size c) \<longleftrightarrow>
    ch_base_on c = Unbounded \<and> ch_cap c < length (contents (ch_queue c))"
  by (auto simp: over_cap_def ch_ok_def wrap_i64_small)

lemma try_send_full:
  assumes "ch_ok contents bound c" "rx_alive (ch_queue c)" "0 < ch_cap c" "ch_full contents c"
  shows "try_send X c v = Inl (Full v)"
  using assms send_full[of "ch_queue c" "ch_cap c" v] over_cap_ok[OF assms(1)]
  by (cases "ch_base_on c") (simp_all add: try_send_def ch_full_def ch_ok_def)

lemma try_send_accepts:
  assumes "ch_ok contents bound c" "rx_alive (ch_queue c)" "\<not> ch_full contents c"
  shows "\<exists>c'. try_send X c v = Inr c' \<and> contents (ch_queue c') = contents (ch_queue c) @ [v]
     \<and> ch_ok contents bound c' \<and> rx_alive (ch_queue c') \<and> ch_accepted c' = ch_accepted c + 1
     \<and> ch_base_on c' = ch_base_on c \<and> ch_cap c' = ch_cap c"
proof -
  have "\<forall>n. bound (ch_queue c) = Some n \<longrightarrow> length (contents (ch_queue c)) < n"
    using assms(1,3) by (auto simp: ch_ok_def ch_full_def split: channel_base_on.splits)
  from send_room[OF assms(2) this, of v] obtain q where
    "xb_try_send X (ch_queue c) v = Inr q" "contents q = contents (ch_queue c) @ [v]"
    "bound q = bound (ch_queue c)" "rx_alive q"
    by auto
  then show ?thesis
    using assms(1,3) over_cap_ok[OF assms(1)]
    by (auto simp: try_send_def sender_on_success_def ch_ok_def ch_full_def wrap_i64_small
        split: channel_base_on.splits)
qed

lemma try_recv_head:
  assumes "ch_ok contents bound c" "contents (ch_queue c) = v # vs"
  shows "\<exists>c'. try_recv X c = Inr (v, c') \<and> contents (ch_queue c') = vs
     \<and> ch_ok contents bound c' \<and> ch_base_on c' = ch_base_on c \<and> ch_cap c' = ch_cap c"
proof -
  from recv_head[OF assms(2)] obtain q where
    "xb_try_recv X (ch_queue c) = Inr (v, q)" "contents q = vs" "bound q = bound (ch_queue c)"
    by auto
  then show ?thesis
    using assms by (auto simp: try_recv_def receiver_on_success_def ch_ok_def wrap_i64_small
        split: channel_base_on.splits)
qed

lemma try_recv_none:
  "contents (ch_queue c) = [] \<Longrightarrow>
   try_recv X c = Inl (if tx_alive (ch_queue c) then RecvEmpty else RecvDisconnected)"
  by (simp add: try_recv_def recv_none)

end

section \<open>Properties\<close>





text \<open>
  A call without interference, on every branch: on a channel with an exact gauge and a
  live receiver \<open>try_send\<close> refuses exactly when the channel is full and otherwise appends
  the event, counts it and keeps the gauge exact; \<open>try_recv\<close> takes the oldest event, and on
  an empty queue tells an idle channel from a closed one.
\<close>

lemma channel_calls:
  assumes "crossbeam_fifo X contents bound rx_alive tx_alive" "ch_ok contents bound c"
    and "rx_alive (ch_queue c)" "0 < ch_cap c"
  shows "(case try_send X c v of
       Inl e \<Rightarrow> e = Full v \<and> ch_full contents c
     | Inr c' \<Rightarrow> \<not> ch_full contents c \<and> contents (ch_queue c') = contents (ch_queue c) @ [v]
         \<and> ch_ok contents bound c' \<and> ch_accepted c' = ch_accepted c + 1)
   \<and> (case try_recv X c of
       Inl e \<Rightarrow> contents (ch_queue c) = []
         \<and> e = (if tx_alive (ch_queue c) then RecvEmpty else RecvDisconnected)
     | Inr (w, c') \<Rightarrow> contents (ch_queue c) = w # contents (ch_queue c')
         \<and> ch_ok contents bound c')"
proof -
  have s: "case try_send X c v of
       Inl e \<Rightarrow> e = Full v \<and> ch_full contents c
     | Inr c' \<Rightarrow> \<not> ch_full contents c \<and> contents (ch_queue c') = contents (ch_queue c) @ [v]
         \<and> ch_ok contents bound c' \<and> ch_accepted c' = ch_accepted c + 1"
    using crossbeam_fifo.try_send_full[OF assms, of v]
      crossbeam_fifo.try_send_accepts[OF assms(1-3), of v]
    by (cases "ch_full contents c") auto
  have r: "case try_recv X c of
       Inl e \<Rightarrow> contents (ch_queue c) = []
         \<and> e = (if tx_alive (ch_queue c) then RecvEmpty else RecvDisconnected)
     | Inr (w, c') \<Rightarrow> contents (ch_queue c) = w # contents (ch_queue c')
         \<and> ch_ok contents bound c'"
  proof (cases "contents (ch_queue c)")
    case Nil
    then show ?thesis using crossbeam_fifo.try_recv_none[OF assms(1), of c] by simp
  next
    case (Cons w ws)
    then show ?thesis using crossbeam_fifo.try_recv_head[OF assms(1,2) Cons] by auto
  qed
  show ?thesis using s r by blast
qed

end
