(* ===== verification/Checkpoint_Manager.thy ===== *)
theory Checkpoint_Manager
  imports Checkpoint_Storage Dag_Types Channel
begin

text \<open>
  The coordinator's checkpoint manager (\<open>rlink/src/runtime/coordinator/checkpoint_manager.rs\<close>):
  it collects the reports of all tasks, declares a checkpoint finished when every operator
  has one report from each of its parallel tasks, saves it, and reads the last one back at
  start-up.  The properties: what is saved is complete and genuine, a complete set of
  reports is saved in whatever order it arrives, and the loaded reports are those saved.
\<close>

section \<open>Reports of one operator\<close>

record operator_checkpoint =
  oc_job_id :: job_id
  oc_operator_id :: operator_id
  oc_operator_name :: string
  oc_parallelism :: u16
  oc_current_cks :: "(u16, checkpoint) hmap"

definition operator_checkpoint_new ::
    "job_id \<Rightarrow> operator_id \<Rightarrow> string \<Rightarrow> u16 \<Rightarrow> operator_checkpoint" where
  "operator_checkpoint_new job_id operator_id operator_name parallelism =
     \<lparr>oc_job_id = job_id, oc_operator_id = operator_id, oc_operator_name = operator_name,
      oc_parallelism = parallelism, oc_current_cks = []\<rparr>"

definition operator_is_align :: "operator_checkpoint \<Rightarrow> bool" where
  "operator_is_align oc \<longleftrightarrow> length (oc_current_cks oc) = unat (oc_parallelism oc)"

definition operator_apply :: "operator_checkpoint \<Rightarrow> checkpoint \<Rightarrow> operator_checkpoint" where
  "operator_apply oc ck =
     (if operator_is_align oc then oc
      else if map_of (oc_current_cks oc) (t_task_number (ck_task_id ck)) \<noteq> None then oc
      else oc\<lparr>oc_current_cks :=
        AList.update (t_task_number (ck_task_id ck)) ck (oc_current_cks oc)\<rparr>)"

section \<open>Alignment over all operators\<close>

text \<open>The time to live is the \<open>Duration\<close> in milliseconds.\<close>

record align_state =
  cm_application_name :: string
  cm_application_id :: string
  cm_checkpoint_ttl :: nat
  cm_current_ck_id :: checkpoint_id
  cm_operator_cks :: "(operator_id, operator_checkpoint) hmap"
  cm_finish_operator_cks :: "(operator_id, operator_checkpoint) hmap"
  cm_storage :: "checkpoint_storage option"

definition insert_operators ::
    "job_node \<Rightarrow> (operator_id, operator_checkpoint) hmap \<Rightarrow> (operator_id, operator_checkpoint) hmap" where
  "insert_operators job_node = fold (\<lambda>s. AList.update (sn_id s)
     (operator_checkpoint_new (jn_job_id job_node) (sn_id s) (sn_operator_name s)
       (jn_parallelism job_node))) (jn_stream_nodes job_node)"

definition align_state_new ::
    "job_node list \<Rightarrow> checkpoint_backend option \<Rightarrow> string \<Rightarrow> string \<Rightarrow> nat \<Rightarrow> align_state" where
  "align_state_new job_nodes backend application_name application_id checkpoint_ttl =
     \<lparr>cm_application_name = application_name, cm_application_id = application_id,
      cm_checkpoint_ttl = checkpoint_ttl, cm_current_ck_id = checkpoint_id_default,
      cm_operator_cks = fold insert_operators job_nodes [], cm_finish_operator_cks = [],
      cm_storage = map_option storage_new backend\<rparr>"

text \<open>The orders in which the hash maps involved iterate.\<close>

record orders =
  or_operators :: "(operator_id, operator_checkpoint) hmap \<Rightarrow> (operator_id, operator_checkpoint) hmap"
  or_tasks :: "(u16, checkpoint) hmap \<Rightarrow> (u16, checkpoint) hmap"
  or_history :: "memory_storage \<Rightarrow> memory_storage"

definition orders_ok :: "orders \<Rightarrow> bool" where
  "orders_ok R \<longleftrightarrow> iteration_order (or_operators R) \<and> iteration_order (or_tasks R)
     \<and> iteration_order (or_history R)"

definition unreached_operators :: "orders \<Rightarrow> align_state \<Rightarrow> operator_checkpoint list" where
  "unreached_operators R m =
     map snd (filter (\<lambda>(_, oc). \<not> operator_is_align oc) (or_operators R (cm_operator_cks m)))"

definition is_align :: "orders \<Rightarrow> align_state \<Rightarrow> bool" where
  "is_align R m \<longleftrightarrow> length (unreached_operators R m) = 0"

definition next_checkpoint :: "align_state \<Rightarrow> checkpoint_id \<Rightarrow> align_state" where
  "next_checkpoint m checkpoint_id = m\<lparr>cm_current_ck_id := checkpoint_id,
     cm_operator_cks := map (\<lambda>(operator_id, oc). (operator_id,
       operator_checkpoint_new (oc_job_id oc) (oc_operator_id oc) (oc_operator_name oc)
         (oc_parallelism oc))) (cm_operator_cks m)\<rparr>"

text \<open>The checkpoints handed to the storage: those of every operator, one after the other.\<close>

definition complete_cks :: "orders \<Rightarrow> align_state \<Rightarrow> checkpoint list" where
  "complete_cks R m = concat (map (\<lambda>(_, oc). map snd (or_tasks R (oc_current_cks oc)))
     (or_operators R (cm_finish_operator_cks m)))"

datatype apply_error = OperatorUnknown checkpoint | StorageError string

text \<open>A report with a newer number starts the next checkpoint, whatever the old one lacks.\<close>

definition enter_checkpoint :: "align_state \<Rightarrow> checkpoint \<Rightarrow> align_state" where
  "enter_checkpoint m ck =
     (if ck_num (cm_current_ck_id m) < ck_num (ck_checkpoint_id ck)
      then next_checkpoint m (ck_checkpoint_id ck) else m)"

text \<open>When every operator is aligned the checkpoint is finished and saved.\<close>

definition finish_checkpoint ::
    "'d mysql \<Rightarrow> (nat \<Rightarrow> string) \<Rightarrow> orders \<Rightarrow> 'd \<Rightarrow> align_state \<Rightarrow>
     (apply_error + unit) \<times> 'd \<times> align_state" where
  "finish_checkpoint D now R d m =
     (let m = m\<lparr>cm_finish_operator_cks := cm_operator_cks m\<rparr> in
      case cm_storage m of
        None \<Rightarrow> (Inr (), d, m)
      | Some storage \<Rightarrow>
          (case storage_save D now (or_history R) d storage (cm_application_name m)
              (cm_application_id m) (cm_current_ck_id m) (complete_cks R m)
              (of_nat (cm_checkpoint_ttl m)) of
            (r, d, storage) \<Rightarrow>
              (case r of Inl e \<Rightarrow> Inl (StorageError e) | Inr _ \<Rightarrow> Inr (),
               d, m\<lparr>cm_storage := Some storage\<rparr>)))"

definition align_state_apply ::
    "'d mysql \<Rightarrow> (nat \<Rightarrow> string) \<Rightarrow> orders \<Rightarrow> 'd \<Rightarrow> align_state \<Rightarrow> checkpoint \<Rightarrow>
     (apply_error + unit) \<times> 'd \<times> align_state" where
  "align_state_apply D now R d m ck =
     (if ck_num (cm_current_ck_id m) > ck_num (ck_checkpoint_id ck) then (Inr (), d, m)
      else
        let m = enter_checkpoint m ck in
        case map_of (cm_operator_cks m) (ck_operator_id ck) of
          None \<Rightarrow> (Inl (OperatorUnknown ck), d, m)
        | Some oc \<Rightarrow>
            let m = m\<lparr>cm_operator_cks :=
                  AList.update (ck_operator_id ck) (operator_apply oc ck) (cm_operator_cks m)\<rparr> in
            if is_align R m then finish_checkpoint D now R d m else (Inr (), d, m))"

text \<open>\<open>Clone\<close> for the web interface: without the storage and the current number.\<close>

definition align_state_clone :: "align_state \<Rightarrow> align_state" where
  "align_state_clone m = m\<lparr>cm_current_ck_id := checkpoint_id_default, cm_storage := None\<rparr>"

text \<open>The completed number the reports agree on: the smallest positive one.\<close>

definition completed_of :: "checkpoint \<Rightarrow> checkpoint_id" where
  "completed_of c = (case ck_completed_checkpoint_id c of
     None \<Rightarrow> checkpoint_id_default | Some n \<Rightarrow> n)"

definition completed_checkpoint_id :: "checkpoint list \<Rightarrow> checkpoint_id" where
  "completed_checkpoint_id cks =
     (case map completed_of (filter (\<lambda>c. case ck_completed_checkpoint_id c of
         None \<Rightarrow> False | Some n \<Rightarrow> ck_num n > 0) cks) of
        [] \<Rightarrow> checkpoint_id_default
      | n # ns \<Rightarrow> fold min ns n)"

definition group_by_operator :: "checkpoint list \<Rightarrow> (operator_id, checkpoint list) hmap" where
  "group_by_operator cks = fold (\<lambda>ck m. AList.update (ck_operator_id ck)
     ((case map_of m (ck_operator_id ck) of None \<Rightarrow> [] | Some cs \<Rightarrow> cs) @ [ck]) m) cks []"

definition align_state_load ::
    "'d mysql \<Rightarrow> 'd \<Rightarrow> align_state \<Rightarrow> string + (operator_id, checkpoint list) hmap" where
  "align_state_load D d m = (case cm_storage m of
     None \<Rightarrow> Inr []
   | Some storage \<Rightarrow>
       rbind (storage_load D d storage (cm_application_name m) (cm_application_id m)) (\<lambda>checkpoints.
       rbind (if \<not> ck_is_default (completed_checkpoint_id checkpoints)
              then storage_load_by_checkpoint_id D d storage (cm_application_name m)
                (cm_application_id m) (completed_checkpoint_id checkpoints)
              else Inr checkpoints) (\<lambda>checkpoints.
       Inr (group_by_operator checkpoints))))"

section \<open>The manager and its queue\<close>

record 'q checkpoint_manager =
  mg_align :: align_state
  mg_queue :: 'q

definition checkpoint_manager_new ::
    "(checkpoint, 'q) crossbeam \<Rightarrow> job_node list \<Rightarrow> checkpoint_backend option \<Rightarrow> string \<Rightarrow> string \<Rightarrow>
     nat \<Rightarrow> 'q checkpoint_manager" where
  "checkpoint_manager_new X job_nodes backend application_name application_id ttl =
     \<lparr>mg_align = align_state_new job_nodes backend application_name application_id ttl,
      mg_queue = xb_bounded X 100\<rparr>"

definition manager_apply ::
    "(checkpoint, 'q) crossbeam \<Rightarrow> 'q checkpoint_manager \<Rightarrow> checkpoint \<Rightarrow>
     checkpoint try_send_error + 'q checkpoint_manager" where
  "manager_apply X m ck = (case xb_try_send X (mg_queue m) ck of
     Inl e \<Rightarrow> Inl e | Inr q \<Rightarrow> Inr (m\<lparr>mg_queue := q\<rparr>))"

text \<open>
  One turn of the thread of \<open>run_align_task\<close>, when the queue has a report: an error is
  logged and the loop goes on.
\<close>

definition align_task_step ::
    "(checkpoint, 'q) crossbeam \<Rightarrow> 'd mysql \<Rightarrow> (nat \<Rightarrow> string) \<Rightarrow> orders \<Rightarrow> 'd \<times> 'q checkpoint_manager \<Rightarrow>
     'd \<times> 'q checkpoint_manager" where
  "align_task_step X D now R dm = (case dm of (d, m) \<Rightarrow>
     (case xb_try_recv X (mg_queue m) of
        Inl _ \<Rightarrow> (d, m)
      | Inr (ck, q) \<Rightarrow>
          (case align_state_apply D now R d (mg_align m) ck of
             (_, d, a) \<Rightarrow> (d, m\<lparr>mg_align := a, mg_queue := q\<rparr>))))"

definition manager_get :: "'q checkpoint_manager \<Rightarrow> align_state" where
  "manager_get m = align_state_clone (mg_align m)"

definition manager_load ::
    "'d mysql \<Rightarrow> 'd \<Rightarrow> 'q checkpoint_manager \<Rightarrow> string + (operator_id, checkpoint list) hmap" where
  "manager_load D d m = align_state_load D d (mg_align m)"

section \<open>A sequence of reports\<close>

definition apply_all ::
    "'d mysql \<Rightarrow> (nat \<Rightarrow> string) \<Rightarrow> orders \<Rightarrow> checkpoint list \<Rightarrow> 'd \<times> align_state \<Rightarrow> 'd \<times> align_state" where
  "apply_all D now R = fold (\<lambda>ck (d, m). snd (align_state_apply D now R d m ck))"

section \<open>The invariant of the alignment\<close>

text \<open>
  \<open>par\<close> gives the parallelism of every operator of the plan.  While checkpoint \<open>c\<close> is
  collected, every operator holds genuine reports of its own tasks for \<open>c\<close>, one per task.
\<close>

definition plan_par :: "job_node list \<Rightarrow> operator_id \<rightharpoonup> u16" where
  "plan_par job_nodes o' = map_option oc_parallelism (map_of (fold insert_operators job_nodes []) o')"

definition genuine :: "checkpoint set \<Rightarrow> checkpoint_id \<Rightarrow> operator_id \<Rightarrow> operator_checkpoint \<Rightarrow> bool" where
  "genuine seen c o' oc \<longleftrightarrow> hm_ok (oc_current_cks oc) \<and>
     (\<forall>(n, ck)\<in>set (oc_current_cks oc). ck \<in> seen \<and> ck_operator_id ck = o'
        \<and> ck_checkpoint_id ck = c \<and> t_task_number (ck_task_id ck) = n)"

definition ops_inv ::
    "(operator_id \<rightharpoonup> u16) \<Rightarrow> checkpoint set \<Rightarrow> checkpoint_id \<Rightarrow> (operator_id, operator_checkpoint) hmap \<Rightarrow> bool" where
  "ops_inv par seen c ocs \<longleftrightarrow> hm_ok ocs \<and> (\<forall>o'. map_option oc_parallelism (map_of ocs o') = par o')
     \<and> (\<forall>o' oc. map_of ocs o' = Some oc \<longrightarrow> genuine seen c o' oc)"

definition aligned :: "(operator_id, operator_checkpoint) hmap \<Rightarrow> bool" where
  "aligned ocs \<longleftrightarrow> (\<forall>(o', oc)\<in>set ocs. operator_is_align oc)"

text \<open>A complete checkpoint: of each operator one report per parallel task, all genuine.\<close>

definition complete :: "(operator_id \<rightharpoonup> u16) \<Rightarrow> checkpoint set \<Rightarrow> checkpoint_id \<Rightarrow> checkpoint list \<Rightarrow> bool" where
  "complete par seen c cks \<longleftrightarrow>
     (\<forall>ck\<in>set cks. ck \<in> seen \<and> ck_checkpoint_id ck = c \<and> ck_operator_id ck \<in> dom par)
     \<and> (\<forall>o' p. par o' = Some p \<longrightarrow>
          length (filter (\<lambda>ck. ck_operator_id ck = o') cks) = unat p
          \<and> distinct (map (\<lambda>ck. t_task_number (ck_task_id ck))
              (filter (\<lambda>ck. ck_operator_id ck = o') cks)))"

definition all_cks :: "orders \<Rightarrow> (operator_id, operator_checkpoint) hmap \<Rightarrow> checkpoint list" where
  "all_cks R ocs = concat (map (\<lambda>(_, oc). map snd (or_tasks R (oc_current_cks oc))) (or_operators R ocs))"

lemma complete_cks_eq: "complete_cks R m = all_cks R (cm_finish_operator_cks m)"
  by (simp add: complete_cks_def all_cks_def)

lemma is_align_iff: "orders_ok R \<Longrightarrow> is_align R m \<longleftrightarrow> aligned (cm_operator_cks m)"
  by (auto simp: is_align_def unreached_operators_def aligned_def filter_empty_conv orders_ok_def
    iteration_order.set_it)

lemma complete_mono: "complete par seen c cks \<Longrightarrow> seen \<subseteq> seen' \<Longrightarrow> complete par seen' c cks"
  by (auto simp: complete_def)

lemma genuine_mono: "genuine seen c o' oc \<Longrightarrow> seen \<subseteq> seen' \<Longrightarrow> genuine seen' c o' oc"
  by (fastforce simp: genuine_def)

lemma ops_inv_mono: "ops_inv par seen c ocs \<Longrightarrow> seen \<subseteq> seen' \<Longrightarrow> ops_inv par seen' c ocs"
  unfolding ops_inv_def using genuine_mono by blast

lemma operator_apply_parallelism [simp]: "oc_parallelism (operator_apply oc ck) = oc_parallelism oc"
  by (simp add: operator_apply_def)

lemma genuine_apply:
  assumes "genuine seen c o' oc" "ck_operator_id ck = o'" "ck_checkpoint_id ck = c"
  shows "genuine (insert ck seen) c o' (operator_apply oc ck)"
proof -
  have "set (AList.update (t_task_number (ck_task_id ck)) ck xs)
      \<subseteq> insert (t_task_number (ck_task_id ck), ck) (set xs)" for xs
    by (induction xs) auto
  then show ?thesis
    using assms unfolding genuine_def operator_apply_def by (fastforce split: if_splits)
qed

lemma ops_inv_apply:
  assumes "ops_inv par seen (ck_checkpoint_id ck) ocs" "map_of ocs (ck_operator_id ck) = Some oc"
  shows "ops_inv par (insert ck seen) (ck_checkpoint_id ck)
    (AList.update (ck_operator_id ck) (operator_apply oc ck) ocs)"
  unfolding ops_inv_def
proof (intro conjI allI impI)
  show "hm_ok (AList.update (ck_operator_id ck) (operator_apply oc ck) ocs)"
    using assms by (simp add: ops_inv_def)
  fix o'
  show "map_option oc_parallelism
      (map_of (AList.update (ck_operator_id ck) (operator_apply oc ck) ocs) o') = par o'"
    using assms by (auto simp: ops_inv_def) (metis option.map(2))
  fix oc'
  assume *: "map_of (AList.update (ck_operator_id ck) (operator_apply oc ck) ocs) o' = Some oc'"
  consider "o' = ck_operator_id ck" "oc' = operator_apply oc ck" | "map_of ocs o' = Some oc'"
    using * by (cases "o' = ck_operator_id ck") simp_all
  then show "genuine (insert ck seen) (ck_checkpoint_id ck) o' oc'"
  proof cases
    case 1
    then show ?thesis using assms genuine_apply by (simp add: ops_inv_def)
  next
    case 2
    then have "genuine seen (ck_checkpoint_id ck) o' oc'" using assms by (simp add: ops_inv_def)
    then show ?thesis by (rule genuine_mono) blast
  qed
qed

lemma map_of_map_values: "map_of (map (\<lambda>(k, v). (k, g v)) xs) k = map_option g (map_of xs k)"
  by (induction xs) auto

lemma ops_inv_next:
  assumes "ops_inv par seen c (cm_operator_cks m)"
  shows "ops_inv par seen c' (cm_operator_cks (next_checkpoint m c'))"
  using assms unfolding ops_inv_def next_checkpoint_def
  by (auto simp: map_of_map_values hm_ok_def operator_checkpoint_new_def genuine_def comp_def
    case_prod_beta option.map_comp)

lemma ops_inv_enter:
  assumes "ops_inv par seen (cm_current_ck_id m) (cm_operator_cks m)"
    and "\<not> ck_num (ck_checkpoint_id ck) < ck_num (cm_current_ck_id m)"
  shows "ops_inv par seen (ck_checkpoint_id ck) (cm_operator_cks (enter_checkpoint m ck))"
    and "cm_current_ck_id (enter_checkpoint m ck) = ck_checkpoint_id ck"
proof -
  consider "ck_num (cm_current_ck_id m) < ck_num (ck_checkpoint_id ck)"
    | "cm_current_ck_id m = ck_checkpoint_id ck"
    using assms(2) checkpoint_id.expand by force
  then have "ops_inv par seen (ck_checkpoint_id ck) (cm_operator_cks (enter_checkpoint m ck))
      \<and> cm_current_ck_id (enter_checkpoint m ck) = ck_checkpoint_id ck"
  proof cases
    case 1
    then show ?thesis using ops_inv_next[OF assms(1)]
      by (simp add: enter_checkpoint_def next_checkpoint_def)
  next
    case 2
    then show ?thesis using assms(1) by (simp add: enter_checkpoint_def)
  qed
  then show "ops_inv par seen (ck_checkpoint_id ck) (cm_operator_cks (enter_checkpoint m ck))"
    and "cm_current_ck_id (enter_checkpoint m ck) = ck_checkpoint_id ck" by simp_all
qed

lemma aligned_complete:
  assumes R: "orders_ok R" and inv: "ops_inv par seen c ocs" and al: "aligned ocs"
  shows "complete par seen c (all_cks R ocs)"
proof -
  have it: "iteration_order (or_operators R)" "iteration_order (or_tasks R)"
    using R by (simp_all add: orders_ok_def)
  have ok: "hm_ok ocs" using inv by (simp add: ops_inv_def)
  have mo: "map_of (or_operators R ocs) = map_of ocs" by (rule map_of_it[OF it(1) ok])
  have dist: "distinct (map fst (or_operators R ocs))"
    using ok mset_eq_imp_distinct_iff[of "map fst (or_operators R ocs)" "map fst ocs"]
    by (simp add: hm_ok_def iteration_order.mset_it[OF it(1)])
  have tasks: "set (or_tasks R m) = set m" for m by (rule iteration_order.set_it[OF it(2)])
  have gen: "genuine seen c o' oc" "map_of ocs o' = Some oc" if "(o', oc) \<in> set (or_operators R ocs)" for o' oc
    using inv ok that by (auto simp: ops_inv_def hm_ok_def iteration_order.set_it[OF it(1)])
  have sel: "filter (\<lambda>ck. ck_operator_id ck = o') (all_cks R ocs) =
      (case map_of ocs o' of None \<Rightarrow> [] | Some oc \<Rightarrow> map snd (or_tasks R (oc_current_cks oc)))" for o'
    unfolding all_cks_def mo[symmetric]
    by (rule filter_concat_keyed[OF dist]) (use gen(1) tasks in \<open>fastforce simp: genuine_def\<close>)
  have "\<forall>ck\<in>set (all_cks R ocs). ck \<in> seen \<and> ck_checkpoint_id ck = c \<and> ck_operator_id ck \<in> dom par"
  proof
    fix ck
    assume "ck \<in> set (all_cks R ocs)"
    then obtain o' oc n where o: "(o', oc) \<in> set (or_operators R ocs)" "(n, ck) \<in> set (oc_current_cks oc)"
      by (auto simp: all_cks_def tasks)
    moreover have "par o' = Some (oc_parallelism oc)"
      using inv gen(2)[OF o(1)] by (metis ops_inv_def option.map(2))
    ultimately show "ck \<in> seen \<and> ck_checkpoint_id ck = c \<and> ck_operator_id ck \<in> dom par"
      using gen(1)[OF o(1)] by (auto simp: genuine_def)
  qed
  moreover have "length (filter (\<lambda>ck. ck_operator_id ck = o') (all_cks R ocs)) = unat p
      \<and> distinct (map (\<lambda>ck. t_task_number (ck_task_id ck))
          (filter (\<lambda>ck. ck_operator_id ck = o') (all_cks R ocs)))" if p: "par o' = Some p" for o' p
  proof -
    obtain oc where oc: "map_of ocs o' = Some oc" "oc_parallelism oc = p"
      using inv p by (metis (no_types, lifting) map_option_eq_Some ops_inv_def)
    have g: "genuine seen c o' oc" using inv oc(1) by (simp add: ops_inv_def)
    have "map (\<lambda>ck. t_task_number (ck_task_id ck)) (map snd (or_tasks R (oc_current_cks oc)))
        = map fst (or_tasks R (oc_current_cks oc))"
      using g tasks by (auto simp: genuine_def)
    moreover have "distinct (map fst (or_tasks R (oc_current_cks oc)))"
      using g mset_eq_imp_distinct_iff[of "map fst (or_tasks R (oc_current_cks oc))" "map fst (oc_current_cks oc)"]
      by (simp add: genuine_def hm_ok_def iteration_order.mset_it[OF it(2)])
    moreover have "length (oc_current_cks oc) = unat p"
      using al oc map_of_SomeD[OF oc(1)] by (auto simp: aligned_def operator_is_align_def)
    ultimately show ?thesis
      unfolding sel oc(1) option.case by (simp only: length_map iteration_order.length_it[OF it(2)])
  qed
  ultimately show ?thesis unfolding complete_def by blast
qed

section \<open>What the storage holds\<close>

text \<open>
  Whatever is stored under a number is a whole number of copies of one complete set of
  reports (a report repeated after the alignment saves the set again), and the number is
  not newer than the current one.
\<close>

definition store_inv ::
    "ck_row multiset \<Rightarrow> string \<Rightarrow> string \<Rightarrow> orders \<Rightarrow> (operator_id \<rightharpoonup> u16) \<Rightarrow> checkpoint set \<Rightarrow>
     checkpoint_id \<Rightarrow> (operator_id, operator_checkpoint) hmap \<Rightarrow> bool" where
  "store_inv T a i R par seen current ocs \<longleftrightarrow> (\<forall>c. saved T a i c \<noteq> {#} \<longrightarrow> c \<le> current \<and>
     (\<exists>k cks. complete par seen c cks \<and> saved T a i c = repeat_mset k (mset (map (stored c) cks))
        \<and> (c = current \<longrightarrow> aligned ocs \<and> cks = all_cks R ocs)))"

lemma aligned_unchanged:
  assumes "aligned ocs" "map_of ocs o' = Some oc"
  shows "AList.update o' (operator_apply oc ck) ocs = ocs"
  using assms map_of_SomeD[OF assms(2)] by (auto simp: aligned_def operator_apply_def update_triv)

lemma store_inv_mono:
  "store_inv T a i R par seen c ocs \<Longrightarrow> seen \<subseteq> seen' \<Longrightarrow> store_inv T a i R par seen' c ocs"
  unfolding store_inv_def using complete_mono by meson

lemma store_inv_enter:
  assumes "store_inv T a i R par seen (cm_current_ck_id m) (cm_operator_cks m)"
    and "\<not> ck_num (ck_checkpoint_id ck) < ck_num (cm_current_ck_id m)"
  shows "store_inv T a i R par seen (ck_checkpoint_id ck) (cm_operator_cks (enter_checkpoint m ck))"
proof -
  consider "cm_current_ck_id m < ck_checkpoint_id ck" | "cm_current_ck_id m = ck_checkpoint_id ck"
    using assms(2) checkpoint_id.expand[of "cm_current_ck_id m" "ck_checkpoint_id ck"]
    by (force simp: less_checkpoint_id_def)
  then show ?thesis
  proof cases
    case 1
    then have "c \<le> cm_current_ck_id m \<Longrightarrow> c \<le> ck_checkpoint_id ck \<and> c \<noteq> ck_checkpoint_id ck" for c
      by auto
    then show ?thesis using assms(1) unfolding store_inv_def by blast
  next
    case 2
    then show ?thesis using assms(1) by (simp add: enter_checkpoint_def)
  qed
qed

lemma store_inv_record:
  assumes "store_inv T a i R par seen c ocs" "map_of ocs o' = Some oc"
  shows "store_inv T a i R par seen c (AList.update o' (operator_apply oc ck) ocs)"
proof (cases "aligned ocs")
  case True
  then show ?thesis using assms aligned_unchanged by simp
next
  case False
  then have "\<And>cks. (c' = c \<longrightarrow> aligned ocs \<and> cks = all_cks R ocs) = (c' \<noteq> c)" for c' by blast
  then show ?thesis using assms(1) unfolding store_inv_def by simp metis
qed

context reliable_db
begin

lemma store_inv_save:
  assumes inv: "store_inv (table d (ms_table s)) a i R par seen c ocs"
    and comp: "complete par seen c (all_cks R ocs)" and al: "aligned ocs"
    and save: "mysql_save D now d s a i c (all_cks R ocs) ttl = (Inr (), d')"
  shows "store_inv (table d' (ms_table s)) a i R par seen c ocs"
  unfolding store_inv_def
proof (intro allI impI)
  fix c'
  assume ne: "saved (table d' (ms_table s)) a i c' \<noteq> {#}"
  show "c' \<le> c \<and> (\<exists>k cks. complete par seen c' cks
     \<and> saved (table d' (ms_table s)) a i c' = repeat_mset k (mset (map (stored c') cks))
     \<and> (c' = c \<longrightarrow> aligned ocs \<and> cks = all_cks R ocs))"
  proof (cases "c' = c")
    case True
    obtain k where k: "saved (table d (ms_table s)) a i c = repeat_mset k (mset (map (stored c) (all_cks R ocs)))"
    proof (cases "saved (table d (ms_table s)) a i c = {#}")
      case True
      then show ?thesis using that[of 0] by simp
    next
      case False
      then show ?thesis using inv that unfolding store_inv_def by blast
    qed
    have "saved (table d' (ms_table s)) a i c = repeat_mset (Suc k) (mset (map (stored c) (all_cks R ocs)))"
      unfolding save_saved[OF save] k by (simp add: add.commute)
    then show ?thesis using True comp al by blast
  next
    case False
    then have "saved (table d' (ms_table s)) a i c' = saved (table d (ms_table s)) a i c'"
      using ne save_other[OF save False] save_dropped[OF save False] by (meson not_less)
    then show ?thesis using inv ne False unfolding store_inv_def by metis
  qed
qed

end

section \<open>A run of the manager\<close>

lemma insert_operators_new:
  assumes "hm_ok m" "\<And>o' oc. map_of m o' = Some oc \<Longrightarrow> oc_current_cks oc = []"
  shows "hm_ok (fold insert_operators jobs m)
    \<and> (\<forall>o' oc. map_of (fold insert_operators jobs m) o' = Some oc \<longrightarrow> oc_current_cks oc = [])"
proof -
  let ?P = "\<lambda>m. hm_ok m \<and> (\<forall>o' oc. map_of m o' = Some oc \<longrightarrow> oc_current_cks oc = [])"
  have one: "?P m \<Longrightarrow> ?P (AList.update k (operator_checkpoint_new j k n p) m)" for m k j n p
    by (simp add: operator_checkpoint_new_def)
  have "?P m \<Longrightarrow> ?P (insert_operators j m)" for j m
    unfolding insert_operators_def
    by (rule fold_invariant[where Q = "\<lambda>_. True" and P = ?P]) (use one in blast)+
  then show ?thesis
    using fold_invariant[where Q = "\<lambda>_. True" and P = ?P and xs = jobs and f = insert_operators and s = m] assms
    by blast
qed

lemma ops_inv_new: "ops_inv (plan_par jobs) {} c (fold insert_operators jobs [])"
  using insert_operators_new[of "[]" jobs] by (auto simp: ops_inv_def plan_par_def genuine_def)

lemma enter_fields [simp]:
  "cm_storage (enter_checkpoint m ck) = cm_storage m"
  "cm_application_name (enter_checkpoint m ck) = cm_application_name m"
  "cm_application_id (enter_checkpoint m ck) = cm_application_id m"
  by (simp_all add: enter_checkpoint_def next_checkpoint_def)

text \<open>Some operator of the plan has a task.\<close>

definition has_tasks :: "(operator_id \<rightharpoonup> u16) \<Rightarrow> bool" where
  "has_tasks par \<longleftrightarrow> (\<exists>o' p. par o' = Some p \<and> 0 < unat p)"

lemma complete_nonempty: "complete par seen c cks \<Longrightarrow> has_tasks par \<Longrightarrow> cks \<noteq> []"
  by (auto simp: complete_def has_tasks_def)

lemma next_not_aligned:
  assumes "has_tasks par" "ops_inv par seen c (cm_operator_cks m)"
  shows "\<not> aligned (cm_operator_cks (next_checkpoint m c'))"
proof -
  obtain o' p where p: "par o' = Some p" "0 < unat p" using assms(1) by (auto simp: has_tasks_def)
  then obtain oc where "map_of (cm_operator_cks m) o' = Some oc" "oc_parallelism oc = p"
    using assms(2) by (metis (no_types, lifting) map_option_eq_Some ops_inv_def)
  then show ?thesis using p map_of_SomeD[of "cm_operator_cks m" o' oc]
    by (force simp: next_checkpoint_def aligned_def operator_checkpoint_new_def operator_is_align_def)
qed

context reliable_db
begin

definition run_inv ::
    "mysql_storage \<Rightarrow> string \<Rightarrow> string \<Rightarrow> orders \<Rightarrow> (operator_id \<rightharpoonup> u16) \<Rightarrow> checkpoint set \<Rightarrow> 'a \<Rightarrow>
     align_state \<Rightarrow> bool" where
  "run_inv s a i R par seen d m \<longleftrightarrow> cm_storage m = Some (MySqlCheckpointStorage s)
     \<and> cm_application_name m = a \<and> cm_application_id m = i
     \<and> ops_inv par seen (cm_current_ck_id m) (cm_operator_cks m)
     \<and> store_inv (table d (ms_table s)) a i R par seen (cm_current_ck_id m) (cm_operator_cks m)
     \<and> (has_tasks par \<longrightarrow> aligned (cm_operator_cks m) \<longrightarrow> cm_current_ck_id m \<noteq> checkpoint_id_default \<longrightarrow>
          saved (table d (ms_table s)) a i (cm_current_ck_id m) \<noteq> {#})"

lemma run_inv_enter:
  assumes "run_inv s a i R par seen d m" "\<not> ck_num (ck_checkpoint_id ck) < ck_num (cm_current_ck_id m)"
  shows "run_inv s a i R par (insert ck seen) d (enter_checkpoint m ck)"
    and "cm_current_ck_id (enter_checkpoint m ck) = ck_checkpoint_id ck"
proof -
  have o: "ops_inv par seen (cm_current_ck_id m) (cm_operator_cks m)"
    and st: "store_inv (table d (ms_table s)) a i R par seen (cm_current_ck_id m) (cm_operator_cks m)"
    using assms(1) by (simp_all add: run_inv_def)
  note enter = ops_inv_enter[OF o assms(2)]
  show "cm_current_ck_id (enter_checkpoint m ck) = ck_checkpoint_id ck" by (rule enter(2))
  have "has_tasks par \<Longrightarrow> aligned (cm_operator_cks (enter_checkpoint m ck)) \<Longrightarrow>
      cm_operator_cks (enter_checkpoint m ck) = cm_operator_cks m
      \<and> cm_current_ck_id (enter_checkpoint m ck) = cm_current_ck_id m"
    using next_not_aligned[OF _ o] by (auto simp: enter_checkpoint_def split: if_splits)
  moreover have "ops_inv par (insert ck seen) (ck_checkpoint_id ck) (cm_operator_cks (enter_checkpoint m ck))"
    by (rule ops_inv_mono[OF enter(1)]) blast
  moreover have "store_inv (table d (ms_table s)) a i R par (insert ck seen) (ck_checkpoint_id ck)
      (cm_operator_cks (enter_checkpoint m ck))"
    by (rule store_inv_mono[OF store_inv_enter[OF st assms(2)]]) blast
  ultimately show "run_inv s a i R par (insert ck seen) d (enter_checkpoint m ck)"
    using assms(1) enter(2) unfolding run_inv_def by auto
qed

lemma run_inv_step:
  assumes R: "orders_ok R" and inv: "run_inv s a i R par seen d m"
    and step: "align_state_apply D now R d m ck = (r, d', m')"
  shows "run_inv s a i R par (insert ck seen) d' m'"
proof (cases "ck_num (ck_checkpoint_id ck) < ck_num (cm_current_ck_id m)")
  case True
  then have "d' = d" "m' = m" using step by (simp_all add: align_state_apply_def)
  moreover have "ops_inv par (insert ck seen) (cm_current_ck_id m) (cm_operator_cks m)"
    by (rule ops_inv_mono[of _ seen]) (use inv in \<open>auto simp: run_inv_def\<close>)
  moreover have "store_inv (table d (ms_table s)) a i R par (insert ck seen) (cm_current_ck_id m)
      (cm_operator_cks m)"
    by (rule store_inv_mono[of _ _ _ _ _ seen]) (use inv in \<open>auto simp: run_inv_def\<close>)
  ultimately show ?thesis using inv by (simp add: run_inv_def)
next
  case False
  let ?e = "enter_checkpoint m ck"
  note e = run_inv_enter[OF inv False]
  show ?thesis
  proof (cases "map_of (cm_operator_cks ?e) (ck_operator_id ck)")
    case None
    then show ?thesis using step False e(1) by (simp add: align_state_apply_def)
  next
    case (Some oc)
    let ?ocs = "AList.update (ck_operator_id ck) (operator_apply oc ck) (cm_operator_cks ?e)"
    let ?m = "?e\<lparr>cm_operator_cks := ?ocs\<rparr>"
    have o0: "ops_inv par (insert ck seen) (ck_checkpoint_id ck) (cm_operator_cks ?e)"
      and st0: "store_inv (table d (ms_table s)) a i R par (insert ck seen) (ck_checkpoint_id ck) (cm_operator_cks ?e)"
      and f: "cm_storage ?e = Some (MySqlCheckpointStorage s)" "cm_application_name ?e = a"
        "cm_application_id ?e = i"
      using e by (simp_all add: run_inv_def)
    have o: "ops_inv par (insert ck seen) (ck_checkpoint_id ck) ?ocs"
      using ops_inv_apply[OF o0 Some] by simp
    have st: "store_inv (table d (ms_table s)) a i R par (insert ck seen) (ck_checkpoint_id ck) ?ocs"
      by (rule store_inv_record[OF st0 Some])
    show ?thesis
    proof (cases "aligned ?ocs")
      case al: False
      then have "d' = d" "m' = ?m" using step False Some
        by (auto simp: align_state_apply_def Let_def is_align_iff[OF R])
      then show ?thesis using f o st e(2) al by (simp add: run_inv_def)
    next
      case al: True
      have comp: "complete par (insert ck seen) (ck_checkpoint_id ck) (all_cks R ?ocs)"
        by (rule aligned_complete[OF R o al])
      obtain d1 where save: "mysql_save D now d s a i (ck_checkpoint_id ck) (all_cks R ?ocs)
          (of_nat (cm_checkpoint_ttl ?e)) = (Inr (), d1)"
        using save_succeeds by blast
      have m': "d' = d1" "m' = ?m\<lparr>cm_finish_operator_cks := ?ocs,
          cm_storage := Some (MySqlCheckpointStorage s)\<rparr>"
        using step False Some al f e(2) save
        by (auto simp: align_state_apply_def Let_def is_align_iff[OF R] finish_checkpoint_def complete_cks_eq)
      have "has_tasks par \<Longrightarrow> saved (table d1 (ms_table s)) a i (ck_checkpoint_id ck) \<noteq> {#}"
        using complete_nonempty[OF comp] by (simp add: save_saved[OF save])
      then show ?thesis
        using m' f o e(2) store_inv_save[OF st comp al save] by (simp add: run_inv_def)
    qed
  qed
qed

lemma run_inv_all:
  assumes "orders_ok R"
  shows "run_inv s a i R par seen d m \<Longrightarrow> apply_all D now R rs (d, m) = (d', m') \<Longrightarrow>
    run_inv s a i R par (set rs \<union> seen) d' m'"
proof (induction rs arbitrary: seen d m)
  case Nil
  then show ?case by (simp add: apply_all_def)
next
  case (Cons ck rs)
  obtain r d1 m1 where step: "align_state_apply D now R d m ck = (r, d1, m1)" by (rule prod_cases3)
  then have "apply_all D now R rs (d1, m1) = (d', m')" using Cons.prems(2) by (simp add: apply_all_def)
  from Cons.IH[OF run_inv_step[OF assms Cons.prems(1) step] this] show ?case by simp
qed

lemma run_inv_new:
  assumes "\<And>c. saved (table d (ms_table (mysql_storage_new url t))) a i c = {#}"
  shows "run_inv (mysql_storage_new url t) a i R (plan_par jobs) {} d
    (align_state_new jobs (Some (MySql url t)) a i ttl)"
  using ops_inv_new[of jobs] assms
  by (auto simp: run_inv_def align_state_new_def store_inv_def)

end

section \<open>Complete sets of reports\<close>

text \<open>
  A report of the plan names an operator of the plan and one of its tasks.  While all
  numbers stay below \<open>c\<close>, the manager keeps the first report of every task for \<open>c\<close>.
\<close>

definition in_plan :: "(operator_id \<rightharpoonup> u16) \<Rightarrow> checkpoint \<Rightarrow> bool" where
  "in_plan par ck \<longleftrightarrow> (case par (ck_operator_id ck) of None \<Rightarrow> False
     | Some p \<Rightarrow> t_task_number (ck_task_id ck) < p)"

definition task_keys :: "operator_checkpoint \<Rightarrow> u16 set" where
  "task_keys oc = fst ` set (oc_current_cks oc)"

definition covered :: "checkpoint_id \<Rightarrow> checkpoint set \<Rightarrow> align_state \<Rightarrow> bool" where
  "covered c seen m \<longleftrightarrow> cm_current_ck_id m \<le> c \<and> (\<forall>ck\<in>seen. ck_checkpoint_id ck = c \<longrightarrow> cm_current_ck_id m = c
     \<and> (\<exists>oc. map_of (cm_operator_cks m) (ck_operator_id ck) = Some oc
          \<and> t_task_number (ck_task_id ck) \<in> task_keys oc))"

lemma genuine_aligned_keys:
  assumes "genuine seen c o' oc" "\<forall>ck\<in>seen. ck_checkpoint_id ck = c \<longrightarrow> in_plan par ck"
    and "par o' = Some (oc_parallelism oc)"
  shows "operator_is_align oc \<longleftrightarrow> task_keys oc = {n. n < oc_parallelism oc}"
proof -
  have "set (map fst (oc_current_cks oc)) \<subseteq> {n. n < oc_parallelism oc}"
    using assms by (force simp: genuine_def in_plan_def)
  moreover have "distinct (map fst (oc_current_cks oc))"
    using assms(1) by (simp add: genuine_def hm_ok_def)
  ultimately show ?thesis
    using distinct_words_below[of "map fst (oc_current_cks oc)"]
    by (simp add: operator_is_align_def task_keys_def)
qed

lemma operator_apply_keys:
  "task_keys (operator_apply oc ck) = (if operator_is_align oc then task_keys oc
     else insert (t_task_number (ck_task_id ck)) (task_keys oc))"
proof -
  have "fst ` set (AList.update k v xs) = insert k (fst ` set xs)" for k v and xs :: "(u16 \<times> checkpoint) list"
    by (metis dom_map_of_conv_image_fst dom_fun_upd map_of_update_hm option.distinct(1))
  then show ?thesis
    by (auto simp: task_keys_def operator_apply_def dom_map_of_conv_image_fst[symmetric] insert_absorb)
qed

lemma align_state_apply_ops:
  assumes "align_state_apply D now R d m ck = (r, d', m')"
    and "\<not> ck_num (ck_checkpoint_id ck) < ck_num (cm_current_ck_id m)"
  shows "cm_current_ck_id m' = cm_current_ck_id (enter_checkpoint m ck)
    \<and> cm_operator_cks m' =
       (case map_of (cm_operator_cks (enter_checkpoint m ck)) (ck_operator_id ck) of
          None \<Rightarrow> cm_operator_cks (enter_checkpoint m ck)
        | Some oc \<Rightarrow> AList.update (ck_operator_id ck) (operator_apply oc ck)
            (cm_operator_cks (enter_checkpoint m ck)))"
  using assms by (auto simp: align_state_apply_def finish_checkpoint_def Let_def
    split: option.splits if_splits prod.splits)

lemma ops_inv_step:
  assumes inv: "ops_inv par seen (cm_current_ck_id m) (cm_operator_cks m)"
    and step: "align_state_apply D now R d m ck = (r, d', m')"
  shows "ops_inv par (insert ck seen) (cm_current_ck_id m') (cm_operator_cks m')"
proof (cases "ck_num (ck_checkpoint_id ck) < ck_num (cm_current_ck_id m)")
  case True
  then have "m' = m" using step by (simp add: align_state_apply_def)
  then show ?thesis using ops_inv_mono[OF inv, of "insert ck seen"] by blast
next
  case False
  let ?e = "enter_checkpoint m ck"
  note e = ops_inv_enter[OF inv False]
  show ?thesis
    using align_state_apply_ops[OF step False] e ops_inv_apply[OF e(1)]
      ops_inv_mono[OF e(1), of "insert ck seen"]
    by (auto split: option.splits)
qed

lemma covered_step:
  assumes inv: "ops_inv par seen (cm_current_ck_id m) (cm_operator_cks m)"
    and plan: "\<forall>k\<in>insert ck seen. ck_checkpoint_id k = c \<longrightarrow> in_plan par k"
    and le: "ck_checkpoint_id ck \<le> c" and cov: "covered c seen m"
    and step: "align_state_apply D now R d m ck = (r, d', m')"
  shows "covered c (insert ck seen) m'"
proof (cases "ck_num (ck_checkpoint_id ck) < ck_num (cm_current_ck_id m)")
  case True
  then have "m' = m" using step by (simp add: align_state_apply_def)
  moreover have "ck_checkpoint_id ck \<noteq> c"
    using True cov by (auto simp: covered_def less_eq_checkpoint_id_def)
  ultimately show ?thesis using cov by (simp add: covered_def)
next
  case False
  let ?e = "enter_checkpoint m ck"
  let ?n = "t_task_number (ck_task_id ck)"
  have o: "ops_inv par seen (ck_checkpoint_id ck) (cm_operator_cks ?e)"
    and cur: "cm_current_ck_id ?e = ck_checkpoint_id ck"
    by (rule ops_inv_enter[OF inv False])+
  note m' = align_state_apply_ops[OF step False, THEN conjunct1]
    align_state_apply_ops[OF step False, THEN conjunct2]
  have grow: "\<exists>oc'. map_of (cm_operator_cks m') o' = Some oc' \<and> task_keys oc \<subseteq> task_keys oc'"
    if "map_of (cm_operator_cks ?e) o' = Some oc" for o' oc
    using that by (auto simp: m'(2) operator_apply_keys split: option.splits)
  have new: "\<exists>oc. map_of (cm_operator_cks m') (ck_operator_id ck) = Some oc \<and> ?n \<in> task_keys oc"
    if "ck_checkpoint_id ck = c"
  proof -
    have ip: "in_plan par ck" using plan that by blast
    then obtain oc where oc: "map_of (cm_operator_cks ?e) (ck_operator_id ck) = Some oc"
        "par (ck_operator_id ck) = Some (oc_parallelism oc)"
      using o by (auto simp: in_plan_def ops_inv_def split: option.splits) (metis map_option_eq_Some)
    have "genuine seen (ck_checkpoint_id ck) (ck_operator_id ck) oc"
      using o oc(1) by (simp add: ops_inv_def)
    then have "operator_is_align oc \<longleftrightarrow> task_keys oc = {n. n < oc_parallelism oc}"
      by (rule genuine_aligned_keys[where par = par]) (use plan that oc(2) in simp_all)
    then have "?n \<in> task_keys (operator_apply oc ck)"
      using ip oc(2) by (auto simp: operator_apply_keys in_plan_def)
    then show ?thesis using oc(1) by (simp add: m'(2))
  qed
  have old: "ck_checkpoint_id ck = c \<and> (\<exists>oc. map_of (cm_operator_cks ?e) (ck_operator_id k) = Some oc
      \<and> t_task_number (ck_task_id k) \<in> task_keys oc)" if "k \<in> seen" "ck_checkpoint_id k = c" for k
  proof -
    have c: "cm_current_ck_id m = c" using cov that by (simp add: covered_def)
    then have "\<not> ck_checkpoint_id ck < c" using False by (simp add: less_checkpoint_id_def)
    then have "ck_checkpoint_id ck = c" using le by simp
    then show ?thesis using cov that c by (simp add: covered_def enter_checkpoint_def)
  qed
  show ?thesis
    unfolding covered_def m'(1) cur
  proof (intro conjI ballI impI)
    show "ck_checkpoint_id ck \<le> c" by (rule le)
    fix k
    assume k: "k \<in> insert ck seen" "ck_checkpoint_id k = c"
    show "ck_checkpoint_id ck = c" using k old[of k] by blast
    show "\<exists>oc. map_of (cm_operator_cks m') (ck_operator_id k) = Some oc
        \<and> t_task_number (ck_task_id k) \<in> task_keys oc"
    proof (cases "k = ck")
      case True
      then show ?thesis using new k by simp
    next
      case False
      then obtain oc where oc: "map_of (cm_operator_cks ?e) (ck_operator_id k) = Some oc"
          "t_task_number (ck_task_id k) \<in> task_keys oc"
        using old[of k] k by blast
      from grow[OF oc(1)] show ?thesis using oc(2) by blast
    qed
  qed
qed

lemma covered_all:
  assumes "\<forall>k\<in>set rs \<union> seen. ck_checkpoint_id k = c \<longrightarrow> in_plan par k"
    "\<forall>k\<in>set rs. ck_checkpoint_id k \<le> c"
  shows "ops_inv par seen (cm_current_ck_id m) (cm_operator_cks m) \<Longrightarrow> covered c seen m \<Longrightarrow>
    apply_all D now R rs (d, m) = (d', m') \<Longrightarrow> covered c (set rs \<union> seen) m'"
  using assms
proof (induction rs arbitrary: seen d m)
  case Nil
  then show ?case by (simp add: apply_all_def)
next
  case (Cons ck rs)
  obtain r d1 m1 where step: "align_state_apply D now R d m ck = (r, d1, m1)" by (rule prod_cases3)
  then have rest: "apply_all D now R rs (d1, m1) = (d', m')" using Cons.prems(3) by (simp add: apply_all_def)
  have cov: "covered c (insert ck seen) m1"
    by (rule covered_step[OF Cons.prems(1) _ _ Cons.prems(2) step]) (use Cons.prems(4,5) in auto)
  have ops: "ops_inv par (insert ck seen) (cm_current_ck_id m1) (cm_operator_cks m1)"
    by (rule ops_inv_step[OF Cons.prems(1) step])
  show ?case using Cons.IH[OF ops cov rest] Cons.prems(4,5) by simp
qed

section \<open>Reading the reports back\<close>

lemma completed_checkpoint_id_in:
  assumes "completed_checkpoint_id cks \<noteq> checkpoint_id_default"
  shows "\<exists>ck\<in>set cks. ck_completed_checkpoint_id ck = Some (completed_checkpoint_id cks)"
proof -
  let ?ds = "filter (\<lambda>c. case ck_completed_checkpoint_id c of None \<Rightarrow> False | Some n \<Rightarrow> ck_num n > 0) cks"
  obtain n ns where ns: "map completed_of ?ds = n # ns"
    using assms by (cases "map completed_of ?ds") (auto simp: completed_checkpoint_id_def)
  then have "completed_checkpoint_id cks = fold min ns n" by (simp add: completed_checkpoint_id_def)
  also have "\<dots> = Min (set (n # ns))" by (rule Min.set_eq_fold[symmetric])
  also have "\<dots> \<in> set (n # ns)" by (rule Min_in) simp_all
  finally have "completed_checkpoint_id cks \<in> completed_of ` set ?ds" by (simp flip: ns)
  then show ?thesis by (auto simp: completed_of_def split: option.splits)
qed

lemma map_of_group_by_operator:
  "map_of (group_by_operator cks) o' =
     (case filter (\<lambda>ck. ck_operator_id ck = o') cks of [] \<Rightarrow> None | cs \<Rightarrow> Some cs)"
proof (induction cks rule: rev_induct)
  case Nil
  then show ?case by (simp add: group_by_operator_def)
next
  case (snoc ck cks)
  have "group_by_operator (cks @ [ck]) = AList.update (ck_operator_id ck)
      ((case map_of (group_by_operator cks) (ck_operator_id ck) of None \<Rightarrow> [] | Some cs \<Rightarrow> cs) @ [ck])
      (group_by_operator cks)"
    by (simp add: group_by_operator_def)
  then show ?case using snoc by (auto split: list.splits option.splits)
qed

text \<open>
  What a restart needs of the loaded reports: every operator finds one for each of its
  tasks, and all of them are reports of the same checkpoint by that operator.
\<close>

definition recovers ::
    "(operator_id \<rightharpoonup> u16) \<Rightarrow> checkpoint set \<Rightarrow> checkpoint_id \<Rightarrow> (operator_id, checkpoint list) hmap \<Rightarrow> bool" where
  "recovers par seen c groups \<longleftrightarrow> (\<forall>o' p n. par o' = Some p \<longrightarrow> n < p \<longrightarrow>
     (\<exists>cs. map_of groups o' = Some cs \<and> (\<exists>ck\<in>set cs. t_task_number (ck_task_id ck) = n)
        \<and> (\<forall>ck\<in>set cs. \<exists>r\<in>seen. ck = stored c r \<and> ck_operator_id r = o' \<and> ck_checkpoint_id r = c)))"

lemma stored_fields [simp]:
  "ck_operator_id (stored c r) = ck_operator_id r" "ck_task_id (stored c r) = ck_task_id r"
  "ck_handle (stored c r) = ck_handle r" "ck_checkpoint_id (stored c r) = c"
  by (simp_all add: stored_def)

lemma complete_has_task:
  assumes comp: "complete par seen c cks" and plan: "\<forall>r\<in>seen. in_plan par r"
    and p: "par o' = Some p" "n < p"
  shows "\<exists>r\<in>set cks. ck_operator_id r = o' \<and> t_task_number (ck_task_id r) = n"
proof -
  let ?mine = "filter (\<lambda>ck. ck_operator_id ck = o') cks"
  let ?ns = "map (\<lambda>ck. t_task_number (ck_task_id ck)) ?mine"
  have "distinct ?ns" "length ?ns = unat p" using comp p(1) by (simp_all add: complete_def)
  moreover have "set ?ns \<subseteq> {n. n < p}"
    using comp plan p(1) by (force simp: complete_def in_plan_def)
  ultimately have "set ?ns = {n. n < p}" using distinct_words_below by blast
  then have "n \<in> set ?ns" using p(2) by blast
  then show ?thesis by auto
qed

lemma recovers_group:
  assumes comp: "complete par seen c cks" and plan: "\<forall>r\<in>seen. in_plan par r"
    and L: "set L = stored c ` set cks"
  shows "recovers par seen c (group_by_operator L)"
  unfolding recovers_def
proof (intro allI impI)
  fix o' p n
  assume p: "par o' = Some p" "n < p"
  let ?cs = "filter (\<lambda>ck. ck_operator_id ck = o') L"
  obtain r where r: "r \<in> set cks" "ck_operator_id r = o'" "t_task_number (ck_task_id r) = n"
    using complete_has_task[OF comp plan p] by blast
  then have r': "stored c r \<in> set ?cs" using L by simp
  then have "map_of (group_by_operator L) o' = Some ?cs"
    by (cases ?cs) (simp_all add: map_of_group_by_operator)
  moreover have "\<forall>ck\<in>set ?cs. \<exists>r\<in>seen. ck = stored c r \<and> ck_operator_id r = o' \<and> ck_checkpoint_id r = c"
    using comp L by (auto simp: complete_def)
  moreover have "\<exists>ck\<in>set ?cs. t_task_number (ck_task_id ck) = n" using r' r(3) by force
  ultimately show "\<exists>cs. map_of (group_by_operator L) o' = Some cs
      \<and> (\<exists>ck\<in>set cs. t_task_number (ck_task_id ck) = n)
      \<and> (\<forall>ck\<in>set cs. \<exists>r\<in>seen. ck = stored c r \<and> ck_operator_id r = o' \<and> ck_checkpoint_id r = c)"
    by blast
qed

lemma latest_saved:
  assumes "saved T a i c0 \<noteq> {#}"
  shows "\<exists>c. saved T a i c \<noteq> {#} \<and> (\<forall>c'. c < c' \<longrightarrow> saved T a i c' = {#})"
proof -
  let ?C = "{c. saved T a i c \<noteq> {#}}"
  have "?C \<subseteq> (\<lambda>r. CheckpointId (r_checkpoint_id r)) ` set_mset T"
    by (force simp: saved_def image_iff intro: checkpoint_id.expand)
  then have fin: "finite ?C" by (rule finite_subset) simp
  have "Max ?C \<in> ?C" by (rule Max_in[OF fin]) (use assms in blast)
  moreover have "saved T a i c' = {#}" if "Max ?C < c'" for c'
    using Max_ge[OF fin, of c'] that by (meson leD mem_Collect_eq)
  ultimately show ?thesis by blast
qed

context reliable_db
begin

lemma run_saved:
  assumes "run_inv s a i R par seen d m" "saved (table d (ms_table s)) a i c \<noteq> {#}"
  shows "\<exists>k cks. complete par seen c cks
    \<and> saved (table d (ms_table s)) a i c = repeat_mset k (mset (map (stored c) cks))"
  using assms unfolding run_inv_def store_inv_def by blast

lemma run_saved_set:
  assumes "run_inv s a i R par seen d m" "saved (table d (ms_table s)) a i c \<noteq> {#}"
    "mset L = saved (table d (ms_table s)) a i c"
  shows "\<exists>cks. complete par seen c cks \<and> set L = stored c ` set cks"
proof -
  obtain k cks where k: "complete par seen c cks"
    "saved (table d (ms_table s)) a i c = repeat_mset k (mset (map (stored c) cks))"
    using run_saved[OF assms(1,2)] by blast
  then have "0 < k" using assms(2) by (cases k) auto
  have "set_mset (repeat_mset j M) \<subseteq> set_mset M" for j and M :: "checkpoint multiset"
    by (induction j) auto
  then have "set_mset (repeat_mset k M) = set_mset M" for M :: "checkpoint multiset"
    using \<open>0 < k\<close> by (cases k) (simp_all add: Un_absorb2)
  then have "set_mset (mset L) = set_mset (mset (map (stored c) cks))" using k(2) assms(3) by simp
  then show ?thesis using k(1) by auto
qed

lemma load_recovers:
  assumes inv: "run_inv s a i R par seen d m" and plan: "\<forall>r\<in>seen. in_plan par r"
    and some: "saved (table d (ms_table s)) a i c0 \<noteq> {#}"
    and kept: "\<And>r n. r \<in> seen \<Longrightarrow> ck_completed_checkpoint_id r = Some n \<Longrightarrow> n \<noteq> checkpoint_id_default \<Longrightarrow>
      saved (table d (ms_table s)) a i n \<noteq> {#}"
    and m0: "cm_storage m0 = Some (MySqlCheckpointStorage s)" "cm_application_name m0 = a"
      "cm_application_id m0 = i"
  shows "\<exists>groups c. align_state_load D d m0 = Inr groups \<and> recovers par seen c groups"
proof -
  let ?T = "table d (ms_table s)"
  obtain c where c: "saved ?T a i c \<noteq> {#}" "\<forall>c'. c < c' \<longrightarrow> saved ?T a i c' = {#}"
    using latest_saved[OF some] by blast
  obtain L where L: "mysql_load D d s a i = Inr L" using load_succeeds by blast
  have mL: "mset L = saved ?T a i c" by (rule load_saved[OF L c(1)]) (use c(2) in blast)
  obtain cks where cks: "complete par seen c cks" "set L = stored c ` set cks"
    using run_saved_set[OF inv c(1) mL] by blast
  show ?thesis
  proof (cases "completed_checkpoint_id L = checkpoint_id_default")
    case True
    then have "align_state_load D d m0 = Inr (group_by_operator L)"
      using m0 L by (simp add: align_state_load_def)
    then show ?thesis using recovers_group[OF cks(1) plan cks(2)] by blast
  next
    case False
    let ?n = "completed_checkpoint_id L"
    obtain ck where "ck \<in> set L" "ck_completed_checkpoint_id ck = Some ?n"
      using completed_checkpoint_id_in[OF False] by blast
    then obtain r where "r \<in> seen" "ck_completed_checkpoint_id r = Some ?n"
      using cks by (auto simp: complete_def stored_def split: if_splits)
    then have n: "saved ?T a i ?n \<noteq> {#}" using kept False by blast
    obtain L' where L': "mysql_load_by_checkpoint_id D d s a i ?n = Inr L'"
      using load_by_id_succeeds by blast
    obtain cks' where cks': "complete par seen ?n cks'" "set L' = stored ?n ` set cks'"
      using run_saved_set[OF inv n load_by_id_saved[OF L']] by blast
    have "align_state_load D d m0 = Inr (group_by_operator L')"
      using m0 L L' False by (simp add: align_state_load_def)
    then show ?thesis using recovers_group[OF cks'(1) plan cks'(2)] by blast
  qed
qed

lemma covered_saved:
  assumes inv: "run_inv s a i R par seen d m" and cov: "covered c seen m"
    and plan: "\<forall>r\<in>seen. ck_checkpoint_id r = c \<longrightarrow> in_plan par r"
    and all: "\<And>o' p n. par o' = Some p \<Longrightarrow> n < p \<Longrightarrow>
      \<exists>r\<in>seen. ck_checkpoint_id r = c \<and> ck_operator_id r = o' \<and> t_task_number (ck_task_id r) = n"
    and tasks: "has_tasks par" and c: "c \<noteq> checkpoint_id_default"
  shows "saved (table d (ms_table s)) a i c \<noteq> {#}"
proof -
  obtain o0 p0 where p0: "par o0 = Some p0" "0 < unat p0" using tasks by (auto simp: has_tasks_def)
  then have "0 < p0" by (simp add: word_less_nat_alt)
  then have cur: "cm_current_ck_id m = c" using all[OF p0(1)] cov by (auto simp: covered_def)
  then have o: "ops_inv par seen c (cm_operator_cks m)" using inv by (simp add: run_inv_def)
  have "operator_is_align oc" if "(o', oc) \<in> set (cm_operator_cks m)" for o' oc
  proof -
    have oc: "map_of (cm_operator_cks m) o' = Some oc" using that o by (simp add: ops_inv_def hm_ok_def)
    then have p: "par o' = Some (oc_parallelism oc)" and g: "genuine seen c o' oc"
      using o unfolding ops_inv_def by (metis option.map(2), blast)
    have "{n. n < oc_parallelism oc} \<subseteq> task_keys oc"
      using all[OF p] cov oc by (fastforce simp: covered_def)
    moreover have "task_keys oc \<subseteq> {n. n < oc_parallelism oc}"
      using g plan p by (force simp: genuine_def in_plan_def task_keys_def)
    ultimately show ?thesis using genuine_aligned_keys[OF g plan p] by blast
  qed
  then have "aligned (cm_operator_cks m)" by (auto simp: aligned_def)
  then show ?thesis using inv tasks c cur by (simp add: run_inv_def)
qed

end

section \<open>The manager keeps complete checkpoints\<close>


definition one_task_node :: stream_node where
  "one_task_node = \<lparr>sn_id = OperatorId 3, sn_parent_ids = [], sn_parallelism = 2,
     sn_input_schema = Empty, sn_output_schema = Empty, sn_daemon = False,
     sn_operator_name = ''source'', sn_operator_type = Source, sn_fn_creator = User\<rparr>"

definition one_job :: job_node where
  "one_job = \<lparr>jn_job_id = JobId 3, jn_parallelism = 2, jn_stream_nodes = [one_task_node],
     jn_child_job_ids = [], jn_parent_job_ids = []\<rparr>"

definition plain_orders :: orders where
  "plain_orders = \<lparr>or_operators = (\<lambda>xs. xs), or_tasks = rev, or_history = (\<lambda>xs. xs)\<rparr>"

lemma plain_orders_ok: "orders_ok plain_orders"
  by (simp add: orders_ok_def plain_orders_def insertion_order.iteration_order_axioms
    reverse_order.iteration_order_axioms)

definition task_report :: "u16 \<Rightarrow> u64 \<Rightarrow> checkpoint" where
  "task_report n c = \<lparr>ck_operator_id = OperatorId 3,
     ck_task_id = \<lparr>t_job_id = JobId 3, t_task_number = n, t_num_tasks = 2\<rparr>,
     ck_checkpoint_id = CheckpointId c, ck_completed_checkpoint_id = None, ck_handle = ''h''\<rparr>"

text \<open>Task 0 reports 40 alone, then both report 50, task 1 first.\<close>

definition example_reports :: "checkpoint list" where
  "example_reports = [task_report 0 40, task_report 1 50, task_report 0 40, task_report 0 50]"

definition example_run :: "(string \<Rightarrow> ck_row list) \<times> align_state" where
  "example_run = apply_all table_ops (\<lambda>_. ''now'') plain_orders example_reports
     (\<lambda>_. [], align_state_new [one_job] (Some (MySql ''url'' None)) ''app'' ''id'' 100)"

lemma example_run_eq: "apply_all table_ops (\<lambda>_. ''now'') plain_orders example_reports
    (\<lambda>_. [], align_state_new [one_job] (Some (MySql ''url'' None)) ''app'' ''id'' 100)
    = (fst example_run, snd example_run)"
  by (simp add: example_run_def)

lemma plan_par_one_job: "plan_par [one_job] = [OperatorId 3 \<mapsto> 2]"
  by (auto simp: plan_par_def insert_operators_def one_job_def one_task_node_def
    operator_checkpoint_new_def)

lemma example_rows:
  "fst example_run ''rlink_ck'' = [to_row ''app'' ''id'' (CheckpointId 50) ''now'' (task_report 0 50),
     to_row ''app'' ''id'' (CheckpointId 50) ''now'' (task_report 1 50)]"
  by (simp add: example_run_def apply_all_def example_reports_def task_report_def one_job_def
    one_task_node_def align_state_new_def insert_operators_def operator_checkpoint_new_def
    align_state_apply_def enter_checkpoint_def next_checkpoint_def checkpoint_id_default_def
    operator_apply_def operator_is_align_def is_align_def unreached_operators_def plain_orders_def
    finish_checkpoint_def complete_cks_def mysql_save_def mysql_storage_new_def table_ops_def
    DEFAULT_TABLE_NAME_def)

lemma example_saved: "saved (mset (fst example_run ''rlink_ck'')) ''app'' ''id'' (CheckpointId 50)
    = {#task_report 0 50, task_report 1 50#}"
  by (simp add: example_rows saved_def of_row_to_row) (simp add: task_report_def stored_def)

lemma example_new: "ms_table (mysql_storage_new ''url'' None) = ''rlink_ck''"
  by (simp add: mysql_storage_new_def DEFAULT_TABLE_NAME_def)



lemma words_below_2: "(n::u16) < 2 \<Longrightarrow> n = 0 \<or> n = 1"
  by (simp add: word_less_nat_alt word_unat_eq_iff) linarith


text \<open>
  A coordinator that starts again loads the reports of one stored checkpoint (the
  smallest completed one the latest reports name, else the latest itself): every operator of
  the plan finds a report for each of its tasks, made by that operator for that checkpoint.
  The completed checkpoints the reports name must still be stored.
\<close>

lemma loaded_checkpoint_complete:
  assumes "reliable_db D table" "orders_ok R"
    and "\<forall>c. saved (table d (ms_table (mysql_storage_new url t))) a i c = {#}"
    and "apply_all D now R rs (d, align_state_new jobs (Some (MySql url t)) a i ttl) = (d', m')"
    and "saved (table d' (ms_table (mysql_storage_new url t))) a i cx \<noteq> {#}"
    and "\<forall>r\<in>set rs. in_plan (plan_par jobs) r
      \<and> (\<forall>n. ck_completed_checkpoint_id r = Some n \<longrightarrow> n \<noteq> checkpoint_id_default \<longrightarrow>
          saved (table d' (ms_table (mysql_storage_new url t))) a i n \<noteq> {#})"
  shows "\<exists>groups c. align_state_load D d' (align_state_new jobs (Some (MySql url t)) a i ttl') = Inr groups
    \<and> recovers (plan_par jobs) (set rs) c groups"
proof -
  have "reliable_db.run_inv table (mysql_storage_new url t) a i R (plan_par jobs) (set rs \<union> {}) d' m'"
    by (rule reliable_db.run_inv_all[OF assms(1,2) reliable_db.run_inv_new[OF assms(1)] assms(4)])
      (use assms(3) in blast)
  then have inv: "reliable_db.run_inv table (mysql_storage_new url t) a i R (plan_par jobs) (set rs) d' m'"
    by simp
  show ?thesis
    by (rule reliable_db.load_recovers[OF assms(1) inv _ assms(5)])
      (use assms(6) in \<open>auto simp: align_state_new_def\<close>)
qed

end
