(* ===== verification/Cluster.thy ===== *)
theory Cluster
  imports Dag_Metadata Checkpoint_Manager
begin

text \<open>
  The running cluster as the coordinator sees it: the descriptors of workers and tasks
  (\<open>rlink/src/core/runtime.rs\<close>), their distribution (\<open>task_distribution.rs\<close>), the stored
  copy heartbeats update (\<open>rlink/src/storage/metadata\<close>), the checkpoints handed back to
  the tasks at a start, and the coordinator's loop (\<open>rlink/src/runtime/coordinator\<close>).  The
  properties: a run ends only when every task has reported its end; an end reported before
  all workers are registered is overwritten and the run never ends; after a restart every
  operator gets the report of its own task for one complete checkpoint.
\<close>

section \<open>Modes and types of processes\<close>

text \<open>\<open>to_ascii_lowercase\<close> of a string.\<close>

definition ascii_lower :: "char \<Rightarrow> char" where
  "ascii_lower c = (if 65 \<le> (of_char c :: nat) \<and> (of_char c :: nat) \<le> 90 then char_of ((of_char c :: nat) + 32) else c)"

definition to_ascii_lowercase :: "string \<Rightarrow> string" where
  "to_ascii_lowercase s = map ascii_lower s"

datatype cluster_mode = Local | Standalone | YARN | Kubernetes

fun is_local :: "cluster_mode \<Rightarrow> bool" where
  "is_local Local = True"
| "is_local _ = False"

definition cluster_mode_try_from :: "string \<Rightarrow> string + cluster_mode" where
  "cluster_mode_try_from s = (let mode_str = to_ascii_lowercase s in
     if mode_str = '''' then Inr Local
     else if mode_str = ''local'' then Inr Local
     else if mode_str = ''standalone'' then Inr Standalone
     else if mode_str = ''yarn'' then Inr YARN
     else if mode_str = ''kubernetes'' then Inr Kubernetes
     else Inl (''Unsupported mode '' @ mode_str))"

fun show_cluster_mode :: "cluster_mode \<Rightarrow> string" where
  "show_cluster_mode Local = ''Local''"
| "show_cluster_mode Standalone = ''Standalone''"
| "show_cluster_mode YARN = ''Yarn''"
| "show_cluster_mode Kubernetes = ''Kubernetes''"

datatype manager_type = Coordinator | Worker

fun is_coordinator :: "manager_type \<Rightarrow> bool" where
  "is_coordinator Coordinator = True"
| "is_coordinator _ = False"

definition manager_type_try_from :: "string \<Rightarrow> string + manager_type" where
  "manager_type_try_from s = (let mode_str = to_ascii_lowercase s in
     if mode_str = ''coordinator'' then Inr Coordinator
     else if mode_str = ''worker'' then Inr Worker
     else Inl (''Unsupported mode '' @ mode_str))"

fun show_manager_type :: "manager_type \<Rightarrow> string" where
  "show_manager_type Coordinator = ''Coordinator''"
| "show_manager_type Worker = ''Worker''"

section \<open>Descriptors\<close>

record operator_descriptor =
  od_operator_id :: operator_id
  od_checkpoint_id :: checkpoint_id
  od_completed_checkpoint_id :: "checkpoint_id option"
  od_checkpoint_handle :: "handle option"

record task_descriptor =
  td_task_id :: task_id
  td_operators :: "operator_descriptor list"
  td_input_split :: input_split
  td_daemon :: bool
  td_thread_id :: string
  td_terminated :: bool

datatype manager_status = Pending | Registered | Migration | Terminating | Terminated

fun is_terminating :: "manager_status \<Rightarrow> bool" where
  "is_terminating Terminating = True"
| "is_terminating _ = False"

fun is_terminated :: "manager_status \<Rightarrow> bool" where
  "is_terminated Terminated = True"
| "is_terminated _ = False"

datatype heart_beat_status = HbOk | HbPanic | HbEnd

fun show_heart_beat_status :: "heart_beat_status \<Rightarrow> string" where
  "show_heart_beat_status HbOk = ''ok''"
| "show_heart_beat_status HbPanic = ''panic''"
| "show_heart_beat_status HbEnd = ''end''"

definition heart_beat_status_try_from :: "string \<Rightarrow> string + heart_beat_status" where
  "heart_beat_status_try_from s =
     (if s = ''ok'' then Inr HbOk else if s = ''panic'' then Inr HbPanic else if s = ''end'' then Inr HbEnd
      else Inl (''unrecognized status: '' @ s))"

record worker_manager_descriptor =
  wd_status :: manager_status
  wd_latest_heart_beat_ts :: u64
  wd_latest_heart_beat_status :: heart_beat_status
  wd_task_manager_id :: string
  wd_task_manager_address :: string
  wd_metrics_address :: string
  wd_web_address :: string
  wd_task_descriptors :: "task_descriptor list"

record coordinator_manager_descriptor =
  cd_version :: string
  cd_application_id :: string
  cd_application_properties :: properties
  cd_web_address :: string
  cd_metrics_address :: string
  cd_status :: manager_status
  cd_v_cores :: u32
  cd_memory_mb :: u32
  cd_num_task_managers :: u32
  cd_uptime :: u64
  cd_startup_number :: u64

record cluster_descriptor =
  cl_coordinator_manager :: coordinator_manager_descriptor
  cl_worker_managers :: "worker_manager_descriptor list"

definition get_worker_manager :: "cluster_descriptor \<Rightarrow> task_id \<Rightarrow> worker_manager_descriptor option" where
  "get_worker_manager cd task_id = find (\<lambda>w. find (\<lambda>t. td_task_id t = task_id) (wd_task_descriptors w) \<noteq> None)
     (cl_worker_managers cd)"

definition set_coordinator_status :: "manager_status \<Rightarrow> cluster_descriptor \<Rightarrow> cluster_descriptor" where
  "set_coordinator_status s cd = cd\<lparr>cl_coordinator_manager := (cl_coordinator_manager cd)\<lparr>cd_status := s\<rparr>\<rparr>"

definition flush_coordinator_status :: "cluster_descriptor \<Rightarrow> cluster_descriptor" where
  "flush_coordinator_status cd =
     (let (task_count, terminated_count) = fold (\<lambda>worker_manager. fold (\<lambda>task (n, k).
            (n + 1, if td_terminated task then k + 1 else k)) (wd_task_descriptors worker_manager))
            (cl_worker_managers cd) (0 :: nat, 0 :: nat)
      in if task_count = terminated_count then set_coordinator_status Terminated cd
         else if terminated_count > 0 then set_coordinator_status Terminating cd
         else cd)"

section \<open>Distributing the tasks\<close>

text \<open>What the distribution reads of the process context.\<close>

record cluster_context =
  cx_application_id :: string
  cx_num_task_managers :: u32
  cx_metric_addr :: string
  cx_memory_mb :: u32
  cx_v_cores :: u32

definition operator_descriptor_of :: "stream_node \<Rightarrow> operator_descriptor" where
  "operator_descriptor_of stream_node = \<lparr>od_operator_id = sn_id stream_node, od_checkpoint_id = checkpoint_id_default,
     od_completed_checkpoint_id = None, od_checkpoint_handle = None\<rparr>"

definition task_descriptor_of :: "task_instance \<Rightarrow> task_descriptor" where
  "task_descriptor_of t = \<lparr>td_task_id = ti_task_id t, td_operators = map operator_descriptor_of (ti_stream_nodes t),
     td_input_split = ti_input_split t, td_daemon = ti_daemon t, td_thread_id = [], td_terminated = False\<rparr>"

definition worker_descriptor_of :: "worker_manager_instance \<Rightarrow> worker_manager_descriptor" where
  "worker_descriptor_of w = \<lparr>wd_status = Pending, wd_latest_heart_beat_ts = 0, wd_latest_heart_beat_status = HbOk,
     wd_task_manager_id = wmi_worker_manager_id w, wd_task_manager_address = [], wd_metrics_address = [],
     wd_web_address = [], wd_task_descriptors = map task_descriptor_of (wmi_task_instances w)\<rparr>"

definition build_cluster_descriptor ::
    "string \<Rightarrow> u64 \<Rightarrow> (nat \<Rightarrow> nat) \<Rightarrow> physic_orders \<Rightarrow> physic_graph \<Rightarrow> properties \<Rightarrow> cluster_context \<Rightarrow> cluster_descriptor res" where
  "build_cluster_descriptor version now cap P physic_graph application_properties context =
     rbind (alloc_by_instance cap P physic_graph (cx_num_task_managers context)) (\<lambda>worker_instances.
     Inr \<lparr>cl_coordinator_manager = \<lparr>cd_version = version, cd_application_id = cx_application_id context,
            cd_application_properties = application_properties, cd_web_address = [],
            cd_metrics_address = cx_metric_addr context, cd_status = Pending, cd_v_cores = cx_v_cores context,
            cd_memory_mb = cx_memory_mb context, cd_num_task_managers = cx_num_task_managers context,
            cd_uptime = now, cd_startup_number = 0\<rparr>,
          cl_worker_managers = map worker_descriptor_of worker_instances\<rparr>)"

section \<open>The stored metadata\<close>

datatype heartbeat_item =
    WorkerManagerAddress string
  | WorkerManagerWebAddress string
  | MetricsAddress string
  | HeartBeatStatus heart_beat_status
  | TaskThreadId task_id u64
  | TaskEnd task_id

text \<open>The global \<open>METADATA_STORAGE\<close>: a descriptor, once one has been saved.\<close>

type_synonym metadata_storage = "cluster_descriptor option"

definition metadata_save :: "cluster_descriptor \<Rightarrow> metadata_storage \<Rightarrow> (string + unit) \<times> metadata_storage" where
  "metadata_save metadata lock = (Inr (), Some metadata)"

definition not_found :: string where
  "not_found = ''ClusterDescriptor not found''"

definition metadata_load :: "metadata_storage \<Rightarrow> string + cluster_descriptor" where
  "metadata_load lock = (case lock of None \<Rightarrow> Inl not_found | Some cd \<Rightarrow> Inr cd)"

definition update_coordinator_status :: "manager_status \<Rightarrow> metadata_storage \<Rightarrow> (string + unit) \<times> metadata_storage" where
  "update_coordinator_status status lock = (case lock of
     None \<Rightarrow> (Inl not_found, lock)
   | Some cd \<Rightarrow> (Inr (), Some (set_coordinator_status status cd)))"

text \<open>\<open>{:x}\<close> of an unsigned integer.\<close>

definition hex_char :: "nat \<Rightarrow> char" where
  "hex_char d = (if d < 10 then char_of (48 + d) else char_of (87 + d))"

fun show_hex :: "nat \<Rightarrow> string" where
  "show_hex n = (if n < 16 then [hex_char n] else show_hex (n div 16) @ [hex_char (n mod 16)])"

declare show_hex.simps [simp del]

definition on_task :: "task_id \<Rightarrow> (task_descriptor \<Rightarrow> task_descriptor) \<Rightarrow> worker_manager_descriptor \<Rightarrow> worker_manager_descriptor" where
  "on_task task_id f w = w\<lparr>wd_task_descriptors := map (\<lambda>t. if td_task_id t = task_id then f t else t) (wd_task_descriptors w)\<rparr>"

fun apply_item :: "heartbeat_item \<Rightarrow> worker_manager_descriptor \<Rightarrow> worker_manager_descriptor" where
  "apply_item (MetricsAddress addr) w = w\<lparr>wd_metrics_address := addr\<rparr>"
| "apply_item (WorkerManagerAddress addr) w = w\<lparr>wd_task_manager_address := addr\<rparr>"
| "apply_item (WorkerManagerWebAddress addr) w = w\<lparr>wd_web_address := addr\<rparr>"
| "apply_item (HeartBeatStatus status) w = w\<lparr>wd_latest_heart_beat_status := status\<rparr>"
| "apply_item (TaskThreadId task_id thread_id) w =
     on_task task_id (\<lambda>t. t\<lparr>td_thread_id := ''0x'' @ show_hex (unat thread_id)\<rparr>) w"
| "apply_item (TaskEnd task_id) w = on_task task_id (\<lambda>t. t\<lparr>td_terminated := True\<rparr>) w"

fun is_task_end :: "heartbeat_item \<Rightarrow> bool" where
  "is_task_end (TaskEnd _) = True"
| "is_task_end _ = False"

text \<open>The first worker with the id is changed in place.\<close>

fun update_first :: "('a \<Rightarrow> bool) \<Rightarrow> ('a \<Rightarrow> 'a) \<Rightarrow> 'a list \<Rightarrow> 'a list option" where
  "update_first P f [] = None"
| "update_first P f (x # xs) = (if P x then Some (f x # xs) else map_option ((#) x) (update_first P f xs))"

definition update_worker_status ::
    "u64 \<Rightarrow> string \<Rightarrow> heartbeat_item list \<Rightarrow> manager_status \<Rightarrow> metadata_storage \<Rightarrow> (string + manager_status) \<times> metadata_storage" where
  "update_worker_status now task_manager_id heartbeat_items status lock = (case lock of
     None \<Rightarrow> (Inl not_found, lock)
   | Some cd \<Rightarrow>
       (case update_first (\<lambda>w. wd_task_manager_id w = task_manager_id)
            (\<lambda>w. fold apply_item heartbeat_items (w\<lparr>wd_status := status, wd_latest_heart_beat_ts := now\<rparr>))
            (cl_worker_managers cd) of
          None \<Rightarrow> (Inl (''TaskManager not found, task_manager_id='' @ task_manager_id), lock)
        | Some ws \<Rightarrow>
            let cd = cd\<lparr>cl_worker_managers := ws\<rparr>;
                cd = (if \<exists>i\<in>set heartbeat_items. is_task_end i then flush_coordinator_status cd else cd)
            in (Inr (cd_status (cl_coordinator_manager cd)), Some cd)))"

section \<open>Requests of the workers\<close>

datatype std_code = OK | ERR string

record 'a std_response =
  sr_code :: std_code
  sr_data :: "'a option"

definition std_ok :: "'a option \<Rightarrow> 'a std_response" where
  "std_ok data = \<lparr>sr_code = OK, sr_data = data\<rparr>"

definition std_err :: "string \<Rightarrow> 'a std_response" where
  "std_err err_msg = \<lparr>sr_code = ERR err_msg, sr_data = None\<rparr>"

definition std_from :: "string + 'a \<Rightarrow> 'a std_response" where
  "std_from r = (case r of Inr t \<Rightarrow> std_ok (Some t) | Inl e \<Rightarrow> std_err e)"

record heartbeat_request =
  hr_task_manager_id :: string
  hr_change_items :: "heartbeat_item list"

text \<open>The handler of \<open>/api/heartbeat\<close>: every heartbeat registers its worker.\<close>

definition heartbeat :: "u64 \<Rightarrow> heartbeat_request \<Rightarrow> metadata_storage \<Rightarrow> manager_status std_response \<times> metadata_storage" where
  "heartbeat now req lock = (let (r, lock) = update_worker_status now (hr_task_manager_id req) (hr_change_items req) Registered lock
     in (std_from r, lock))"

fun is_status_item :: "heartbeat_item \<Rightarrow> bool" where
  "is_status_item (HeartBeatStatus _) = True"
| "is_status_item _ = False"

text \<open>What a worker sends: the waiting changes, with a status if none of them is one.\<close>

definition report_heartbeat_request :: "bool \<Rightarrow> string \<Rightarrow> heartbeat_item list \<Rightarrow> heartbeat_request" where
  "report_heartbeat_request is_panic task_manager_id change_items =
     (let change_items = (if \<exists>x\<in>set change_items. is_status_item x then change_items
        else change_items @ [HeartBeatStatus (if is_panic then HbPanic else HbOk)])
      in \<lparr>hr_task_manager_id = task_manager_id, hr_change_items = change_items\<rparr>)"

text \<open>The answer updates the worker's copy of the coordinator's status.\<close>

definition heartbeat_answer :: "manager_status \<Rightarrow> (string + manager_status std_response) \<Rightarrow> manager_status" where
  "heartbeat_answer coordinator_status resp = (case resp of
     Inr r \<Rightarrow> (case sr_data r of Some s \<Rightarrow> s | None \<Rightarrow> coordinator_status)
   | Inl _ \<Rightarrow> coordinator_status)"

definition submit_checkpoint :: "(checkpoint, 'q) crossbeam \<Rightarrow> checkpoint \<Rightarrow> 'q \<Rightarrow> (checkpoint option \<times> 'q) res" where
  "submit_checkpoint X ck q = (case xb_try_send X q ck of
     Inr q \<Rightarrow> Inr (None, q)
   | Inl (Full ck) \<Rightarrow> Inr (Some ck, q)
   | Inl (Disconnected _) \<Rightarrow> Inl Explicit_panic)"

definition submit_heartbeat :: "(heartbeat_item, 'q) crossbeam \<Rightarrow> heartbeat_item \<Rightarrow> 'q \<Rightarrow> 'q res" where
  "submit_heartbeat X item q = (case xb_try_send X q item of
     Inr q \<Rightarrow> Inr q
   | Inl (Full _) \<Rightarrow> Inl Unreachable
   | Inl (Disconnected _) \<Rightarrow> Inl Explicit_panic)"

section \<open>Handing checkpoints back to the tasks\<close>

definition restore_operator ::
    "(operator_id, checkpoint list) hmap \<Rightarrow> u16 \<Rightarrow> operator_descriptor \<Rightarrow> operator_descriptor res" where
  "restore_operator operator_checkpoints task_number operator =
     rbind (unwrap (map_of operator_checkpoints (od_operator_id operator))) (\<lambda>cks.
     if length cks = 0 then Inr operator
     else rbind (unwrap (find (\<lambda>ck. t_task_number (ck_task_id ck) = task_number) cks)) (\<lambda>ck.
       Inr (operator\<lparr>od_checkpoint_id := ck_checkpoint_id ck, od_checkpoint_handle := Some (ck_handle ck)\<rparr>)))"

definition restore_task :: "(operator_id, checkpoint list) hmap \<Rightarrow> task_descriptor \<Rightarrow> task_descriptor res" where
  "restore_task operator_checkpoints t = rbind
     (map_res (restore_operator operator_checkpoints (t_task_number (td_task_id t))) (td_operators t))
     (\<lambda>ops. Inr (t\<lparr>td_operators := ops\<rparr>))"

definition restore_worker :: "(operator_id, checkpoint list) hmap \<Rightarrow> worker_manager_descriptor \<Rightarrow> worker_manager_descriptor res" where
  "restore_worker operator_checkpoints w = rbind (map_res (restore_task operator_checkpoints) (wd_task_descriptors w))
     (\<lambda>ts. Inr (w\<lparr>wd_task_descriptors := ts\<rparr>))"

text \<open>\<open>build_checkpoint_manager\<close>, once the manager is made: the loading error panics.\<close>

definition restore_checkpoints ::
    "(string + (operator_id, checkpoint list) hmap) \<Rightarrow> cluster_descriptor \<Rightarrow> cluster_descriptor res" where
  "restore_checkpoints loaded cd = (case loaded of
     Inl _ \<Rightarrow> Inl Explicit_panic
   | Inr operator_checkpoints \<Rightarrow>
       if length operator_checkpoints = 0 then Inr cd
       else rbind (map_res (restore_worker operator_checkpoints) (cl_worker_managers cd))
         (\<lambda>ws. Inr (cd\<lparr>cl_worker_managers := ws\<rparr>)))"

section \<open>The coordinator's loop\<close>

datatype heartbeat_result = Timeout | End

definition too_late :: "u64 \<Rightarrow> worker_manager_descriptor \<Rightarrow> bool" where
  "too_late current_timestamp w \<longleftrightarrow> \<not> current_timestamp < wd_latest_heart_beat_ts w
     \<and> unat (current_timestamp - wd_latest_heart_beat_ts w) div 1000 > 50"

text \<open>One round of \<open>start_heartbeat_timer\<close>; \<open>None\<close> goes on.\<close>

definition heartbeat_check :: "u64 \<Rightarrow> cluster_descriptor \<Rightarrow> heartbeat_result option" where
  "heartbeat_check current_timestamp cd =
     (if cd_status (cl_coordinator_manager cd) = Terminated then Some End
      else if \<exists>w\<in>set (cl_worker_managers cd). too_late current_timestamp w then Some Timeout
      else None)"

text \<open>
  One round of \<open>waiting_worker_status_fine\<close>: it reads the descriptor, and when all workers
  are registered it updates the status under a second lock of the storage.
\<close>

definition all_registered :: "cluster_descriptor \<Rightarrow> bool" where
  "all_registered cd \<longleftrightarrow> find (\<lambda>w. wd_status w \<noteq> Registered) (cl_worker_managers cd) = None"

definition workers_fine :: "metadata_storage \<Rightarrow> bool" where
  "workers_fine lock = (case metadata_load lock of Inl _ \<Rightarrow> False | Inr cd \<Rightarrow> all_registered cd)"

definition gauge_startup_number :: "cluster_descriptor \<Rightarrow> cluster_descriptor" where
  "gauge_startup_number cd = cd\<lparr>cl_coordinator_manager := (cl_coordinator_manager cd)
     \<lparr>cd_startup_number := cd_startup_number (cl_coordinator_manager cd) + 1\<rparr>\<rparr>"

datatype phase = Starting | Waiting | Fine | Watching | Ended

record coordinator =
  co_phase :: phase
  co_descriptor :: cluster_descriptor
  co_storage :: metadata_storage

text \<open>
  The loop of \<open>run\<close> and the heartbeat handler of the web server, interleaved: the loop
  saves its own descriptor and starts the workers, waits for all of them, and watches the
  heartbeats; after a timeout it starts over.
\<close>

datatype coordinator_event = Start | Tick | Beat heartbeat_request

inductive coordinator_step :: "coordinator \<Rightarrow> coordinator_event \<Rightarrow> coordinator \<Rightarrow> bool" where
  start: "co_phase c = Starting \<Longrightarrow> cd = gauge_startup_number (co_descriptor c) \<Longrightarrow>
    coordinator_step c Start \<lparr>co_phase = Waiting, co_descriptor = cd, co_storage = snd (metadata_save cd (co_storage c))\<rparr>"
| registered: "co_phase c = Waiting \<Longrightarrow> workers_fine (co_storage c) \<Longrightarrow>
    coordinator_step c Tick (c\<lparr>co_phase := Fine\<rparr>)"
| fine: "co_phase c = Fine \<Longrightarrow> update_coordinator_status Registered (co_storage c) = (Inr (), lock) \<Longrightarrow>
    coordinator_step c Tick (c\<lparr>co_phase := Watching, co_storage := lock\<rparr>)"
| ended: "co_phase c = Watching \<Longrightarrow> metadata_load (co_storage c) = Inr cd \<Longrightarrow> heartbeat_check now cd = Some End \<Longrightarrow>
    coordinator_step c Tick (c\<lparr>co_phase := Ended\<rparr>)"
| timeout: "co_phase c = Watching \<Longrightarrow> metadata_load (co_storage c) = Inr cd \<Longrightarrow> heartbeat_check now cd = Some Timeout \<Longrightarrow>
    coordinator_step c Tick (c\<lparr>co_phase := Starting\<rparr>)"
| heartbeat: "co_phase c \<noteq> Ended \<Longrightarrow> heartbeat now req (co_storage c) = (resp, lock) \<Longrightarrow>
    coordinator_step c (Beat req) (c\<lparr>co_storage := lock\<rparr>)"

inductive coordinator_run :: "coordinator \<Rightarrow> coordinator_event list \<Rightarrow> coordinator \<Rightarrow> bool" where
  refl: "coordinator_run c [] c"
| step: "coordinator_run c es c' \<Longrightarrow> coordinator_step c' e c'' \<Longrightarrow> coordinator_run c (es @ [e]) c''"

definition coordinator_new :: "cluster_descriptor \<Rightarrow> coordinator" where
  "coordinator_new cd = \<lparr>co_phase = Starting, co_descriptor = cd, co_storage = None\<rparr>"

section \<open>Ends are reported by the tasks themselves\<close>

definition tasks_of :: "cluster_descriptor \<Rightarrow> task_descriptor list" where
  "tasks_of cd = concat (map wd_task_descriptors (cl_worker_managers cd))"

definition all_ended :: "cluster_descriptor \<Rightarrow> bool" where
  "all_ended cd \<longleftrightarrow> (\<forall>t\<in>set (tasks_of cd). td_terminated t)"

definition shape :: "cluster_descriptor \<Rightarrow> (string \<times> task_id list) list" where
  "shape cd = map (\<lambda>w. (wd_task_manager_id w, map td_task_id (wd_task_descriptors w))) (cl_worker_managers cd)"

abbreviation status_of :: "cluster_descriptor \<Rightarrow> manager_status" where
  "status_of cd \<equiv> cd_status (cl_coordinator_manager cd)"

lemma set_coordinator_status_sel [simp]:
  "cl_worker_managers (set_coordinator_status s cd) = cl_worker_managers cd"
  "status_of (set_coordinator_status s cd) = s"
  by (simp_all add: set_coordinator_status_def)

lemma flush_counts:
  "fold (\<lambda>w. fold (\<lambda>task (n, k). (n + 1, if td_terminated task then k + 1 else k)) (wd_task_descriptors w)) ws (n, k)
     = (n + length (concat (map wd_task_descriptors ws)), k + length (filter td_terminated (concat (map wd_task_descriptors ws))))"
proof (induction ws arbitrary: n k)
  case (Cons w ws)
  have "fold (\<lambda>task (n, k). (n + 1, if td_terminated task then k + 1 else k)) ts (n, k)
      = (n + length ts, k + length (filter td_terminated ts))" for ts :: "task_descriptor list" and n k :: nat
    by (induction ts arbitrary: n k) auto
  then show ?case using Cons by simp
qed simp

lemma flush_status:
  "flush_coordinator_status cd = (if all_ended cd then set_coordinator_status Terminated cd
     else if \<exists>t\<in>set (tasks_of cd). td_terminated t then set_coordinator_status Terminating cd else cd)"
proof -
  let ?ts = "tasks_of cd"
  have "length (filter td_terminated ?ts) = length ?ts \<longleftrightarrow> all_ended cd"
    unfolding all_ended_def by (metis filter_True filter_id_conv length_filter_less less_irrefl)
  moreover have "0 < length (filter td_terminated ?ts) \<longleftrightarrow> (\<exists>t\<in>set ?ts. td_terminated t)"
    by (simp add: filter_empty_conv)
  ultimately show ?thesis
    unfolding flush_coordinator_status_def flush_counts tasks_of_def[symmetric] by auto
qed

lemma update_first_split:
  "update_first P f xs = Some ys \<Longrightarrow> \<exists>as x bs. xs = as @ x # bs \<and> P x \<and> ys = as @ f x # bs"
proof (induction xs arbitrary: ys)
  case (Cons x xs)
  show ?case
  proof (cases "P x")
    case True
    then show ?thesis using Cons.prems by (intro exI[of _ "[]"] exI[of _ x] exI[of _ xs]) simp
  next
    case False
    then obtain zs where "update_first P f xs = Some zs" "ys = x # zs" using Cons.prems by auto
    then show ?thesis using Cons.IH[of zs] by (metis append_Cons)
  qed
qed simp

definition ended_by :: "heartbeat_item list \<Rightarrow> worker_manager_descriptor \<Rightarrow> worker_manager_descriptor \<Rightarrow> bool" where
  "ended_by items w w' \<longleftrightarrow> wd_task_manager_id w' = wd_task_manager_id w
     \<and> list_all2 (\<lambda>t t'. td_task_id t' = td_task_id t
         \<and> (td_terminated t' \<longleftrightarrow> td_terminated t \<or> TaskEnd (td_task_id t) \<in> set items)) (wd_task_descriptors w) (wd_task_descriptors w')"

lemma ended_by_item: "ended_by [i] w (apply_item i w)"
  by (cases i) (auto simp: ended_by_def on_task_def list_all2_map2 intro!: list.rel_refl_strong)

lemma ended_by_items: "ended_by is w (fold apply_item is w)"
proof (induction "is" arbitrary: w)
  case Nil
  then show ?case by (auto simp: ended_by_def intro: list.rel_refl_strong)
next
  case (Cons i "is")
  let ?v = "apply_item i w"
  have l: "wd_task_manager_id ?v = wd_task_manager_id w" "list_all2 (\<lambda>t t'. td_task_id t' = td_task_id t
      \<and> (td_terminated t' \<longleftrightarrow> td_terminated t \<or> TaskEnd (td_task_id t) = i)) (wd_task_descriptors w) (wd_task_descriptors ?v)"
    using ended_by_item[of i w] by (auto simp: ended_by_def)
  have r: "wd_task_manager_id (fold apply_item is ?v) = wd_task_manager_id ?v" "list_all2 (\<lambda>t t'. td_task_id t' = td_task_id t
      \<and> (td_terminated t' \<longleftrightarrow> td_terminated t \<or> TaskEnd (td_task_id t) \<in> set is)) (wd_task_descriptors ?v)
      (wd_task_descriptors (fold apply_item is ?v))"
    using Cons[of ?v] by (auto simp: ended_by_def)
  have "list_all2 (\<lambda>t t'. td_task_id t' = td_task_id t \<and> (td_terminated t' \<longleftrightarrow> td_terminated t \<or> TaskEnd (td_task_id t) \<in> set (i # is)))
      (wd_task_descriptors w) (wd_task_descriptors (fold apply_item is ?v))"
    by (rule list_all2_trans[OF _ l(2) r(2)]) auto
  then show ?case using l(1) r(1) by (simp add: ended_by_def)
qed

section \<open>The invariant of a run\<close>

text \<open>The heartbeats since the workers were last started.\<close>

fun since_start :: "heartbeat_request list \<Rightarrow> coordinator_event list \<Rightarrow> heartbeat_request list" where
  "since_start hs [] = hs"
| "since_start hs (Start # es) = since_start [] es"
| "since_start hs (Tick # es) = since_start hs es"
| "since_start hs (Beat r # es) = since_start (hs @ [r]) es"

lemma since_start_append: "since_start hs (es @ fs) = since_start (since_start hs es) fs"
  by (induction hs es rule: since_start.induct) simp_all

definition end_reported :: "heartbeat_request list \<Rightarrow> string \<Rightarrow> task_id \<Rightarrow> bool" where
  "end_reported hs w t \<longleftrightarrow> (\<exists>r\<in>set hs. hr_task_manager_id r = w \<and> TaskEnd t \<in> set (hr_change_items r))"

definition stored_inv :: "cluster_descriptor \<Rightarrow> heartbeat_request list \<Rightarrow> cluster_descriptor \<Rightarrow> bool" where
  "stored_inv own hs cd \<longleftrightarrow> shape cd = shape own \<and> (status_of cd = Terminated \<longrightarrow> all_ended cd)
     \<and> (\<forall>w\<in>set (cl_worker_managers cd). \<forall>t\<in>set (wd_task_descriptors w).
          td_terminated t \<longrightarrow> end_reported hs (wd_task_manager_id w) (td_task_id t))"

lemma end_reported_mono: "end_reported hs w t \<Longrightarrow> set hs \<subseteq> set hs' \<Longrightarrow> end_reported hs' w t"
  by (auto simp: end_reported_def)

lemma stored_inv_status:
  "stored_inv own hs cd \<Longrightarrow> (s = Terminated \<longrightarrow> all_ended cd) \<Longrightarrow> stored_inv own hs (set_coordinator_status s cd)"
  by (simp add: stored_inv_def shape_def all_ended_def tasks_of_def)

lemma ended_by_tasks:
  assumes "ended_by items w w'"
  shows "map td_task_id (wd_task_descriptors w') = map td_task_id (wd_task_descriptors w)"
    "\<And>t'. t' \<in> set (wd_task_descriptors w') \<Longrightarrow> \<exists>t\<in>set (wd_task_descriptors w). td_task_id t' = td_task_id t
      \<and> (td_terminated t' \<longleftrightarrow> td_terminated t \<or> TaskEnd (td_task_id t) \<in> set items)"
proof -
  have l: "list_all2 (\<lambda>t t'. td_task_id t' = td_task_id t
      \<and> (td_terminated t' \<longleftrightarrow> td_terminated t \<or> TaskEnd (td_task_id t) \<in> set items)) (wd_task_descriptors w) (wd_task_descriptors w')"
    using assms by (simp add: ended_by_def)
  then show "map td_task_id (wd_task_descriptors w') = map td_task_id (wd_task_descriptors w)"
    by (intro nth_equalityI) (auto simp: list_all2_conv_all_nth)
  show "\<exists>t\<in>set (wd_task_descriptors w). td_task_id t' = td_task_id t
      \<and> (td_terminated t' \<longleftrightarrow> td_terminated t \<or> TaskEnd (td_task_id t) \<in> set items)"
    if "t' \<in> set (wd_task_descriptors w')" for t'
    using l that by (fastforce simp: list_all2_conv_all_nth in_set_conv_nth)
qed

lemma heartbeat_stored:
  assumes inv: "stored_inv own hs cd" and h: "heartbeat now req (Some cd) = (resp, lock)"
  shows "\<exists>cd'. lock = Some cd' \<and> stored_inv own (hs @ [req]) cd'"
proof (cases "update_first (\<lambda>w. wd_task_manager_id w = hr_task_manager_id req)
      (\<lambda>w. fold apply_item (hr_change_items req) (w\<lparr>wd_status := Registered, wd_latest_heart_beat_ts := now\<rparr>)) (cl_worker_managers cd)")
  case None
  then have "lock = Some cd" using h by (auto simp: heartbeat_def update_worker_status_def)
  then show ?thesis using inv unfolding stored_inv_def end_reported_def by fastforce
next
  case (Some ws)
  let ?items = "hr_change_items req"
  let ?f = "\<lambda>w. fold apply_item ?items (w\<lparr>wd_status := Registered, wd_latest_heart_beat_ts := now\<rparr>)"
  from update_first_split[OF Some] obtain as w bs where ws: "cl_worker_managers cd = as @ w # bs"
    "wd_task_manager_id w = hr_task_manager_id req" "ws = as @ ?f w # bs" by blast
  have e: "ended_by ?items w (?f w)"
    using ended_by_items[of ?items "w\<lparr>wd_status := Registered, wd_latest_heart_beat_ts := now\<rparr>"] by (simp add: ended_by_def)
  note et = ended_by_tasks[OF e]
  have wid: "wd_task_manager_id (?f w) = wd_task_manager_id w" using e by (simp add: ended_by_def)
  let ?cd = "cd\<lparr>cl_worker_managers := ws\<rparr>"
  have sh: "shape ?cd = shape cd" using ws et(1) wid by (simp add: shape_def)
  have rep: "end_reported (hs @ [req]) (wd_task_manager_id v) (td_task_id t)"
    if v: "v \<in> set ws" "t \<in> set (wd_task_descriptors v)" "td_terminated t" for v t
  proof (cases "v = ?f w")
    case True
    with et(2)[of t] v(2) obtain t0 where t0: "t0 \<in> set (wd_task_descriptors w)" "td_task_id t = td_task_id t0"
      "td_terminated t0 \<or> TaskEnd (td_task_id t0) \<in> set ?items" using v(3) by auto
    then show ?thesis using inv ws(1,2) True wid unfolding stored_inv_def
      by (auto simp: end_reported_def)
  next
    case False
    then have "v \<in> set (cl_worker_managers cd)" using v(1) ws(1,3) by auto
    then have "end_reported hs (wd_task_manager_id v) (td_task_id t)" using inv v(2,3) unfolding stored_inv_def by blast
    then show ?thesis by (rule end_reported_mono) auto
  qed
  have ended: "all_ended ?cd" if "all_ended cd"
  proof -
    have old: "td_terminated t" if "v \<in> set (as @ w # bs)" "t \<in> set (wd_task_descriptors v)" for v t
      using \<open>all_ended cd\<close> that unfolding all_ended_def tasks_of_def ws(1) by auto
    have "td_terminated t" if v: "v \<in> set ws" "t \<in> set (wd_task_descriptors v)" for v t
    proof (cases "v = ?f w")
      case True
      then show ?thesis using et(2)[of t] v(2) old[of w] by auto
    next
      case False
      then show ?thesis using old[of v t] v ws(3) by auto
    qed
    then show ?thesis by (auto simp: all_ended_def tasks_of_def)
  qed
  have "stored_inv own (hs @ [req]) ?cd" using inv sh rep ended unfolding stored_inv_def by auto
  then have "stored_inv own (hs @ [req]) ?cd" "stored_inv own (hs @ [req]) (flush_coordinator_status ?cd)"
    by (auto simp: flush_status intro: stored_inv_status)
  moreover have "lock = Some (if \<exists>i\<in>set ?items. is_task_end i then flush_coordinator_status ?cd else ?cd)"
    using h Some by (auto simp: heartbeat_def update_worker_status_def Let_def)
  ultimately show ?thesis by auto
qed

definition coord_inv :: "cluster_descriptor \<Rightarrow> heartbeat_request list \<Rightarrow> coordinator \<Rightarrow> bool" where
  "coord_inv own hs c \<longleftrightarrow> shape (co_descriptor c) = shape own \<and> status_of (co_descriptor c) \<noteq> Terminated
     \<and> (\<forall>t\<in>set (tasks_of (co_descriptor c)). \<not> td_terminated t)
     \<and> (case co_storage c of None \<Rightarrow> co_phase c \<noteq> Ended
        | Some cd \<Rightarrow> stored_inv own hs cd \<and> (co_phase c = Ended \<longrightarrow> all_ended cd))"

lemma coord_inv_step:
  assumes "coordinator_step c e c'" "coord_inv own hs c"
  shows "coord_inv own (since_start hs [e]) c'"
  using assms
proof (cases rule: coordinator_step.cases)
  case (start cd)
  have "cl_worker_managers cd = cl_worker_managers (co_descriptor c)" "shape cd = shape (co_descriptor c)" "tasks_of cd = tasks_of (co_descriptor c)" "status_of cd = status_of (co_descriptor c)"
    using start(4) by (simp_all add: gauge_startup_number_def shape_def tasks_of_def)
  then show ?thesis using assms(2) start unfolding coord_inv_def stored_inv_def
    by (auto simp: metadata_save_def tasks_of_def)
next
  case (fine lock)
  then obtain cd where cd: "co_storage c = Some cd" "lock = Some (set_coordinator_status Registered cd)"
    by (auto simp: update_coordinator_status_def split: option.splits)
  then show ?thesis using assms(2) fine stored_inv_status[of own hs cd Registered] by (simp add: coord_inv_def)
next
  case registered
  then show ?thesis using assms(2) by (simp add: coord_inv_def split: option.splits)
next
  case (ended cd now)
  then have "co_storage c = Some cd" "status_of cd = Terminated"
    by (auto simp: metadata_load_def heartbeat_check_def split: option.splits if_splits)
  then show ?thesis using assms(2) ended unfolding coord_inv_def stored_inv_def by auto
next
  case (timeout cd now)
  then show ?thesis using assms(2) unfolding coord_inv_def by (auto split: option.splits)
next
  case (heartbeat now req resp lock)
  show ?thesis
  proof (cases "co_storage c")
    case None
    then have "lock = None" using heartbeat(4) by (auto simp: heartbeat_def update_worker_status_def)
    then show ?thesis using assms(2) heartbeat None by (simp add: coord_inv_def)
  next
    case (Some cd)
    then have "stored_inv own hs cd" using assms(2) by (simp add: coord_inv_def)
    from heartbeat_stored[OF this] heartbeat(4) Some obtain cd' where "lock = Some cd'" "stored_inv own (hs @ [req]) cd'" by metis
    then show ?thesis using assms(2) heartbeat by (simp add: coord_inv_def)
  qed
qed

lemma coord_inv_run: "coordinator_run c es c' \<Longrightarrow> coord_inv own hs c \<Longrightarrow> coord_inv own (since_start hs es) c'"
  by (induction rule: coordinator_run.induct) (simp_all add: since_start_append coord_inv_step)

lemma shape_reported:
  assumes "stored_inv own hs cd" "all_ended cd" "(w, ts) \<in> set (shape own)" "t \<in> set ts"
  shows "end_reported hs w t"
proof -
  have "(w, ts) \<in> set (shape cd)" using assms(1,3) by (simp add: stored_inv_def)
  then obtain v where v: "v \<in> set (cl_worker_managers cd)" "w = wd_task_manager_id v" "ts = map td_task_id (wd_task_descriptors v)"
    by (auto simp: shape_def)
  then obtain td where "td \<in> set (wd_task_descriptors v)" "t = td_task_id td" using assms(4) by auto
  moreover from this have "td_terminated td" using assms(2) v(1) by (auto simp: all_ended_def tasks_of_def)
  ultimately show ?thesis using assms(1) v(1,2) unfolding stored_inv_def by blast
qed

section \<open>When a run ends\<close>

definition one_task_descriptor :: task_descriptor where
  "one_task_descriptor = \<lparr>td_task_id = \<lparr>t_job_id = JobId 0, t_task_number = 0, t_num_tasks = 1\<rparr>, td_operators = [],
     td_input_split = input_split_new 0 properties_new, td_daemon = False, td_thread_id = [], td_terminated = False\<rparr>"

definition one_worker :: worker_manager_descriptor where
  "one_worker = \<lparr>wd_status = Pending, wd_latest_heart_beat_ts = 0, wd_latest_heart_beat_status = HbOk,
     wd_task_manager_id = ''w'', wd_task_manager_address = [], wd_metrics_address = [], wd_web_address = [],
     wd_task_descriptors = [one_task_descriptor]\<rparr>"

definition one_cluster :: cluster_descriptor where
  "one_cluster = \<lparr>cl_coordinator_manager = \<lparr>cd_version = [], cd_application_id = [], cd_application_properties = properties_new,
     cd_web_address = [], cd_metrics_address = [], cd_status = Pending, cd_v_cores = 1, cd_memory_mb = 1,
     cd_num_task_managers = 1, cd_uptime = 0, cd_startup_number = 0\<rparr>, cl_worker_managers = [one_worker]\<rparr>"

definition beat :: "heartbeat_item list \<Rightarrow> heartbeat_request" where
  "beat is = \<lparr>hr_task_manager_id = ''w'', hr_change_items = is\<rparr>"

text \<open>
  C7: the coordinator ends a run only when every task has ended.  In every interleaving of
  the coordinator's loop with the heartbeats of the workers, restarts included, once the loop
  has ended every worker has reported the end of each of its tasks since the workers were
  last started.
\<close>

theorem run_ends_after_all_tasks:
  assumes "coordinator_run (coordinator_new cd) es c" "co_phase c = Ended"
    and "status_of cd \<noteq> Terminated" "\<forall>t\<in>set (tasks_of cd). \<not> td_terminated t"
    and "(w, ts) \<in> set (shape cd)" "t \<in> set ts"
  shows "\<exists>r\<in>set (since_start [] es). hr_task_manager_id r = w \<and> TaskEnd t \<in> set (hr_change_items r)"
proof -
  have "coord_inv cd [] (coordinator_new cd)" using assms(3,4) by (simp add: coord_inv_def coordinator_new_def)
  from coord_inv_run[OF assms(1) this] assms(2) obtain st where "stored_inv cd (since_start [] es) st" "all_ended st"
    by (auto simp: coord_inv_def split: option.splits)
  from shape_reported[OF this assms(5,6)] show ?thesis by (simp add: end_reported_def)
qed

section \<open>Executing runs\<close>

text \<open>A scheduler for the loop: at the given time, take the event if it is possible.\<close>

fun coordinator_exec :: "coordinator_event \<times> u64 \<Rightarrow> coordinator \<Rightarrow> coordinator option" where
  "coordinator_exec (Start, now) c = (if co_phase c = Starting
     then let cd = gauge_startup_number (co_descriptor c) in
       Some \<lparr>co_phase = Waiting, co_descriptor = cd, co_storage = snd (metadata_save cd (co_storage c))\<rparr>
     else None)"
| "coordinator_exec (Tick, now) c = (case co_phase c of
     Waiting \<Rightarrow> if workers_fine (co_storage c) then Some (c\<lparr>co_phase := Fine\<rparr>) else None
   | Fine \<Rightarrow> (case update_coordinator_status Registered (co_storage c) of
       (Inl _, _) \<Rightarrow> None
     | (Inr _, lock) \<Rightarrow> Some (c\<lparr>co_phase := Watching, co_storage := lock\<rparr>))
   | Watching \<Rightarrow> (case metadata_load (co_storage c) of
       Inl _ \<Rightarrow> None
     | Inr cd \<Rightarrow> (case heartbeat_check now cd of
         None \<Rightarrow> None
       | Some End \<Rightarrow> Some (c\<lparr>co_phase := Ended\<rparr>)
       | Some Timeout \<Rightarrow> Some (c\<lparr>co_phase := Starting\<rparr>)))
   | _ \<Rightarrow> None)"
| "coordinator_exec (Beat req, now) c = (if co_phase c = Ended then None
     else Some (c\<lparr>co_storage := snd (heartbeat now req (co_storage c))\<rparr>))"

fun coordinator_exec_all :: "(coordinator_event \<times> u64) list \<Rightarrow> coordinator \<Rightarrow> coordinator option" where
  "coordinator_exec_all [] c = Some c"
| "coordinator_exec_all (e # es) c = (case coordinator_exec e c of None \<Rightarrow> None | Some c \<Rightarrow> coordinator_exec_all es c)"

lemma coordinator_exec_step: "coordinator_exec (e, now) c = Some c' \<Longrightarrow> coordinator_step c e c'"
proof (cases e)
  case Start
  then show "coordinator_exec (e, now) c = Some c' \<Longrightarrow> coordinator_step c e c'"
    by (auto simp: Let_def split: if_splits intro: coordinator_step.start)
next
  case Tick
  then show "coordinator_exec (e, now) c = Some c' \<Longrightarrow> coordinator_step c e c'"
    by (auto split: phase.splits sum.splits option.splits prod.splits if_splits heartbeat_result.splits intro: coordinator_step.intros)
next
  case (Beat r)
  then show "coordinator_exec (e, now) c = Some c' \<Longrightarrow> coordinator_step c e c'"
    by (auto split: if_splits prod.splits intro: coordinator_step.heartbeat[OF _ prod.collapse[symmetric]])
qed

lemma coordinator_run_append:
  "coordinator_run c (es @ fs) c'' \<longleftrightarrow> (\<exists>c'. coordinator_run c es c' \<and> coordinator_run c' fs c'')"
proof (induction fs arbitrary: c'' rule: rev_induct)
  case Nil
  have "coordinator_run c' [] c'' \<longleftrightarrow> c' = c''" for c'
    by (auto elim: coordinator_run.cases intro: coordinator_run.refl)
  then show ?case by simp
next
  case (snoc f fs)
  have last: "coordinator_run b (gs @ [f]) d \<longleftrightarrow> (\<exists>c'. coordinator_run b gs c' \<and> coordinator_step c' f d)" for b gs d
    by (auto elim: coordinator_run.cases intro: coordinator_run.step)
  show ?case using last[of c "es @ fs"] last[of _ fs] snoc by auto
qed

lemma coordinator_exec_all_run: "coordinator_exec_all es c = Some c' \<Longrightarrow> coordinator_run c (map fst es) c'"
proof (induction es arbitrary: c)
  case Nil
  then show ?case by (simp add: coordinator_run.refl)
next
  case (Cons e es)
  then obtain c1 where c1: "coordinator_exec e c = Some c1" "coordinator_exec_all es c1 = Some c'"
    by (auto split: option.splits)
  have "coordinator_run c [fst e] c1"
    using coordinator_run.step[OF coordinator_run.refl coordinator_exec_step[of "fst e" "snd e" c c1]] c1(1) by simp
  then show ?case using coordinator_run_append[of c "[fst e]" "map fst es" c'] Cons.IH[OF c1(2)] by auto
qed

abbreviation end_item :: heartbeat_item where
  "end_item \<equiv> TaskEnd \<lparr>t_job_id = JobId 0, t_task_number = 0, t_num_tasks = 1\<rparr>"

lemma example_run_ends:
  "map_option co_phase (coordinator_exec_all [(Start, 0), (Beat (beat []), 1), (Tick, 2), (Tick, 2), (Beat (beat [end_item]), 3), (Tick, 4)]
     (coordinator_new one_cluster)) = Some Ended"
  by code_simp

lemma example_early_end:
  "case coordinator_exec_all [(Start, 0), (Beat (beat [end_item]), 1)] (coordinator_new one_cluster) of
     Some c \<Rightarrow> co_phase c = Waiting \<and> (case co_storage c of Some cd \<Rightarrow> all_registered cd \<and> all_ended cd \<and> status_of cd = Terminated | _ \<Rightarrow> False)
       \<and> map_option co_phase (coordinator_exec_all [(Tick, 2), (Beat (beat []), 3), (Tick, 4)] c) = Some Watching
   | _ \<Rightarrow> False"
  by code_simp

theorem run_ends_after_all_tasks_witness:
  "\<exists>c. coordinator_run (coordinator_new one_cluster) [Start, Beat (beat []), Tick, Tick, Beat (beat [end_item]), Tick] c
     \<and> co_phase c = Ended \<and> (\<exists>r\<in>set (since_start [] [Start, Beat (beat []), Tick, Tick, Beat (beat [end_item]), Tick]).
       hr_task_manager_id r = ''w'' \<and> end_item \<in> set (hr_change_items r))"
proof -
  obtain c where c: "coordinator_run (coordinator_new one_cluster) [Start, Beat (beat []), Tick, Tick, Beat (beat [end_item]), Tick] c"
    "co_phase c = Ended"
    using example_run_ends coordinator_exec_all_run by fastforce
  have "status_of one_cluster \<noteq> Terminated" "\<forall>t\<in>set (tasks_of one_cluster). \<not> td_terminated t"
    "(''w'', [td_task_id one_task_descriptor]) \<in> set (shape one_cluster)"
    by (simp_all add: one_cluster_def one_worker_def one_task_descriptor_def tasks_of_def shape_def)
  from run_ends_after_all_tasks[OF c this, of "td_task_id one_task_descriptor"] c show ?thesis
    by (simp add: one_task_descriptor_def) blast
qed

section \<open>An end that comes too early\<close>

definition quiet :: "coordinator_event \<Rightarrow> bool" where
  "quiet e \<longleftrightarrow> (case e of Start \<Rightarrow> False | Tick \<Rightarrow> True | Beat r \<Rightarrow> \<forall>i\<in>set (hr_change_items r). \<not> is_task_end i)"

definition forgotten :: "coordinator \<Rightarrow> bool" where
  "forgotten c \<longleftrightarrow> (case co_storage c of None \<Rightarrow> False | Some cd \<Rightarrow> all_ended cd
     \<and> (co_phase c \<in> {Waiting, Fine} \<or> co_phase c \<in> {Watching, Starting} \<and> status_of cd = Registered))"

lemma heartbeat_keeps_ended:
  assumes h: "heartbeat now req (Some cd) = (resp, lock)" and e: "all_ended cd"
    and q: "\<forall>i\<in>set (hr_change_items req). \<not> is_task_end i"
  shows "\<exists>cd'. lock = Some cd' \<and> all_ended cd' \<and> status_of cd' = status_of cd"
proof (cases "update_first (\<lambda>w. wd_task_manager_id w = hr_task_manager_id req)
      (\<lambda>w. fold apply_item (hr_change_items req) (w\<lparr>wd_status := Registered, wd_latest_heart_beat_ts := now\<rparr>)) (cl_worker_managers cd)")
  case None
  then show ?thesis using h e by (auto simp: heartbeat_def update_worker_status_def)
next
  case (Some ws)
  let ?f = "\<lambda>w. fold apply_item (hr_change_items req) (w\<lparr>wd_status := Registered, wd_latest_heart_beat_ts := now\<rparr>)"
  from update_first_split[OF Some] obtain as w bs where ws: "cl_worker_managers cd = as @ w # bs" "ws = as @ ?f w # bs" by blast
  have "ended_by (hr_change_items req) w (?f w)"
    using ended_by_items[of "hr_change_items req" "w\<lparr>wd_status := Registered, wd_latest_heart_beat_ts := now\<rparr>"]
    by (simp add: ended_by_def)
  note et = ended_by_tasks(2)[OF this]
  have old: "td_terminated t" if "v \<in> set (as @ w # bs)" "t \<in> set (wd_task_descriptors v)" for v t
    using e that unfolding all_ended_def tasks_of_def ws(1) by auto
  have "td_terminated t" if v: "v \<in> set ws" "t \<in> set (wd_task_descriptors v)" for v t
  proof (cases "v = ?f w")
    case True
    then show ?thesis using et[of t] v(2) old[of w] by auto
  next
    case False
    then show ?thesis using old[of v t] v ws(2) by auto
  qed
  then have "all_ended (cd\<lparr>cl_worker_managers := ws\<rparr>)" by (auto simp: all_ended_def tasks_of_def)
  moreover have "lock = Some (cd\<lparr>cl_worker_managers := ws\<rparr>)"
    using h Some q by (auto simp: heartbeat_def update_worker_status_def Let_def)
  ultimately show ?thesis by simp
qed

lemma forgotten_step:
  assumes "coordinator_step c e c'" "forgotten c" "quiet e"
  shows "forgotten c'"
  using assms
proof (cases rule: coordinator_step.cases)
  case (heartbeat now req resp lock)
  obtain cd where cd: "co_storage c = Some cd" "all_ended cd"
    "co_phase c \<in> {Waiting, Fine} \<or> co_phase c \<in> {Watching, Starting} \<and> status_of cd = Registered"
    using assms(2) by (auto simp: forgotten_def split: option.splits)
  have "\<forall>i\<in>set (hr_change_items req). \<not> is_task_end i" using assms(3) heartbeat(1) by (simp add: quiet_def)
  from heartbeat_keeps_ended[OF heartbeat(4)[unfolded cd(1)] cd(2) this] cd(3) heartbeat
  show ?thesis by (auto simp: forgotten_def)
qed (auto simp: forgotten_def quiet_def metadata_load_def heartbeat_check_def update_coordinator_status_def all_ended_def tasks_of_def
  split: option.splits if_splits)

lemma forgotten_run: "coordinator_run c es c' \<Longrightarrow> forgotten c \<Longrightarrow> \<forall>e\<in>set es. quiet e \<Longrightarrow> forgotten c'"
  by (induction rule: coordinator_run.induct) (auto intro: forgotten_step)

text \<open>
  C12: an end reported before all workers are registered is forgotten.  When all tasks have
  already reported their end while the coordinator still waits for the workers, it overwrites
  the stored status with \<open>Registered\<close> as soon as it has seen all of them; the run does not
  end then, however long the workers go on with their heartbeats, since no task reports its
  end again.
\<close>

theorem early_end_forgotten:
  assumes "co_phase c \<in> {Waiting, Fine}" "co_storage c = Some cd" "all_ended cd"
    and "coordinator_run c es c'" "\<forall>e\<in>set es. quiet e"
  shows "co_phase c' \<noteq> Ended \<and> (\<exists>cd'. co_storage c' = Some cd' \<and> all_ended cd'
     \<and> (co_phase c' = Watching \<longrightarrow> status_of cd' = Registered))"
proof -
  have "forgotten c" using assms(1-3) by (auto simp: forgotten_def)
  from forgotten_run[OF assms(4) this assms(5)] show ?thesis by (auto simp: forgotten_def split: option.splits)
qed

theorem early_end_forgotten_witness:
  "\<exists>c c'. coordinator_run (coordinator_new one_cluster) [Start, Beat (beat [end_item])] c
     \<and> (\<exists>cd. co_storage c = Some cd \<and> status_of cd = Terminated)
     \<and> coordinator_run c [Tick, Beat (beat []), Tick] c' \<and> co_phase c' = Watching
     \<and> (\<exists>cd'. co_storage c' = Some cd' \<and> all_ended cd' \<and> status_of cd' = Registered)"
proof -
  obtain c cd c' where c: "coordinator_exec_all [(Start, 0), (Beat (beat [end_item]), 1)] (coordinator_new one_cluster) = Some c"
    "co_phase c = Waiting" "co_storage c = Some cd" "all_ended cd" "status_of cd = Terminated"
    "coordinator_exec_all [(Tick, 2), (Beat (beat []), 3), (Tick, 4)] c = Some c'" "co_phase c' = Watching"
    using example_early_end unfolding some_cases by auto
  have r: "coordinator_run c [Tick, Beat (beat []), Tick] c'" using coordinator_exec_all_run[OF c(6)] by simp
  have q: "\<forall>e\<in>set [Tick, Beat (beat []), Tick]. quiet e" by (simp add: quiet_def beat_def)
  have "co_phase c \<in> {Waiting, Fine}" using c(2) by simp
  from early_end_forgotten[OF this c(3,4) r q] coordinator_exec_all_run[OF c(1)] r c(3,5,7) show ?thesis by auto
qed

section \<open>Checkpoints after a restart\<close>

definition restored_operator ::
    "checkpoint set \<Rightarrow> checkpoint_id \<Rightarrow> u16 \<Rightarrow> operator_descriptor \<Rightarrow> operator_descriptor \<Rightarrow> bool" where
  "restored_operator seen c n od od' \<longleftrightarrow> (\<exists>r\<in>seen. ck_operator_id r = od_operator_id od \<and> ck_checkpoint_id r = c
     \<and> t_task_number (ck_task_id r) = n \<and> od' = od\<lparr>od_checkpoint_id := c, od_checkpoint_handle := Some (ck_handle r)\<rparr>)"

definition restored_task :: "checkpoint set \<Rightarrow> checkpoint_id \<Rightarrow> task_descriptor \<Rightarrow> task_descriptor \<Rightarrow> bool" where
  "restored_task seen c t t' \<longleftrightarrow> (\<exists>ods. t' = t\<lparr>td_operators := ods\<rparr>
     \<and> list_all2 (restored_operator seen c (t_task_number (td_task_id t))) (td_operators t) ods)"

definition restored_worker ::
    "checkpoint set \<Rightarrow> checkpoint_id \<Rightarrow> worker_manager_descriptor \<Rightarrow> worker_manager_descriptor \<Rightarrow> bool" where
  "restored_worker seen c w w' \<longleftrightarrow> (\<exists>ts. w' = w\<lparr>wd_task_descriptors := ts\<rparr>
     \<and> list_all2 (restored_task seen c) (wd_task_descriptors w) ts)"

definition restored :: "checkpoint set \<Rightarrow> checkpoint_id \<Rightarrow> cluster_descriptor \<Rightarrow> cluster_descriptor \<Rightarrow> bool" where
  "restored seen c cd cd' \<longleftrightarrow> (\<exists>ws. cd' = cd\<lparr>cl_worker_managers := ws\<rparr>
     \<and> list_all2 (restored_worker seen c) (cl_worker_managers cd) ws)"

lemma map_res_all:
  "(\<And>x. x \<in> set xs \<Longrightarrow> \<exists>y. f x = Inr y \<and> Q x y) \<Longrightarrow> \<exists>ys. map_res f xs = Inr ys \<and> list_all2 Q xs ys"
proof (induction xs)
  case (Cons x xs)
  obtain y where "f x = Inr y" "Q x y" using Cons.prems[of x] by auto
  moreover obtain ys where "map_res f xs = Inr ys" "list_all2 Q xs ys" using Cons by auto
  ultimately show ?case by simp
qed simp

lemma restore_operator_ok:
  assumes r: "recovers par seen c groups" and p: "par (od_operator_id od) = Some p" "n < p"
  shows "\<exists>od'. restore_operator groups n od = Inr od' \<and> restored_operator seen c n od od'"
proof -
  obtain cs ck where cs: "map_of groups (od_operator_id od) = Some cs" "ck \<in> set cs" "t_task_number (ck_task_id ck) = n"
    "\<forall>ck\<in>set cs. \<exists>r\<in>seen. ck = stored c r \<and> ck_operator_id r = od_operator_id od \<and> ck_checkpoint_id r = c"
    using r p unfolding recovers_def by blast
  then obtain k where k: "find (\<lambda>ck. t_task_number (ck_task_id ck) = n) cs = Some k"
    by (cases "find (\<lambda>ck. t_task_number (ck_task_id ck) = n) cs") (auto simp: find_None_iff)
  then have "k \<in> set cs" "t_task_number (ck_task_id k) = n" by (auto simp: find_Some_iff)
  then obtain x where x: "x \<in> seen" "k = stored c x" "ck_operator_id x = od_operator_id od" "ck_checkpoint_id x = c"
    "t_task_number (ck_task_id x) = n" using cs(4) by fastforce
  have "cs \<noteq> []" using cs(2) by auto
  then have "restore_operator groups n od = Inr (od\<lparr>od_checkpoint_id := c, od_checkpoint_handle := Some (ck_handle x)\<rparr>)"
    using cs(1) k x(2) by (simp add: restore_operator_def)
  then show ?thesis using x unfolding restored_operator_def by blast
qed

definition planned_tasks :: "(operator_id \<rightharpoonup> u16) \<Rightarrow> cluster_descriptor \<Rightarrow> bool" where
  "planned_tasks par cd \<longleftrightarrow> (\<forall>t\<in>set (tasks_of cd). \<forall>od\<in>set (td_operators t). \<exists>p.
     par (od_operator_id od) = Some p \<and> t_task_number (td_task_id t) < p)"

lemma restored_nothing:
  assumes "\<forall>t\<in>set (tasks_of cd). td_operators t = []"
  shows "restored seen c cd cd"
proof -
  have "restored_task seen c t t" if "t \<in> set (tasks_of cd)" for t
    using assms that by (auto simp: restored_task_def intro!: exI[of _ "[]"])
  then have "restored_worker seen c w w" if "w \<in> set (cl_worker_managers cd)" for w
    using that unfolding restored_worker_def tasks_of_def
    by (intro exI[of _ "wd_task_descriptors w"]) (auto intro: list.rel_refl_strong)
  then show ?thesis unfolding restored_def
    by (intro exI[of _ "cl_worker_managers cd"]) (auto intro: list.rel_refl_strong)
qed

lemma restore_checkpoints_ok:
  assumes r: "recovers par seen c groups" and plan: "planned_tasks par cd"
  shows "\<exists>cd'. restore_checkpoints (Inr groups) cd = Inr cd' \<and> restored seen c cd cd'"
proof (cases "groups = []")
  case True
  have "td_operators t = []" if t: "t \<in> set (tasks_of cd)" for t
  proof (rule ccontr)
    assume "td_operators t \<noteq> []"
    then obtain od where "od \<in> set (td_operators t)" by (cases "td_operators t") auto
    then obtain p where "par (od_operator_id od) = Some p" "t_task_number (td_task_id t) < p"
      using plan t unfolding planned_tasks_def by blast
    then show False using restore_operator_ok[OF r] True by (fastforce simp: restore_operator_def)
  qed
  then show ?thesis using True restored_nothing by (simp add: restore_checkpoints_def)
next
  case False
  have task: "\<exists>t'. restore_task groups t = Inr t' \<and> restored_task seen c t t'" if t: "t \<in> set (tasks_of cd)" for t
  proof -
    have "\<exists>y. restore_operator groups (t_task_number (td_task_id t)) od = Inr y
        \<and> restored_operator seen c (t_task_number (td_task_id t)) od y" if "od \<in> set (td_operators t)" for od
      using plan t that restore_operator_ok[OF r] unfolding planned_tasks_def by blast
    from map_res_all[where f = "restore_operator groups (t_task_number (td_task_id t))" and xs = "td_operators t", OF this] show ?thesis by (auto simp: restore_task_def restored_task_def)
  qed
  have worker: "\<exists>w'. restore_worker groups w = Inr w' \<and> restored_worker seen c w w'" if w: "w \<in> set (cl_worker_managers cd)" for w
  proof -
    have "\<exists>ts. map_res (restore_task groups) (wd_task_descriptors w) = Inr ts \<and> list_all2 (restored_task seen c) (wd_task_descriptors w) ts"
      by (rule map_res_all) (use task w in \<open>auto simp: tasks_of_def\<close>)
    then show ?thesis by (auto simp: restore_worker_def restored_worker_def)
  qed
  have "\<exists>ws. map_res (restore_worker groups) (cl_worker_managers cd) = Inr ws \<and> list_all2 (restored_worker seen c) (cl_worker_managers cd) ws"
    by (rule map_res_all) (use worker in auto)
  then show ?thesis using False by (auto simp: restore_checkpoints_def restored_def)
qed

definition reporting_cluster :: cluster_descriptor where
  "reporting_cluster = one_cluster\<lparr>cl_worker_managers := [one_worker\<lparr>wd_task_descriptors := [one_task_descriptor
     \<lparr>td_task_id := \<lparr>t_job_id = JobId 3, t_task_number = 1, t_num_tasks = 2\<rparr>, td_operators := [operator_descriptor_of one_task_node]\<rparr>]\<rparr>]\<rparr>"



end
