(* ===== verification/Properties.thy ===== *)
theory Properties
  imports Cluster Channel
begin

text \<open>
  The properties of an application (\<open>rlink/src/core/properties.rs\<close>): a map from strings to
  strings with typed accessors, the sections of the functions of a program, and the settings
  of the system.  The JSON text of the settings that are enumerations is made by a library:
  a parameter whose contract is the locale \<open>json_codec\<close>.  The properties: every typed value
  is read back as it was written and no other key changes; the section of a function holds
  what was put into it and not what was put into another section.
\<close>

section \<open>Numbers as text\<close>

text \<open>
  \<open>to_string\<close> and \<open>from_str\<close> of the integer types.  Parsing goes digit by digit: at each
  position it is an error when the character is no digit, and then when the number leaves the
  range of the type.
\<close>

datatype int_error = IntEmpty | InvalidDigit | PosOverflow | NegOverflow

definition show_int :: "int \<Rightarrow> string" where
  "show_int x = (if x < 0 then CHR ''-'' # show_nat (nat (- x)) else show_nat (nat x))"

fun parse_loop :: "bool \<Rightarrow> int \<Rightarrow> int \<Rightarrow> int \<Rightarrow> string \<Rightarrow> int_error + int" where
  "parse_loop is_positive lo hi result [] = Inr result"
| "parse_loop is_positive lo hi result (c # cs) = (case char_digit c of
     None \<Rightarrow> Inl InvalidDigit
   | Some d \<Rightarrow> let result = (if is_positive then result * 10 + int d else result * 10 - int d) in
       if hi < result then Inl PosOverflow else if result < lo then Inl NegOverflow
       else parse_loop is_positive lo hi result cs)"

definition parse_int :: "bool \<Rightarrow> int \<Rightarrow> int \<Rightarrow> string \<Rightarrow> int_error + int" where
  "parse_int is_signed lo hi s = (case s of
     [] \<Rightarrow> Inl IntEmpty
   | c # cs \<Rightarrow> if (c = CHR ''+'' \<or> c = CHR ''-'') \<and> cs = [] then Inl InvalidDigit
       else if c = CHR ''+'' then parse_loop True lo hi 0 cs
       else if c = CHR ''-'' \<and> is_signed then parse_loop False lo hi 0 cs
       else parse_loop True lo hi 0 s)"

definition parse_unsigned :: "string \<Rightarrow> int_error + 'a::len word" where
  "parse_unsigned s = map_sum id word_of_int (parse_int False 0 (2 ^ LENGTH('a) - 1) s)"

definition parse_signed :: "string \<Rightarrow> int_error + 'a::len word" where
  "parse_signed s = map_sum id word_of_int (parse_int True (- (2 ^ (LENGTH('a) - 1))) (2 ^ (LENGTH('a) - 1) - 1) s)"

section \<open>Typed accessors\<close>

datatype prop_error =
    FieldNotFound string
  | ParseInt int_error
  | ParseBool
  | Unsupported string
  | Json string

text \<open>\<open>`{}` field not found\<close> is the text of \<open>FieldNotFound\<close>.\<close>

definition set_string :: "string \<Rightarrow> string \<Rightarrow> properties \<Rightarrow> properties" where
  "set_string key v p = p\<lparr>pr_map := AList.update key v (pr_map p)\<rparr>"

definition set_str :: "string \<Rightarrow> string \<Rightarrow> properties \<Rightarrow> properties" where
  "set_str key v p = p\<lparr>pr_map := AList.update key v (pr_map p)\<rparr>"

definition get_string :: "string \<Rightarrow> properties \<Rightarrow> prop_error + string" where
  "get_string key p = (case map_of (pr_map p) key of Some v \<Rightarrow> Inr v | None \<Rightarrow> Inl (FieldNotFound key))"

definition get_parsed :: "(string \<Rightarrow> int_error + 'v) \<Rightarrow> string \<Rightarrow> properties \<Rightarrow> prop_error + 'v" where
  "get_parsed from_str key p = (case map_of (pr_map p) key of
     Some v \<Rightarrow> map_sum ParseInt id (from_str v)
   | None \<Rightarrow> Inl (FieldNotFound key))"

definition set_i16 :: "string \<Rightarrow> 16 word \<Rightarrow> properties \<Rightarrow> properties" where
  "set_i16 key v = set_string key (show_int (sint v))"

definition get_i16 :: "string \<Rightarrow> properties \<Rightarrow> prop_error + 16 word" where
  "get_i16 = get_parsed parse_signed"

definition set_u16 :: "string \<Rightarrow> u16 \<Rightarrow> properties \<Rightarrow> properties" where
  "set_u16 key v = set_string key (show_nat (unat v))"

definition get_u16 :: "string \<Rightarrow> properties \<Rightarrow> prop_error + u16" where
  "get_u16 = get_parsed parse_unsigned"

definition set_i32 :: "string \<Rightarrow> 32 word \<Rightarrow> properties \<Rightarrow> properties" where
  "set_i32 key v = set_string key (show_int (sint v))"

definition get_i32 :: "string \<Rightarrow> properties \<Rightarrow> prop_error + 32 word" where
  "get_i32 = get_parsed parse_signed"

definition set_u32 :: "string \<Rightarrow> u32 \<Rightarrow> properties \<Rightarrow> properties" where
  "set_u32 key v = set_string key (show_nat (unat v))"

definition get_u32 :: "string \<Rightarrow> properties \<Rightarrow> prop_error + u32" where
  "get_u32 = get_parsed parse_unsigned"

text \<open>\<open>value as u32\<close> keeps the lower 32 bits of a \<open>usize\<close>.\<close>

definition set_usize :: "string \<Rightarrow> nat \<Rightarrow> properties \<Rightarrow> properties" where
  "set_usize key v = set_u32 key (of_nat v)"

definition get_usize :: "string \<Rightarrow> properties \<Rightarrow> prop_error + nat" where
  "get_usize key p = map_sum id unat (get_u32 key p)"

definition set_i64 :: "string \<Rightarrow> 64 word \<Rightarrow> properties \<Rightarrow> properties" where
  "set_i64 key v = set_string key (show_int (sint v))"

definition get_i64 :: "string \<Rightarrow> properties \<Rightarrow> prop_error + 64 word" where
  "get_i64 = get_parsed parse_signed"

definition set_u64 :: "string \<Rightarrow> u64 \<Rightarrow> properties \<Rightarrow> properties" where
  "set_u64 key v = set_string key (show_nat (unat v))"

definition get_u64 :: "string \<Rightarrow> properties \<Rightarrow> prop_error + u64" where
  "get_u64 = get_parsed parse_unsigned"

definition set_bool :: "string \<Rightarrow> bool \<Rightarrow> properties \<Rightarrow> properties" where
  "set_bool key v = set_string key (if v then ''true'' else ''false'')"

definition get_bool :: "string \<Rightarrow> properties \<Rightarrow> prop_error + bool" where
  "get_bool key p = (case map_of (pr_map p) key of
     Some v \<Rightarrow> if v = ''true'' then Inr True else if v = ''false'' then Inr False else Inl ParseBool
   | None \<Rightarrow> Inl (FieldNotFound key))"

text \<open>A \<open>Duration\<close> as its nanoseconds.\<close>

type_synonym duration = nat

definition as_millis :: "duration \<Rightarrow> nat" where
  "as_millis d = d div 1000000"

definition from_millis :: "u64 \<Rightarrow> duration" where
  "from_millis ms = unat ms * 1000000"

definition set_duration :: "string \<Rightarrow> duration \<Rightarrow> properties \<Rightarrow> properties" where
  "set_duration key interval = set_u64 key (of_nat (as_millis interval))"

definition get_duration :: "string \<Rightarrow> properties \<Rightarrow> prop_error + duration" where
  "get_duration key p = rbind (get_u64 key p) (\<lambda>v. Inr (from_millis v))"

section \<open>Sections\<close>

fun starts_with :: "string \<Rightarrow> string \<Rightarrow> bool" where
  "starts_with [] s = True"
| "starts_with (c # cs) [] = False"
| "starts_with (c # cs) (d # ds) = (c = d \<and> starts_with cs ds)"

definition to_sub_properties_with_name ::
    "((string \<times> string) list \<Rightarrow> (string \<times> string) list) \<Rightarrow> string \<Rightarrow> string option \<Rightarrow> properties \<Rightarrow> properties" where
  "to_sub_properties_with_name it prefix_key name self =
     (let pre_key = prefix_key @ ''.'' in
      fold (\<lambda>(key, v) p. if starts_with pre_key key then set_string (drop (length pre_key) key) v p else p)
        (it (pr_map self)) (properties_new\<lparr>pr_name := (case name of Some n \<Rightarrow> n | None \<Rightarrow> [])\<rparr>))"

definition to_sub_properties ::
    "((string \<times> string) list \<Rightarrow> (string \<times> string) list) \<Rightarrow> string \<Rightarrow> properties \<Rightarrow> properties" where
  "to_sub_properties it prefix_key self = to_sub_properties_with_name it prefix_key None self"

definition extend_sub_properties ::
    "((string \<times> string) list \<Rightarrow> (string \<times> string) list) \<Rightarrow> string \<Rightarrow> properties \<Rightarrow> properties \<Rightarrow> properties" where
  "extend_sub_properties it prefix_key p self =
     fold (\<lambda>(sub_key, sub_val) s. s\<lparr>pr_map := AList.update (prefix_key @ ''.'' @ sub_key) sub_val (pr_map s)\<rparr>)
       (it (pr_map p)) self"

definition to_source where
  "to_source it fn_name = to_sub_properties_with_name it (''source.'' @ fn_name) (Some fn_name)"

definition extend_source where
  "extend_source it fn_name = extend_sub_properties it (''source.'' @ fn_name)"

definition to_window where
  "to_window it fn_name = to_sub_properties_with_name it (''window.'' @ fn_name) (Some fn_name)"

definition extend_window where
  "extend_window it fn_name = extend_sub_properties it (''window.'' @ fn_name)"

definition to_reduce where
  "to_reduce it fn_name = to_sub_properties_with_name it (''reduce.'' @ fn_name) (Some fn_name)"

definition extend_reduce where
  "extend_reduce it fn_name = extend_sub_properties it (''reduce.'' @ fn_name)"

definition to_filter where
  "to_filter it fn_name = to_sub_properties_with_name it (''filter.'' @ fn_name) (Some fn_name)"

definition extend_filter where
  "extend_filter it fn_name = extend_sub_properties it (''filter.'' @ fn_name)"

definition to_sink where
  "to_sink it fn_name = to_sub_properties_with_name it (''sink.'' @ fn_name) (Some fn_name)"

definition extend_sink where
  "extend_sink it fn_name = extend_sub_properties it (''sink.'' @ fn_name)"

definition to_custom where
  "to_custom it fn_name = to_sub_properties_with_name it (''custom.'' @ fn_name) (Some fn_name)"

definition extend_custom where
  "extend_custom it fn_name = extend_sub_properties it (''custom.'' @ fn_name)"

text \<open>Lines in the order of the bytes of their text.\<close>

fun str_le :: "string \<Rightarrow> string \<Rightarrow> bool" where
  "str_le [] t = True"
| "str_le (c # s) [] = False"
| "str_le (c # s) (d # t) = ((of_char c :: nat) < of_char d \<or> c = d \<and> str_le s t)"

fun insert_line :: "string \<Rightarrow> string list \<Rightarrow> string list" where
  "insert_line x [] = [x]"
| "insert_line x (y # ys) = (if str_le x y then x # y # ys else y # insert_line x ys)"

definition sort_lines :: "string list \<Rightarrow> string list" where
  "sort_lines ls = fold insert_line ls []"

fun join_lines :: "string list \<Rightarrow> string" where
  "join_lines [] = []"
| "join_lines [l] = l"
| "join_lines (l # m # ls) = l @ [char_of (10::nat)] @ join_lines (m # ls)"

definition to_lines_string :: "((string \<times> string) list \<Rightarrow> (string \<times> string) list) \<Rightarrow> properties \<Rightarrow> string" where
  "to_lines_string it self = join_lines (sort_lines (map (\<lambda>(k, v). k @ '':'' @ v) (it (pr_map self))))"

section \<open>Settings of the system\<close>

datatype metadata_storage_type = MemoryMetadata

datatype keyed_state_backend = MemoryKeyedState

text \<open>\<open>serde_json\<close> for one type: the text of a value and the value of a text.\<close>

record 'a json =
  js_to_string :: "'a \<Rightarrow> string"
  js_from_str :: "string \<Rightarrow> string + 'a"

locale json_codec =
  fixes J :: "'a json"
  assumes json_roundtrip: "js_from_str J (js_to_string J x) = Inr x"

definition get_json :: "'a json \<Rightarrow> string \<Rightarrow> properties \<Rightarrow> prop_error + 'a" where
  "get_json J key p = rbind (get_string key p) (\<lambda>v. map_sum Json id (js_from_str J v))"

definition set_application_name :: "string \<Rightarrow> properties \<Rightarrow> properties res" where
  "set_application_name application_name p = (case get_string ''SYSTEM_APPLICATION_NAME'' p of
     Inr v \<Rightarrow> Inl Explicit_panic
   | Inl _ \<Rightarrow> Inr (set_string ''SYSTEM_APPLICATION_NAME'' application_name p))"

definition get_application_name :: "properties \<Rightarrow> string res" where
  "get_application_name p = (case get_string ''SYSTEM_APPLICATION_NAME'' p of Inr v \<Rightarrow> Inr v | Inl _ \<Rightarrow> Inl Unwrap_none)"

definition set_metadata_mode :: "metadata_storage_type json \<Rightarrow> metadata_storage_type \<Rightarrow> properties \<Rightarrow> properties" where
  "set_metadata_mode J mode = set_string ''SYSTEM_METADATA_STORAGE_MODE'' (js_to_string J mode)"

definition get_metadata_mode :: "metadata_storage_type json \<Rightarrow> properties \<Rightarrow> prop_error + metadata_storage_type" where
  "get_metadata_mode J = get_json J ''SYSTEM_METADATA_STORAGE_MODE''"

definition set_keyed_state_backend :: "keyed_state_backend json \<Rightarrow> keyed_state_backend \<Rightarrow> properties \<Rightarrow> properties" where
  "set_keyed_state_backend J state_backend = set_string ''SYSTEM_KEYED_STATE_BACKEND'' (js_to_string J state_backend)"

definition get_keyed_state_backend :: "keyed_state_backend json \<Rightarrow> properties \<Rightarrow> prop_error + keyed_state_backend" where
  "get_keyed_state_backend J = get_json J ''SYSTEM_KEYED_STATE_BACKEND''"

definition set_checkpoint_interval :: "duration \<Rightarrow> properties \<Rightarrow> properties" where
  "set_checkpoint_interval = set_duration ''SYSTEM_CHECKPOINT_INTERVAL''"

definition get_checkpoint_interval :: "properties \<Rightarrow> prop_error + duration" where
  "get_checkpoint_interval = get_duration ''SYSTEM_CHECKPOINT_INTERVAL''"

definition set_checkpoint :: "checkpoint_backend json \<Rightarrow> checkpoint_backend \<Rightarrow> properties \<Rightarrow> properties" where
  "set_checkpoint J mode = set_string ''SYSTEM_CHECKPOINT'' (js_to_string J mode)"

definition get_checkpoint :: "checkpoint_backend json \<Rightarrow> properties \<Rightarrow> prop_error + checkpoint_backend" where
  "get_checkpoint J = get_json J ''SYSTEM_CHECKPOINT''"

definition set_checkpoint_ttl :: "duration \<Rightarrow> properties \<Rightarrow> properties" where
  "set_checkpoint_ttl = set_duration ''SYSTEM_CHECKPOINT_TTL''"

definition get_checkpoint_ttl :: "properties \<Rightarrow> prop_error + duration" where
  "get_checkpoint_ttl = get_duration ''SYSTEM_CHECKPOINT_TTL''"

definition set_cluster_mode :: "cluster_mode \<Rightarrow> properties \<Rightarrow> properties" where
  "set_cluster_mode cluster_mode = set_str ''SYSTEM_CLUSTER_MODE'' (show_cluster_mode cluster_mode)"

definition get_cluster_mode :: "properties \<Rightarrow> prop_error + cluster_mode" where
  "get_cluster_mode p = rbind (get_string ''SYSTEM_CLUSTER_MODE'' p) (\<lambda>v. map_sum Unsupported id (cluster_mode_try_from v))"

definition set_pub_sub_channel_size :: "nat \<Rightarrow> properties \<Rightarrow> properties" where
  "set_pub_sub_channel_size = set_usize ''SYSTEM_PUB_SUB_CHANNEL_SIZE''"

definition get_pub_sub_channel_size :: "properties \<Rightarrow> prop_error + nat" where
  "get_pub_sub_channel_size = get_usize ''SYSTEM_PUB_SUB_CHANNEL_SIZE''"

fun show_channel_base_on :: "channel_base_on \<Rightarrow> string" where
  "show_channel_base_on Bounded = ''Bounded''"
| "show_channel_base_on Unbounded = ''Unbounded''"

definition channel_base_on_try_from :: "string \<Rightarrow> string + channel_base_on" where
  "channel_base_on_try_from s = (let mode_str = to_ascii_lowercase s in
     if mode_str = ''bounded'' then Inr Bounded
     else if mode_str = ''unbounded'' then Inr Unbounded
     else Inl (''Unsupported mode '' @ mode_str))"

definition set_pub_sub_channel_base :: "channel_base_on \<Rightarrow> properties \<Rightarrow> properties" where
  "set_pub_sub_channel_base base_on = set_string ''SYSTEM_PUB_SUB_CHANNEL_BASE_ON'' (show_channel_base_on base_on)"

definition get_pub_sub_channel_base :: "properties \<Rightarrow> prop_error + channel_base_on" where
  "get_pub_sub_channel_base p = rbind (get_string ''SYSTEM_PUB_SUB_CHANNEL_BASE_ON'' p)
     (\<lambda>v. map_sum Unsupported id (channel_base_on_try_from v))"

section \<open>Numbers are read as they were written\<close>

lemma parse_digits_mono: "parse_digits acc s = Some n \<Longrightarrow> acc \<le> n"
proof (induction acc s rule: parse_digits.induct)
  case (2 acc c cs)
  then obtain d where d: "char_digit c = Some d" "parse_digits (acc * 10 + d) cs = Some n" by (auto split: option.splits)
  then have "acc * 10 + d \<le> n" using "2.IH" by simp
  then show ?case by simp
qed simp

lemma parse_loop_positive:
  "parse_digits acc s = Some n \<Longrightarrow> int n \<le> hi \<Longrightarrow> lo \<le> 0 \<Longrightarrow> parse_loop True lo hi (int acc) s = Inr (int n)"
proof (induction acc s rule: parse_digits.induct)
  case (2 acc c cs)
  then obtain d where d: "char_digit c = Some d" "parse_digits (acc * 10 + d) cs = Some n" by (auto split: option.splits)
  have "acc * 10 + d \<le> n" using parse_digits_mono[OF d(2)] .
  then have "int acc * 10 + int d \<le> hi" "\<not> int acc * 10 + int d < lo" using "2.prems" by linarith+
  then show ?case using "2.IH"[OF d(1)] d "2.prems" by (simp add: Let_def)
qed simp

lemma parse_loop_negative:
  "parse_digits acc s = Some n \<Longrightarrow> lo \<le> - int n \<Longrightarrow> 0 \<le> hi \<Longrightarrow> parse_loop False lo hi (- int acc) s = Inr (- int n)"
proof (induction acc s rule: parse_digits.induct)
  case (2 acc c cs)
  then obtain d where d: "char_digit c = Some d" "parse_digits (acc * 10 + d) cs = Some n" by (auto split: option.splits)
  have "acc * 10 + d \<le> n" using parse_digits_mono[OF d(2)] .
  then have "\<not> hi < - int acc * 10 - int d" "\<not> - int acc * 10 - int d < lo" using "2.prems" by linarith+
  moreover have "- int (acc * 10 + d) = - int acc * 10 - int d" by simp
  ultimately show ?case using "2.IH"[OF d(1)] d "2.prems" by (simp add: Let_def)
qed simp

lemma show_nat_head:
  obtains c cs where "show_nat n = c # cs" "c \<noteq> CHR ''+''" "c \<noteq> CHR ''-''"
proof (cases "show_nat n")
  case (Cons c cs)
  obtain d where d: "d < 10" "c = digit_char d" using show_nat_digits[of c n] Cons by auto
  then have "char_digit c = Some d" by simp
  then have "c \<noteq> CHR ''+''" "c \<noteq> CHR ''-''" by (auto simp: char_digit_def)
  then show ?thesis using that Cons by blast
qed simp

lemma parse_int_show_nat:
  assumes "int n \<le> hi" "lo \<le> 0"
  shows "parse_int sg lo hi (show_nat n) = Inr (int n)"
proof -
  obtain c cs where c: "show_nat n = c # cs" "c \<noteq> CHR ''+''" "c \<noteq> CHR ''-''" by (rule show_nat_head)
  have "parse_loop True lo hi 0 (show_nat n) = Inr (int n)"
    using parse_loop_positive[OF parse_digits_show assms] by simp
  then show ?thesis using c by (simp add: parse_int_def)
qed

lemma parse_int_show_int:
  assumes "lo \<le> x" "x \<le> hi" "lo \<le> 0" "0 \<le> hi"
  shows "parse_int True lo hi (show_int x) = Inr x"
proof (cases "x < 0")
  case True
  have "parse_loop False lo hi 0 (show_nat (nat (- x))) = Inr x"
    using parse_loop_negative[OF parse_digits_show, of lo "nat (- x)" hi] assms True by simp
  then show ?thesis using True by (simp add: show_int_def parse_int_def)
next
  case False
  then show ?thesis using parse_int_show_nat[of "nat x" hi lo True] assms by (simp add: show_int_def)
qed

lemma parse_unsigned_show [simp]: "parse_unsigned (show_nat (unat (v :: 'a::len word))) = Inr v"
proof -
  have "int (unat v) \<le> 2 ^ LENGTH('a) - 1" using unsigned_less[of v, where 'a = int] by simp
  from parse_int_show_nat[OF this, of 0 False] show ?thesis by (simp add: parse_unsigned_def)
qed

lemma parse_signed_show [simp]: "parse_signed (show_int (sint (v :: 'a::len word))) = Inr v"
proof -
  have "- (2 ^ (LENGTH('a) - 1)) \<le> sint v" "sint v \<le> 2 ^ (LENGTH('a) - 1) - 1"
    using sint_greater_eq[of v] sint_less[of v] by auto
  from parse_int_show_int[OF this] show ?thesis by (simp add: parse_signed_def)
qed

lemma map_of_set_string [simp]: "map_of (pr_map (set_string k v p)) = (map_of (pr_map p))(k \<mapsto> v)"
  by (simp add: set_string_def)

lemmas accessor_defs = set_i16_def get_i16_def set_u16_def get_u16_def set_i32_def get_i32_def set_u32_def get_u32_def
  set_i64_def get_i64_def set_u64_def get_u64_def set_bool_def get_bool_def set_usize_def get_usize_def
  set_duration_def get_duration_def get_parsed_def get_string_def

section \<open>Values and sections are kept apart\<close>

lemma parse_loop_overflow:
  "parse_digits acc s = Some n \<Longrightarrow> hi < int n \<Longrightarrow> int acc \<le> hi \<Longrightarrow> lo \<le> 0 \<Longrightarrow>
     parse_loop True lo hi (int acc) s = Inl PosOverflow"
proof (induction acc s rule: parse_digits.induct)
  case (2 acc c cs)
  then obtain d where d: "char_digit c = Some d" "parse_digits (acc * 10 + d) cs = Some n" by (auto split: option.splits)
  then show ?case using "2.IH"[OF d(1)] "2.prems" by (cases "hi < int (acc * 10 + d)") (auto simp: Let_def)
qed simp

lemma parse_unsigned_wider:
  "parse_unsigned (show_nat n) = (if n < 2 ^ LENGTH('a) then Inr (of_nat n) else Inl PosOverflow :: int_error + 'a::len word)"
proof (cases "n < 2 ^ LENGTH('a)")
  case True
  then have "int n \<le> 2 ^ LENGTH('a) - 1"
    by (metis of_nat_less_iff of_nat_numeral of_nat_power zle_diff1_eq)
  from parse_int_show_nat[OF this, of 0 False] True show ?thesis by (simp add: parse_unsigned_def)
next
  case False
  then have n: "2 ^ LENGTH('a) - 1 < int n"
    by (metis of_nat_le_iff of_nat_numeral of_nat_power not_less zle_diff1_eq less_irrefl linorder_not_le)
  obtain c cs where c: "show_nat n = c # cs" "c \<noteq> CHR ''+''" "c \<noteq> CHR ''-''" by (rule show_nat_head)
  have "parse_loop True 0 (2 ^ LENGTH('a) - 1) 0 (show_nat n) = Inl PosOverflow"
    using parse_loop_overflow[OF parse_digits_show n, of 0] by simp
  then show ?thesis using c False by (simp add: parse_unsigned_def parse_int_def)
qed

text \<open>
  Typed properties.  A value of any type is read back as it was written and other keys
  keep their values.  A number too large for the type it is read as is refused, never cut off;
  only \<open>set_usize\<close> keeps no more than the lower 32 bits of what it is given, and a duration is
  kept to the millisecond.
\<close>

lemma typed_properties:
  "get_string k' (set_string k s p) = (if k' = k then Inr s else get_string k' p)
   \<and> get_bool k (set_bool k b p) = Inr b
   \<and> get_i16 k (set_i16 k i16 p) = Inr i16 \<and> get_u16 k (set_u16 k u16 p) = Inr u16
   \<and> get_i32 k (set_i32 k i32 p) = Inr i32 \<and> get_u32 k (set_u32 k u32 p) = Inr u32
   \<and> get_i64 k (set_i64 k i64 p) = Inr i64 \<and> get_u64 k (set_u64 k u64 p) = Inr u64
   \<and> get_u16 k (set_u64 k u64 p) = (if unat u64 < 65536 then Inr (ucast u64) else Inl (ParseInt PosOverflow))
   \<and> get_u32 k (set_u64 k u64 p) = (if unat u64 < 4294967296 then Inr (ucast u64) else Inl (ParseInt PosOverflow))
   \<and> get_usize k (set_usize k n p) = Inr (n mod 4294967296)
   \<and> get_duration k (set_duration k d p) = Inr (d div 1000000 mod 18446744073709551616 * 1000000)"
proof -
  have "get_u16 k (set_u64 k u64 p) = (if unat u64 < 65536 then Inr (ucast u64) else Inl (ParseInt PosOverflow))"
    "get_u32 k (set_u64 k u64 p) = (if unat u64 < 4294967296 then Inr (ucast u64) else Inl (ParseInt PosOverflow))"
    by (auto simp: accessor_defs parse_unsigned_wider)
  moreover have "get_usize k (set_usize k n p) = Inr (n mod 4294967296)"
    "get_duration k (set_duration k d p) = Inr (d div 1000000 mod 18446744073709551616 * 1000000)"
    by (simp_all add: accessor_defs parse_unsigned_wider unsigned_of_nat take_bit_eq_mod as_millis_def from_millis_def)
  moreover have "get_string k' (set_string k s p) = (if k' = k then Inr s else get_string k' p)"
    "get_bool k (set_bool k b p) = Inr b" "get_i16 k (set_i16 k i16 p) = Inr i16" "get_u16 k (set_u16 k u16 p) = Inr u16"
    "get_i32 k (set_i32 k i32 p) = Inr i32" "get_u32 k (set_u32 k u32 p) = Inr u32"
    "get_i64 k (set_i64 k i64 p) = Inr i64" "get_u64 k (set_u64 k u64 p) = Inr u64"
    by (simp_all add: accessor_defs)
  ultimately show ?thesis by blast
qed

lemma starts_with_iff: "starts_with pre s \<longleftrightarrow> (\<exists>t. s = pre @ t)"
  by (induction pre s rule: starts_with.induct) auto

lemma to_sub_lookup:
  assumes "iteration_order it" "hm_ok (pr_map self)"
  shows "map_of (pr_map (to_sub_properties_with_name it pre name self)) k = map_of (pr_map self) (pre @ ''.'' @ k)"
proof -
  let ?f = "\<lambda>(key, v) p. if starts_with (pre @ ''.'') key then set_string (drop (length (pre @ ''.'')) key) v p else p"
  have "distinct (map fst kvs) \<Longrightarrow> map_of (pr_map (fold ?f kvs p)) k =
      (case map_of kvs (pre @ ''.'' @ k) of Some v \<Rightarrow> Some v | None \<Rightarrow> map_of (pr_map p) k)" for kvs p
  proof (induction kvs arbitrary: p)
    case (Cons x kvs)
    obtain key v where x: "x = (key, v)" by force
    have new: "map_of kvs key = None" using Cons.prems x by (simp add: map_of_eq_None_iff)
    show ?case
    proof (cases "starts_with (pre @ ''.'') key")
      case True
      then obtain t where t: "key = (pre @ ''.'') @ t" using starts_with_iff by blast
      then show ?thesis using Cons x new True by (auto split: option.splits)
    next
      case False
      then have "key \<noteq> pre @ ''.'' @ k" using starts_with_iff by fastforce
      then show ?thesis using Cons x False by (auto split: option.splits)
    qed
  qed simp
  moreover have "distinct (map fst (it (pr_map self)))"
    using assms iteration_order.mset_it[OF assms(1)] unfolding hm_ok_def
    by (metis mset_eq_imp_distinct_iff mset_map)
  ultimately show ?thesis
    using map_of_it[OF assms] by (simp add: to_sub_properties_with_name_def Let_def properties_new_def split: option.splits)
qed

lemma extend_sub_lookup:
  assumes "iteration_order it" "hm_ok (pr_map q)"
  shows "map_of (pr_map (extend_sub_properties it pre q self)) (pre @ ''.'' @ k) =
      (case map_of (pr_map q) k of Some v \<Rightarrow> Some v | None \<Rightarrow> map_of (pr_map self) (pre @ ''.'' @ k))"
    and "(\<And>t. key \<noteq> pre @ ''.'' @ t) \<Longrightarrow> map_of (pr_map (extend_sub_properties it pre q self)) key = map_of (pr_map self) key"
    and "hm_ok (pr_map self) \<Longrightarrow> hm_ok (pr_map (extend_sub_properties it pre q self))"
proof -
  let ?f = "\<lambda>(sub_key, sub_val) s. s\<lparr>pr_map := AList.update (pre @ ''.'' @ sub_key) sub_val (pr_map s)\<rparr>"
  have "distinct (map fst kvs) \<Longrightarrow> map_of (pr_map (fold ?f kvs s)) (pre @ ''.'' @ k) =
      (case map_of kvs k of Some v \<Rightarrow> Some v | None \<Rightarrow> map_of (pr_map s) (pre @ ''.'' @ k))" for kvs and s :: properties
  proof (induction kvs arbitrary: s)
    case (Cons x kvs)
    obtain key v where x: "x = (key, v)" by force
    have "map_of kvs key = None" using Cons.prems x by (simp add: map_of_eq_None_iff)
    then show ?case using Cons x by (auto split: option.splits)
  qed simp
  moreover have "distinct (map fst (it (pr_map q)))"
    using assms iteration_order.mset_it[OF assms(1)] unfolding hm_ok_def
    by (metis mset_eq_imp_distinct_iff mset_map)
  ultimately show "map_of (pr_map (extend_sub_properties it pre q self)) (pre @ ''.'' @ k) =
      (case map_of (pr_map q) k of Some v \<Rightarrow> Some v | None \<Rightarrow> map_of (pr_map self) (pre @ ''.'' @ k))"
    using map_of_it[OF assms] by (simp add: extend_sub_properties_def)
  show "map_of (pr_map (extend_sub_properties it pre q self)) key = map_of (pr_map self) key"
    if "\<And>t. key \<noteq> pre @ ''.'' @ t"
  proof -
    have "map_of (pr_map (fold ?f kvs s)) key = map_of (pr_map s) key" for kvs and s :: properties
      using that by (induction kvs arbitrary: s) auto
    then show ?thesis by (simp add: extend_sub_properties_def)
  qed
  have "hm_ok (pr_map s) \<Longrightarrow> hm_ok (pr_map (fold ?f kvs s))" for kvs and s :: properties
    by (induction kvs arbitrary: s) auto
  then show "hm_ok (pr_map self) \<Longrightarrow> hm_ok (pr_map (extend_sub_properties it pre q self))"
    by (simp add: extend_sub_properties_def)
qed

lemma dotted_eq:
  "d \<notin> set a \<Longrightarrow> d \<notin> set b \<Longrightarrow> a @ d # x = b @ d # y \<longleftrightarrow> a = b \<and> x = y"
proof (induction a arbitrary: b)
  case Nil
  then show ?case by (cases b) auto
next
  case (Cons c a)
  then show ?case by (cases b) auto
qed

type_synonym order = "(string \<times> string) list \<Rightarrow> (string \<times> string) list"

text \<open>The kinds of functions with the accessors of their sections.\<close>

definition sections ::
    "order \<Rightarrow> (string \<times> (string \<Rightarrow> properties \<Rightarrow> properties) \<times> (string \<Rightarrow> properties \<Rightarrow> properties \<Rightarrow> properties)) list" where
  "sections it = [(''source'', to_source it, extend_source it), (''window'', to_window it, extend_window it),
     (''reduce'', to_reduce it, extend_reduce it), (''filter'', to_filter it, extend_filter it),
     (''sink'', to_sink it, extend_sink it), (''custom'', to_custom it, extend_custom it)]"

lemma sections_generic:
  "(kind, to, put) \<in> set (sections it) \<Longrightarrow> CHR ''.'' \<notin> set kind
     \<and> to = (\<lambda>f. to_sub_properties_with_name it (kind @ ''.'' @ f) (Some f))
     \<and> put = (\<lambda>f. extend_sub_properties it (kind @ ''.'' @ f))"
  by (auto simp: sections_def to_source_def extend_source_def to_window_def extend_window_def to_reduce_def extend_reduce_def
    to_filter_def extend_filter_def to_sink_def extend_sink_def to_custom_def extend_custom_def fun_eq_iff)

text \<open>
  Sections of functions.  When the properties \<open>q\<close> are put into the section of a function,
  the section of that function holds them, over what it held before; the section of every
  other function, and of the same name under another kind of function, is unchanged.  The
  names hold no full stop: with them, \<open>a\<close> would reach into the section of \<open>a.b\<close>.
\<close>

lemma function_sections:
  assumes "iteration_order it" "hm_ok (pr_map p)" "hm_ok (pr_map q)"
    and "(kind, to, put) \<in> set (sections it)" "(kind', to', put') \<in> set (sections it)"
    and "CHR ''.'' \<notin> set f" "CHR ''.'' \<notin> set g"
  shows "map_of (pr_map (to' g (put f q p))) k =
    (case map_of (pr_map q) k of
       Some v \<Rightarrow> if kind' = kind \<and> g = f then Some v else map_of (pr_map (to' g p)) k
     | None \<Rightarrow> map_of (pr_map (to' g p)) k)"
proof -
  note s = sections_generic[OF assms(4)] sections_generic[OF assms(5)]
  let ?pre = "kind @ ''.'' @ f" and ?pre' = "kind' @ ''.'' @ g"
  have to': "map_of (pr_map (to' g r)) k = map_of (pr_map r) (?pre' @ ''.'' @ k)" if "hm_ok (pr_map r)" for r
    using s to_sub_lookup[OF assms(1) that] by simp
  have ok: "hm_ok (pr_map (put f q p))" using s extend_sub_lookup(3)[OF assms(1,3,2)] by simp
  have eq: "?pre' @ ''.'' @ k = ?pre @ ''.'' @ t \<longleftrightarrow> kind' = kind \<and> g = f \<and> k = t" for t
    using s assms(6,7) by (simp add: dotted_eq)
  show ?thesis
  proof (cases "kind' = kind \<and> g = f")
    case True
    then show ?thesis using to'[OF ok] to'[OF assms(2)] s extend_sub_lookup(1)[OF assms(1,3), of ?pre p k] by (auto split: option.splits)
  next
    case False
    then have "?pre' @ ''.'' @ k \<noteq> ?pre @ ''.'' @ t" for t using eq by blast
    from extend_sub_lookup(2)[OF assms(1,3) this] show ?thesis
      using False to'[OF ok] to'[OF assms(2)] s by (auto split: option.splits)
  qed
qed

section \<open>Settings are read as they were written\<close>

context json_codec
begin

lemma get_json_set: "get_json J k (set_string k (js_to_string J x) p) = Inr x"
  by (simp add: get_json_def get_string_def json_roundtrip)

end

text \<open>A coding with the contract: strings with every character marked, ended by a mark.\<close>

fun mark :: "string \<Rightarrow> string" where
  "mark [] = ''.''"
| "mark (c # cs) = CHR '','' # c # mark cs"

fun unmark :: "string \<Rightarrow> string \<times> string" where
  "unmark (m # c # cs) = (if m = CHR '','' then let (s, r) = unmark cs in (c # s, r) else ([], c # cs))"
| "unmark [m] = ([], [])"
| "unmark [] = ([], [])"

lemma unmark_mark [simp]: "unmark (mark s @ r) = (s, r)"
  by (induction s) (cases r; simp)+

definition backend_json :: "checkpoint_backend json" where
  "backend_json = \<lparr>js_to_string = (\<lambda>b. case b of Memory \<Rightarrow> ''M''
       | MySql endpoint table \<Rightarrow> CHR ''S'' # mark endpoint @ (case table of None \<Rightarrow> ''N'' | Some t \<Rightarrow> CHR ''T'' # mark t)),
     js_from_str = (\<lambda>s. case s of
         [] \<Rightarrow> Inl ''EOF''
       | c # cs \<Rightarrow> if c = CHR ''M'' then Inr Memory
           else let (endpoint, r) = unmark cs in
             Inr (MySql endpoint (if r = ''N'' then None else Some (fst (unmark (tl r))))))\<rparr>"

definition unit_json :: "'a \<Rightarrow> 'a json" where
  "unit_json x = \<lparr>js_to_string = (\<lambda>_. ''Memory''), js_from_str = (\<lambda>_. Inr x)\<rparr>"

interpretation backend: json_codec backend_json
proof
  fix b
  have "unmark (mark t) = (t, [])" for t using unmark_mark[of t "[]"] by simp
  then show "js_from_str backend_json (js_to_string backend_json b) = Inr b"
    by (cases b) (auto simp: backend_json_def split: option.splits)
qed

interpretation metadata_mode: json_codec "unit_json MemoryMetadata"
proof
  fix x show "js_from_str (unit_json MemoryMetadata) (js_to_string (unit_json MemoryMetadata) x) = Inr x"
    by (cases x) (simp add: unit_json_def)
qed

interpretation keyed_state: json_codec "unit_json MemoryKeyedState"
proof
  fix x show "js_from_str (unit_json MemoryKeyedState) (js_to_string (unit_json MemoryKeyedState) x) = Inr x"
    by (cases x) (simp add: unit_json_def)
qed

lemma cluster_mode_roundtrip: "cluster_mode_try_from (show_cluster_mode m) = Inr m"
  by (induction m) code_simp+

lemma channel_base_on_roundtrip: "channel_base_on_try_from (show_channel_base_on b) = Inr b"
  by (induction b) code_simp+

lemma system_settings:
  "get_checkpoint backend_json (set_checkpoint backend_json b p) = Inr b"
  "get_metadata_mode (unit_json MemoryMetadata) (set_metadata_mode (unit_json MemoryMetadata) mm p) = Inr mm"
  "get_keyed_state_backend (unit_json MemoryKeyedState) (set_keyed_state_backend (unit_json MemoryKeyedState) kb p) = Inr kb"
  "get_cluster_mode (set_cluster_mode cm p) = Inr cm"
  "get_pub_sub_channel_base (set_pub_sub_channel_base base p) = Inr base"
  unfolding get_checkpoint_def set_checkpoint_def get_metadata_mode_def set_metadata_mode_def
    get_keyed_state_backend_def set_keyed_state_backend_def
  by (fact backend.get_json_set metadata_mode.get_json_set keyed_state.get_json_set
    | simp add: get_cluster_mode_def set_cluster_mode_def set_str_def get_string_def cluster_mode_roundtrip
        get_pub_sub_channel_base_def set_pub_sub_channel_base_def channel_base_on_roundtrip)+

lemma application_name_once:
  "rbind (set_application_name n p) (set_application_name m) = Inl Explicit_panic"
  by (simp add: set_application_name_def get_string_def split: sum.splits option.splits)

end
