(* ===== verification/Network.thy ===== *)
theory Network
  imports Element Channel
begin

text \<open>
  The pull protocol between workers (\<open>rlink/src/pub_sub/network\<close>): the request and
  response frames, the server that answers a pull from a published channel, the client that
  collects the answer, and the two registries of channels (network and memory).  Parameters
  are the byte buffers, the queue under a channel, and the framed TCP stream, whose contract
  is the locale \<open>framed_link\<close>.
\<close>

section \<open>Frames\<close>

definition HEADER_LEN :: nat where "HEADER_LEN = 4"

definition REQUEST_BODY_LEN :: nat where "REQUEST_BODY_LEN = 20"

record element_request =
  rq_channel_key :: channel_key
  rq_batch_pull_size :: u16
  rq_batch_id :: u16

datatype net_error =
    Illegal_request_length u32
  | Unknown_code u8
  | Read_nothing
  | Read_error
  | No_service
  | Unrecognized_code
  | Input_disconnected

definition request_into :: "bytes_ops \<Rightarrow> element_request \<Rightarrow> u8 list res" where
  "request_into B r =
     (let buffer = put_u32 B (of_nat REQUEST_BODY_LEN)
          @ serialize_channel_key B (rq_channel_key r)
          @ put_u16 B (rq_batch_pull_size r) @ put_u16 B (rq_batch_id r) in
      rbind (assert_res (length buffer = HEADER_LEN + REQUEST_BODY_LEN)) (\<lambda>_. Inr buffer))"

definition request_try_from :: "bytes_ops \<Rightarrow> u8 list \<Rightarrow> net_error failure + element_request" where
  "request_try_from B buffer =
     rbind (lift_panic (buf_read (get_u32 B buffer))) (\<lambda>(body_len, buffer).
     rbind (lift_panic (assert_res (length buffer = unat body_len))) (\<lambda>_.
     if unat body_len \<noteq> REQUEST_BODY_LEN then Inl (Failed (Illegal_request_length body_len))
     else
       rbind (lift_panic (deserialize_channel_key B buffer)) (\<lambda>(channel_key, buffer).
       rbind (lift_panic (buf_read (get_u16 B buffer))) (\<lambda>(batch_pull_size, buffer).
       rbind (lift_panic (buf_read (get_u16 B buffer))) (\<lambda>(batch_id, buffer).
         Inr \<lparr>rq_channel_key = channel_key, rq_batch_pull_size = batch_pull_size,
              rq_batch_id = batch_id\<rparr>)))))"

datatype response_code = RcUnknown | RcOk | RcBatchFinish | RcEmpty | RcNoService

fun code_as_u8 :: "response_code \<Rightarrow> u8" where
  "code_as_u8 RcUnknown = 0"
| "code_as_u8 RcOk = 1"
| "code_as_u8 RcBatchFinish = 2"
| "code_as_u8 RcEmpty = 3"
| "code_as_u8 RcNoService = 4"

definition response_code_from :: "u8 \<Rightarrow> response_code" where
  "response_code_from v = (if v = 1 then RcOk else if v = 2 then RcBatchFinish
     else if v = 3 then RcEmpty else if v = 4 then RcNoService else RcUnknown)"

record element_response =
  rs_code :: response_code
  rs_element :: "element option"

definition response_ok :: "element \<Rightarrow> element_response" where
  "response_ok e = \<lparr>rs_code = RcOk, rs_element = Some e\<rparr>"

definition response_end :: "response_code \<Rightarrow> element_response" where
  "response_end code = \<lparr>rs_code = code, rs_element = None\<rparr>"

definition response_into :: "bytes_ops \<Rightarrow> element_response \<Rightarrow> u8 list res" where
  "response_into B r = (case rs_code r of
     RcOk \<Rightarrow>
       rbind (unwrap (rs_element r)) (\<lambda>element.
       let body_len = 1 + capacity element; package_len = HEADER_LEN + body_len;
           buffer = put_u32 B (of_nat body_len) @ put_u8 B (code_as_u8 (rs_code r))
             @ serialize B element in
       rbind (assert_res (length buffer = package_len)) (\<lambda>_. Inr buffer))
   | _ \<Rightarrow>
       let body_len = 1; package_len = HEADER_LEN + body_len;
           buffer = put_u32 B (of_nat body_len) @ put_u8 B (code_as_u8 (rs_code r)) in
       rbind (assert_res (length buffer = package_len)) (\<lambda>_. Inr buffer))"

definition response_try_from ::
    "bytes_ops \<Rightarrow> u8 list \<Rightarrow> net_error failure + element_response" where
  "response_try_from B buffer =
     rbind (lift_panic (buf_read (get_u32 B buffer))) (\<lambda>(body_len, buffer).
     rbind (lift_panic (assert_res (length buffer = unat body_len))) (\<lambda>_.
     rbind (lift_panic (buf_read (get_u8 B buffer))) (\<lambda>(code_value, buffer).
       let code = response_code_from code_value in
       if code = RcUnknown then Inl (Failed (Unknown_code code_value))
       else case code of
         RcOk \<Rightarrow> rbind (lift_panic (deserialize B buffer)) (\<lambda>(element, buffer).
           Inr \<lparr>rs_code = code, rs_element = Some element\<rparr>)
       | _ \<Rightarrow> Inr \<lparr>rs_code = code, rs_element = None\<rparr>)))"

lemmas frame_len_defs = HEADER_LEN_def REQUEST_BODY_LEN_def

lemma code_roundtrip: "response_code_from (code_as_u8 c) = c"
  by (cases c) (simp_all add: response_code_from_def)

text \<open>An element that fits in a frame: its body length is a 32-bit number.\<close>

definition frame_fits :: "element \<Rightarrow> bool" where
  "frame_fits e \<longleftrightarrow> 1 + capacity e < 2 ^ 32"

lemma frame_fits_fits: "frame_fits e \<Longrightarrow> fits e"
  by (cases e) (simp_all add: frame_fits_def record_capacity_def)

context bytes_codec
begin

lemma request_roundtrip:
  "\<exists>buffer. request_into B r = Inr buffer \<and> length buffer = 24
     \<and> request_try_from B buffer = Inr r"
  by (simp add: request_into_def request_try_from_def frame_len_defs codec_lens codec_reads
      length_serialize_channel_key channel_key_capacity_def channel_key_roundtrip put_get_nil)

lemma body_len_exact: "frame_fits e \<Longrightarrow> unat (1 + of_nat (capacity e) :: u32) = Suc (capacity e)"
  using unat_of_nat[of "Suc (capacity e)", where 'a = 32] by (simp add: frame_fits_def)

lemma response_ok_roundtrip:
  "frame_fits e \<Longrightarrow> \<exists>buffer. response_into B (response_ok e) = Inr buffer
     \<and> length buffer = 5 + capacity e \<and> get_u32 B buffer = Some (of_nat (1 + capacity e), drop 4 buffer)
     \<and> response_try_from B buffer = Inr (response_ok (wire e))"
  by (simp add: response_into_def response_try_from_def response_ok_def frame_len_defs codec_lens
      codec_reads length_serialize serialize_roundtrip frame_fits_fits body_len_exact
      response_code_from_def Let_def)

lemma response_end_roundtrip:
  "c \<noteq> RcOk \<Longrightarrow> c \<noteq> RcUnknown \<Longrightarrow> \<exists>buffer. response_into B (response_end c) = Inr buffer
     \<and> length buffer = 5 \<and> get_u32 B buffer = Some (1, drop 4 buffer)
     \<and> response_try_from B buffer = Inr (response_end c)"
  by (cases c)
    (simp_all add: response_into_def response_try_from_def response_end_def frame_len_defs codec_lens
      codec_reads put_get_nil response_code_from_def Let_def)

lemma response_unknown:
  "\<exists>buffer. response_into B (response_end RcUnknown) = Inr buffer
     \<and> response_try_from B buffer = Inl (Failed (Unknown_code 0))"
  by (simp add: response_into_def response_try_from_def response_end_def frame_len_defs codec_lens
      codec_reads put_get_nil response_code_from_def Let_def)

end

section \<open>The server\<close>

text \<open>
  \<open>NETWORK_CHANNELS\<close>: the receiving halves by key.  A sender handed out by \<open>publish\<close>
  is the key under which it shares the channel with the registry.
\<close>

type_synonym 'q net_channels = "(channel_key, 'q channel) hmap"

definition set_network_channel ::
    "channel_key \<Rightarrow> 'q channel \<Rightarrow> 'q net_channels \<Rightarrow> 'q net_channels res" where
  "set_network_channel key receiver m =
     (if key \<in> set (hm_keys m) then Inl Explicit_panic else Inr (AList.update key receiver m))"

definition get_network_channel :: "channel_key \<Rightarrow> 'q net_channels \<Rightarrow> 'q channel option" where
  "get_network_channel key m = map_of m key"

definition remove_network_channel :: "channel_key \<Rightarrow> 'q net_channels \<Rightarrow> 'q net_channels" where
  "remove_network_channel key m = AList.delete key m"

definition empty_network_channel :: "'q net_channels \<Rightarrow> bool" where
  "empty_network_channel m \<longleftrightarrow> length m = 0"

fun publish :: "('a, 'q) crossbeam \<Rightarrow> task_id \<Rightarrow> task_id list \<Rightarrow> nat \<Rightarrow> channel_base_on \<Rightarrow>
    'q net_channels \<Rightarrow> (channel_key list \<times> 'q net_channels) res" where
  "publish X source [] channel_size base_on m = Inr ([], m)"
| "publish X source (target # targets) channel_size base_on m =
     (let channel_key = \<lparr>source_task_id = source, target_task_id = target\<rparr>;
          c = named_channel_with_base X channel_size base_on in
      rbind (set_network_channel channel_key c m) (\<lambda>m.
      rbind (publish X source targets channel_size base_on m) (\<lambda>(senders, m).
        Inr (channel_key # senders, m))))"

fun batch_receive ::
    "('a, 'q) crossbeam \<Rightarrow> nat \<Rightarrow> 'q channel \<Rightarrow> 'a list \<times> 'q channel" where
  "batch_receive X 0 receiver = ([], receiver)"
| "batch_receive X (Suc n) receiver = (case try_recv X receiver of
     Inr (element, receiver) \<Rightarrow>
       (let (element_list, receiver) = batch_receive X n receiver
        in (element # element_list, receiver))
   | Inl RecvEmpty \<Rightarrow> ([], receiver)
   | Inl RecvDisconnected \<Rightarrow> ([], receiver))"

definition batch_get ::
    "(element, 'q) crossbeam \<Rightarrow> channel_key \<Rightarrow> u16 \<Rightarrow> 'q net_channels \<Rightarrow>
     element list \<times> 'q net_channels" where
  "batch_get X key batch_pull_size m = (case get_network_channel key m of
     Some receiver \<Rightarrow>
       (let (element_list, receiver) = batch_receive X (unat batch_pull_size) receiver
        in (element_list, AList.update key receiver m))
   | None \<Rightarrow> ([], m))"

text \<open>\<open>send\<close> writes one frame; the frames written are the output.\<close>

fun send_responses :: "bytes_ops \<Rightarrow> element_response list \<Rightarrow> u8 list list res" where
  "send_responses B [] = Inr []"
| "send_responses B (r # rs) =
     rbind (response_into B r) (\<lambda>frame.
     rbind (send_responses B rs) (\<lambda>frames. Inr (frame # frames)))"

definition batch_send :: "bytes_ops \<Rightarrow> element list \<Rightarrow> u16 \<Rightarrow> u8 list list res" where
  "batch_send B element_list batch_pull_size =
     (let status_code_response =
        (if length element_list = unat batch_pull_size then response_end RcBatchFinish
         else response_end RcEmpty)
      in send_responses B (map response_ok element_list @ [status_code_response]))"

definition subscribe_handle ::
    "bytes_ops \<Rightarrow> (element, 'q) crossbeam \<Rightarrow> element_request \<Rightarrow> 'q net_channels \<Rightarrow>
     (u8 list list \<times> 'q net_channels) res" where
  "subscribe_handle B X request m =
     (let (element_list, m) = batch_get X (rq_channel_key request) (rq_batch_pull_size request) m
      in rbind (batch_send B element_list (rq_batch_pull_size request)) (\<lambda>frames. Inr (frames, m)))"

text \<open>
  A session: every frame read is a request that is answered before the next is read; a bad
  frame or the end of the stream closes the session with an error.
\<close>

fun session_process0 ::
    "bytes_ops \<Rightarrow> (element, 'q) crossbeam \<Rightarrow> (unit + u8 list) list \<Rightarrow> u8 list list \<Rightarrow>
     'q net_channels \<Rightarrow> u8 list list \<times> 'q net_channels \<times> net_error failure" where
  "session_process0 B X [] written m = (written, m, Failed Read_nothing)"
| "session_process0 B X (Inl _ # messages) written m = (written, m, Failed Read_error)"
| "session_process0 B X (Inr bytes # messages) written m =
     (case request_try_from B bytes of
        Inl e \<Rightarrow> (written, m, e)
      | Inr request \<Rightarrow> (case subscribe_handle B X request m of
          Inl p \<Rightarrow> (written, m, Panicked p)
        | Inr (frames, m) \<Rightarrow> session_process0 B X messages (written @ frames) m))"

section \<open>The client\<close>

definition BATCH_PULL_SIZE :: u16 where "BATCH_PULL_SIZE = 6000"

text \<open>
  \<open>recv_element\<close>: at most \<open>batch_size + 1\<close> frames are read (an addition on \<open>u16\<close>); the
  loop that is not left by \<open>return\<close> runs into \<open>unreachable!\<close>.
\<close>

fun recv_loop ::
    "bytes_ops \<Rightarrow> channel_key \<Rightarrow> nat \<Rightarrow> element list \<Rightarrow> (unit + u8 list) list \<Rightarrow>
     net_error failure + element list \<times> (unit + u8 list) list" where
  "recv_loop B key 0 element_list messages = Inl (Panicked Unreachable)"
| "recv_loop B key (Suc n) element_list [] = Inl (Failed Read_nothing)"
| "recv_loop B key (Suc n) element_list (Inl _ # messages) = Inl (Failed Read_error)"
| "recv_loop B key (Suc n) element_list (Inr bytes # messages) =
     rbind (response_try_from B bytes) (\<lambda>response. case rs_code response of
       RcOk \<Rightarrow> rbind (lift_panic (unwrap (rs_element response))) (\<lambda>element.
         recv_loop B key n (element_list @ [set_channel_key key element]) messages)
     | RcBatchFinish \<Rightarrow> Inr (element_list, messages)
     | RcEmpty \<Rightarrow> Inr (element_list, messages)
     | RcNoService \<Rightarrow> Inl (Failed No_service)
     | RcUnknown \<Rightarrow> Inl (Failed Unrecognized_code))"

definition recv_element ::
    "bytes_ops \<Rightarrow> channel_key \<Rightarrow> u16 \<Rightarrow> (unit + u8 list) list \<Rightarrow>
     net_error failure + element list \<times> (unit + u8 list) list" where
  "recv_element B key batch_size messages =
     recv_loop B key (unat (batch_size + 1)) [] messages"

record client =
  cl_channel_key :: channel_key
  cl_batch_pull_size :: u16
  cl_batch_id :: u16

definition client_request :: "client \<Rightarrow> element_request \<times> client" where
  "client_request cl =
     (\<lparr>rq_channel_key = cl_channel_key cl, rq_batch_pull_size = cl_batch_pull_size cl,
       rq_batch_id = cl_batch_id cl\<rparr>, cl\<lparr>cl_batch_id := cl_batch_id cl + 1\<rparr>)"

text \<open>
  The delivery loop of \<open>Client::send\<close> with \<open>send_to_channel\<close>: each element is offered until
  the input channel takes it.  One run of \<open>client_deliver\<close> goes on until the channel is
  full; the elements it returns are still to be delivered (the code sleeps and retries), a
  closed channel ends the client.
\<close>

fun client_deliver ::
    "(element, 'q) crossbeam \<Rightarrow> 'q channel \<Rightarrow> element list \<Rightarrow>
     net_error failure + element list \<times> 'q channel" where
  "client_deliver X c [] = Inr ([], c)"
| "client_deliver X c (element # elements) = (case try_send_opt X c element of
     (None, c) \<Rightarrow> client_deliver X c elements
   | (Some t, c) \<Rightarrow> (case try_send X c t of
       Inr c \<Rightarrow> client_deliver X c elements
     | Inl (Full t) \<Rightarrow> Inr (t # elements, c)
     | Inl (Disconnected t) \<Rightarrow> Inl (Failed Input_disconnected)))"

text \<open>
  One round of the pull loop over a stream: the request goes to the server, the server's
  frames come back, the client collects them.  \<open>link\<close> is what the reader of a framed stream
  sees of the frames the writer wrote.
\<close>

definition pull_round ::
    "bytes_ops \<Rightarrow> (element, 'q) crossbeam \<Rightarrow> (u8 list list \<Rightarrow> (unit + u8 list) list) \<Rightarrow>
     client \<Rightarrow> 'q net_channels \<Rightarrow>
     net_error failure + element list \<times> client \<times> 'q net_channels" where
  "pull_round B X link cl m =
     (let (request, cl) = client_request cl in
      rbind (lift_panic (request_into B request)) (\<lambda>buffer.
      let (written, m, _) = session_process0 B X (link [buffer]) [] m in
      rbind (recv_element B (cl_channel_key cl) (cl_batch_pull_size cl) (link written))
        (\<lambda>(element_list, _). Inr (element_list, cl, m))))"

fun pull_rounds ::
    "bytes_ops \<Rightarrow> (element, 'q) crossbeam \<Rightarrow> (u8 list list \<Rightarrow> (unit + u8 list) list) \<Rightarrow>
     nat \<Rightarrow> client \<Rightarrow> 'q net_channels \<Rightarrow>
     net_error failure + element list \<times> client \<times> 'q net_channels" where
  "pull_rounds B X link 0 cl m = Inr ([], cl, m)"
| "pull_rounds B X link (Suc k) cl m =
     rbind (pull_round B X link cl m) (\<lambda>(es, cl, m).
     rbind (pull_rounds B X link k cl m) (\<lambda>(es', cl, m). Inr (es @ es', cl, m)))"

section \<open>Channels inside a worker\<close>

text \<open>
  \<open>MEMORY_CHANNELS\<close> (\<open>pub_sub/memory\<close>): one channel per target task, created by whoever
  asks first.
\<close>

type_synonym 'q mem_channels = "(task_id, 'q channel) hmap"

definition mem_get ::
    "('a, 'q) crossbeam \<Rightarrow> task_id \<Rightarrow> nat \<Rightarrow> channel_base_on \<Rightarrow> 'q mem_channels \<Rightarrow>
     'q channel \<times> 'q mem_channels" where
  "mem_get X target channel_size base_on m = (case map_of m target of
     Some c \<Rightarrow> (c, m)
   | None \<Rightarrow> let c = named_channel_with_base X channel_size base_on
             in (c, AList.update target c m))"

fun mem_publish :: "('a, 'q) crossbeam \<Rightarrow> task_id \<Rightarrow> task_id list \<Rightarrow> nat \<Rightarrow> channel_base_on \<Rightarrow>
    'q mem_channels \<Rightarrow> channel_key list \<times> 'q mem_channels" where
  "mem_publish X source [] channel_size base_on m = ([], m)"
| "mem_publish X source (target # targets) channel_size base_on m =
     (let channel_key = \<lparr>source_task_id = source, target_task_id = target\<rparr>;
          (sender, m) = mem_get X target channel_size base_on m;
          (senders, m) = mem_publish X source targets channel_size base_on m
      in (channel_key # senders, m))"

definition mem_subscribe :: "('a, 'q) crossbeam \<Rightarrow> task_id list \<Rightarrow> task_id \<Rightarrow> nat \<Rightarrow>
    channel_base_on \<Rightarrow> 'q mem_channels \<Rightarrow> ('q channel \<times> 'q mem_channels) res" where
  "mem_subscribe X sources target channel_size base_on m =
     (if length sources = 0 then Inl Explicit_panic
      else Inr (mem_get X target channel_size base_on m))"

section \<open>What a pull delivers\<close>

text \<open>
  A complete frame as the length-delimited codec reads it: a 4-byte length, at most
  \<open>max_frame_length\<close>, and that many bytes.  The codec hands over whole frames with their
  header (\<open>num_skip(0)\<close>), in order.
\<close>

definition MAX_FRAME_LENGTH :: nat where "MAX_FRAME_LENGTH = 1024 * 1024 * 3"

definition whole_frame :: "bytes_ops \<Rightarrow> u8 list \<Rightarrow> bool" where
  "whole_frame B f \<longleftrightarrow> (\<exists>n. get_u32 B f = Some (n, drop 4 f) \<and> length f = 4 + unat n
     \<and> unat n \<le> MAX_FRAME_LENGTH)"

definition framable :: "element \<Rightarrow> bool" where
  "framable e \<longleftrightarrow> 1 + capacity e \<le> MAX_FRAME_LENGTH"

lemma framable_fits: "framable e \<Longrightarrow> frame_fits e"
  by (simp add: framable_def frame_fits_def MAX_FRAME_LENGTH_def)

definition deliver :: "channel_key \<Rightarrow> element \<Rightarrow> element" where
  "deliver key e = set_channel_key key (wire e)"

locale framed_link = bytes_codec +
  fixes link :: "u8 list list \<Rightarrow> (unit + u8 list) list"
  assumes link_whole: "(\<And>f. f \<in> set fs \<Longrightarrow> whole_frame B f) \<Longrightarrow> link fs = map Inr fs"
begin

lemma request_frame:
  "\<exists>buffer. request_into B r = Inr buffer \<and> whole_frame B buffer \<and> request_try_from B buffer = Inr r"
  by (simp add: request_into_def request_try_from_def frame_len_defs codec_lens codec_reads
      length_serialize_channel_key channel_key_capacity_def channel_key_roundtrip put_get_nil
      whole_frame_def MAX_FRAME_LENGTH_def)

lemma ok_frame:
  assumes "framable e"
  shows "\<exists>buffer. response_into B (response_ok e) = Inr buffer \<and> whole_frame B buffer
     \<and> response_try_from B buffer = Inr (response_ok (wire e))"
proof -
  from response_ok_roundtrip[OF framable_fits[OF assms]] obtain buffer where
    "response_into B (response_ok e) = Inr buffer" "length buffer = 5 + capacity e"
    "get_u32 B buffer = Some (of_nat (1 + capacity e), drop 4 buffer)"
    "response_try_from B buffer = Inr (response_ok (wire e))" by blast
  then show ?thesis
    using assms body_len_exact[OF framable_fits[OF assms]]
    by (auto simp: whole_frame_def framable_def)
qed

lemma end_frame:
  assumes "c = RcBatchFinish \<or> c = RcEmpty"
  shows "\<exists>buffer. response_into B (response_end c) = Inr buffer \<and> whole_frame B buffer
     \<and> response_try_from B buffer = Inr (response_end c)"
proof -
  from assms have "c \<noteq> RcOk" "c \<noteq> RcUnknown" by auto
  from response_end_roundtrip[OF this] show ?thesis
    by (auto simp: whole_frame_def MAX_FRAME_LENGTH_def)
qed

text \<open>Writing a batch and collecting it again gives back its elements.\<close>

lemma batch_collected:
  assumes c: "c = RcBatchFinish \<or> c = RcEmpty"
  shows "(\<And>e. e \<in> set es \<Longrightarrow> framable e) \<Longrightarrow>
    \<exists>frames. send_responses B (map response_ok es @ [response_end c]) = Inr frames
      \<and> (\<forall>f\<in>set frames. whole_frame B f)
      \<and> (\<forall>acc n rest. length es < n \<longrightarrow>
          recv_loop B key n acc (map Inr frames @ rest) = Inr (acc @ map (deliver key) es, rest))"
proof (induction es)
  case Nil
  from end_frame[OF c] obtain f where f: "response_into B (response_end c) = Inr f"
    "whole_frame B f" "response_try_from B f = Inr (response_end c)" by blast
  have "recv_loop B key n acc (Inr f # rest) = Inr (acc, rest)" if "0 < n" for n acc rest
    using that f(3) c by (cases n) (auto simp: response_end_def)
  then show ?case
    using f by (intro exI[of _ "[f]"]) simp
next
  case (Cons e es)
  from ok_frame[OF Cons.prems, of e] obtain f where f: "response_into B (response_ok e) = Inr f"
    "whole_frame B f" "response_try_from B f = Inr (response_ok (wire e))" by auto
  from Cons.IH Cons.prems obtain frames where
    fs: "send_responses B (map response_ok es @ [response_end c]) = Inr frames"
      "\<forall>f\<in>set frames. whole_frame B f"
      "\<forall>acc n rest. length es < n \<longrightarrow>
          recv_loop B key n acc (map Inr frames @ rest) = Inr (acc @ map (deliver key) es, rest)"
    by force
  have "recv_loop B key n acc (Inr f # map Inr frames @ rest)
      = Inr (acc @ deliver key e # map (deliver key) es, rest)" if "Suc (length es) < n" for n acc rest
    using that f(3) fs(3) by (cases n) (auto simp: response_ok_def deliver_def)
  then show ?case
    using f fs(1,2) by (intro exI[of _ "f # frames"]) simp
qed

end

context crossbeam_fifo
begin

lemma batch_receive_take:
  "ch_ok contents bound c \<Longrightarrow> \<exists>c'. batch_receive X n c = (take n (contents (ch_queue c)), c')
     \<and> contents (ch_queue c') = drop n (contents (ch_queue c)) \<and> ch_ok contents bound c'"
proof (induction n arbitrary: c)
  case 0
  then show ?case by simp
next
  case (Suc n)
  show ?case
  proof (cases "contents (ch_queue c)")
    case Nil
    then show ?thesis using try_recv_none[of c] Suc.prems by simp
  next
    case (Cons v vs)
    from try_recv_head[OF Suc.prems Cons] obtain c' where
      c': "try_recv X c = Inr (v, c')" "contents (ch_queue c') = vs" "ch_ok contents bound c'"
      by blast
    then show ?thesis using Suc.IH[OF c'(3)] Cons by auto
  qed
qed

end

text \<open>The stream and the queue together.\<close>

locale pull_link = framed_link B link + crossbeam_fifo X contents bound rx_alive tx_alive
  for B link and X :: "(element, 'q) crossbeam" and contents bound rx_alive tx_alive
begin

lemma round_budget: "unat (n :: u16) < 65535 \<Longrightarrow> unat (n + 1) = unat n + 1"
  by (simp add: unat_plus_simple[THEN iffD1] word_le_nat_alt unat_word_ariths)

lemma pull_round_batch:
  assumes g: "batch_get X (cl_channel_key cl) (cl_batch_pull_size cl) m = (es, m')"
    and fr: "\<And>e. e \<in> set es \<Longrightarrow> framable e"
    and le: "length es \<le> unat (cl_batch_pull_size cl)" and n: "unat (cl_batch_pull_size cl) < 65535"
  shows "pull_round B X link cl m =
    Inr (map (deliver (cl_channel_key cl)) es, snd (client_request cl), m')"
proof -
  let ?r = "fst (client_request cl)"
  let ?c = "if length es = unat (cl_batch_pull_size cl) then RcBatchFinish else RcEmpty"
  from request_frame[of ?r] obtain buffer where b: "request_into B ?r = Inr buffer"
    "whole_frame B buffer" "request_try_from B buffer = Inr ?r" by blast
  have "?c = RcBatchFinish \<or> ?c = RcEmpty" by simp
  from batch_collected[where key = "cl_channel_key cl", OF this fr] obtain frames where
    fs: "send_responses B (map response_ok es @ [response_end ?c]) = Inr frames"
      "\<forall>f\<in>set frames. whole_frame B f"
      "\<forall>acc n rest. length es < n \<longrightarrow> recv_loop B (cl_channel_key cl) n acc (map Inr frames @ rest)
         = Inr (acc @ map (deliver (cl_channel_key cl)) es, rest)"
    by blast
  have h: "subscribe_handle B X ?r m = Inr (frames, m')"
    using g fs(1) by (simp add: subscribe_handle_def batch_send_def client_request_def Let_def
        if_distrib[of response_end] cong: if_cong)
  have s: "session_process0 B X (link [buffer]) [] m = (frames, m', Failed Read_nothing)"
    using link_whole[of "[buffer]"] b h by simp
  have "recv_element B (cl_channel_key cl) (cl_batch_pull_size cl) (link frames)
      = Inr (map (deliver (cl_channel_key cl)) es, [])"
    using link_whole[of frames] fs(2)
      fs(3)[rule_format, of "unat (cl_batch_pull_size cl + 1)" "[]" "[]"] le
    by (simp add: recv_element_def round_budget[OF n])
  then show ?thesis
    using b(1) s by (simp add: pull_round_def client_request_def)
qed

lemma pull_round_unknown:
  assumes "map_of m (cl_channel_key cl) = None" "unat (cl_batch_pull_size cl) < 65535"
  shows "pull_round B X link cl m = Inr ([], snd (client_request cl), m)"
  using pull_round_batch[of cl m "[]" m] assms
  by (simp add: batch_get_def get_network_channel_def)

lemma pull_round_take:
  assumes m: "map_of m (cl_channel_key cl) = Some c" and ok: "ch_ok contents bound c"
    and fr: "\<And>e. e \<in> set (contents (ch_queue c)) \<Longrightarrow> framable e"
    and n: "unat (cl_batch_pull_size cl) < 65535"
  shows "\<exists>c'. pull_round B X link cl m =
      Inr (map (deliver (cl_channel_key cl))
             (take (unat (cl_batch_pull_size cl)) (contents (ch_queue c))),
           snd (client_request cl), AList.update (cl_channel_key cl) c' m)
    \<and> contents (ch_queue c') = drop (unat (cl_batch_pull_size cl)) (contents (ch_queue c))
    \<and> ch_ok contents bound c'"
proof -
  let ?n = "unat (cl_batch_pull_size cl)"
  from batch_receive_take[OF ok, of ?n] obtain c' where
    c': "batch_receive X ?n c = (take ?n (contents (ch_queue c)), c')"
      "contents (ch_queue c') = drop ?n (contents (ch_queue c))" "ch_ok contents bound c'" by blast
  have "batch_get X (cl_channel_key cl) (cl_batch_pull_size cl) m =
      (take ?n (contents (ch_queue c)), AList.update (cl_channel_key cl) c' m)"
    using m c'(1) by (simp add: batch_get_def get_network_channel_def)
  moreover have "framable e" if "e \<in> set (take ?n (contents (ch_queue c)))" for e
    using fr in_set_takeD[OF that] by blast
  ultimately show ?thesis
    using pull_round_batch[OF _ _ _ n, of m "take ?n (contents (ch_queue c))"] c'(2,3)
    by (intro exI[of _ c']) simp
qed

lemma pull_rounds_take:
  "map_of m (cl_channel_key cl) = Some c \<Longrightarrow> ch_ok contents bound c \<Longrightarrow>
   (\<And>e. e \<in> set (contents (ch_queue c)) \<Longrightarrow> framable e) \<Longrightarrow> unat (cl_batch_pull_size cl) < 65535 \<Longrightarrow>
   \<exists>cl' m' c'. pull_rounds B X link k cl m =
      Inr (map (deliver (cl_channel_key cl))
             (take (k * unat (cl_batch_pull_size cl)) (contents (ch_queue c))), cl', m')
    \<and> map_of m' (cl_channel_key cl) = Some c'
    \<and> contents (ch_queue c') = drop (k * unat (cl_batch_pull_size cl)) (contents (ch_queue c))
    \<and> (\<forall>key. key \<noteq> cl_channel_key cl \<longrightarrow> map_of m' key = map_of m key)"
proof (induction k arbitrary: cl m c)
  case 0
  then show ?case by simp
next
  case (Suc k)
  let ?n = "unat (cl_batch_pull_size cl)" and ?cl = "snd (client_request cl)"
  from pull_round_take[OF Suc.prems(1-4)] obtain c1 where
    c1: "pull_round B X link cl m = Inr (map (deliver (cl_channel_key cl))
           (take ?n (contents (ch_queue c))), ?cl, AList.update (cl_channel_key cl) c1 m)"
      "contents (ch_queue c1) = drop ?n (contents (ch_queue c))" "ch_ok contents bound c1" by blast
  have cl: "cl_channel_key ?cl = cl_channel_key cl" "cl_batch_pull_size ?cl = cl_batch_pull_size cl"
    by (simp_all add: client_request_def)
  have "\<And>e. e \<in> set (contents (ch_queue c1)) \<Longrightarrow> framable e"
    using Suc.prems(3) c1(2) in_set_dropD by fastforce
  from Suc.IH[of "AList.update (cl_channel_key cl) c1 m" ?cl c1] this Suc.prems(4) c1(3)
  obtain cl' m' c' where r:
      "pull_rounds B X link k ?cl (AList.update (cl_channel_key cl) c1 m) =
        Inr (map (deliver (cl_channel_key cl)) (take (k * ?n) (contents (ch_queue c1))), cl', m')"
      "map_of m' (cl_channel_key cl) = Some c'"
      "contents (ch_queue c') = drop (k * ?n) (contents (ch_queue c1))"
      "\<forall>key. key \<noteq> cl_channel_key cl \<longrightarrow> map_of m' key = map_of m key"
    by (auto simp: cl)
  show ?case
    using c1 r by (auto simp: take_add add.commute simp flip: map_append)
qed

end

section \<open>A concrete stream\<close>

text \<open>
  The length-delimited decoder on the concatenated bytes, with the big-endian buffers: it
  reads a length, waits for that many bytes and hands over the frame; a longer frame is an
  error.
\<close>

function split_frames :: "u8 list \<Rightarrow> (unit + u8 list) list" where
  "split_frames bytes = (case get_u32 be_ops bytes of
     None \<Rightarrow> []
   | Some (n, rest) \<Rightarrow>
       if unat n > MAX_FRAME_LENGTH then [Inl ()]
       else if length rest < unat n then []
       else Inr (take (4 + unat n) bytes) # split_frames (drop (4 + unat n) bytes))"
  by pat_completeness auto
termination
  by (relation "measure length") (auto simp: be_ops_def be_get_def split: if_splits)

declare split_frames.simps [simp del]

lemma split_whole: "whole_frame be_ops f \<Longrightarrow> split_frames (f @ rest) = Inr f # split_frames rest"
  by (subst split_frames.simps)
    (auto simp: whole_frame_def be_ops_def be_get_def split: if_splits)

lemma split_all: "(\<And>f. f \<in> set fs \<Longrightarrow> whole_frame be_ops f) \<Longrightarrow> split_frames (concat fs) = map Inr fs"
proof (induction fs)
  case Nil
  then show ?case by (subst split_frames.simps) (simp add: be_ops_def be_get_def)
next
  case (Cons f fs)
  then show ?case by (simp add: split_whole)
qed

interpretation tcp: framed_link be_ops "\<lambda>fs. split_frames (concat fs)"
  by unfold_locales (rule split_all)

interpretation net: pull_link be_ops "\<lambda>fs. split_frames (concat fs)" fifo_ops f_items f_bound f_rx f_tx
  by unfold_locales

section \<open>Properties\<close>

text \<open>
  C16: The pull protocol loses nothing.  For any byte buffers, framed stream and queue with
  the documented behaviour, \<open>k\<close> rounds of pulling a registered channel (a batch size below
  65535, elements that fit in a frame) never fail and deliver to the client exactly the
  first \<open>k * n\<close> elements of the channel, in order, once each, marked with the channel's key;
  the channel keeps the rest and no other channel of the server changes.
\<close>

theorem pull_exactly_once:
  assumes "pull_link B link X contents bound rx_alive tx_alive"
    and "map_of m (cl_channel_key cl) = Some c" and "ch_ok contents bound c"
    and "list_all framable (contents (ch_queue c))"
    and "unat (cl_batch_pull_size cl) < 65535"
  shows "\<exists>cl' m' c'. pull_rounds B X link k cl m =
      Inr (map (deliver (cl_channel_key cl))
             (take (k * unat (cl_batch_pull_size cl)) (contents (ch_queue c))), cl', m')
    \<and> map_of m' (cl_channel_key cl) = Some c'
    \<and> contents (ch_queue c') = drop (k * unat (cl_batch_pull_size cl)) (contents (ch_queue c))
    \<and> (\<forall>key. key \<noteq> cl_channel_key cl \<longrightarrow> map_of m' key = map_of m key)"
  using pull_link.pull_rounds_take[OF assms(1-3) _ assms(5)] assms(4)
  by (simp add: list_all_iff)

theorem pull_exactly_once_witness:
  "\<exists>cl' m'. pull_rounds be_ops fifo_ops (\<lambda>fs. split_frames (concat fs)) 2
       \<lparr>cl_channel_key = channel_key_default, cl_batch_pull_size = 1, cl_batch_id = 0\<rparr>
       [(channel_key_default, (named_channel_with_base fifo_ops 10 Unbounded)
          \<lparr>ch_queue := \<lparr>f_items = [new_watermark 5, new_watermark 6, new_watermark 7],
             f_bound = None, f_rx = True, f_tx = True\<rparr>, ch_size := 3\<rparr>)]
     = Inr ([deliver channel_key_default (new_watermark 5),
             deliver channel_key_default (new_watermark 6)], cl', m')"
  using pull_exactly_once[OF net.pull_link_axioms, of
      "[(channel_key_default, (named_channel_with_base fifo_ops 10 Unbounded)
          \<lparr>ch_queue := \<lparr>f_items = [new_watermark 5, new_watermark 6, new_watermark 7],
             f_bound = None, f_rx = True, f_tx = True\<rparr>, ch_size := 3\<rparr>)]"
      "\<lparr>cl_channel_key = channel_key_default, cl_batch_pull_size = 1, cl_batch_id = 0\<rparr>" _ 2]
  by (auto simp: ch_ok_def named_channel_with_base_def framable_def new_watermark_def
      watermark_capacity_def MAX_FRAME_LENGTH_def)

end
