(* ===== verification/System_IO.thy ===== *)
theory System_IO
  imports Properties Network Runnables
begin

text \<open>
  The ends of a task inside the plan: what a function is told when it is opened
  (\<open>rlink/src/core/function.rs\<close>, \<open>rlink/src/runtime/worker/runnable/mod.rs\<close>), the format that
  hands elements to the channels of the child tasks
  (\<open>rlink/src/functions/system/system_output_format.rs\<close>) and the one that reads them
  (\<open>system_input_format.rs\<close>).  A sender is the key of its channel, so that writing an element
  is the list of keys it is sent to.  The property: once an output is open, a record goes to
  exactly the task of its partition in every child job, and a control element handed on by the
  sink to every task of the child job, once each.
\<close>

section \<open>What a function is told\<close>

record function_context =
  fc_application_id :: string
  fc_application_properties :: properties
  fc_operator_id :: operator_id
  fc_task_id :: task_id
  fc_checkpoint_id :: checkpoint_id
  fc_completed_checkpoint_id :: "checkpoint_id option"
  fc_checkpoint_handle :: "string option"
  fc_input_schema :: fn_schema
  fc_output_schema :: fn_schema
  fc_children :: "(execution_node \<times> execution_edge) list"
  fc_parents :: "(execution_node \<times> execution_edge) list"

record worker_context =
  wc_dag_metadata :: dag_metadata
  wc_cluster_descriptor :: cluster_descriptor
  wc_task_descriptor :: task_descriptor

definition to_fun_context :: "worker_context \<Rightarrow> operator_id \<Rightarrow> function_context res" where
  "to_fun_context c operator_id =
     (let coordinator_manager = cl_coordinator_manager (wc_cluster_descriptor c);
          task_id = td_task_id (wc_task_descriptor c) in
      rbind (execution_parents (wc_dag_metadata c) task_id) (\<lambda>parents.
      rbind (execution_children (wc_dag_metadata c) task_id) (\<lambda>children.
      rbind (unwrap (metadata_stream_node (wc_dag_metadata c) operator_id)) (\<lambda>stream_node.
      rbind (unwrap (find (\<lambda>x. od_operator_id x = operator_id) (td_operators (wc_task_descriptor c)))) (\<lambda>operator.
      Inr \<lparr>fc_application_id = cd_application_id coordinator_manager,
           fc_application_properties = cd_application_properties coordinator_manager,
           fc_operator_id = operator_id, fc_task_id = task_id,
           fc_checkpoint_id = od_checkpoint_id operator,
           fc_completed_checkpoint_id = od_completed_checkpoint_id operator,
           fc_checkpoint_handle = od_checkpoint_handle operator,
           fc_input_schema = sn_input_schema stream_node, fc_output_schema = sn_output_schema stream_node,
           fc_children = children, fc_parents = parents\<rparr>)))))"

definition checkpoint_interval :: "worker_context \<Rightarrow> duration \<Rightarrow> duration" where
  "checkpoint_interval c default_value =
     (case get_checkpoint_interval (cd_application_properties (cl_coordinator_manager (wc_cluster_descriptor c))) of
        Inr d \<Rightarrow> d | Inl _ \<Rightarrow> default_value)"

definition parents_parallelism :: "worker_context \<Rightarrow> u16 list res" where
  "parents_parallelism c = rbind (job_parents (wc_dag_metadata c) (t_job_id (td_task_id (wc_task_descriptor c))))
     (\<lambda>ps. Inr (map (\<lambda>(job_node, _). jn_parallelism job_node) ps))"

definition parent_parallelism :: "worker_context \<Rightarrow> u16 res" where
  "parent_parallelism c = rbind (parents_parallelism c) (\<lambda>ps. unwrap (case ps of [] \<Rightarrow> None | p # _ \<Rightarrow> Some p))"

definition children_parallelism :: "worker_context \<Rightarrow> u16 list res" where
  "children_parallelism c = rbind (job_children (wc_dag_metadata c) (t_job_id (td_task_id (wc_task_descriptor c))))
     (\<lambda>ps. Inr (map (\<lambda>(job_node, _). jn_parallelism job_node) ps))"

definition parent_jobs :: "worker_context \<Rightarrow> (job_node \<times> job_edge) list res" where
  "parent_jobs c = job_parents (wc_dag_metadata c) (t_job_id (td_task_id (wc_task_descriptor c)))"

definition child_jobs :: "worker_context \<Rightarrow> (job_node \<times> job_edge) list res" where
  "child_jobs c = job_children (wc_dag_metadata c) (t_job_id (td_task_id (wc_task_descriptor c)))"

definition context_job_node :: "worker_context \<Rightarrow> job_node res" where
  "context_job_node c = unwrap (metadata_job_node (wc_dag_metadata c) (t_job_id (td_task_id (wc_task_descriptor c))))"

section \<open>The output of a task\<close>

datatype channel_type = MemoryChannel | NetworkChannel

definition DEFAULT_CHANNEL_SIZE :: nat where "DEFAULT_CHANNEL_SIZE = 10240"

type_synonym task_sender = "task_id \<times> channel_key"

record system_output =
  so_task_id :: task_id
  so_channel_type :: channel_type
  so_job_senders :: "(job_id \<times> task_sender list) list"

definition system_output_new :: system_output where
  "system_output_new = \<lparr>so_task_id = task_id_default, so_channel_type = MemoryChannel, so_job_senders = []\<rparr>"

text \<open>The two registries of channels of a worker process.\<close>

record 'q pub_sub =
  ps_memory :: "'q mem_channels"
  ps_network :: "'q net_channels"

definition channel_size_of :: "function_context \<Rightarrow> nat" where
  "channel_size_of context = (case get_pub_sub_channel_size (fc_application_properties context) of
     Inr n \<Rightarrow> n | Inl _ \<Rightarrow> DEFAULT_CHANNEL_SIZE)"

definition channel_base_of :: "function_context \<Rightarrow> channel_base_on" where
  "channel_base_of context = (case get_pub_sub_channel_base (fc_application_properties context) of
     Inr b \<Rightarrow> b | Inl _ \<Rightarrow> Unbounded)"

definition split_edges :: "(execution_node \<times> execution_edge) list \<Rightarrow> task_id list \<times> task_id list" where
  "split_edges xs = (map (en_task_id \<circ> fst) (filter (\<lambda>(_, e). e = execution_edge.Memory) xs),
     map (en_task_id \<circ> fst) (filter (\<lambda>(_, e). e = execution_edge.Network) xs))"

definition push_sender :: "channel_key \<Rightarrow> (job_id, task_sender list) hmap \<Rightarrow> (job_id, task_sender list) hmap" where
  "push_sender key m = (let target = target_task_id key; j = t_job_id target in
     AList.update j ((case map_of m j of Some ts \<Rightarrow> ts | None \<Rightarrow> []) @ [(target, key)]) m)"

definition group_memory :: "function_context \<Rightarrow> channel_key list \<Rightarrow> (job_id, task_sender list) hmap res" where
  "group_memory context task_senders = fold_res (\<lambda>key job_senders.
     if t_task_number (fc_task_id context) \<noteq> t_task_number (target_task_id key) then Inl Explicit_panic
     else Inr (push_sender key job_senders)) task_senders []"

definition push_memory_job ::
    "job_id \<times> task_sender list \<Rightarrow> (job_id \<times> task_sender list) list \<Rightarrow> (job_id \<times> task_sender list) list res" where
  "push_memory_job entry out = (if length (snd entry) \<noteq> 1 then Inl Explicit_panic else Inr (out @ [entry]))"

definition group_network :: "u16 \<Rightarrow> channel_key list \<Rightarrow> (job_id, task_sender list) hmap res" where
  "group_network num_tasks task_senders = fold_res (\<lambda>key job_senders.
     if num_tasks \<noteq> t_num_tasks (target_task_id key) then Inl Explicit_panic
     else Inr (push_sender key job_senders)) task_senders []"

text \<open>\<open>sort_by\<close> on the task numbers keeps the order of equal ones.\<close>

definition sort_senders :: "task_sender list \<Rightarrow> task_sender list" where
  "sort_senders ts = sort_key (\<lambda>(t, _). t_task_number t) ts"

definition push_network_job ::
    "u16 \<Rightarrow> job_id \<times> task_sender list \<Rightarrow> (job_id \<times> task_sender list) list \<Rightarrow> (job_id \<times> task_sender list) list res" where
  "push_network_job num_tasks entry out =
     (if length (snd entry) \<noteq> unat num_tasks then Inl Explicit_panic
      else let task_senders = sort_senders (snd entry) in
        if \<exists>i<length task_senders. unat (t_task_number (fst (task_senders ! i))) \<noteq> i then Inl Explicit_panic
        else Inr (out @ [(fst entry, task_senders)]))"

definition system_output_open ::
    "('a, 'q) crossbeam \<Rightarrow> ((job_id \<times> task_sender list) list \<Rightarrow> (job_id \<times> task_sender list) list) \<Rightarrow>
     function_context \<Rightarrow> system_output \<Rightarrow> 'q pub_sub \<Rightarrow> (system_output \<times> 'q pub_sub) res" where
  "system_output_open X it context self reg =
     (let self = self\<lparr>so_task_id := fc_task_id context\<rparr>;
          channel_size = channel_size_of context; base_on = channel_base_of context;
          (memory_jobs, network_jobs) = split_edges (fc_children context) in
      if memory_jobs = [] \<and> network_jobs = [] then Inl Explicit_panic
      else if memory_jobs \<noteq> [] \<and> network_jobs \<noteq> [] then Inl Explicit_panic
      else if memory_jobs \<noteq> [] then
        (let (task_senders, m) = mem_publish X (fc_task_id context) memory_jobs channel_size base_on (ps_memory reg) in
         rbind (group_memory context task_senders) (\<lambda>job_senders.
         rbind (fold_res push_memory_job (it job_senders) (so_job_senders self)) (\<lambda>out.
           Inr (self\<lparr>so_channel_type := MemoryChannel, so_job_senders := out\<rparr>, reg\<lparr>ps_memory := m\<rparr>))))
      else
        rbind (publish X (fc_task_id context) network_jobs channel_size base_on (ps_network reg)) (\<lambda>(task_senders, m).
        rbind (index_res task_senders 0) (\<lambda>first.
        let num_tasks = t_num_tasks (target_task_id first) in
        rbind (group_network num_tasks task_senders) (\<lambda>job_senders.
        rbind (fold_res (push_network_job num_tasks) (it job_senders) (so_job_senders self)) (\<lambda>out.
          Inr (self\<lparr>so_channel_type := NetworkChannel, so_job_senders := out\<rparr>, reg\<lparr>ps_network := m\<rparr>))))))"

text \<open>
  What is sent, and where to.  With one child job the element itself is sent, with several a
  copy each; in memory it is marked with the key of the channel it is sent through.
\<close>

definition write_memory :: "system_output \<Rightarrow> element \<Rightarrow> job_id \<times> task_sender list \<Rightarrow> (channel_key \<times> element) res" where
  "write_memory self element entry = rbind (index_res (snd entry) 0) (\<lambda>(task_id, sender).
     Inr (sender, set_channel_key \<lparr>source_task_id = so_task_id self, target_task_id = task_id\<rparr> element))"

definition write_network :: "element \<Rightarrow> job_id \<times> task_sender list \<Rightarrow> (channel_key \<times> element) res" where
  "write_network element entry = rbind (unwrap (let i = unat (partition element) in
       if i < length (snd entry) then Some (snd entry ! i) else None)) (\<lambda>(_, sender). Inr (sender, element))"

definition write_element :: "system_output \<Rightarrow> element \<Rightarrow> (channel_key \<times> element) list res" where
  "write_element self element = fold_res (\<lambda>entry sent.
     rbind (case so_channel_type self of
         MemoryChannel \<Rightarrow> write_memory self element entry
       | NetworkChannel \<Rightarrow> write_network element entry) (\<lambda>s. Inr (sent @ [s])))
     (so_job_senders self) []"

definition system_output_close :: "system_output \<Rightarrow> (channel_key \<times> element) list" where
  "system_output_close self = (let stream_status = EStreamStatus (stream_status_new 0 True) in
     concat (map (\<lambda>(_, task_senders). map (\<lambda>(_, sender). (sender, stream_status)) task_senders) (so_job_senders self)))"

section \<open>The input of a task\<close>

text \<open>
  The receiver of the memory channel of a task is the channel the registry holds under its id;
  the receiver of the network is a channel of its own, whose senders are posted with the keys
  they subscribe to.
\<close>

definition net_subscribe ::
    "('a, 'q) crossbeam \<Rightarrow> task_id list \<Rightarrow> task_id \<Rightarrow> nat \<Rightarrow> channel_base_on \<Rightarrow> ('q channel \<times> channel_key list) res" where
  "net_subscribe X sources target channel_size base_on =
     rbind (index_res sources 0) (\<lambda>_. Inr (named_channel_with_base X channel_size base_on,
       map (\<lambda>s. \<lparr>source_task_id = s, target_task_id = target\<rparr>) sources))"

record 'q system_input =
  si_memory_receiver :: "'q channel option"
  si_network_receiver :: "'q channel option"
  si_task_id :: task_id

definition system_input_new :: "'q system_input" where
  "system_input_new = \<lparr>si_memory_receiver = None, si_network_receiver = None, si_task_id = task_id_default\<rparr>"

text \<open>\<open>open\<close> returns the input, the memory registry and the subscriptions it has posted.\<close>

definition system_input_open ::
    "('a, 'q) crossbeam \<Rightarrow> function_context \<Rightarrow> 'q system_input \<Rightarrow> 'q mem_channels \<Rightarrow>
     ('q system_input \<times> 'q mem_channels \<times> channel_key list) res" where
  "system_input_open X context self m =
     (let self = self\<lparr>si_task_id := fc_task_id context\<rparr>;
          channel_size = channel_size_of context; base_on = channel_base_of context;
          (memory_jobs, network_jobs) = split_edges (fc_parents context) in
      rbind (if memory_jobs \<noteq> [] then
          rbind (mem_subscribe X memory_jobs (fc_task_id context) channel_size base_on m) (\<lambda>(rx, m).
            Inr (self\<lparr>si_memory_receiver := Some rx\<rparr>, m))
        else Inr (self, m)) (\<lambda>(self, m).
      if network_jobs \<noteq> [] then
        rbind (net_subscribe X network_jobs (fc_task_id context) channel_size base_on) (\<lambda>(rx, keys).
          Inr (self\<lparr>si_network_receiver := Some rx\<rparr>, m, keys))
      else Inr (self, m, [])))"

definition receivers_of :: "'q system_input \<Rightarrow> 'q channel list" where
  "receivers_of self = (case si_memory_receiver self of Some n \<Rightarrow> [n] | None \<Rightarrow> [])
     @ (case si_network_receiver self of Some n \<Rightarrow> [n] | None \<Rightarrow> [])"

datatype 'q element_iterator = ChannelIterator "'q channel" | MultiChannelIterator "'q channel list"

definition element_iter :: "'q system_input \<Rightarrow> 'q element_iterator res" where
  "element_iter self = (case receivers_of self of
     [] \<Rightarrow> Inl Explicit_panic
   | [r] \<Rightarrow> Inr (ChannelIterator r)
   | rs \<Rightarrow> Inr (MultiChannelIterator rs))"

text \<open>
  One attempt of \<open>next\<close>: an element (\<open>Item\<close>), the end of the iteration because the
  coordinator has terminated, or nothing there yet, in which case the call goes on waiting.
  With several receivers \<open>index\<close> is the one the library reports as ready.
\<close>

datatype 'e next_item = Waiting_next | Item 'e | Finished_next

definition receive_next :: "('a, 'q) crossbeam \<Rightarrow> manager_status \<Rightarrow> 'q channel \<Rightarrow> ('a next_item \<times> 'q channel) res" where
  "receive_next X coordinator_status c = (case try_recv X c of
     Inr (element, c) \<Rightarrow> Inr (if is_terminated coordinator_status then Finished_next else Item element, c)
   | Inl RecvEmpty \<Rightarrow> Inr (Waiting_next, c)
   | Inl RecvDisconnected \<Rightarrow> Inl Explicit_panic)"

definition channel_next ::
    "('a, 'q) crossbeam \<Rightarrow> manager_status \<Rightarrow> 'q channel \<Rightarrow> ('a next_item \<times> 'q channel) res" where
  "channel_next X coordinator_status receiver = receive_next X coordinator_status receiver"

definition multi_channel_next ::
    "('a, 'q) crossbeam \<Rightarrow> manager_status \<Rightarrow> nat \<Rightarrow> 'q channel list \<Rightarrow> ('a next_item \<times> 'q channel list) res" where
  "multi_channel_next X coordinator_status index receivers =
     rbind (index_res receivers index) (\<lambda>r.
     rbind (receive_next X coordinator_status r) (\<lambda>(item, r). Inr (item, receivers[index := r])))"

section \<open>Where elements go\<close>

definition key_to :: "task_id \<Rightarrow> task_id \<Rightarrow> channel_key" where
  "key_to s t = \<lparr>source_task_id = s, target_task_id = t\<rparr>"

definition sender_to :: "task_id \<Rightarrow> task_id \<Rightarrow> task_sender" where
  "sender_to s t = (t, key_to s t)"

lemma publish_keys: "publish X s ts sz base m = Inr (keys, m') \<Longrightarrow> keys = map (key_to s) ts"
  by (induction ts arbitrary: m keys) (auto simp: Let_def rbind_eq_Inr key_to_def)

lemma mem_publish_keys: "fst (mem_publish X s ts sz base m) = map (key_to s) ts"
  by (induction ts arbitrary: m) (auto simp: Let_def key_to_def split: prod.splits, metis fst_conv)

lemma push_senders:
  assumes "fold_res (\<lambda>key m. if P key then Inl Explicit_panic else Inr (push_sender key m)) keys m = Inr m'"
  shows "mset (concat (map snd m')) = mset (concat (map snd m)) + mset (map (\<lambda>k. (target_task_id k, k)) keys)
    \<and> (\<forall>k\<in>set keys. \<not> P k)"
  using assms
proof (induction keys arbitrary: m)
  case (Cons k keys)
  have "mset (concat (map snd (push_sender k m))) = mset (concat (map snd m)) + {#(target_task_id k, k)#}"
    using mset_push_group[of "t_job_id (target_task_id k)" m "(target_task_id k, k)"]
    by (simp add: push_sender_def Let_def option.case_eq_if)
  moreover have "\<not> P k" "fold_res (\<lambda>key m. if P key then Inl Explicit_panic else Inr (push_sender key m)) keys (push_sender k m) = Inr m'"
    using Cons.prems by (auto split: if_splits)
  ultimately show ?case using Cons.IH[of "push_sender k m"] by simp
qed simp

section \<open>An open output\<close>

text \<open>
  All senders of an output lead to the child tasks; in memory each child job has one of them,
  over the network each has one per task, at the place of its number.
\<close>

definition leads_to :: "task_id \<Rightarrow> task_id list \<Rightarrow> (job_id \<times> task_sender list) list \<Rightarrow> bool" where
  "leads_to s ts out \<longleftrightarrow> mset (concat (map snd out)) = mset (map (sender_to s) ts)"

definition numbered :: "nat \<Rightarrow> task_sender list \<Rightarrow> bool" where
  "numbered n xs \<longleftrightarrow> length xs = n \<and> (\<forall>i<n. unat (t_task_number (fst (xs ! i))) = i)"

lemma sender_to_keys: "map (\<lambda>k. (target_task_id k, k)) (map (key_to s) ts) = map (sender_to s) ts"
  by (simp add: sender_to_def key_to_def comp_def)

lemma push_memory_jobs:
  "fold_res push_memory_job xs out = Inr out' \<Longrightarrow> out' = out @ xs \<and> (\<forall>x\<in>set xs. length (snd x) = 1)"
proof (induction xs arbitrary: out)
  case (Cons x xs)
  then have "length (snd x) = 1" "fold_res push_memory_job xs (out @ [x]) = Inr out'"
    by (simp_all add: push_memory_job_def[of x] split: if_splits)
  then show ?case using Cons.IH[of "out @ [x]"] by simp
qed simp

lemma push_network_jobs:
  "fold_res (push_network_job n) xs out = Inr out' \<Longrightarrow>
     mset (concat (map snd out')) = mset (concat (map snd out)) + mset (concat (map snd xs))
     \<and> (\<forall>x\<in>set out'. x \<in> set out \<or> numbered (unat n) (snd x))"
proof (induction xs arbitrary: out)
  case (Cons x xs)
  let ?ts = "sort_senders (snd x)"
  have "length (snd x) = unat n" "\<forall>i<length ?ts. unat (t_task_number (fst (?ts ! i))) = i"
    and rest: "fold_res (push_network_job n) xs (out @ [(fst x, ?ts)]) = Inr out'"
    using Cons.prems by (auto simp: push_network_job_def[of n x] Let_def split: if_splits)
  then have "numbered (unat n) ?ts" by (simp add: numbered_def sort_senders_def)
  then show ?case using Cons.IH[OF rest] by (auto simp: sort_senders_def)
qed simp

lemma mset_concat_it: "iteration_order it \<Longrightarrow> mset (concat (map snd (it m))) = mset (concat (map snd m))"
proof -
  assume "iteration_order it"
  then have "mset (map (mset \<circ> snd) (it m)) = mset (map (mset \<circ> snd) m)" by (simp add: iteration_order.mset_it)
  then have "sum_list (map (mset \<circ> snd) (it m)) = sum_list (map (mset \<circ> snd) m)" by (metis sum_mset_sum_list)
  then show ?thesis by (simp add: mset_concat)
qed

lemma split_one_kind:
  assumes "split_edges xs = (ms, ns)"
  shows "ns = [] \<Longrightarrow> ms = map (en_task_id \<circ> fst) xs" "ms = [] \<Longrightarrow> ns = map (en_task_id \<circ> fst) xs"
proof -
  have e: "e = execution_edge.Memory \<or> e = execution_edge.Network" for e by (cases e) simp_all
  show "ms = map (en_task_id \<circ> fst) xs" if "ns = []"
  proof -
    have "filter (\<lambda>(_, e). e = execution_edge.Memory) xs = xs"
      using assms that e by (fastforce simp: split_edges_def filter_empty_conv filter_id_conv)
    then show ?thesis using assms by (simp add: split_edges_def)
  qed
  show "ns = map (en_task_id \<circ> fst) xs" if "ms = []"
  proof -
    have "filter (\<lambda>(_, e). e = execution_edge.Network) xs = xs"
      using assms that e by (fastforce simp: split_edges_def filter_empty_conv filter_id_conv)
    then show ?thesis using assms by (simp add: split_edges_def)
  qed
qed

lemma output_opened:
  assumes it: "iteration_order it" and op: "system_output_open X it context system_output_new reg = Inr (out, reg')"
  defines "ts \<equiv> map (en_task_id \<circ> fst) (fc_children context)"
  shows "so_task_id out = fc_task_id context \<and> ts \<noteq> [] \<and> leads_to (fc_task_id context) ts (so_job_senders out)
    \<and> (case so_channel_type out of
        MemoryChannel \<Rightarrow> \<forall>x\<in>set (so_job_senders out). length (snd x) = 1
      | NetworkChannel \<Rightarrow> \<exists>n. (\<forall>t\<in>set ts. t_num_tasks t = n) \<and> (\<forall>x\<in>set (so_job_senders out). numbered (unat n) (snd x)))"
proof -
  let ?self = "fc_task_id context"
  obtain ms ns where split: "split_edges (fc_children context) = (ms, ns)" by force
  note kind = split_one_kind[OF split, folded ts_def]
  consider "ms \<noteq> []" "ns = []" | "ms = []" "ns \<noteq> []"
    using op by (auto simp: system_output_open_def split Let_def split: if_splits)
  then show ?thesis
  proof cases
    case 1
    define keys where "keys = fst (mem_publish X ?self ms (channel_size_of context) (channel_base_of context) (ps_memory reg))"
    from op 1 obtain js out' where js: "group_memory context keys = Inr js"
      "fold_res push_memory_job (it js) [] = Inr out'"
      "out = \<lparr>so_task_id = ?self, so_channel_type = MemoryChannel, so_job_senders = out'\<rparr>"
      unfolding keys_def
      by (auto simp: system_output_open_def split Let_def system_output_new_def rbind_eq_Inr split: prod.splits)
    have "keys = map (key_to ?self) ts" using mem_publish_keys kind(1) 1 by (simp add: keys_def)
    with push_senders[OF js(1)[unfolded group_memory_def]]
    have "leads_to ?self ts (it js)" by (simp add: leads_to_def mset_concat_it[OF it] sender_to_keys[symmetric])
    then show ?thesis using push_memory_jobs[OF js(2)] js(3) 1 kind(1) by simp
  next
    case 2
    have "\<exists>keys m (first :: channel_key) js out'. publish X ?self ns (channel_size_of context) (channel_base_of context) (ps_network reg) = Inr (keys, m)
        \<and> group_network (t_num_tasks (target_task_id first)) keys = Inr js
        \<and> fold_res (push_network_job (t_num_tasks (target_task_id first))) (it js) [] = Inr out'
        \<and> out = \<lparr>so_task_id = ?self, so_channel_type = NetworkChannel, so_job_senders = out'\<rparr>"
      using op 2 by (simp add: system_output_open_def split Let_def system_output_new_def rbind_eq_Inr case_prod_unfold)
        (elim exE conjE, intro exI conjI, assumption, assumption, assumption, erule sym)
    then obtain keys m and first :: channel_key and js out' where k: "publish X ?self ns (channel_size_of context) (channel_base_of context) (ps_network reg) = Inr (keys, m)"
      and js: "group_network (t_num_tasks (target_task_id first)) keys = Inr js"
        "fold_res (push_network_job (t_num_tasks (target_task_id first))) (it js) [] = Inr out'"
        "out = \<lparr>so_task_id = ?self, so_channel_type = NetworkChannel, so_job_senders = out'\<rparr>" by blast
    let ?n = "t_num_tasks (target_task_id first)"
    have keys: "keys = map (key_to ?self) ts" using publish_keys[OF k] kind(2) 2 by simp
    note ps = push_senders[OF js(1)[unfolded group_network_def]]
    have "\<forall>t\<in>set ts. t_num_tasks t = ?n" using ps keys by (auto simp: key_to_def)
    moreover have "leads_to ?self ts out'" using push_network_jobs[OF js(2)] ps keys
      by (simp add: leads_to_def mset_concat_it[OF it] sender_to_keys[symmetric])
    ultimately show ?thesis using push_network_jobs[OF js(2)] js(3) 2 kind(2) by auto
  qed
qed

section \<open>Routing\<close>

lemma filter_numbered:
  assumes "numbered n xs" "p < n"
  shows "filter (\<lambda>x. unat (t_task_number (fst x)) = p) xs = [xs ! p]"
proof -
  have n: "length xs = n" "\<forall>i<n. unat (t_task_number (fst (xs ! i))) = i" using assms(1) by (simp_all add: numbered_def)
  have "filter (\<lambda>x. unat (t_task_number (fst x)) = p) xs
      = map ((!) xs) (filter (\<lambda>i. unat (t_task_number (fst (xs ! i))) = p) [0..<n])"
    by (subst map_nth[of xs, symmetric]) (simp only: filter_map n comp_def)
  also have "filter (\<lambda>i. unat (t_task_number (fst (xs ! i))) = p) [0..<n] = filter (\<lambda>i. i = p) [0..<n]"
    by (rule filter_cong) (use n in auto)
  also have "filter (\<lambda>i. i = p) [0..<n] = [p]" using assms(2) by (induction n) (auto simp: less_Suc_eq)
  finally show ?thesis by simp
qed

lemma fold_collect:
  "\<forall>x\<in>set xs. f x = Inr (g x) \<Longrightarrow> fold_res (\<lambda>x acc. rbind (f x) (\<lambda>s. Inr (acc @ [s]))) xs acc = Inr (acc @ map g xs)"
  by (induction xs arbitrary: acc) simp_all

lemma write_network_to:
  assumes "so_channel_type out = NetworkChannel" "\<forall>x\<in>set (so_job_senders out). numbered n (snd x)"
    and lead: "leads_to s ts (so_job_senders out)" and p: "unat (partition e) < n"
  shows "\<exists>sent. write_element out e = Inr sent \<and> (\<forall>m\<in>set sent. snd m = e)
    \<and> mset (map fst sent) = mset (map (key_to s) (filter (\<lambda>t. t_task_number t = partition e) ts))"
proof -
  let ?p = "unat (partition e)" and ?js = "so_job_senders out"
  let ?sent = "map (\<lambda>x. (snd (snd x ! ?p), e)) ?js"
  have "\<forall>x\<in>set ?js. write_network e x = Inr (snd (snd x ! ?p), e)"
    using assms(2) p by (auto simp: write_network_def numbered_def case_prod_unfold)
  from fold_collect[OF this, of "[]"] have w: "write_element out e = Inr ?sent"
    using assms(1) by (simp add: write_element_def)
  have "map (\<lambda>x. snd x ! ?p) xs = concat (map (\<lambda>x. filter (\<lambda>y. unat (t_task_number (fst y)) = ?p) (snd x)) xs)"
    if "\<forall>x\<in>set xs. numbered n (snd x)" for xs :: "(job_id \<times> task_sender list) list"
    using that filter_numbered[OF _ p] by (induction xs) simp_all
  then have "map (\<lambda>x. snd x ! ?p) ?js = filter (\<lambda>y. unat (t_task_number (fst y)) = ?p) (concat (map snd ?js))"
    using assms(2) by (simp add: filter_concat comp_def)
  then have "mset (map (\<lambda>x. snd x ! ?p) ?js) = filter_mset (\<lambda>y. unat (t_task_number (fst y)) = ?p) (mset (map (sender_to s) ts))"
    using lead by (simp only: mset_filter leads_to_def)
  also have "\<dots> = mset (map (sender_to s) (filter (\<lambda>t. t_task_number t = partition e) ts))"
    by (simp only: mset_filter[symmetric] filter_map comp_def sender_to_def fst_conv unsigned_word_eqI word_unat_eq_iff)
  finally have "image_mset snd (mset (map (\<lambda>x. snd x ! ?p) ?js))
      = image_mset snd (mset (map (sender_to s) (filter (\<lambda>t. t_task_number t = partition e) ts)))" by simp
  then show ?thesis using w by (intro exI[of _ ?sent]) (simp add: sender_to_def multiset.map_comp comp_def)
qed

lemma write_network_out_of_range:
  assumes "so_channel_type out = NetworkChannel" "\<forall>x\<in>set (so_job_senders out). numbered n (snd x)"
    and "so_job_senders out \<noteq> []" "n \<le> unat (partition e)"
  shows "write_element out e = Inl Unwrap_none"
  using assms by (cases "so_job_senders out") (auto simp: write_element_def write_network_def numbered_def)

lemma write_memory_to:
  assumes "so_channel_type out = MemoryChannel" "\<forall>x\<in>set (so_job_senders out). length (snd x) = 1"
    and lead: "leads_to s ts (so_job_senders out)" and "so_task_id out = s"
  shows "\<exists>sent. write_element out e = Inr sent \<and> (\<forall>m\<in>set sent. snd m = set_channel_key (fst m) e)
    \<and> mset (map fst sent) = mset (map (key_to s) ts)"
proof -
  let ?js = "so_job_senders out"
  let ?g = "\<lambda>x. (snd (snd x ! 0), set_channel_key (key_to s (fst (snd x ! 0))) e)"
  have "\<forall>x\<in>set ?js. write_memory out e x = Inr (?g x)"
    using assms(2,4) by (auto simp: write_memory_def key_to_def case_prod_unfold)
  from fold_collect[OF this, of "[]"] have w: "write_element out e = Inr (map ?g ?js)"
    using assms(1) by (simp add: write_element_def)
  have one: "map (\<lambda>x. snd x ! 0) xs = concat (map snd xs)"
    if "\<forall>x\<in>set xs. length (snd x) = 1" for xs :: "(job_id \<times> task_sender list) list"
    using that by (induction xs) (auto simp: length_Suc_conv)
  have m: "mset (map (\<lambda>x. snd x ! 0) ?js) = mset (map (sender_to s) ts)" using one[OF assms(2)] lead by (simp add: leads_to_def)
  then have "image_mset snd (mset (map (\<lambda>x. snd x ! 0) ?js)) = image_mset snd (mset (map (sender_to s) ts))" by simp
  then have "mset (map fst (map ?g ?js)) = mset (map (key_to s) ts)" by (simp add: sender_to_def multiset.map_comp comp_def)
  moreover have "snd x ! 0 \<in> set (map (sender_to s) ts)" if "x \<in> set ?js" for x
    using that unfolding mset_eq_setD[OF m, symmetric] by simp
  then have "\<forall>x\<in>set ?js. snd (?g x) = set_channel_key (fst (?g x)) e" by (fastforce simp: sender_to_def)
  ultimately show ?thesis using w by (intro exI[of _ "map ?g ?js"]) auto
qed

lemma close_reaches_all:
  assumes "leads_to s ts (so_job_senders out)"
  shows "mset (map fst (system_output_close out)) = mset (map (key_to s) ts)"
proof -
  have "map fst (system_output_close out) = map snd (concat (map snd (so_job_senders out)))"
    by (simp add: system_output_close_def Let_def map_concat comp_def case_prod_unfold)
  then have "mset (map fst (system_output_close out)) = image_mset snd (mset (map (sender_to s) ts))"
    using assms by (simp only: mset_map leads_to_def)
  then show ?thesis by (simp add: sender_to_def multiset.map_comp comp_def)
qed

section \<open>The sink of a task\<close>

text \<open>The output format as the function of a sink: it keeps no state of its own in a checkpoint.\<close>

definition system_sink :: "(system_output \<times> (channel_key \<times> element) list) sink_fn" where
  "system_sink = \<lparr>fn_open = (\<lambda>f _. Inr f), fn_snapshot = (\<lambda>f _. (None, f)),
     fn_write_element = (\<lambda>(out, sent) e. rbind (write_element out e) (\<lambda>s. Inr (out, sent @ s)))\<rparr>"

lemma mset_by_number:
  "mset (concat (map (\<lambda>i. filter (\<lambda>t. f t = i) ts) [0..<n])) = mset (filter (\<lambda>t. f t < (n::nat)) ts)"
proof (induction n)
  case (Suc n)
  have "mset (filter (\<lambda>t. f t < Suc n) ts) = mset (filter (\<lambda>t. f t < n) ts) + mset (filter (\<lambda>t. f t = n) ts)"
    by (induction ts) (auto simp: less_Suc_eq)
  then show ?case using Suc by simp
qed simp

lemma sum_parts: "(\<Sum>i\<leftarrow>is. mset (map k (F i))) = mset (map k (concat (map F is)))"
  by (induction "is") simp_all

lemma partition_set_partition [simp]: "partition (set_partition p e) = p"
  by (cases e) simp_all

lemma numbers_below:
  assumes "leads_to s ts js" "\<forall>x\<in>set js. numbered n (snd x)" "t \<in> set ts"
  shows "unat (t_task_number t) < n"
proof -
  have "sender_to s t \<in> set (concat (map snd js))"
    using assms(1,3) mset_eq_setD[OF assms(1)[unfolded leads_to_def]] by simp
  then obtain x i where "x \<in> set js" "i < length (snd x)" "snd x ! i = sender_to s t" by (auto simp: in_set_conv_nth)
  then show ?thesis using assms(2) by (force simp: numbered_def sender_to_def)
qed

lemma fold_writes:
  assumes "\<forall>e\<in>set es. write_element out e = Inr (g e)"
  shows "fold_res (\<lambda>e f. fn_write_element system_sink f e) es (out, sent) = Inr (out, sent @ concat (map g es))"
  using assms by (induction es arbitrary: sent) (simp_all add: system_sink_def)

lemma sink_run_control:
  assumes "\<not> is_record e" "o_context s \<noteq> None" "o_fn s = (out, [])" "\<forall>x\<in>set (sink_copies s e). write_element out x = Inr (g x)"
  shows "\<exists>s' acts. sink_run system_sink s e = Inr (s', acts) \<and> o_fn s' = (out, concat (map g (sink_copies s e)))"
proof -
  have c: "sink_copies (s\<lparr>o_fn := f\<rparr>) e = sink_copies s e" for f by (simp add: sink_copies_def cong: function_creator.case_cong)
  have "fn_snapshot system_sink f sc = (None, f)" for f sc by (simp add: system_sink_def)
  then show ?thesis using assms(1-3) fold_writes[OF assms(4), of "[]"] c[of "(out, [])"]
    by (cases e) (auto simp: sink_checkpoint_def Let_def)
qed


section \<open>A sink with two child tasks\<close>

definition child_task :: "nat \<Rightarrow> task_id" where
  "child_task i = \<lparr>t_job_id = JobId 1, t_task_number = of_nat i, t_num_tasks = 2\<rparr>"

definition child_node :: "nat \<Rightarrow> execution_node" where
  "child_node i = \<lparr>en_task_id = child_task i, en_stream_nodes = [], en_input_split = input_split_new 0 properties_new, en_daemon = False\<rparr>"

definition two_children :: function_context where
  "two_children = \<lparr>fc_application_id = [], fc_application_properties = properties_new, fc_operator_id = OperatorId 0,
     fc_task_id = task_id_default, fc_checkpoint_id = checkpoint_id_default, fc_completed_checkpoint_id = None,
     fc_checkpoint_handle = None, fc_input_schema = Empty, fc_output_schema = Empty,
     fc_children = [(child_node 1, execution_edge.Network), (child_node 0, execution_edge.Network)], fc_parents = []\<rparr>"

definition open_sink :: "system_output \<Rightarrow> (system_output \<times> (channel_key \<times> element) list) sink_operator" where
  "open_sink out = \<lparr>o_operator_id = OperatorId 0, o_fn = (out, []),
     o_context = Some \<lparr>rc_task_id = task_id_default, rc_child_jobs = [(2, ReBalance)]\<rparr>,
     sk_child_parallelism = 2, sk_creator = System, sk_counter = 0\<rparr>"

lemma two_children_open:
  "case system_output_open (fifo_ops :: (element, element fifo) crossbeam) rev two_children system_output_new \<lparr>ps_memory = [], ps_network = []\<rparr> of
     Inr (out, _) \<Rightarrow> so_channel_type out = NetworkChannel | Inl _ \<Rightarrow> False"
  by code_simp


end
