(* ===== verification/Rows.thy ===== *)
theory Rows
  imports Element Dag_Types
begin

text \<open>
  Rows of a schema: the rest of \<open>rlink/src/core/data_types.rs\<close>, columns by index or by name
  (\<open>functions/column_locate.rs\<close>), the key of a record by columns
  (\<open>functions/key_selector/schema_key_selector.rs\<close>) and its time by a column
  (\<open>functions/watermark/schema_timestamp_assigner.rs\<close>).  The binary form of a row belongs to
  the \<open>serbuffer\<close> crate, so its reader and writer are a parameter of the model, with what its
  documentation promises as the laws of a locale: a writer takes the values in the order of
  the types, and a reader gives every value back at its position.
\<close>

section \<open>Values and the row codec\<close>

text \<open>
  The values of a row.  Integers keep their width, signed ones as the word of their two's
  complement; the two floating point types are their bit patterns, a string is its UTF-8
  bytes.
\<close>

datatype row_value =
    VBool bool
  | VI8 u8 | VU8 u8
  | VI16 u16 | VU16 u16
  | VI32 u32 | VU32 u32
  | VI64 u64 | VU64 u64
  | VF32 u32 | VF64 u64
  | VBinary "u8 list" | VString "u8 list"

fun value_type :: "row_value \<Rightarrow> data_type" where
  "value_type (VBool _) = Boolean"
| "value_type (VI8 _) = Int8" | "value_type (VU8 _) = UInt8"
| "value_type (VI16 _) = Int16" | "value_type (VU16 _) = UInt16"
| "value_type (VI32 _) = Int32" | "value_type (VU32 _) = UInt32"
| "value_type (VI64 _) = Int64" | "value_type (VU64 _) = UInt64"
| "value_type (VF32 _) = Float32" | "value_type (VF64 _) = Float64"
| "value_type (VBinary _) = Binary" | "value_type (VString _) = String"

text \<open>
  The operations of the \<open>serbuffer\<close> crate the code calls: the numbers of the types, a writer
  over the bytes of a buffer, \<open>set_i8\<close> and its siblings, \<open>set_bytes_raw\<close>, the bytes of the
  buffer after writing, \<open>get_i8\<close> and its siblings (of a reader and of a mutable reader),
  \<open>get_bytes_raw\<close>, and storing into the slice \<open>get_binary_mut\<close> gives.
\<close>

record 'w serbuffer =
  sb_type_id :: "data_type \<Rightarrow> u8"
  sb_writer :: "u8 list \<Rightarrow> u8 list \<Rightarrow> 'w"
  sb_set :: "row_value \<Rightarrow> 'w \<Rightarrow> 'w option"
  sb_set_raw :: "u8 list \<Rightarrow> 'w \<Rightarrow> 'w option"
  sb_bytes :: "'w \<Rightarrow> u8 list"
  sb_get :: "data_type \<Rightarrow> u8 list \<Rightarrow> u8 list \<Rightarrow> nat \<Rightarrow> row_value option"
  sb_raw :: "u8 list \<Rightarrow> u8 list \<Rightarrow> nat \<Rightarrow> u8 list option"
  sb_put :: "u8 list \<Rightarrow> u8 list \<Rightarrow> nat \<Rightarrow> u8 list \<Rightarrow> u8 list"

text \<open>
  What the crate promises.  \<open>pending ids vs w\<close>: the values \<open>vs\<close> have been written to the
  writer \<open>w\<close> of the types \<open>ids\<close>; \<open>holds ids vs buf\<close>: the bytes \<open>buf\<close> are the row \<open>vs\<close>.
\<close>

locale row_codec =
  fixes sb :: "'w serbuffer"
    and pending :: "u8 list \<Rightarrow> row_value list \<Rightarrow> 'w \<Rightarrow> bool"
    and holds :: "u8 list \<Rightarrow> row_value list \<Rightarrow> u8 list \<Rightarrow> bool"
    and raw :: "row_value \<Rightarrow> u8 list"
  assumes ids_inj: "inj (sb_type_id sb)"
    and writer_new: "pending ids [] (sb_writer sb ids [])"
    and set_value: "pending ids vs w \<Longrightarrow> length vs < length ids \<Longrightarrow> ids ! length vs = sb_type_id sb (value_type v)
      \<Longrightarrow> \<exists>w'. sb_set sb v w = Some w' \<and> pending ids (vs @ [v]) w'"
    and set_raw: "pending ids vs w \<Longrightarrow> length vs < length ids \<Longrightarrow> ids ! length vs = sb_type_id sb (value_type v)
      \<Longrightarrow> \<exists>w'. sb_set_raw sb (raw v) w = Some w' \<and> pending ids (vs @ [v]) w'"
    and written: "pending ids vs w \<Longrightarrow> length vs = length ids \<Longrightarrow> holds ids vs (sb_bytes sb w)"
    and row_typed: "holds ids vs buf \<Longrightarrow> map (sb_type_id sb \<circ> value_type) vs = ids"
    and get_value: "holds ids vs buf \<Longrightarrow> i < length vs \<Longrightarrow> sb_get sb (value_type (vs ! i)) ids buf i = Some (vs ! i)"
    and get_raw: "holds ids vs buf \<Longrightarrow> i < length vs \<Longrightarrow> sb_raw sb ids buf i = Some (raw (vs ! i))"
    and put_binary: "holds ids vs buf \<Longrightarrow> i < length vs \<Longrightarrow> vs ! i = VBinary b \<Longrightarrow> length b' = length b
      \<Longrightarrow> holds ids (vs[i := VBinary b']) (sb_put sb ids buf i b')"
begin

lemma holds_length: "holds ids vs buf \<Longrightarrow> length vs = length ids"
  using row_typed[of ids vs buf] by (metis length_map)

lemma holds_type: "holds ids vs buf \<Longrightarrow> i < length vs \<Longrightarrow> ids ! i = sb_type_id sb (value_type (vs ! i))"
  using row_typed[of ids vs buf] by (metis comp_apply nth_map)

text \<open>
  A loop that writes one value per step: when step \<open>k\<close> writes the \<open>k\<close>-th value to whatever
  writer it gets and keeps the rest of its state in an invariant, the row ends up complete.
\<close>

lemma write_loop:
  assumes "\<And>k w s. k < length ids \<Longrightarrow> pending ids (map vs [0..<k]) w \<Longrightarrow> J k s
      \<Longrightarrow> \<exists>w' s'. f k (w, s) = Inr (w', s') \<and> pending ids (map vs [0..<Suc k]) w' \<and> J (Suc k) s'"
    and "pending ids [] w" "J 0 s"
  shows "\<exists>w' s'. fold_res f [0..<length ids] (w, s) = Inr (w', s') \<and> holds ids (map vs [0..<length ids]) (sb_bytes sb w') \<and> J (length ids) s'"
proof -
  have "n \<le> length ids \<Longrightarrow> \<exists>w' s'. fold_res f [0..<n] (w, s) = Inr (w', s') \<and> pending ids (map vs [0..<n]) w' \<and> J n s'" for n
  proof (induction n)
    case 0
    then show ?case using assms(2,3) by simp
  next
    case (Suc n)
    then obtain w1 s1 where IH: "fold_res f [0..<n] (w, s) = Inr (w1, s1)" "pending ids (map vs [0..<n]) w1" "J n s1" by auto
    obtain w2 s2 where "f n (w1, s1) = Inr (w2, s2)" "pending ids (map vs [0..<Suc n]) w2" "J (Suc n) s2"
      using assms(1)[of n w1 s1] IH(2,3) Suc.prems by auto
    then show ?case using IH(1) by (simp add: fold_res_append)
  qed
  then show ?thesis using written by fastforce
qed

end

section \<open>Schemas and columns\<close>

fun data_type_try_from :: "(data_type \<Rightarrow> u8) \<Rightarrow> u8 \<Rightarrow> data_type option" where
  "data_type_try_from type_id v =
     (if v = type_id Boolean then Some Boolean
      else if v = type_id Int8 then Some Int8
      else if v = type_id UInt8 then Some UInt8
      else if v = type_id Int16 then Some Int16
      else if v = type_id UInt16 then Some UInt16
      else if v = type_id Int32 then Some Int32
      else if v = type_id UInt32 then Some UInt32
      else if v = type_id Int64 then Some Int64
      else if v = type_id UInt64 then Some UInt64
      else if v = type_id Float32 then Some Float32
      else if v = type_id Float64 then Some Float64
      else if v = type_id Binary then Some Binary
      else if v = type_id String then Some String
      else None)"

definition is_numeric :: "(data_type \<Rightarrow> u8) \<Rightarrow> schema_field \<Rightarrow> bool" where
  "is_numeric type_id f \<longleftrightarrow> f_type_id f < type_id Binary"

definition schema_is_empty :: "schema \<Rightarrow> bool" where
  "schema_is_empty s \<longleftrightarrow> s_fields s = []"

definition schema_get_field :: "schema \<Rightarrow> nat \<Rightarrow> schema_field res" where
  "schema_get_field s i = index_res (s_fields s) i"

fun index_of_from :: "string \<Rightarrow> nat \<Rightarrow> schema_field list \<Rightarrow> nat option" where
  "index_of_from name i [] = None"
| "index_of_from name i (f # fs) = (if f_name f = name then Some i else index_of_from name (Suc i) fs)"

definition schema_index_of :: "schema \<Rightarrow> string \<Rightarrow> nat option" where
  "schema_index_of s name = index_of_from name 0 (s_fields s)"

definition field_with_name :: "schema \<Rightarrow> string \<Rightarrow> schema_field option" where
  "field_with_name s name = map_option (\<lambda>i. s_fields s ! i) (schema_index_of s name)"

definition column_with_name :: "schema \<Rightarrow> string \<Rightarrow> (nat \<times> schema_field) option" where
  "column_with_name s name = List.find (\<lambda>(_, c). f_name c = name) (List.enumerate 0 (s_fields s))"

definition sub_schema :: "schema \<Rightarrow> nat list \<Rightarrow> schema res" where
  "sub_schema s column_indies =
     rbind (fold_res (\<lambda>index fs. rbind (index_res (s_fields s) index) (\<lambda>f. Inr (fs @ [f]))) column_indies [])
       (\<lambda>fs. Inr (schema_new fs))"

text \<open>The field names and the type numbers of a row type, as \<open>FieldMetadata\<close> lists them.\<close>

definition schema_from_metadata :: "(data_type \<Rightarrow> u8) \<Rightarrow> string list \<Rightarrow> u8 list \<Rightarrow> schema res" where
  "schema_from_metadata type_id field_name field_type =
     rbind (fold_res (\<lambda>n fs.
       rbind (index_res field_name n) (\<lambda>name.
       rbind (index_res field_type n) (\<lambda>ft.
       rbind (unwrap (data_type_try_from type_id ft)) (\<lambda>dt.
       Inr (fs @ [field_new type_id name dt]))))) [0..<length field_name] [])
     (\<lambda>fs. Inr (schema_new fs))"

datatype column_locate = Index nat | Name string

fun to_column :: "column_locate \<Rightarrow> schema \<Rightarrow> (nat \<times> schema_field) res" where
  "to_column (Index index) s = rbind (schema_get_field s index) (\<lambda>f. Inr (index, f))"
| "to_column (Name name) s = unwrap (column_with_name s name)"

lemma index_of_find: "index_of_from name n fs = map_option fst (List.find (\<lambda>(_, c). f_name c = name) (List.enumerate n fs))"
  by (induction fs arbitrary: n) auto

lemma column_with_nameD: "column_with_name s name = Some (i, f) \<Longrightarrow> i < length (s_fields s) \<and> f = s_fields s ! i \<and> f_name f = name"
  unfolding column_with_name_def
  by (drule find_SomeD) (auto simp: in_set_enumerate_eq)

lemma column_with_name_Some:
  assumes "f \<in> set (s_fields s)"
  shows "\<exists>i g. column_with_name s (f_name f) = Some (i, g)"
proof (cases "column_with_name s (f_name f)")
  case None
  obtain k where "k < length (s_fields s)" "s_fields s ! k = f" using assms by (auto simp: in_set_conv_nth)
  then have "(k, f) \<in> set (List.enumerate 0 (s_fields s))" by (simp add: in_set_enumerate_eq)
  then show ?thesis using None by (auto simp: column_with_name_def find_None_all)
qed auto

lemma to_columnD: "to_column c s = Inr (i, f) \<Longrightarrow> i < length (s_fields s) \<and> f = s_fields s ! i"
  by (cases c) (auto simp: schema_get_field_def rbind_eq_Inr index_res_eq_Inr dest: column_with_nameD)

lemma sub_schema_fields:
  assumes "\<forall>i\<in>set is. i < length (s_fields s)"
  shows "sub_schema s is = Inr (schema_new (map ((!) (s_fields s)) is))"
proof -
  have "fold_res (\<lambda>index fs. rbind (index_res (s_fields s) index) (\<lambda>f. Inr (fs @ [f]))) is acc = Inr (acc @ map ((!) (s_fields s)) is)" for acc
    using assms by (induction "is" arbitrary: acc) auto
  then show ?thesis by (simp add: sub_schema_def)
qed

section \<open>Keys and timestamps\<close>

record schema_key_selector =
  ks_schema :: schema
  ks_key_schema :: schema
  ks_column_locates :: "column_locate list"
  ks_columns :: "nat list"

definition schema_key_selector_new :: "column_locate list \<Rightarrow> schema_key_selector" where
  "schema_key_selector_new columns = \<lparr>ks_schema = schema_empty, ks_key_schema = schema_empty,
     ks_column_locates = columns, ks_columns = []\<rparr>"

definition key_column :: "schema_key_selector \<Rightarrow> schema \<Rightarrow> (nat list \<times> schema_field list) res" where
  "key_column ks s = fold_res (\<lambda>column_locate (columns, fs).
     rbind (to_column column_locate s) (\<lambda>(index, f). Inr (columns @ [index], fs @ [f]))) (ks_column_locates ks) ([], [])"

definition ks_key_schema_of :: "schema_key_selector \<Rightarrow> fn_schema \<Rightarrow> fn_schema res" where
  "ks_key_schema_of ks input_schema =
     rbind (fn_schema_into input_schema) (\<lambda>s.
     rbind (key_column ks s) (\<lambda>(_, fs).
     let key_schema = schema_new fs in
     if schema_is_empty key_schema then Inl Explicit_panic else Inr (Single key_schema)))"

definition ks_open :: "fn_schema \<Rightarrow> schema_key_selector \<Rightarrow> schema_key_selector res" where
  "ks_open input_schema ks =
     rbind (fn_schema_first input_schema) (\<lambda>s.
     let ks = ks\<lparr>ks_schema := s\<rparr> in
     rbind (ks_key_schema_of ks (Single s)) (\<lambda>k.
     rbind (fn_schema_into k) (\<lambda>key_schema.
     let ks = ks\<lparr>ks_key_schema := key_schema\<rparr> in
     rbind (key_column ks s) (\<lambda>(columns, _).
     Inr (ks\<lparr>ks_columns := columns\<rparr>)))))"

definition record_with_capacity :: "nat \<Rightarrow> rlink_record" where
  "record_with_capacity cap = record_new"

definition get_key :: "'w serbuffer \<Rightarrow> schema_key_selector \<Rightarrow> rlink_record \<Rightarrow> rlink_record res" where
  "get_key sb ks r = (let record_key = record_with_capacity (length (rec_values r));
       writer = sb_writer sb (s_type_ids (ks_key_schema ks)) (rec_values record_key) in
     rbind (fold_res (\<lambda>index (writer, _).
       rbind (index_res (ks_columns ks) index) (\<lambda>column.
       rbind (unwrap (sb_raw sb (s_type_ids (ks_schema ks)) (rec_values r) column)) (\<lambda>bytes.
       rbind (unwrap (sb_set_raw sb bytes writer)) (\<lambda>writer.
       Inr (writer, ()))))) [0..<length (ks_columns ks)] (writer, ()))
     (\<lambda>(writer, _). Inr (record_key\<lparr>rec_values := sb_bytes sb writer\<rparr>)))"

record schema_timestamp_assigner =
  ta_schema :: schema
  ta_column_locate :: column_locate
  ta_column_index :: nat

definition schema_timestamp_assigner_new :: "column_locate \<Rightarrow> schema_timestamp_assigner" where
  "schema_timestamp_assigner_new column = \<lparr>ta_schema = schema_empty, ta_column_locate = column, ta_column_index = 0\<rparr>"

definition ta_open :: "fn_schema \<Rightarrow> schema_timestamp_assigner \<Rightarrow> schema_timestamp_assigner res" where
  "ta_open input_schema ta =
     rbind (fn_schema_first input_schema) (\<lambda>s.
     rbind (to_column (ta_column_locate ta) s) (\<lambda>(index, _).
     Inr (ta\<lparr>ta_schema := s, ta_column_index := index\<rparr>)))"

definition extract_timestamp :: "'w serbuffer \<Rightarrow> schema_timestamp_assigner \<Rightarrow> rlink_record \<Rightarrow> u64 \<Rightarrow> u64 res" where
  "extract_timestamp sb ta row previous =
     rbind (unwrap (sb_get sb UInt64 (s_type_ids (ta_schema ta)) (rec_values row) (ta_column_index ta))) (\<lambda>v.
       case v of VU64 t \<Rightarrow> Inr t | _ \<Rightarrow> Inl Unwrap_none)"

section \<open>Keys are columns\<close>

lemma key_column_ok:
  assumes "\<And>c. c \<in> set (ks_column_locates ks) \<Longrightarrow> \<exists>i f. to_column c s = Inr (i, f)"
  shows "\<exists>is. key_column ks s = Inr (is, map ((!) (s_fields s)) is)
    \<and> (\<forall>i\<in>set is. i < length (s_fields s)) \<and> list_all2 (\<lambda>c i. to_column c s = Inr (i, s_fields s ! i)) (ks_column_locates ks) is"
proof -
  let ?f = "\<lambda>column_locate (columns, fs). rbind (to_column column_locate s) (\<lambda>(index, f). Inr (columns @ [index], fs @ [f]))"
  have "(\<forall>c\<in>set cs. \<exists>i f. to_column c s = Inr (i, f)) \<Longrightarrow>
     \<exists>is. fold_res ?f cs (as, fs) = Inr (as @ is, fs @ map ((!) (s_fields s)) is) \<and> (\<forall>i\<in>set is. i < length (s_fields s))
       \<and> list_all2 (\<lambda>c i. to_column c s = Inr (i, s_fields s ! i)) cs is" for cs as fs
  proof (induction cs arbitrary: as fs)
    case Nil
    then show ?case by simp
  next
    case (Cons c cs)
    then obtain i f where c: "to_column c s = Inr (i, f)" by force
    note d = to_columnD[OF c]
    obtain "is" where "is": "fold_res ?f cs (as @ [i], fs @ [f]) = Inr ((as @ [i]) @ is, (fs @ [f]) @ map ((!) (s_fields s)) is)"
      "\<forall>i\<in>set is. i < length (s_fields s)" "list_all2 (\<lambda>c i. to_column c s = Inr (i, s_fields s ! i)) cs is"
      using Cons.IH[of "as @ [i]" "fs @ [f]"] Cons.prems by auto
    show ?case by (rule exI[of _ "i # is"]) (use "is" c d in simp)
  qed
  from this[of "ks_column_locates ks" "[]" "[]"] show ?thesis using assms by (auto simp: key_column_def)
qed

context row_codec
begin

text \<open>The key of a row is a row of the key schema: the values of the chosen columns.\<close>

lemma get_key_columns:
  assumes "holds (s_type_ids (ks_schema ks)) vs (rec_values r)" "\<forall>i\<in>set (ks_columns ks). i < length vs"
    "s_type_ids (ks_key_schema ks) = map (\<lambda>i. s_type_ids (ks_schema ks) ! i) (ks_columns ks)"
  shows "\<exists>k. get_key sb ks r = Inr k \<and> holds (s_type_ids (ks_key_schema ks)) (map ((!) vs) (ks_columns ks)) (rec_values k)"
proof -
  let ?ids = "s_type_ids (ks_key_schema ks)" and ?cs = "ks_columns ks"
  let ?f = "\<lambda>index (writer, _ :: unit). rbind (index_res ?cs index) (\<lambda>column.
       rbind (unwrap (sb_raw sb (s_type_ids (ks_schema ks)) (rec_values r) column)) (\<lambda>bytes.
       rbind (unwrap (sb_set_raw sb bytes writer)) (\<lambda>writer. Inr (writer, ()))))"
  have len: "length ?cs = length ?ids" using assms(3) by simp
  have step: "\<exists>w' s'. ?f k (w, s) = Inr (w', s') \<and> pending ?ids (map (\<lambda>k. vs ! (?cs ! k)) [0..<Suc k]) w' \<and> True"
    if k: "k < length ?ids" "pending ?ids (map (\<lambda>k. vs ! (?cs ! k)) [0..<k]) w" for k w and s :: unit
  proof -
    have kc: "k < length ?cs" using k(1) len by simp
    then have c: "?cs ! k < length vs" using assms(2) by simp
    have ty: "?ids ! k = sb_type_id sb (value_type (vs ! (?cs ! k)))"
      using holds_type[OF assms(1) c] kc by (simp add: assms(3))
    obtain w' where "sb_set_raw sb (raw (vs ! (?cs ! k))) w = Some w'" "pending ?ids (map (\<lambda>k. vs ! (?cs ! k)) [0..<k] @ [vs ! (?cs ! k)]) w'"
      using set_raw[OF k(2), of "vs ! (?cs ! k)"] k(1) ty by auto
    then show ?thesis using get_raw[OF assms(1) c] kc by simp
  qed
  have "\<exists>w' s'. fold_res ?f [0..<length ?ids] (sb_writer sb ?ids [], ()) = Inr (w', s')
     \<and> holds ?ids (map (\<lambda>k. vs ! (?cs ! k)) [0..<length ?ids]) (sb_bytes sb w') \<and> True"
    by (rule write_loop[where J = "\<lambda>_ _. True"]) (erule (1) step, rule writer_new, rule TrueI)
  then obtain w' s' where "fold_res ?f [0..<length ?ids] (sb_writer sb ?ids [], ()) = Inr (w', s')"
    "holds ?ids (map (\<lambda>k. vs ! (?cs ! k)) [0..<length ?ids]) (sb_bytes sb w')" by blast
  moreover have "map (\<lambda>k. vs ! (?cs ! k)) [0..<length ?ids] = map ((!) vs) ?cs"
    by (rule nth_equalityI) (simp_all add: len[symmetric])
  ultimately show ?thesis by (simp add: get_key_def record_with_capacity_def record_new_def len Let_def)
qed

end

section \<open>A concrete row codec\<close>

text \<open>
  An instance of the interface, used by the witnesses: integers big-endian at their width,
  byte strings as a list with a mark before every byte and an end mark, rows as the values one
  after the other.
\<close>

fun plain_type_id :: "data_type \<Rightarrow> u8" where
  "plain_type_id Boolean = 1"
| "plain_type_id Int8 = 2" | "plain_type_id UInt8 = 3"
| "plain_type_id Int16 = 4" | "plain_type_id UInt16 = 5"
| "plain_type_id Int32 = 6" | "plain_type_id UInt32 = 7"
| "plain_type_id Int64 = 8" | "plain_type_id UInt64 = 9"
| "plain_type_id Float32 = 10" | "plain_type_id Float64 = 11"
| "plain_type_id Binary = 12" | "plain_type_id String = 13"

fun enc_bytes :: "u8 list \<Rightarrow> u8 list" where
  "enc_bytes [] = [0]"
| "enc_bytes (b # bs) = 1 # b # enc_bytes bs"

fun dec_bytes :: "u8 list \<Rightarrow> (u8 list \<times> u8 list) option" where
  "dec_bytes (m # bs) = (if m = 0 then Some ([], bs)
     else case bs of [] \<Rightarrow> None | b # bs' \<Rightarrow> map_option (\<lambda>(xs, r). (b # xs, r)) (dec_bytes bs'))"
| "dec_bytes [] = None"

fun enc_value :: "row_value \<Rightarrow> u8 list" where
  "enc_value (VBool b) = [if b then 1 else 0]"
| "enc_value (VI8 x) = [x]" | "enc_value (VU8 x) = [x]"
| "enc_value (VI16 x) = to_be 2 (unat x)" | "enc_value (VU16 x) = to_be 2 (unat x)"
| "enc_value (VI32 x) = to_be 4 (unat x)" | "enc_value (VU32 x) = to_be 4 (unat x)"
| "enc_value (VI64 x) = to_be 8 (unat x)" | "enc_value (VU64 x) = to_be 8 (unat x)"
| "enc_value (VF32 x) = to_be 4 (unat x)" | "enc_value (VF64 x) = to_be 8 (unat x)"
| "enc_value (VBinary bs) = enc_bytes bs" | "enc_value (VString bs) = enc_bytes bs"

definition dec_word :: "nat \<Rightarrow> ('a::len word \<Rightarrow> row_value) \<Rightarrow> u8 list \<Rightarrow> (row_value \<times> u8 list) option" where
  "dec_word n c bs = (if n \<le> length bs then Some (c (of_nat (of_be 0 (take n bs))), drop n bs) else None)"

fun dec_value :: "data_type \<Rightarrow> u8 list \<Rightarrow> (row_value \<times> u8 list) option" where
  "dec_value Boolean bs = (case bs of [] \<Rightarrow> None | b # bs \<Rightarrow> Some (VBool (b = 1), bs))"
| "dec_value Int8 bs = dec_word 1 VI8 bs" | "dec_value UInt8 bs = dec_word 1 VU8 bs"
| "dec_value Int16 bs = dec_word 2 VI16 bs" | "dec_value UInt16 bs = dec_word 2 VU16 bs"
| "dec_value Int32 bs = dec_word 4 VI32 bs" | "dec_value UInt32 bs = dec_word 4 VU32 bs"
| "dec_value Int64 bs = dec_word 8 VI64 bs" | "dec_value UInt64 bs = dec_word 8 VU64 bs"
| "dec_value Float32 bs = dec_word 4 VF32 bs" | "dec_value Float64 bs = dec_word 8 VF64 bs"
| "dec_value Binary bs = map_option (\<lambda>(xs, r). (VBinary xs, r)) (dec_bytes bs)"
| "dec_value String bs = map_option (\<lambda>(xs, r). (VString xs, r)) (dec_bytes bs)"

fun dec_row :: "u8 list \<Rightarrow> u8 list \<Rightarrow> row_value list option" where
  "dec_row [] bs = Some []"
| "dec_row (i # is) bs = (case data_type_try_from plain_type_id i of None \<Rightarrow> None
     | Some dt \<Rightarrow> (case dec_value dt bs of None \<Rightarrow> None
       | Some (v, r) \<Rightarrow> map_option ((#) v) (dec_row is r)))"

definition enc_row :: "row_value list \<Rightarrow> u8 list" where
  "enc_row vs = concat (map enc_value vs)"

type_synonym plain_writer = "u8 list \<times> nat \<times> u8 list"

definition plain_serbuffer :: "plain_writer serbuffer" where
  "plain_serbuffer = \<lparr>
     sb_type_id = plain_type_id,
     sb_writer = (\<lambda>ids buf. (ids, 0, buf)),
     sb_set = (\<lambda>v (ids, n, buf). if n < length ids \<and> ids ! n = plain_type_id (value_type v)
        then Some (ids, Suc n, buf @ enc_value v) else None),
     sb_set_raw = (\<lambda>bs (ids, n, buf). if n < length ids then Some (ids, Suc n, buf @ bs) else None),
     sb_bytes = (\<lambda>(ids, n, buf). buf),
     sb_get = (\<lambda>dt ids buf i. case dec_row ids buf of None \<Rightarrow> None
        | Some vs \<Rightarrow> if i < length vs \<and> value_type (vs ! i) = dt then Some (vs ! i) else None),
     sb_raw = (\<lambda>ids buf i. case dec_row ids buf of None \<Rightarrow> None
        | Some vs \<Rightarrow> if i < length vs then Some (enc_value (vs ! i)) else None),
     sb_put = (\<lambda>ids buf i b. case dec_row ids buf of None \<Rightarrow> buf | Some vs \<Rightarrow> enc_row (vs[i := VBinary b]))\<rparr>"

fun plain_pending :: "u8 list \<Rightarrow> row_value list \<Rightarrow> plain_writer \<Rightarrow> bool" where
  "plain_pending ids vs (ids', n, buf) \<longleftrightarrow> ids' = ids \<and> n = length vs \<and> n \<le> length ids
     \<and> map (plain_type_id \<circ> value_type) vs = take n ids \<and> buf = enc_row vs"

definition plain_holds :: "u8 list \<Rightarrow> row_value list \<Rightarrow> u8 list \<Rightarrow> bool" where
  "plain_holds ids vs buf \<longleftrightarrow> map (plain_type_id \<circ> value_type) vs = ids \<and> buf = enc_row vs"

lemma dec_enc_bytes [simp]: "dec_bytes (enc_bytes bs @ r) = Some (bs, r)"
  by (induction bs) auto

lemma dec_to_be: "256 ^ n = (2 :: nat) ^ LENGTH('a) \<Longrightarrow> dec_word n c (to_be n (unat (x :: 'a::len word)) @ r) = Some (c x, r)"
  using unsigned_less[of x, where 'a = nat] by (simp add: dec_word_def of_be_to_be)

lemma dec_enc_value: "dec_value (value_type v) (enc_value v @ r) = Some (v, r)"
  by (cases v) (simp_all add: dec_to_be, simp_all add: dec_word_def)

lemma try_from_plain [simp]: "data_type_try_from plain_type_id (plain_type_id dt) = Some dt"
  by (cases dt) simp_all

lemma dec_enc_row: "dec_row (map (plain_type_id \<circ> value_type) vs) (enc_row vs) = Some vs"
  by (induction vs) (simp_all add: enc_row_def dec_enc_value del: data_type_try_from.simps)

lemma plain_holdsD: "plain_holds ids vs buf \<Longrightarrow> dec_row ids buf = Some vs"
  by (auto simp: plain_holds_def dec_enc_row)

interpretation plain_rows: row_codec plain_serbuffer plain_pending plain_holds enc_value
proof
  show "inj (sb_type_id plain_serbuffer)"
    by (rule inj_on_inverseI[of _ "\<lambda>i. the (data_type_try_from plain_type_id i)"])
      (simp add: plain_serbuffer_def del: data_type_try_from.simps)
  show "plain_pending ids [] (sb_writer plain_serbuffer ids [])" for ids
    by (simp add: plain_serbuffer_def enc_row_def)
next
  fix ids vs w v
  assume "plain_pending ids vs w" "length vs < length ids" "ids ! length vs = sb_type_id plain_serbuffer (value_type v)"
  then show "\<exists>w'. sb_set plain_serbuffer v w = Some w' \<and> plain_pending ids (vs @ [v]) w'"
    "\<exists>w'. sb_set_raw plain_serbuffer (enc_value v) w = Some w' \<and> plain_pending ids (vs @ [v]) w'"
    by (cases w, simp add: plain_serbuffer_def enc_row_def take_Suc_conv_app_nth)+
next
  fix ids vs w
  assume "plain_pending ids vs w" "length vs = length ids"
  then show "plain_holds ids vs (sb_bytes plain_serbuffer w)"
    by (cases w) (simp add: plain_serbuffer_def plain_holds_def)
next
  fix ids vs buf
  assume h: "plain_holds ids vs buf"
  then show "map (sb_type_id plain_serbuffer \<circ> value_type) vs = ids" by (simp add: plain_holds_def plain_serbuffer_def)
  fix i assume i: "i < length vs"
  show "sb_get plain_serbuffer (value_type (vs ! i)) ids buf i = Some (vs ! i)"
    "sb_raw plain_serbuffer ids buf i = Some (enc_value (vs ! i))"
    using plain_holdsD[OF h] i by (simp_all add: plain_serbuffer_def)
  fix b b' assume "vs ! i = VBinary b"
  then have "map (plain_type_id \<circ> value_type) (vs[i := VBinary b']) = map (plain_type_id \<circ> value_type) vs"
    using i by (intro nth_equalityI) (auto simp: nth_list_update)
  then show "plain_holds ids (vs[i := VBinary b']) (sb_put plain_serbuffer ids buf i b')"
    using h plain_holdsD[OF h] by (simp add: plain_serbuffer_def plain_holds_def)
qed

end
