(* ===== verification/Percentile.thy ===== *)
theory Percentile
  imports Rlink_Prelude
begin

text \<open>
  Percentiles over fixed boundaries (\<open>rlink/src/functions/percentile/mod.rs\<close>): a byte array
  with one 64-bit counter per boundary and the number of all values behind them, the search
  for the counter of a value, and the boundary below which a share of the values lies.  The
  boundaries are \<open>f64\<close> numbers other than NaN; the code only compares them, so they are the
  elements of any linear order.  The properties: the search finds the first boundary not below
  the value, each value counts in exactly one counter, and a percentile is the boundary whose
  counter holds the value of that rank.
\<close>

section \<open>Counters\<close>

definition get_percentile_capacity :: "'f list \<Rightarrow> nat" where
  "get_percentile_capacity scale = (length scale + 1) * 8"

record 'f percentile =
  pc_scale :: "'f list"
  pc_count_container :: "u8 list"
  pc_counter_index :: nat

definition percentile_writer_new :: "'f list \<Rightarrow> u8 list \<Rightarrow> 'f percentile" where
  "percentile_writer_new scale count_container =
     \<lparr>pc_scale = scale, pc_count_container = count_container, pc_counter_index = length scale * 8\<rparr>"

definition percentile_reader_new :: "'f list \<Rightarrow> u8 list \<Rightarrow> 'f percentile" where
  "percentile_reader_new scale count_container =
     \<lparr>pc_scale = scale, pc_count_container = count_container, pc_counter_index = length scale * 8\<rparr>"

definition pct_read :: "'f percentile \<Rightarrow> nat \<Rightarrow> u64 res" where
  "pct_read p index = (if index + 8 \<le> length (pc_count_container p)
     then Inr (of_nat (of_be 0 (take 8 (drop index (pc_count_container p)))))
     else Inl Index_out_of_bounds)"

definition pct_write :: "'f percentile \<Rightarrow> nat \<Rightarrow> u64 \<Rightarrow> 'f percentile res" where
  "pct_write p index v = (let c = pc_count_container p in
     if index + 8 \<le> length c
     then Inr (p\<lparr>pc_count_container := take index c @ to_be 8 (unat v) @ drop (index + 8) c\<rparr>)
     else Inl Index_out_of_bounds)"

definition incr_counter :: "'f percentile \<Rightarrow> 'f percentile res" where
  "incr_counter p = rbind (pct_read p (pc_counter_index p)) (\<lambda>c. pct_write p (pc_counter_index p) (c + 1))"

text \<open>The search between \<open>i\<close> and \<open>j\<close>, halving the distance until it finds the place of the target.\<close>

function pct_search :: "'f::linorder list \<Rightarrow> 'f \<Rightarrow> nat \<Rightarrow> nat \<Rightarrow> nat option res" where
  "pct_search nums target i j =
     (if i < j then
        (let mid = (i + j) div 2 in
         rbind (index_res nums mid) (\<lambda>mid_value.
         if mid_value = target then Inr (Some mid)
         else if target > mid_value then
           rbind (index_res nums (mid + 1)) (\<lambda>next.
           if target < next then Inr (Some (mid + 1)) else pct_search nums target (mid + 1) j)
         else if mid = 0 then Inr (Some mid)
         else rbind (index_res nums (mid - 1)) (\<lambda>prev.
           if target > prev then Inr (Some mid) else pct_search nums target i mid)))
      else Inr None)"
  by pat_completeness auto
termination
  by (relation "measure (\<lambda>(nums, target, i, j). j - i)") auto

declare pct_search.simps [simp del]

definition position_in_value_array :: "'f::linorder list \<Rightarrow> 'f \<Rightarrow> nat option res" where
  "position_in_value_array scale val = (let len = length scale in
     rbind (index_res scale (len - 1)) (\<lambda>top.
     if val \<ge> top then Inr (Some (len - 1))
     else rbind (index_res scale 0) (\<lambda>low.
       if val \<le> low then Inr (Some 0) else pct_search scale val 0 len)))"

definition accumulate :: "'f::linorder \<Rightarrow> 'f percentile \<Rightarrow> 'f percentile res" where
  "accumulate val p =
     rbind (incr_counter p) (\<lambda>p.
     rbind (position_in_value_array (pc_scale p) val) (\<lambda>index. case index of
       Some index \<Rightarrow> (let begin_index = index * 8 in
         rbind (pct_read p begin_index) (\<lambda>n. pct_write p begin_index (n + 1)))
     | None \<Rightarrow> Inr p))"

text \<open>\<open>merge\<close> adds the bytes of the two arrays one by one.\<close>

definition percentile_merge :: "'f percentile \<Rightarrow> 'f percentile \<Rightarrow> 'f percentile res" where
  "percentile_merge p q = fold_res (\<lambda>i p.
     rbind (index_res (pc_count_container q) i) (\<lambda>b.
       Inr (p\<lparr>pc_count_container := (pc_count_container p)[i := pc_count_container p ! i + b]\<rparr>)))
     [0..<length (pc_count_container p)] p"

section \<open>Results\<close>

definition get_counter :: "'f percentile \<Rightarrow> u64 res" where
  "get_counter p = pct_read p (pc_counter_index p)"

definition adjust :: "u64 \<Rightarrow> u64 \<Rightarrow> u64" where
  "adjust input mx = (if input \<le> 1 then 1 else if input \<ge> mx then mx else input)"

fun result_loop :: "'f percentile \<Rightarrow> u64 \<Rightarrow> u64 \<Rightarrow> nat \<Rightarrow> 'f option res" where
  "result_loop p pos scanned 0 = Inr None"
| "result_loop p pos scanned (Suc index) =
     rbind (pct_read p (index * 8)) (\<lambda>scale_counter.
     if scale_counter = 0 then result_loop p pos scanned index
     else let scanned = scanned + scale_counter in
       if scanned \<ge> pos then rbind (index_res (pc_scale p) index) (\<lambda>v. Inr (Some v))
       else result_loop p pos scanned index)"

text \<open>
  \<open>right_share counter water_line\<close> is the floating point expression
  \<open>(counter as f64 * ((100 - water_line) as f64 / 100f64)) as u64\<close>, \<open>f64_max\<close> is \<open>f64::MAX\<close>.
\<close>

definition get_result :: "(u64 \<Rightarrow> u8 \<Rightarrow> u64) \<Rightarrow> 'f \<Rightarrow> 'f percentile \<Rightarrow> u8 \<Rightarrow> 'f res" where
  "get_result right_share f64_max p water_line = (if water_line > 100 then Inl Explicit_panic
     else rbind (get_counter p) (\<lambda>counter.
       let pos = adjust (right_share counter water_line) counter in
       rbind (result_loop p pos 0 (length (pc_scale p))) (\<lambda>r.
         Inr (case r of Some v \<Rightarrow> v | None \<Rightarrow> f64_max))))"

section \<open>The search\<close>

text \<open>The counter of a value: the first boundary not below it, the last one for larger values.\<close>

definition bucket :: "'f::linorder list \<Rightarrow> 'f \<Rightarrow> nat" where
  "bucket scale v = min (length scale - 1) (length (filter (\<lambda>x. x < v) scale))"

lemma sorted_nth_less: "sorted_wrt (<) xs \<Longrightarrow> i < length xs \<Longrightarrow> j < length xs \<Longrightarrow> xs ! i < (xs ! j :: 'f::linorder) \<longleftrightarrow> i < j"
  by (metis linorder_neqE_nat order.asym sorted_wrt_nth_less)

lemma filter_below:
  fixes xs :: "'f::linorder list"
  assumes "sorted_wrt (<) xs" "k \<le> length xs" "\<forall>i<k. xs ! i < v" "k < length xs \<longrightarrow> v \<le> xs ! k"
  shows "length (filter (\<lambda>x. x < v) xs) = k"
proof -
  have "{i. i < length xs \<and> xs ! i < v} = {..<k}"
  proof
    show "{i. i < length xs \<and> xs ! i < v} \<subseteq> {..<k}"
    proof clarsimp
      fix i assume i: "i < length xs" "xs ! i < v"
      show "i < k"
      proof (rule ccontr)
        assume "\<not> i < k"
        then have "k < length xs" "xs ! k \<le> xs ! i" using i(1) sorted_nth_less[OF assms(1), of i k] by (auto simp: not_less)
        then show False using assms(4) i(2) by auto
      qed
    qed
    show "{..<k} \<subseteq> {i. i < length xs \<and> xs ! i < v}" using assms(2,3) by auto
  qed
  then show ?thesis by (simp add: length_filter_conv_card)
qed

text \<open>The place searched for lies between the bounds: it is not below \<open>i\<close>, and below \<open>j\<close>.\<close>

lemma pct_search_finds:
  fixes nums :: "'f::linorder list"
  assumes "i < j" "j \<le> length nums" "i = 0 \<or> nums ! (i - 1) < target" "target \<le> nums ! (j - 1)"
  shows "\<exists>k<length nums. pct_search nums target i j = Inr (Some k) \<and> (sorted_wrt (<) nums \<longrightarrow>
    target \<le> nums ! k \<and> (0 < k \<longrightarrow> nums ! (k - 1) < target))"
  using assms
proof (induction nums target i j rule: pct_search.induct)
  case (1 nums target i j)
  let ?m = "(i + j) div 2"
  have m: "i \<le> ?m" "?m < j" "?m < length nums" using "1.prems"(1,2) by auto
  show ?case
  proof (cases "nums ! ?m" target rule: linorder_cases)
    case equal
    have "nums ! (?m - 1) < target" if "sorted_wrt (<) nums" "0 < ?m"
      using sorted_nth_less[OF that(1), of "?m - 1" ?m] that(2) m(3) equal by auto
    then show ?thesis using m "1.prems"(1) equal by (intro exI[of _ ?m]) (simp add: pct_search.simps[of nums target i j] Let_def)
  next
    case less
    have "?m \<noteq> j - 1" using less "1.prems"(4) by auto
    then have n: "?m + 1 < j" "?m + 1 < length nums" using m "1.prems"(2) by auto
    show ?thesis
    proof (cases "target < nums ! (?m + 1)")
      case True
      then show ?thesis using less m n "1.prems"(1)
        by (intro exI[of _ "?m + 1"]) (auto simp: pct_search.simps[of nums target i j] Let_def)
    next
      case False
      have "\<exists>k<length nums. pct_search nums target (?m + 1) j = Inr (Some k) \<and> (sorted_wrt (<) nums \<longrightarrow>
          target \<le> nums ! k \<and> (0 < k \<longrightarrow> nums ! (k - 1) < target))"
        by (rule "1.IH"(1)[of ?m "nums ! ?m" "nums ! (?m + 1)"]) (use less n False "1.prems" in auto)
      then show ?thesis using less less_imp_neq[OF less] m n False "1.prems"(1) by (simp add: pct_search.simps[of nums target i j] Let_def)
    qed
  next
    case greater
    show ?thesis
    proof (cases "?m = 0 \<or> nums ! (?m - 1) < target")
      case True
      then show ?thesis using greater m "1.prems"(1)
        by (intro exI[of _ ?m]) (auto simp: pct_search.simps[of nums target i j] Let_def)
    next
      case False
      have "?m \<noteq> i" using False "1.prems"(3) by auto
      have "\<exists>k<length nums. pct_search nums target i ?m = Inr (Some k) \<and> (sorted_wrt (<) nums \<longrightarrow>
          target \<le> nums ! k \<and> (0 < k \<longrightarrow> nums ! (k - 1) < target))"
        by (rule "1.IH"(2)[of ?m "nums ! ?m" "nums ! (?m - 1)"]) (use greater m False \<open>?m \<noteq> i\<close> "1.prems" in auto)
      moreover have "nums ! ?m \<noteq> target" "\<not> nums ! ?m < target" "?m \<noteq> 0" "\<not> nums ! (?m - 1) < target"
        using greater False by auto
      then have "pct_search nums target i j = pct_search nums target i ?m"
        using m "1.prems"(1) by (subst pct_search.simps) (simp add: Let_def)
      ultimately show ?thesis by simp
    qed
  qed
qed

lemma position_bucket:
  fixes scale :: "'f::linorder list"
  assumes s: "sorted_wrt (<) scale" and ne: "scale \<noteq> []"
  shows "position_in_value_array scale v = Inr (Some (bucket scale v))"
proof -
  let ?n = "length scale"
  have below: "\<forall>i<k. scale ! i < v" if "k < ?n" "0 < k \<longrightarrow> scale ! (k - 1) < v" for k
  proof (intro allI impI)
    fix i assume "i < k"
    then have "scale ! i \<le> scale ! (k - 1)" using sorted_nth_less[OF s, of "k - 1" i] that(1) by (auto simp: not_less[symmetric])
    then show "scale ! i < v" using that(2) \<open>i < k\<close> by auto
  qed
  consider "scale ! (?n - 1) \<le> v" | "v < scale ! (?n - 1)" "v \<le> scale ! 0" | "v < scale ! (?n - 1)" "scale ! 0 < v"
    by fastforce
  then show ?thesis
  proof cases
    case 1
    have less: "scale ! i < v" if "i < ?n - 1" for i
      using 1 sorted_nth_less[OF s, of i "?n - 1"] that ne by (simp add: less_le_trans)
    have "length (filter (\<lambda>x. x < v) scale) = (if scale ! (?n - 1) < v then ?n else ?n - 1)"
    proof (rule filter_below[OF s])
      show "\<forall>i<(if scale ! (?n - 1) < v then ?n else ?n - 1). scale ! i < v"
      proof (intro allI impI)
        fix i assume "i < (if scale ! (?n - 1) < v then ?n else ?n - 1)"
        then show "scale ! i < v" using less[of i] by (cases "i = ?n - 1") (auto split: if_splits)
      qed
    qed (use 1 in auto)
    then show ?thesis using 1 ne by (simp add: position_in_value_array_def bucket_def Let_def split: if_splits)
  next
    case 2
    then have "length (filter (\<lambda>x. x < v) scale) = 0" using ne by (intro filter_below[OF s]) auto
    then show ?thesis using 2 ne by (simp add: position_in_value_array_def bucket_def Let_def)
  next
    case 3
    obtain k where k: "k < ?n" "pct_search scale v 0 ?n = Inr (Some k)" "v \<le> scale ! k" "0 < k \<longrightarrow> scale ! (k - 1) < v"
      using pct_search_finds[of 0 ?n scale v] less_imp_le[OF 3(1)] s ne by auto
    have "length (filter (\<lambda>x. x < v) scale) = k" using k below[OF k(1,4)] by (intro filter_below[OF s]) auto
    moreover have "\<not> v \<le> scale ! 0" "\<not> scale ! (?n - 1) \<le> v" using 3 by auto
    ultimately show ?thesis using k ne by (simp add: position_in_value_array_def bucket_def Let_def)
  qed
qed

section \<open>Counting\<close>

text \<open>The counters of an array: \<open>f k\<close> in the place of the \<open>k\<close>-th boundary, the total behind them.\<close>

definition counts :: "'f percentile \<Rightarrow> (nat \<Rightarrow> u64) \<Rightarrow> bool" where
  "counts p f \<longleftrightarrow> length (pc_count_container p) = get_percentile_capacity (pc_scale p)
     \<and> pc_counter_index p = length (pc_scale p) * 8
     \<and> (\<forall>k\<le>length (pc_scale p). pct_read p (k * 8) = Inr (f k))"

lemma of_be_bytes: "of_nat (of_be 0 (to_be 8 (unat (v :: u64)))) = v"
proof -
  have "unat v < 256 ^ 8" using unsigned_less[of v, where 'a = nat] by simp
  then show ?thesis by (simp add: of_be_to_be)
qed

lemma chunk_splice:
  assumes "length (b :: 'a list) = 8" "i * 8 + 8 \<le> length c" "j * 8 + 8 \<le> length c"
  shows "take 8 (drop (j * 8) (take (i * 8) c @ b @ drop (i * 8 + 8) c)) = (if j = i then b else take 8 (drop (j * 8) c))"
proof -
  consider "j = i" | "j < i" | "i < j" by linarith
  then show ?thesis
  proof cases
    case 2
    then have "8 \<le> i * 8 - j * 8" by simp
    then show ?thesis using assms 2 by (simp add: drop_take min_def)
  next
    case 3
    then have "j * 8 = (i * 8 + 8) + (j * 8 - (i * 8 + 8))" by simp
    then show ?thesis using assms 3 by (simp add: drop_append add.commute)
  qed (use assms in simp)
qed

lemma write_counts:
  assumes c: "counts p f" and i: "i \<le> length (pc_scale p)"
  shows "\<exists>p'. pct_write p (i * 8) v = Inr p' \<and> pc_scale p' = pc_scale p \<and> counts p' (f(i := v))"
proof -
  let ?c = "pc_count_container p"
  let ?p = "p\<lparr>pc_count_container := take (i * 8) ?c @ to_be 8 (unat v) @ drop (i * 8 + 8) ?c\<rparr>"
  have len: "length ?c = (length (pc_scale p) + 1) * 8" using c by (simp add: counts_def get_percentile_capacity_def)
  have fit: "k * 8 + 8 \<le> length ?c" if "k \<le> length (pc_scale p)" for k using len that by simp
  have len': "length (pc_count_container ?p) = length ?c" using fit[OF i] by simp
  have "pct_read ?p (k * 8) = Inr ((f(i := v)) k)" if "k \<le> length (pc_scale p)" for k
  proof -
    have "pct_read p (k * 8) = Inr (f k)" using c that by (simp add: counts_def)
    then have "of_nat (of_be 0 (take 8 (drop (k * 8) ?c))) = f k" using fit[OF that] by (simp add: pct_read_def)
    then show ?thesis using fit[OF that] len' chunk_splice[OF length_to_be fit[OF i] fit[OF that], of "unat v"]
      by (simp add: pct_read_def of_be_bytes)
  qed
  then have "counts ?p (f(i := v))" using len' c by (simp add: counts_def)
  then show ?thesis using fit[OF i] by (intro exI[of _ ?p]) (simp add: pct_write_def Let_def)
qed

lemma accumulate_counts:
  fixes p :: "'f::linorder percentile" and v :: 'f
  assumes c: "counts p f" and s: "sorted_wrt (<) (pc_scale p)" "pc_scale p \<noteq> []"
  defines "n \<equiv> length (pc_scale p)" and "b \<equiv> bucket (pc_scale p) v"
  shows "\<exists>p'. accumulate v p = Inr p' \<and> pc_scale p' = pc_scale p \<and> counts p' (f(n := f n + 1, b := f b + 1))"
proof -
  have b: "b < n" using s(2) by (simp add: b_def n_def bucket_def min_less_iff_disj)
  have "pct_read p (n * 8) = Inr (f n)" "pc_counter_index p = n * 8" using c by (simp_all add: counts_def n_def)
  with write_counts[OF c, of n "f n + 1"] obtain q where q: "incr_counter p = Inr q" "pc_scale q = pc_scale p" "counts q (f(n := f n + 1))"
    by (auto simp: incr_counter_def n_def)
  have "pct_read q (b * 8) = Inr (f b)" using q(2,3) b by (auto simp: counts_def n_def)
  with write_counts[OF q(3), of b "f b + 1"] b q(1,2) position_bucket[OF s, of v] show ?thesis
    by (auto simp: accumulate_def b_def[symmetric] n_def Let_def)
qed

definition tally :: "'f::linorder list \<Rightarrow> 'f list \<Rightarrow> nat \<Rightarrow> nat" where
  "tally scale vs k = (if k = length scale then length vs else length (filter (\<lambda>v. bucket scale v = k) vs))"

lemma accumulate_all:
  assumes "counts p f" "sorted_wrt (<) (pc_scale p)" "pc_scale p \<noteq> []"
  shows "\<exists>p'. fold_res accumulate vs p = Inr p' \<and> pc_scale p' = pc_scale p \<and> counts p' (\<lambda>k. f k + of_nat (tally (pc_scale p) vs k))"
  using assms
proof (induction vs arbitrary: p f)
  case Nil
  then show ?case by (simp add: tally_def if_distrib cong: if_cong)
next
  case (Cons v vs)
  let ?n = "length (pc_scale p)" and ?b = "bucket (pc_scale p) v"
  have b: "?b < ?n" using Cons.prems(3) by (simp add: bucket_def min_less_iff_disj)
  from accumulate_counts[OF Cons.prems, of v] obtain q where q: "accumulate v p = Inr q" "pc_scale q = pc_scale p"
    "counts q (f(?n := f ?n + 1, ?b := f ?b + 1))" by auto
  from Cons.IH[OF q(3)] q(2) Cons.prems obtain p' where p': "fold_res accumulate vs q = Inr p'" "pc_scale p' = pc_scale p"
    "counts p' (\<lambda>k. (f(?n := f ?n + 1, ?b := f ?b + 1)) k + of_nat (tally (pc_scale p) vs k))" by auto
  have "(\<lambda>k. (f(?n := f ?n + 1, ?b := f ?b + 1)) k + of_nat (tally (pc_scale p) vs k))
      = (\<lambda>k. f k + of_nat (tally (pc_scale p) (v # vs) k))"
    using b by (auto simp: tally_def fun_eq_iff)
  then show ?case using q(1) p' by auto
qed

lemma zero_counts: "counts (percentile_writer_new scale (replicate (get_percentile_capacity scale) 0)) (\<lambda>_. 0)"
proof -
  have "8 \<le> get_percentile_capacity scale - k * 8" "k * 8 + 8 \<le> get_percentile_capacity scale" if "k \<le> length scale" for k
    using that by (simp_all add: get_percentile_capacity_def)
  moreover have "of_nat (of_be 0 (replicate 8 0)) = (0 :: u64)" by (simp add: numeral_eq_Suc)
  ultimately show ?thesis by (simp add: counts_def percentile_writer_new_def pct_read_def take_replicate drop_replicate min_def)
qed

section \<open>Ranks\<close>

text \<open>How many values lie in the counters from \<open>k\<close> on.\<close>

definition at_least :: "'f::linorder list \<Rightarrow> 'f list \<Rightarrow> nat \<Rightarrow> nat" where
  "at_least scale vs k = length (filter (\<lambda>v. k \<le> bucket scale v) vs)"

lemma at_least_step: "k < length scale \<Longrightarrow> at_least scale vs k = tally scale vs k + at_least scale vs (Suc k)"
  by (induction vs) (auto simp: at_least_def tally_def)

lemma at_least_bounds: "at_least scale vs 0 = length vs" "at_least scale vs k \<le> length vs"
  by (simp_all add: at_least_def)

lemma result_loop_rank:
  assumes c: "counts p (\<lambda>k. of_nat (tally (pc_scale p) vs k))" and n: "length vs < 2 ^ 64"
    and "index \<le> length (pc_scale p)" "at_least (pc_scale p) vs index < unat pos" "unat pos \<le> length vs"
  shows "\<exists>i<index. result_loop p pos (of_nat (at_least (pc_scale p) vs index)) index = Inr (Some (pc_scale p ! i))
    \<and> unat pos \<le> at_least (pc_scale p) vs i \<and> at_least (pc_scale p) vs (Suc i) < unat pos"
  using assms(3-)
proof (induction index)
  case 0
  then show ?case using at_least_bounds(1)[of "pc_scale p" vs] by simp
next
  case (Suc k)
  let ?C = "at_least (pc_scale p) vs" and ?t = "tally (pc_scale p) vs k"
  have k: "k < length (pc_scale p)" using Suc.prems(1) by simp
  have step: "?C k = ?t + ?C (Suc k)" by (rule at_least_step[OF k])
  have small: "?C k < 2 ^ 64" using at_least_bounds(2)[of "pc_scale p" vs k] n by linarith
  have read: "pct_read p (k * 8) = Inr (of_nat ?t)" using c k by (simp add: counts_def)
  have t: "(of_nat ?t :: u64) = 0 \<longleftrightarrow> ?t = 0"
    using small step by (auto simp: word_unat_eq_iff unat_of_nat take_bit_eq_mod)
  have sum: "(of_nat (?C (Suc k)) + of_nat ?t :: u64) = of_nat (?C k)" by (simp add: step add.commute)
  have unat: "unat (of_nat (?C k) :: u64) = ?C k" using small by (simp add: unat_of_nat take_bit_eq_mod)
  show ?case
  proof (cases "?C k < unat pos")
    case True
    from Suc.IH[OF _ True Suc.prems(3)] Suc.prems(1) obtain i where i: "i < k"
      "result_loop p pos (of_nat (?C k)) k = Inr (Some (pc_scale p ! i))" "unat pos \<le> ?C i" "?C (Suc i) < unat pos" by auto
    have "result_loop p pos (of_nat (?C (Suc k))) (Suc k) = result_loop p pos (of_nat (?C k)) k"
    proof (cases "?t = 0")
      case True
      then show ?thesis using read t step by simp
    next
      case nz: False
      have "\<not> pos \<le> of_nat (?C k)" using True unat by (simp add: word_le_nat_alt)
      then show ?thesis using nz read t by (simp add: Let_def sum del: of_nat_add)
    qed
    then show ?thesis using i by (intro exI[of _ i]) simp
  next
    case False
    then have "?t \<noteq> 0" using step Suc.prems(2) by auto
    then have "result_loop p pos (of_nat (?C (Suc k))) (Suc k) = Inr (Some (pc_scale p ! k))"
      using False read t unat k by (simp add: Let_def sum word_le_nat_alt del: of_nat_add)
    then show ?thesis using False Suc.prems(2) by (intro exI[of _ k]) simp
  qed
qed

text \<open>
  Percentiles.  When values are counted into an array of zeroes over strictly rising
  boundaries, nothing panics and the percentile asked for is the boundary of the counter that
  holds the value of its rank from the top: at least as many values as the rank lie in the
  counters from there on, and fewer in the counters above it.  A value counts at the first
  boundary not below it, or at the last one.
\<close>

lemma percentile_rank:
  fixes scale :: "'f::linorder list" and right_share :: "u64 \<Rightarrow> u8 \<Rightarrow> u64" and w :: u8
  assumes "sorted_wrt (<) scale" "scale \<noteq> []" "vs \<noteq> []" "length vs < 2 ^ 64" "w \<le> 100"
  defines "pos \<equiv> adjust (right_share (of_nat (length vs)) w) (of_nat (length vs))"
  shows "\<exists>p i. fold_res accumulate vs (percentile_writer_new scale (replicate (get_percentile_capacity scale) 0)) = Inr p
    \<and> get_result right_share f64_max (percentile_reader_new scale (pc_count_container p)) w = Inr (scale ! i)
    \<and> i < length scale \<and> 1 \<le> unat pos \<and> unat pos \<le> length vs
    \<and> unat pos \<le> length (filter (\<lambda>v. i \<le> bucket scale v) vs)
    \<and> length (filter (\<lambda>v. i < bucket scale v) vs) < unat pos"
proof -
  let ?p0 = "percentile_writer_new scale (replicate (get_percentile_capacity scale) 0)"
  have "pc_scale ?p0 = scale" by (simp add: percentile_writer_new_def)
  with accumulate_all[OF zero_counts, of scale vs] assms(1,2) obtain p where p: "fold_res accumulate vs ?p0 = Inr p" "pc_scale p = scale"
    "counts p (\<lambda>k. of_nat (tally scale vs k))" by auto
  let ?r = "percentile_reader_new scale (pc_count_container p)"
  have "?r = p" using p(2,3) by (simp add: percentile_reader_new_def counts_def)
  then have c: "counts ?r (\<lambda>k. of_nat (tally (pc_scale ?r) vs k))" and sc: "pc_scale ?r = scale" using p(2,3) by simp_all
  have un: "unat (of_nat (length vs) :: u64) = length vs" using assms(4) by (simp add: unat_of_nat take_bit_eq_mod)
  have pos: "1 \<le> unat pos" "unat pos \<le> length vs"
    using assms(3) un by (auto simp: pos_def adjust_def word_le_nat_alt not_le Suc_le_eq)
  have top: "at_least scale vs (length scale) = 0"
  proof -
    have "bucket scale v < length scale" for v using assms(2) by (simp add: bucket_def min_less_iff_disj)
    then show ?thesis by (simp add: at_least_def filter_empty_conv not_le)
  qed
  obtain i where i: "i < length scale" "result_loop ?r pos 0 (length scale) = Inr (Some (scale ! i))"
    "unat pos \<le> at_least scale vs i" "at_least scale vs (Suc i) < unat pos"
    using result_loop_rank[OF c assms(4), of "length scale" pos] pos top unfolding sc by auto
  have "get_counter ?r = Inr (of_nat (length vs))" using c by (simp add: counts_def get_counter_def sc tally_def)
  then have "get_result right_share f64_max ?r w = Inr (scale ! i)"
    using i(2) assms(5) sc by (simp add: get_result_def Let_def pos_def not_less[symmetric] leD)
  then show ?thesis using p(1) i pos by (auto simp: at_least_def Suc_le_eq)
qed

end
