(* ===== verification/Schema_Reduce.thy ===== *)
theory Schema_Reduce
  imports Rows Percentile
begin

text \<open>
  Aggregation by columns (\<open>rlink/src/functions/reduce/schema_reduce.rs\<close>): the descriptors of a
  program (count, sum, max, min, percentiles), the aggregations they become on a schema, and
  the reduce function that folds a record into the state of its key and window.  Addition and
  comparison of the floating point types and the conversion of an \<open>i64\<close> to \<open>f64\<close> are
  parameters.  The properties: on rows of the input schema the function never panics and
  returns a row of the schema it announces, and folding it over records gives in every
  column what its descriptor asks for.
\<close>

section \<open>Descriptors and aggregations\<close>

record float_ops =
  f32_add :: "u32 \<Rightarrow> u32 \<Rightarrow> u32"
  f32_gt :: "u32 \<Rightarrow> u32 \<Rightarrow> bool"
  f64_add :: "u64 \<Rightarrow> u64 \<Rightarrow> u64"
  f64_gt :: "u64 \<Rightarrow> u64 \<Rightarrow> bool"

datatype 'f aggregation_descriptor =
    Desc_count
  | Desc_sum column_locate
  | Desc_max column_locate
  | Desc_min column_locate
  | Desc_pct column_locate "'f list"

datatype basic_agg_type = Basic_sum | Basic_max | Basic_min

fun show_basic_agg_type :: "basic_agg_type \<Rightarrow> string" where
  "show_basic_agg_type Basic_sum = ''sum''"
| "show_basic_agg_type Basic_max = ''max''"
| "show_basic_agg_type Basic_min = ''min''"

text \<open>
  The implementations of the trait \<open>Aggregation\<close>.  The type parameter of \<open>BasicAggregation\<close>
  is the last argument of its constructor.
\<close>

datatype 'f aggregation =
    CountAggregation schema_field
  | BasicAggregation nat basic_agg_type schema_field schema_field data_type
  | PctAggregation nat "'f list" "u8 list" schema_field schema_field

definition count_aggregation_new :: "(data_type \<Rightarrow> u8) \<Rightarrow> 'f aggregation" where
  "count_aggregation_new type_id = CountAggregation (field_new type_id ''count'' UInt64)"

definition basic_aggregation_new ::
  "(data_type \<Rightarrow> u8) \<Rightarrow> data_type \<Rightarrow> nat \<Rightarrow> basic_agg_type \<Rightarrow> schema_field \<Rightarrow> 'f aggregation" where
  "basic_aggregation_new type_id value_agg column_index agg_type input_field =
     (let output_field = field_new type_id
        (show_basic_agg_type agg_type @ ''('' @ f_name input_field @ '')'') (f_data_type input_field) in
      BasicAggregation column_index agg_type input_field output_field value_agg)"

definition pct_aggregation_new :: "(data_type \<Rightarrow> u8) \<Rightarrow> nat \<Rightarrow> schema_field \<Rightarrow> 'f list \<Rightarrow> 'f aggregation" where
  "pct_aggregation_new type_id column_index input_field scale =
     (let output_field = field_new type_id (''pct('' @ f_name input_field @ '')'') Binary;
        count_container = replicate (get_percentile_capacity scale) 0 in
      PctAggregation column_index scale count_container input_field output_field)"

fun agg_output_field :: "'f aggregation \<Rightarrow> schema_field" where
  "agg_output_field (CountAggregation output_field) = output_field"
| "agg_output_field (BasicAggregation _ _ _ output_field _) = output_field"
| "agg_output_field (PctAggregation _ _ _ _ output_field) = output_field"

fun agg_len :: "'f aggregation \<Rightarrow> nat" where
  "agg_len (CountAggregation output_field) = f_len output_field"
| "agg_len (BasicAggregation _ _ _ output_field _) = f_len output_field"
| "agg_len (PctAggregation _ scale _ _ _) = get_percentile_capacity scale"

definition create_basic_agg :: "(data_type \<Rightarrow> u8) \<Rightarrow> nat \<Rightarrow> basic_agg_type \<Rightarrow> schema_field \<Rightarrow> 'f aggregation res" where
  "create_basic_agg type_id column_index agg_type input_field = (let new = (\<lambda>t. Inr (basic_aggregation_new type_id t column_index agg_type input_field)) in
     case f_data_type input_field of
       Int8 \<Rightarrow> new Int8
     | UInt8 \<Rightarrow> new UInt8
     | Int16 \<Rightarrow> new Int16
     | UInt16 \<Rightarrow> new UInt16
     | Int32 \<Rightarrow> new Int32
     | UInt32 \<Rightarrow> new UInt32
     | Int64 \<Rightarrow> new Int64
     | UInt64 \<Rightarrow> new UInt64
     | Float32 \<Rightarrow> new Float32
     | Float64 \<Rightarrow> new Float64
     | _ \<Rightarrow> Inl Explicit_panic)"

fun to_aggregation :: "(data_type \<Rightarrow> u8) \<Rightarrow> schema \<Rightarrow> 'f aggregation_descriptor \<Rightarrow> 'f aggregation res" where
  "to_aggregation type_id s Desc_count = Inr (count_aggregation_new type_id)"
| "to_aggregation type_id s (Desc_sum column_locate) =
     rbind (to_column column_locate s) (\<lambda>(index, f). create_basic_agg type_id index Basic_sum f)"
| "to_aggregation type_id s (Desc_max column_locate) =
     rbind (to_column column_locate s) (\<lambda>(index, f). create_basic_agg type_id index Basic_max f)"
| "to_aggregation type_id s (Desc_min column_locate) =
     rbind (to_column column_locate s) (\<lambda>(index, f). create_basic_agg type_id index Basic_min f)"
| "to_aggregation type_id s (Desc_pct column_locate scale) =
     rbind (to_column column_locate s) (\<lambda>(index, f). Inr (pct_aggregation_new type_id index f scale))"

section \<open>One column\<close>

text \<open>The traits \<open>Add\<close> and \<open>PartialOrd\<close> of the ten types; values of different types never meet.\<close>

fun value_add :: "float_ops \<Rightarrow> row_value \<Rightarrow> row_value \<Rightarrow> row_value res" where
  "value_add fo (VI8 x) w = (case w of VI8 y \<Rightarrow> Inr (VI8 (x + y)) | _ \<Rightarrow> Inl Unreachable)"
| "value_add fo (VU8 x) w = (case w of VU8 y \<Rightarrow> Inr (VU8 (x + y)) | _ \<Rightarrow> Inl Unreachable)"
| "value_add fo (VI16 x) w = (case w of VI16 y \<Rightarrow> Inr (VI16 (x + y)) | _ \<Rightarrow> Inl Unreachable)"
| "value_add fo (VU16 x) w = (case w of VU16 y \<Rightarrow> Inr (VU16 (x + y)) | _ \<Rightarrow> Inl Unreachable)"
| "value_add fo (VI32 x) w = (case w of VI32 y \<Rightarrow> Inr (VI32 (x + y)) | _ \<Rightarrow> Inl Unreachable)"
| "value_add fo (VU32 x) w = (case w of VU32 y \<Rightarrow> Inr (VU32 (x + y)) | _ \<Rightarrow> Inl Unreachable)"
| "value_add fo (VI64 x) w = (case w of VI64 y \<Rightarrow> Inr (VI64 (x + y)) | _ \<Rightarrow> Inl Unreachable)"
| "value_add fo (VU64 x) w = (case w of VU64 y \<Rightarrow> Inr (VU64 (x + y)) | _ \<Rightarrow> Inl Unreachable)"
| "value_add fo (VF32 x) w = (case w of VF32 y \<Rightarrow> Inr (VF32 (f32_add fo x y)) | _ \<Rightarrow> Inl Unreachable)"
| "value_add fo (VF64 x) w = (case w of VF64 y \<Rightarrow> Inr (VF64 (f64_add fo x y)) | _ \<Rightarrow> Inl Unreachable)"
| "value_add fo (VBool _) w = Inl Unreachable"
| "value_add fo (VBinary _) w = Inl Unreachable"
| "value_add fo (VString _) w = Inl Unreachable"

fun value_gt :: "float_ops \<Rightarrow> row_value \<Rightarrow> row_value \<Rightarrow> bool res" where
  "value_gt fo (VI8 x) w = (case w of VI8 y \<Rightarrow> Inr (sint x > sint y) | _ \<Rightarrow> Inl Unreachable)"
| "value_gt fo (VU8 x) w = (case w of VU8 y \<Rightarrow> Inr (x > y) | _ \<Rightarrow> Inl Unreachable)"
| "value_gt fo (VI16 x) w = (case w of VI16 y \<Rightarrow> Inr (sint x > sint y) | _ \<Rightarrow> Inl Unreachable)"
| "value_gt fo (VU16 x) w = (case w of VU16 y \<Rightarrow> Inr (x > y) | _ \<Rightarrow> Inl Unreachable)"
| "value_gt fo (VI32 x) w = (case w of VI32 y \<Rightarrow> Inr (sint x > sint y) | _ \<Rightarrow> Inl Unreachable)"
| "value_gt fo (VU32 x) w = (case w of VU32 y \<Rightarrow> Inr (x > y) | _ \<Rightarrow> Inl Unreachable)"
| "value_gt fo (VI64 x) w = (case w of VI64 y \<Rightarrow> Inr (sint x > sint y) | _ \<Rightarrow> Inl Unreachable)"
| "value_gt fo (VU64 x) w = (case w of VU64 y \<Rightarrow> Inr (x > y) | _ \<Rightarrow> Inl Unreachable)"
| "value_gt fo (VF32 x) w = (case w of VF32 y \<Rightarrow> Inr (f32_gt fo x y) | _ \<Rightarrow> Inl Unreachable)"
| "value_gt fo (VF64 x) w = (case w of VF64 y \<Rightarrow> Inr (f64_gt fo x y) | _ \<Rightarrow> Inl Unreachable)"
| "value_gt fo (VBool _) w = Inl Unreachable"
| "value_gt fo (VBinary _) w = Inl Unreachable"
| "value_gt fo (VString _) w = Inl Unreachable"

text \<open>The trait \<open>ValueAgg\<close>: every one of its types reads and writes with its own accessors.\<close>

definition value_agg_types :: "data_type list" where
  "value_agg_types = [Int8, UInt8, Int16, UInt16, Int32, UInt32, Int64, UInt64, Float32, Float64]"

definition read_value :: "'w serbuffer \<Rightarrow> data_type \<Rightarrow> u8 list \<Rightarrow> u8 list \<Rightarrow> nat \<Rightarrow> row_value res" where
  "read_value sb t ids buf index =
     (if t \<in> set value_agg_types then unwrap (sb_get sb t ids buf index) else Inl Unreachable)"

definition write_value :: "'w serbuffer \<Rightarrow> 'w \<Rightarrow> row_value \<Rightarrow> 'w res" where
  "write_value sb writer v =
     (if value_type v \<in> set value_agg_types then unwrap (sb_set sb v writer) else Inl Unreachable)"

text \<open>
  \<open>reduce\<close> of each aggregation.  \<open>value\<close> holds the bytes behind the reader of the state, when
  there is one: percentiles count in the state itself, so it is part of the result.
\<close>

fun count_reduce :: "'w serbuffer \<Rightarrow> u8 list \<Rightarrow> nat \<Rightarrow> 'w \<times> u8 list option \<Rightarrow> ('w \<times> u8 list option) res" where
  "count_reduce sb val_ids value_index (writer, value) =
     rbind (case value of
         Some buf \<Rightarrow> rbind (unwrap (sb_get sb UInt64 val_ids buf value_index)) (\<lambda>v.
           case v of VU64 basic_value \<Rightarrow> Inr (basic_value + 1) | _ \<Rightarrow> Inl Unreachable)
       | None \<Rightarrow> Inr 1) (\<lambda>agg_value.
     rbind (unwrap (sb_set sb (VU64 agg_value) writer)) (\<lambda>writer. Inr (writer, value)))"

fun basic_reduce :: "'w serbuffer \<Rightarrow> float_ops \<Rightarrow> u8 list \<Rightarrow> u8 list \<Rightarrow> u8 list \<Rightarrow> nat \<Rightarrow> basic_agg_type \<Rightarrow> data_type
    \<Rightarrow> nat \<Rightarrow> 'w \<times> u8 list option \<Rightarrow> ('w \<times> u8 list option) res" where
  "basic_reduce sb fo val_ids rec_ids rec_buf column_index agg_type t value_index (writer, value) =
     rbind (read_value sb t rec_ids rec_buf column_index) (\<lambda>record_value.
     rbind (case value of
         Some buf \<Rightarrow> rbind (read_value sb t val_ids buf value_index) (\<lambda>basic_value.
           case agg_type of
             Basic_sum \<Rightarrow> value_add fo basic_value record_value
           | Basic_max \<Rightarrow> rbind (value_gt fo basic_value record_value) (\<lambda>gt. Inr (if gt then basic_value else record_value))
           | Basic_min \<Rightarrow> rbind (value_gt fo basic_value record_value) (\<lambda>gt. Inr (if gt then record_value else basic_value)))
       | None \<Rightarrow> Inr record_value) (\<lambda>agg_value.
     rbind (write_value sb writer agg_value) (\<lambda>writer. Inr (writer, value))))"

fun pct_reduce :: "'w serbuffer \<Rightarrow> (int \<Rightarrow> 'f::linorder) \<Rightarrow> u8 list \<Rightarrow> u8 list \<Rightarrow> u8 list \<Rightarrow> nat \<Rightarrow> 'f list \<Rightarrow> u8 list
    \<Rightarrow> nat \<Rightarrow> 'w \<times> u8 list option \<Rightarrow> ('w \<times> u8 list option) res" where
  "pct_reduce sb as_f64 val_ids rec_ids rec_buf column_index scale count_container value_index (writer, value) =
     rbind (unwrap (sb_get sb Int64 rec_ids rec_buf column_index)) (\<lambda>v.
     case v of
       VI64 record_value \<Rightarrow> (case value of
           Some buf \<Rightarrow> rbind (unwrap (sb_get sb Binary val_ids buf value_index)) (\<lambda>stat. case stat of
               VBinary stat_value \<Rightarrow>
                 rbind (accumulate (as_f64 (sint record_value)) (percentile_writer_new scale stat_value)) (\<lambda>p.
                 let stat_value = pc_count_container p in
                 rbind (unwrap (sb_set sb (VBinary stat_value) writer)) (\<lambda>writer.
                 Inr (writer, Some (sb_put sb val_ids buf value_index stat_value))))
             | _ \<Rightarrow> Inl Unreachable)
         | None \<Rightarrow>
             rbind (accumulate (as_f64 (sint record_value)) (percentile_writer_new scale count_container)) (\<lambda>p.
             rbind (unwrap (sb_set sb (VBinary (pc_count_container p)) writer)) (\<lambda>writer. Inr (writer, None))))
     | _ \<Rightarrow> Inl Unreachable)"

fun agg_reduce :: "'w serbuffer \<Rightarrow> float_ops \<Rightarrow> (int \<Rightarrow> 'f::linorder) \<Rightarrow> u8 list \<Rightarrow> u8 list \<Rightarrow> u8 list
    \<Rightarrow> 'f aggregation \<Rightarrow> nat \<Rightarrow> 'w \<times> u8 list option \<Rightarrow> ('w \<times> u8 list option) res" where
  "agg_reduce sb fo as_f64 val_ids rec_ids rec_buf (CountAggregation _) value_index st =
     count_reduce sb val_ids value_index st"
| "agg_reduce sb fo as_f64 val_ids rec_ids rec_buf (BasicAggregation column_index agg_type _ _ t) value_index st =
     basic_reduce sb fo val_ids rec_ids rec_buf column_index agg_type t value_index st"
| "agg_reduce sb fo as_f64 val_ids rec_ids rec_buf (PctAggregation column_index scale count_container _ _) value_index st =
     pct_reduce sb as_f64 val_ids rec_ids rec_buf column_index scale count_container value_index st"

section \<open>The reduce function\<close>

record 'f schema_reduce_function =
  sr_parallelism :: u16
  sr_schema :: schema
  sr_val_schema :: schema
  sr_val_len :: nat
  sr_agg_descriptors :: "'f aggregation_descriptor list"
  sr_agg_operators :: "'f aggregation list"

definition schema_reduce_function_new :: "'f aggregation_descriptor list \<Rightarrow> u16 \<Rightarrow> 'f schema_reduce_function" where
  "schema_reduce_function_new agg_descriptors parallelism = \<lparr>sr_parallelism = parallelism, sr_schema = schema_empty,
     sr_val_schema = schema_empty, sr_val_len = 0, sr_agg_descriptors = agg_descriptors, sr_agg_operators = []\<rparr>"

definition agg_schema :: "(data_type \<Rightarrow> u8) \<Rightarrow> 'f schema_reduce_function \<Rightarrow> schema
    \<Rightarrow> ('f aggregation list \<times> schema_field list \<times> nat) res" where
  "agg_schema type_id fn s = fold_res (\<lambda>agg_descriptor (aggs, fs, len).
     rbind (to_aggregation type_id s agg_descriptor) (\<lambda>agg.
     Inr (aggs @ [agg], fs @ [agg_output_field agg], len + agg_len agg))) (sr_agg_descriptors fn) ([], [], 0)"

definition sr_schema_of :: "(data_type \<Rightarrow> u8) \<Rightarrow> 'f schema_reduce_function \<Rightarrow> fn_schema \<Rightarrow> fn_schema res" where
  "sr_schema_of type_id fn input_schema =
     rbind (fn_schema_first input_schema) (\<lambda>s.
     rbind (agg_schema type_id fn s) (\<lambda>(_, val_fields, _). Inr (Single (schema_new val_fields))))"

definition sr_open :: "(data_type \<Rightarrow> u8) \<Rightarrow> fn_schema \<Rightarrow> 'f schema_reduce_function \<Rightarrow> 'f schema_reduce_function res" where
  "sr_open type_id input_schema fn =
     rbind (fn_schema_first input_schema) (\<lambda>s.
     let fn = fn\<lparr>sr_schema := s\<rparr> in
     rbind (sr_schema_of type_id fn input_schema) (\<lambda>out.
     rbind (fn_schema_into out) (\<lambda>val_schema.
     let fn = fn\<lparr>sr_val_schema := val_schema\<rparr> in
     rbind (agg_schema type_id fn s) (\<lambda>(agg_operators, _, val_len).
     Inr (fn\<lparr>sr_val_len := val_len, sr_agg_operators := agg_operators\<rparr>)))))"

definition sr_reduce :: "'w serbuffer \<Rightarrow> float_ops \<Rightarrow> (int \<Rightarrow> 'f::linorder) \<Rightarrow> 'f schema_reduce_function
    \<Rightarrow> rlink_record option \<Rightarrow> rlink_record \<Rightarrow> (rlink_record \<times> rlink_record option) res" where
  "sr_reduce sb fo as_f64 fn value r =
     (let record_rt = record_with_capacity (sr_val_len fn);
        val_ids = s_type_ids (sr_val_schema fn);
        writer = sb_writer sb val_ids (rec_values record_rt) in
      rbind (fold_res (\<lambda>index st. rbind (index_res (sr_agg_operators fn) index) (\<lambda>agg.
          agg_reduce sb fo as_f64 val_ids (s_type_ids (sr_schema fn)) (rec_values r) agg index st))
        [0..<length (sr_agg_operators fn)] (writer, map_option rec_values value))
      (\<lambda>(writer, stat). Inr (record_rt\<lparr>rec_values := sb_bytes sb writer\<rparr>,
         case (value, stat) of (Some v, Some buf) \<Rightarrow> Some (v\<lparr>rec_values := buf\<rparr>) | _ \<Rightarrow> None)))"

section \<open>What a column holds\<close>

text \<open>The number an integer value stands for.\<close>

fun num :: "row_value \<Rightarrow> int" where
  "num (VI8 x) = sint x" | "num (VU8 x) = uint x"
| "num (VI16 x) = sint x" | "num (VU16 x) = uint x"
| "num (VI32 x) = sint x" | "num (VU32 x) = uint x"
| "num (VI64 x) = sint x" | "num (VU64 x) = uint x"
| "num _ = 0"

definition is_integer :: "data_type \<Rightarrow> bool" where
  "is_integer t \<longleftrightarrow> t \<in> {Int8, UInt8, Int16, UInt16, Int32, UInt32, Int64, UInt64}"

text \<open>
  What the values \<open>col\<close> of a column sum up to: the sum modulo the width of the type for
  integers, the sums from left to right for floating point numbers.  The largest value of a
  column is one of its values, and no integer of it is larger.
\<close>

definition sum_result :: "float_ops \<Rightarrow> data_type \<Rightarrow> row_value list \<Rightarrow> row_value \<Rightarrow> bool" where
  "sum_result fo t col v \<longleftrightarrow>
     (if is_integer t then num v mod 2 ^ (8 * data_type_len t) = sum_list (map num col) mod 2 ^ (8 * data_type_len t)
      else fold_res (\<lambda>x acc. value_add fo acc x) (tl col) (hd col) = Inr v)"

definition max_result :: "data_type \<Rightarrow> row_value list \<Rightarrow> row_value \<Rightarrow> bool" where
  "max_result t col v \<longleftrightarrow> v \<in> set col \<and> (is_integer t \<longrightarrow> (\<forall>u\<in>set col. num u \<le> num v))"

definition min_result :: "data_type \<Rightarrow> row_value list \<Rightarrow> row_value \<Rightarrow> bool" where
  "min_result t col v \<longleftrightarrow> v \<in> set col \<and> (is_integer t \<longrightarrow> (\<forall>u\<in>set col. num v \<le> num u))"

definition pct_result :: "(int \<Rightarrow> 'f::linorder) \<Rightarrow> 'f list \<Rightarrow> row_value list \<Rightarrow> row_value \<Rightarrow> bool" where
  "pct_result as_f64 scale col v \<longleftrightarrow>
     (case fold_res accumulate (map (as_f64 \<circ> num) col) (percentile_writer_new scale (replicate (get_percentile_capacity scale) 0)) of
        Inr p \<Rightarrow> v = VBinary (pc_count_container p) | Inl _ \<Rightarrow> False)"

fun column_result :: "float_ops \<Rightarrow> (int \<Rightarrow> 'f::linorder) \<Rightarrow> 'f aggregation \<Rightarrow> row_value list list \<Rightarrow> row_value \<Rightarrow> bool" where
  "column_result fo as_f64 (CountAggregation _) rows v \<longleftrightarrow> v = VU64 (of_nat (length rows))"
| "column_result fo as_f64 (BasicAggregation i agg_type _ _ t) rows v \<longleftrightarrow> (let col = map (\<lambda>r. r ! i) rows in
     case agg_type of Basic_sum \<Rightarrow> sum_result fo t col v | Basic_max \<Rightarrow> max_result t col v | Basic_min \<Rightarrow> min_result t col v)"
| "column_result fo as_f64 (PctAggregation i scale _ _ _) rows v \<longleftrightarrow> pct_result as_f64 scale (map (\<lambda>r. r ! i) rows) v"

text \<open>An aggregation that fits a list of column types, the type of its output, and its values.\<close>

fun agg_fits :: "data_type list \<Rightarrow> 'f::linorder aggregation \<Rightarrow> bool" where
  "agg_fits ts (CountAggregation _) \<longleftrightarrow> True"
| "agg_fits ts (BasicAggregation i _ _ _ t) \<longleftrightarrow> i < length ts \<and> ts ! i = t \<and> t \<in> set value_agg_types"
| "agg_fits ts (PctAggregation i scale zero _ _) \<longleftrightarrow> i < length ts \<and> ts ! i = Int64 \<and> scale \<noteq> [] \<and> sorted_wrt (<) scale
     \<and> zero = replicate (get_percentile_capacity scale) 0"

fun agg_type_of :: "'f aggregation \<Rightarrow> data_type" where
  "agg_type_of (CountAggregation _) = UInt64"
| "agg_type_of (BasicAggregation _ _ _ _ t) = t"
| "agg_type_of (PctAggregation _ _ _ _ _) = Binary"

fun agg_value_ok :: "'f aggregation \<Rightarrow> row_value \<Rightarrow> bool" where
  "agg_value_ok (PctAggregation _ scale _ _ _) v \<longleftrightarrow> (case v of VBinary b \<Rightarrow> length b = get_percentile_capacity scale | _ \<Rightarrow> False)"
| "agg_value_ok (CountAggregation _) v \<longleftrightarrow> value_type v = UInt64"
| "agg_value_ok (BasicAggregation _ _ _ _ t) v \<longleftrightarrow> value_type v = t"

text \<open>The value a column moves to: the step of one aggregation without the binary form.\<close>

fun agg_step :: "float_ops \<Rightarrow> (int \<Rightarrow> 'f::linorder) \<Rightarrow> 'f aggregation \<Rightarrow> row_value list \<Rightarrow> row_value option \<Rightarrow> row_value res" where
  "agg_step fo as_f64 (CountAggregation _) row value =
     (case value of None \<Rightarrow> Inr (VU64 1) | Some v \<Rightarrow> Inr (VU64 (of_int (num v) + 1)))"
| "agg_step fo as_f64 (BasicAggregation i agg_type _ _ t) row value = (case value of
       None \<Rightarrow> Inr (row ! i)
     | Some v \<Rightarrow> (case agg_type of
          Basic_sum \<Rightarrow> value_add fo v (row ! i)
        | Basic_max \<Rightarrow> rbind (value_gt fo v (row ! i)) (\<lambda>gt. Inr (if gt then v else row ! i))
        | Basic_min \<Rightarrow> rbind (value_gt fo v (row ! i)) (\<lambda>gt. Inr (if gt then row ! i else v))))"
| "agg_step fo as_f64 (PctAggregation i scale zero _ _) row value =
     rbind (accumulate (as_f64 (num (row ! i)))
        (percentile_writer_new scale (case value of Some (VBinary b) \<Rightarrow> b | _ \<Rightarrow> zero)))
       (\<lambda>p. Inr (VBinary (pc_count_container p)))"

lemma agg_value_ok_type: "agg_value_ok agg v \<Longrightarrow> value_type v = agg_type_of agg"
  by (cases agg) (auto split: row_value.splits)

lemma value_add_ok:
  assumes "value_type v = t" "value_type u = t" "t \<in> set value_agg_types"
  shows "\<exists>x. value_add fo v u = Inr x \<and> value_type x = t"
  using assms by (cases v; cases u) (auto simp: value_agg_types_def)

lemma value_gt_ok:
  assumes "value_type v = t" "value_type u = t" "t \<in> set value_agg_types"
  shows "\<exists>b. value_gt fo v u = Inr b \<and> (is_integer t \<longrightarrow> b = (num v > num u))"
  using assms by (cases v; cases u) (auto simp: value_agg_types_def is_integer_def word_less_def)

lemma accumulate_container:
  fixes scale :: "'f::linorder list"
  assumes "length c = get_percentile_capacity scale" "sorted_wrt (<) scale" "scale \<noteq> []"
  shows "\<exists>c'. accumulate v (percentile_writer_new scale c) = Inr (percentile_writer_new scale c') \<and> length c' = get_percentile_capacity scale"
proof -
  let ?p = "percentile_writer_new scale c"
  have "counts ?p (\<lambda>k. case pct_read ?p (k * 8) of Inr n \<Rightarrow> n | Inl _ \<Rightarrow> 0)"
    using assms(1) by (auto simp: counts_def percentile_writer_new_def pct_read_def get_percentile_capacity_def)
  moreover have sc: "pc_scale ?p = scale" by (simp add: percentile_writer_new_def)
  ultimately obtain p f where p: "accumulate v ?p = Inr p" "pc_scale p = scale" "counts p f"
    using accumulate_counts[of ?p _ v] assms(2,3) by fastforce
  then have "p = percentile_writer_new scale (pc_count_container p)" by (simp add: counts_def percentile_writer_new_def)
  then show ?thesis using p by (metis counts_def)
qed

lemma agg_step_ok:
  assumes "agg_fits ts agg" "map value_type row = ts" "\<And>v. vo = Some v \<Longrightarrow> agg_value_ok agg v"
  shows "\<exists>v'. agg_step fo as_f64 agg row vo = Inr v' \<and> agg_value_ok agg v'"
proof (cases agg)
  case (CountAggregation f)
  then show ?thesis using assms(3) by (cases vo) auto
next
  case (BasicAggregation i agg_type inf outf t)
  then have ty: "value_type (row ! i) = t" "t \<in> set value_agg_types" using assms(1,2) by (auto simp: nth_map)
  show ?thesis
  proof (cases vo)
    case None
    then show ?thesis using BasicAggregation ty by simp
  next
    case (Some v)
    then have v: "value_type v = t" using assms(3) BasicAggregation by simp
    show ?thesis using value_add_ok[OF v ty, of fo] value_gt_ok[OF v ty, of fo] Some v ty BasicAggregation
      by (cases agg_type) auto
  qed
next
  case (PctAggregation i scale zero inf outf)
  let ?c = "case vo of Some (VBinary b) \<Rightarrow> b | _ \<Rightarrow> zero"
  have "length ?c = get_percentile_capacity scale"
    using assms(1) assms(3) PctAggregation by (auto split: option.splits row_value.splits)
  then obtain c' where "accumulate (as_f64 (num (row ! i))) (percentile_writer_new scale ?c) = Inr (percentile_writer_new scale c')"
    "length c' = get_percentile_capacity scale"
    using accumulate_container[of ?c scale] assms(1) PctAggregation by auto
  then show ?thesis using PctAggregation by (simp add: percentile_writer_new_def)
qed

section \<open>Columns step by step\<close>

lemma sint_mod: "sint (x :: 'a::len word) mod 2 ^ LENGTH('a) = uint x"
  by (simp add: uint_sint take_bit_eq_mod)

lemma uint_sum_mod: "uint (x + y :: 'a::len word) = (uint x + uint y) mod 2 ^ LENGTH('a)"
  by (simp add: uint_word_ariths)

lemma sint_sum_mod: "sint (x + y :: 'a::len word) mod 2 ^ LENGTH('a) = (sint x + sint y) mod 2 ^ LENGTH('a)"
  unfolding sint_mod uint_sum_mod by (simp add: sint_mod[symmetric] mod_add_eq)

lemma value_add_num:
  assumes "value_add fo v u = Inr x" "is_integer (value_type v)"
  shows "num x mod 2 ^ (8 * data_type_len (value_type v)) = (num v + num u) mod 2 ^ (8 * data_type_len (value_type v))"
  using assms by (cases v; cases u)
    (auto simp: is_integer_def uint_sum_mod
      sint_sum_mod[where 'a = 8, simplified] sint_sum_mod[where 'a = 16, simplified]
      sint_sum_mod[where 'a = 32, simplified] sint_sum_mod[where 'a = 64, simplified])

lemma first_result:
  assumes "agg_fits ts agg" "agg_step fo as_f64 agg row None = Inr v"
  shows "column_result fo as_f64 agg [row] v"
proof (cases agg)
  case (CountAggregation f)
  then show ?thesis using assms by simp
next
  case (BasicAggregation i agg_type fin fout t)
  then show ?thesis using assms by (cases agg_type) (auto simp: sum_result_def max_result_def min_result_def)
next
  case (PctAggregation i scale zero fin fout)
  then show ?thesis using assms by (auto simp: pct_result_def rbind_eq_Inr)
qed

lemma basic_next_result:
  assumes v: "column_result fo as_f64 (BasicAggregation i agg_type fin fout t) rows v" "value_type v = t"
    and u: "value_type (row ! i) = t" "t \<in> set value_agg_types" and ne: "rows \<noteq> []"
    and st: "agg_step fo as_f64 (BasicAggregation i agg_type fin fout t) row (Some v) = Inr v'"
  shows "column_result fo as_f64 (BasicAggregation i agg_type fin fout t) (rows @ [row]) v'"
proof (cases agg_type)
  case Basic_sum
  let ?M = "(2 :: int) ^ (8 * data_type_len t)"
  have add: "value_add fo v (row ! i) = Inr v'" and sr: "sum_result fo t (map (\<lambda>r. r ! i) rows) v" using st v(1) Basic_sum by simp_all
  have "sum_result fo t (map (\<lambda>r. r ! i) rows @ [row ! i]) v'"
  proof (cases "is_integer t")
    case True
    have "num v' mod ?M = (num v + num (row ! i)) mod ?M" using value_add_num[OF add] v(2) True by simp
    also have "\<dots> = (sum_list (map num (map (\<lambda>r. r ! i) rows)) + num (row ! i)) mod ?M"
      using sr True unfolding sum_result_def by (metis mod_add_left_eq)
    finally show ?thesis using True by (simp add: sum_result_def)
  next
    case False
    then show ?thesis using sr add ne by (simp add: sum_result_def fold_res_append hd_map hd_append tl_append2)
  qed
  then show ?thesis using Basic_sum by simp
next
  case Basic_max
  obtain b where b: "value_gt fo v (row ! i) = Inr b" "is_integer t \<longrightarrow> b = (num v > num (row ! i))" using value_gt_ok[OF v(2) u, of fo] by blast
  show ?thesis using v(1) st Basic_max b by (cases b) (auto simp: max_result_def)
next
  case Basic_min
  obtain b where b: "value_gt fo v (row ! i) = Inr b" "is_integer t \<longrightarrow> b = (num v > num (row ! i))" using value_gt_ok[OF v(2) u, of fo] by blast
  show ?thesis using v(1) st Basic_min b by (cases b) (auto simp: min_result_def)
qed

lemma pct_next_result:
  assumes s: "scale \<noteq> []" "sorted_wrt (<) scale" "pct_result as_f64 scale col v"
    and st: "accumulate (as_f64 (num u)) (percentile_writer_new scale (case v of VBinary b \<Rightarrow> b | _ \<Rightarrow> zero)) = Inr p"
  shows "pct_result as_f64 scale (col @ [u]) (VBinary (pc_count_container p))"
proof -
  let ?p0 = "percentile_writer_new scale (replicate (get_percentile_capacity scale) 0)"
  have sc: "pc_scale ?p0 = scale" by (simp add: percentile_writer_new_def)
  obtain q where q: "fold_res accumulate (map (as_f64 \<circ> num) col) ?p0 = Inr q" "v = VBinary (pc_count_container q)"
    using s(3) by (auto simp: pct_result_def split: sum.splits)
  obtain q' f where q': "fold_res accumulate (map (as_f64 \<circ> num) col) ?p0 = Inr q'" "pc_scale q' = scale" "counts q' f"
    using accumulate_all[OF zero_counts, of scale "map (as_f64 \<circ> num) col"] s(1,2) sc by auto
  then have "q = q'" using q(1) by simp
  then have "q = percentile_writer_new scale (pc_count_container q)" using q'(2,3) by (simp add: counts_def percentile_writer_new_def)
  then have "accumulate (as_f64 (num u)) q = Inr p" using st q(2) by simp
  then show ?thesis using q(1) by (simp add: pct_result_def fold_res_append)
qed

lemma next_result:
  assumes "agg_fits ts agg" "map value_type row = ts" "rows \<noteq> []" "column_result fo as_f64 agg rows v" "agg_value_ok agg v"
    "agg_step fo as_f64 agg row (Some v) = Inr v'"
  shows "column_result fo as_f64 agg (rows @ [row]) v'"
proof (cases agg)
  case (CountAggregation f)
  then show ?thesis using assms by (auto simp: add.commute)
next
  case (BasicAggregation i agg_type fin fout t)
  have "value_type (row ! i) = t" "t \<in> set value_agg_types" "value_type v = t" using assms(1,2,5) BasicAggregation by (auto simp: nth_map)
  then show ?thesis using basic_next_result[of fo as_f64 i agg_type fin fout t rows v row v'] assms(3,4,6) BasicAggregation by simp
next
  case (PctAggregation i scale zero fin fout)
  then obtain p where p: "accumulate (as_f64 (num (row ! i))) (percentile_writer_new scale (case v of VBinary b \<Rightarrow> b | _ \<Rightarrow> zero)) = Inr p"
    "v' = VBinary (pc_count_container p)" using assms(6) by (auto simp: rbind_eq_Inr)
  have "pct_result as_f64 scale (map (\<lambda>r. r ! i) rows @ [row ! i]) v'"
    unfolding p(2) by (rule pct_next_result[where v = v and zero = zero]) (use assms(1,4) p(1) PctAggregation in simp_all)
  then show ?thesis using PctAggregation by simp
qed

section \<open>Rows step by step\<close>

lemma basic_read: "t \<in> set value_agg_types \<Longrightarrow> read_value sb t ids buf i = unwrap (sb_get sb t ids buf i)"
  by (simp add: read_value_def)

context row_codec
begin

lemma get_typed: "holds ids vs buf \<Longrightarrow> i < length vs \<Longrightarrow> value_type (vs ! i) = t \<Longrightarrow> sb_get sb t ids buf i = Some (vs ! i)"
  using get_value by blast

lemma row_types: "holds (map (sb_type_id sb) ts) row buf \<Longrightarrow> map value_type row = ts"
  using row_typed[of "map (sb_type_id sb) ts" row buf] inj_map_eq_map[OF ids_inj, of "map value_type row" ts] by simp

text \<open>The first record of a key: the aggregation writes its first value.\<close>

lemma reduce_first:
  assumes "agg_fits ts agg" "holds (map (sb_type_id sb) ts) row buf" "pending ids vs w" "length vs < length ids"
    "ids ! length vs = sb_type_id sb (agg_type_of agg)" "agg_step fo as_f64 agg row None = Inr v" "agg_value_ok agg v"
  shows "\<exists>w'. agg_reduce sb fo as_f64 ids (map (sb_type_id sb) ts) buf agg (length vs) (w, None) = Inr (w', None) \<and> pending ids (vs @ [v]) w'"
proof -
  note ty = row_types[OF assms(2)]
  obtain w' where w': "sb_set sb v w = Some w'" "pending ids (vs @ [v]) w'"
    using set_value[OF assms(3,4), of v] assms(5) agg_value_ok_type[OF assms(7)] by auto
  show ?thesis
  proof (cases agg)
    case (CountAggregation f)
    then show ?thesis using w' assms(6) by auto
  next
    case (BasicAggregation i agg_type fin fout t)
    then have i: "i < length row" "value_type (row ! i) = t" "t \<in> set value_agg_types" using assms(1) ty by (auto simp: nth_map)
    then show ?thesis using BasicAggregation w' assms(6) get_typed[OF assms(2) i(1,2)] by (auto simp: basic_read write_value_def)
  next
    case (PctAggregation i scale zero fin fout)
    then have i: "i < length row" "value_type (row ! i) = Int64" using assms(1) ty by (auto simp: nth_map)
    then obtain x where x: "row ! i = VI64 x" by (cases "row ! i") auto
    then show ?thesis using PctAggregation w' assms(6) get_typed[OF assms(2) i] by (auto simp: rbind_eq_Inr)
  qed
qed

text \<open>A further record: the aggregation reads its value of the state and writes the next one.\<close>

lemma reduce_next:
  assumes "agg_fits ts agg" "holds (map (sb_type_id sb) ts) row buf" "pending ids vs w" "length vs < length ids"
    "ids ! length vs = sb_type_id sb (agg_type_of agg)" "holds ids vals stat" "agg_value_ok agg (vals ! length vs)"
    "agg_step fo as_f64 agg row (Some (vals ! length vs)) = Inr v" "agg_value_ok agg v"
  shows "\<exists>w' stat' x. agg_reduce sb fo as_f64 ids (map (sb_type_id sb) ts) buf agg (length vs) (w, Some stat) = Inr (w', Some stat')
    \<and> pending ids (vs @ [v]) w' \<and> holds ids (vals[length vs := x]) stat'"
proof -
  note ty = row_types[OF assms(2)]
  let ?k = "length vs"
  obtain w' where w': "sb_set sb v w = Some w'" "pending ids (vs @ [v]) w'"
    using set_value[OF assms(3,4), of v] assms(5) agg_value_ok_type[OF assms(9)] by auto
  have k: "?k < length vals" using assms(4) holds_length[OF assms(6)] by simp
  note gv = get_typed[OF assms(6) k agg_value_ok_type[OF assms(7)]]
  have same: "\<exists>x. holds ids (vals[?k := x]) stat" using assms(6) list_update_id[of vals ?k] by metis
  show ?thesis
  proof (cases agg)
    case (CountAggregation f)
    then obtain n where "vals ! ?k = VU64 n" using assms(7) by (cases "vals ! ?k") auto
    then show ?thesis using CountAggregation w' assms(8) gv same by auto
  next
    case (BasicAggregation i agg_type fin fout t)
    then have i: "i < length row" "value_type (row ! i) = t" "t \<in> set value_agg_types" using assms(1) ty by (auto simp: nth_map)
    have st: "(case agg_type of Basic_sum \<Rightarrow> value_add fo (vals ! ?k) (row ! i)
        | Basic_max \<Rightarrow> rbind (value_gt fo (vals ! ?k) (row ! i)) (\<lambda>gt. Inr (if gt then vals ! ?k else row ! i))
        | Basic_min \<Rightarrow> rbind (value_gt fo (vals ! ?k) (row ! i)) (\<lambda>gt. Inr (if gt then row ! i else vals ! ?k))) = Inr v"
      using assms(8) BasicAggregation by simp
    have "value_type v \<in> set value_agg_types" using assms(9) i(3) BasicAggregation by simp
    then show ?thesis using BasicAggregation w' st gv same get_typed[OF assms(2) i(1,2)] i(3)
      by (simp add: basic_read write_value_def)
  next
    case (PctAggregation i scale zero fin fout)
    then have i: "i < length row" "value_type (row ! i) = Int64" using assms(1) ty by (auto simp: nth_map)
    then obtain x where x: "row ! i = VI64 x" by (cases "row ! i") auto
    obtain b where b: "vals ! ?k = VBinary b" "length b = get_percentile_capacity scale"
      using assms(7) PctAggregation by (cases "vals ! ?k") auto
    obtain p where p: "accumulate (as_f64 (sint x)) (percentile_writer_new scale b) = Inr p" "v = VBinary (pc_count_container p)"
      using assms(8) PctAggregation x b by (auto simp: rbind_eq_Inr)
    have "holds ids (vals[?k := VBinary (pc_count_container p)]) (sb_put sb ids stat ?k (pc_count_container p))"
      by (rule put_binary[OF assms(6) k b(1)]) (use assms(9) b(2) p(2) PctAggregation in simp)
    then show ?thesis using PctAggregation w' p x b(1) gv get_typed[OF assms(2) i] by (auto simp: Let_def)
  qed
qed

end

section \<open>The function on records\<close>

text \<open>
  A function opened on columns of the types \<open>ts\<close>: its aggregations fit them, and its schemas
  carry the numbers of the types.
\<close>

definition ready :: "(data_type \<Rightarrow> u8) \<Rightarrow> data_type list \<Rightarrow> 'f::linorder schema_reduce_function \<Rightarrow> bool" where
  "ready type_id ts fn \<longleftrightarrow> s_type_ids (sr_schema fn) = map type_id ts \<and> list_all (agg_fits ts) (sr_agg_operators fn)
     \<and> s_type_ids (sr_val_schema fn) = map (\<lambda>agg. type_id (agg_type_of agg)) (sr_agg_operators fn)"

text \<open>A record that can be the state of a key: a row of the output schema with full percentile arrays.\<close>

definition state_row :: "(u8 list \<Rightarrow> row_value list \<Rightarrow> u8 list \<Rightarrow> bool) \<Rightarrow> 'f schema_reduce_function \<Rightarrow> rlink_record \<Rightarrow> row_value list \<Rightarrow> bool" where
  "state_row holds fn r vals \<longleftrightarrow> holds (s_type_ids (sr_val_schema fn)) vals (rec_values r)
     \<and> list_all2 agg_value_ok (sr_agg_operators fn) vals"

text \<open>The row after a record: every column makes its step.\<close>

definition next_value :: "float_ops \<Rightarrow> (int \<Rightarrow> 'f::linorder) \<Rightarrow> 'f schema_reduce_function \<Rightarrow> row_value list \<Rightarrow> row_value list option \<Rightarrow> nat \<Rightarrow> row_value" where
  "next_value fo as_f64 fn row vals k =
     (case agg_step fo as_f64 (sr_agg_operators fn ! k) row (map_option (\<lambda>vs. vs ! k) vals) of Inr v \<Rightarrow> v | Inl _ \<Rightarrow> VBool False)"

lemma next_value_ok:
  assumes "ready type_id ts fn" "k < length (sr_agg_operators fn)" "map value_type row = ts"
    "\<And>vs. vals = Some vs \<Longrightarrow> list_all2 agg_value_ok (sr_agg_operators fn) vs"
  shows "agg_step fo as_f64 (sr_agg_operators fn ! k) row (map_option (\<lambda>vs. vs ! k) vals) = Inr (next_value fo as_f64 fn row vals k)
    \<and> agg_value_ok (sr_agg_operators fn ! k) (next_value fo as_f64 fn row vals k)"
proof -
  have "agg_fits ts (sr_agg_operators fn ! k)" using assms(1,2) by (simp add: ready_def list_all_length)
  moreover have "agg_value_ok (sr_agg_operators fn ! k) v" if "map_option (\<lambda>vs. vs ! k) vals = Some v" for v
    using that assms(2,4) by (cases vals) (auto simp: list_all2_conv_all_nth)
  ultimately obtain v where "agg_step fo as_f64 (sr_agg_operators fn ! k) row (map_option (\<lambda>vs. vs ! k) vals) = Inr v"
    "agg_value_ok (sr_agg_operators fn ! k) v" using agg_step_ok[of ts "sr_agg_operators fn ! k" row _ fo as_f64] assms(3) by blast
  then show ?thesis by (simp add: next_value_def)
qed

context row_codec
begin

lemma sr_reduce_row:
  fixes fo :: float_ops and as_f64 :: "int \<Rightarrow> 'f::linorder" and fn :: "'f schema_reduce_function"
  assumes rd: "ready (sb_type_id sb) ts fn" and row: "holds (s_type_ids (sr_schema fn)) row (rec_values r)"
    and val: "rel_option (state_row holds fn) vo vals"
  defines "out \<equiv> map (next_value fo as_f64 fn row vals) [0..<length (sr_agg_operators fn)]"
  shows "\<exists>r' vo'. sr_reduce sb fo as_f64 fn vo r = Inr (r', vo') \<and> (vo' = None \<longleftrightarrow> vo = None) \<and> state_row holds fn r' out"
proof -
  let ?ops = "sr_agg_operators fn" and ?ids = "s_type_ids (sr_val_schema fn)" and ?rids = "map (sb_type_id sb) ts"
  let ?nv = "next_value fo as_f64 fn row vals"
  let ?f = "\<lambda>index st. rbind (index_res ?ops index) (\<lambda>agg. agg_reduce sb fo as_f64 ?ids (s_type_ids (sr_schema fn)) (rec_values r) agg index st)"
  let ?J = "\<lambda>k stat. case stat of None \<Rightarrow> vals = None
     | Some buf \<Rightarrow> \<exists>vs vs'. vals = Some vs \<and> holds ?ids vs' buf \<and> (\<forall>j\<ge>k. vs' ! j = vs ! j)"
  have rids: "s_type_ids (sr_schema fn) = ?rids" and len: "length ?ids = length ?ops" using rd by (simp_all add: ready_def)
  have row': "holds ?rids row (rec_values r)" using row rids by simp
  have vals_ok: "list_all2 agg_value_ok ?ops vs" if "vals = Some vs" for vs using val that by (cases vo) (auto simp: state_row_def)
  note nv = next_value_ok[OF rd _ row_types[OF row'], of _ vals fo as_f64, OF _ vals_ok]
  have step: "\<exists>w' s'. ?f k (w, s) = Inr (w', s') \<and> pending ?ids (map ?nv [0..<Suc k]) w' \<and> ?J (Suc k) s'"
    if k: "k < length ?ids" and w: "pending ?ids (map ?nv [0..<k]) w" and s: "?J k s" for k w s
  proof -
    have kl: "length (map ?nv [0..<k]) = k" by simp
    have ko: "k < length ?ops" and fits: "agg_fits ts (?ops ! k)" and id: "?ids ! k = sb_type_id sb (agg_type_of (?ops ! k))"
      using k len rd by (simp_all add: ready_def list_all_length)
    note st = nv[OF ko]
    show ?thesis
    proof (cases s)
      case None
      then have none: "vals = None" using s by simp
      show ?thesis using reduce_first[OF fits row' w, unfolded kl, of fo as_f64, OF k id] st None none ko by (auto simp: rids)
    next
      case (Some stat)
      then obtain vs vs' where v: "vals = Some vs" "holds ?ids vs' stat" "\<forall>j\<ge>k. vs' ! j = vs ! j" using s by auto
      have "agg_value_ok (?ops ! k) (vs' ! k)" using vals_ok[OF v(1)] v(3) ko by (simp add: list_all2_conv_all_nth)
      then obtain w' stat' x where "agg_reduce sb fo as_f64 ?ids ?rids (rec_values r) (?ops ! k) k (w, Some stat) = Inr (w', Some stat')"
        "pending ?ids (map ?nv [0..<k] @ [?nv k]) w'" "holds ?ids (vs'[k := x]) stat'"
        using reduce_next[OF fits row' w, unfolded kl, OF k id v(2), of fo as_f64] st v(1,3) by auto
      then show ?thesis using Some v ko by (auto simp: rids intro!: exI[of _ "vs'[k := x]"])
    qed
  qed
  have "\<exists>w' s'. fold_res ?f [0..<length ?ids] (sb_writer sb ?ids [], map_option rec_values vo) = Inr (w', s')
     \<and> holds ?ids (map ?nv [0..<length ?ids]) (sb_bytes sb w') \<and> ?J (length ?ids) s'"
  proof (rule write_loop)
    show "pending ?ids [] (sb_writer sb ?ids [])" by (rule writer_new)
    show "?J 0 (map_option rec_values vo)" using val by (cases vo; cases vals) (auto simp: state_row_def)
  qed (rule step)
  then obtain w' s' where "fold_res ?f [0..<length ?ops] (sb_writer sb ?ids [], map_option rec_values vo) = Inr (w', s')"
    "holds ?ids out (sb_bytes sb w')" "?J (length ?ids) s'" by (auto simp: out_def len)
  moreover have "list_all2 agg_value_ok ?ops out" using nv by (auto simp: out_def list_all2_conv_all_nth)
  moreover have "s' = None \<longleftrightarrow> vo = None" using \<open>?J (length ?ids) s'\<close> val by (cases s'; cases vo) auto
  ultimately show ?thesis
    by (cases vo; cases s') (auto simp: sr_reduce_def record_with_capacity_def record_new_def state_row_def Let_def)
qed

end

section \<open>Opening and folding\<close>

definition column_type :: "column_locate \<Rightarrow> schema \<Rightarrow> data_type option" where
  "column_type c s = (case to_column c s of Inr (_, f) \<Rightarrow> Some (f_data_type f) | Inl _ \<Rightarrow> None)"

text \<open>The descriptors a schema supports, and a schema whose type numbers are those of its fields.\<close>

fun descriptor_ok :: "schema \<Rightarrow> 'f::linorder aggregation_descriptor \<Rightarrow> bool" where
  "descriptor_ok s Desc_count \<longleftrightarrow> True"
| "descriptor_ok s (Desc_sum c) \<longleftrightarrow> column_type c s \<in> Some ` set value_agg_types"
| "descriptor_ok s (Desc_max c) \<longleftrightarrow> column_type c s \<in> Some ` set value_agg_types"
| "descriptor_ok s (Desc_min c) \<longleftrightarrow> column_type c s \<in> Some ` set value_agg_types"
| "descriptor_ok s (Desc_pct c scale) \<longleftrightarrow> column_type c s = Some Int64 \<and> scale \<noteq> [] \<and> sorted_wrt (<) scale"

definition schema_typed :: "(data_type \<Rightarrow> u8) \<Rightarrow> schema \<Rightarrow> bool" where
  "schema_typed type_id s \<longleftrightarrow> s_type_ids s = map (\<lambda>f. type_id (f_data_type f)) (s_fields s)"

lemma create_basic_agg_ok:
  assumes "column_type c s \<in> Some ` set value_agg_types"
  shows "\<exists>agg. rbind (to_column c s) (\<lambda>(index, f). create_basic_agg type_id index t f) = Inr agg
    \<and> agg_fits (map f_data_type (s_fields s)) agg \<and> f_type_id (agg_output_field agg) = type_id (agg_type_of agg)"
proof -
  from assms obtain i f where f: "to_column c s = Inr (i, f)" "f_data_type f \<in> set value_agg_types"
    by (auto simp: column_type_def split: sum.splits)
  have "create_basic_agg type_id i t f = Inr (basic_aggregation_new type_id (f_data_type f) i t f)"
    using f(2) by (auto simp: create_basic_agg_def value_agg_types_def Let_def)
  then show ?thesis using f to_columnD[OF f(1)] by (auto simp: basic_aggregation_new_def Let_def field_new_def)
qed

lemma to_aggregation_ok:
  assumes "descriptor_ok s d"
  shows "\<exists>agg. to_aggregation type_id s d = Inr agg \<and> agg_fits (map f_data_type (s_fields s)) agg
    \<and> f_type_id (agg_output_field agg) = type_id (agg_type_of agg)"
proof (cases d)
  case Desc_count
  then show ?thesis by (simp add: count_aggregation_new_def field_new_def)
next
  case (Desc_pct c scale)
  with assms obtain i f where f: "to_column c s = Inr (i, f)" "f_data_type f = Int64"
    by (auto simp: column_type_def split: sum.splits)
  then show ?thesis using Desc_pct assms to_columnD[OF f(1)] by (auto simp: pct_aggregation_new_def Let_def field_new_def)
qed (use assms in \<open>simp_all add: create_basic_agg_ok del: image_iff\<close>)

lemma agg_schema_ok:
  assumes "\<forall>d\<in>set (sr_agg_descriptors fn). descriptor_ok s d"
  shows "\<exists>aggs len. agg_schema type_id fn s = Inr (aggs, map agg_output_field aggs, len)
    \<and> list_all2 (\<lambda>d agg. to_aggregation type_id s d = Inr agg \<and> agg_fits (map f_data_type (s_fields s)) agg
        \<and> f_type_id (agg_output_field agg) = type_id (agg_type_of agg)) (sr_agg_descriptors fn) aggs"
proof -
  let ?f = "\<lambda>agg_descriptor (aggs, fs, len). rbind (to_aggregation type_id s agg_descriptor) (\<lambda>agg.
     Inr (aggs @ [agg], fs @ [agg_output_field agg], len + agg_len agg))"
  let ?R = "\<lambda>d agg. to_aggregation type_id s d = Inr agg \<and> agg_fits (map f_data_type (s_fields s)) agg
        \<and> f_type_id (agg_output_field agg) = type_id (agg_type_of agg)"
  have "\<forall>d\<in>set ds. descriptor_ok s d \<Longrightarrow>
     \<exists>new n. fold_res ?f ds (aggs, fs, len) = Inr (aggs @ new, fs @ map agg_output_field new, n) \<and> list_all2 ?R ds new" for ds aggs fs len
  proof (induction ds arbitrary: aggs fs len)
    case Nil
    then show ?case by simp
  next
    case (Cons d ds)
    then obtain agg where agg: "?R d agg" using to_aggregation_ok[of s d type_id] by auto
    obtain new n where "fold_res ?f ds (aggs @ [agg], fs @ [agg_output_field agg], len + agg_len agg)
       = Inr ((aggs @ [agg]) @ new, (fs @ [agg_output_field agg]) @ map agg_output_field new, n)" "list_all2 ?R ds new"
      using Cons.IH[of "aggs @ [agg]" "fs @ [agg_output_field agg]" "len + agg_len agg"] Cons.prems by auto
    then show ?case using agg by (intro exI[of _ "agg # new"] exI[of _ n]) simp
  qed
  from this[OF assms, of "[]" "[]" 0] show ?thesis by (auto simp: agg_schema_def)
qed

text \<open>Opening succeeds and makes the function ready for the schema, in the order of the descriptors.\<close>

lemma sr_open_ready:
  assumes "\<forall>d\<in>set descs. descriptor_ok s d" "schema_typed type_id s"
  shows "\<exists>fn. sr_open type_id (Single s) (schema_reduce_function_new descs par) = Inr fn
    \<and> ready type_id (map f_data_type (s_fields s)) fn \<and> sr_schema fn = s
    \<and> sr_schema_of type_id fn (Single s) = Inr (Single (sr_val_schema fn))
    \<and> list_all2 (\<lambda>d agg. to_aggregation type_id s d = Inr agg) descs (sr_agg_operators fn)"
proof -
  let ?n = "schema_reduce_function_new descs par"
  let ?R = "\<lambda>d agg. to_aggregation type_id s d = Inr agg \<and> agg_fits (map f_data_type (s_fields s)) agg
        \<and> f_type_id (agg_output_field agg) = type_id (agg_type_of agg)"
  have ds: "sr_agg_descriptors ?n = descs" by (simp add: schema_reduce_function_new_def)
  obtain aggs len where a: "agg_schema type_id ?n s = Inr (aggs, map agg_output_field aggs, len)" "list_all2 ?R descs aggs"
    using agg_schema_ok[of ?n s type_id] assms(1) unfolding ds by blast
  have cong: "agg_schema type_id g s = Inr (aggs, map agg_output_field aggs, len)" if "sr_agg_descriptors g = descs" for g
    using a(1) that ds by (simp add: agg_schema_def)
  have l: "length descs = length aggs" using a(2) by (rule list_all2_lengthD)
  have ops: "list_all (agg_fits (map f_data_type (s_fields s))) aggs" "map (f_type_id \<circ> agg_output_field) aggs = map (\<lambda>agg. type_id (agg_type_of agg)) aggs"
    "list_all2 (\<lambda>d agg. to_aggregation type_id s d = Inr agg) descs aggs"
    using a(2) l by (simp_all add: list_all2_conv_all_nth list_all_length list_eq_iff_nth_eq del: map_eq_conv)
  show ?thesis
    by (intro exI[of _ "?n\<lparr>sr_schema := s, sr_val_schema := schema_new (map agg_output_field aggs), sr_val_len := len, sr_agg_operators := aggs\<rparr>"])
      (use ops assms(2) ds in \<open>simp add: sr_open_def sr_schema_of_def cong ready_def schema_typed_def schema_new_def Let_def\<close>)
qed

text \<open>
  The state of a key and window, as the windowed reduction keeps it: the first record gives the
  first state, every further record replaces it.
\<close>

definition reduce_all :: "'w serbuffer \<Rightarrow> float_ops \<Rightarrow> (int \<Rightarrow> 'f::linorder) \<Rightarrow> 'f schema_reduce_function
    \<Rightarrow> rlink_record list \<Rightarrow> rlink_record option res" where
  "reduce_all sb fo as_f64 fn rs =
     fold_res (\<lambda>r vo. rbind (sr_reduce sb fo as_f64 fn vo r) (\<lambda>(r', _). Inr (Some r'))) rs None"

context row_codec
begin

lemma reduce_all_columns:
  assumes rd: "ready (sb_type_id sb) ts fn"
    and rows: "list_all2 (\<lambda>row r. holds (s_type_ids (sr_schema fn)) row (rec_values r)) rows rs" "rs \<noteq> []"
  shows "\<exists>out vals. reduce_all sb fo as_f64 fn rs = Inr (Some out) \<and> state_row holds fn out vals
    \<and> list_all2 (\<lambda>agg v. column_result fo as_f64 agg rows v) (sr_agg_operators fn) vals"
  using rows
proof (induction rs arbitrary: rows rule: rev_induct)
  case Nil
  then show ?case by simp
next
  case (snoc r rs)
  let ?ops = "sr_agg_operators fn"
  obtain rows' row where r: "rows = rows' @ [row]" "list_all2 (\<lambda>row r. holds (s_type_ids (sr_schema fn)) row (rec_values r)) rows' rs"
    "holds (s_type_ids (sr_schema fn)) row (rec_values r)"
    using snoc.prems(1) by (auto simp: list_all2_append2 list_all2_Cons2)
  have row: "map value_type row = ts" using row_types[of ts row "rec_values r"] r(3) rd by (simp add: ready_def)
  have fits: "agg_fits ts (?ops ! k)" if "k < length ?ops" for k using rd that by (simp add: ready_def list_all_length)
  obtain vo vals where st: "reduce_all sb fo as_f64 fn rs = Inr vo" "rel_option (state_row holds fn) vo vals"
    and prev: "case vals of None \<Rightarrow> rows' = [] | Some vs \<Rightarrow> rows' \<noteq> [] \<and> list_all2 (\<lambda>agg v. column_result fo as_f64 agg rows' v) ?ops vs"
  proof (cases "rs = []")
    case True
    then show ?thesis using r(2) that[of None None] by (simp add: reduce_all_def)
  next
    case False
    then obtain out vs where "reduce_all sb fo as_f64 fn rs = Inr (Some out)" "state_row holds fn out vs"
      "list_all2 (\<lambda>agg v. column_result fo as_f64 agg rows' v) ?ops vs" using snoc.IH[OF r(2)] by blast
    moreover have "rows' \<noteq> []" using False r(2) by auto
    ultimately show ?thesis using that[of "Some out" "Some vs"] by simp
  qed
  let ?nv = "next_value fo as_f64 fn row vals"
  let ?out = "map ?nv [0..<length ?ops]"
  obtain r' vo' where red: "sr_reduce sb fo as_f64 fn vo r = Inr (r', vo')" "state_row holds fn r' ?out"
    using sr_reduce_row[OF rd r(3) st(2), of fo as_f64] by blast
  have ok: "list_all2 agg_value_ok ?ops vs" if "vals = Some vs" for vs using st(2) that by (cases vo) (auto simp: state_row_def)
  have "column_result fo as_f64 (?ops ! k) rows (?nv k)" if k: "k < length ?ops" for k
  proof -
    note nv = next_value_ok[OF rd k row, of vals fo as_f64, OF ok]
    show ?thesis
    proof (cases vals)
      case None
      then show ?thesis using first_result[OF fits[OF k], of fo as_f64 row] nv prev r(1) by simp
    next
      case (Some vs)
      have "column_result fo as_f64 (?ops ! k) rows' (vs ! k)" "agg_value_ok (?ops ! k) (vs ! k)" "rows' \<noteq> []"
        using Some prev ok[OF Some] k by (simp_all add: list_all2_conv_all_nth)
      then show ?thesis using next_result[OF fits[OF k] row, of rows' fo as_f64 "vs ! k" "?nv k"] nv r(1) Some by simp
    qed
  qed
  then have "list_all2 (\<lambda>agg v. column_result fo as_f64 agg rows v) ?ops ?out" by (simp add: list_all2_conv_all_nth)
  moreover have "reduce_all sb fo as_f64 fn (rs @ [r]) = Inr (Some r')" using st(1) red(1) by (simp add: reduce_all_def fold_res_append)
  ultimately show ?case using red(2) by blast
qed

end

section \<open>The theorems\<close>

text \<open>
  C34: aggregation by columns is well typed.  On a schema that has the columns of the
  descriptors with types the aggregations support, opening the function succeeds and announces
  the output schema; then \<open>reduce\<close> never panics on a row of the input schema, with or without a
  state, and returns a row of the output schema that can be the next state.
\<close>

theorem schema_reduce_typed:
  fixes as_f64 :: "int \<Rightarrow> 'f::linorder"
  assumes codec: "row_codec sb pending holds raw"
    and s: "schema_typed (sb_type_id sb) s" "\<forall>d\<in>set descs. descriptor_ok s d"
  shows "\<exists>fn. sr_open (sb_type_id sb) (Single s) (schema_reduce_function_new descs par) = Inr fn
    \<and> sr_schema_of (sb_type_id sb) fn (Single s) = Inr (Single (sr_val_schema fn))
    \<and> (\<forall>row r vo vals. holds (s_type_ids s) row (rec_values r) \<longrightarrow> rel_option (state_row holds fn) vo vals \<longrightarrow>
        (\<exists>r' vo' out. sr_reduce sb fo as_f64 fn vo r = Inr (r', vo') \<and> state_row holds fn r' out))"
proof -
  obtain fn where fn: "sr_open (sb_type_id sb) (Single s) (schema_reduce_function_new descs par) = Inr fn"
    "ready (sb_type_id sb) (map f_data_type (s_fields s)) fn" "sr_schema fn = s"
    "sr_schema_of (sb_type_id sb) fn (Single s) = Inr (Single (sr_val_schema fn))"
    using sr_open_ready[OF s(2,1)] by blast
  show ?thesis using fn row_codec.sr_reduce_row[OF codec fn(2), unfolded fn(3)] by blast
qed

definition witness_schema :: schema where
  "witness_schema = schema_new [field_new plain_type_id ''k'' String, field_new plain_type_id ''v'' Int64]"

definition witness_record :: "u64 \<Rightarrow> rlink_record" where
  "witness_record n = record_new\<lparr>rec_values := enc_row [VString [1, 2], VI64 n]\<rparr>"

definition witness_descriptors :: "int aggregation_descriptor list" where
  "witness_descriptors = [Desc_count, Desc_sum (Name ''v''), Desc_max (Index 1), Desc_min (Index 1), Desc_pct (Name ''v'') [10, 20]]"

definition witness_floats :: float_ops where
  "witness_floats = \<lparr>f32_add = (+), f32_gt = (>), f64_add = (+), f64_gt = (>)\<rparr>"

lemma witness_ok:
  "schema_typed (sb_type_id plain_serbuffer) witness_schema" "\<forall>d\<in>set witness_descriptors. descriptor_ok witness_schema d"
  "plain_holds (s_type_ids witness_schema) [VString [1, 2], VI64 n] (rec_values (witness_record n))"
  by (simp_all add: schema_typed_def witness_schema_def schema_new_def field_new_def plain_serbuffer_def witness_descriptors_def
      column_type_def schema_get_field_def column_with_name_def value_agg_types_def plain_holds_def witness_record_def)

lemma plain_ids: "sb_type_id plain_serbuffer = plain_type_id"
  by (simp add: plain_serbuffer_def)

theorem schema_reduce_typed_witness:
  "\<exists>fn. sr_open plain_type_id (Single witness_schema) (schema_reduce_function_new witness_descriptors 2) = Inr fn
     \<and> (\<exists>r' vo' out. sr_reduce plain_serbuffer witness_floats (\<lambda>n. n) fn None (witness_record 7) = Inr (r', vo') \<and> state_row plain_holds fn r' out)"
  using schema_reduce_typed[OF plain_rows.row_codec_axioms witness_ok(1,2), of 2 witness_floats "\<lambda>n. n"] witness_ok(3)[of 7]
    option.rel_intros(1) unfolding plain_ids by blast

text \<open>
  C33: aggregation by columns computes what the descriptors ask for.  Folding \<open>reduce\<close> over
  records of the input schema, each result being the state for the next record, gives a record of
  the output schema that has in the column of each descriptor the number of the records, the sum
  of a column modulo the width of its type, a largest or smallest value of the column, or the
  percentile counters of its values.
\<close>

theorem schema_reduce_columns:
  fixes as_f64 :: "int \<Rightarrow> 'f::linorder"
  assumes codec: "row_codec sb pending holds raw"
    and s: "schema_typed (sb_type_id sb) s" "\<forall>d\<in>set descs. descriptor_ok s d"
    and rows: "list_all2 (\<lambda>row r. holds (s_type_ids s) row (rec_values r)) rows rs" "rs \<noteq> []"
  shows "\<exists>fn out vals. sr_open (sb_type_id sb) (Single s) (schema_reduce_function_new descs par) = Inr fn
    \<and> reduce_all sb fo as_f64 fn rs = Inr (Some out) \<and> holds (s_type_ids (sr_val_schema fn)) vals (rec_values out)
    \<and> list_all2 (\<lambda>d v. \<exists>agg. to_aggregation (sb_type_id sb) s d = Inr agg \<and> column_result fo as_f64 agg rows v) descs vals"
proof -
  obtain fn where fn: "sr_open (sb_type_id sb) (Single s) (schema_reduce_function_new descs par) = Inr fn"
    "ready (sb_type_id sb) (map f_data_type (s_fields s)) fn" "sr_schema fn = s"
    "list_all2 (\<lambda>d agg. to_aggregation (sb_type_id sb) s d = Inr agg) descs (sr_agg_operators fn)"
    using sr_open_ready[OF s(2,1)] by blast
  obtain out vals where out: "reduce_all sb fo as_f64 fn rs = Inr (Some out)" "state_row holds fn out vals"
    "list_all2 (\<lambda>agg v. column_result fo as_f64 agg rows v) (sr_agg_operators fn) vals"
    using row_codec.reduce_all_columns[OF codec fn(2), of rows rs fo as_f64] rows fn(3) by blast
  have "list_all2 (\<lambda>d v. \<exists>agg. to_aggregation (sb_type_id sb) s d = Inr agg \<and> column_result fo as_f64 agg rows v) descs vals"
    by (rule list_all2_trans[OF _ fn(4) out(3)]) blast
  then show ?thesis using fn(1) out(1,2) by (auto simp: state_row_def)
qed

theorem schema_reduce_columns_witness:
  "\<exists>fn out vals. sr_open plain_type_id (Single witness_schema) (schema_reduce_function_new witness_descriptors 2) = Inr fn
     \<and> reduce_all plain_serbuffer witness_floats (\<lambda>n. n) fn [witness_record 7, witness_record 12] = Inr (Some out)
     \<and> plain_holds (s_type_ids (sr_val_schema fn)) vals (rec_values out) \<and> vals ! 0 = VU64 2"
proof -
  let ?rows = "[[VString [1, 2], VI64 7], [VString [1, 2], VI64 12]]"
  have rows: "list_all2 (\<lambda>row r. plain_holds (s_type_ids witness_schema) row (rec_values r)) ?rows [witness_record 7, witness_record 12]"
    using witness_ok(3) by simp
  obtain fn out vals where w: "sr_open plain_type_id (Single witness_schema) (schema_reduce_function_new witness_descriptors 2) = Inr fn"
    "reduce_all plain_serbuffer witness_floats (\<lambda>n. n) fn [witness_record 7, witness_record 12] = Inr (Some out)"
    "plain_holds (s_type_ids (sr_val_schema fn)) vals (rec_values out)"
    "list_all2 (\<lambda>d v. \<exists>agg. to_aggregation plain_type_id witness_schema d = Inr agg \<and> column_result witness_floats (\<lambda>n. n) agg ?rows v)
       witness_descriptors vals"
    using schema_reduce_columns[OF plain_rows.row_codec_axioms witness_ok(1,2) rows, of 2 witness_floats "\<lambda>n. n"]
    unfolding plain_ids by blast
  have "0 < length witness_descriptors" "witness_descriptors ! 0 = Desc_count" by (simp_all add: witness_descriptors_def)
  then have "vals ! 0 = VU64 2" using w(4) by (auto simp: list_all2_conv_all_nth count_aggregation_new_def dest!: spec[of _ 0])
  then show ?thesis using w(1-3) by blast
qed

end
