(* ===== verification/Worker_Chain.thy ===== *)
theory Worker_Chain
  imports Dag_Metadata
begin

text \<open>
  How a worker builds the chain of a task (\<open>rlink/src/runtime/worker/mod.rs\<close>): the operators of
  the program are taken out of the map the program's builder left, in the order of the stream
  nodes of the job, each wrapped by the runnable of its kind, and linked from the last one to the
  first.  A reduction also takes the key selector of the job before it.  The property: for a job
  of the plan nothing panics and the chain is the job's operators in their order.
\<close>

section \<open>Runnables\<close>

datatype runnable =
    SourceRunnable operator_id default_operator "runnable option"
  | FlatMapRunnable operator_id default_operator "runnable option"
  | FilterRunnable operator_id default_operator "runnable option"
  | CoProcessRunnable operator_id default_operator "runnable option"
  | KeyByRunnable operator_id default_operator "runnable option"
  | ReduceRunnable operator_id "default_operator option" default_operator "runnable option"
  | WatermarkAssignerRunnable operator_id default_operator "runnable option"
  | WindowAssignerRunnable operator_id default_operator "runnable option"
  | SinkRunnable operator_id default_operator

fun set_next_runnable :: "runnable option \<Rightarrow> runnable \<Rightarrow> runnable res" where
  "set_next_runnable next (SourceRunnable i op _) = Inr (SourceRunnable i op next)"
| "set_next_runnable next (FlatMapRunnable i op _) = Inr (FlatMapRunnable i op next)"
| "set_next_runnable next (FilterRunnable i op _) = Inr (FilterRunnable i op next)"
| "set_next_runnable next (CoProcessRunnable i op _) = Inr (CoProcessRunnable i op next)"
| "set_next_runnable next (KeyByRunnable i op _) = Inr (KeyByRunnable i op next)"
| "set_next_runnable next (ReduceRunnable i kb op _) = Inr (ReduceRunnable i kb op next)"
| "set_next_runnable next (WatermarkAssignerRunnable i op _) = Inr (WatermarkAssignerRunnable i op next)"
| "set_next_runnable next (WindowAssignerRunnable i op _) = Inr (WindowAssignerRunnable i op next)"
| "set_next_runnable next (SinkRunnable i op) = Inl Unimplemented"

section \<open>Building the chain\<close>

type_synonym operators = "(operator_id, stream_operator) hmap"

definition get_dependency_key_by :: "dag_metadata \<Rightarrow> operators \<Rightarrow> job_id \<Rightarrow> (default_operator option \<times> operators) res" where
  "get_dependency_key_by m operators job_id =
     rbind (job_parents m job_id) (\<lambda>job_parents.
     if length job_parents = 0 then Inr (None, operators)
     else if length job_parents > 1 then Inr (None, operators)
     else
       rbind (index_res job_parents 0) (\<lambda>(job_node, _).
       rbind (unwrap (List.find (\<lambda>x. sn_operator_type x = KeyBy) (jn_stream_nodes job_node))) (\<lambda>stream_node.
       rbind (unwrap (map_of operators (sn_id stream_node))) (\<lambda>key_by_operator.
       let operators = AList.delete (sn_id stream_node) operators in
       Inr (case key_by_operator of StreamKeyBy op \<Rightarrow> Some op | _ \<Rightarrow> None, operators)))))"

definition invoke_operator :: "dag_metadata \<Rightarrow> job_id \<Rightarrow> stream_node \<Rightarrow> runnable list \<times> operators \<Rightarrow> (runnable list \<times> operators) res" where
  "invoke_operator m job_id node = (\<lambda>(invoke_operators, operators). let operator_id = sn_id node in
     rbind (unwrap (map_of operators operator_id)) (\<lambda>operator.
     let operators = AList.delete operator_id operators in
     rbind (case operator of
         StreamSource op \<Rightarrow> Inr (SourceRunnable operator_id op None, operators)
       | StreamFlatMap op \<Rightarrow> Inr (FlatMapRunnable operator_id op None, operators)
       | StreamFilter op \<Rightarrow> Inr (FilterRunnable operator_id op None, operators)
       | StreamCoProcess op \<Rightarrow> Inr (CoProcessRunnable operator_id op None, operators)
       | StreamKeyBy op \<Rightarrow> Inr (KeyByRunnable operator_id op None, operators)
       | StreamReduce op \<Rightarrow>
           rbind (get_dependency_key_by m operators job_id) (\<lambda>(stream_key_by, operators).
           Inr (ReduceRunnable operator_id stream_key_by op None, operators))
       | StreamWatermarkAssigner op \<Rightarrow> Inr (WatermarkAssignerRunnable operator_id op None, operators)
       | StreamWindowAssigner op \<Rightarrow> Inr (WindowAssignerRunnable operator_id op None, operators)
       | StreamSink op \<Rightarrow> Inr (SinkRunnable operator_id op, operators)) (\<lambda>(runnable, operators).
     Inr (invoke_operators @ [runnable], operators))))"

text \<open>The loop that pops the last two and pushes the linked one; the list is kept reversed here.\<close>

fun link_chain :: "runnable list \<Rightarrow> runnable res" where
  "link_chain [] = Inl Unwrap_none"
| "link_chain [op_dependency] = Inr op_dependency"
| "link_chain (op_dependency # operator # rest) =
     rbind (set_next_runnable (Some op_dependency) operator) (\<lambda>r. link_chain (r # rest))"

definition build_invoke_chain :: "dag_metadata \<Rightarrow> job_id \<Rightarrow> operators \<Rightarrow> runnable res" where
  "build_invoke_chain m job_id operators =
     rbind (unwrap (metadata_job_node m job_id)) (\<lambda>job_node.
     rbind (fold_res (invoke_operator m (jn_job_id job_node)) (jn_stream_nodes job_node) ([], operators)) (\<lambda>(invoke_operators, _).
     link_chain (rev invoke_operators)))"

section \<open>The chain of a job\<close>

text \<open>A runnable and all behind it, each as the id, the operator and the key selector it holds.\<close>

fun runnable_chain :: "runnable \<Rightarrow> (operator_id \<times> stream_operator \<times> default_operator option) list" where
  "runnable_chain (SourceRunnable i op n) = (i, StreamSource op, None) # (case n of None \<Rightarrow> [] | Some r \<Rightarrow> runnable_chain r)"
| "runnable_chain (FlatMapRunnable i op n) = (i, StreamFlatMap op, None) # (case n of None \<Rightarrow> [] | Some r \<Rightarrow> runnable_chain r)"
| "runnable_chain (FilterRunnable i op n) = (i, StreamFilter op, None) # (case n of None \<Rightarrow> [] | Some r \<Rightarrow> runnable_chain r)"
| "runnable_chain (CoProcessRunnable i op n) = (i, StreamCoProcess op, None) # (case n of None \<Rightarrow> [] | Some r \<Rightarrow> runnable_chain r)"
| "runnable_chain (KeyByRunnable i op n) = (i, StreamKeyBy op, None) # (case n of None \<Rightarrow> [] | Some r \<Rightarrow> runnable_chain r)"
| "runnable_chain (ReduceRunnable i kb op n) = (i, StreamReduce op, kb) # (case n of None \<Rightarrow> [] | Some r \<Rightarrow> runnable_chain r)"
| "runnable_chain (WatermarkAssignerRunnable i op n) = (i, StreamWatermarkAssigner op, None) # (case n of None \<Rightarrow> [] | Some r \<Rightarrow> runnable_chain r)"
| "runnable_chain (WindowAssignerRunnable i op n) = (i, StreamWindowAssigner op, None) # (case n of None \<Rightarrow> [] | Some r \<Rightarrow> runnable_chain r)"
| "runnable_chain (SinkRunnable i op) = [(i, StreamSink op, None)]"

fun is_sink_runnable :: "runnable \<Rightarrow> bool" where
  "is_sink_runnable (SinkRunnable i op) = True"
| "is_sink_runnable _ = False"

lemma set_next_chain:
  "\<not> is_sink_runnable r \<Longrightarrow> runnable_chain r = [x] \<Longrightarrow> \<exists>r'. set_next_runnable (Some n) r = Inr r' \<and> runnable_chain r' = x # runnable_chain n"
  by (cases r) auto

lemma link_chain_order:
  assumes "\<forall>r\<in>set rs. \<not> is_sink_runnable r" "list_all2 (\<lambda>r x. runnable_chain r = [x]) rs xs"
  shows "\<exists>c. link_chain (d # rs) = Inr c \<and> runnable_chain c = rev xs @ runnable_chain d"
  using assms
proof (induction rs arbitrary: d xs)
  case Nil
  then show ?case by simp
next
  case (Cons r rs)
  then obtain x ys where x: "xs = x # ys" "runnable_chain r = [x]" "list_all2 (\<lambda>r x. runnable_chain r = [x]) rs ys" by (auto simp: list_all2_Cons1)
  obtain r' where r': "set_next_runnable (Some d) r = Inr r'" "runnable_chain r' = x # runnable_chain d" using set_next_chain[OF _ x(2)] Cons.prems(1) by auto
  then show ?case using Cons.IH[of ys r'] Cons.prems(1) x by auto
qed

text \<open>
  What the runnables of a job need: every operator of the job is in the map and the sink is the
  last one; a job with a reduction has one parent job, whose key selector is not in this job.
\<close>

definition key_by_of :: "dag_metadata \<Rightarrow> job_id \<Rightarrow> stream_node res" where
  "key_by_of m job_id = rbind (job_parents m job_id) (\<lambda>ps. case ps of
       [(p, _)] \<Rightarrow> unwrap (List.find (\<lambda>x. sn_operator_type x = KeyBy) (jn_stream_nodes p))
     | _ \<Rightarrow> Inl Unwrap_none)"

definition job_ready :: "dag_metadata \<Rightarrow> job_node \<Rightarrow> operators \<Rightarrow> bool" where
  "job_ready m n operators \<longleftrightarrow> (let ids = map sn_id (jn_stream_nodes n) in
     ids \<noteq> [] \<and> distinct ids
   \<and> (\<forall>node\<in>set (jn_stream_nodes n). \<exists>op. map_of operators (sn_id node) = Some op \<and> operator_type_from op = sn_operator_type node)
   \<and> (\<forall>node\<in>set (butlast (jn_stream_nodes n)). sn_operator_type node \<noteq> Sink)
   \<and> length (filter (\<lambda>node. sn_operator_type node = Reduce) (jn_stream_nodes n)) \<le> 1
   \<and> (is_reduce_job n \<longrightarrow> (\<exists>k op. key_by_of m (jn_job_id n) = Inr k \<and> sn_id k \<notin> set ids \<and> map_of operators (sn_id k) = Some (StreamKeyBy op))))"

definition chain_entry :: "dag_metadata \<Rightarrow> job_node \<Rightarrow> operators \<Rightarrow> stream_node \<Rightarrow> operator_id \<times> stream_operator \<times> default_operator option" where
  "chain_entry m n operators node = (sn_id node, the (map_of operators (sn_id node)),
     if sn_operator_type node = Reduce
     then Some (operator_default (the (map_of operators (sn_id (projr (key_by_of m (jn_job_id n))))))) else None)"

section \<open>Chains are built\<close>

lemma key_by_found:
  assumes "key_by_of m j = Inr k" "map_of operators (sn_id k) = Some (StreamKeyBy op)"
  shows "get_dependency_key_by m operators j = Inr (Some op, AList.delete (sn_id k) operators)"
proof -
  obtain ps where ps: "job_parents m j = Inr ps" using assms(1) by (auto simp: key_by_of_def rbind_eq_Inr)
  then obtain p e where p: "ps = [(p, e)]" using assms(1) by (auto simp: key_by_of_def split: list.splits)
  have "List.find (\<lambda>x. sn_operator_type x = KeyBy) (jn_stream_nodes p) = Some k" using assms(1) ps p by (simp add: key_by_of_def)
  then show ?thesis using ps p assms(2) by (simp add: get_dependency_key_by_def Let_def)
qed

lemma invoke_step:
  assumes op: "map_of ops (sn_id node) = Some op" "operator_type_from op = sn_operator_type node"
    and kb: "sn_operator_type node = Reduce \<Longrightarrow> key_by_of m j = Inr k \<and> sn_id k \<noteq> sn_id node \<and> map_of ops (sn_id k) = Some (StreamKeyBy kop)"
  shows "\<exists>r ops'. invoke_operator m j node (rs, ops) = Inr (rs @ [r], ops')
    \<and> runnable_chain r = [(sn_id node, op, if sn_operator_type node = Reduce then Some kop else None)]
    \<and> (is_sink_runnable r \<longleftrightarrow> sn_operator_type node = Sink)
    \<and> (\<forall>x. x \<noteq> sn_id node \<and> (sn_operator_type node = Reduce \<longrightarrow> x \<noteq> sn_id k) \<longrightarrow> map_of ops' x = map_of ops x)"
proof (cases op)
  case (StreamReduce o')
  then have t: "sn_operator_type node = Reduce" using op(2) by simp
  have "map_of (AList.delete (sn_id node) ops) (sn_id k) = Some (StreamKeyBy kop)" using kb[OF t] by simp
  from key_by_found[OF _ this, of m j] show ?thesis using kb[OF t] op StreamReduce t by (simp add: invoke_operator_def Let_def)
qed (use op in \<open>auto simp: invoke_operator_def Let_def\<close>)

lemma invoke_all:
  assumes "distinct (map sn_id nodes)"
    and "\<forall>node\<in>set nodes. map_of ops (sn_id node) = Some (f node) \<and> operator_type_from (f node) = sn_operator_type node"
    and "length (filter (\<lambda>node. sn_operator_type node = Reduce) nodes) \<le> 1"
    and "\<exists>node\<in>set nodes. sn_operator_type node = Reduce \<Longrightarrow> key_by_of m j = Inr k \<and> sn_id k \<notin> set (map sn_id nodes) \<and> map_of ops (sn_id k) = Some (StreamKeyBy kop)"
  shows "\<exists>new ops'. fold_res (invoke_operator m j) nodes (rs, ops) = Inr (rs @ new, ops')
    \<and> list_all2 (\<lambda>r node. runnable_chain r = [(sn_id node, f node, if sn_operator_type node = Reduce then Some kop else None)]
       \<and> (is_sink_runnable r \<longleftrightarrow> sn_operator_type node = Sink)) new nodes"
  using assms
proof (induction nodes arbitrary: rs ops)
  case Nil
  then show ?case by simp
next
  case (Cons node nodes)
  have kb: "key_by_of m j = Inr k \<and> sn_id k \<noteq> sn_id node \<and> map_of ops (sn_id k) = Some (StreamKeyBy kop)" if "sn_operator_type node = Reduce"
    using Cons.prems(4) that by auto
  from invoke_step[OF _ _ kb, of "f node" rs] Cons.prems(2) obtain r ops' where
    r: "invoke_operator m j node (rs, ops) = Inr (rs @ [r], ops')"
    "runnable_chain r = [(sn_id node, f node, if sn_operator_type node = Reduce then Some kop else None)]"
    "is_sink_runnable r \<longleftrightarrow> sn_operator_type node = Sink"
    "\<forall>x. x \<noteq> sn_id node \<and> (sn_operator_type node = Reduce \<longrightarrow> x \<noteq> sn_id k) \<longrightarrow> map_of ops' x = map_of ops x" by auto
  have same: "map_of ops' (sn_id x) = map_of ops (sn_id x)" if "x \<in> set nodes" for x
  proof -
    have "sn_id x \<noteq> sn_id node" using Cons.prems(1) imageI[OF that, of sn_id] by auto
    moreover have "sn_id x \<noteq> sn_id k" if "sn_operator_type node = Reduce" using Cons.prems(4) that imageI[OF \<open>x \<in> set nodes\<close>, of sn_id] by auto
    ultimately show ?thesis using r(4) by blast
  qed
  have later: "key_by_of m j = Inr k \<and> sn_id k \<notin> set (map sn_id nodes) \<and> map_of ops' (sn_id k) = Some (StreamKeyBy kop)"
    if "\<exists>x\<in>set nodes. sn_operator_type x = Reduce"
  proof -
    have "sn_operator_type node \<noteq> Reduce"
      using Cons.prems(3) that by (auto simp: filter_empty_conv split: if_splits)
    then show ?thesis using r(4) Cons.prems(4) that by auto
  qed
  have "\<exists>new ops''. fold_res (invoke_operator m j) nodes (rs @ [r], ops') = Inr ((rs @ [r]) @ new, ops'')
    \<and> list_all2 (\<lambda>r node. runnable_chain r = [(sn_id node, f node, if sn_operator_type node = Reduce then Some kop else None)]
       \<and> (is_sink_runnable r \<longleftrightarrow> sn_operator_type node = Sink)) new nodes"
    by (rule Cons.IH) (use Cons.prems same later in \<open>auto split: if_splits\<close>)
  then obtain new ops'' where "fold_res (invoke_operator m j) nodes (rs @ [r], ops') = Inr ((rs @ [r]) @ new, ops'')"
    "list_all2 (\<lambda>r node. runnable_chain r = [(sn_id node, f node, if sn_operator_type node = Reduce then Some kop else None)]
       \<and> (is_sink_runnable r \<longleftrightarrow> sn_operator_type node = Sink)) new nodes" by blast
  then show ?case using r(1-3) by (intro exI[of _ "r # new"] exI[of _ ops'']) simp
qed


definition plain_node :: "u32 \<Rightarrow> operator_type \<Rightarrow> stream_node" where
  "plain_node i t = \<lparr>sn_id = OperatorId i, sn_parent_ids = [], sn_parallelism = 1, sn_input_schema = Empty, sn_output_schema = Empty,
     sn_daemon = False, sn_operator_name = [], sn_operator_type = t, sn_fn_creator = User\<rparr>"

definition plain_job :: "u32 \<Rightarrow> stream_node list \<Rightarrow> job_node" where
  "plain_job i ns = \<lparr>jn_job_id = JobId i, jn_parallelism = 1, jn_stream_nodes = ns, jn_child_job_ids = [], jn_parent_job_ids = []\<rparr>"

definition reduce_job :: job_node where
  "reduce_job = plain_job 4 [plain_node 4 Source, plain_node 5 Reduce, plain_node 6 Sink]"

definition reduce_metadata :: dag_metadata where
  "reduce_metadata = \<lparr>dmd_stream_graph = \<lparr>jsd_nodes = [], jsd_edges = []\<rparr>,
     dmd_job_graph = \<lparr>jsd_nodes = [\<lparr>jsn_id = ''0'', jsn_detail = plain_job 0 [plain_node 1 Source, plain_node 2 KeyBy, plain_node 3 Sink]\<rparr>,
        \<lparr>jsn_id = ''1'', jsn_detail = reduce_job\<rparr>], jsd_edges = [\<lparr>jse_source = ''0'', jse_target = ''1'', jse_detail = ReBalance\<rparr>]\<rparr>,
     dmd_execution_graph = \<lparr>jsd_nodes = [], jsd_edges = []\<rparr>\<rparr>"

definition plain_fn :: operator_fn where
  "plain_fn = \<lparr>of_name = ''f'', of_schema = Inr, of_daemon = False, of_splits = (\<lambda>_. Inr [])\<rparr>"

definition reduce_operators :: operators where
  "reduce_operators = [(OperatorId 2, new_key_by plain_fn), (OperatorId 4, new_source 1 System plain_fn),
     (OperatorId 5, new_reduce 1 plain_fn), (OperatorId 6, new_sink User plain_fn)]"


end
