(* ===== verification/Builtin_Functions.thy ===== *)
theory Builtin_Functions
  imports System_IO
begin

text \<open>
  The functions the library brings along: broadcast and round robin
  (\<open>rlink/src/functions/flat_map\<close>), the filter by windows (\<open>functions/filter\<close>), the source over
  a list (\<open>functions/source/vec_input_format.rs\<close>), and the window timer
  (\<open>rlink/src/runtime/timer.rs\<close>).  The properties: every record of the list is read by exactly one
  task, round robin deals records evenly, and a timer ticks once per window unless its channel is
  full.
\<close>

section \<open>Broadcast and round robin\<close>

record broadcast_flat_map =
  bm_child_job_parallelism :: u16

definition broadcast_new :: broadcast_flat_map where
  "broadcast_new = \<lparr>bm_child_job_parallelism = 0\<rparr>"

definition broadcast_open :: "function_context \<Rightarrow> broadcast_flat_map \<Rightarrow> broadcast_flat_map" where
  "broadcast_open context f = f\<lparr>bm_child_job_parallelism := of_nat (length (fc_children context))\<rparr>"

definition broadcast_flat_map_run :: "broadcast_flat_map \<Rightarrow> rlink_record \<Rightarrow> rlink_record list" where
  "broadcast_flat_map_run f r = map (\<lambda>partition_num. r\<lparr>rec_partition_num := of_nat partition_num\<rparr>) [0..<unat (bm_child_job_parallelism f)]"

record round_robin_flat_map =
  rm_child_job_parallelism :: u16
  rm_partition_num :: u16

definition round_robin_new :: round_robin_flat_map where
  "round_robin_new = \<lparr>rm_child_job_parallelism = 0, rm_partition_num = 0\<rparr>"

definition round_robin_open :: "function_context \<Rightarrow> round_robin_flat_map \<Rightarrow> round_robin_flat_map" where
  "round_robin_open context f = f\<lparr>rm_child_job_parallelism := of_nat (length (fc_children context))\<rparr>"

definition round_robin_flat_map_run :: "round_robin_flat_map \<Rightarrow> rlink_record \<Rightarrow> rlink_record list \<times> round_robin_flat_map" where
  "round_robin_flat_map_run f r =
     (let f = (if rm_partition_num f = rm_child_job_parallelism f then f\<lparr>rm_partition_num := 0\<rparr> else f);
        r = r\<lparr>rec_partition_num := rm_partition_num f\<rparr>;
        f = f\<lparr>rm_partition_num := rm_partition_num f + 1\<rparr> in ([r], f))"

fun round_robin_all :: "round_robin_flat_map \<Rightarrow> rlink_record list \<Rightarrow> rlink_record list" where
  "round_robin_all f [] = []"
| "round_robin_all f (r # rs) = (let (out, f) = round_robin_flat_map_run f r in out @ round_robin_all f rs)"

section \<open>Filter by windows\<close>

record range_window_filter =
  rf_window_start_timestamp :: u64
  rf_window_stop_timestamp :: u64

definition range_window_filter_new :: "u64 \<Rightarrow> u64 \<Rightarrow> range_window_filter" where
  "range_window_filter_new start stop = \<lparr>rf_window_start_timestamp = start, rf_window_stop_timestamp = stop\<rparr>"

definition range_window_filter_run :: "range_window_filter \<Rightarrow> rlink_record \<Rightarrow> bool" where
  "range_window_filter_run f r = (case rec_trigger_window r of
       Some window \<Rightarrow> \<not> (min_timestamp window < rf_window_start_timestamp f \<or> max_timestamp window > rf_window_stop_timestamp f)
     | None \<Rightarrow> True)"

definition range_window_filter_try_from :: "properties \<Rightarrow> range_window_filter" where
  "range_window_filter_try_from p =
     (let start = (case get_u64 ''begin'' p of Inr v \<Rightarrow> v | Inl _ \<Rightarrow> 0);
        stop = (case get_u64 ''end'' p of Inr v \<Rightarrow> v | Inl _ \<Rightarrow> - 1) in
      range_window_filter_new start stop)"

section \<open>A source over a list\<close>

text \<open>\<open>index as u16\<close> keeps the lower 16 bits of the position.\<close>

definition vec_source_data :: "rlink_record list \<Rightarrow> task_id \<Rightarrow> rlink_record list res" where
  "vec_source_data data t =
     (if t_num_tasks t = 1 then Inr data
      else if t_num_tasks t = 0 \<and> data \<noteq> [] then Inl Division_by_zero
      else Inr (concat (map (\<lambda>(index, r). if (of_nat index :: u16) mod t_num_tasks t = t_task_number t then [r] else [])
        (List.enumerate 0 data))))"

record iterator_input_format =
  if_parallelism :: u16
  if_vec_builder :: "(input_split \<Rightarrow> function_context \<Rightarrow> rlink_record list res) option"
  if_schema :: schema
  if_input_split :: "input_split option"
  if_context :: "function_context option"

definition iterator_input_format_new ::
  "(input_split \<Rightarrow> function_context \<Rightarrow> rlink_record list res) \<Rightarrow> schema \<Rightarrow> u16 \<Rightarrow> iterator_input_format" where
  "iterator_input_format_new vec_builder s parallelism = \<lparr>if_parallelism = parallelism, if_vec_builder = Some vec_builder,
     if_schema = s, if_input_split = None, if_context = None\<rparr>"

definition vec_source :: "rlink_record list \<Rightarrow> schema \<Rightarrow> u16 \<Rightarrow> iterator_input_format" where
  "vec_source data s parallelism =
     iterator_input_format_new (\<lambda>_ context. vec_source_data data (fc_task_id context)) s parallelism"

definition iterator_open :: "input_split \<Rightarrow> function_context \<Rightarrow> iterator_input_format \<Rightarrow> iterator_input_format" where
  "iterator_open input_split context f = f\<lparr>if_input_split := Some input_split, if_context := Some context\<rparr>"

definition iterator_record_iter :: "iterator_input_format \<Rightarrow> (rlink_record list \<times> iterator_input_format) res" where
  "iterator_record_iter f =
     rbind (unwrap (if_vec_builder f)) (\<lambda>vec_builder.
     rbind (unwrap (if_input_split f)) (\<lambda>input_split.
     rbind (unwrap (if_context f)) (\<lambda>context.
     rbind (vec_builder input_split context) (\<lambda>records.
     Inr (records, f\<lparr>if_vec_builder := None, if_input_split := None, if_context := None\<rparr>)))))"

section \<open>The window timer\<close>

text \<open>The queue of a timer channel holds one tick; \<open>try_send\<close> of the channel is a parameter.\<close>

record 'q timer_channel =
  tc_name :: string
  tc_queue :: 'q
  tc_interval :: duration
  tc_front_window :: u64

definition timer_channel_new :: "'q \<Rightarrow> string \<Rightarrow> duration \<Rightarrow> 'q timer_channel" where
  "timer_channel_new q name interval = \<lparr>tc_name = name, tc_queue = q, tc_interval = interval, tc_front_window = 0\<rparr>"

definition timer_window_start :: "u64 \<Rightarrow> u64 \<Rightarrow> u64 res" where
  "timer_window_start timestamp window_size =
     (let timestamp = as_i64 timestamp; window_size = as_i64 window_size in
      if window_size = 0 then Inl Division_by_zero
      else Inr (as_u64 (wrap_i64 (timestamp - rem_i64 (wrap_i64 (timestamp + window_size)) window_size))))"

definition check_channel :: "('q \<Rightarrow> u64 \<Rightarrow> 'q option) \<Rightarrow> u64 \<Rightarrow> 'q timer_channel \<Rightarrow> 'q timer_channel res" where
  "check_channel send ts tc =
     rbind (timer_window_start ts (of_nat (as_millis (tc_interval tc)))) (\<lambda>window_start.
     if window_start \<noteq> tc_front_window tc then
       let tc = tc\<lparr>tc_front_window := window_start\<rparr> in
       Inr (case send (tc_queue tc) window_start of Some q \<Rightarrow> tc\<lparr>tc_queue := q\<rparr> | None \<Rightarrow> tc)
     else Inr tc)"

definition check_window :: "('q \<Rightarrow> u64 \<Rightarrow> 'q option) \<Rightarrow> u64 \<Rightarrow> 'q timer_channel list \<Rightarrow> 'q timer_channel list res" where
  "check_window send ts tcs = fold_res (\<lambda>tc out. rbind (check_channel send ts tc) (\<lambda>tc. Inr (out @ [tc]))) tcs []"

section \<open>Broadcast and round robin reach the children\<close>

lemma round_robin_from:
  assumes "rm_child_job_parallelism f = n" "0 < unat n" "unat (rm_partition_num f) = k" "k \<le> unat n"
  shows "map (unat \<circ> rec_partition_num) (round_robin_all f rs) = map (\<lambda>i. (k + i) mod unat n) [0..<length rs]
    \<and> map rec_values (round_robin_all f rs) = map rec_values rs"
  using assms
proof (induction rs arbitrary: f k)
  case Nil
  then show ?case by simp
next
  case (Cons r rs)
  let ?p = "if k = unat n then 0 else k"
  let ?f = "f\<lparr>rm_partition_num := (if rm_partition_num f = n then 0 else rm_partition_num f) + 1\<rparr>"
  have eq: "rm_partition_num f = n \<longleftrightarrow> k = unat n" using Cons.prems(3) by (auto simp: word_unat_eq_iff)
  have small: "?p < unat n" using Cons.prems(2,4) by auto
  have lt: "unat n < 65536" using unsigned_less[of n, where 'a = nat] by simp
  have suc: "unat (rm_partition_num ?f) = Suc ?p"
  proof -
    have "unat (if rm_partition_num f = n then 0 else rm_partition_num f) = ?p" using eq Cons.prems(3) by simp
    then show ?thesis using small lt unat_add_lem[where x = "if rm_partition_num f = n then 0 else rm_partition_num f" and y = 1]
      by (simp add: take_bit_eq_mod)
  qed
  have run: "round_robin_flat_map_run f r = ([r\<lparr>rec_partition_num := if rm_partition_num f = n then 0 else rm_partition_num f\<rparr>], ?f)"
    using Cons.prems(1) by (simp add: round_robin_flat_map_run_def Let_def)
  have IH: "map (unat \<circ> rec_partition_num) (round_robin_all ?f rs) = map (\<lambda>i. (Suc ?p + i) mod unat n) [0..<length rs]
      \<and> map rec_values (round_robin_all ?f rs) = map rec_values rs"
    by (rule Cons.IH) (use suc small Cons.prems(1,2) in simp_all)
  have "(Suc ?p + i) mod unat n = (k + Suc i) mod unat n" for i by (cases "k = unat n") (simp_all add: mod_add_left_eq flip: add_Suc_right)
  moreover have "?p = k mod unat n" using Cons.prems(4) small by auto
  ultimately show ?case using run IH eq Cons.prems(3,4) by (simp add: upt_conv_Cons map_Suc_upt[symmetric] comp_def del: upt_Suc)
qed

section \<open>Every record is dealt once\<close>

text \<open>
  Round robin.  Opened below a job of \<open>n\<close> child tasks, the function gives the \<open>i\<close>-th record
  of a stream the partition \<open>i mod n\<close> and changes nothing else of its values.
\<close>

lemma round_robin_even:
  assumes "length (fc_children context) < 2 ^ 16" "fc_children context \<noteq> []"
  defines "n \<equiv> length (fc_children context)"
  shows "map (unat \<circ> rec_partition_num) (round_robin_all (round_robin_open context round_robin_new) rs) = map (\<lambda>i. i mod n) [0..<length rs]
    \<and> map rec_values (round_robin_all (round_robin_open context round_robin_new) rs) = map rec_values rs"
proof -
  let ?f = "round_robin_open context round_robin_new"
  have n: "unat (of_nat n :: u16) = n" using assms(1) by (simp add: n_def unat_of_nat take_bit_eq_mod)
  have f: "rm_child_job_parallelism ?f = of_nat n" "rm_partition_num ?f = 0" by (simp_all add: round_robin_open_def round_robin_new_def n_def)
  show ?thesis using round_robin_from[OF f(1), of 0 rs] n f(2) assms(2) by (simp add: n_def)
qed

lemma deal_mset:
  assumes "\<And>x. x \<in> set xs \<Longrightarrow> g x < (n :: nat)"
  shows "mset (concat (map (\<lambda>t. filter (\<lambda>x. g x = t) xs) [0..<n])) = mset xs"
  using assms
proof (induction n arbitrary: xs)
  case 0
  then show ?case by (cases xs) auto
next
  case (Suc n)
  have "filter (\<lambda>x. g x = t) xs = filter (\<lambda>x. g x = t) (filter (\<lambda>x. g x \<noteq> n) xs)" if "t < n" for t using that by (auto intro: filter_cong)
  then have "concat (map (\<lambda>t. filter (\<lambda>x. g x = t) xs) [0..<n]) = concat (map (\<lambda>t. filter (\<lambda>x. g x = t) (filter (\<lambda>x. g x \<noteq> n) xs)) [0..<n])"
    by (intro arg_cong[where f = concat] map_cong) auto
  moreover have "mset (concat (map (\<lambda>t. filter (\<lambda>x. g x = t) (filter (\<lambda>x. g x \<noteq> n) xs)) [0..<n])) = mset (filter (\<lambda>x. g x \<noteq> n) xs)"
    by (rule Suc.IH) (use Suc.prems in \<open>auto simp: less_Suc_eq\<close>)
  ultimately show ?case by (simp flip: filter_filter)
qed

text \<open>
  A source over a list.  For any number of tasks above 0 every task reads its part without a
  panic, and the parts of all tasks together are the records of the list, each exactly once; this
  holds beyond 65536 records too, where the position wraps.
\<close>

lemma vec_source_dealt:
  assumes "0 < n"
  shows "\<exists>parts. list_all2 (\<lambda>k part. vec_source_data data \<lparr>t_job_id = j, t_task_number = of_nat k, t_num_tasks = n\<rparr> = Inr part) [0..<unat n] parts
    \<and> mset (concat parts) = mset data"
proof (cases "n = 1")
  case True
  then show ?thesis by (intro exI[of _ "[data]"]) (simp add: vec_source_data_def)
next
  case False
  let ?g = "\<lambda>x. unat ((of_nat (fst x) :: u16) mod n)"
  let ?part = "\<lambda>k. map snd (filter (\<lambda>x. ?g x = k) (List.enumerate 0 data))"
  have n: "0 < unat n" using assms by (simp add: unat_gt_0 word_neq_0_conv)
  have "vec_source_data data \<lparr>t_job_id = j, t_task_number = of_nat k, t_num_tasks = n\<rparr> = Inr (?part k)" if "k < unat n" for k
  proof -
    have "unat (of_nat k :: u16) = k" using that unsigned_less[of n, where 'a = nat] by (simp add: unat_of_nat take_bit_eq_mod)
    then have "(of_nat i :: u16) mod n = of_nat k \<longleftrightarrow> unat ((of_nat i :: u16) mod n) = k" for i by (metis word_unat_eq_iff)
    moreover have "concat (map (\<lambda>(i, r). if P i then [r] else []) xs) = map snd (filter (\<lambda>x. P (fst x)) xs)" for P and xs :: "(nat \<times> rlink_record) list"
      by (induction xs) auto
    ultimately show ?thesis using False assms by (auto simp: vec_source_data_def)
  qed
  then have l: "list_all2 (\<lambda>k part. vec_source_data data \<lparr>t_job_id = j, t_task_number = of_nat k, t_num_tasks = n\<rparr> = Inr part) [0..<unat n] (map ?part [0..<unat n])"
    by (simp add: list_all2_conv_all_nth)
  have "?g x < unat n" for x using n by (simp add: unat_mod)
  then have "mset (concat (map (\<lambda>k. filter (\<lambda>x. ?g x = k) (List.enumerate 0 data)) [0..<unat n])) = mset (List.enumerate 0 data)"
    by (intro deal_mset)
  then have "mset (map snd (concat (map (\<lambda>k. filter (\<lambda>x. ?g x = k) (List.enumerate 0 data)) [0..<unat n]))) = mset (map snd (List.enumerate 0 data))"
    by (simp only: mset_map)
  then show ?thesis using l by (intro exI[of _ "map ?part [0..<unat n]"]) (simp add: map_concat comp_def)
qed

section \<open>Ticks\<close>

lemma timer_start_aligned:
  assumes "uint ts < 2 ^ 62" "0 < uint w" "uint w < 2 ^ 62"
  shows "timer_window_start ts w = Inr (word_of_int (uint ts - uint ts mod uint w))"
proof -
  have i: "as_i64 ts = uint ts" "as_i64 w = uint w" by (rule as_i64_small, use assms in simp)+
  have nn: "0 \<le> uint ts" "0 \<le> uint w" by simp_all
  have "0 \<le> uint ts + uint w" using nn by (rule add_nonneg_nonneg)
  then have "- (2 ^ 63) \<le> uint ts + uint w" by (rule order_trans[rotated]) simp
  moreover have "uint ts + uint w < 2 ^ 63" using assms by simp
  ultimately have "wrap_i64 (uint ts + uint w) = uint ts + uint w" by (rule wrap_i64_id)
  moreover have "rem_i64 (uint ts + uint w) (uint w) = uint ts mod uint w" using assms by (simp add: rem_i64_pos)
  moreover have "wrap_i64 (uint ts - uint ts mod uint w) = uint ts - uint ts mod uint w"
  proof (rule wrap_i64_id)
    have "uint ts mod uint w \<le> uint ts" "0 \<le> uint ts mod uint w" using assms by (simp_all add: zmod_le_nonneg_dividend)
    then have "0 \<le> uint ts - uint ts mod uint w" "uint ts - uint ts mod uint w \<le> uint ts" by simp_all
    then show "- (2 ^ 63) \<le> uint ts - uint ts mod uint w" "uint ts - uint ts mod uint w < 2 ^ 63"
      using assms(1) by (auto intro: order_trans[of _ 0] le_less_trans)
  qed
  ultimately show ?thesis using i assms(2) by (simp add: timer_window_start_def Let_def as_u64_def)
qed

text \<open>A channel is offered the start of a window once: a second check in the same window sends nothing.\<close>

lemma check_channel_once:
  assumes "check_channel send ts tc = Inr tc'" "timer_window_start ts' (of_nat (as_millis (tc_interval tc))) = timer_window_start ts (of_nat (as_millis (tc_interval tc)))"
  shows "check_channel send ts' tc' = Inr tc'"
proof -
  obtain ws where ws: "timer_window_start ts (of_nat (as_millis (tc_interval tc))) = Inr ws"
    using assms(1) by (auto simp: check_channel_def rbind_eq_Inr)
  have "tc_front_window tc' = ws \<and> tc_interval tc' = tc_interval tc"
    using assms(1) ws by (cases "ws = tc_front_window tc"; cases "send (tc_queue tc) ws") (auto simp: check_channel_def Let_def)
  then show ?thesis using assms(2) ws by (simp add: check_channel_def)
qed

end
