(* ===== verification/File_Sink.thy ===== *)
theory File_Sink
  imports System_IO
begin

text \<open>
  The file sink (\<open>rlink-connectors/connector-files/src\<close>): records are collected per path in
  blocks, a full block becomes a row group of a Parquet file in memory, and the bytes of a
  file that is large enough, or of all files at a checkpoint and at the end, go to a thread that
  writes them.  The \<open>parquet\<close> crate, the conversion of records into columns and the choice of the
  path are parameters.  The property: every record is in exactly one block of its path, in
  order; a file holds the last block sent for its path.
\<close>

section \<open>Blocks of columns\<close>

text \<open>Floating point numbers are their bit patterns, signed numbers the words of their two's complement.\<close>

datatype column_values =
    BoolValues "bool list"
  | Int32Values "u32 list"
  | Int64Values "u64 list"
  | Int96Values "96 word list"
  | FloatValues "u32 list"
  | DoubleValues "u64 list"
  | ByteArrayValues "u8 list list"
  | FixedLenByteArrayValues "u8 list list"

text \<open>The kinds of column writers of the crate.\<close>

datatype column_writer =
    BoolColumnWriter | Int32ColumnWriter | Int64ColumnWriter | Int96ColumnWriter
  | FloatColumnWriter | DoubleColumnWriter | ByteArrayColumnWriter | FixedLenByteArrayColumnWriter

fun column_matches :: "column_writer \<Rightarrow> column_values \<Rightarrow> bool" where
  "column_matches BoolColumnWriter v = (case v of BoolValues _ \<Rightarrow> True | _ \<Rightarrow> False)"
| "column_matches Int32ColumnWriter v = (case v of Int32Values _ \<Rightarrow> True | _ \<Rightarrow> False)"
| "column_matches Int64ColumnWriter v = (case v of Int64Values _ \<Rightarrow> True | _ \<Rightarrow> False)"
| "column_matches Int96ColumnWriter v = (case v of Int96Values _ \<Rightarrow> True | _ \<Rightarrow> False)"
| "column_matches FloatColumnWriter v = (case v of FloatValues _ \<Rightarrow> True | _ \<Rightarrow> False)"
| "column_matches DoubleColumnWriter v = (case v of DoubleValues _ \<Rightarrow> True | _ \<Rightarrow> False)"
| "column_matches ByteArrayColumnWriter v = (case v of ByteArrayValues _ \<Rightarrow> True | _ \<Rightarrow> False)"
| "column_matches FixedLenByteArrayColumnWriter v = (case v of FixedLenByteArrayValues _ \<Rightarrow> True | _ \<Rightarrow> False)"

text \<open>The traits \<open>BlocksBuilder\<close> and \<open>Blocks\<close>, which the user implements.\<close>

record 'b blocks =
  bb_create_batch :: "nat \<Rightarrow> 'b"
  bb_append :: "rlink_record \<Rightarrow> 'b \<Rightarrow> nat \<times> 'b"
  bb_flush :: "'b \<Rightarrow> column_values list"

text \<open>
  The \<open>parquet\<close> crate: \<open>SerializedFileWriter::new\<close> on a schema and properties, \<open>next_row_group\<close>, the
  column writers a row group hands out, \<open>write_batch\<close> with \<open>close_column\<close>, closing a row group
  with its size, \<open>close\<close>, and the bytes of the cursor.
\<close>

record ('s, 'p, 'w) parquet =
  pq_new :: "'s \<Rightarrow> 'p \<Rightarrow> string + 'w"
  pq_next_row_group :: "'w \<Rightarrow> string + 'w"
  pq_columns :: "'w \<Rightarrow> column_writer list"
  pq_write_column :: "column_values \<Rightarrow> 'w \<Rightarrow> string + 'w"
  pq_close_row_group :: "'w \<Rightarrow> string + 64 word \<times> 'w"
  pq_close :: "'w \<Rightarrow> string + 'w"
  pq_data :: "'w \<Rightarrow> u8 list"

datatype sink_error = ParquetError string | ColumnInconsistency | PathError string

record ('w, 'b) parquet_block_writer =
  bw_writer :: 'w
  bw_row_group_size :: nat
  bw_max_bytes :: "64 word"
  bw_total_bytes :: "64 word"
  bw_blocks :: "'b option"

definition block_writer_new :: "('s, 'p, 'w) parquet \<Rightarrow> 'b blocks \<Rightarrow> nat \<Rightarrow> 64 word \<Rightarrow> 's \<Rightarrow> 'p \<Rightarrow> ('w, 'b) parquet_block_writer res" where
  "block_writer_new PQ B row_group_size max_bytes schema props = (case pq_new PQ schema props of
       Inl _ \<Rightarrow> Inl Unwrap_none
     | Inr writer \<Rightarrow> Inr \<lparr>bw_writer = writer, bw_row_group_size = row_group_size, bw_max_bytes = max_bytes, bw_total_bytes = 0,
         bw_blocks = Some (bb_create_batch B row_group_size)\<rparr>)"

definition parquet_result :: "string + 'a \<Rightarrow> sink_error failure + 'a" where
  "parquet_result m = map_sum (\<lambda>e. Failed (ParquetError e)) id m"

text \<open>The loop over the columns of a row group.\<close>

fun write_columns :: "('s, 'p, 'w) parquet \<Rightarrow> column_writer list \<Rightarrow> column_values list \<Rightarrow> 'w \<Rightarrow> sink_error failure + 'w" where
  "write_columns PQ [] vs w = Inr w"
| "write_columns PQ (col_writer # cs) [] w = Inl (Failed ColumnInconsistency)"
| "write_columns PQ (col_writer # cs) (v # vs) w =
     (if column_matches col_writer v then rbind (parquet_result (pq_write_column PQ v w)) (write_columns PQ cs vs)
      else Inl (Panicked Explicit_panic))"

definition flush_buffer :: "('s, 'p, 'w) parquet \<Rightarrow> 'b blocks \<Rightarrow> ('w, 'b) parquet_block_writer
    \<Rightarrow> sink_error failure + 64 word \<times> ('w, 'b) parquet_block_writer" where
  "flush_buffer PQ B bw = (case bw_blocks bw of
       None \<Rightarrow> Inr (0, bw)
     | Some b \<Rightarrow>
         let batch_values = bb_flush B b in
         rbind (parquet_result (pq_next_row_group PQ (bw_writer bw))) (\<lambda>w.
         rbind (write_columns PQ (pq_columns PQ w) batch_values w) (\<lambda>w.
         rbind (parquet_result (pq_close_row_group PQ w)) (\<lambda>(total_byte_size, w).
         Inr (total_byte_size, bw\<lparr>bw_writer := w\<rparr>)))))"

definition bw_append :: "('s, 'p, 'w) parquet \<Rightarrow> 'b blocks \<Rightarrow> rlink_record \<Rightarrow> ('w, 'b) parquet_block_writer
    \<Rightarrow> sink_error failure + bool \<times> ('w, 'b) parquet_block_writer" where
  "bw_append PQ B r bw =
     rbind (lift_panic (unwrap (bw_blocks bw))) (\<lambda>b.
     let (block_size, b) = bb_append B r b; bw = bw\<lparr>bw_blocks := Some b\<rparr> in
     if block_size < bw_row_group_size bw then Inr (False, bw)
     else rbind (flush_buffer PQ B bw) (\<lambda>(byte_size, bw).
       let bw = bw\<lparr>bw_total_bytes := bw_total_bytes bw + byte_size\<rparr> in
       if sint (bw_max_bytes bw) \<le> sint (bw_total_bytes bw) then Inr (True, bw\<lparr>bw_blocks := None\<rparr>)
       else Inr (False, bw\<lparr>bw_blocks := Some (bb_create_batch B (bw_row_group_size bw))\<rparr>)))"

definition bw_close :: "('s, 'p, 'w) parquet \<Rightarrow> 'b blocks \<Rightarrow> ('w, 'b) parquet_block_writer \<Rightarrow> sink_error failure + u8 list" where
  "bw_close PQ B bw =
     rbind (flush_buffer PQ B bw) (\<lambda>(_, bw).
     rbind (parquet_result (pq_close PQ (bw_writer bw))) (\<lambda>w.
     Inr (pq_data PQ w)))"

section \<open>The manager of the paths\<close>

datatype flush_data = FlushBytes string "u8 list" | FlushFinish

text \<open>\<open>mg_sent\<close> is what has been sent to the thread that writes the files.\<close>

record ('s, 'p, 'l, 'w, 'b) writer_manager =
  mg_row_group_size :: nat
  mg_max_bytes :: "64 word"
  mg_schema :: 's
  mg_props :: 'p
  mg_path_location :: 'l
  mg_path_writers :: "(string, ('w, 'b) parquet_block_writer \<times> duration) hmap"
  mg_sent :: "flush_data list"

type_synonym 'l path_location = "rlink_record \<Rightarrow> task_id \<Rightarrow> 'l \<Rightarrow> (string + string) \<times> rlink_record \<times> 'l"

definition manager_new :: "nat \<Rightarrow> 64 word \<Rightarrow> 's \<Rightarrow> 'p \<Rightarrow> 'l \<Rightarrow> ('s, 'p, 'l, 'w, 'b) writer_manager" where
  "manager_new row_group_size max_bytes schema props path_location = \<lparr>mg_row_group_size = row_group_size, mg_max_bytes = max_bytes,
     mg_schema = schema, mg_props = props, mg_path_location = path_location, mg_path_writers = [], mg_sent = []\<rparr>"

definition create_writer :: "('s, 'p, 'w) parquet \<Rightarrow> 'b blocks \<Rightarrow> ('s, 'p, 'l, 'w, 'b) writer_manager \<Rightarrow> ('w, 'b) parquet_block_writer res" where
  "create_writer PQ B m = block_writer_new PQ B (mg_row_group_size m) (mg_max_bytes m) (mg_schema m) (mg_props m)"

definition manager_send :: "flush_data \<Rightarrow> ('s, 'p, 'l, 'w, 'b) writer_manager \<Rightarrow> ('s, 'p, 'l, 'w, 'b) writer_manager" where
  "manager_send msg m = m\<lparr>mg_sent := mg_sent m @ [msg]\<rparr>"

definition manager_append :: "('s, 'p, 'w) parquet \<Rightarrow> 'b blocks \<Rightarrow> 'l path_location \<Rightarrow> duration \<Rightarrow> rlink_record \<Rightarrow> task_id
    \<Rightarrow> ('s, 'p, 'l, 'w, 'b) writer_manager \<Rightarrow> sink_error failure + ('s, 'p, 'l, 'w, 'b) writer_manager" where
  "manager_append PQ B P now r tid m = (let (path, r, loc) = P r tid (mg_path_location m); m = m\<lparr>mg_path_location := loc\<rparr> in
     rbind (map_sum (\<lambda>e. Failed (PathError e)) id path) (\<lambda>path.
     rbind (case map_of (mg_path_writers m) path of
         Some entry \<Rightarrow> Inr entry
       | None \<Rightarrow> rbind (lift_panic (create_writer PQ B m)) (\<lambda>w. Inr (w, now))) (\<lambda>(w, created).
     rbind (bw_append PQ B r w) (\<lambda>(full, w).
     if full then
       let m = m\<lparr>mg_path_writers := AList.delete path (mg_path_writers m)\<rparr> in
       rbind (bw_close PQ B w) (\<lambda>bytes. Inr (manager_send (FlushBytes path bytes) m))
     else Inr (m\<lparr>mg_path_writers := AList.update path (w, created) (mg_path_writers m)\<rparr>)))))"

definition flush_path :: "('s, 'p, 'w) parquet \<Rightarrow> 'b blocks \<Rightarrow> string \<Rightarrow> ('s, 'p, 'l, 'w, 'b) writer_manager
    \<Rightarrow> sink_error failure + ('s, 'p, 'l, 'w, 'b) writer_manager" where
  "flush_path PQ B path m =
     rbind (lift_panic (unwrap (map_of (mg_path_writers m) path))) (\<lambda>(w, _).
     let m = m\<lparr>mg_path_writers := AList.delete path (mg_path_writers m)\<rparr> in
     rbind (bw_close PQ B w) (\<lambda>bytes. Inr (manager_send (FlushBytes path bytes) m)))"

definition manager_flush :: "('s, 'p, 'w) parquet \<Rightarrow> 'b blocks \<Rightarrow> (string list \<Rightarrow> string list) \<Rightarrow> ('s, 'p, 'l, 'w, 'b) writer_manager
    \<Rightarrow> sink_error failure + ('s, 'p, 'l, 'w, 'b) writer_manager" where
  "manager_flush PQ B it m = fold_res (flush_path PQ B) (it (map fst (mg_path_writers m))) m"

definition manager_close :: "('s, 'p, 'w) parquet \<Rightarrow> 'b blocks \<Rightarrow> (string list \<Rightarrow> string list) \<Rightarrow> ('s, 'p, 'l, 'w, 'b) writer_manager
    \<Rightarrow> sink_error failure + ('s, 'p, 'l, 'w, 'b) writer_manager" where
  "manager_close PQ B it m = rbind (manager_flush PQ B it m) (\<lambda>m. Inr (manager_send FlushFinish m))"

text \<open>
  The thread that writes the files.  \<open>File::create\<close> empties a file that exists; the disk is the
  map of the files.
\<close>

record 'f file_system =
  fs_create_write :: "string \<Rightarrow> 'f \<Rightarrow> string + 'f"
  fs_write_all :: "string \<Rightarrow> u8 list \<Rightarrow> 'f \<Rightarrow> string + 'f"

definition fs_write :: "'f file_system \<Rightarrow> flush_data \<Rightarrow> 'f \<Rightarrow> 'f res" where
  "fs_write F msg disk = (case msg of
       FlushBytes path bytes \<Rightarrow>
         (case fs_create_write F path disk of
            Inl _ \<Rightarrow> Inl Unwrap_none
          | Inr disk \<Rightarrow> (case fs_write_all F path bytes disk of Inl _ \<Rightarrow> Inl Unwrap_none | Inr disk \<Rightarrow> Inr disk))
     | FlushFinish \<Rightarrow> Inr disk)"

definition local_file_system :: "(string \<rightharpoonup> u8 list) file_system" where
  "local_file_system = \<lparr>fs_create_write = (\<lambda>path disk. Inr (disk(path \<mapsto> []))),
     fs_write_all = (\<lambda>path bytes disk. case disk path of None \<Rightarrow> Inl ''not open'' | Some c \<Rightarrow> Inr (disk(path \<mapsto> c @ bytes)))\<rparr>"

section \<open>The output format\<close>

record ('s, 'p, 'l, 'w, 'b) hdfs_output_format =
  hd_task_id :: "task_id option"
  hd_writer_manager :: "('s, 'p, 'l, 'w, 'b) writer_manager"

definition hdfs_new :: "('s, 'p, 'l, 'w, 'b) writer_manager \<Rightarrow> ('s, 'p, 'l, 'w, 'b) hdfs_output_format" where
  "hdfs_new m = \<lparr>hd_task_id = None, hd_writer_manager = m\<rparr>"

definition hdfs_open :: "function_context \<Rightarrow> ('s, 'p, 'l, 'w, 'b) hdfs_output_format \<Rightarrow> ('s, 'p, 'l, 'w, 'b) hdfs_output_format" where
  "hdfs_open context h = h\<lparr>hd_task_id := Some (fc_task_id context)\<rparr>"

definition unwrap_sink :: "sink_error failure + 'a \<Rightarrow> 'a res" where
  "unwrap_sink m = (case m of Inr x \<Rightarrow> Inr x | Inl (Panicked p) \<Rightarrow> Inl p | Inl (Failed _) \<Rightarrow> Inl Unwrap_none)"

definition hdfs_write_record :: "('s, 'p, 'w) parquet \<Rightarrow> 'b blocks \<Rightarrow> 'l path_location \<Rightarrow> duration \<Rightarrow> rlink_record
    \<Rightarrow> ('s, 'p, 'l, 'w, 'b) hdfs_output_format \<Rightarrow> ('s, 'p, 'l, 'w, 'b) hdfs_output_format res" where
  "hdfs_write_record PQ B P now r h =
     rbind (unwrap (hd_task_id h)) (\<lambda>tid.
     rbind (unwrap_sink (manager_append PQ B P now r tid (hd_writer_manager h))) (\<lambda>m.
     Inr (h\<lparr>hd_writer_manager := m\<rparr>)))"

definition hdfs_snapshot_state :: "('s, 'p, 'w) parquet \<Rightarrow> 'b blocks \<Rightarrow> (string list \<Rightarrow> string list)
    \<Rightarrow> ('s, 'p, 'l, 'w, 'b) hdfs_output_format \<Rightarrow> (handle option \<times> ('s, 'p, 'l, 'w, 'b) hdfs_output_format) res" where
  "hdfs_snapshot_state PQ B it h =
     rbind (unwrap_sink (manager_flush PQ B it (hd_writer_manager h))) (\<lambda>m. Inr (None, h\<lparr>hd_writer_manager := m\<rparr>))"

definition hdfs_close :: "('s, 'p, 'w) parquet \<Rightarrow> 'b blocks \<Rightarrow> (string list \<Rightarrow> string list)
    \<Rightarrow> ('s, 'p, 'l, 'w, 'b) hdfs_output_format \<Rightarrow> sink_error failure + ('s, 'p, 'l, 'w, 'b) hdfs_output_format" where
  "hdfs_close PQ B it h = rbind (manager_close PQ B it (hd_writer_manager h)) (\<lambda>m. Inr (h\<lparr>hd_writer_manager := m\<rparr>))"

text \<open>The calls of a sink between opening and closing: a record at a time, or a checkpoint.\<close>

datatype sink_call = WriteRecord duration rlink_record | SnapshotState

definition hdfs_call :: "('s, 'p, 'w) parquet \<Rightarrow> 'b blocks \<Rightarrow> 'l path_location \<Rightarrow> (string list \<Rightarrow> string list) \<Rightarrow> sink_call
    \<Rightarrow> ('s, 'p, 'l, 'w, 'b) hdfs_output_format \<Rightarrow> ('s, 'p, 'l, 'w, 'b) hdfs_output_format res" where
  "hdfs_call PQ B P it c h = (case c of
       WriteRecord now r \<Rightarrow> hdfs_write_record PQ B P now r h
     | SnapshotState \<Rightarrow> rbind (hdfs_snapshot_state PQ B it h) (\<lambda>(_, h). Inr h))"

section \<open>What the crate and the blocks promise\<close>

fun column_len :: "column_values \<Rightarrow> nat" where
  "column_len (BoolValues xs) = length xs" | "column_len (Int32Values xs) = length xs"
| "column_len (Int64Values xs) = length xs" | "column_len (Int96Values xs) = length xs"
| "column_len (FloatValues xs) = length xs" | "column_len (DoubleValues xs) = length xs"
| "column_len (ByteArrayValues xs) = length xs" | "column_len (FixedLenByteArrayValues xs) = length xs"

text \<open>
  \<open>groups\<close> are the finished row groups of a writer, \<open>open_group\<close> the columns of the one under way; a
  row group takes columns of the kinds of the schema with the same number of rows, and the bytes
  of a closed file give its row groups back.  A batch counts its records, and flushing it gives
  one column of each kind, from which the row of every record can be read.
\<close>

locale parquet_rows =
  fixes PQ :: "('s, 'p, 'w) parquet" and B :: "'b blocks" and kinds :: "column_writer list"
    and groups :: "'w \<Rightarrow> column_values list list" and open_group :: "'w \<Rightarrow> column_values list option"
    and file_groups :: "u8 list \<Rightarrow> column_values list list"
    and batch :: "'b \<Rightarrow> rlink_record list" and row :: "rlink_record \<Rightarrow> 'r" and rows_of :: "column_values list \<Rightarrow> 'r list"
  assumes new_file: "\<exists>w. pq_new PQ s p = Inr w \<and> groups w = [] \<and> open_group w = None"
    and columns: "pq_columns PQ w = kinds"
    and next_group: "open_group w = None \<Longrightarrow> \<exists>w'. pq_next_row_group PQ w = Inr w' \<and> groups w' = groups w \<and> open_group w' = Some []"
    and write_column: "open_group w = Some vs \<Longrightarrow> length vs < length kinds \<Longrightarrow> column_matches (kinds ! length vs) v
      \<Longrightarrow> \<forall>u\<in>set vs. column_len u = column_len v
      \<Longrightarrow> \<exists>w'. pq_write_column PQ v w = Inr w' \<and> groups w' = groups w \<and> open_group w' = Some (vs @ [v])"
    and close_group: "open_group w = Some vs \<Longrightarrow> length vs = length kinds
      \<Longrightarrow> \<exists>n w'. pq_close_row_group PQ w = Inr (n, w') \<and> groups w' = groups w @ [vs] \<and> open_group w' = None"
    and close_file: "open_group w = None \<Longrightarrow> \<exists>w'. pq_close PQ w = Inr w' \<and> file_groups (pq_data PQ w') = groups w"
    and new_batch: "batch (bb_create_batch B n) = []"
    and append_batch: "bb_append B r b = (k, b') \<Longrightarrow> k = length (batch b) + 1 \<and> batch b' = batch b @ [r]"
    and flush_kinds: "list_all2 column_matches kinds (bb_flush B b)"
    and flush_len: "u \<in> set (bb_flush B b) \<Longrightarrow> v \<in> set (bb_flush B b) \<Longrightarrow> column_len u = column_len v"
    and flush_rows: "rows_of (bb_flush B b) = map row (batch b)"
begin

lemma write_columns_ok:
  assumes "open_group w = Some vs" "kinds = ks0 @ ks" "length vs = length ks0" "list_all2 column_matches ks us"
    and "\<forall>u\<in>set (vs @ us). \<forall>v\<in>set (vs @ us). column_len u = column_len v"
  shows "\<exists>w'. write_columns PQ ks us w = Inr w' \<and> groups w' = groups w \<and> open_group w' = Some (vs @ us)"
  using assms
proof (induction ks arbitrary: us w vs ks0)
  case Nil
  then show ?case by simp
next
  case (Cons k ks)
  then obtain u us' where us: "us = u # us'" "column_matches k u" "list_all2 column_matches ks us'" by (auto simp: list_all2_Cons1)
  have "column_matches (kinds ! length vs) u" using Cons.prems(2,3) us(2) by (simp add: nth_append)
  moreover have "\<forall>v\<in>set vs. column_len v = column_len u" using Cons.prems(5) us(1) by auto
  ultimately obtain w1 where w1: "pq_write_column PQ u w = Inr w1" "groups w1 = groups w" "open_group w1 = Some (vs @ [u])"
    using write_column[OF Cons.prems(1), of u] Cons.prems(2,3) by auto
  have "\<exists>w'. write_columns PQ ks us' w1 = Inr w' \<and> groups w' = groups w1 \<and> open_group w' = Some ((vs @ [u]) @ us')"
  proof (rule Cons.IH[OF w1(3), of "ks0 @ [k]"])
    show "kinds = (ks0 @ [k]) @ ks" "length (vs @ [u]) = length (ks0 @ [k])" using Cons.prems(2,3) by simp_all
    show "list_all2 column_matches ks us'" by (rule us(3))
    show "\<forall>u'\<in>set ((vs @ [u]) @ us'). \<forall>v\<in>set ((vs @ [u]) @ us'). column_len u' = column_len v" using Cons.prems(5) unfolding us(1) append_assoc append_Cons append_Nil .
  qed
  then show ?case using us(1,2) w1(1,2) by (simp add: parquet_result_def)
qed

lemma flush_some:
  assumes "bw_blocks bw = Some b" "open_group (bw_writer bw) = None"
  shows "\<exists>n w'. flush_buffer PQ B bw = Inr (n, bw\<lparr>bw_writer := w'\<rparr>) \<and> groups w' = groups (bw_writer bw) @ [bb_flush B b] \<and> open_group w' = None"
proof -
  obtain w1 where w1: "pq_next_row_group PQ (bw_writer bw) = Inr w1" "groups w1 = groups (bw_writer bw)" "open_group w1 = Some []"
    using next_group[OF assms(2)] by auto
  obtain w2 where w2: "write_columns PQ kinds (bb_flush B b) w1 = Inr w2" "groups w2 = groups w1" "open_group w2 = Some (bb_flush B b)"
    using write_columns_ok[OF w1(3), of "[]" kinds "bb_flush B b", simplified, OF flush_kinds] flush_len by blast
  obtain n w3 where "pq_close_row_group PQ w2 = Inr (n, w3)" "groups w3 = groups w2 @ [bb_flush B b]" "open_group w3 = None"
    using close_group[OF w2(3)] list_all2_lengthD[OF flush_kinds[of b]] by auto
  then show ?thesis using assms(1) w1 w2 by (intro exI[of _ n] exI[of _ w3]) (simp add: flush_buffer_def parquet_result_def columns)
qed

text \<open>The rows a writer holds, in the file under way and in the batch.\<close>

definition content :: "('w, 'b) parquet_block_writer \<Rightarrow> 'r list" where
  "content bw = concat (map rows_of (groups (bw_writer bw))) @ (case bw_blocks bw of None \<Rightarrow> [] | Some b \<Rightarrow> map row (batch b))"

definition live :: "('w, 'b) parquet_block_writer \<Rightarrow> bool" where
  "live bw \<longleftrightarrow> open_group (bw_writer bw) = None \<and> bw_blocks bw \<noteq> None"

definition file_rows :: "u8 list \<Rightarrow> 'r list" where
  "file_rows bytes = concat (map rows_of (file_groups bytes))"

lemma writer_new_ok: "\<exists>bw. block_writer_new PQ B n k s p = Inr bw \<and> live bw \<and> content bw = []"
  using new_file[of s p] by (auto simp: block_writer_new_def live_def content_def new_batch)

lemma writer_append_ok:
  assumes "live bw"
  shows "\<exists>full bw'. bw_append PQ B r bw = Inr (full, bw') \<and> content bw' = content bw @ [row r]
    \<and> open_group (bw_writer bw') = None \<and> (full \<or> live bw')"
proof -
  obtain b where b: "bw_blocks bw = Some b" "open_group (bw_writer bw) = None" using assms by (auto simp: live_def)
  obtain k b' where a: "bb_append B r b = (k, b')" by fastforce
  then have b': "batch b' = batch b @ [r]" using append_batch by blast
  obtain n w' where f: "flush_buffer PQ B (bw\<lparr>bw_blocks := Some b'\<rparr>) = Inr (n, bw\<lparr>bw_blocks := Some b', bw_writer := w'\<rparr>)"
    "groups w' = groups (bw_writer bw) @ [bb_flush B b']" "open_group w' = None"
    using flush_some[of "bw\<lparr>bw_blocks := Some b'\<rparr>" b'] b by auto
  show ?thesis
  proof (cases "k < bw_row_group_size bw")
    case True
    then show ?thesis using b a b' by (auto simp: bw_append_def content_def live_def)
  next
    case False
    then show ?thesis using b a b' f by (auto simp: bw_append_def content_def live_def new_batch flush_rows Let_def)
  qed
qed

lemma writer_close_ok:
  assumes "open_group (bw_writer bw) = None"
  shows "\<exists>bytes. bw_close PQ B bw = Inr bytes \<and> file_rows bytes = content bw"
proof (cases "bw_blocks bw")
  case None
  then show ?thesis using close_file[OF assms] by (auto simp: bw_close_def flush_buffer_def parquet_result_def content_def file_rows_def)
next
  case (Some b)
  obtain n w' where f: "flush_buffer PQ B bw = Inr (n, bw\<lparr>bw_writer := w'\<rparr>)" "groups w' = groups (bw_writer bw) @ [bb_flush B b]" "open_group w' = None"
    using flush_some[OF Some assms] by blast
  then show ?thesis using close_file[OF f(3)] Some by (auto simp: bw_close_def parquet_result_def content_def file_rows_def flush_rows)
qed

end

section \<open>Every record reaches its path\<close>

definition sent_for :: "string \<Rightarrow> flush_data list \<Rightarrow> u8 list list" where
  "sent_for p msgs = concat (map (\<lambda>msg. case msg of FlushBytes q bytes \<Rightarrow> if q = p then [bytes] else [] | FlushFinish \<Rightarrow> []) msgs)"

lemma sent_for_simps [simp]: "sent_for p [] = []" "sent_for p (xs @ ys) = sent_for p xs @ sent_for p ys"
  "sent_for p [FlushBytes q bytes] = (if q = p then [bytes] else [])" "sent_for p [FlushFinish] = []"
  by (simp_all add: sent_for_def)

lemma manager_send_simps [simp]: "mg_sent (manager_send msg m) = mg_sent m @ [msg]" "mg_path_writers (manager_send msg m) = mg_path_writers m"
  "mg_path_location (manager_send msg m) = mg_path_location m"
  by (simp_all add: manager_send_def)

text \<open>The path and the record of every call, as the user's function chooses them one after the other.\<close>

fun located :: "'l path_location \<Rightarrow> task_id \<Rightarrow> 'l \<Rightarrow> sink_call list \<Rightarrow> ((string + string) \<times> rlink_record) list" where
  "located P tid loc [] = []"
| "located P tid loc (WriteRecord now r # calls) = (case P r tid loc of (path, r', loc') \<Rightarrow> (path, r') # located P tid loc' calls)"
| "located P tid loc (SnapshotState # calls) = located P tid loc calls"

context parquet_rows
begin

definition manager_inv :: "('s, 'p, 'l, 'w, 'b) writer_manager \<Rightarrow> bool" where
  "manager_inv m \<longleftrightarrow> hm_ok (mg_path_writers m) \<and> (\<forall>p w t. map_of (mg_path_writers m) p = Some (w, t) \<longrightarrow> live w)"

definition held :: "('s, 'p, 'l, 'w, 'b) writer_manager \<Rightarrow> string \<Rightarrow> 'r list" where
  "held m p = concat (map file_rows (sent_for p (mg_sent m))) @ (case map_of (mg_path_writers m) p of None \<Rightarrow> [] | Some (w, _) \<Rightarrow> content w)"

lemma manager_append_ok:
  assumes inv: "manager_inv m" and P: "P r tid (mg_path_location m) = (Inr path, r', loc)"
  shows "\<exists>m'. manager_append PQ B P now r tid m = Inr m' \<and> manager_inv m' \<and> mg_path_location m' = loc
    \<and> (\<forall>p. held m' p = held m p @ (if p = path then [row r'] else []))"
proof -
  let ?m = "m\<lparr>mg_path_location := loc\<rparr>"
  obtain w t where w: "(case map_of (mg_path_writers m) path of Some entry \<Rightarrow> Inr entry
      | None \<Rightarrow> rbind (lift_panic (create_writer PQ B ?m)) (\<lambda>w. Inr (w, now))) = (Inr (w, t) :: sink_error failure + _)" "live w"
    "(case map_of (mg_path_writers m) path of None \<Rightarrow> [] | Some (w, _) \<Rightarrow> content w) = content w"
  proof (cases "map_of (mg_path_writers m) path")
    case None
    then show ?thesis using that writer_new_ok[of "mg_row_group_size m" "mg_max_bytes m" "mg_schema m" "mg_props m"]
      by (auto simp: create_writer_def)
  next
    case (Some e)
    then show ?thesis using that inv by (cases e) (auto simp: manager_inv_def)
  qed
  obtain full w' where a: "bw_append PQ B r' w = Inr (full, w')" "content w' = content w @ [row r']" "open_group (bw_writer w') = None" "full \<or> live w'"
    using writer_append_ok[OF w(2)] by blast
  have ok: "hm_ok (mg_path_writers m)" using inv by (simp add: manager_inv_def)
  show ?thesis
  proof (cases full)
    case True
    obtain bytes where c: "bw_close PQ B w' = Inr bytes" "file_rows bytes = content w'" using writer_close_ok[OF a(3)] by blast
    let ?m' = "manager_send (FlushBytes path bytes) (?m\<lparr>mg_path_writers := AList.delete path (mg_path_writers m)\<rparr>)"
    have "manager_append PQ B P now r tid m = Inr ?m'" using P w(1) a(1) True c(1) by (simp add: manager_append_def Let_def)
    moreover have "manager_inv ?m'" using inv ok by (auto simp: manager_inv_def hm_ok_delete map_of_delete_hm split: if_splits)
    moreover have "held ?m' p = held m p @ (if p = path then [row r'] else [])" for p
      using w(3) a(2) c(2) ok by (auto simp: held_def map_of_delete_hm)
    ultimately show ?thesis by simp
  next
    case False
    let ?m' = "?m\<lparr>mg_path_writers := AList.update path (w', t) (mg_path_writers m)\<rparr>"
    have "manager_append PQ B P now r tid m = Inr ?m'" using P w(1) a(1) False by (simp add: manager_append_def Let_def)
    moreover have "manager_inv ?m'" using inv ok a(4) False by (auto simp: manager_inv_def hm_ok_update map_of_update_hm split: if_splits)
    moreover have "held ?m' p = held m p @ (if p = path then [row r'] else [])" for p
      using w(3) a(2) ok by (auto simp: held_def map_of_update_hm)
    ultimately show ?thesis by simp
  qed
qed

lemma flush_path_ok:
  assumes inv: "manager_inv m" and p: "p \<in> set (map fst (mg_path_writers m))"
  shows "\<exists>m'. flush_path PQ B p m = Inr m' \<and> manager_inv m' \<and> mg_path_location m' = mg_path_location m
    \<and> set (map fst (mg_path_writers m')) = set (map fst (mg_path_writers m)) - {p} \<and> held m' = held m"
proof -
  have ok: "hm_ok (mg_path_writers m)" using inv by (simp add: manager_inv_def)
  obtain w t where w: "map_of (mg_path_writers m) p = Some (w, t)" using p by (metis list.set_map map_of_eq_None_iff not_None_eq surj_pair)
  then have "open_group (bw_writer w) = None" using inv by (auto simp: manager_inv_def live_def)
  then obtain bytes where c: "bw_close PQ B w = Inr bytes" "file_rows bytes = content w" using writer_close_ok by blast
  let ?m' = "manager_send (FlushBytes p bytes) (m\<lparr>mg_path_writers := AList.delete p (mg_path_writers m)\<rparr>)"
  have "flush_path PQ B p m = Inr ?m'" using w c(1) by (simp add: flush_path_def Let_def)
  moreover have "manager_inv ?m'" using inv ok by (auto simp: manager_inv_def hm_ok_delete map_of_delete_hm split: if_splits)
  moreover have "set (map fst (mg_path_writers ?m')) = set (map fst (mg_path_writers m)) - {p}"
    by (auto simp: AList.delete_eq)
  moreover have "held ?m' q = held m q" for q using w c(2) ok by (auto simp: held_def map_of_delete_hm)
  ultimately show ?thesis by auto
qed

lemma flush_paths_ok:
  assumes "manager_inv m" "distinct ps" "set ps = set (map fst (mg_path_writers m))"
  shows "\<exists>m'. fold_res (flush_path PQ B) ps m = Inr m' \<and> manager_inv m' \<and> mg_path_location m' = mg_path_location m
    \<and> mg_path_writers m' = [] \<and> held m' = held m"
  using assms
proof (induction ps arbitrary: m)
  case Nil
  then show ?case by simp
next
  case (Cons p ps)
  then obtain m1 where m1: "flush_path PQ B p m = Inr m1" "manager_inv m1" "mg_path_location m1 = mg_path_location m"
    "set (map fst (mg_path_writers m1)) = set (map fst (mg_path_writers m)) - {p}" "held m1 = held m"
    using flush_path_ok[OF Cons.prems(1), of p] Cons.prems(3) list.set_intros(1)[of p ps] by metis
  have "set ps = set (map fst (mg_path_writers m1))" using Cons.prems(2,3) m1(4) by auto
  then show ?case using Cons.IH[OF m1(2)] Cons.prems(2) m1 by auto
qed

lemma manager_flush_ok:
  assumes "iteration_order it" "manager_inv m"
  shows "\<exists>m'. manager_flush PQ B it m = Inr m' \<and> manager_inv m' \<and> mg_path_location m' = mg_path_location m
    \<and> mg_path_writers m' = [] \<and> held m' = held m"
  unfolding manager_flush_def
proof (rule flush_paths_ok[OF assms(2)])
  show "distinct (it (map fst (mg_path_writers m)))" "set (it (map fst (mg_path_writers m))) = set (map fst (mg_path_writers m))"
    using assms(2) iteration_order.distinct_it[OF assms(1)] iteration_order.set_it[OF assms(1)] by (simp_all add: manager_inv_def hm_ok_def)
qed

lemma hdfs_calls_ok:
  assumes it: "iteration_order it" and "manager_inv (hd_writer_manager h)" "hd_task_id h = Some tid"
    and "\<forall>x\<in>set (located P tid (mg_path_location (hd_writer_manager h)) calls). \<exists>p. fst x = Inr p"
  shows "\<exists>h'. fold_res (hdfs_call PQ B P it) calls h = Inr h' \<and> manager_inv (hd_writer_manager h')
    \<and> (\<forall>p. held (hd_writer_manager h') p = held (hd_writer_manager h) p
       @ map (row \<circ> snd) (filter (\<lambda>x. fst x = Inr p) (located P tid (mg_path_location (hd_writer_manager h)) calls)))"
  using assms(2-)
proof (induction calls arbitrary: h)
  case Nil
  then show ?case by simp
next
  case (Cons c calls)
  let ?m = "hd_writer_manager h"
  show ?case
  proof (cases c)
    case (WriteRecord now r)
    obtain path r' loc where P: "P r tid (mg_path_location ?m) = (path, r', loc)" by (metis prod_cases3)
    then obtain q where q: "path = Inr q" using Cons.prems(3) WriteRecord by auto
    obtain m1 where m1: "manager_append PQ B P now r tid ?m = Inr m1" "manager_inv m1" "mg_path_location m1 = loc"
      "\<forall>p. held m1 p = held ?m p @ (if p = q then [row r'] else [])"
      using manager_append_ok[OF Cons.prems(1), of P r tid q r' loc now] P q by blast
    have s: "hdfs_call PQ B P it c h = Inr (h\<lparr>hd_writer_manager := m1\<rparr>)"
      using WriteRecord Cons.prems(2) m1(1) by (simp add: hdfs_call_def hdfs_write_record_def unwrap_sink_def)
    show ?thesis using Cons.IH[of "h\<lparr>hd_writer_manager := m1\<rparr>"] Cons.prems m1 s P q WriteRecord by auto
  next
    case SnapshotState
    obtain m1 where m1: "manager_flush PQ B it ?m = Inr m1" "manager_inv m1" "mg_path_location m1 = mg_path_location ?m" "held m1 = held ?m"
      using manager_flush_ok[OF it Cons.prems(1)] by blast
    have s: "hdfs_call PQ B P it c h = Inr (h\<lparr>hd_writer_manager := m1\<rparr>)"
      using SnapshotState m1(1) by (simp add: hdfs_call_def hdfs_snapshot_state_def unwrap_sink_def)
    show ?thesis using Cons.IH[of "h\<lparr>hd_writer_manager := m1\<rparr>"] Cons.prems m1 s SnapshotState by auto
  qed
qed

lemma hdfs_close_ok:
  assumes "iteration_order it" "manager_inv (hd_writer_manager h)"
  shows "\<exists>h'. hdfs_close PQ B it h = Inr h' \<and> (\<forall>p. concat (map file_rows (sent_for p (mg_sent (hd_writer_manager h')))) = held (hd_writer_manager h) p)"
proof -
  obtain m where m: "manager_flush PQ B it (hd_writer_manager h) = Inr m" "mg_path_writers m = []" "held m = held (hd_writer_manager h)"
    using manager_flush_ok[OF assms] by blast
  have "concat (map file_rows (sent_for p (mg_sent m))) = held m p" for p using m(2) by (simp add: held_def)
  then show ?thesis using m(1,3) by (simp add: hdfs_close_def manager_close_def)
qed

lemma hdfs_run_ok:
  fixes loc :: 'l
  assumes it: "iteration_order it" and paths: "\<forall>x\<in>set (located P (fc_task_id ctx) loc calls). \<exists>p. fst x = Inr p"
  shows "\<exists>h h'. fold_res (hdfs_call PQ B P it) calls (hdfs_open ctx (hdfs_new (manager_new row_group_size max_bytes schema props loc))) = Inr h
    \<and> hdfs_close PQ B it h = Inr h' \<and> (\<forall>p. concat (map (\<lambda>bytes. concat (map rows_of (file_groups bytes))) (sent_for p (mg_sent (hd_writer_manager h'))))
      = map (row \<circ> snd) (filter (\<lambda>x. fst x = Inr p) (located P (fc_task_id ctx) loc calls)))"
proof -
  let ?h = "hdfs_open ctx (hdfs_new (manager_new row_group_size max_bytes schema props loc)) :: ('s, 'p, 'l, 'w, 'b) hdfs_output_format"
  have new: "manager_inv (hd_writer_manager ?h)" "hd_task_id ?h = Some (fc_task_id ctx)"
    "mg_path_location (hd_writer_manager ?h) = loc" "\<And>p. held (hd_writer_manager ?h) p = []"
    by (simp_all add: hdfs_open_def hdfs_new_def manager_new_def manager_inv_def held_def)
  obtain h where h: "fold_res (hdfs_call PQ B P it) calls ?h = Inr h" "manager_inv (hd_writer_manager h)"
    "\<forall>p. held (hd_writer_manager h) p = map (row \<circ> snd) (filter (\<lambda>x. fst x = Inr p) (located P (fc_task_id ctx) loc calls))"
    using hdfs_calls_ok[OF it new(1,2), of P calls, unfolded new(3) new(4) append_Nil, OF paths] by blast
  obtain h' where h': "hdfs_close PQ B it h = Inr h'"
    "\<forall>p. concat (map file_rows (sent_for p (mg_sent (hd_writer_manager h')))) = held (hd_writer_manager h) p" using hdfs_close_ok[OF it h(2)] by blast
  have f: "file_rows = (\<lambda>bytes. concat (map rows_of (file_groups bytes)))" by (simp add: fun_eq_iff file_rows_def)
  show ?thesis using h(1,3) h'[unfolded f] by auto
qed

end

text \<open>On the local disk a block replaces the file its path had before.\<close>

lemma local_disk:
  "\<exists>disk'. fold_res (fs_write local_file_system) msgs disk = Inr disk'
    \<and> (\<forall>p. disk' p = (if sent_for p msgs = [] then disk p else Some (last (sent_for p msgs))))"
proof (induction msgs arbitrary: disk)
  case Nil
  then show ?case by simp
next
  case (Cons msg msgs)
  obtain d where d: "fs_write local_file_system msg disk = Inr d" "\<And>p. d p = (if sent_for p [msg] = [] then disk p else Some (last (sent_for p [msg])))"
    by (cases msg) (auto simp: fs_write_def local_file_system_def)
  obtain disk' where disk': "fold_res (fs_write local_file_system) msgs d = Inr disk'"
    "\<And>p. disk' p = (if sent_for p msgs = [] then d p else Some (last (sent_for p msgs)))" using Cons.IH[of d] by blast
  have split: "sent_for p (msg # msgs) = sent_for p [msg] @ sent_for p msgs" for p by (simp add: sent_for_def)
  have "disk' p = (if sent_for p (msg # msgs) = [] then disk p else Some (last (sent_for p (msg # msgs))))" for p
    unfolding disk'(2) d(2) split by (auto simp: last_append)
  then have "\<forall>p. disk' p = (if sent_for p (msg # msgs) = [] then disk p else Some (last (sent_for p (msg # msgs))))" by blast
  moreover have "fold_res (fs_write local_file_system) (msg # msgs) disk = Inr disk'" using d(1) disk'(1) by simp
  ultimately show ?case by blast
qed

section \<open>The files\<close>


text \<open>
  A file format with one column of byte arrays: a byte is marked by 1, the end of a row is 0, the end
  of a row group is 2.
\<close>

definition enc_group :: "u8 list list \<Rightarrow> u8 list" where
  "enc_group g = concat (map (\<lambda>row. concat (map (\<lambda>b. [1, b]) row) @ [0]) g) @ [2]"

fun dec_groups :: "u8 list \<Rightarrow> u8 list list \<Rightarrow> u8 list \<Rightarrow> u8 list list list" where
  "dec_groups row g [] = []"
| "dec_groups row g [x] = (if x = 2 then [g] else [])"
| "dec_groups row g (x # y # bs) = (if x = 1 then dec_groups (row @ [y]) g bs
     else if x = 0 then dec_groups [] (g @ [row]) (y # bs) else g # dec_groups [] [] (y # bs))"

lemma dec_end: "dec_groups [] g (2 # bs) = g # dec_groups [] [] bs"
  by (cases bs) simp_all

lemma dec_row_end: "bs \<noteq> [] \<Longrightarrow> dec_groups row g (0 # bs) = dec_groups [] (g @ [row]) bs"
  by (cases bs) simp_all

lemma dec_row: "bs \<noteq> [] \<Longrightarrow> dec_groups row g (concat (map (\<lambda>b. [1, b]) r) @ [0] @ bs) = dec_groups [] (g @ [row @ r]) bs"
  by (induction r arbitrary: row) (simp_all add: dec_row_end)

lemma dec_enc_group: "dec_groups [] g0 (enc_group g @ bs) = (g0 @ g) # dec_groups [] [] bs"
proof (induction g arbitrary: g0)
  case Nil
  then show ?case by (simp add: enc_group_def dec_end)
next
  case (Cons r g)
  then show ?case using dec_row[of "enc_group g @ bs" "[]" g0 r] by (simp add: enc_group_def)
qed

lemma dec_enc_groups: "dec_groups [] [] (concat (map enc_group gs)) = gs"
  by (induction gs) (simp_all add: dec_enc_group)

record byte_file =
  bf_groups :: "u8 list list list"
  bf_open :: "u8 list list option option"

definition byte_parquet :: "(unit, unit, byte_file) parquet" where
  "byte_parquet = \<lparr>pq_new = (\<lambda>_ _. Inr \<lparr>bf_groups = [], bf_open = None\<rparr>),
     pq_next_row_group = (\<lambda>w. case bf_open w of None \<Rightarrow> Inr (w\<lparr>bf_open := Some None\<rparr>) | Some _ \<Rightarrow> Inl ''open''),
     pq_columns = (\<lambda>_. [ByteArrayColumnWriter]),
     pq_write_column = (\<lambda>v w. case v of ByteArrayValues g \<Rightarrow> Inr (w\<lparr>bf_open := Some (Some g)\<rparr>) | _ \<Rightarrow> Inl ''type''),
     pq_close_row_group = (\<lambda>w. case bf_open w of
        Some (Some g) \<Rightarrow> Inr (of_nat (length (concat g)), w\<lparr>bf_groups := bf_groups w @ [g], bf_open := None\<rparr>) | _ \<Rightarrow> Inl ''no column''),
     pq_close = Inr, pq_data = (\<lambda>w. concat (map enc_group (bf_groups w)))\<rparr>"

definition byte_blocks :: "rlink_record list blocks" where
  "byte_blocks = \<lparr>bb_create_batch = (\<lambda>_. []), bb_append = (\<lambda>r b. (length b + 1, b @ [r])), bb_flush = (\<lambda>b. [ByteArrayValues (map rec_values b)])\<rparr>"

definition byte_rows :: "column_values list \<Rightarrow> u8 list list" where
  "byte_rows vs = (case vs of [ByteArrayValues g] \<Rightarrow> g | _ \<Rightarrow> [])"

interpretation bytes_file: parquet_rows byte_parquet byte_blocks "[ByteArrayColumnWriter]"
    "\<lambda>w. map (\<lambda>g. [ByteArrayValues g]) (bf_groups w)"
    "\<lambda>w. map_option (\<lambda>c. case c of None \<Rightarrow> [] | Some g \<Rightarrow> [ByteArrayValues g]) (bf_open w)"
    "\<lambda>bytes. map (\<lambda>g. [ByteArrayValues g]) (dec_groups [] [] bytes)" "\<lambda>b. b" rec_values byte_rows
  by unfold_locales (auto simp: byte_parquet_def byte_blocks_def byte_rows_def dec_enc_groups split: option.splits column_values.splits)

definition by_partition_file :: "unit path_location" where
  "by_partition_file r tid loc = (Inr (''part-'' @ show_nat (unat (rec_partition_num r))), r, loc)"


end
