(* ===== verification/Kafka_Source.thy ===== *)
theory Kafka_Source
  imports System_IO
begin

text \<open>
  The Kafka source (\<open>rlink-connectors/connector-kafka/src/source\<close>): the range of offsets a
  program asks for and its form as properties, the splits of the topics, the offset kept for
  checkpoints, the consumer thread that fills the handover queue and the iterator that empties
  it.  The Kafka client is a parameter: the messages of a partition, its metadata and its lookup
  of offsets by time.  The properties: the range survives its properties, the number of splits,
  and that a restarted source goes on where the checkpoint was taken without losing a message.
\<close>

section \<open>Ranges of offsets\<close>

type_synonym i32 = "32 word"
type_synonym i64 = "64 word"

record partition_offset =
  po_partition :: i32
  po_offset :: i64

datatype offset_range =
    Range_none
  | Range_direct "(string, partition_offset list) hmap" "(string, partition_offset list) hmap option"
  | Range_timestamp "(string, u64) hmap" "(string, u64) hmap option"

fun join_comma :: "string list \<Rightarrow> string" where
  "join_comma [] = []"
| "join_comma [s] = s"
| "join_comma (s # t # ss) = s @ '','' @ join_comma (t # ss)"

fun split_comma :: "string \<Rightarrow> string list" where
  "split_comma [] = [[]]"
| "split_comma (c # cs) = (if c = CHR '','' then [] # split_comma cs
     else case split_comma cs of [] \<Rightarrow> [[c]] | s # ss \<Rightarrow> (c # s) # ss)"

definition offsets_string :: "partition_offset list \<Rightarrow> string" where
  "offsets_string po = join_comma (map (\<lambda>x. show_int (sint (po_offset x))) (sort_key (\<lambda>x. sint (po_partition x)) po))"

definition add_direct :: "((string \<times> partition_offset list) list \<Rightarrow> (string \<times> partition_offset list) list) \<Rightarrow> string
    \<Rightarrow> (string, partition_offset list) hmap \<Rightarrow> properties \<Rightarrow> properties" where
  "add_direct it prefix_key offsets p =
     fold (\<lambda>(topic, po) p. set_string (prefix_key @ ''.'' @ topic) (offsets_string po) p) (it offsets) p"

definition add_timestamp :: "((string \<times> u64) list \<Rightarrow> (string \<times> u64) list) \<Rightarrow> string
    \<Rightarrow> (string, u64) hmap \<Rightarrow> properties \<Rightarrow> properties" where
  "add_timestamp it prefix_key timestamps p =
     fold (\<lambda>(topic, timestamp) p. set_u64 (prefix_key @ ''.'' @ topic) timestamp p) (it timestamps) p"

text \<open>\<open>OFFSET_TYPE\<close>, \<open>OFFSET_BEGIN\<close> and \<open>OFFSET_END\<close> are \<open>type\<close>, \<open>begin\<close> and \<open>end\<close>.\<close>

fun offset_range_into :: "((string \<times> partition_offset list) list \<Rightarrow> (string \<times> partition_offset list) list)
    \<Rightarrow> ((string \<times> u64) list \<Rightarrow> (string \<times> u64) list) \<Rightarrow> offset_range \<Rightarrow> properties" where
  "offset_range_into it it' Range_none = properties_new"
| "offset_range_into it it' (Range_direct begin_offset end_offset) =
     (let p = set_str ''type'' ''direct'' properties_new;
        p = add_direct it ''begin'' begin_offset p in
      case end_offset of Some e \<Rightarrow> add_direct it ''end'' e p | None \<Rightarrow> p)"
| "offset_range_into it it' (Range_timestamp begin_timestamp end_timestamp) =
     (let p = set_str ''type'' ''timestamp'' properties_new;
        p = add_timestamp it' ''begin'' begin_timestamp p in
      case end_timestamp of Some e \<Rightarrow> add_timestamp it' ''end'' e p | None \<Rightarrow> p)"

datatype kafka_error = OffsetParse int_error | UnknownOffsetType string | NotOfTask | SnapshotJson string
  | ClientError string | GroupIdMissing | TopicNotFound string | SplitsTooMany | PropertyError prop_error

definition parse_offsets :: "string \<Rightarrow> kafka_error + partition_offset list" where
  "parse_offsets offset_str =
     rbind (fold_res (\<lambda>s os. rbind (map_sum OffsetParse id (parse_signed s)) (\<lambda>v. Inr (os @ [v]))) (split_comma offset_str) [])
       (\<lambda>os. Inr (map (\<lambda>(index, v). \<lparr>po_partition = of_nat index, po_offset = v\<rparr>) (List.enumerate 0 os)))"

definition parse_direct :: "((string \<times> string) list \<Rightarrow> (string \<times> string) list) \<Rightarrow> properties
    \<Rightarrow> kafka_error + (string, partition_offset list) hmap" where
  "parse_direct it p = fold_res (\<lambda>(topic, offset_str) m.
     rbind (parse_offsets offset_str) (\<lambda>pos. Inr (AList.update topic pos m))) (it (pr_map p)) []"

definition parse_timestamps :: "((string \<times> string) list \<Rightarrow> (string \<times> string) list) \<Rightarrow> properties
    \<Rightarrow> kafka_error + (string, u64) hmap" where
  "parse_timestamps it p = fold_res (\<lambda>(topic, timestamp) m.
     rbind (map_sum OffsetParse id (parse_unsigned timestamp)) (\<lambda>t. Inr (AList.update topic t m))) (it (pr_map p)) []"

definition offset_range_try_from :: "((string \<times> string) list \<Rightarrow> (string \<times> string) list) \<Rightarrow> properties \<Rightarrow> kafka_error + offset_range" where
  "offset_range_try_from it p =
     (let offset_type = (case get_string ''type'' p of Inr t \<Rightarrow> t | Inl _ \<Rightarrow> []);
        first = to_sub_properties it ''begin'' p;
        final = to_sub_properties it ''end'' p in
      if offset_type = ''direct'' then
        rbind (parse_direct it first) (\<lambda>begin_offset.
        rbind (parse_direct it final) (\<lambda>end_offset.
        Inr (Range_direct begin_offset (if end_offset = [] then None else Some end_offset))))
      else if offset_type = ''timestamp'' then
        rbind (parse_timestamps it first) (\<lambda>begin_timestamp.
        rbind (parse_timestamps it final) (\<lambda>end_offset.
        Inr (Range_timestamp begin_timestamp (if end_offset = [] then None else Some end_offset))))
      else if offset_type = [] then Inr Range_none
      else Inl (UnknownOffsetType offset_type))"

section \<open>The offset of a checkpoint\<close>

record offset_snapshot =
  os_topic :: string
  os_partition :: i32
  os_offset :: "i64 option"

text \<open>The recorder of the task: \<open>i64::MIN\<close> stands for no offset.\<close>

definition i64_min :: i64 where
  "i64_min = word_of_int (- (2 ^ 63))"

record kafka_state_recorder =
  kr_topic :: string
  kr_partition :: i32
  kr_offset :: i64

definition recorder_new :: "string \<Rightarrow> i32 \<Rightarrow> kafka_state_recorder" where
  "recorder_new topic part = \<lparr>kr_topic = topic, kr_partition = part, kr_offset = i64_min\<rparr>"

definition recorder_update :: "i64 \<Rightarrow> kafka_state_recorder \<Rightarrow> kafka_state_recorder" where
  "recorder_update v r = r\<lparr>kr_offset := v\<rparr>"

definition recorder_update_from_snapshot :: "offset_snapshot json \<Rightarrow> string \<Rightarrow> kafka_state_recorder \<Rightarrow> kafka_error + kafka_state_recorder" where
  "recorder_update_from_snapshot J snapshot_handle r =
     rbind (map_sum SnapshotJson id (js_from_str J snapshot_handle)) (\<lambda>s.
     if os_topic s \<noteq> kr_topic r \<or> os_partition s \<noteq> kr_partition r then Inl NotOfTask
     else Inr (recorder_update (case os_offset s of Some v \<Rightarrow> v | None \<Rightarrow> i64_min) r))"

definition recorder_snapshot :: "offset_snapshot json \<Rightarrow> kafka_state_recorder \<Rightarrow> string" where
  "recorder_snapshot J r = js_to_string J \<lparr>os_topic = kr_topic r, os_partition = kr_partition r,
     os_offset = (if kr_offset r = i64_min then None else Some (kr_offset r))\<rparr>"

definition recorder_get :: "kafka_state_recorder \<Rightarrow> i64 option" where
  "recorder_get r = (if kr_offset r = i64_min then None else Some (kr_offset r))"

record kafka_checkpoint_function =
  kc_state_recorder :: "kafka_state_recorder option"
  kc_application_id :: string
  kc_task_id :: task_id
  kc_topic :: string
  kc_partition :: i32

definition kafka_checkpoint_new :: "string \<Rightarrow> task_id \<Rightarrow> string \<Rightarrow> i32 \<Rightarrow> kafka_checkpoint_function" where
  "kafka_checkpoint_new application_id task_id topic part = \<lparr>kc_state_recorder = None,
     kc_application_id = application_id, kc_task_id = task_id, kc_topic = topic, kc_partition = part\<rparr>"

definition as_state_mut :: "kafka_checkpoint_function \<Rightarrow> kafka_state_recorder res" where
  "as_state_mut kc = unwrap (kc_state_recorder kc)"

definition unwrap_result :: "'e + 'a \<Rightarrow> 'a res" where
  "unwrap_result m = (case m of Inr x \<Rightarrow> Inr x | Inl _ \<Rightarrow> Inl Unwrap_none)"

definition kafka_initialize_state :: "offset_snapshot json \<Rightarrow> snapshot_context \<Rightarrow> handle option
    \<Rightarrow> kafka_checkpoint_function \<Rightarrow> kafka_checkpoint_function res" where
  "kafka_initialize_state J context handle kc =
     (let kc = kc\<lparr>kc_state_recorder := Some (recorder_new (kc_topic kc) (kc_partition kc))\<rparr> in
      if ck_is_default (sc_checkpoint_id context) then Inr kc
      else case handle of None \<Rightarrow> Inr kc
        | Some h \<Rightarrow>
            rbind (as_state_mut kc) (\<lambda>r.
            rbind (unwrap_result (recorder_update_from_snapshot J h r)) (\<lambda>r.
            Inr (kc\<lparr>kc_state_recorder := Some r\<rparr>))))"

definition kafka_snapshot_state :: "offset_snapshot json \<Rightarrow> kafka_checkpoint_function \<Rightarrow> handle option res" where
  "kafka_snapshot_state J kc = rbind (unwrap (kc_state_recorder kc)) (\<lambda>r. Inr (Some (recorder_snapshot J r)))"

section \<open>The input format\<close>

text \<open>
  What the source uses of the Kafka client: creating a client from its configuration, the raw
  offset for a time, the number of \<open>Offset::End\<close>, and the partitions of a topic.
\<close>

record kafka_client =
  kk_create :: "(string, string) hmap \<Rightarrow> string + unit"
  kk_offsets_for_times :: "string \<Rightarrow> i32 \<Rightarrow> i64 \<Rightarrow> string + i64 option option"
  kk_offset_end :: i64
  kk_partitions :: "string \<Rightarrow> string + i32 list option"

record consumer_range =
  cr_topic :: string
  cr_partition :: i32
  cr_begin_offset :: i64
  cr_end_offset :: "i64 option"

record kafka_input_format =
  ki_name :: string
  ki_parallelism :: u16
  ki_client_config :: "(string, string) hmap"
  ki_topics :: "string list"
  ki_task_topic :: string
  ki_task_partition :: i32
  ki_buffer_size :: nat
  ki_offset_range :: offset_range
  ki_handover :: bool
  ki_schema :: fn_schema
  ki_checkpoint :: "kafka_checkpoint_function option"

text \<open>The handover queue itself belongs to the runs below; the field says whether it has been made.\<close>

definition kafka_input_format_new :: "(string, string) hmap \<Rightarrow> string list \<Rightarrow> nat \<Rightarrow> offset_range \<Rightarrow> fn_schema \<Rightarrow> u16 \<Rightarrow> string \<Rightarrow> kafka_input_format" where
  "kafka_input_format_new client_config topics buffer_size offset_range deserializer_schema parallelism fn_name =
     \<lparr>ki_name = fn_name, ki_parallelism = parallelism, ki_client_config = client_config, ki_topics = topics,
      ki_task_topic = [], ki_task_partition = 0, ki_buffer_size = buffer_size, ki_offset_range = offset_range,
      ki_handover = False, ki_schema = deserializer_schema, ki_checkpoint = None\<rparr>"

text \<open>\<open>get(partition as usize)\<close>: a negative number becomes an index beyond every list.\<close>

definition get_partition :: "partition_offset list \<Rightarrow> i32 \<Rightarrow> partition_offset option" where
  "get_partition xs part = (let i = nat (sint part) in if 0 \<le> sint part \<and> i < length xs then Some (xs ! i) else None)"

definition offsets_for_times :: "kafka_client \<Rightarrow> string \<Rightarrow> i32 \<Rightarrow> u64 \<Rightarrow> kafka_error failure + i64 option" where
  "offsets_for_times K topic part timestamp =
     (case kk_offsets_for_times K topic part timestamp of
        Inl e \<Rightarrow> Inl (Failed (ClientError e))
      | Inr None \<Rightarrow> Inr None
      | Inr (Some None) \<Rightarrow> Inl (Panicked Unwrap_none)
      | Inr (Some (Some v)) \<Rightarrow> Inr (Some v))"

definition lookup_time :: "kafka_client \<Rightarrow> string \<Rightarrow> i32 \<Rightarrow> u64 option \<Rightarrow> kafka_error failure + i64 option" where
  "lookup_time K topic part timestamp = (case timestamp of Some t \<Rightarrow> offsets_for_times K topic part t | None \<Rightarrow> Inr None)"

definition range_bounds :: "kafka_client \<Rightarrow> kafka_input_format \<Rightarrow> string \<Rightarrow> i32 \<Rightarrow> kafka_error failure + i64 option \<times> i64 option" where
  "range_bounds K fmt topic part = (case ki_offset_range fmt of
       Range_none \<Rightarrow>
         rbind (lift_panic (unwrap (ki_checkpoint fmt))) (\<lambda>kc.
         rbind (lift_panic (as_state_mut kc)) (\<lambda>state.
         Inr (recorder_get state, None)))
     | Range_direct begin_offset end_offset \<Rightarrow>
         rbind (lift_panic (unwrap (map_of begin_offset topic))) (\<lambda>b.
         rbind (case end_offset of
             Some end_offset \<Rightarrow> rbind (lift_panic (unwrap (map_of end_offset topic))) (\<lambda>e. Inr (get_partition e part))
           | None \<Rightarrow> Inr None) (\<lambda>e.
         Inr (map_option po_offset (get_partition b part), map_option po_offset e)))
     | Range_timestamp begin_timestamp end_timestamp \<Rightarrow>
         (let begin_timestamp = map_of begin_timestamp topic;
            end_timestamp = (case end_timestamp of Some m \<Rightarrow> map_of m topic | None \<Rightarrow> None) in
          rbind (map_sum (\<lambda>e. Failed (ClientError e)) id (kk_create K (ki_client_config fmt))) (\<lambda>_.
          rbind (lookup_time K topic part begin_timestamp) (\<lambda>b.
          rbind (lookup_time K topic part end_timestamp) (\<lambda>e.
          Inr (b, e))))))"

definition consumer_ranges :: "kafka_client \<Rightarrow> kafka_input_format \<Rightarrow> string \<Rightarrow> i32 \<Rightarrow> kafka_error failure + consumer_range" where
  "consumer_ranges K fmt topic part =
     rbind (range_bounds K fmt topic part) (\<lambda>(b, e).
     Inr \<lparr>cr_topic = topic, cr_partition = part,
       cr_begin_offset = (case b of Some v \<Rightarrow> v | None \<Rightarrow> kk_offset_end K), cr_end_offset = e\<rparr>)"

definition fn_checkpoint_context :: "function_context \<Rightarrow> snapshot_context" where
  "fn_checkpoint_context c = \<lparr>sc_operator_id = fc_operator_id c, sc_task_id = fc_task_id c,
     sc_checkpoint_id = fc_checkpoint_id c, sc_completed_checkpoint_id = fc_completed_checkpoint_id c\<rparr>"

text \<open>\<open>open\<close> returns the range it starts the consumer thread with beside the changed format.\<close>

definition unwrap_failure :: "'e failure + 'a \<Rightarrow> 'a res" where
  "unwrap_failure m = (case m of Inr x \<Rightarrow> Inr x | Inl (Panicked p) \<Rightarrow> Inl p | Inl (Failed _) \<Rightarrow> Inl Unwrap_none)"

definition kafka_open :: "kafka_client \<Rightarrow> offset_snapshot json \<Rightarrow> input_split \<Rightarrow> function_context \<Rightarrow> kafka_input_format
    \<Rightarrow> (kafka_input_format \<times> consumer_range) res" where
  "kafka_open K J input_split context fmt =
     rbind (unwrap_result (get_string ''topic'' (is_properties input_split))) (\<lambda>topic.
     rbind (unwrap_result (get_i32 ''partition'' (is_properties input_split))) (\<lambda>part.
     let fmt = fmt\<lparr>ki_task_topic := topic, ki_task_partition := part\<rparr>;
       kafka_checkpoint = kafka_checkpoint_new (fc_application_id context) (fc_task_id context) topic part in
     rbind (kafka_initialize_state J (fn_checkpoint_context context) (fc_checkpoint_handle context) kafka_checkpoint) (\<lambda>kafka_checkpoint.
     let fmt = fmt\<lparr>ki_checkpoint := Some kafka_checkpoint, ki_handover := True\<rparr> in
     rbind (unwrap_failure (consumer_ranges K fmt topic part)) (\<lambda>rng.
     Inr (fmt, rng)))))"

definition format_snapshot_state :: "offset_snapshot json \<Rightarrow> kafka_input_format \<Rightarrow> handle option res" where
  "format_snapshot_state J fmt = (case ki_checkpoint fmt of
     Some kc \<Rightarrow> kafka_snapshot_state J kc | None \<Rightarrow> Inr None)"

section \<open>Splits\<close>

text \<open>The inner loop over the partitions of a topic stops when the number of splits is reached.\<close>

fun topic_splits :: "string \<Rightarrow> u16 \<Rightarrow> i32 list \<Rightarrow> u16 \<times> input_split list \<Rightarrow> u16 \<times> input_split list" where
  "topic_splits topic min_num_splits [] (index, splits) = (index, splits)"
| "topic_splits topic min_num_splits (part # parts) (index, splits) =
     (let props = set_bool ''create_kafka_connection'' True (set_i32 ''partition'' part (set_str ''topic'' topic properties_new));
        splits = splits @ [input_split_new index props];
        index = index + 1 in
      if index = min_num_splits then (index, splits) else topic_splits topic min_num_splits parts (index, splits))"

definition extend_splits :: "input_split list \<Rightarrow> input_split list" where
  "extend_splits splits = map (\<lambda>s. input_split_new (is_split_number s)
     (set_bool ''create_kafka_connection'' False (is_properties s))) splits"

definition kafka_create_input_splits :: "kafka_client \<Rightarrow> kafka_input_format \<Rightarrow> u16 \<Rightarrow> kafka_error failure + input_split list" where
  "kafka_create_input_splits K fmt min_num_splits =
     rbind (map_sum (\<lambda>e. Failed (ClientError e)) id (kk_create K (ki_client_config fmt))) (\<lambda>_.
     rbind (fold_res (\<lambda>topic st.
        rbind (map_sum (\<lambda>e. Failed (ClientError e)) id (kk_partitions K topic)) (\<lambda>parts. case parts of
            None \<Rightarrow> Inl (Failed (TopicNotFound topic))
          | Some parts \<Rightarrow> Inr (topic_splits topic min_num_splits parts st))) (ki_topics fmt) (0, [])) (\<lambda>(_, splits).
     let n = unat min_num_splits in
     if length splits > n then Inl (Failed SplitsTooMany)
     else if length splits < n then
       (if length splits = 0 then Inl (Panicked Division_by_zero)
        else let times = (n + length splits - 1) div length splits in
          Inr (splits @ concat (replicate (times - 1) (extend_splits splits))))
     else Inr splits))"

section \<open>The consumer thread and the iterator\<close>

record kafka_message =
  km_topic :: string
  km_partition :: i32
  km_offset :: i64
  km_timestamp :: i64
  km_key :: "u8 list"
  km_payload :: "u8 list"

record consumer_record =
  cs_record :: rlink_record
  cs_offset :: i64

definition empty_record :: rlink_record where
  "empty_record = record_new"

definition is_empty_record :: "rlink_record \<Rightarrow> bool" where
  "is_empty_record r \<longleftrightarrow> length (rec_values r) = 0"

definition end_check :: "consumer_range \<Rightarrow> string \<Rightarrow> i32 \<Rightarrow> i64 \<Rightarrow> bool" where
  "end_check rng topic part v = (case cr_end_offset rng of
       None \<Rightarrow> False
     | Some e \<Rightarrow> cr_partition rng = part \<and> sint e < sint v \<and> cr_topic rng = topic)"

text \<open>
  The loop over the message stream: what it puts into the handover queue.  A message of the
  stream may be an error, which is logged; the deserializer \<open>D\<close> has a state.
\<close>

fun consumer_loop :: "('d \<Rightarrow> kafka_message \<Rightarrow> 'd \<times> rlink_record list) \<Rightarrow> consumer_range \<Rightarrow> 'd \<Rightarrow> (string + kafka_message) list \<Rightarrow> consumer_record list" where
  "consumer_loop D rng d [] = []"
| "consumer_loop D rng d (Inl e # ms) = consumer_loop D rng d ms"
| "consumer_loop D rng d (Inr m # ms) =
     (if end_check rng (km_topic m) (km_partition m) (km_offset m)
      then [\<lparr>cs_record = empty_record, cs_offset = 0\<rparr>]
      else let (d, records) = D d m in
        map (\<lambda>r. \<lparr>cs_record = r, cs_offset = km_offset m\<rparr>) records @ consumer_loop D rng d ms)"

definition consumer_run :: "kafka_client \<Rightarrow> ('d \<Rightarrow> kafka_message \<Rightarrow> 'd \<times> rlink_record list) \<Rightarrow> (string, string) hmap \<Rightarrow> consumer_range \<Rightarrow> 'd
    \<Rightarrow> (string + kafka_message) list \<Rightarrow> kafka_error + consumer_record list" where
  "consumer_run K D client_config rng d messages = (case map_of client_config ''group.id'' of
       None \<Rightarrow> Inl GroupIdMissing
     | Some _ \<Rightarrow> rbind (map_sum ClientError id (kk_create K client_config)) (\<lambda>_.
         Inr (consumer_loop D rng d messages)))"

text \<open>One \<open>next\<close> of the iterator on what the queue still delivers: the record or the end, the rest, the state.\<close>

fun kafka_next :: "consumer_record list \<Rightarrow> kafka_state_recorder \<Rightarrow> (rlink_record option \<times> consumer_record list \<times> kafka_state_recorder) option" where
  "kafka_next [] state = None"
| "kafka_next (c # queue) state =
     (if is_empty_record (cs_record c) then Some (None, queue, state)
      else Some (Some (cs_record c), queue, recorder_update (cs_offset c) state))"

fun kafka_take :: "nat \<Rightarrow> consumer_record list \<Rightarrow> kafka_state_recorder \<Rightarrow> rlink_record list \<times> kafka_state_recorder" where
  "kafka_take 0 queue state = ([], state)"
| "kafka_take (Suc n) queue state = (case kafka_next queue state of
     Some (Some r, queue, state) \<Rightarrow> (let (rs, state) = kafka_take n queue state in (r # rs, state))
   | _ \<Rightarrow> ([], state))"

section \<open>Ranges survive their properties\<close>

definition by_partition :: "partition_offset list \<Rightarrow> partition_offset list" where
  "by_partition po = sort_key (\<lambda>x. sint (po_partition x)) po"

text \<open>The offsets of a topic list its partitions from 0 on, in any order.\<close>

definition numbered :: "partition_offset list \<Rightarrow> bool" where
  "numbered po \<longleftrightarrow> po \<noteq> [] \<and> map po_partition (by_partition po) = map of_nat [0..<length po]"

definition same_offsets :: "(string, partition_offset list) hmap \<Rightarrow> (string, partition_offset list) hmap \<Rightarrow> bool" where
  "same_offsets m m' \<longleftrightarrow> map_of m' = map_option by_partition \<circ> map_of m"

fun same_range :: "offset_range \<Rightarrow> offset_range \<Rightarrow> bool" where
  "same_range Range_none r \<longleftrightarrow> r = Range_none"
| "same_range (Range_direct b e) r \<longleftrightarrow> (case r of Range_direct b' e' \<Rightarrow> same_offsets b b' \<and> rel_option same_offsets e e' | _ \<Rightarrow> False)"
| "same_range (Range_timestamp b e) r \<longleftrightarrow> (case r of Range_timestamp b' e' \<Rightarrow> map_of b' = map_of b \<and> rel_option (\<lambda>m m'. map_of m' = map_of m) e e' | _ \<Rightarrow> False)"

definition offsets_ok :: "(string, partition_offset list) hmap \<Rightarrow> bool" where
  "offsets_ok m \<longleftrightarrow> hm_ok m \<and> (\<forall>(t, po)\<in>set m. numbered po)"

fun range_ok :: "offset_range \<Rightarrow> bool" where
  "range_ok Range_none \<longleftrightarrow> True"
| "range_ok (Range_direct b e) \<longleftrightarrow> offsets_ok b \<and> (case e of Some m \<Rightarrow> m \<noteq> [] \<and> offsets_ok m | None \<Rightarrow> True)"
| "range_ok (Range_timestamp b e) \<longleftrightarrow> hm_ok b \<and> (case e of Some m \<Rightarrow> m \<noteq> [] \<and> hm_ok m | None \<Rightarrow> True)"

lemma split_no_comma: "CHR '','' \<notin> set s \<Longrightarrow> split_comma (s @ CHR '','' # r) = s # split_comma r" "CHR '','' \<notin> set s \<Longrightarrow> split_comma s = [s]"
  by (induction s) auto

lemma split_join: "ss \<noteq> [] \<Longrightarrow> \<forall>s\<in>set ss. CHR '','' \<notin> set s \<Longrightarrow> split_comma (join_comma ss) = ss"
  by (induction ss rule: join_comma.induct) (auto simp: split_no_comma)

lemma show_int_no_comma: "CHR '','' \<notin> set (show_int x)"
proof -
  have d: "CHR '','' \<noteq> digit_char k" if "k < 10" for k
  proof
    assume "CHR '','' = digit_char k"
    then have "char_digit (CHR '','') = Some k" using char_digit_char[OF that] by simp
    then show False by (simp add: char_digit_def)
  qed
  have "CHR '','' \<notin> set (show_nat n)" for n using show_nat_digits[of "CHR '',''" n] d by blast
  then show ?thesis by (simp add: show_int_def)
qed

lemma parse_all: "fold_res (\<lambda>s os. rbind (map_sum OffsetParse id (parse_signed s)) (\<lambda>v. Inr (os @ [v]))) (map (\<lambda>x. show_int (sint (po_offset x))) po) acc
    = Inr (acc @ map po_offset po)"
  by (induction po arbitrary: acc) simp_all

lemma parse_offsets_string:
  assumes "numbered po"
  shows "parse_offsets (offsets_string po) = Inr (by_partition po)"
proof -
  let ?s = "by_partition po"
  have l: "length ?s = length po" by (simp add: by_partition_def)
  then have ne: "?s \<noteq> []" "length ?s = length po" using assms unfolding numbered_def by (metis list.size(3) length_0_conv, simp)
  have "split_comma (offsets_string po) = map (\<lambda>x. show_int (sint (po_offset x))) ?s"
    unfolding offsets_string_def by_partition_def[symmetric] by (rule split_join) (use ne show_int_no_comma in auto)
  moreover have "map (\<lambda>(index, v). \<lparr>po_partition = of_nat index, po_offset = v\<rparr>) (List.enumerate 0 (map po_offset ?s)) = ?s"
  proof (rule nth_equalityI)
    fix i assume "i < length (map (\<lambda>(index, v). \<lparr>po_partition = of_nat index, po_offset = v\<rparr>) (List.enumerate 0 (map po_offset ?s)))"
    then have i: "i < length ?s" by simp
    have "map po_partition ?s ! i = map of_nat [0..<length po] ! i" using assms by (simp add: numbered_def)
    then have "po_partition (?s ! i) = of_nat i" using i ne(2) by simp
    then show "map (\<lambda>(index, v). \<lparr>po_partition = of_nat index, po_offset = v\<rparr>) (List.enumerate 0 (map po_offset ?s)) ! i = ?s ! i"
      using i by (simp add: nth_enumerate_eq)
  qed simp
  ultimately show ?thesis by (simp add: parse_offsets_def parse_all)
qed

text \<open>A map read entry by entry, when every entry can be read.\<close>

lemma read_entries:
  assumes "\<forall>(k, s)\<in>set kvs. f s = Inr (g s)" "distinct (map fst kvs)"
  shows "\<exists>m'. fold_res (\<lambda>(k, s) m. rbind (f s) (\<lambda>v. Inr (AList.update k v m))) kvs m = Inr m'
    \<and> map_of m' = map_of m ++ (map_option g \<circ> map_of kvs) \<and> (m' = [] \<longleftrightarrow> m = [] \<and> kvs = [])"
  using assms
proof (induction kvs arbitrary: m)
  case Nil
  then show ?case by (simp add: comp_def)
next
  case (Cons kv kvs)
  obtain k s where kv: "kv = (k, s)" by force
  have new: "map_of kvs k = None" using Cons.prems(2) kv by (simp add: map_of_eq_None_iff)
  have "\<exists>m'. fold_res (\<lambda>(k, s) m. rbind (f s) (\<lambda>v. Inr (AList.update k v m))) kvs (AList.update k (g s) m) = Inr m'
    \<and> map_of m' = map_of (AList.update k (g s) m) ++ (map_option g \<circ> map_of kvs) \<and> (m' = [] \<longleftrightarrow> AList.update k (g s) m = [] \<and> kvs = [])"
    by (rule Cons.IH) (use Cons.prems in auto)
  then obtain m' where m': "fold_res (\<lambda>(k, s) m. rbind (f s) (\<lambda>v. Inr (AList.update k v m))) kvs (AList.update k (g s) m) = Inr m'"
    "map_of m' = map_of (AList.update k (g s) m) ++ (map_option g \<circ> map_of kvs)" "m' = [] \<longleftrightarrow> AList.update k (g s) m = [] \<and> kvs = []"
    by blast
  have "AList.update k (g s) m \<noteq> []" by (cases m) auto
  moreover have "map_of m' = map_of m ++ (map_option g \<circ> map_of (kv # kvs))"
    using m'(2) new kv by (auto simp: fun_eq_iff map_add_def split: option.splits)
  moreover have "fold_res (\<lambda>(k, s) m. rbind (f s) (\<lambda>v. Inr (AList.update k v m))) (kv # kvs) m = Inr m'"
    using m'(1) Cons.prems(1) kv by simp
  ultimately show ?case using m'(3) by blast
qed

lemma add_as_extend:
  "add_direct it pre m p = extend_sub_properties (\<lambda>xs. xs) pre \<lparr>pr_name = [], pr_map = map (\<lambda>(t, po). (t, offsets_string po)) (it m)\<rparr> p"
  "add_timestamp it' pre n p = extend_sub_properties (\<lambda>xs. xs) pre \<lparr>pr_name = [], pr_map = map (\<lambda>(t, v). (t, show_nat (unat v))) (it' n)\<rparr> p"
  by (simp_all add: add_direct_def add_timestamp_def extend_sub_properties_def fold_map comp_def set_string_def set_u64_def case_prod_unfold)

lemma hm_ok_to_sub: "hm_ok (pr_map (to_sub_properties it pre p))"
proof -
  have "hm_ok (pr_map q) \<Longrightarrow> hm_ok (pr_map (fold (\<lambda>(key, v) p. if starts_with pre_key key then set_string (drop (length pre_key) key) v p else p) kvs q))"
    for kvs q pre_key by (induction kvs arbitrary: q) (auto simp: set_string_def)
  then show ?thesis by (simp add: to_sub_properties_def to_sub_properties_with_name_def properties_new_def Let_def)
qed

lemma sub_lookup:
  assumes "iteration_order it" "hm_ok (pr_map p)"
  shows "map_of (pr_map (to_sub_properties it pre p)) k = map_of (pr_map p) (pre @ ''.'' @ k)"
  unfolding to_sub_properties_def by (rule to_sub_lookup[OF assms])

text \<open>The two sections of the properties of a range, after the type has been written.\<close>

definition typed_sections :: "string \<Rightarrow> (string, string) hmap \<Rightarrow> (string, string) hmap option \<Rightarrow> properties" where
  "typed_sections ty b e = (let p = extend_sub_properties (\<lambda>xs. xs) ''begin'' \<lparr>pr_name = [], pr_map = b\<rparr> (set_str ''type'' ty properties_new) in
     case e of Some e \<Rightarrow> extend_sub_properties (\<lambda>xs. xs) ''end'' \<lparr>pr_name = [], pr_map = e\<rparr> p | None \<Rightarrow> p)"

lemma typed_sections_lookup:
  fixes ty :: string
  assumes "hm_ok b" "case e of Some e \<Rightarrow> hm_ok e | None \<Rightarrow> True"
  defines "p \<equiv> typed_sections ty b e"
  shows "get_string ''type'' p = Inr ty" "map_of (pr_map p) (''begin'' @ ''.'' @ k) = map_of b k"
    "map_of (pr_map p) (''end'' @ ''.'' @ k) = (case e of Some e \<Rightarrow> map_of e k | None \<Rightarrow> None)" "hm_ok (pr_map p)"
proof -
  let ?p0 = "set_str ''type'' ty properties_new"
  let ?q = "\<lambda>m. \<lparr>pr_name = [], pr_map = m\<rparr>"
  let ?p1 = "extend_sub_properties (\<lambda>xs. xs) ''begin'' (?q b) ?p0"
  note io = insertion_order.iteration_order_axioms
  have p0: "map_of (pr_map ?p0) = [''type'' \<mapsto> ty]" "hm_ok (pr_map ?p0)" by (simp_all add: set_str_def properties_new_def hm_ok_def)
  have p1: "map_of (pr_map ?p1) ''type'' = Some ty" "map_of (pr_map ?p1) (''begin'' @ ''.'' @ k) = map_of b k"
    "map_of (pr_map ?p1) (''end'' @ ''.'' @ k) = None" "hm_ok (pr_map ?p1)"
    using extend_sub_lookup[OF io, where q = "?q b" and pre = "''begin''" and self = ?p0] assms(1) p0 by (auto split: option.splits)
    show "get_string ''type'' p = Inr ty"
      using p1 extend_sub_lookup(2)[OF io, where q = "?q (the e)" and key = "''type''" and pre = "''end''" and self = ?p1] assms(2)
      by (cases e) (auto simp: p_def typed_sections_def get_string_def Let_def)
    show "map_of (pr_map p) (''begin'' @ ''.'' @ k) = map_of b k"
      using p1 extend_sub_lookup(2)[OF io, where q = "?q (the e)" and key = "''begin'' @ ''.'' @ k" and pre = "''end''" and self = ?p1] assms(2)
      by (cases e) (auto simp: p_def typed_sections_def Let_def)
    show "map_of (pr_map p) (''end'' @ ''.'' @ k) = (case e of Some e \<Rightarrow> map_of e k | None \<Rightarrow> None)"
      using p1 extend_sub_lookup(1)[OF io, where q = "?q (the e)" and k = k and pre = "''end''" and self = ?p1] assms(2)
      by (cases e) (auto simp: p_def typed_sections_def Let_def split: option.splits)
    show "hm_ok (pr_map p)"
      using p1 extend_sub_lookup(3)[OF io, where q = "?q (the e)" and pre = "''end''" and self = ?p1] assms(2)
      by (cases e) (auto simp: p_def typed_sections_def Let_def)
qed

section \<open>The range round trip\<close>

lemma read_section:
  assumes it: "iteration_order it" "hm_ok (pr_map p)"
    and enc: "\<And>k. map_of (pr_map p) (pre @ ''.'' @ k) = map_option enc (M k)" "\<And>k v. M k = Some v \<Longrightarrow> f (enc v) = Inr (dec v)"
  shows "\<exists>m'. fold_res (\<lambda>(k, s) m. rbind (f s) (\<lambda>v. Inr (AList.update k v m))) (it (pr_map (to_sub_properties it pre p))) [] = Inr m'
    \<and> map_of m' = map_option dec \<circ> M \<and> (m' = [] \<longleftrightarrow> M = Map.empty)"
proof -
  let ?sub = "pr_map (to_sub_properties it pre p)"
  let ?g = "\<lambda>s. case f s of Inr v \<Rightarrow> v | Inl _ \<Rightarrow> undefined"
  have sub: "map_of ?sub = map_option enc \<circ> M" using sub_lookup[OF it, of pre] enc(1) by (simp add: fun_eq_iff)
  have kvs: "map_of (it ?sub) = map_of ?sub" "distinct (map fst (it ?sub))"
    using map_of_it[OF it(1) hm_ok_to_sub] hm_ok_to_sub[of it pre p] iteration_order.mset_it[OF it(1)]
    by (auto simp: hm_ok_def) (metis mset_eq_imp_distinct_iff mset_map)
  have g: "f s = Inr (?g s)" if "(k, s) \<in> set (it ?sub)" for k s
  proof -
    have "map_option enc (M k) = Some s" using map_of_is_SomeI[OF kvs(2) that] kvs(1) sub by simp
    then show ?thesis using enc(2)[of k] by auto
  qed
  have "map_option ?g \<circ> (map_option enc \<circ> M) = map_option dec \<circ> M"
    using enc(2) by (auto simp: fun_eq_iff option.map_comp comp_def intro!: option.map_cong0 split: option.splits)
  moreover have "it ?sub = [] \<longleftrightarrow> M = Map.empty"
    using kvs(1) sub by (metis map_of_eq_empty_iff map_option_is_None comp_apply ext)
  ultimately show ?thesis using read_entries[of "it ?sub" f ?g "[]"] g kvs sub by (auto simp: comp_def)
qed

lemma coded_map: "iteration_order it \<Longrightarrow> hm_ok m \<Longrightarrow> map_of (map (\<lambda>(t, v). (t, c v)) (it m)) = map_option c \<circ> map_of m"
  by (simp add: map_of_map map_of_it)

lemma coded_ok:
  assumes "iteration_order it" "hm_ok m"
  shows "hm_ok (map (\<lambda>(t, v). (t, c v)) (it m))"
proof -
  have "mset (map fst (it m)) = mset (map fst m)" using iteration_order.mset_it[OF assms(1), of m] by simp
  from mset_eq_imp_distinct_iff[OF this] show ?thesis using assms(2) by (simp add: hm_ok_def case_prod_unfold comp_def)
qed

text \<open>Both kinds of maps at once: the two sections are read back when every value can be.\<close>

lemma sections_read:
  fixes ty :: string
  assumes it: "iteration_order it" "iteration_order it3" and ok: "hm_ok b" "case e of Some e \<Rightarrow> hm_ok e \<and> e \<noteq> [] | None \<Rightarrow> True"
    and dec: "\<forall>m k v. m = b \<or> e = Some m \<longrightarrow> map_of m k = Some v \<longrightarrow> f (c v) = Inr (dec v)"
  defines "p \<equiv> typed_sections ty (map (\<lambda>(t, v). (t, c v)) (it b)) (map_option (\<lambda>e. map (\<lambda>(t, v). (t, c v)) (it e)) e)"
    and "rd \<equiv> \<lambda>sub. fold_res (\<lambda>(k, s) m. rbind (f s) (\<lambda>v. Inr (AList.update k v m))) (it3 (pr_map sub)) []"
  shows "get_string ''type'' p = Inr ty"
    and "\<exists>b' e'. rd (to_sub_properties it3 ''begin'' p) = Inr b' \<and> rd (to_sub_properties it3 ''end'' p) = Inr e' \<and> map_of b' = map_option dec \<circ> map_of b
      \<and> rel_option (\<lambda>m m'. map_of m' = map_option dec \<circ> map_of m) e (if e' = [] then None else Some e')"
proof -
  let ?E = "map_option (\<lambda>e. map (\<lambda>(t, v). (t, c v)) (it e)) e"
  have ok': "hm_ok (map (\<lambda>(t, v). (t, c v)) (it b))" "case ?E of Some e \<Rightarrow> hm_ok e | None \<Rightarrow> True"
    using coded_ok[OF it(1) ok(1)] coded_ok[OF it(1)] ok(2) by (auto split: option.splits)
  note l = typed_sections_lookup[OF ok', of ty, folded p_def]
  show "get_string ''type'' p = Inr ty" by (rule l(1))
  have kb: "map_of (pr_map p) (''begin'' @ ''.'' @ k) = map_option c (map_of b k)" for k using l(2)[of k] coded_map[OF it(1) ok(1), of c] by simp
  define M where "M = (case e of Some e \<Rightarrow> map_of e | None \<Rightarrow> Map.empty)"
  have ke: "map_of (pr_map p) (''end'' @ ''.'' @ k) = map_option c (M k)" for k
    using l(3)[of k] coded_map[OF it(1), of _ c] ok(2) by (cases e) (simp_all add: M_def)
  obtain b' where b': "rd (to_sub_properties it3 ''begin'' p) = Inr b'" "map_of b' = map_option dec \<circ> map_of b"
    using read_section[OF it(2) l(4), of "''begin''" c "map_of b" f dec] kb dec unfolding rd_def by blast
  have "f (c v) = Inr (dec v)" if "M k = Some v" for k v using dec that by (cases e) (auto simp: M_def)
  then obtain e' where e': "rd (to_sub_properties it3 ''end'' p) = Inr e'" "map_of e' = map_option dec \<circ> M" "e' = [] \<longleftrightarrow> M = Map.empty"
    using read_section[OF it(2) l(4), of "''end''" c M f dec] ke unfolding rd_def by blast
  have "rel_option (\<lambda>m m'. map_of m' = map_option dec \<circ> map_of m) e (if e' = [] then None else Some e')"
    using e'(2,3) ok(2) by (cases e) (auto simp: M_def)
  then show "\<exists>b' e'. rd (to_sub_properties it3 ''begin'' p) = Inr b' \<and> rd (to_sub_properties it3 ''end'' p) = Inr e' \<and> map_of b' = map_option dec \<circ> map_of b
      \<and> rel_option (\<lambda>m m'. map_of m' = map_option dec \<circ> map_of m) e (if e' = [] then None else Some e')" using b' e'(1) by blast
qed

text \<open>
  The range of a Kafka source as properties.  A range whose topics list the offsets of their
  partitions from 0 on, or a time per topic, is read back from its properties as the same range,
  in whatever order the maps iterate: the same topics with the offsets in the order of the
  partitions, the same times, an end exactly when there was one.
\<close>

lemma offset_range_roundtrip:
  assumes it: "iteration_order it" "iteration_order it'" "iteration_order it3" and ok: "range_ok r"
  shows "\<exists>r'. offset_range_try_from it3 (offset_range_into it it' r) = Inr r' \<and> same_range r r'"
proof (cases r)
  case Range_none
  have "to_sub_properties it3 pre properties_new = properties_new" for pre
    using iteration_order.it_Nil[OF it(3)] by (simp add: to_sub_properties_def to_sub_properties_with_name_def properties_new_def)
  then show ?thesis using Range_none by (simp add: offset_range_try_from_def get_string_def properties_new_def)
next
  case (Range_direct b e)
  let ?p = "offset_range_into it it' r"
  have p: "?p = typed_sections ''direct'' (map (\<lambda>(t, v). (t, offsets_string v)) (it b)) (map_option (\<lambda>e. map (\<lambda>(t, v). (t, offsets_string v)) (it e)) e)"
    by (simp add: Range_direct typed_sections_def add_as_extend Let_def split: option.splits)
  have m: "hm_ok b" "case e of Some e \<Rightarrow> hm_ok e \<and> e \<noteq> [] | None \<Rightarrow> True" using ok Range_direct by (auto simp: offsets_ok_def split: option.splits)
  have dec: "\<forall>m k v. m = b \<or> e = Some m \<longrightarrow> map_of m k = Some v \<longrightarrow> parse_offsets (offsets_string v) = Inr (by_partition v)"
    using ok Range_direct by (auto simp: offsets_ok_def dest!: map_of_SomeD intro!: parse_offsets_string)
  note s = sections_read[where f = parse_offsets and c = offsets_string and dec = by_partition and ty = "''direct''" and it = it, OF it(1,3) m dec, folded p parse_direct_def]
  show ?thesis using s Range_direct by (auto simp: offset_range_try_from_def same_offsets_def[abs_def] Let_def simp del: offset_range_into.simps)
next
  case (Range_timestamp b e)
  let ?p = "offset_range_into it it' r" and ?c = "\<lambda>v. show_nat (unat v)"
  have p: "?p = typed_sections ''timestamp'' (map (\<lambda>(t, v). (t, ?c v)) (it' b)) (map_option (\<lambda>e. map (\<lambda>(t, v). (t, ?c v)) (it' e)) e)"
    by (simp add: Range_timestamp typed_sections_def add_as_extend Let_def split: option.splits)
  have m: "hm_ok b" "case e of Some e \<Rightarrow> hm_ok e \<and> e \<noteq> [] | None \<Rightarrow> True" using ok Range_timestamp by (auto split: option.splits)
  note s = sections_read[where f = "\<lambda>t. map_sum OffsetParse id (parse_unsigned t :: int_error + u64)" and c = ?c and dec = "\<lambda>v. v" and ty = "''timestamp''" and it = it',
      OF it(2,3) m, simplified, folded p parse_timestamps_def]
  show ?thesis using s Range_timestamp by (auto simp: offset_range_try_from_def Let_def option.map_ident comp_def simp del: offset_range_into.simps)
qed

section \<open>A restarted source goes on\<close>

definition received :: "(string + kafka_message) list \<Rightarrow> kafka_message list" where
  "received ms = concat (map (\<lambda>x. case x of Inr m \<Rightarrow> [m] | Inl _ \<Rightarrow> []) ms)"

text \<open>
  A partition as Kafka documents it: its messages have rising offsets, and a consumer assigned
  at an offset receives, errors aside, the messages from that offset on.
\<close>

locale kafka_log =
  fixes log :: "kafka_message list" and stream :: "i64 \<Rightarrow> (string + kafka_message) list"
  assumes rising: "sorted_wrt (\<lambda>m m'. sint (km_offset m) < sint (km_offset m')) log"
    and nonnegative: "m \<in> set log \<Longrightarrow> 0 \<le> sint (km_offset m)"
    and from_offset: "0 \<le> sint b \<Longrightarrow> received (stream b) = filter (\<lambda>m. sint b \<le> sint (km_offset m)) log"
begin

text \<open>Assigned at the offset of one of the messages it received, a consumer receives the same messages from there on.\<close>

lemma reassigned:
  assumes "0 \<le> sint b" "k < length (received (stream b))"
  shows "received (stream (km_offset (received (stream b) ! k))) = drop k (received (stream b))"
proof -
  let ?ms = "received (stream b)" let ?c = "km_offset (?ms ! k)"
  have ms: "?ms = filter (\<lambda>m. sint b \<le> sint (km_offset m)) log" by (rule from_offset[OF assms(1)])
  have in_log: "?ms ! k \<in> set log" "sint b \<le> sint ?c" using nth_mem[OF assms(2)] ms by auto
  have sorted: "sorted_wrt (\<lambda>m m'. sint (km_offset m) < sint (km_offset m')) ?ms" unfolding ms by (rule sorted_wrt_filter[OF rising])
  have narrow: "filter (\<lambda>m. z \<le> sint (km_offset m)) log = filter (\<lambda>m. z \<le> sint (km_offset m)) ?ms" if "sint b \<le> z" for z
    unfolding ms filter_filter using that by (intro filter_cong) auto
  have "received (stream ?c) = filter (\<lambda>m. sint ?c \<le> sint (km_offset m)) log" by (rule from_offset[OF nonnegative[OF in_log(1)]])
  also have "\<dots> = filter (\<lambda>m. sint ?c \<le> sint (km_offset m)) ?ms" by (rule narrow[OF in_log(2)])
  also have "\<dots> = filter (\<lambda>m. sint ?c \<le> sint (km_offset m)) (take k ?ms) @ filter (\<lambda>m. sint ?c \<le> sint (km_offset m)) (drop k ?ms)"
    by (metis append_take_drop_id filter_append)
  also have "filter (\<lambda>m. sint ?c \<le> sint (km_offset m)) (take k ?ms) = []"
    using sorted assms(2) by (fastforce simp: filter_empty_conv in_set_conv_nth sorted_wrt_iff_nth_less not_le)
  also have "filter (\<lambda>m. sint ?c \<le> sint (km_offset m)) (drop k ?ms) = drop k ?ms"
  proof (rule filter_True, rule ballI)
    fix m assume "m \<in> set (drop k ?ms)"
    then obtain j where "j < length (drop k ?ms)" "m = drop k ?ms ! j" by (metis in_set_conv_nth)
    then have j: "k + j < length ?ms" "m = ?ms ! (k + j)" by simp_all
    then show "sint ?c \<le> sint (km_offset m)" using sorted_wrt_nth_less[OF sorted, of k "k + j"] by (cases j) simp_all
  qed
  finally show ?thesis by simp
qed

end

lemma consumer_loop_all:
  assumes "\<And>d m. D d m = (d, R m)" "cr_end_offset rng = None"
  shows "consumer_loop D rng d ms = concat (map (\<lambda>m. map (\<lambda>r. \<lparr>cs_record = r, cs_offset = km_offset m\<rparr>) (R m)) (received ms))"
proof (induction ms)
  case Nil
  then show ?case by (simp add: received_def)
next
  case (Cons x ms)
  then show ?case by (cases x) (simp_all add: assms received_def end_check_def)
qed

lemma kafka_take_prefix:
  assumes "\<forall>c\<in>set queue. \<not> is_empty_record (cs_record c)" "n \<le> length queue"
  shows "kafka_take n queue state = (map cs_record (take n queue), if n = 0 then state else recorder_update (cs_offset (queue ! (n - 1))) state)"
  using assms
proof (induction n arbitrary: queue state)
  case 0
  then show ?case by simp
next
  case (Suc n)
  then obtain c q where q: "queue = c # q" by (cases queue) auto
  then show ?case using Suc.IH[of q "recorder_update (cs_offset c) state"] Suc.prems by (cases n) (auto simp: recorder_update_def)
qed

text \<open>Which message the \<open>n\<close>-th record comes from.\<close>

lemma nth_concat_block:
  "0 < n \<Longrightarrow> n \<le> length (concat (map f xs)) \<Longrightarrow> \<exists>k<length xs. length (concat (map f (take k xs))) < n
     \<and> n \<le> length (concat (map f (take (Suc k) xs))) \<and> concat (map f xs) ! (n - 1) \<in> set (f (xs ! k))"
proof (induction xs arbitrary: n)
  case Nil
  then show ?case by simp
next
  case (Cons x xs)
  show ?case
  proof (cases "n \<le> length (f x)")
    case True
    then have "n - 1 < length (f x)" using Cons.prems(1) by simp
    then show ?thesis using Cons.prems True by (intro exI[of _ 0]) (simp add: nth_append)
  next
    case False
    then have "n - length (f x) \<le> length (concat (map f xs))" "0 < n - length (f x)" using Cons.prems by simp_all
    then obtain k where "k < length xs" "length (concat (map f (take k xs))) < n - length (f x)"
      "n - length (f x) \<le> length (concat (map f (take (Suc k) xs)))" "concat (map f xs) ! (n - length (f x) - 1) \<in> set (f (xs ! k))"
      using Cons.IH[of "n - length (f x)"] by blast
    then show ?thesis using False by (intro exI[of _ "Suc k"]) (auto simp: nth_append diff_commute)
  qed
qed

lemma snapshot_restores:
  assumes "json_codec J" "kr_topic r = topic" "kr_partition r = part"
  shows "recorder_update_from_snapshot J (recorder_snapshot J r) (recorder_new topic part) = Inr r"
  using assms json_codec.json_roundtrip[OF assms(1)]
  by (cases r) (auto simp: recorder_update_from_snapshot_def recorder_snapshot_def recorder_new_def recorder_update_def)

lemma reopened_at:
  assumes J: "json_codec J" and r: "kr_topic r = topic" "kr_partition r = part" "0 \<le> sint (kr_offset r)"
    and sp: "get_string ''topic'' (is_properties sp) = Inr topic" "get_i32 ''partition'' (is_properties sp) = Inr part"
    and ctx: "fc_checkpoint_handle ctx = Some (recorder_snapshot J r)" "\<not> ck_is_default (fc_checkpoint_id ctx)"
    and fmt: "ki_offset_range fmt = Range_none"
  shows "\<exists>fmt'. kafka_open K J sp ctx fmt = Inr (fmt', \<lparr>cr_topic = topic, cr_partition = part, cr_begin_offset = kr_offset r, cr_end_offset = None\<rparr>)"
proof -
  have "kr_offset r \<noteq> i64_min" using r(3) by (auto simp: i64_min_def)
  then have "recorder_get r = Some (kr_offset r)" by (simp add: recorder_get_def)
  then show ?thesis using assms snapshot_restores[OF J r(1,2)]
    by (simp add: kafka_open_def unwrap_result_def kafka_initialize_state_def kafka_checkpoint_new_def fn_checkpoint_context_def
        as_state_mut_def consumer_ranges_def range_bounds_def unwrap_failure_def Let_def)
qed

section \<open>Restarts and splits\<close>


definition two_messages :: "kafka_message list" where
  "two_messages = [\<lparr>km_topic = ''t'', km_partition = 0, km_offset = 3, km_timestamp = 0, km_key = [], km_payload = [1]\<rparr>,
     \<lparr>km_topic = ''t'', km_partition = 0, km_offset = 5, km_timestamp = 0, km_key = [], km_payload = [2]\<rparr>]"

definition plain_stream :: "kafka_message list \<Rightarrow> i64 \<Rightarrow> (string + kafka_message) list" where
  "plain_stream log b = map Inr (filter (\<lambda>m. sint b \<le> sint (km_offset m)) log)"

lemma received_plain: "received (map Inr ms) = ms"
  by (induction ms) (simp_all add: received_def)

interpretation two: kafka_log two_messages "plain_stream two_messages"
  by unfold_locales (auto simp: two_messages_def plain_stream_def received_plain)

text \<open>A JSON text for the snapshots, as the settings have one.\<close>

definition snapshot_json :: "offset_snapshot json" where
  "snapshot_json = \<lparr>js_to_string = (\<lambda>s. mark (os_topic s) @ mark (show_nat (unat (os_partition s)))
       @ (case os_offset s of None \<Rightarrow> ''N'' | Some v \<Rightarrow> CHR ''S'' # show_nat (unat v))),
     js_from_str = (\<lambda>s. let (topic, r) = unmark s; (part, r) = unmark r in
       Inr \<lparr>os_topic = topic, os_partition = of_nat (the (parse_nat part)),
         os_offset = (if r = ''N'' then None else Some (of_nat (the (parse_nat (tl r)))))\<rparr>)\<rparr>"

interpretation snapshot: json_codec snapshot_json
proof
  fix s :: offset_snapshot
  show "js_from_str snapshot_json (js_to_string snapshot_json s) = Inr s"
    by (cases s) (simp add: snapshot_json_def unmark_mark split: option.splits)
qed

definition payload_record :: "unit \<Rightarrow> kafka_message \<Rightarrow> unit \<times> rlink_record list" where
  "payload_record d m = (d, [record_new\<lparr>rec_values := km_payload m\<rparr>])"

definition whole_partition :: consumer_range where
  "whole_partition = \<lparr>cr_topic = ''t'', cr_partition = 0, cr_begin_offset = 0, cr_end_offset = None\<rparr>"

definition first_split :: input_split where
  "first_split = input_split_new 0 (set_i32 ''partition'' 0 (set_str ''topic'' ''t'' properties_new))"

definition plain_format :: kafka_input_format where
  "plain_format = kafka_input_format_new [] [''t''] 10 Range_none Empty 1 ''Kafka''"

lemma i32_zero: "parse_signed (show_int 0) = Inr (0 :: 32 word)"
  using parse_signed_show[of "0 :: 32 word"] by simp

lemma first_split_read: "get_string ''topic'' (is_properties first_split) = Inr ''t''" "get_i32 ''partition'' (is_properties first_split) = Inr 0"
  by (simp_all add: first_split_def input_split_new_def set_i32_def set_str_def set_string_def properties_new_def get_string_def get_i32_def
      get_parsed_def i32_zero)

definition restored_context :: "string \<Rightarrow> function_context" where
  "restored_context h = \<lparr>fc_application_id = ''app'', fc_application_properties = properties_new, fc_operator_id = OperatorId 0,
     fc_task_id = \<lparr>t_job_id = JobId 0, t_task_number = 0, t_num_tasks = 1\<rparr>, fc_checkpoint_id = CheckpointId 7, fc_completed_checkpoint_id = None,
     fc_checkpoint_handle = Some h, fc_input_schema = Empty, fc_output_schema = Empty, fc_children = [], fc_parents = []\<rparr>"

definition plain_client :: kafka_client where
  "plain_client = \<lparr>kk_create = (\<lambda>_. Inr ()), kk_offsets_for_times = (\<lambda>_ _ _. Inr None), kk_offset_end = - 1,
     kk_partitions = (\<lambda>_. Inr (Some [0, 1, 2]))\<rparr>"


section \<open>The number of splits\<close>

definition topic_split :: "string \<Rightarrow> nat \<Rightarrow> i32 \<Rightarrow> input_split" where
  "topic_split topic i part = input_split_new (of_nat i)
     (set_bool ''create_kafka_connection'' True (set_i32 ''partition'' part (set_str ''topic'' topic properties_new)))"

lemma topic_splits_take:
  assumes "i < unat n"
  shows "\<exists>index. topic_splits topic n parts (of_nat i, splits)
    = (index, splits @ map (\<lambda>(j, part). topic_split topic j part) (List.enumerate i (take (unat n - i) parts)))"
  using assms
proof (induction parts arbitrary: i splits)
  case Nil
  then show ?case by simp
next
  case (Cons part parts)
  have suc: "of_nat (Suc i) = (of_nat i + 1 :: u16)" by simp
  have step: "of_nat i + 1 = n \<longleftrightarrow> Suc i = unat n"
  proof
    assume e: "of_nat i + 1 = n"
    have "unat (of_nat (Suc i) :: u16) = Suc i mod 65536" by (simp only: unat_of_nat take_bit_eq_mod) simp
    then show "Suc i = unat n" using Cons.prems e unsigned_less[of n, where 'a = nat] unfolding suc by simp
  next
    assume "Suc i = unat n"
    then have "of_nat (Suc i) = n" by (simp only: of_nat_unat ucast_id)
    then show "of_nat i + 1 = n" unfolding suc .
  qed
  show ?case
  proof (cases "Suc i = unat n")
    case True
    then have "unat n - i = 1" "of_nat i + 1 = n" using step by simp_all
    then show ?thesis by (simp add: topic_split_def Let_def)
  next
    case False
    then have "Suc i < unat n" using Cons.prems by simp
    moreover have "unat n - i = Suc (unat n - Suc i)" using Cons.prems by simp
    moreover have "of_nat i + 1 \<noteq> n" using step False by blast
    ultimately show ?thesis using Cons.IH[of "Suc i" "splits @ [topic_split topic i part]"] unfolding suc
      by (simp add: topic_split_def Let_def)
  qed
qed

text \<open>
  C36: the splits of a Kafka topic.  For one topic the first splits are its first partitions, one
  each; there are as many splits as tasks exactly when the topic has at least that many
  partitions or their number divides the number of tasks, and otherwise there are too many, which
  the planner then refuses.
\<close>

theorem kafka_splits:
  assumes "kk_create K (ki_client_config fmt) = Inr ()" "ki_topics fmt = [topic]" "kk_partitions K topic = Inr (Some parts)"
    and "parts \<noteq> []" "0 < n"
  defines "p \<equiv> min (unat n) (length parts)"
  shows "\<exists>splits. kafka_create_input_splits K fmt n = Inr splits \<and> take p splits = map (\<lambda>i. topic_split topic i (parts ! i)) [0..<p]
    \<and> unat n \<le> length splits \<and> (length splits = unat n \<longleftrightarrow> unat n \<le> length parts \<or> length parts dvd unat n)"
proof -
  let ?first = "map (\<lambda>i. topic_split topic i (parts ! i)) [0..<p]"
  have n: "0 < unat n" using assms(5) by (simp add: unat_gt_0 word_neq_0_conv)
  have e: "map (\<lambda>(j, part). topic_split topic j part) (List.enumerate 0 (take (unat n) parts)) = ?first"
    by (rule nth_equalityI) (simp_all add: p_def nth_enumerate_eq min.commute)
  obtain index where t: "topic_splits topic n parts (0, []) = (index, ?first)"
    using topic_splits_take[of 0 n topic parts "[]"] n e by auto
  have p: "0 < p" "p \<le> unat n" "length ?first = p" using n assms(4) by (simp_all add: p_def)
  have c: "kafka_create_input_splits K fmt n = (if p < unat n
      then Inr (?first @ concat (replicate ((unat n + p - 1) div p - 1) (extend_splits ?first))) else Inr ?first)"
    using assms(1-3) t p by (simp add: kafka_create_input_splits_def Let_def)
  show ?thesis
  proof (cases "p < unat n")
    case True
    then have pl: "p = length parts" by (simp add: p_def)
    let ?t = "(unat n + p - 1) div p"
    have "1 \<le> ?t" using p True by (simp add: div_greater_zero_iff Suc_le_eq)
    then have len: "length (?first @ concat (replicate (?t - 1) (extend_splits ?first))) = p * ?t"
      by (simp add: extend_splits_def length_concat sum_list_replicate algebra_simps)
    have up: "unat n \<le> p * ?t"
    proof -
      have "unat n + p - 1 = p * ?t + (unat n + p - 1) mod p" by simp
      moreover have "(unat n + p - 1) mod p < p" using p(1) by simp
      ultimately show ?thesis by linarith
    qed
    have "p * ?t = unat n \<longleftrightarrow> p dvd unat n"
    proof
      assume "p dvd unat n"
      then obtain q where q: "unat n = p * q" by (rule dvdE)
      have "(p * q + (p - 1)) div p = q + (p - 1) div p" using p(1) by (intro div_mult_self4) simp
      then have "(p * q + (p - 1)) div p = q" using p(1) by simp
      moreover have "unat n + p - 1 = p * q + (p - 1)" using q p(1) by simp
      ultimately show "p * ?t = unat n" using q by simp
    qed (metis dvd_triv_left)
    then show ?thesis using c True len up pl p by auto
  next
    case False
    then show ?thesis using c p by (auto simp: p_def)
  qed
qed

theorem kafka_splits_witness:
  "\<exists>splits. kafka_create_input_splits plain_client plain_format 4 = Inr splits \<and> 4 < length splits"
proof -
  have p: "kk_create plain_client (ki_client_config plain_format) = Inr ()" "ki_topics plain_format = [''t'']"
    "kk_partitions plain_client ''t'' = Inr (Some [0, 1, 2])" "[0, 1, 2 :: i32] \<noteq> []" "0 < (4 :: u16)"
    by (simp_all add: plain_client_def plain_format_def kafka_input_format_new_def)
  have "\<not> length [0, 1, 2 :: i32] dvd unat (4 :: u16)" by (simp add: dvd_eq_mod_eq_0)
  then show ?thesis using kafka_splits[OF p] by (auto simp: le_less dvd_eq_mod_eq_0)
qed

end
