(* ===== verification/Batch_Sinks.thy ===== *)
theory Batch_Sinks
  imports Kafka_Source
begin

text \<open>
  The sinks that collect records in batches: the handover queue
  (\<open>rlink/src/channel/utils/handover.rs\<close>), ClickHouse
  (\<open>rlink-connectors/connector-clickhouse/src/clickhouse_sink.rs\<close>), Elasticsearch
  (\<open>connector-elasticsearch/src/elasticsearch_sink.rs\<close>) and the Kafka producer
  (\<open>connector-kafka/src/sink/producer.rs\<close>).  The clients are parameters; what the polls of the queue
  return, and what the clock shows at each of them, are arguments.  The lemmas: what one round
  of each sink takes from the queue and what it hands to the client; a round of the ClickHouse sink
  that finds one record at its first poll throws it away.
\<close>

section \<open>The handover queue\<close>

definition named_channel :: "('a, 'q) crossbeam \<Rightarrow> nat \<Rightarrow> 'q channel" where
  "named_channel X cap = named_channel_with_base X cap Unbounded"

definition handover_new :: "('a, 'q) crossbeam \<Rightarrow> nat \<Rightarrow> 'q channel" where
  "handover_new X buffer_size = named_channel X buffer_size"

definition try_poll_next :: "('a, 'q) crossbeam \<Rightarrow> 'q channel \<Rightarrow> try_recv_error + ('a \<times> 'q channel)" where
  "try_poll_next X h = try_recv X h"

definition try_produce :: "('a, 'q) crossbeam \<Rightarrow> 'q channel \<Rightarrow> 'a \<Rightarrow> 'a try_send_error + 'q channel" where
  "try_produce X h r = try_send X h r"

section \<open>ClickHouse\<close>

record ('b, 'k) clickhouse_converter =
  cc_create_batch :: "nat \<Rightarrow> 'b"
  cc_append :: "rlink_record \<Rightarrow> 'b \<Rightarrow> 'b"
  cc_flush :: "'b \<Rightarrow> 'k"

record clickhouse_sink =
  cl_url :: string
  cl_table :: string
  cl_batch_size :: nat
  cl_batch_timeout :: duration
  cl_tasks :: nat

definition clickhouse_sink_new :: "string \<Rightarrow> string \<Rightarrow> nat \<Rightarrow> duration \<Rightarrow> nat \<Rightarrow> clickhouse_sink" where
  "clickhouse_sink_new url table batch_size batch_timeout tasks = \<lparr>cl_url = url, cl_table = table, cl_batch_size = batch_size,
     cl_batch_timeout = batch_timeout, cl_tasks = tasks\<rparr>"

text \<open>Which of several addresses a task connects to.\<close>

definition clickhouse_url :: "string \<Rightarrow> task_id \<Rightarrow> string res" where
  "clickhouse_url url tid = (let urls = split_comma url in
     if length urls > 1 then
       (let i = unat (t_task_number tid) mod length urls in unwrap (if i < length urls then Some (urls ! i) else None))
     else Inr url)"

record clickhouse_sink_task =
  ct_table :: string
  ct_batch_size :: nat
  ct_batch_timeout :: duration

definition clickhouse_sink_open :: "clickhouse_sink \<Rightarrow> function_context \<Rightarrow> (string \<times> clickhouse_sink_task) res" where
  "clickhouse_sink_open s context = rbind (clickhouse_url (cl_url s) (fc_task_id context)) (\<lambda>url.
     Inr (url, \<lparr>ct_table = cl_table s, ct_batch_size = cl_batch_size s, ct_batch_timeout = cl_batch_timeout s\<rparr>))"

text \<open>
  The loop of \<open>batch_send\<close>: the \<open>n\<close>-th poll and the clock after it are \<open>polls n\<close>; the difference of two
  times panics when the clock has gone back.
\<close>

type_synonym polls = "nat \<Rightarrow> (try_recv_error + rlink_record) \<times> duration"

fun ck_loop :: "('b, 'k) clickhouse_converter \<Rightarrow> duration \<Rightarrow> duration \<Rightarrow> polls \<Rightarrow> nat \<Rightarrow> nat \<Rightarrow> 'b \<Rightarrow> nat \<Rightarrow> ('b \<times> nat) res" where
  "ck_loop C begin_timestamp timeout polls 0 n batch_block len = Inr (batch_block, len)"
| "ck_loop C begin_timestamp timeout polls (Suc k) n batch_block len = (case polls n of
       (Inr r, _) \<Rightarrow> ck_loop C begin_timestamp timeout polls k (Suc n) (cc_append C r batch_block) n
     | (Inl _, now) \<Rightarrow>
         if now < begin_timestamp then Inl Explicit_panic
         else if now - begin_timestamp > timeout then Inr (batch_block, len)
         else ck_loop C begin_timestamp timeout polls k (Suc n) batch_block len)"

text \<open>\<open>ins\<close> is \<open>ClientHandle::insert\<close> on the tables.\<close>

definition ck_batch_send :: "('b, 'k) clickhouse_converter \<Rightarrow> (string \<Rightarrow> 'k \<Rightarrow> 'd \<Rightarrow> (string + unit) \<times> 'd) \<Rightarrow> clickhouse_sink_task
    \<Rightarrow> duration \<Rightarrow> polls \<Rightarrow> 'd \<Rightarrow> ((string + nat) \<times> 'd) res" where
  "ck_batch_send C ins s begin_timestamp polls db =
     rbind (ck_loop C begin_timestamp (ct_batch_timeout s) polls (ct_batch_size s) 0 (cc_create_batch C (ct_batch_size s)) 0) (\<lambda>(batch_block, len).
     if len > 0 then
       (case ins (ct_table s) (cc_flush C batch_block) db of
          (Inl e, db) \<Rightarrow> Inr (Inl e, db)
        | (Inr _, db) \<Rightarrow> Inr (Inr len, db))
     else Inr (Inr len, db))"

text \<open>\<open>check n\<close> is the answer of the \<open>n\<close>-th \<open>check_connection\<close>.\<close>

definition ck_reconnection :: "(nat \<Rightarrow> string + unit) \<Rightarrow> string + unit" where
  "ck_reconnection check = (case List.find (\<lambda>r. r = Inr ()) (map check [0..<180]) of Some _ \<Rightarrow> Inr () | None \<Rightarrow> check 179)"

section \<open>Elasticsearch\<close>

record 'v elasticsearch_model =
  em_index :: string
  em_es_type :: string
  em_body :: 'v

type_synonym es_index = "(string, string) hmap"

definition es_index_new :: es_index where
  "es_index_new = []"

definition set_index :: "string \<Rightarrow> es_index \<Rightarrow> es_index" where
  "set_index v i = AList.update ''_index'' v i"

definition set_type :: "string \<Rightarrow> es_index \<Rightarrow> es_index" where
  "set_type v i = AList.update ''_type'' v i"

text \<open>
  \<open>es_to_value\<close> is \<open>serde_json::to_value\<close>, \<open>es_convert\<close> the user's converter, \<open>es_bulk\<close> the bulk request:
  an error of the transport, or the field \<open>errors\<close> of the answer when it is a Boolean.
\<close>

record ('v, 'd) es_client =
  es_to_value :: "es_index \<Rightarrow> 'v"
  es_convert :: "rlink_record \<Rightarrow> 'v elasticsearch_model"
  es_bulk :: "'v list \<Rightarrow> 'd \<Rightarrow> (string + bool option) \<times> 'd"

fun es_bodies :: "('v, 'd) es_client \<Rightarrow> (nat \<Rightarrow> try_recv_error + rlink_record) \<Rightarrow> nat \<Rightarrow> nat \<Rightarrow> 'v list \<Rightarrow> 'v list" where
  "es_bodies E polls 0 n bulk_bodies = bulk_bodies"
| "es_bodies E polls (Suc k) n bulk_bodies = (case polls n of
       Inr r \<Rightarrow>
         (let model = es_convert E r; index_model = set_type (em_es_type model) (set_index (em_index model) es_index_new) in
          es_bodies E polls k (Suc n) (bulk_bodies @ [es_to_value E index_model, em_body model]))
     | Inl _ \<Rightarrow> bulk_bodies)"

definition es_flush :: "('v, 'd) es_client \<Rightarrow> 'v list \<Rightarrow> 'd \<Rightarrow> (string + bool) \<times> 'd" where
  "es_flush E body_bulk db = (if length body_bulk = 0 then (Inr True, db) else
     (case es_bulk E body_bulk db of
        (Inl e, db) \<Rightarrow> (Inl e, db)
      | (Inr None, db) \<Rightarrow> (Inl ''no errors field in es response'', db)
      | (Inr (Some errors), db) \<Rightarrow> (if errors then Inl [] else Inr True, db)))"

definition es_batch_send :: "('v, 'd) es_client \<Rightarrow> nat \<Rightarrow> (nat \<Rightarrow> try_recv_error + rlink_record) \<Rightarrow> 'd \<Rightarrow> (string + nat) \<times> 'd" where
  "es_batch_send E batch_size polls db = (let bulk_bodies = es_bodies E polls batch_size 0 []; len = length bulk_bodies in
     case es_flush E bulk_bodies db of (Inl e, db) \<Rightarrow> (Inl e, db) | (Inr _, db) \<Rightarrow> (Inr len, db))"

section \<open>The Kafka producer\<close>

record kafka_entity =
  kn_timestamp :: i64
  kn_key :: "u8 list"
  kn_payload :: "u8 list"
  kn_topic :: string

text \<open>
  \<open>kp_parse\<close> is the generated \<open>kafka_message::Entity::parse\<close>, \<open>kp_send\<close> \<open>send_result\<close>, and \<open>kp_await\<close>
  what a delivery future gives: cancelled, an error, or the place of the message.
\<close>

record ('u, 'c) kafka_producer =
  kp_parse :: "u8 list \<Rightarrow> kafka_entity option"
  kp_send :: "string \<Rightarrow> kafka_entity \<Rightarrow> 'c \<Rightarrow> (string + 'u) \<times> 'c"
  kp_flush :: "'c \<Rightarrow> 'c"
  kp_await :: "'c \<Rightarrow> 'u \<Rightarrow> string + (string + unit)"

record kafka_producer_thread =
  kt_topic :: "string option"
  kt_drain_counter :: u64
  kt_discard_counter :: u64

definition producer_thread_new :: "string option \<Rightarrow> kafka_producer_thread" where
  "producer_thread_new topic = \<lparr>kt_topic = topic, kt_drain_counter = 0, kt_discard_counter = 0\<rparr>"

fun kp_loop :: "('u, 'c) kafka_producer \<Rightarrow> string option \<Rightarrow> (nat \<Rightarrow> try_recv_error + rlink_record) \<Rightarrow> nat \<Rightarrow> nat \<Rightarrow> 'u list \<times> nat \<times> 'c \<Rightarrow> ('u list \<times> nat \<times> 'c) res" where
  "kp_loop K topic polls 0 n st = Inr st"
| "kp_loop K topic polls (Suc k) n (future_queue, discard_counter, c) = (case polls n of
       Inr r \<Rightarrow>
         rbind (unwrap (kp_parse K (rec_values r))) (\<lambda>e.
         let t = (case topic of Some topic \<Rightarrow> topic | None \<Rightarrow> kn_topic e) in
         if t = [] then Inl Explicit_panic
         else (case kp_send K t e c of
             (Inr delivery_future, c) \<Rightarrow> kp_loop K topic polls k (Suc n) (future_queue @ [delivery_future], discard_counter, c)
           | (Inl _, c) \<Rightarrow> kp_loop K topic polls k (Suc n) (future_queue, discard_counter + 1, c)))
     | Inl RecvEmpty \<Rightarrow> Inr (future_queue, discard_counter, c)
     | Inl RecvDisconnected \<Rightarrow> Inl Explicit_panic)"

definition count_future :: "('u, 'c) kafka_producer \<Rightarrow> 'c \<Rightarrow> 'u \<Rightarrow> nat \<times> nat \<Rightarrow> nat \<times> nat" where
  "count_future K c future = (\<lambda>(drain_counter, discard_counter). case kp_await K c future of
       Inr (Inr _) \<Rightarrow> (drain_counter + 1, discard_counter)
     | Inr (Inl _) \<Rightarrow> (drain_counter, discard_counter + 1)
     | Inl _ \<Rightarrow> (drain_counter, discard_counter + 1))"

text \<open>One round of \<open>run\<close>; the third component is the counter of idle rounds, which sets the pause.\<close>

definition kp_round :: "('u, 'c) kafka_producer \<Rightarrow> (nat \<Rightarrow> try_recv_error + rlink_record) \<Rightarrow> kafka_producer_thread \<times> nat \<times> 'c
    \<Rightarrow> (kafka_producer_thread \<times> nat \<times> 'c) res" where
  "kp_round K polls = (\<lambda>(t, idle_counter, c).
     rbind (kp_loop K (kt_topic t) polls 3000 0 ([], 0, c)) (\<lambda>(future_queue, discard_counter, c).
     let (t, idle_counter, discard_counter, c) =
       (if length future_queue = 0 then (t, idle_counter + 1, discard_counter, c)
        else let c = kp_flush K c; (drain_counter, discard_counter) = fold (count_future K c) future_queue (0, discard_counter) in
          (t\<lparr>kt_drain_counter := kt_drain_counter t + of_nat drain_counter\<rparr>, 0, discard_counter, c)) in
     Inr (if discard_counter > 0 then t\<lparr>kt_discard_counter := kt_discard_counter t + of_nat discard_counter\<rparr> else t, idle_counter, c)))"

definition idle_delay_millis :: "nat \<Rightarrow> nat" where
  "idle_delay_millis idle_counter = (if idle_counter < 30 then 10 else 300)"

section \<open>What a round of ClickHouse sends\<close>

text \<open>The records a round takes from the queue, with the numbers of their polls.\<close>

fun ck_polled :: "duration \<Rightarrow> duration \<Rightarrow> polls \<Rightarrow> nat \<Rightarrow> nat \<Rightarrow> (nat \<times> rlink_record) list" where
  "ck_polled begin_timestamp timeout polls 0 n = []"
| "ck_polled begin_timestamp timeout polls (Suc k) n = (case polls n of
       (Inr r, _) \<Rightarrow> (n, r) # ck_polled begin_timestamp timeout polls k (Suc n)
     | (Inl _, now) \<Rightarrow> if now - begin_timestamp > timeout then [] else ck_polled begin_timestamp timeout polls k (Suc n))"

lemma ck_loop_polled:
  assumes "\<forall>i. begin_timestamp \<le> snd (polls i)"
  shows "ck_loop C begin_timestamp timeout polls k n batch len = Inr (fold (cc_append C) (map snd (ck_polled begin_timestamp timeout polls k n)) batch,
    if ck_polled begin_timestamp timeout polls k n = [] then len else fst (last (ck_polled begin_timestamp timeout polls k n)))"
proof (induction k arbitrary: n batch len)
  case (Suc k)
  have t: "begin_timestamp \<le> snd (polls n)" using assms by blast
  obtain p now where p: "polls n = (p, now)" by fastforce
  show ?case
  proof (cases p)
    case (Inl e)
    then show ?thesis using p t Suc by simp
  next
    case (Inr r)
    then show ?thesis using p Suc by simp
  qed
qed simp

text \<open>
  A round sends the records it has taken in one block, unless the only one was found by the first
  poll: then the block is dropped, and with it the record.
\<close>

lemma clickhouse_round:
  fixes s :: clickhouse_sink_task
  assumes "\<forall>i. begin_timestamp \<le> snd (polls i)"
  defines "taken \<equiv> ck_polled begin_timestamp (ct_batch_timeout s) polls (ct_batch_size s) 0"
  shows "ck_batch_send C ins s begin_timestamp polls db =
    (if taken = [] \<or> fst (last taken) = 0 then Inr (Inr 0, db)
     else case ins (ct_table s) (cc_flush C (fold (cc_append C) (map snd taken) (cc_create_batch C (ct_batch_size s)))) db of
       (Inl e, db) \<Rightarrow> Inr (Inl e, db) | (Inr _, db) \<Rightarrow> Inr (Inr (fst (last taken)), db))"
  by (auto simp: ck_batch_send_def ck_loop_polled[OF assms(1)] taken_def split: prod.splits sum.splits)

lemma clickhouse_single_record_lost:
  assumes "polls 0 = (Inr r, t0)" "\<forall>i. begin_timestamp \<le> snd (polls i)" "\<forall>i\<ge>1. \<exists>e. fst (polls i) = Inl e" "0 < ct_batch_size s"
  shows "ck_batch_send C ins s begin_timestamp polls db = Inr (Inr 0, db)
    \<and> map snd (ck_polled begin_timestamp (ct_batch_timeout s) polls (ct_batch_size s) 0) = [r]"
proof -
  have none: "ck_polled begin_timestamp timeout polls k (Suc n) = []" for timeout k n
  proof (induction k arbitrary: n)
    case (Suc k)
    obtain e now where "polls (Suc n) = (Inl e, now)" using assms(3) by (metis le_add1 plus_1_eq_Suc prod.collapse)
    then show ?case using Suc by simp
  qed simp
  obtain k where k: "ct_batch_size s = Suc k" using assms(4) gr0_implies_Suc by blast
  have taken: "ck_polled begin_timestamp (ct_batch_timeout s) polls (ct_batch_size s) 0 = [(0, r)]"
    using assms(1) none[of "ct_batch_timeout s" k 0] unfolding k by simp
  then show ?thesis using clickhouse_round[OF assms(2), of C ins s db] by simp
qed

section \<open>What a round of the others sends\<close>

text \<open>The records up to the first poll that finds none.\<close>

fun polled :: "(nat \<Rightarrow> try_recv_error + rlink_record) \<Rightarrow> nat \<Rightarrow> nat \<Rightarrow> rlink_record list" where
  "polled polls 0 n = []"
| "polled polls (Suc k) n = (case polls n of Inr r \<Rightarrow> r # polled polls k (Suc n) | Inl _ \<Rightarrow> [])"

definition es_pair :: "('v, 'd) es_client \<Rightarrow> rlink_record \<Rightarrow> 'v list" where
  "es_pair E r = (let model = es_convert E r in [es_to_value E [(''_index'', em_index model), (''_type'', em_es_type model)], em_body model])"

lemma es_bodies_polled: "es_bodies E polls k n bulk_bodies = bulk_bodies @ concat (map (es_pair E) (polled polls k n))"
  by (induction k arbitrary: n bulk_bodies)
    (auto simp: es_pair_def Let_def set_index_def set_type_def es_index_new_def split: sum.splits)

text \<open>
  A round of Elasticsearch sends an action line and the document of every record it took, in one
  request; when the request fails the round reports an error and the records are gone.
\<close>

lemma elasticsearch_round:
  "es_batch_send E batch_size polls db = (let docs = concat (map (es_pair E) (polled polls batch_size 0)) in
     if docs = [] then (Inr 0, db)
     else case es_bulk E docs db of
         (Inr (Some False), db) \<Rightarrow> (Inr (2 * length (polled polls batch_size 0)), db)
       | (Inr (Some True), db) \<Rightarrow> (Inl [], db)
       | (Inr None, db) \<Rightarrow> (Inl ''no errors field in es response'', db)
       | (Inl e, db) \<Rightarrow> (Inl e, db))"
proof -
  have len: "length (concat (map (es_pair E) rs)) = 2 * length rs" for rs by (induction rs) (simp_all add: es_pair_def Let_def)
  have ne: "(\<forall>r\<in>set rs. es_pair E r = []) \<longleftrightarrow> rs = []" for rs by (cases rs) (auto simp: es_pair_def Let_def)
  show ?thesis unfolding Let_def
    by (auto simp: es_batch_send_def es_bodies_polled es_flush_def Let_def len ne split: prod.splits sum.splits option.splits bool.splits)
qed

text \<open>
  Every record a round of the Kafka producer took is counted once, as delivered or as discarded,
  when all records can be read and have a topic.
\<close>

lemma count_futures:
  "fold (count_future K c) fs (a, b) = (a', b') \<Longrightarrow> a' + b' = a + b + length fs"
proof (induction fs arbitrary: a b)
  case (Cons f fs)
  obtain x y where xy: "count_future K c f (a, b) = (x, y)" by fastforce
  then have "x + y = a + b + 1" by (auto simp: count_future_def split: sum.splits)
  then show ?case using Cons.IH[of x y] Cons.prems xy by simp
qed simp

lemma kp_loop_polled:
  assumes "\<forall>i. polls i \<noteq> Inl RecvDisconnected"
    and "\<forall>r\<in>set (polled polls k n). \<exists>e. kp_parse K (rec_values r) = Some e \<and> (case topic of Some t \<Rightarrow> t | None \<Rightarrow> kn_topic e) \<noteq> []"
  shows "\<exists>fs' d' c'. kp_loop K topic polls k n (fs, d, c) = Inr (fs', d', c') \<and> length fs' + d' = length fs + d + length (polled polls k n)"
  using assms(2)
proof (induction k arbitrary: n fs d c)
  case (Suc k)
  show ?case
  proof (cases "polls n")
    case (Inl e)
    then have "e = RecvEmpty" using assms(1) by (metis try_recv_error.exhaust)
    then show ?thesis using Inl by simp
  next
    case (Inr r)
    obtain e where e: "kp_parse K (rec_values r) = Some e" "(case topic of Some t \<Rightarrow> t | None \<Rightarrow> kn_topic e) \<noteq> []" using Suc.prems Inr by auto
    let ?t = "case topic of Some t \<Rightarrow> t | None \<Rightarrow> kn_topic e"
    obtain q c1 where s: "kp_send K ?t e c = (q, c1)" by fastforce
    have IH: "\<exists>fs' d' c'. kp_loop K topic polls k (Suc n) (fs1, d1, c1) = Inr (fs', d', c') \<and> length fs' + d' = length fs1 + d1 + length (polled polls k (Suc n))" for fs1 d1
      by (rule Suc.IH) (use Suc.prems Inr in auto)
    show ?thesis
    proof (cases q)
      case (Inl err)
      then show ?thesis using IH[of fs "d + 1"] e s Inr by (auto simp: Let_def)
    next
      case q: (Inr f)
      then show ?thesis using IH[of "fs @ [f]" d] e s Inr by (auto simp: Let_def)
    qed
  qed
qed simp

lemma kafka_producer_round:
  assumes "\<forall>i. polls i \<noteq> Inl RecvDisconnected"
    and "\<forall>r\<in>set (polled polls 3000 0). \<exists>e. kp_parse K (rec_values r) = Some e \<and> (case kt_topic t of Some t \<Rightarrow> t | None \<Rightarrow> kn_topic e) \<noteq> []"
  shows "\<exists>t' idles' c'. kp_round K polls (t, idles, c) = Inr (t', idles', c')
    \<and> kt_drain_counter t' + kt_discard_counter t' = kt_drain_counter t + kt_discard_counter t + of_nat (length (polled polls 3000 0))"
proof -
  obtain fs d c' where l: "kp_loop K (kt_topic t) polls 3000 0 ([], 0, c) = Inr (fs, d, c')" "length fs + d = length (polled polls 3000 0)"
    using kp_loop_polled[OF assms, of "[]" 0 c] by auto
  obtain a b where f: "fold (count_future K (kp_flush K c')) fs (0, d) = (a, b)" by fastforce
  then have ab: "a + b = d + length fs" using count_futures by fastforce
  then have sum: "(of_nat a + of_nat b :: u64) = of_nat (length (polled polls 3000 0))" using l(2) by (metis add.commute of_nat_add)
  show ?thesis
  proof (cases "length fs = 0")
    case True
    then show ?thesis using l by (auto simp: kp_round_def)
  next
    case False
    then show ?thesis using l(1) f sum by (auto simp: kp_round_def Let_def algebra_simps)
  qed
qed

end
