(* ===== verification/Process_Context.thy ===== *)
theory Process_Context
  imports Properties
begin

text \<open>
  The context of a process (\<open>rlink/src/runtime/context.rs\<close>): what kind of process it is, read from
  the arguments of the command line (\<open>rlink/src/utils/process.rs\<close>), and the cluster
  configuration (\<open>rlink/src/core/cluster.rs\<close>).  The operating system is a parameter: the
  arguments, the address of the machine, the clock, files, the logger and the metrics server.
  The property: exactly which arguments each kind of process needs.
\<close>

section \<open>The configuration and the environment\<close>

record cluster_config =
  cg_application_manager_address :: "string list"
  cg_metadata_storage :: metadata_storage_type
  cg_task_manager_bind_ip :: string
  cg_task_manager_work_dir :: string

definition cluster_config_new_local :: cluster_config where
  "cluster_config_new_local = \<lparr>cg_application_manager_address = [], cg_metadata_storage = MemoryMetadata,
     cg_task_manager_bind_ip = [], cg_task_manager_work_dir = ''./''\<rparr>"

record task_resource_info =
  tr_task_manager_id :: string
  tr_resource_info :: "(string, string) hmap"

definition task_resource_info_new :: "string \<Rightarrow> string \<Rightarrow> string \<Rightarrow> task_resource_info" where
  "task_resource_info_new task_id task_manager_address task_manager_id = \<lparr>tr_task_manager_id = task_manager_id,
     tr_resource_info = AList.update ''task_manager_address'' task_manager_address (AList.update ''task_id'' task_id [])\<rparr>"

definition tr_task_id :: "task_resource_info \<Rightarrow> string option" where
  "tr_task_id t = map_of (tr_resource_info t) ''task_id''"

definition tr_task_manager_address :: "task_resource_info \<Rightarrow> string option" where
  "tr_task_manager_address t = map_of (tr_resource_info t) ''task_manager_address''"

datatype context_error =
    ArgNotFound string
  | BadNumber string string
  | NoWorkers
  | Unknown string
  | Environment string
  | MetricsUnwrap

text \<open>
  \<open>en_read_file\<close> is \<open>read_config_from_path\<close>, \<open>en_parse_yaml\<close> the YAML library, \<open>en_read_link\<close>
  the target of a symbolic link, \<open>en_port\<close> the random port of each try, and \<open>en_install\<close>
  starts the metrics server on a port, with or without the loader of the workers' addresses.
  \<open>MetricsUnwrap\<close> is the panic of the \<open>unwrap\<close> in \<open>metrics_serve\<close>; the address is an IPv4
  address, which parses with every port.
\<close>

record environment =
  en_args :: "string list"
  en_service_ip :: "string + string"
  en_timestamp_millis :: u64
  en_read_file :: "string \<Rightarrow> string + string"
  en_parse_yaml :: "string \<Rightarrow> string + cluster_config"
  en_current_dir :: string
  en_read_link :: "string \<Rightarrow> string option"
  en_init_log :: "string option \<Rightarrow> string + unit"
  en_port :: "nat \<Rightarrow> u16"
  en_install :: "string \<Rightarrow> u16 \<Rightarrow> bool \<Rightarrow> string + unit"

section \<open>Arguments\<close>

fun split_eq :: "string \<Rightarrow> string list" where
  "split_eq [] = [[]]"
| "split_eq (c # cs) = (if c = CHR ''='' then [] # split_eq cs
     else case split_eq cs of [] \<Rightarrow> [[c]] | s # ss \<Rightarrow> (c # s) # ss)"

fun find_arg :: "string \<Rightarrow> string list \<Rightarrow> string option" where
  "find_arg arg_key [] = None"
| "find_arg arg_key (arg # args) = (case split_eq arg of
     [key, v] \<Rightarrow> if key = arg_key then Some v else find_arg arg_key args
   | _ \<Rightarrow> find_arg arg_key args)"

definition parse_arg :: "environment \<Rightarrow> string \<Rightarrow> context_error + string" where
  "parse_arg E arg_key = (case find_arg arg_key (en_args E) of Some v \<Rightarrow> Inr v | None \<Rightarrow> Inl (ArgNotFound arg_key))"

definition parse_arg_with :: "environment \<Rightarrow> string \<Rightarrow> string \<Rightarrow> string" where
  "parse_arg_with E arg_key default_value = (case parse_arg E arg_key of Inr v \<Rightarrow> v | Inl _ \<Rightarrow> default_value)"

definition parse_arg_to_u64 :: "environment \<Rightarrow> string \<Rightarrow> context_error + u64" where
  "parse_arg_to_u64 E arg_key = rbind (parse_arg E arg_key) (\<lambda>v. map_sum (\<lambda>_. BadNumber arg_key v) id (parse_unsigned v))"

definition u32_arg :: "environment \<Rightarrow> string \<Rightarrow> context_error + u32" where
  "u32_arg E arg_key = rbind (parse_arg E arg_key) (\<lambda>v. map_sum (\<lambda>_. BadNumber arg_key v) id (parse_unsigned v))"

definition load_config :: "environment \<Rightarrow> string \<Rightarrow> context_error + cluster_config" where
  "load_config E path =
     rbind (map_sum Environment id (en_read_file E path)) (\<lambda>text.
     map_sum Environment id (en_parse_yaml E text))"

section \<open>The context\<close>

record process_context =
  px_application_id :: string
  px_task_manager_id :: string
  px_bind_ip :: string
  px_cluster_mode :: cluster_mode
  px_num_task_managers :: u32
  px_manager_type :: manager_type
  px_cluster_config :: cluster_config
  px_metric_addr :: string
  px_coordinator_address :: string
  px_dashboard_path :: string
  px_yarn_manager_main_class :: string
  px_worker_process_path :: string
  px_memory_mb :: u32
  px_v_cores :: u32
  px_exclusion_nodes :: string
  px_image_path :: string

definition arg_cluster_mode :: "environment \<Rightarrow> context_error + cluster_mode" where
  "arg_cluster_mode E = (case parse_arg E ''cluster_mode'' of
     Inr v \<Rightarrow> map_sum Unknown id (cluster_mode_try_from v) | Inl _ \<Rightarrow> Inr Local)"

definition arg_manager_type :: "environment \<Rightarrow> context_error + manager_type" where
  "arg_manager_type E = (case parse_arg E ''manager_type'' of
     Inr v \<Rightarrow> map_sum Unknown id (manager_type_try_from v) | Inl _ \<Rightarrow> Inr Coordinator)"

definition arg_application_id :: "environment \<Rightarrow> cluster_mode \<Rightarrow> context_error + string" where
  "arg_application_id E mode = (case mode of
     Local \<Rightarrow> Inr (show_nat (unat (en_timestamp_millis E))) | _ \<Rightarrow> parse_arg E ''application_id'')"

definition arg_task_manager_id :: "environment \<Rightarrow> manager_type \<Rightarrow> context_error + string" where
  "arg_task_manager_id E manager = (case manager of
     Coordinator \<Rightarrow> Inr ''coordinator'' | Worker \<Rightarrow> parse_arg E ''task_manager_id'')"

definition arg_num_task_managers :: "environment \<Rightarrow> cluster_mode \<Rightarrow> manager_type \<Rightarrow> context_error + u32" where
  "arg_num_task_managers E mode manager = (case manager of
       Coordinator \<Rightarrow> (case mode of
           Local \<Rightarrow> Inr 1
         | _ \<Rightarrow> rbind (u32_arg E ''num_task_managers'') (\<lambda>n. if n < 1 then Inl NoWorkers else Inr n))
     | _ \<Rightarrow> Inr 0)"

definition arg_cluster_config :: "environment \<Rightarrow> cluster_mode \<Rightarrow> context_error + cluster_config" where
  "arg_cluster_config E mode = (case mode of
       Local \<Rightarrow> (case parse_arg E ''cluster_config'' of Inr path \<Rightarrow> load_config E path | Inl _ \<Rightarrow> Inr cluster_config_new_local)
     | Standalone \<Rightarrow> rbind (parse_arg E ''cluster_config'') (load_config E)
     | _ \<Rightarrow> Inr cluster_config_new_local)"

definition arg_resources :: "environment \<Rightarrow> cluster_mode \<Rightarrow> manager_type \<Rightarrow> context_error + string \<times> string \<times> u32 \<times> u32 \<times> string" where
  "arg_resources E mode manager = (case mode of
       YARN \<Rightarrow> (case manager of
           Coordinator \<Rightarrow>
             rbind (parse_arg E ''yarn_manager_main_class'') (\<lambda>main_class.
             rbind (parse_arg E ''worker_process_path'') (\<lambda>worker_path.
             rbind (u32_arg E ''memory_mb'') (\<lambda>memory_mb.
             rbind (u32_arg E ''v_cores'') (\<lambda>v_cores.
             rbind (parse_arg E ''exclusion_nodes'') (\<lambda>exclusion_nodes.
             Inr (main_class, worker_path, memory_mb, v_cores, exclusion_nodes))))))
         | _ \<Rightarrow> Inr ([], [], 0, 0, []))
     | Kubernetes \<Rightarrow> (case manager of
           Coordinator \<Rightarrow>
             rbind (u32_arg E ''memory_mb'') (\<lambda>memory_mb.
             rbind (u32_arg E ''v_cores'') (\<lambda>v_cores.
             Inr ([], [], memory_mb, v_cores, [])))
         | _ \<Rightarrow> Inr ([], [], 0, 0, []))
     | _ \<Rightarrow> Inr ([], [], 0, 0, []))"

text \<open>\<open>PathBuf::join\<close> on texts: an absolute path replaces, a separator is added where there is none.\<close>

definition path_join :: "string \<Rightarrow> string \<Rightarrow> string" where
  "path_join p q = (if q \<noteq> [] \<and> hd q = CHR ''/'' then q else if p = [] \<or> last p = CHR ''/'' then p @ q else p @ ''/'' @ q)"

lemma set_path_join: "set (path_join p q) \<subseteq> set p \<union> set q \<union> {CHR ''/''}"
  by (auto simp: path_join_def)

definition dashboard_path_for :: "environment \<Rightarrow> cluster_mode \<Rightarrow> string" where
  "dashboard_path_for E mode = (case mode of
       YARN \<Rightarrow> (let path = path_join (en_current_dir E) ''rlink-dashboard.zip'' in
         case en_read_link E path of Some p \<Rightarrow> p | None \<Rightarrow> path)
     | Local \<Rightarrow> path_join (en_current_dir E) ''rlink-dashboard''
     | _ \<Rightarrow> parse_arg_with E ''dashboard_path'' [])"

definition init_metrics :: "environment \<Rightarrow> string \<Rightarrow> bool \<Rightarrow> u16 option" where
  "init_metrics E bind_ip with_proxy =
     List.find (\<lambda>port. en_install E bind_ip port with_proxy = Inr ()) (map (en_port E) [0..<30])"

definition metrics_serve :: "environment \<Rightarrow> string \<Rightarrow> cluster_mode \<Rightarrow> manager_type \<Rightarrow> context_error + string" where
  "metrics_serve E bind_ip mode manager = (let with_proxy = \<not> is_local mode \<and> is_coordinator manager in
     case init_metrics E bind_ip with_proxy of
       None \<Rightarrow> Inl MetricsUnwrap
     | Some port \<Rightarrow> Inr (''http://'' @ bind_ip @ '':'' @ show_nat (unat port)))"

definition arg_coordinator_address :: "environment \<Rightarrow> manager_type \<Rightarrow> context_error + string" where
  "arg_coordinator_address E manager = (case manager of
     Coordinator \<Rightarrow> Inr [] | _ \<Rightarrow> parse_arg E ''coordinator_address'')"

definition arg_image_path :: "environment \<Rightarrow> cluster_mode \<Rightarrow> manager_type \<Rightarrow> context_error + string" where
  "arg_image_path E mode manager = (case mode of
       Kubernetes \<Rightarrow> (case manager of Coordinator \<Rightarrow> parse_arg E ''image_path'' | _ \<Rightarrow> Inr [])
     | _ \<Rightarrow> Inr [])"

definition parse_node_arg :: "environment \<Rightarrow> context_error + process_context" where
  "parse_node_arg E =
     rbind (map_sum Environment id (en_service_ip E)) (\<lambda>bind_ip.
     rbind (arg_cluster_mode E) (\<lambda>mode.
     rbind (arg_manager_type E) (\<lambda>manager.
     rbind (arg_application_id E mode) (\<lambda>application_id.
     rbind (arg_task_manager_id E manager) (\<lambda>task_manager_id.
     rbind (arg_num_task_managers E mode manager) (\<lambda>num_task_managers.
     rbind (arg_cluster_config E mode) (\<lambda>cluster_config.
     rbind (arg_resources E mode manager) (\<lambda>(main_class, worker_path, memory_mb, v_cores, exclusion_nodes).
     let dashboard_path = dashboard_path_for E mode;
       log_config_path = (case parse_arg E ''log_config_path'' of Inr x \<Rightarrow> Some x | Inl _ \<Rightarrow> None) in
     rbind (map_sum Environment id (en_init_log E log_config_path)) (\<lambda>_.
     rbind (metrics_serve E bind_ip mode manager) (\<lambda>metric_addr.
     rbind (arg_coordinator_address E manager) (\<lambda>coordinator_address.
     rbind (arg_image_path E mode manager) (\<lambda>image_path.
     Inr \<lparr>px_application_id = application_id, px_task_manager_id = task_manager_id, px_bind_ip = bind_ip,
       px_cluster_mode = mode, px_num_task_managers = num_task_managers, px_manager_type = manager,
       px_cluster_config = cluster_config, px_metric_addr = metric_addr, px_coordinator_address = coordinator_address,
       px_dashboard_path = dashboard_path, px_yarn_manager_main_class = main_class, px_worker_process_path = worker_path,
       px_memory_mb = memory_mb, px_v_cores = v_cores, px_exclusion_nodes = exclusion_nodes, px_image_path = image_path\<rparr>))))))))))))"

section \<open>What a process needs\<close>

text \<open>The arguments a kind of process cannot do without, and those of them that are numbers.\<close>

fun required_args :: "cluster_mode \<Rightarrow> manager_type \<Rightarrow> string list" where
  "required_args mode Worker = (if mode = Local then [] else [''application_id'']) @ (if mode = Standalone then [''cluster_config''] else [])
     @ [''task_manager_id'', ''coordinator_address'']"
| "required_args mode Coordinator = (case mode of
       Local \<Rightarrow> []
     | Standalone \<Rightarrow> [''application_id'', ''cluster_config'']
     | YARN \<Rightarrow> [''application_id'', ''yarn_manager_main_class'', ''worker_process_path'', ''exclusion_nodes'']
     | Kubernetes \<Rightarrow> [''application_id'', ''image_path''])"

fun required_numbers :: "cluster_mode \<Rightarrow> manager_type \<Rightarrow> string list" where
  "required_numbers mode Worker = []"
| "required_numbers mode Coordinator = (if mode = Local then [] else [''num_task_managers''])
     @ (if mode = YARN \<or> mode = Kubernetes then [''memory_mb'', ''v_cores''] else [])"

definition args_given :: "environment \<Rightarrow> cluster_mode \<Rightarrow> manager_type \<Rightarrow> bool" where
  "args_given E mode manager \<longleftrightarrow> (\<forall>a\<in>set (required_args mode manager). find_arg a (en_args E) \<noteq> None)
     \<and> (\<forall>a\<in>set (required_numbers mode manager). \<exists>n. u32_arg E a = Inr n \<and> (a = ''num_task_managers'' \<longrightarrow> 1 \<le> n))"

lemma parse_arg_ok: "(\<exists>v. parse_arg E a = Inr v) \<longleftrightarrow> find_arg a (en_args E) \<noteq> None"
  by (auto simp: parse_arg_def split: option.splits)

section \<open>Exactly the arguments that are needed\<close>

lemma parse_arg_cases: "parse_arg E a = (case find_arg a (en_args E) of None \<Rightarrow> Inl (ArgNotFound a) | Some v \<Rightarrow> Inr v)"
  by (simp add: parse_arg_def split: option.splits)

lemma num_task_managers_ok:
  "mode \<noteq> Local \<Longrightarrow> (\<exists>n. arg_num_task_managers E mode Coordinator = Inr n) \<longleftrightarrow> (\<exists>n. u32_arg E ''num_task_managers'' = Inr n \<and> 1 \<le> n)"
  "mode \<noteq> Local \<Longrightarrow> arg_num_task_managers E mode Coordinator = Inr n \<Longrightarrow> 1 \<le> n"
proof -
  assume "mode \<noteq> Local"
  then have eq: "arg_num_task_managers E mode Coordinator = rbind (u32_arg E ''num_task_managers'') (\<lambda>n. if n < 1 then Inl NoWorkers else Inr n)"
    by (cases mode) (simp_all add: arg_num_task_managers_def)
  show "(\<exists>n. arg_num_task_managers E mode Coordinator = Inr n) \<longleftrightarrow> (\<exists>n. u32_arg E ''num_task_managers'' = Inr n \<and> 1 \<le> n)"
    unfolding eq by (cases "u32_arg E ''num_task_managers''") (simp_all flip: not_less)
  show "1 \<le> n" if "arg_num_task_managers E mode Coordinator = Inr n"
    using that unfolding eq by (cases "u32_arg E ''num_task_managers''") (simp_all flip: not_less split: if_splits)
qed

text \<open>The parts of the context that read arguments all succeed exactly when the arguments are there.\<close>

definition parts_ok :: "environment \<Rightarrow> cluster_mode \<Rightarrow> manager_type \<Rightarrow> bool" where
  "parts_ok E mode manager \<longleftrightarrow> (\<exists>v. arg_application_id E mode = Inr v) \<and> (\<exists>v. arg_task_manager_id E manager = Inr v)
     \<and> (\<exists>v. arg_num_task_managers E mode manager = Inr v) \<and> (\<exists>v. arg_cluster_config E mode = Inr v)
     \<and> (\<exists>v. arg_resources E mode manager = Inr v) \<and> (\<exists>v. arg_coordinator_address E manager = Inr v) \<and> (\<exists>v. arg_image_path E mode manager = Inr v)"

lemma resources_ok:
  "(\<exists>v. arg_resources E mode Worker = Inr v)" "(\<exists>v. arg_resources E Local manager = Inr v)" "(\<exists>v. arg_resources E Standalone manager = Inr v)"
  "(\<exists>v. arg_resources E YARN Coordinator = Inr v) \<longleftrightarrow> (\<forall>a\<in>{''yarn_manager_main_class'', ''worker_process_path'', ''exclusion_nodes''}. find_arg a (en_args E) \<noteq> None)
     \<and> (\<exists>n. u32_arg E ''memory_mb'' = Inr n) \<and> (\<exists>n. u32_arg E ''v_cores'' = Inr n)"
  "(\<exists>v. arg_resources E Kubernetes Coordinator = Inr v) \<longleftrightarrow> (\<exists>n. u32_arg E ''memory_mb'' = Inr n) \<and> (\<exists>n. u32_arg E ''v_cores'' = Inr n)"
proof -
  show "(\<exists>v. arg_resources E mode Worker = Inr v)" by (cases mode) (auto simp: arg_resources_def)
  show "(\<exists>v. arg_resources E Local manager = Inr v)" "(\<exists>v. arg_resources E Standalone manager = Inr v)" by (auto simp: arg_resources_def)
  show "(\<exists>v. arg_resources E Kubernetes Coordinator = Inr v) \<longleftrightarrow> (\<exists>n. u32_arg E ''memory_mb'' = Inr n) \<and> (\<exists>n. u32_arg E ''v_cores'' = Inr n)"
    by (simp add: arg_resources_def rbind_eq_Inr)
  show "(\<exists>v. arg_resources E YARN Coordinator = Inr v) \<longleftrightarrow> (\<forall>a\<in>{''yarn_manager_main_class'', ''worker_process_path'', ''exclusion_nodes''}. find_arg a (en_args E) \<noteq> None)
     \<and> (\<exists>n. u32_arg E ''memory_mb'' = Inr n) \<and> (\<exists>n. u32_arg E ''v_cores'' = Inr n)"
    by (simp add: arg_resources_def rbind_eq_Inr parse_arg_ok) blast
qed

lemma parts_ok_iff:
  assumes "\<And>p. \<exists>c. load_config E p = Inr c"
  shows "parts_ok E mode manager \<longleftrightarrow> args_given E mode manager"
proof -
  have cfg: "(\<exists>v. arg_cluster_config E mode = Inr v) \<longleftrightarrow> (mode = Standalone \<longrightarrow> find_arg ''cluster_config'' (en_args E) \<noteq> None)"
    using assms by (cases mode) (auto simp: arg_cluster_config_def parse_arg_cases rbind_eq_Inr split: option.splits)
  have app: "(\<exists>v. arg_application_id E mode = Inr v) \<longleftrightarrow> (mode \<noteq> Local \<longrightarrow> find_arg ''application_id'' (en_args E) \<noteq> None)"
    by (cases mode) (simp_all add: arg_application_id_def parse_arg_ok)
  show ?thesis
  proof (cases manager)
    case Worker
    then show ?thesis unfolding parts_ok_def cfg app using resources_ok(1)[of E mode]
      by (cases mode) (auto simp: args_given_def arg_task_manager_id_def arg_num_task_managers_def arg_coordinator_address_def arg_image_path_def parse_arg_ok)
  next
    case Coordinator
    have local: "(\<exists>v. arg_num_task_managers E Local Coordinator = Inr v)" by (simp add: arg_num_task_managers_def)
    show ?thesis unfolding parts_ok_def cfg app Coordinator
      using resources_ok(2-5)[of E] num_task_managers_ok(1)[of mode E] local
      by (cases mode) (simp_all add: args_given_def arg_task_manager_id_def arg_coordinator_address_def arg_image_path_def parse_arg_ok, blast+)
  qed
qed

text \<open>
  The arguments of a process.  On a machine where the address, the logger, the configuration
  files and one of the ports tried work, a process of a given mode and kind starts exactly when all arguments its kind needs
  are on the command line, the numbers among them are numbers of 32 bits, and a coordinator
  of a cluster is given at least one worker.  Its context then has that mode and kind.
\<close>

lemma process_args:
  assumes "en_service_ip E = Inr ip" "\<And>p. en_init_log E p = Inr ()" "\<And>p. \<exists>c. load_config E p = Inr c"
    and "\<And>proxy. \<exists>port. init_metrics E ip proxy = Some port"
    and "arg_cluster_mode E = Inr mode" "arg_manager_type E = Inr manager"
  shows "case parse_node_arg E of
      Inr c \<Rightarrow> args_given E mode manager \<and> px_cluster_mode c = mode \<and> px_manager_type c = manager
        \<and> (mode \<noteq> Local \<and> manager = Coordinator \<longrightarrow> 1 \<le> px_num_task_managers c)
    | Inl e \<Rightarrow> \<not> args_given E mode manager"
proof (cases "parts_ok E mode manager")
  case True
  then obtain a t n cfg m w mem cores ex ca im where p: "arg_application_id E mode = Inr a" "arg_task_manager_id E manager = Inr t"
    "arg_num_task_managers E mode manager = Inr n" "arg_cluster_config E mode = Inr cfg" "arg_resources E mode manager = Inr (m, w, mem, cores, ex)"
    "arg_coordinator_address E manager = Inr ca" "arg_image_path E mode manager = Inr im" unfolding parts_ok_def by (metis prod_cases5)
  obtain srv where srv: "metrics_serve E ip mode manager = Inr srv"
    using assms(4)[of "\<not> is_local mode \<and> is_coordinator manager"] by (auto simp: metrics_serve_def Let_def)
  show ?thesis using True parts_ok_iff[OF assms(3)] assms(1,2,5,6) p srv num_task_managers_ok(2)[of mode E n]
    by (auto simp: parse_node_arg_def Let_def)
next
  case False
  then have "parse_node_arg E \<noteq> Inr c" for c
    using assms(5,6) by (auto simp: parse_node_arg_def Let_def parts_ok_def rbind_eq_Inr)
  then show ?thesis using False parts_ok_iff[OF assms(3)] by (cases "parse_node_arg E") auto
qed

definition yarn_environment :: environment where
  "yarn_environment = \<lparr>en_args = [''app'', ''cluster_mode=YARN'', ''manager_type=worker'', ''application_id=a1'', ''task_manager_id=w1'',
       ''coordinator_address=http://c''], en_service_ip = Inr ''10.0.0.1'', en_timestamp_millis = 1, en_read_file = (\<lambda>_. Inr []),
     en_parse_yaml = (\<lambda>_. Inr cluster_config_new_local), en_current_dir = ''/d'', en_read_link = (\<lambda>_. None),
     en_init_log = (\<lambda>_. Inr ()), en_port = (\<lambda>_. 12000), en_install = (\<lambda>_ _ _. Inr ())\<rparr>"

end
