(* ===== verification/Standalone.thy ===== *)
theory Standalone
  imports Process_Context
begin

text \<open>
  Running on a cluster of machines without a resource manager of their own: the client in the
  coordinator (\<open>rlink/src/deployment/standalone.rs\<close>), the job manager that gives tasks to the task
  managers, and the task managers that start the processes
  (\<open>rlink-deployment/rlink-standalone/src\<close>).  HTTP, files and processes are parameters.  The
  properties: tasks are dealt in turn to the task managers that accept them, and a process that a
  task manager starts for a worker reads exactly the arguments the coordinator meant for it.
\<close>

section \<open>Messages\<close>

record execute_request =
  er_executable_file :: string
  er_args :: "(string, string) hmap"

type_synonym batch_execute_request = "(string, string) hmap list"

datatype job_status = Job_ready | Job_running | Job_killed

record application =
  ap_application_id :: string
  ap_execute_file :: string
  ap_status :: job_status

definition application_new :: "string \<Rightarrow> string \<Rightarrow> application" where
  "application_new application_id execute_file = \<lparr>ap_application_id = application_id, ap_execute_file = execute_file, ap_status = Job_ready\<rparr>"

section \<open>The job manager\<close>

datatype http_client_error = MessageStatusError string | RequestError string | StorageError string

text \<open>
  What the job manager calls: a POST to a task manager, a DELETE, loading and storing the metadata
  file of an application.
\<close>

record 'n job_services =
  sv_post_task :: "string \<Rightarrow> execute_request \<Rightarrow> 'n \<Rightarrow> (string + string std_response) \<times> 'n"
  sv_delete :: "string \<Rightarrow> 'n \<Rightarrow> (string + string std_response) \<times> 'n"
  sv_load :: "string \<Rightarrow> 'n \<Rightarrow> string + application"
  sv_store :: "string \<Rightarrow> application \<Rightarrow> 'n \<Rightarrow> (string + unit) \<times> 'n"

definition response_result :: "string + string std_response \<Rightarrow> http_client_error + string" where
  "response_result response = (case response of
       Inl e \<Rightarrow> Inl (RequestError e)
     | Inr r \<Rightarrow> (case sr_code r of
           OK \<Rightarrow> Inr (case sr_data r of Some d \<Rightarrow> d | None \<Rightarrow> [])
         | ERR msg \<Rightarrow> Inl (MessageStatusError msg)))"

definition publish_task :: "'n job_services \<Rightarrow> string \<Rightarrow> execute_request \<Rightarrow> string \<Rightarrow> 'n \<Rightarrow> (http_client_error + string) \<times> 'n" where
  "publish_task S application_id execute_model task_manager_address n =
     (let url = ''http://'' @ task_manager_address @ '':8771/task/'' @ application_id;
        (response, n) = sv_post_task S url execute_model n in
      (response_result response, n))"

fun publish_loop :: "'n job_services \<Rightarrow> string \<Rightarrow> execute_request \<Rightarrow> string list \<Rightarrow> nat list \<Rightarrow> 'n
    \<Rightarrow> (http_client_error failure + task_resource_info \<times> nat) \<times> 'n" where
  "publish_loop S application_id execute_model task_managers [] n = (Inl (Failed (MessageStatusError ''No available TaskManager'')), n)"
| "publish_loop S application_id execute_model task_managers (i # indies) n =
     (let task_manager_id = (case map_of (er_args execute_model) ''task_manager_id'' of Some x \<Rightarrow> x | None \<Rightarrow> []) in
      case index_res task_managers i of
        Inl p \<Rightarrow> (Inl (Panicked p), n)
      | Inr task_manager_address \<Rightarrow>
          (case publish_task S application_id execute_model task_manager_address n of
             (Inr task_id, n) \<Rightarrow> (Inr (task_resource_info_new task_id task_manager_address task_manager_id, i), n)
           | (Inl e, n) \<Rightarrow> publish_loop S application_id execute_model task_managers indies n))"

definition publish_task_0 :: "'n job_services \<Rightarrow> string \<Rightarrow> execute_request \<Rightarrow> nat \<Rightarrow> string list \<Rightarrow> 'n
    \<Rightarrow> (http_client_error failure + task_resource_info \<times> nat) \<times> 'n" where
  "publish_task_0 S application_id execute_model start_index task_managers n =
     publish_loop S application_id execute_model task_managers ([start_index..<length task_managers] @ [0..<start_index]) n"

fun submit_tasks :: "'n job_services \<Rightarrow> string \<Rightarrow> string list \<Rightarrow> execute_request list \<Rightarrow> nat \<Rightarrow> task_resource_info list \<Rightarrow> 'n
    \<Rightarrow> (http_client_error failure + task_resource_info list) \<times> 'n" where
  "submit_tasks S application_id task_managers [] start_index task_ids n = (Inr task_ids, n)"
| "submit_tasks S application_id task_managers (execute_model # models) start_index task_ids n =
     (case publish_task_0 S application_id execute_model start_index task_managers n of
        (Inl e, n) \<Rightarrow> (Inl e, n)
      | (Inr (info, i), n) \<Rightarrow>
          (let start_index = (if i = length task_managers then 0 else i + 1) in
           submit_tasks S application_id task_managers models start_index (task_ids @ [info]) n))"

text \<open>The answers of \<open>submit_job\<close>: a plain text, or a response with the resources as JSON.\<close>

datatype job_answer = JobText string | JobResponse "string std_response"

definition submit_job :: "'n job_services \<Rightarrow> task_resource_info list json \<Rightarrow> string list \<Rightarrow> string \<Rightarrow> batch_execute_request \<Rightarrow> 'n
    \<Rightarrow> (http_client_error failure + job_answer) \<times> 'n" where
  "submit_job S J task_managers application_id batch_args n = (case sv_load S application_id n of
       Inl e \<Rightarrow> (Inl (Failed (StorageError e)), n)
     | Inr job \<Rightarrow>
         if ap_status job = Job_killed then (Inr (JobResponse (std_err ''Job has killed'')), n)
         else if length task_managers = 0 then (Inr (JobText ''No TaskManager''), n)
         else let execute_models = map (\<lambda>args. \<lparr>er_executable_file = ap_execute_file job, er_args = args\<rparr>) batch_args in
           (case submit_tasks S application_id task_managers execute_models 0 [] n of
              (Inl e, n) \<Rightarrow> (Inl e, n)
            | (Inr task_ids, n) \<Rightarrow> (Inr (JobResponse (std_ok (Some (js_to_string J task_ids)))), n)))"

definition jm_kill_task :: "'n job_services \<Rightarrow> string \<Rightarrow> string \<Rightarrow> string \<Rightarrow> 'n \<Rightarrow> (http_client_error + string) \<times> 'n" where
  "jm_kill_task S application_id task_id task_manager_address n =
     (let url = ''http://'' @ task_manager_address @ '':8771/task/'' @ application_id @ ''/'' @ task_id @ ''/shutdown'';
        (response, n) = sv_delete S url n in
      (response_result response, n))"

fun shutdown_tasks :: "'n job_services \<Rightarrow> string \<Rightarrow> task_resource_info list \<Rightarrow> 'n \<Rightarrow> string std_response res \<times> 'n" where
  "shutdown_tasks S application_id [] n = (Inr \<lparr>sr_code = OK, sr_data = None\<rparr>, n)"
| "shutdown_tasks S application_id (info # infos) n = (case (tr_task_id info, tr_task_manager_address info) of
       (Some task_id, Some task_manager_address) \<Rightarrow>
         (let (_, n) = jm_kill_task S application_id task_id task_manager_address n in shutdown_tasks S application_id infos n)
     | _ \<Rightarrow> (Inl Unwrap_none, n))"

definition kill_job_task :: "'n job_services \<Rightarrow> string \<Rightarrow> string \<Rightarrow> 'n \<Rightarrow> (http_client_error + string) \<times> 'n" where
  "kill_job_task S application_id task_manager_address n =
     (let url = ''http://'' @ task_manager_address @ '':8771/task/'' @ application_id @ ''/shutdown''; (response, n) = sv_delete S url n in
      (response_result response, n))"

fun kill_job_loop :: "'n job_services \<Rightarrow> string \<Rightarrow> string list \<Rightarrow> 'n \<Rightarrow> (http_client_error + string std_response) \<times> 'n" where
  "kill_job_loop S application_id [] n = (Inr \<lparr>sr_code = OK, sr_data = None\<rparr>, n)"
| "kill_job_loop S application_id (task_manager # task_managers) n = (case kill_job_task S application_id task_manager n of
       (Inl e, n) \<Rightarrow> (Inl e, n)
     | (Inr _, n) \<Rightarrow> kill_job_loop S application_id task_managers n)"

definition kill_job :: "'n job_services \<Rightarrow> string list \<Rightarrow> string \<Rightarrow> 'n \<Rightarrow> (http_client_error + string std_response) \<times> 'n" where
  "kill_job S task_managers application_id n = (case sv_load S application_id n of
       Inl e \<Rightarrow> (Inl (StorageError e), n)
     | Inr job \<Rightarrow> (case sv_store S application_id (job\<lparr>ap_status := Job_killed\<rparr>) n of
           (Inl e, n) \<Rightarrow> (Inl (StorageError e), n)
         | (Inr _, n) \<Rightarrow> kill_job_loop S application_id task_managers n))"

section \<open>The task manager\<close>

record task_manager_context =
  tm_config :: cluster_config
  tm_config_path :: string
  tm_script_path :: string
  tm_start_time :: u64
  tm_current_dir :: string

record shell_command =
  sh_script :: string
  sh_args :: "string list"
  sh_envs :: "(string, string) hmap"
  sh_work_space :: string

definition execute_args :: "((string \<times> string) list \<Rightarrow> (string \<times> string) list) \<Rightarrow> (string, string) hmap \<Rightarrow> string list" where
  "execute_args it args = map (\<lambda>(key, val). key @ ''='' @ val) (it args)"

text \<open>\<open>counter\<close> is \<open>TASK_COUNTER\<close>; the result is the command, the answer and the new counter.\<close>

definition execute_task :: "((string \<times> string) list \<Rightarrow> (string \<times> string) list) \<Rightarrow> task_manager_context \<Rightarrow> string \<Rightarrow> execute_request \<Rightarrow> u64
    \<Rightarrow> (shell_command \<times> string std_response \<times> u64) res" where
  "execute_task it context application_id execute_model counter =
     (let config = tm_config context; bind_ip = cg_task_manager_bind_ip config;
        task_id = bind_ip @ ''-'' @ show_nat (unat (tm_start_time context)) @ ''-'' @ show_nat (unat counter);
        dashboard_path = path_join (tm_current_dir context) ''rlink-dashboard'';
        worker_path = cg_task_manager_work_dir config;
        task_work_space = path_join (path_join worker_path application_id) task_id in
      rbind (index_res (cg_application_manager_address config) 0) (\<lambda>application_manager_address.
      let envs = fold (\<lambda>(k, v). AList.update k v)
          [(''WORKER_PATH'', worker_path), (''APPLICATION_MANAGER_ADDRESS'', application_manager_address), (''APPLICATION_ID'', application_id),
           (''TASK_ID'', task_id), (''BIND_IP'', bind_ip), (''FILE_NAME'', er_executable_file execute_model),
           (''CLUSTER_CONFIG'', tm_config_path context), (''DASHBOARD_PATH'', dashboard_path)] [] in
      Inr (\<lparr>sh_script = tm_script_path context, sh_args = execute_args it (er_args execute_model), sh_envs = envs, sh_work_space = task_work_space\<rparr>,
        \<lparr>sr_code = OK, sr_data = Some task_id\<rparr>, counter + 1)))"

text \<open>
  The command line of \<open>run_task.sh\<close> for values without blanks, at which the shell would split them;
  an unset variable is empty.
\<close>

definition script_command_line :: "shell_command \<Rightarrow> string list" where
  "script_command_line c = (let var = (\<lambda>x. case map_of (sh_envs c) x of Some v \<Rightarrow> v | None \<Rightarrow> []) in
     [var ''WORKER_PATH'' @ ''/'' @ var ''APPLICATION_ID'' @ ''/'' @ var ''TASK_ID'' @ ''/'' @ var ''FILE_NAME'',
      ''cluster_config='' @ var ''CLUSTER_CONFIG'', ''application_id='' @ var ''APPLICATION_ID'', ''task_id='' @ var ''TASK_ID'',
      ''bind_ip='' @ var ''BIND_IP'', ''dashboard_path='' @ var ''DASHBOARD_PATH''] @ sh_args c)"

section \<open>The client in the coordinator\<close>

text \<open>\<open>post\<close> is \<open>post_sync\<close>: the answer of a job manager to a URL and a body.\<close>

type_synonym 'n post = "string \<Rightarrow> string \<Rightarrow> 'n \<Rightarrow> (string + string std_response) \<times> 'n"

definition allocate_worker0 :: "'n post \<Rightarrow> batch_execute_request json \<Rightarrow> task_resource_info list json \<Rightarrow> string \<Rightarrow> string \<Rightarrow> batch_execute_request \<Rightarrow> 'n
    \<Rightarrow> (string failure + task_resource_info list) \<times> 'n" where
  "allocate_worker0 post JB JT application_manager_address application_id args n =
     (let url = application_manager_address @ ''/job/application/'' @ application_id; body = js_to_string JB args in
      case post url body n of
        (Inl e, n) \<Rightarrow> (Inl (Failed e), n)
      | (Inr result, n) \<Rightarrow> (case sr_data result of
            None \<Rightarrow> (Inl (Panicked Unwrap_none), n)
          | Some text \<Rightarrow> (map_sum Failed id (js_from_str JT text), n)))"

fun allocate_worker :: "'n post \<Rightarrow> batch_execute_request json \<Rightarrow> task_resource_info list json \<Rightarrow> string list \<Rightarrow> string \<Rightarrow> batch_execute_request \<Rightarrow> 'n
    \<Rightarrow> (string failure + task_resource_info list) \<times> 'n" where
  "allocate_worker post JB JT [] application_id args n = (Inl (Failed ''No available JobManager''), n)"
| "allocate_worker post JB JT (address # addresses) application_id args n =
     (case allocate_worker0 post JB JT address application_id args n of
        (Inr rt, n) \<Rightarrow> (Inr rt, n)
      | (Inl (Panicked p), n) \<Rightarrow> (Inl (Panicked p), n)
      | (Inl (Failed e), n) \<Rightarrow> allocate_worker post JB JT addresses application_id args n)"

definition worker_args :: "cluster_mode \<Rightarrow> coordinator_manager_descriptor \<Rightarrow> worker_manager_descriptor \<Rightarrow> (string, string) hmap" where
  "worker_args mode coordinator w =
     AList.update ''coordinator_address'' (cd_web_address coordinator) (AList.update ''task_manager_id'' (wd_task_manager_id w)
       (AList.update ''manager_type'' (show_manager_type Worker) (AList.update ''cluster_mode'' (show_cluster_mode mode) [])))"

record standalone_resource_manager =
  sm_context :: process_context
  sm_cluster_descriptor :: "cluster_descriptor option"

definition standalone_new :: "process_context \<Rightarrow> standalone_resource_manager" where
  "standalone_new context = \<lparr>sm_context = context, sm_cluster_descriptor = None\<rparr>"

definition standalone_prepare :: "cluster_descriptor \<Rightarrow> standalone_resource_manager \<Rightarrow> standalone_resource_manager" where
  "standalone_prepare cd m = m\<lparr>sm_cluster_descriptor := Some cd\<rparr>"

definition standalone_worker_allocate :: "'n post \<Rightarrow> batch_execute_request json \<Rightarrow> task_resource_info list json \<Rightarrow> standalone_resource_manager \<Rightarrow> 'n
    \<Rightarrow> (string failure + task_resource_info list) \<times> 'n" where
  "standalone_worker_allocate post JB JT m n = (case sm_cluster_descriptor m of
       None \<Rightarrow> (Inl (Panicked Unwrap_none), n)
     | Some cd \<Rightarrow>
         (let task_args = map (worker_args (px_cluster_mode (sm_context m)) (cl_coordinator_manager cd)) (cl_worker_managers cd) in
          allocate_worker post JB JT (cg_application_manager_address (px_cluster_config (sm_context m))) (px_application_id (sm_context m)) task_args n))"

definition stop_all_workers0 :: "'n post \<Rightarrow> task_resource_info list json \<Rightarrow> string \<Rightarrow> string \<Rightarrow> task_resource_info list \<Rightarrow> 'n \<Rightarrow> (string + unit) \<times> 'n" where
  "stop_all_workers0 post JT application_manager_address application_id task_ids n =
     (let url = application_manager_address @ ''/job/application/'' @ application_id @ ''/task/shutdown''; body = js_to_string JT task_ids in
      case post url body n of (Inl e, n) \<Rightarrow> (Inl e, n) | (Inr result, n) \<Rightarrow> (Inr (), n))"

fun stop_all_workers :: "'n post \<Rightarrow> task_resource_info list json \<Rightarrow> string list \<Rightarrow> string \<Rightarrow> task_resource_info list \<Rightarrow> 'n \<Rightarrow> (string + unit) \<times> 'n" where
  "stop_all_workers post JT [] application_id task_ids n = (Inl ''No available JobManager'', n)"
| "stop_all_workers post JT (address # addresses) application_id task_ids n =
     (case stop_all_workers0 post JT address application_id task_ids n of
        (Inr _, n) \<Rightarrow> (Inr (), n)
      | (Inl e, n) \<Rightarrow> stop_all_workers post JT addresses application_id task_ids n)"

definition standalone_stop_workers :: "'n post \<Rightarrow> task_resource_info list json \<Rightarrow> standalone_resource_manager \<Rightarrow> task_resource_info list \<Rightarrow> 'n \<Rightarrow> (string + unit) \<times> 'n" where
  "standalone_stop_workers post JT m task_ids n =
     stop_all_workers post JT (cg_application_manager_address (px_cluster_config (sm_context m))) (px_application_id (sm_context m)) task_ids n"

section \<open>Tasks are dealt in turn\<close>

text \<open>\<open>rank\<close>: how many of the managers below an index accept tasks.\<close>

definition rank :: "(string \<Rightarrow> bool) \<Rightarrow> string list \<Rightarrow> nat \<Rightarrow> nat" where
  "rank up managers s = length (filter up (take s managers))"

lemma rank_Suc: "i < length managers \<Longrightarrow> rank up managers (Suc i) = rank up managers i + (if up (managers ! i) then 1 else 0)"
  by (simp add: rank_def take_Suc_conv_app_nth)

lemma nth_rank:
  assumes "i < length managers" "up (managers ! i)"
  shows "rank up managers i < length (filter up managers)" "filter up managers ! rank up managers i = managers ! i"
proof -
  have "filter up managers = filter up (take i managers) @ managers ! i # filter up (drop (Suc i) managers)"
    using assms by (metis filter.simps(2) filter_append id_take_nth_drop)
  then show "rank up managers i < length (filter up managers)" "filter up managers ! rank up managers i = managers ! i"
    by (simp_all add: rank_def nth_append)
qed

lemma rank_skip:
  assumes "\<forall>j. s \<le> j \<and> j < i \<longrightarrow> \<not> up (managers ! j)" "s \<le> i" "i \<le> length managers"
  shows "rank up managers i = rank up managers s"
  using assms
proof (induction i)
  case (Suc i)
  then show ?case by (cases "s = Suc i") (auto simp: rank_Suc)
qed simp

lemma find_append: "List.find P (xs @ ys) = (case List.find P xs of None \<Rightarrow> List.find P ys | Some x \<Rightarrow> Some x)"
  by (induction xs) simp_all

lemma find_upt:
  assumes "List.find P [s..<t] = Some i"
  shows "s \<le> i" "i < t" "P i" "\<forall>j. s \<le> j \<and> j < i \<longrightarrow> \<not> P j"
proof -
  obtain d where d: "d < t - s" "P (s + d)" "i = s + d" "\<forall>j<d. \<not> P (s + j)" using assms by (auto simp: find_Some_iff)
  then show "s \<le> i" "i < t" "P i" by auto
  show "\<forall>j. s \<le> j \<and> j < i \<longrightarrow> \<not> P j"
  proof (intro allI impI)
    fix j assume "s \<le> j \<and> j < i"
    then have "j = s + (j - s)" "j - s < d" using d(3) by auto
    then show "\<not> P j" using d(4) by metis
  qed
qed

text \<open>The first manager that accepts, from an index on and then from the beginning.\<close>

lemma first_up:
  assumes "filter up managers \<noteq> []" "s \<le> length managers"
  defines "c \<equiv> length (filter up managers)"
  shows "\<exists>i. List.find (\<lambda>i. up (managers ! i)) ([s..<length managers] @ [0..<s]) = Some i \<and> i < length managers
    \<and> managers ! i = filter up managers ! (rank up managers s mod c) \<and> rank up managers (Suc i) mod c = Suc (rank up managers s) mod c"
proof -
  have pick: "managers ! i = filter up managers ! (rank up managers i mod c) \<and> rank up managers (Suc i) = Suc (rank up managers i)"
    if "i < length managers" "up (managers ! i)" for i
    using nth_rank[of i managers up] that by (simp add: c_def rank_Suc)
  show ?thesis
  proof (cases "List.find (\<lambda>i. up (managers ! i)) [s..<length managers]")
    case (Some i)
    then have i: "s \<le> i" "i < length managers" "up (managers ! i)" "\<forall>j. s \<le> j \<and> j < i \<longrightarrow> \<not> up (managers ! j)"
      by (rule find_upt)+
    have "rank up managers i = rank up managers s" by (rule rank_skip[OF i(4) i(1)]) (use i(2) in simp)
    then show ?thesis using Some pick[OF i(2,3)] i(2) by (simp add: find_append)
  next
    case None
    then have none: "\<forall>j. s \<le> j \<and> j < length managers \<longrightarrow> \<not> up (managers ! j)" by (auto simp: find_None_iff)
    have full: "rank up managers s = c" using rank_skip[OF none assms(2)] by (simp add: rank_def c_def)
    obtain k where k: "k < length managers" "up (managers ! k)" using assms(1) by (metis filter_empty_conv in_set_conv_nth)
    obtain i where f: "List.find (\<lambda>i. up (managers ! i)) [0..<s] = Some i"
    proof (cases "List.find (\<lambda>i. up (managers ! i)) [0..<s]")
      case None
      then show ?thesis using k none by (auto simp: find_None_iff not_less)
    qed blast
    then have i: "i < s" "up (managers ! i)" "\<forall>j. 0 \<le> j \<and> j < i \<longrightarrow> \<not> up (managers ! j)" by (auto dest: find_upt)
    have "rank up managers i = rank up managers 0" by (rule rank_skip[OF i(3)]) (use i(1) assms(2) in simp_all)
    then have r: "rank up managers i = 0" by (simp add: rank_def)
    have il: "i < length managers" using i(1) assms(2) by simp
    have "0 < c" using assms(1) by (simp add: c_def)
    moreover have "Suc c mod c = Suc 0 mod c" by (metis mod_Suc_eq mod_self)
    ultimately show ?thesis using None f pick[OF il i(2)] r full il by (simp add: find_append)
  qed
qed

lemma publish_first:
  assumes up: "\<And>m a n. a \<in> set managers \<Longrightarrow> \<exists>r n'. publish_task S app m a n = (r, n') \<and> (isl r \<longleftrightarrow> \<not> up a)"
    and "List.find (\<lambda>i. up (managers ! i)) is = Some j" "\<forall>i\<in>set is. i < length managers"
  shows "\<exists>tid n'. publish_loop S app m managers is n
    = (Inr (task_resource_info_new tid (managers ! j) (case map_of (er_args m) ''task_manager_id'' of Some x \<Rightarrow> x | None \<Rightarrow> []), j), n')"
  using assms(2,3)
proof (induction "is" arbitrary: n)
  case (Cons i js)
  have i: "i < length managers" using Cons.prems(2) by simp
  then obtain r n' where r: "publish_task S app m (managers ! i) n = (r, n')" "isl r \<longleftrightarrow> \<not> up (managers ! i)" using up[of "managers ! i" m n] by auto
  show ?case
  proof (cases r)
    case (Inl e)
    then show ?thesis using Cons i r by simp
  next
    case (Inr tid)
    then show ?thesis using Cons.prems i r by (auto intro!: exI[of _ tid])
  qed
qed simp

lemma submit_tasks_turn:
  assumes up: "\<And>m a n. a \<in> set managers \<Longrightarrow> \<exists>r n'. publish_task S app m a n = (r, n') \<and> (isl r \<longleftrightarrow> \<not> up a)"
    and ne: "filter up managers \<noteq> []" and "s \<le> length managers" "rank up managers s mod length (filter up managers) = k mod length (filter up managers)"
  shows "\<exists>new n'. submit_tasks S app managers models s infos n = (Inr (infos @ new), n')
    \<and> map tr_task_manager_address new = map (\<lambda>j. Some (filter up managers ! (j mod length (filter up managers)))) [k..<k + length models]
    \<and> map tr_task_manager_id new = map (\<lambda>m. case map_of (er_args m) ''task_manager_id'' of Some x \<Rightarrow> x | None \<Rightarrow> []) models"
  using assms(3,4)
proof (induction models arbitrary: s k infos n)
  case (Cons m models)
  let ?c = "length (filter up managers)"
  obtain i where i: "List.find (\<lambda>i. up (managers ! i)) ([s..<length managers] @ [0..<s]) = Some i" "i < length managers"
    "managers ! i = filter up managers ! (k mod ?c)" "rank up managers (Suc i) mod ?c = Suc k mod ?c"
    using first_up[OF ne Cons.prems(1)] Cons.prems(2) by (metis mod_Suc_eq)
  obtain tid n1 where p: "publish_task_0 S app m s managers n
      = (Inr (task_resource_info_new tid (managers ! i) (case map_of (er_args m) ''task_manager_id'' of Some x \<Rightarrow> x | None \<Rightarrow> []), i), n1)"
    using publish_first[OF up i(1)] Cons.prems(1) unfolding publish_task_0_def by fastforce
  let ?info = "task_resource_info_new tid (managers ! i) (case map_of (er_args m) ''task_manager_id'' of Some x \<Rightarrow> x | None \<Rightarrow> [])"
  obtain new n' where IH: "submit_tasks S app managers models (Suc i) (infos @ [?info]) n1 = (Inr ((infos @ [?info]) @ new), n')"
    "map tr_task_manager_address new = map (\<lambda>j. Some (filter up managers ! (j mod ?c))) [Suc k..<Suc k + length models]"
    "map tr_task_manager_id new = map (\<lambda>m. case map_of (er_args m) ''task_manager_id'' of Some x \<Rightarrow> x | None \<Rightarrow> []) models"
    using Cons.IH[of "Suc i" "Suc k" "infos @ [?info]" n1] i(2,4) by auto
  have "tr_task_manager_address ?info = Some (managers ! i)" by (simp add: tr_task_manager_address_def task_resource_info_new_def)
  moreover have "[k..<k + length (m # models)] = k # [Suc k..<Suc k + length models]" by (simp add: upt_conv_Cons[of k "Suc (k + length models)"] del: upt_Suc)
  ultimately show ?case using p i(2,3) IH by (intro exI[of _ "?info # new"] exI[of _ n']) (simp add: task_resource_info_new_def)
qed simp


section \<open>A worker process reads what it was meant to\<close>

lemma split_plain: "CHR ''='' \<notin> set v \<Longrightarrow> split_eq v = [v]"
  by (induction v) auto

lemma split_pair: "CHR ''='' \<notin> set k \<Longrightarrow> CHR ''='' \<notin> set v \<Longrightarrow> split_eq (k @ ''='' @ v) = [k, v]"
  by (induction k) (auto simp: split_plain)

definition no_eq :: "(string \<times> string) list \<Rightarrow> bool" where
  "no_eq m \<longleftrightarrow> (\<forall>(k, v)\<in>set m. CHR ''='' \<notin> set k \<and> CHR ''='' \<notin> set v)"

lemma find_arg_pairs: "no_eq m \<Longrightarrow> find_arg a (map (\<lambda>(k, v). k @ ''='' @ v) m) = map_of m a"
proof (induction m)
  case (Cons x m)
  obtain k v where x: "x = (k, v)" by fastforce
  then have "CHR ''='' \<notin> set k" "CHR ''='' \<notin> set v" "no_eq m" using Cons.prems by (auto simp: no_eq_def)
  then show ?case using Cons.IH split_pair[of k v] x by simp
qed simp

lemma find_arg_program: "CHR ''='' \<notin> set p \<Longrightarrow> find_arg a (p # args) = find_arg a args"
  by (simp add: split_plain)

text \<open>The values that reach a worker through \<open>run_task.sh\<close> and through the arguments of the request.\<close>

definition script_pairs :: "task_manager_context \<Rightarrow> string \<Rightarrow> string \<Rightarrow> (string \<times> string) list" where
  "script_pairs context app task_id = [(''cluster_config'', tm_config_path context), (''application_id'', app), (''task_id'', task_id),
     (''bind_ip'', cg_task_manager_bind_ip (tm_config context)), (''dashboard_path'', path_join (tm_current_dir context) ''rlink-dashboard'')]"

lemma worker_args_lookup:
  "map_of (worker_args mode coordinator w) = [''cluster_mode'' \<mapsto> show_cluster_mode mode, ''manager_type'' \<mapsto> ''Worker'',
     ''task_manager_id'' \<mapsto> wd_task_manager_id w, ''coordinator_address'' \<mapsto> cd_web_address coordinator]"
  "hm_ok (worker_args mode coordinator w)"
  by (simp_all add: worker_args_def fun_upd_twist hm_ok_def show_manager_type.simps)

lemma command_line:
  assumes "execute_task it context app m counter = Inr (c, r, counter')"
  shows "\<exists>program task_id. sr_data r = Some task_id
    \<and> program = cg_task_manager_work_dir (tm_config context) @ ''/'' @ app @ ''/'' @ task_id @ ''/'' @ er_executable_file m
    \<and> script_command_line c = program # map (\<lambda>(k, v). k @ ''='' @ v) (script_pairs context app task_id @ it (er_args m))"
  using assms by (auto simp: execute_task_def Let_def rbind_eq_Inr script_command_line_def script_pairs_def execute_args_def)

section \<open>A worker starts\<close>

lemma show_nat_no_eq: "CHR ''='' \<notin> set (show_nat n)"
proof
  assume "CHR ''='' \<in> set (show_nat n)"
  then obtain d where "d < 10" "CHR ''='' = digit_char d" using show_nat_digits by blast
  then have "char_digit (CHR ''='') = Some d" by simp
  then show False by (simp add: char_digit_def)
qed

text \<open>
  C39: the start of a worker.  A task manager starts the process of a worker with the arguments of
  the coordinator through its script.  When no text in them contains an equals sign or a blank and the
  machine works, the process starts as a worker of the standalone cluster with the id, the address of
  the coordinator and the application the coordinator meant, whatever order the map of the
  arguments is passed in.
\<close>

theorem worker_started:
  assumes it: "iteration_order it"
    and start: "execute_task it context app \<lparr>er_executable_file = file, er_args = worker_args Standalone coordinator w\<rparr> counter = Inr (c, r, counter')"
    and plain: "\<forall>s\<in>{cg_task_manager_work_dir (tm_config context), app, file, cg_task_manager_bind_ip (tm_config context), tm_config_path context,
        tm_current_dir context, wd_task_manager_id w, cd_web_address coordinator}. CHR ''='' \<notin> set s \<and> CHR '' '' \<notin> set s"
    and E: "en_args E = script_command_line c" "en_service_ip E = Inr ip" "\<And>p. en_init_log E p = Inr ()"
      "load_config E (tm_config_path context) = Inr cfg" "\<And>proxy. \<exists>port. init_metrics E ip proxy = Some port"
  shows "\<exists>x. parse_node_arg E = Inr x \<and> px_cluster_mode x = Standalone \<and> px_manager_type x = Worker \<and> px_application_id x = app
    \<and> px_task_manager_id x = wd_task_manager_id w \<and> px_coordinator_address x = cd_web_address coordinator \<and> px_cluster_config x = cfg"
proof -
  let ?args = "worker_args Standalone coordinator w"
  obtain program task_id where cl: "sr_data r = Some task_id"
      "program = cg_task_manager_work_dir (tm_config context) @ ''/'' @ app @ ''/'' @ task_id @ ''/'' @ file"
      "en_args E = program # map (\<lambda>(k, v). k @ ''='' @ v) (script_pairs context app task_id @ it ?args)"
    using command_line[OF start] E(1) by auto
  have tid: "CHR ''='' \<notin> set task_id" using start cl(1) plain by (auto simp: execute_task_def Let_def rbind_eq_Inr show_nat_no_eq)
  have perm: "map_of (it ?args) = map_of ?args" "set (it ?args) = set ?args"
    using map_of_it[OF it] iteration_order.set_it[OF it] worker_args_lookup(2)[of Standalone coordinator w] by (auto simp: hm_ok_def)
  have "no_eq ?args" using plain by (auto simp: no_eq_def worker_args_def)
  then have ne: "no_eq (script_pairs context app task_id @ it ?args)" using plain tid perm(2) set_path_join[of "tm_current_dir context" "''rlink-dashboard''"] by (auto simp: no_eq_def script_pairs_def)
  have find: "find_arg a (en_args E) = (map_of ?args ++ map_of (script_pairs context app task_id)) a" for a
    using cl(2,3) plain tid find_arg_program find_arg_pairs[OF ne] perm(1) by simp
  have arg: "parse_arg E a = (case (map_of ?args ++ map_of (script_pairs context app task_id)) a of Some v \<Rightarrow> Inr v | None \<Rightarrow> Inl (ArgNotFound a))" for a
    by (simp add: parse_arg_def find)
  have mode: "cluster_mode_try_from ''Standalone'' = Inr Standalone" "manager_type_try_from ''Worker'' = Inr Worker" by code_simp+
  obtain srv where "metrics_serve E ip Standalone Worker = Inr srv" using E(5)[of False] by (auto simp: metrics_serve_def)
  moreover have "parse_arg E ''cluster_mode'' = Inr ''Standalone''" "parse_arg E ''manager_type'' = Inr ''Worker''"
    "parse_arg E ''application_id'' = Inr app" "parse_arg E ''task_manager_id'' = Inr (wd_task_manager_id w)"
    "parse_arg E ''cluster_config'' = Inr (tm_config_path context)" "parse_arg E ''coordinator_address'' = Inr (cd_web_address coordinator)"
    unfolding arg worker_args_lookup(1) by (simp_all add: script_pairs_def)
  ultimately show ?thesis using E(2-4) mode
    by (simp add: parse_node_arg_def arg_cluster_mode_def arg_manager_type_def arg_application_id_def arg_task_manager_id_def arg_num_task_managers_def
        arg_cluster_config_def arg_resources_def arg_coordinator_address_def arg_image_path_def Let_def)
qed

section \<open>A cluster of three machines\<close>

definition two_of_three :: "nat job_services" where
  "two_of_three = \<lparr>sv_post_task = (\<lambda>url _ n. if url = ''http://m2:8771/task/a1'' then (Inl ''refused'', n)
        else (Inr (std_ok (Some (show_nat n))), n + 1)),
     sv_delete = (\<lambda>_ n. (Inr (std_ok None), n)), sv_load = (\<lambda>app _. Inr (application_new app ''app'')),
     sv_store = (\<lambda>_ _ n. (Inr (), n))\<rparr>"

definition infos_json :: "task_resource_info list json" where
  "infos_json = \<lparr>js_to_string = (\<lambda>infos. concat (map (\<lambda>i. case tr_task_manager_address i of Some a \<Rightarrow> a | None \<Rightarrow> []) infos)), js_from_str = (\<lambda>_. Inl ''text'')\<rparr>"


definition a_coordinator :: coordinator_manager_descriptor where
  "a_coordinator = \<lparr>cd_version = [], cd_application_id = ''a1'', cd_application_properties = properties_new, cd_web_address = ''http://c:80'',
     cd_metrics_address = [], cd_status = Pending, cd_v_cores = 0, cd_memory_mb = 0, cd_num_task_managers = 1, cd_uptime = 0, cd_startup_number = 0\<rparr>"

definition a_worker :: worker_manager_descriptor where
  "a_worker = \<lparr>wd_status = Pending, wd_latest_heart_beat_ts = 0, wd_latest_heart_beat_status = HbOk, wd_task_manager_id = ''w1'',
     wd_task_manager_address = [], wd_metrics_address = [], wd_web_address = [], wd_task_descriptors = []\<rparr>"

definition a_machine :: task_manager_context where
  "a_machine = \<lparr>tm_config = cluster_config_new_local\<lparr>cg_application_manager_address := [''http://j'']\<rparr>, tm_config_path = ''/c.yaml'', tm_script_path = ''/run_task.sh'',
     tm_start_time = 7, tm_current_dir = ''/d''\<rparr>"

definition worker_environment :: "string list \<Rightarrow> environment" where
  "worker_environment args = yarn_environment\<lparr>en_args := args\<rparr>"

theorem worker_started_witness:
  "\<exists>c r counter' x. execute_task rev a_machine ''a1'' \<lparr>er_executable_file = ''app'', er_args = worker_args Standalone a_coordinator a_worker\<rparr> 0 = Inr (c, r, counter')
     \<and> parse_node_arg (worker_environment (script_command_line c)) = Inr x \<and> px_task_manager_id x = ''w1'' \<and> px_coordinator_address x = ''http://c:80''"
proof -
  let ?m = "\<lparr>er_executable_file = ''app'', er_args = worker_args Standalone a_coordinator a_worker\<rparr>"
  obtain c r counter' where s: "execute_task rev a_machine ''a1'' ?m 0 = Inr (c, r, counter')"
    by (auto simp: execute_task_def a_machine_def Let_def)
  let ?E = "worker_environment (script_command_line c)"
  have plain: "\<forall>s\<in>{cg_task_manager_work_dir (tm_config a_machine), ''a1'', ''app'', cg_task_manager_bind_ip (tm_config a_machine), tm_config_path a_machine,
        tm_current_dir a_machine, wd_task_manager_id a_worker, cd_web_address a_coordinator}. CHR ''='' \<notin> set s \<and> CHR '' '' \<notin> set s"
    by (simp add: a_machine_def a_worker_def a_coordinator_def cluster_config_new_local_def)
  have e: "en_args ?E = script_command_line c" "en_service_ip ?E = Inr ''10.0.0.1''" "\<And>p. en_init_log ?E p = Inr ()"
    "load_config ?E (tm_config_path a_machine) = Inr cluster_config_new_local" "\<And>proxy. \<exists>port. init_metrics ?E ''10.0.0.1'' proxy = Some port"
    by (simp_all add: worker_environment_def yarn_environment_def load_config_def init_metrics_def upt_rec)
  show ?thesis using s worker_started[OF reverse_order.iteration_order_axioms s plain e]
    by (auto simp: a_worker_def a_coordinator_def)
qed

end
