(* ===== verification/Source_Poll.thy ===== *)
theory Source_Poll
  imports Source_Align Channel Cluster
begin

text \<open>
  The head of a task that reads a user's input format
  (\<open>runtime/worker/runnable/source_runnable.rs\<close>): three threads share a channel and an
  atomic flag.  \<open>poll_input_element0\<close> sends the records of the format's iterator and clears
  the flag when it stops, \<open>poll_stream_status0\<close> sends a status event per tick that carries the
  negated flag, \<open>poll_checkpoint0\<close> sends a barrier per tick; the loop of \<open>run\<close> reads the
  channel.  The threads are a step relation with one step per access to the channel, the
  timer, the flag or the coordinator's status, and what is shown holds of every interleaving.
\<close>

section \<open>Iterators\<close>

text \<open>
  A record iterator is a state with a \<open>next\<close> function; it may go on forever.
  \<open>ElementIterator\<close> makes records elements.
\<close>

type_synonym ('i, 'a) iterator = "'i \<Rightarrow> ('a \<times> 'i) option"

definition element_iterator_next :: "('i, rlink_record) iterator \<Rightarrow> ('i, element) iterator" where
  "element_iterator_next record_next i = (case record_next i of
     Some (record, j) \<Rightarrow> Some (ERecord record, j)
   | None \<Rightarrow> None)"

text \<open>The values an iterator gives on the way from one state to another.\<close>

inductive yields :: "('i, 'a) iterator \<Rightarrow> 'i \<Rightarrow> 'a list \<Rightarrow> 'i \<Rightarrow> bool" for nxt i where
  none: "yields nxt i [] i"
| more: "yields nxt i vs j \<Longrightarrow> nxt j = Some (v, k) \<Longrightarrow> yields nxt i (vs @ [v]) k"

section \<open>The threads\<close>

text \<open>
  Where each thread is: before a call of \<open>next\<close>, with a record to send, before the look at
  the coordinator, before the store, returned, failed; for the timers, with the value of the
  flag that was loaded and the time of the tick.
\<close>

datatype input_pc = In_next | In_send element | In_check | In_store | In_ok | In_error

datatype status_pc = St_load | St_tick bool | St_send bool u64 | St_check bool | St_ok | St_error

datatype checkpoint_pc = Ck_tick | Ck_send u64 | Ck_load | Ck_check bool | Ck_ok | Ck_error

record ('i, 'q) poll_state =
  po_iterator :: 'i
  po_queue :: 'q
  po_running :: bool
  po_coordinator :: manager_status
  po_input :: input_pc
  po_status :: status_pc
  po_checkpoint :: checkpoint_pc
  po_received :: "element list"
  po_finished :: bool

text \<open>
  \<open>run\<close> makes the channel and the flag and starts the threads; \<open>po_received\<close> is what the
  loop of \<open>run\<close> has taken from the channel, \<open>po_finished\<close> that its iterator has ended.
\<close>

definition poll_start :: "(element, 'q) crossbeam \<Rightarrow> 'i \<Rightarrow> manager_status \<Rightarrow> ('i, 'q) poll_state" where
  "poll_start X iterator coordinator =
     \<lparr>po_iterator = iterator, po_queue = ch_queue (named_channel_with_base X 10240 Unbounded),
      po_running = True, po_coordinator = coordinator, po_input = In_next, po_status = St_load,
      po_checkpoint = Ck_tick, po_received = [], po_finished = False\<rparr>"

text \<open>
  A relaxed load may be stale: the flag was \<open>true\<close> at first and \<open>false\<close> is the only value ever
  stored, so a load gives \<open>true\<close>, or \<open>false\<close> once that has been stored.
\<close>

definition relaxed_load :: "('i, 'q) poll_state \<Rightarrow> bool \<Rightarrow> bool" where
  "relaxed_load s v \<longleftrightarrow> v \<or> v = po_running s"

text \<open>
  One step of \<open>poll_input_element0\<close>.  A \<open>send\<close> that waits for room is a thread that takes no
  step; the channel's own protocol is the subject of theory \<open>Channel\<close>.
\<close>

inductive input_step ::
    "(element, 'q) crossbeam \<Rightarrow> ('i, element) iterator \<Rightarrow> bool \<Rightarrow>
     ('i, 'q) poll_state \<Rightarrow> ('i, 'q) poll_state \<Rightarrow> bool"
  for X nxt daemon_task where
  next_some: "po_input s = In_next \<Longrightarrow> nxt (po_iterator s) = Some (item, j) \<Longrightarrow>
    input_step X nxt daemon_task s (s\<lparr>po_iterator := j, po_input := In_send item\<rparr>)"
| next_none: "po_input s = In_next \<Longrightarrow> nxt (po_iterator s) = None \<Longrightarrow>
    input_step X nxt daemon_task s (s\<lparr>po_input := In_store\<rparr>)"
| send: "po_input s = In_send item \<Longrightarrow> xb_try_send X (po_queue s) item = Inr q \<Longrightarrow>
    input_step X nxt daemon_task s (s\<lparr>po_queue := q, po_input := In_check\<rparr>)"
| send_error: "po_input s = In_send item \<Longrightarrow>
    xb_try_send X (po_queue s) item = Inl (Disconnected item) \<Longrightarrow>
    input_step X nxt daemon_task s (s\<lparr>po_input := In_error\<rparr>)"
| check: "po_input s = In_check \<Longrightarrow>
    input_step X nxt daemon_task s
      (s\<lparr>po_input := if daemon_task \<and> is_terminating (po_coordinator s) then In_store else In_next\<rparr>)"
| store: "po_input s = In_store \<Longrightarrow>
    input_step X nxt daemon_task s (s\<lparr>po_running := False, po_input := In_ok\<rparr>)"

text \<open>One step of \<open>poll_stream_status0\<close>; the timer gives any time, or has gone.\<close>

inductive status_step ::
    "(element, 'q) crossbeam \<Rightarrow> ('i, 'q) poll_state \<Rightarrow> ('i, 'q) poll_state \<Rightarrow> bool" for X where
  load: "po_status s = St_load \<Longrightarrow> relaxed_load s running \<Longrightarrow>
    status_step X s (s\<lparr>po_status := St_tick running\<rparr>)"
| tick: "po_status s = St_tick running \<Longrightarrow>
    status_step X s (s\<lparr>po_status := St_send running window_time\<rparr>)"
| tick_error: "po_status s = St_tick running \<Longrightarrow>
    status_step X s (s\<lparr>po_status := St_error\<rparr>)"
| send: "po_status s = St_send running window_time \<Longrightarrow>
    xb_try_send X (po_queue s) (new_stream_status window_time (\<not> running)) = Inr q \<Longrightarrow>
    status_step X s (s\<lparr>po_queue := q, po_status := St_check running\<rparr>)"
| send_error: "po_status s = St_send running window_time \<Longrightarrow>
    xb_try_send X (po_queue s) (new_stream_status window_time (\<not> running)) = Inl (Disconnected e) \<Longrightarrow>
    status_step X s (s\<lparr>po_status := St_error\<rparr>)"
| check: "po_status s = St_check running \<Longrightarrow>
    status_step X s
      (s\<lparr>po_status := if \<not> running \<and> is_terminated (po_coordinator s) then St_ok else St_load\<rparr>)"

text \<open>One step of \<open>poll_checkpoint0\<close>.\<close>

inductive checkpoint_step ::
    "(element, 'q) crossbeam \<Rightarrow> ('i, 'q) poll_state \<Rightarrow> ('i, 'q) poll_state \<Rightarrow> bool" for X where
  tick: "po_checkpoint s = Ck_tick \<Longrightarrow>
    checkpoint_step X s (s\<lparr>po_checkpoint := Ck_send window_time\<rparr>)"
| tick_error: "po_checkpoint s = Ck_tick \<Longrightarrow>
    checkpoint_step X s (s\<lparr>po_checkpoint := Ck_error\<rparr>)"
| send: "po_checkpoint s = Ck_send window_time \<Longrightarrow>
    xb_try_send X (po_queue s) (new_barrier (CheckpointId window_time)) = Inr q \<Longrightarrow>
    checkpoint_step X s (s\<lparr>po_queue := q, po_checkpoint := Ck_load\<rparr>)"
| send_error: "po_checkpoint s = Ck_send window_time \<Longrightarrow>
    xb_try_send X (po_queue s) (new_barrier (CheckpointId window_time)) = Inl (Disconnected e) \<Longrightarrow>
    checkpoint_step X s (s\<lparr>po_checkpoint := Ck_error\<rparr>)"
| load: "po_checkpoint s = Ck_load \<Longrightarrow> relaxed_load s running \<Longrightarrow>
    checkpoint_step X s (s\<lparr>po_checkpoint := Ck_check running\<rparr>)"
| check: "po_checkpoint s = Ck_check running \<Longrightarrow>
    checkpoint_step X s
      (s\<lparr>po_checkpoint := if \<not> running \<and> is_terminated (po_coordinator s) then Ck_ok else Ck_tick\<rparr>)"

text \<open>
  All senders are gone when the three threads have returned: each owns one, and the one made by
  \<open>run\<close> is dropped before its loop.
\<close>

definition threads_ended :: "('i, 'q) poll_state \<Rightarrow> bool" where
  "threads_ended s \<longleftrightarrow> po_input s \<in> {In_ok, In_error} \<and> po_status s \<in> {St_ok, St_error}
     \<and> po_checkpoint s \<in> {Ck_ok, Ck_error}"

text \<open>
  The whole: a thread moves, the loop of \<open>run\<close> takes an element through \<open>ChannelIterator\<close> or
  learns that the channel is closed, or a heartbeat changes the coordinator's status.
\<close>

inductive poll_step ::
    "(element, 'q) crossbeam \<Rightarrow> ('i, element) iterator \<Rightarrow> bool \<Rightarrow>
     ('i, 'q) poll_state \<Rightarrow> ('i, 'q) poll_state \<Rightarrow> bool"
  for X nxt daemon_task where
  input: "input_step X nxt daemon_task s t \<Longrightarrow> poll_step X nxt daemon_task s t"
| status: "status_step X s t \<Longrightarrow> poll_step X nxt daemon_task s t"
| checkpoint: "checkpoint_step X s t \<Longrightarrow> poll_step X nxt daemon_task s t"
| element: "\<not> po_finished s \<Longrightarrow> xb_try_recv X (po_queue s) = Inr (element, q) \<Longrightarrow>
    poll_step X nxt daemon_task s (s\<lparr>po_queue := q, po_received := po_received s @ [element]\<rparr>)"
| disconnected: "threads_ended s \<Longrightarrow> xb_try_recv X (po_queue s) = Inl e \<Longrightarrow>
    poll_step X nxt daemon_task s (s\<lparr>po_finished := True\<rparr>)"
| heartbeat: "poll_step X nxt daemon_task s (s\<lparr>po_coordinator := coordinator\<rparr>)"

inductive poll_reachable ::
    "(element, 'q) crossbeam \<Rightarrow> ('i, element) iterator \<Rightarrow> bool \<Rightarrow> 'i \<Rightarrow> ('i, 'q) poll_state \<Rightarrow> bool"
  for X nxt daemon_task i where
  init: "poll_reachable X nxt daemon_task i (poll_start X i coordinator)"
| step: "poll_reachable X nxt daemon_task i s \<Longrightarrow> poll_step X nxt daemon_task s t \<Longrightarrow>
    poll_reachable X nxt daemon_task i t"

section \<open>What every interleaving keeps\<close>

definition is_end :: "element \<Rightarrow> bool" where
  "is_end e \<longleftrightarrow> (case e of EStreamStatus status \<Rightarrow> ss_end status | _ \<Rightarrow> False)"

lemma is_end_simps [simp]:
  "\<not> is_end (ERecord r)" "\<not> is_end (new_barrier c)" "is_end (new_stream_status t v) = v"
  "\<not> is_record (new_barrier c)" "\<not> is_record (new_stream_status t v)"
  by (simp_all add: is_end_def new_barrier_def new_stream_status_def stream_status_new_def)

text \<open>Everything sent so far: what the loop has taken and what is still in the channel.\<close>

abbreviation poll_log :: "('q \<Rightarrow> element list) \<Rightarrow> ('i, 'q) poll_state \<Rightarrow> element list" where
  "poll_log contents s \<equiv> po_received s @ contents (po_queue s)"

text \<open>The records of a stream after the first event that ends it.\<close>

definition after_end :: "element list \<Rightarrow> element list" where
  "after_end es = filter is_record (dropWhile (\<lambda>e. \<not> is_end e) es)"

lemma after_end_snoc:
  "after_end (es @ [e]) = (if \<exists>x\<in>set es. is_end x then after_end es @ filter is_record [e]
     else if is_end e then filter is_record [e] else [])"
  by (auto simp: after_end_def dropWhile_append)

lemma after_end_append:
  assumes "after_end xs = []" "filter is_record ys = []"
  shows "after_end (xs @ ys) = []"
  using assms(2,1) by (induction ys arbitrary: xs rule: rev_induct)
    (auto simp: after_end_snoc simp flip: append_assoc split: if_splits)

text \<open>
  The records sent are what the iterator has given but for the one in hand.
\<close>

definition records_kept ::
    "('q \<Rightarrow> element list) \<Rightarrow> ('i, rlink_record) iterator \<Rightarrow> 'i \<Rightarrow> ('i, 'q) poll_state \<Rightarrow> bool" where
  "records_kept contents record_next i s \<longleftrightarrow> (\<exists>rs hand. yields record_next i (rs @ hand) (po_iterator s)
     \<and> filter is_record (poll_log contents s) = map ERecord rs
     \<and> (case po_input s of In_send e \<Rightarrow> \<exists>r. e = ERecord r \<and> hand = [r] | In_error \<Rightarrow> True | _ \<Rightarrow> hand = []))"

text \<open>
  The flag is cleared, loaded as cleared or announced only after the input thread has
  returned, which it does at the end of the iterator or, for a daemon, earlier; and no
  record follows the announcement.
\<close>

fun loaded_cleared :: "status_pc \<Rightarrow> bool" where
  "loaded_cleared (St_tick running) = (\<not> running)"
| "loaded_cleared (St_send running _) = (\<not> running)"
| "loaded_cleared (St_check running) = (\<not> running)"
| "loaded_cleared _ = False"

definition end_announced ::
    "('q \<Rightarrow> element list) \<Rightarrow> ('i, rlink_record) iterator \<Rightarrow> bool \<Rightarrow> ('i, 'q) poll_state \<Rightarrow> bool" where
  "end_announced contents record_next daemon_task s \<longleftrightarrow>
     (po_input s \<in> {In_store, In_ok} \<longrightarrow> record_next (po_iterator s) = None \<or> daemon_task)
     \<and> (\<not> po_running s \<or> loaded_cleared (po_status s) \<or> (\<exists>e\<in>set (poll_log contents s). is_end e)
        \<longrightarrow> po_input s = In_ok)
     \<and> after_end (poll_log contents s) = []"

lemma element_iterator_next_eq:
  "element_iterator_next record_next j = Some (e, k) \<longleftrightarrow> (\<exists>r. e = ERecord r \<and> record_next j = Some (r, k))"
  "element_iterator_next record_next j = None \<longleftrightarrow> record_next j = None"
  by (auto simp: element_iterator_next_def split: option.splits)

locale element_fifo = crossbeam_fifo X contents bound rx_alive tx_alive
  for X :: "(element, 'q) crossbeam" and contents :: "'q \<Rightarrow> element list"
    and bound :: "'q \<Rightarrow> nat option" and rx_alive :: "'q \<Rightarrow> bool" and tx_alive :: "'q \<Rightarrow> bool"
begin

lemma input_keeps_records:
  assumes "input_step X (element_iterator_next record_next) daemon_task s t"
    and "records_kept contents record_next i s"
  shows "records_kept contents record_next i t"
  using assms(1)
proof cases
  case (next_some e j)
  then obtain r where r: "e = ERecord r" "record_next (po_iterator s) = Some (r, j)"
    by (auto simp: element_iterator_next_eq)
  from assms(2) next_some(2) obtain rs where "yields record_next i rs (po_iterator s)"
    "filter is_record (poll_log contents s) = map ERecord rs" by (auto simp: records_kept_def)
  then show ?thesis using next_some r yields.more by (fastforce simp: records_kept_def)
next
  case (send e q)
  from assms(2) send(2) obtain rs r where "yields record_next i (rs @ [r]) (po_iterator s)"
    "filter is_record (poll_log contents s) = map ERecord rs" "e = ERecord r"
    by (auto simp: records_kept_def)
  moreover from this(3) send_appends[OF send(3)] have "contents q = contents (po_queue s) @ [ERecord r]" by simp
  ultimately show ?thesis using send(1) unfolding records_kept_def
    by (intro exI[of _ "rs @ [r]"] exI[of _ "[]"]) simp
qed (use assms(2) in \<open>auto simp: records_kept_def\<close>)

lemma other_keeps_records:
  assumes "records_kept contents record_next i s" "po_iterator t = po_iterator s" "po_input t = po_input s"
    and "filter is_record (poll_log contents t) = filter is_record (poll_log contents s)"
  shows "records_kept contents record_next i t"
  using assms unfolding records_kept_def by simp

lemma status_log:
  assumes "status_step X s t"
  shows "po_iterator t = po_iterator s \<and> po_input t = po_input s \<and> po_running t = po_running s
     \<and> (loaded_cleared (po_status t) \<longrightarrow> loaded_cleared (po_status s) \<or> \<not> po_running s)"
    and "\<exists>es. poll_log contents t = poll_log contents s @ es \<and> filter is_record es = []
       \<and> ((\<exists>e\<in>set es. is_end e) \<longrightarrow> loaded_cleared (po_status s))"
proof -
  show "po_iterator t = po_iterator s \<and> po_input t = po_input s \<and> po_running t = po_running s
     \<and> (loaded_cleared (po_status t) \<longrightarrow> loaded_cleared (po_status s) \<or> \<not> po_running s)"
    using assms by cases (auto simp: relaxed_load_def)
  show "\<exists>es. poll_log contents t = poll_log contents s @ es \<and> filter is_record es = []
       \<and> ((\<exists>e\<in>set es. is_end e) \<longrightarrow> loaded_cleared (po_status s))"
    using assms
  proof cases
    case (send running window_time q)
    then show ?thesis using send_appends[OF send(3)]
      by (intro exI[of _ "[new_stream_status window_time (\<not> running)]"]) simp
  qed auto
qed

lemma checkpoint_log:
  assumes "checkpoint_step X s t"
  shows "po_iterator t = po_iterator s \<and> po_input t = po_input s \<and> po_running t = po_running s
     \<and> po_status t = po_status s"
    and "\<exists>es. poll_log contents t = poll_log contents s @ es \<and> filter is_record es = []
       \<and> \<not> (\<exists>e\<in>set es. is_end e)"
proof -
  show "po_iterator t = po_iterator s \<and> po_input t = po_input s \<and> po_running t = po_running s
     \<and> po_status t = po_status s"
    using assms by cases auto
  show "\<exists>es. poll_log contents t = poll_log contents s @ es \<and> filter is_record es = []
       \<and> \<not> (\<exists>e\<in>set es. is_end e)"
    using assms
  proof cases
    case (send window_time q)
    then show ?thesis using send_appends[OF send(3)]
      by (intro exI[of _ "[new_barrier (CheckpointId window_time)]"]) simp
  qed auto
qed

lemma input_keeps_end:
  assumes "input_step X (element_iterator_next record_next) daemon_task s t"
    and "records_kept contents record_next i s" "end_announced contents record_next daemon_task s"
  shows "end_announced contents record_next daemon_task t"
  using assms(1)
proof cases
  case (send e q)
  then obtain r where "e = ERecord r" using assms(2) by (auto simp: records_kept_def)
  then have "poll_log contents t = poll_log contents s @ [ERecord r]"
    using send send_appends[OF send(3)] by simp
  moreover have "\<forall>e\<in>set (poll_log contents s). \<not> is_end e"
    using assms(3) send(2) by (auto simp: end_announced_def)
  moreover have "po_running s" "\<not> loaded_cleared (po_status s)"
    using assms(3) send(2) by (auto simp: end_announced_def)
  ultimately show ?thesis using send(1)
    by (auto simp: end_announced_def after_end_snoc simp del: append_assoc)
qed (use assms(3) in \<open>auto simp: end_announced_def element_iterator_next_eq split: if_splits\<close>)

lemma other_keeps_end:
  assumes "end_announced contents record_next daemon_task s" "po_iterator t = po_iterator s"
    and "po_input t = po_input s" "po_running t = po_running s"
    and "loaded_cleared (po_status t) \<longrightarrow> loaded_cleared (po_status s) \<or> \<not> po_running s"
    and "poll_log contents t = poll_log contents s @ es" "filter is_record es = []"
    and "(\<exists>e\<in>set es. is_end e) \<longrightarrow> loaded_cleared (po_status s)"
  shows "end_announced contents record_next daemon_task t"
proof -
  have "after_end (poll_log contents t) = []"
    using assms(1) after_end_append[OF _ assms(7)] unfolding assms(6) end_announced_def by blast
  moreover have "(\<exists>e\<in>set (poll_log contents t). is_end e) \<longleftrightarrow>
      (\<exists>e\<in>set (poll_log contents s). is_end e) \<or> (\<exists>e\<in>set es. is_end e)"
    unfolding assms(6) set_append by blast
  ultimately show ?thesis
    using assms(1-5,8) unfolding end_announced_def by metis
qed

lemma step_keeps:
  assumes "poll_step X (element_iterator_next record_next) daemon_task s t"
    and "records_kept contents record_next i s" "end_announced contents record_next daemon_task s"
  shows "records_kept contents record_next i t \<and> end_announced contents record_next daemon_task t"
  using assms(1)
proof cases
  case input
  from input_keeps_records[OF this assms(2)] input_keeps_end[OF this assms(2,3)] show ?thesis by simp
next
  case status
  from status_log(2)[OF status] obtain es where es: "poll_log contents t = poll_log contents s @ es"
    "filter is_record es = []" "(\<exists>e\<in>set es. is_end e) \<longrightarrow> loaded_cleared (po_status s)" by blast
  show ?thesis
    using other_keeps_records[OF assms(2), of t] other_keeps_end[OF assms(3) _ _ _ _ es] status_log(1)[OF status]
    unfolding es(1) by (simp add: es(2))
next
  case checkpoint
  from checkpoint_log(2)[OF checkpoint] obtain es where es: "poll_log contents t = poll_log contents s @ es"
    "filter is_record es = []" "(\<exists>e\<in>set es. is_end e) \<longrightarrow> loaded_cleared (po_status s)" by blast
  show ?thesis
    using other_keeps_records[OF assms(2), of t] other_keeps_end[OF assms(3) _ _ _ _ es] checkpoint_log(1)[OF checkpoint]
    unfolding es(1) by (simp add: es(2))
next
  case (element e q)
  then have l: "poll_log contents t = poll_log contents s @ []" using recv_takes[OF element(3)] by simp
  show ?thesis
    using other_keeps_records[OF assms(2), of t] other_keeps_end[OF assms(3) _ _ _ _ l] element(1)
    unfolding l by simp
qed (use assms(2,3) in \<open>simp_all add: records_kept_def end_announced_def\<close>)

lemma reachable_keeps:
  "poll_reachable X (element_iterator_next record_next) daemon_task i s \<Longrightarrow>
   records_kept contents record_next i s \<and> end_announced contents record_next daemon_task s"
proof (induction rule: poll_reachable.induct)
  case (init coordinator)
  have "yields record_next i ([] @ []) i" using yields.none[of record_next i] by simp
  then show ?case
    using unbounded_new by (auto simp: records_kept_def end_announced_def poll_start_def
        named_channel_with_base_def after_end_def)
next
  case (step s t)
  then show ?case using step_keeps[OF step.hyps(2), of i] by blast
qed

end

interpretation polled: element_fifo fifo_ops f_items f_bound f_rx f_tx
  by unfold_locales

section \<open>The end of a source task\<close>

text \<open>The loop of \<open>run\<close> hands on the records as they come and reports the end on an end event only.\<close>

lemma source_run_records:
  assumes "source_run it F s e = Inr (s', acts)"
  shows "filter is_record (emitted acts) = filter is_record [e]
     \<and> (so_reported_end s < so_reported_end s' \<longrightarrow> is_end e)"
proof (cases e)
  case (EWatermark w)
  then show ?thesis using assms by (auto simp: rbind_eq_Inr Let_def split: option.splits)
next
  case (EStreamStatus st)
  then show ?thesis using assms
    by (auto simp: rbind_eq_Inr Let_def is_end_def new_stream_status_def split: if_splits)
next
  case (EBarrier b)
  then show ?thesis using assms
    by (auto simp: rbind_eq_Inr Let_def source_checkpoint_def case_prod_beta split: if_splits)
qed (use assms in auto)

lemma run_all_records:
  "run_all (source_run it F) s es = Inr (s', acts) \<Longrightarrow>
   filter is_record (emitted acts) = filter is_record es
   \<and> (so_reported_end s < so_reported_end s' \<longrightarrow> (\<exists>e\<in>set es. is_end e))"
proof (induction es arbitrary: s acts)
  case (Cons e es)
  from Cons.prems obtain s1 a1 a2 where r: "source_run it F s e = Inr (s1, a1)"
    "run_all (source_run it F) s1 es = Inr (s', a2)" "acts = a1 @ a2" by (auto simp: rbind_eq_Inr)
  show ?case using source_run_records[OF r(1)] Cons.IH[OF r(2)] r(3) by (cases "is_end e") auto
qed simp

lemma no_records_left:
  assumes "after_end (xs @ ys) = []" "\<exists>e\<in>set xs. is_end e"
  shows "filter is_record ys = []"
  using assms by (auto simp: after_end_def dropWhile_append split: if_splits)

lemma reach_by:
  "poll_reachable X nxt daemon_task i s \<Longrightarrow> poll_step X nxt daemon_task s t \<Longrightarrow> t = t' \<Longrightarrow>
   poll_reachable X nxt daemon_task i t'"
  using poll_reachable.step[of X nxt daemon_task i s t] by simp

text \<open>A source of one record that comes to its end, one step after another.\<close>

fun list_next :: "('a list, 'a) iterator" where
  "list_next [] = None"
| "list_next (x # xs) = Some (x, xs)"

definition one_record :: "element \<Rightarrow> element list \<Rightarrow> bool \<Rightarrow> input_pc \<Rightarrow> status_pc \<Rightarrow> element list \<Rightarrow>
    rlink_record list \<Rightarrow> (rlink_record list, element fifo) poll_state" where
  "one_record e q running inp stat received rest =
     \<lparr>po_iterator = rest, po_queue = \<lparr>f_items = q, f_bound = None, f_rx = True, f_tx = True\<rparr>,
      po_running = running, po_coordinator = Registered, po_input = inp, po_status = stat,
      po_checkpoint = Ck_tick, po_received = received, po_finished = False\<rparr>"

abbreviation one_reached :: "(rlink_record list, element fifo) poll_state \<Rightarrow> bool" where
  "one_reached \<equiv> poll_reachable fifo_ops (element_iterator_next list_next) False [record_new]"

lemmas one_record_simps = one_record_def fifo_ops_def element_iterator_next_def relaxed_load_def

lemma one_record_ends:
  fixes e t defines "e \<equiv> ERecord record_new" and "t \<equiv> new_stream_status 10 True"
  shows "one_reached (one_record e [] False In_ok (St_check False) [e, t] [])"
proof -
  have "one_reached (poll_start fifo_ops [record_new] Registered)" by (rule poll_reachable.init)
  then have "one_reached (one_record e [] True In_next St_load [] [record_new])"
    by (simp add: poll_start_def one_record_simps named_channel_with_base_def)
  then have "one_reached (one_record e [] True (In_send e) St_load [] [])"
    by (rule reach_by[OF _ poll_step.input[OF input_step.next_some[where item = e and j = "[] :: rlink_record list"]]])
      (simp_all add: one_record_simps e_def)
  then have "one_reached (one_record e [e] True In_check St_load [] [])"
    by (rule reach_by[OF _ poll_step.input[OF input_step.send[where item = e]]])
      (simp_all add: one_record_simps)
  then have "one_reached (one_record e [e] True In_next St_load [] [])"
    by (rule reach_by[OF _ poll_step.input[OF input_step.check]]) (simp_all add: one_record_simps)
  then have "one_reached (one_record e [e] True In_store St_load [] [])"
    by (rule reach_by[OF _ poll_step.input[OF input_step.next_none]]) (simp_all add: one_record_simps)
  then have "one_reached (one_record e [e] False In_ok St_load [] [])"
    by (rule reach_by[OF _ poll_step.input[OF input_step.store]]) (simp_all add: one_record_simps)
  then have "one_reached (one_record e [e] False In_ok (St_tick False) [] [])"
    by (rule reach_by[OF _ poll_step.status[OF status_step.load[where running = False]]])
      (simp_all add: one_record_simps)
  then have "one_reached (one_record e [e] False In_ok (St_send False 10) [] [])"
    by (rule reach_by[OF _ poll_step.status[OF status_step.tick[where running = False and window_time = 10]]])
      (simp_all add: one_record_simps)
  then have "one_reached (one_record e [e, t] False In_ok (St_check False) [] [])"
    by (rule reach_by[OF _ poll_step.status[OF status_step.send[where running = False and window_time = 10]]])
      (simp_all add: one_record_simps t_def)
  then have "one_reached (one_record e [t] False In_ok (St_check False) [e] [])"
    by (rule reach_by[OF _ poll_step.element[where element = e]]) (simp_all add: one_record_simps)
  then show ?thesis
    by (rule reach_by[OF _ poll_step.element[where element = t]]) (simp_all add: one_record_simps)
qed

text \<open>A task without parents that has just been opened.\<close>

definition a_source :: "unit source_operator" where
  "a_source = projr (source_open idle_fn []
     \<lparr>o_operator_id = OperatorId 5, o_fn = (), o_context = None, so_waiting_end_flags = 0,
      so_barrier_alignment = align_new 0, so_stream_status_alignment = align_new 0,
      so_watermark_manager = [], so_counter = 0, so_end_flags = 0, so_reported_end = 0\<rparr> a_context)"

section \<open>Properties\<close>

text \<open>
  C32: A source task ends after its last record.  Three threads share the channel of a source
  task: the records of the user's iterator, the status events and the barriers.  In every
  interleaving, with stale loads of the shared flag allowed, the records handed to the next
  operator are those of the iterator, in order; and once the task has reported its end there
  is no record left in the channel, and the iterator was exhausted unless the task is a
  daemon, which also stops when the coordinator is terminating.
\<close>

theorem source_ends_after_records:
  assumes "crossbeam_fifo X contents bound rx_alive tx_alive"
    and "poll_reachable X (element_iterator_next record_next) daemon_task i s"
    and "run_all (source_run it F) op (po_received s) = Inr (op', acts)"
    and "so_reported_end op < so_reported_end op'"
  shows "\<exists>rs j. yields record_next i rs j \<and> filter is_record (emitted acts) = map ERecord rs
     \<and> filter is_record (contents (po_queue s)) = [] \<and> (record_next j = None \<or> daemon_task)"
proof -
  have k: "records_kept contents record_next i s" "end_announced contents record_next daemon_task s"
    using element_fifo.reachable_keeps[OF element_fifo.intro[OF assms(1)] assms(2)] by auto
  have e: "\<exists>e\<in>set (po_received s). is_end e" "filter is_record (emitted acts) = filter is_record (po_received s)"
    using run_all_records[OF assms(3)] assms(4) by auto
  then have ok: "po_input s = In_ok" "filter is_record (contents (po_queue s)) = []"
    "record_next (po_iterator s) = None \<or> daemon_task"
    using k(2) no_records_left by (auto simp: end_announced_def)
  then show ?thesis using k(1) e(2) by (auto simp: records_kept_def)
qed

theorem source_ends_after_records_witness:
  "\<exists>s' acts. run_all (source_run id idle_fn) a_source [ERecord record_new, new_stream_status 10 True] = Inr (s', acts)
     \<and> so_reported_end s' = 1 \<and> (\<exists>rs j. yields list_next [record_new] rs j \<and> list_next j = None
       \<and> filter is_record (emitted acts) = map ERecord rs)"
proof -
  obtain s' acts where r: "run_all (source_run id idle_fn) a_source
      [ERecord record_new, new_stream_status 10 True] = Inr (s', acts)" "so_reported_end s' = 1"
    by (auto simp: a_source_def two_parents_simps new_stream_status_def stream_status_new_def align_apply_def)
  moreover have "so_reported_end a_source = 0" by (simp add: a_source_def two_parents_simps)
  ultimately show ?thesis
    using source_ends_after_records[OF fifo.crossbeam_fifo_axioms one_record_ends, of id idle_fn a_source s' acts]
    by (auto simp: one_record_def)
qed

end
